(* ===== verification/Prelude.thy ===== *)
theory Prelude
  imports Main "HOL-Library.Word"
begin

text \<open>
  Shared ground of the development: the machine types of the source, Rust's
  \<open>Result\<close> combinators, text as UTF-8 code units, UTF-8 validation as
  \<open>core::str::from_utf8\<close> performs it, and decimal numerals as \<open>to_string\<close> and the
  zero-padded formats of \<open>core::fmt\<close> write them.

  Text is a HOL \<open>string\<close>: every HOL character is one 8-bit code unit, so a \<open>string\<close>
  is the byte sequence behind a Rust \<open>str\<close>, and \<open>length\<close> is Rust's \<open>len\<close> in bytes.
  Byte slices are lists of \<open>8 word\<close>; \<open>as_bytes\<close> and \<open>from_utf8\<close> are the two
  directions between them.
\<close>

unbundle bit_operations_syntax

type_synonym u8 = "8 word"
type_synonym u64 = "64 word"
type_synonym u128 = "128 word"
type_synonym str = string

named_theorems result_simps \<open>unfolding of the Result combinators\<close>
named_theorems byte_simps \<open>evaluation of byte and character conversions\<close>

section \<open>Results\<close>

text \<open>A fallible operation answers \<open>Inl\<close> of its error or \<open>Inr\<close> of its value;
  \<open>and_then\<close> is what the \<open>?\<close> operator does.\<close>

fun and_then :: "'e + 'a \<Rightarrow> ('a \<Rightarrow> 'e + 'b) \<Rightarrow> 'e + 'b" where
  "and_then (Inl e) f = Inl e"
| "and_then (Inr a) f = f a"

fun map_err :: "('e \<Rightarrow> 'd) \<Rightarrow> 'e + 'a \<Rightarrow> 'd + 'a" where
  "map_err f (Inl e) = Inl (f e)"
| "map_err f (Inr a) = Inr a"

fun ok_or :: "'e \<Rightarrow> 'a option \<Rightarrow> 'e + 'a" where
  "ok_or e None = Inl e"
| "ok_or e (Some a) = Inr a"

text \<open>A refusal the source reports, or a panic of an \<open>expect\<close> the source relies on
  never happening.\<close>

datatype 'e failure = Refused 'e | Panicked

fun is_ok :: "'e + 'a \<Rightarrow> bool" where
  "is_ok (Inl e) = False"
| "is_ok (Inr a) = True"

fun fold_result :: "('a \<Rightarrow> 's \<Rightarrow> 'e + 's) \<Rightarrow> 'a list \<Rightarrow> 's \<Rightarrow> 'e + 's" where
  "fold_result f [] s = Inr s"
| "fold_result f (x # xs) s = and_then (f x s) (fold_result f xs)"

lemma and_then_cong [fundef_cong]:
  "x = y \<Longrightarrow> (\<And>a. y = Inr a \<Longrightarrow> f a = g a) \<Longrightarrow> and_then x f = and_then y g"
  by (cases y) auto

lemma and_then_Inr_iff [result_simps]:
  "and_then x f = Inr b \<longleftrightarrow> (\<exists>a. x = Inr a \<and> f a = Inr b)"
  by (cases x) auto

lemma and_then_InrE [elim!]:
  "and_then x f = Inr b \<Longrightarrow> (\<And>a. x = Inr a \<Longrightarrow> f a = Inr b \<Longrightarrow> P) \<Longrightarrow> P"
  by (cases x) auto

lemma and_then_Inl_iff [result_simps]:
  "and_then x f = Inl e \<longleftrightarrow> x = Inl e \<or> (\<exists>a. x = Inr a \<and> f a = Inl e)"
  by (cases x) auto

lemma and_then_assoc: "and_then (and_then x f) g = and_then x (\<lambda>a. and_then (f a) g)"
  by (cases x) auto

lemma and_then_Inr_right [simp]: "and_then x Inr = x"
  by (cases x) auto

lemma ok_or_Inr_iff [result_simps]: "ok_or e x = Inr a \<longleftrightarrow> x = Some a"
  by (cases x) auto

lemma ok_or_Inl_iff [result_simps]: "ok_or e x = Inl e' \<longleftrightarrow> x = None \<and> e = e'"
  by (cases x) auto

lemma map_err_Inr_iff [result_simps]: "map_err f x = Inr a \<longleftrightarrow> x = Inr a"
  by (cases x) auto

lemma map_err_Inl_iff [result_simps]: "map_err f x = Inl e \<longleftrightarrow> (\<exists>d. x = Inl d \<and> e = f d)"
  by (cases x) auto

lemma is_ok_iff: "is_ok x \<longleftrightarrow> (\<exists>a. x = Inr a)"
  by (cases x) auto

lemma fold_result_append:
  "fold_result f (xs @ ys) s = and_then (fold_result f xs s) (fold_result f ys)"
proof (induction xs arbitrary: s)
  case (Cons x xs)
  then have "fold_result f (xs @ ys) = (\<lambda>t. and_then (fold_result f xs t) (fold_result f ys))"
    by blast
  then show ?case by (simp add: and_then_assoc)
qed simp

lemma fold_result_cong [fundef_cong]:
  "xs = ys \<Longrightarrow> s = t \<Longrightarrow> (\<And>x u. x \<in> set ys \<Longrightarrow> f x u = g x u) \<Longrightarrow>
   fold_result f xs s = fold_result g ys t"
proof (induction ys arbitrary: xs s t)
  case (Cons y ys)
  have "fold_result f ys = fold_result g ys"
    using Cons.IH [OF refl refl] Cons.prems(3) by fastforce
  with Cons.prems show ?case by simp
qed auto

text \<open>The first answer among optional ones.\<close>

fun first_some :: "'a option list \<Rightarrow> 'a option" where
  "first_some [] = None"
| "first_some (x # xs) = (case x of None \<Rightarrow> first_some xs | Some a \<Rightarrow> Some a)"

lemma first_some_None: "first_some xs = None \<longleftrightarrow> list_all (\<lambda>x. x = None) xs"
  by (induction xs) (auto split: option.splits)

section \<open>Bytes and text\<close>

definition byte_of :: "char \<Rightarrow> u8" where
  "byte_of c = word_of_nat (of_char c)"

definition char_of_byte :: "u8 \<Rightarrow> char" where
  "char_of_byte b = char_of (unat b)"

definition as_bytes :: "str \<Rightarrow> u8 list" where
  "as_bytes s = map byte_of s"

definition text_of :: "u8 list \<Rightarrow> str" where
  "text_of bs = map char_of_byte bs"

lemma of_char_lt_256 [simp]: "(of_char c :: nat) < 256"
proof -
  have "(of_char c :: nat) mod 256 = of_char c" by (rule of_char_mod_256)
  then show ?thesis by (metis mod_less_divisor zero_less_numeral)
qed

lemma unat_byte_of [byte_simps]: "unat (byte_of c) = of_char c"
  by (simp add: byte_of_def unat_of_nat take_bit_eq_mod)

lemma char_of_byte_of [simp]: "char_of_byte (byte_of c) = c"
  by (simp add: char_of_byte_def unat_byte_of)

lemma byte_of_char_of_byte [simp]: "byte_of (char_of_byte b) = b"
proof -
  have "unat b < 256" using unsigned_less [of b] by simp
  then have "unat (byte_of (char_of_byte b)) = unat b"
    by (simp add: unat_byte_of char_of_byte_def)
  then show ?thesis by (simp add: word_unat_eq_iff)
qed

lemma text_of_as_bytes [simp]: "text_of (as_bytes s) = s"
  by (simp add: text_of_def as_bytes_def comp_def)

lemma as_bytes_text_of [simp]: "as_bytes (text_of bs) = bs"
  by (simp add: text_of_def as_bytes_def comp_def)

lemma length_as_bytes [simp]: "length (as_bytes s) = length s"
  by (simp add: as_bytes_def)

lemma length_text_of [simp]: "length (text_of bs) = length bs"
  by (simp add: text_of_def)

lemma as_bytes_inject [simp]: "as_bytes s = as_bytes t \<longleftrightarrow> s = t"
  by (metis text_of_as_bytes)

lemma as_bytes_simps [simp]:
  "as_bytes [] = []" "as_bytes (c # s) = byte_of c # as_bytes s"
  "as_bytes (s @ t) = as_bytes s @ as_bytes t"
  by (simp_all add: as_bytes_def)

text \<open>\<open>core::str::from_utf8\<close>: the well-formed byte sequences of the Unicode standard,
  with no overlong form, no surrogate and nothing past U+10FFFF.\<close>

definition cont_byte :: "u8 \<Rightarrow> bool" where
  "cont_byte b \<longleftrightarrow> 0x80 \<le> b \<and> b \<le> 0xBF"

fun utf8 :: "u8 list \<Rightarrow> bool" where
  "utf8 [] = True"
| "utf8 (a # r) =
    (if a < 0x80 then utf8 r
     else if 0xC2 \<le> a \<and> a \<le> 0xDF then
       (case r of b # r1 \<Rightarrow> cont_byte b \<and> utf8 r1 | _ \<Rightarrow> False)
     else if 0xE0 \<le> a \<and> a \<le> 0xEF then
       (case r of b # c # r2 \<Rightarrow>
          (if a = 0xE0 then 0xA0 \<le> b \<and> b \<le> 0xBF
           else if a = 0xED then 0x80 \<le> b \<and> b \<le> 0x9F
           else cont_byte b) \<and> cont_byte c \<and> utf8 r2
        | _ \<Rightarrow> False)
     else if 0xF0 \<le> a \<and> a \<le> 0xF4 then
       (case r of b # c # d # r3 \<Rightarrow>
          (if a = 0xF0 then 0x90 \<le> b \<and> b \<le> 0xBF
           else if a = 0xF4 then 0x80 \<le> b \<and> b \<le> 0x8F
           else cont_byte b) \<and> cont_byte c \<and> cont_byte d \<and> utf8 r3
        | _ \<Rightarrow> False)
     else False)"

declare utf8.simps(2) [simp del]

definition from_utf8 :: "u8 list \<Rightarrow> str option" where
  "from_utf8 bs = (if utf8 bs then Some (text_of bs) else None)"

definition is_text :: "str \<Rightarrow> bool" where
  "is_text s \<longleftrightarrow> utf8 (as_bytes s)"

lemma from_utf8_Some [result_simps]: "from_utf8 bs = Some s \<longleftrightarrow> is_text s \<and> bs = as_bytes s"
  by (auto simp: from_utf8_def is_text_def)

lemma from_utf8_None [result_simps]: "from_utf8 bs = None \<longleftrightarrow> \<not> utf8 bs"
  by (simp add: from_utf8_def)

text \<open>Text of ASCII characters is UTF-8.\<close>

definition ascii :: "char \<Rightarrow> bool" where
  "ascii c \<longleftrightarrow> (of_char c :: nat) < 128"

lemma byte_of_less_128: "byte_of c < 0x80 \<longleftrightarrow> ascii c"
  by (simp add: word_less_nat_alt unat_byte_of ascii_def)

lemma ascii_is_text: "list_all ascii s \<Longrightarrow> is_text s"
  by (induction s) (auto simp: is_text_def utf8.simps byte_of_less_128)

section \<open>Decimal numerals\<close>

definition is_digit :: "char \<Rightarrow> bool" where
  "is_digit c \<longleftrightarrow> 48 \<le> (of_char c :: nat) \<and> (of_char c :: nat) \<le> 57"

definition digit_val :: "char \<Rightarrow> nat" where
  "digit_val c = of_char c - 48"

definition digit_char :: "nat \<Rightarrow> char" where
  "digit_char n = char_of (48 + n)"

lemma digit_char_ok [simp]:
  assumes "n < 10"
  shows "is_digit (digit_char n)" and "digit_val (digit_char n) = n"
  using assms by (simp_all add: is_digit_def digit_val_def digit_char_def)

lemma digit_char_val [simp]: "is_digit c \<Longrightarrow> digit_char (digit_val c) = c"
  by (simp add: is_digit_def digit_val_def digit_char_def)

lemma digit_val_less [simp]: "is_digit c \<Longrightarrow> digit_val c < 10"
  by (auto simp: is_digit_def digit_val_def)

lemma digit_char_eq_0 [simp]: "n < 10 \<Longrightarrow> digit_char n = CHR ''0'' \<longleftrightarrow> n = 0"
  by (simp add: digit_char_def char_of_eq_iff take_bit_eq_mod)

lemma is_digit_zero [simp]: "is_digit (CHR ''0'')"
  by (simp add: is_digit_def)

lemma digit_val_zero [simp]: "digit_val (CHR ''0'') = 0"
  by (simp add: digit_val_def)

lemma is_digit_ascii: "is_digit c \<Longrightarrow> ascii c"
  by (simp add: is_digit_def ascii_def)

text \<open>\<open>dec_val\<close> is the value of a digit string, read most significant digit first;
  \<open>show_nat\<close> is \<open>to_string\<close> on an unsigned integer; \<open>pad_nat w\<close> is the format
  \<open>{:0w}\<close>.\<close>

definition dec_val :: "str \<Rightarrow> nat" where
  "dec_val s = foldl (\<lambda>v c. v * 10 + digit_val c) 0 s"

fun show_nat :: "nat \<Rightarrow> str" where
  "show_nat n = (if n < 10 then [digit_char n] else show_nat (n div 10) @ [digit_char (n mod 10)])"

declare show_nat.simps [simp del]

definition pad_nat :: "nat \<Rightarrow> nat \<Rightarrow> str" where
  "pad_nat w n = replicate (w - length (show_nat n)) (CHR ''0'') @ show_nat n"

lemma dec_val_simps [simp]:
  "dec_val [] = 0" "dec_val (s @ [c]) = dec_val s * 10 + digit_val c"
  by (simp_all add: dec_val_def)

lemma show_nat_digits: "list_all is_digit (show_nat n)"
  by (induction n rule: show_nat.induct) (subst show_nat.simps, simp)

lemma dec_val_show_nat [simp]: "dec_val (show_nat n) = n"
proof (induction n rule: show_nat.induct)
  case (1 n)
  show ?case
  proof (cases "n < 10")
    case True
    then show ?thesis using dec_val_simps(2) [of "[]" "digit_char n"]
      by (simp add: show_nat.simps [of n])
  next
    case False
    with 1 show ?thesis by (simp add: show_nat.simps [of n])
  qed
qed

lemma show_nat_nonempty [simp]: "show_nat n \<noteq> []"
  by (subst show_nat.simps) auto

lemma show_nat_inject [simp]: "show_nat m = show_nat n \<longleftrightarrow> m = n"
  by (metis dec_val_show_nat)

lemma show_nat_leading:
  "n \<noteq> 0 \<Longrightarrow> hd (show_nat n) \<noteq> CHR ''0''"
proof (induction n rule: show_nat.induct)
  case (1 n)
  show ?case
  proof (cases "n < 10")
    case True
    with "1.prems" show ?thesis by (simp add: show_nat.simps [of n])
  next
    case False
    then have "n div 10 \<noteq> 0" by simp
    with 1(1) False have "hd (show_nat (n div 10)) \<noteq> CHR ''0''" by blast
    with False show ?thesis by (simp add: show_nat.simps [of n])
  qed
qed

lemma show_nat_0 [simp]: "show_nat 0 = ''0''"
  by (simp add: show_nat.simps)

lemma length_show_nat_le: "n < 10 ^ w \<Longrightarrow> 0 < w \<Longrightarrow> length (show_nat n) \<le> w"
proof (induction n arbitrary: w rule: show_nat.induct)
  case (1 n)
  show ?case
  proof (cases "n < 10")
    case True
    with "1.prems" show ?thesis by (simp add: show_nat.simps [of n])
  next
    case False
    then obtain v where w: "w = Suc v" and v: "0 < v"
      using "1.prems" by (cases w; cases "w - 1") auto
    have "n div 10 < 10 ^ v" using "1.prems" w by (simp add: less_mult_imp_div_less mult.commute)
    with 1 False v have "length (show_nat (n div 10)) \<le> v" by blast
    with False w show ?thesis by (simp add: show_nat.simps [of n])
  qed
qed

lemma dec_val_Cons: "dec_val (c # s) = digit_val c * 10 ^ length s + dec_val s"
proof (induction s rule: rev_induct)
  case Nil
  show ?case using dec_val_simps(2) [of "[]" c] by simp
next
  case (snoc d s)
  then show ?case using dec_val_simps(2) [of "c # s" d] by simp
qed

lemma dec_val_zeros: "dec_val (replicate k (CHR ''0'') @ s) = dec_val s"
  by (induction k) (simp_all add: dec_val_Cons)

lemma pad_nat_digits: "list_all is_digit (pad_nat w n)"
  using show_nat_digits [of n] by (auto simp: pad_nat_def list_all_iff)

lemma dec_val_pad_nat [simp]: "dec_val (pad_nat w n) = n"
  by (simp add: pad_nat_def dec_val_zeros)

lemma length_pad_nat: "n < 10 ^ w \<Longrightarrow> 0 < w \<Longrightarrow> length (pad_nat w n) = w"
  using length_show_nat_le [of n w] by (simp add: pad_nat_def)

text \<open>A digit string with no leading zero is the numeral of its value.\<close>

lemma dec_val_less: "list_all is_digit s \<Longrightarrow> dec_val s < 10 ^ length s"
proof (induction s rule: rev_induct)
  case (snoc c s)
  then have "dec_val s < 10 ^ length s" and "digit_val c < 10" by auto
  then show ?case by simp
qed simp

lemma dec_val_pos:
  "list_all is_digit s \<Longrightarrow> s \<noteq> [] \<Longrightarrow> hd s \<noteq> CHR ''0'' \<Longrightarrow> 0 < dec_val s"
proof (induction s rule: rev_induct)
  case (snoc c s)
  show ?case
  proof (cases "s = []")
    case True
    have "digit_val c \<noteq> 0"
    proof
      assume "digit_val c = 0"
      then have "digit_char (digit_val c) = CHR ''0''" by simp
      with snoc.prems True show False by simp
    qed
    with True show ?thesis using dec_val_simps(2) [of "[]" c] by simp
  next
    case False
    with snoc have "0 < dec_val s" by simp
    then show ?thesis by simp
  qed
qed simp

lemma show_nat_dec_val:
  "list_all is_digit s \<Longrightarrow> s \<noteq> [] \<Longrightarrow> length s = 1 \<or> hd s \<noteq> CHR ''0'' \<Longrightarrow>
   show_nat (dec_val s) = s"
proof (induction s rule: rev_induct)
  case (snoc c s)
  show ?case
  proof (cases "s = []")
    case True
    with snoc.prems have d: "is_digit c" by simp
    then have "digit_val c < 10" by simp
    with True d show ?thesis using dec_val_simps(2) [of "[]" c]
      by (simp add: show_nat.simps [of "digit_val c"])
  next
    case False
    with snoc.prems have "hd s \<noteq> CHR ''0''" by simp
    with False snoc have IH: "show_nat (dec_val s) = s" and pos: "0 < dec_val s"
      by (auto intro: dec_val_pos)
    have d: "digit_val c < 10" using snoc.prems by simp
    have "(dec_val s * 10 + digit_val c) div 10 = dec_val s" using d by simp
    moreover have "(dec_val s * 10 + digit_val c) mod 10 = digit_val c" using d by simp
    moreover have "\<not> dec_val s * 10 + digit_val c < 10" using pos by simp
    ultimately show ?thesis using IH snoc.prems
      by (simp add: show_nat.simps [of "dec_val s * 10 + digit_val c"])
  qed
qed simp

end
