(* ===== verification/Merge_Path.thy ===== *)
theory Merge_Path
  imports Prelude
begin

text \<open>
  The spelling of a place inside a merged value, \<open>value/merge/path.rs\<close>: \<open>render\<close> prints a
  list of segments, \<open>parse\<close> reads one. The loops go over the text that is left, with
  \<open>first\<close> for \<open>at == 0\<close>. Every character these functions test is ASCII, so they read
  the bytes of a UTF-8 text as the source reads its characters.
\<close>

definition is_digits :: "str \<Rightarrow> bool" where
  "is_digits segment \<longleftrightarrow> segment \<noteq> [] \<and> list_all is_digit segment"

definition name_ends :: "char \<Rightarrow> bool" where
  "name_ends c \<longleftrightarrow> c = CHR ''.'' \<or> c = CHR ''['' \<or> c = CHR '']''"

definition needs_quotes :: "str \<Rightarrow> bool" where
  "needs_quotes segment \<longleftrightarrow> segment = [] \<or> list_ex name_ends segment"

text \<open>The characters of a quoted segment, each \<open>"\<close> and \<open>\\<close> behind a \<open>\\<close>.\<close>

definition DQ :: char where "DQ = CHR 0x22"
definition BSL :: char where "BSL = CHR 0x5C"

fun escaped :: "str \<Rightarrow> str" where
  "escaped [] = []"
| "escaped (c # s) = (if c = DQ \<or> c = BSL then [BSL, c] else [c]) @ escaped s"

definition render_segment :: "bool \<Rightarrow> str \<Rightarrow> str" where
  "render_segment first segment =
     (if is_digits segment then ''['' @ segment @ '']''
      else if needs_quotes segment then ''['' @ [DQ] @ escaped segment @ [DQ] @ '']''
      else (if first then [] else ''.'') @ segment)"

fun render_from :: "bool \<Rightarrow> str list \<Rightarrow> str" where
  "render_from first [] = []"
| "render_from first (segment # segments) = render_segment first segment @ render_from False segments"

definition render :: "str list \<Rightarrow> str" where
  "render segments = render_from True segments"

fun quoted_segment :: "str \<Rightarrow> str \<Rightarrow> (str \<times> str) option" where
  "quoted_segment segment [] = None"
| "quoted_segment segment (c # r) =
     (if c = DQ then Some (segment, r)
      else if c = BSL then
        (case r of [] \<Rightarrow> None | d # r' \<Rightarrow> quoted_segment (segment @ [d]) r')
      else quoted_segment (segment @ [c]) r)"

fun bare_segment :: "str \<Rightarrow> str \<Rightarrow> (str \<times> str) option" where
  "bare_segment segment [] = Some (segment, [])"
| "bare_segment segment (c # r) =
     (if c = CHR '']'' then Some (segment, c # r)
      else if c = CHR ''['' then None
      else bare_segment (segment @ [c]) r)"

text \<open>What follows a \<open>[\<close>: the segment and the text at its \<open>]\<close>, then past it.\<close>

definition bracket_body :: "str \<Rightarrow> (str \<times> str) option" where
  "bracket_body r =
     (if r \<noteq> [] \<and> hd r = DQ then quoted_segment [] (tl r)
      else Option.bind (bare_segment [] r) (\<lambda>(segment, r').
             if segment = [] then None else Some (segment, r')))"

definition bracket_segment :: "str \<Rightarrow> (str \<times> str) option" where
  "bracket_segment r =
     (case bracket_body r of
        Some (segment, c # r') \<Rightarrow> if c = CHR '']'' then Some (segment, r') else None
      | _ \<Rightarrow> None)"

definition name :: "str \<Rightarrow> (str \<times> str) option" where
  "name r =
     (let n = takeWhile (\<lambda>c. \<not> name_ends c) r
      in if n = [] then None else Some (n, drop (length n) r))"

text \<open>One turn of the loop of \<open>parse\<close>: a segment off a text that is not empty.\<close>

definition parse_segment :: "bool \<Rightarrow> str \<Rightarrow> (str \<times> str) option" where
  "parse_segment first r =
     (if hd r = CHR ''['' then bracket_segment (tl r)
      else if hd r = CHR ''.'' \<and> \<not> first then name (tl r)
      else if first then name r
      else None)"

lemma quoted_segment_length: "quoted_segment s r = Some (seg, r') \<Longrightarrow> length r' < length r"
  by (induction s r rule: quoted_segment.induct)
     (auto split: if_splits list.splits dest: less_SucI)

lemma bare_segment_length: "bare_segment s r = Some (seg, r') \<Longrightarrow> length r' \<le> length r"
  by (induction s r rule: bare_segment.induct) (auto split: if_splits)

lemma bracket_body_length: "bracket_body r = Some (seg, r') \<Longrightarrow> length r' \<le> length r"
proof (cases "r \<noteq> [] \<and> hd r = DQ")
  case True
  assume "bracket_body r = Some (seg, r')"
  then show ?thesis using True quoted_segment_length [of "[]" "tl r" seg r'] by (simp add: bracket_body_def)
next
  case False
  assume "bracket_body r = Some (seg, r')"
  then have "bare_segment [] r = Some (seg, r')" using False
    by (cases "bare_segment [] r") (auto simp: bracket_body_def split: if_splits)
  then show ?thesis by (rule bare_segment_length)
qed

lemma bracket_segment_length: "bracket_segment r = Some (seg, r') \<Longrightarrow> length r' \<le> length r"
  by (auto simp: bracket_segment_def dest!: bracket_body_length split: option.splits list.splits if_splits)

lemma parse_segment_length:
  "r \<noteq> [] \<Longrightarrow> parse_segment first r = Some (seg, r') \<Longrightarrow> length r' < length r"
  by (cases r)
     (auto simp: parse_segment_def name_def Let_def dest!: bracket_segment_length split: if_splits)

function parse_loop :: "bool \<Rightarrow> str list \<Rightarrow> str \<Rightarrow> str list option" where
  "parse_loop first out r =
     (if r = [] then Some out
      else case parse_segment first r of
        None \<Rightarrow> None
      | Some (segment, r') \<Rightarrow> parse_loop False (out @ [segment]) r')"
  by pat_completeness auto
termination
  by (relation "measure (\<lambda>(f, out, r). length r)") (auto dest: parse_segment_length)

declare parse_loop.simps [simp del]

definition parse :: "str \<Rightarrow> str list option" where
  "parse t = parse_loop True [] t"

section \<open>A rendered path parses back\<close>

lemma quoted_escaped: "quoted_segment acc (escaped s @ DQ # r) = Some (acc @ s, r)"
proof (induction s arbitrary: acc)
  case (Cons c s)
  then show ?case by (cases "c = DQ"; cases "c = BSL") (auto simp: DQ_def BSL_def)
qed (simp add: DQ_def)

lemma bare_digits:
  "list_all (\<lambda>c. c \<noteq> CHR ''['' \<and> c \<noteq> CHR '']'') s \<Longrightarrow>
   bare_segment acc (s @ CHR '']'' # r) = Some (acc @ s, CHR '']'' # r)"
  by (induction s arbitrary: acc) auto

lemma digit_plain: "is_digit c \<Longrightarrow> c \<noteq> CHR ''['' \<and> c \<noteq> CHR '']'' \<and> c \<noteq> DQ"
  by (auto simp: is_digit_def DQ_def)

lemma bracket_digits: "is_digits s \<Longrightarrow> bracket_segment (s @ CHR '']'' # r) = Some (s, r)"
proof -
  assume d: "is_digits s"
  then have "list_all (\<lambda>c. c \<noteq> CHR ''['' \<and> c \<noteq> CHR '']'') s"
    by (auto simp: is_digits_def list_all_iff dest: digit_plain)
  then have "bare_segment [] (s @ CHR '']'' # r) = Some (s, CHR '']'' # r)"
    using bare_digits [of s "[]" r] by simp
  moreover have "s \<noteq> []" "hd (s @ CHR '']'' # r) \<noteq> DQ"
    using d by (cases s; auto simp: is_digits_def dest: digit_plain)+
  ultimately show ?thesis by (simp add: bracket_segment_def bracket_body_def)
qed

lemma bracket_quoted: "bracket_segment (DQ # escaped s @ DQ # CHR '']'' # r) = Some (s, r)"
  by (simp add: bracket_segment_def bracket_body_def quoted_escaped)

lemma name_complete:
  assumes "\<not> needs_quotes s" "r = [] \<or> name_ends (hd r)"
  shows "name (s @ r) = Some (s, r)"
proof -
  have "takeWhile (\<lambda>c. \<not> name_ends c) (s @ r) = s"
    using assms by (cases r) (auto simp: needs_quotes_def list_ex_iff takeWhile_append)
  then show ?thesis using assms(1) by (simp add: name_def needs_quotes_def)
qed

lemma render_from_False: "render_from False p = [] \<or> name_ends (hd (render_from False p))"
  by (cases p) (auto simp: render_segment_def name_ends_def)

lemma parse_segment_render:
  "parse_segment first (render_segment first s @ render_from False p) = Some (s, render_from False p) \<and>
   render_segment first s \<noteq> []"
proof (cases "is_digits s \<or> needs_quotes s")
  case True
  then show ?thesis
    by (auto simp: parse_segment_def render_segment_def bracket_digits bracket_quoted)
next
  case False
  then have n: "name (s @ render_from False p) = Some (s, render_from False p)"
    by (intro name_complete) (simp_all add: render_from_False)
  have "s \<noteq> []" "\<not> name_ends (hd s)"
    using False by (cases s; auto simp: needs_quotes_def)+
  then have h: "hd (s @ render_from False p) \<noteq> CHR ''[''" by (auto simp: name_ends_def)
  then show ?thesis using False n \<open>s \<noteq> []\<close> by (auto simp: parse_segment_def render_segment_def)
qed

lemma parse_loop_render: "parse_loop first out (render_from first p) = Some (out @ p)"
proof (induction p arbitrary: first out)
  case (Cons s p)
  then show ?case
    using parse_segment_render [of first s p] by (subst parse_loop.simps) auto
qed (simp add: parse_loop.simps)

lemma parse_render: "parse (render p) = Some p"
  by (simp add: parse_def render_def parse_loop_render)

section \<open>Properties\<close>

text \<open>Every list of segments, whatever characters they hold, parses back from its
  spelling.\<close>

theorem merge_path_round_trip: "parse (render p) = Some p"
  by (rule parse_render)

end
