(* ===== verification/Values.thy ===== *)
theory Values
  imports Prelude
begin

text \<open>
  The value model of \<open>crates/guatiao/src/value\<close>: the tags, the node, the errors a
  write reports, the JSON number grammar every NUMBER's text is checked against, the
  doors through which a node's content is read, and the whole-tree walks (equality,
  copying, the input fed to a hasher), each written in the source as a loop over an
  explicit stack.

  A node is its tag and the live arm of its payload. A foreign producer may write any
  bytes under a tag, so the text of a string or number and the keys of a map are
  arbitrary byte strings here, and the doors (\<open>holds_text\<close> and the rest) check them as
  the code does. \<open>VUnknown k\<close> is a node whose raw tag is \<open>8 + k\<close>, which this build
  does not know. Allocators are not part of the model: a value is its content, every
  allocation succeeds, and the errors an allocator raises do not occur.
\<close>

section \<open>Tags, nodes and errors\<close>

datatype tag =
    GUATIAO_ABSENT | GUATIAO_NULL | GUATIAO_BOOL | GUATIAO_NUMBER
  | GUATIAO_STRING | GUATIAO_BYTES | GUATIAO_LIST | GUATIAO_MAP

datatype value_error =
    NotANumber | NotUtf8 | WrongKind | UnknownTag nat | OutOfRange | TooDeep
  | DuplicateKey | Unrepresentable | Unparsed nat string

definition MAX_DEPTH :: nat where "MAX_DEPTH = 128"

datatype Value =
    VAbsent
  | VNull
  | VBool bool
  | VNumber str
  | VString str
  | VBytes "u8 list"
  | VList "Value list"
  | VMap "(str \<times> Value) list"
  | VUnknown nat

type_synonym entry = "str \<times> Value"
type_synonym map_entries = "entry list"

definition tag_try_from :: "nat \<Rightarrow> value_error + tag" where
  "tag_try_from raw =
     (if raw = 0 then Inr GUATIAO_ABSENT
      else if raw = 1 then Inr GUATIAO_NULL
      else if raw = 2 then Inr GUATIAO_BOOL
      else if raw = 3 then Inr GUATIAO_NUMBER
      else if raw = 4 then Inr GUATIAO_STRING
      else if raw = 5 then Inr GUATIAO_BYTES
      else if raw = 6 then Inr GUATIAO_LIST
      else if raw = 7 then Inr GUATIAO_MAP
      else Inl (UnknownTag raw))"

fun tag_u32 :: "tag \<Rightarrow> nat" where
  "tag_u32 GUATIAO_ABSENT = 0"
| "tag_u32 GUATIAO_NULL = 1"
| "tag_u32 GUATIAO_BOOL = 2"
| "tag_u32 GUATIAO_NUMBER = 3"
| "tag_u32 GUATIAO_STRING = 4"
| "tag_u32 GUATIAO_BYTES = 5"
| "tag_u32 GUATIAO_LIST = 6"
| "tag_u32 GUATIAO_MAP = 7"

fun raw_tag :: "Value \<Rightarrow> nat" where
  "raw_tag VAbsent = 0"
| "raw_tag VNull = 1"
| "raw_tag (VBool b) = 2"
| "raw_tag (VNumber t) = 3"
| "raw_tag (VString t) = 4"
| "raw_tag (VBytes b) = 5"
| "raw_tag (VList xs) = 6"
| "raw_tag (VMap es) = 7"
| "raw_tag (VUnknown k) = 8 + k"

definition tag_of :: "Value \<Rightarrow> value_error + tag" where
  "tag_of v = tag_try_from (raw_tag v)"

lemma tag_try_from_u32 [simp]: "tag_try_from (tag_u32 t) = Inr t"
  by (cases t) (simp_all add: tag_try_from_def)

lemma tag_try_from_Inr: "tag_try_from n = Inr t \<longleftrightarrow> n = tag_u32 t"
  by (cases t) (auto simp: tag_try_from_def split: if_splits)

lemma tag_u32_less [simp]: "tag_u32 t < 8"
  by (cases t) simp_all

lemma tag_of_simps [simp]:
  "tag_of VAbsent = Inr GUATIAO_ABSENT"
  "tag_of VNull = Inr GUATIAO_NULL"
  "tag_of (VBool b) = Inr GUATIAO_BOOL"
  "tag_of (VNumber t) = Inr GUATIAO_NUMBER"
  "tag_of (VString t) = Inr GUATIAO_STRING"
  "tag_of (VBytes bs) = Inr GUATIAO_BYTES"
  "tag_of (VList xs) = Inr GUATIAO_LIST"
  "tag_of (VMap es) = Inr GUATIAO_MAP"
  "tag_of (VUnknown k) = Inl (UnknownTag (8 + k))"
  by (simp_all add: tag_of_def tag_try_from_def)

text \<open>Structural induction over a tree, with the entries of a map as pairs.\<close>

lemma value_induct [case_names Absent Null Bool Number String Bytes List Map Unknown]:
  assumes "P VAbsent" "P VNull" "\<And>b. P (VBool b)" "\<And>t. P (VNumber t)" "\<And>t. P (VString t)"
    "\<And>bs. P (VBytes bs)" "\<And>xs. (\<And>x. x \<in> set xs \<Longrightarrow> P x) \<Longrightarrow> P (VList xs)"
    "\<And>es. (\<And>k v. (k, v) \<in> set es \<Longrightarrow> P v) \<Longrightarrow> P (VMap es)" "\<And>k. P (VUnknown k)"
  shows "P v"
proof (induction v)
  case (VMap es)
  then show ?case using assms(8) by (metis snds.intros snd_conv)
qed (use assms in auto)

lemma size_list_member: "x \<in> set xs \<Longrightarrow> size (x::Value) < Suc (size_list size xs)"
  by (induction xs) auto

lemma size_entry_member:
  "(k, v) \<in> set es \<Longrightarrow> size (v::Value) < Suc (size_list (size_prod (\<lambda>_. 0) size) es)"
  by (induction es) auto

text \<open>How many nodes a walk has in front of it: the measure of the stack machines below.\<close>

function weight :: "Value \<Rightarrow> nat" where
  "weight (VList xs) = 3 + sum_list (map weight xs)"
| "weight (VMap es) = 3 + sum_list (map (\<lambda>e. weight (snd e)) es)"
| "weight VAbsent = 1"
| "weight VNull = 1"
| "weight (VBool b) = 1"
| "weight (VNumber t) = 1"
| "weight (VString t) = 1"
| "weight (VBytes bs) = 1"
| "weight (VUnknown k) = 1"
  by pat_completeness auto
termination
  by (relation "measure size") (auto simp: size_list_member size_entry_member less_Suc_eq_le
      dest: size_list_member size_entry_member)

lemma weight_pos [simp]: "0 < weight v"
  by (cases v) auto

section \<open>The JSON number grammar\<close>

text \<open>The code unit at an index, \<open>bytes.get(i)\<close>.\<close>

definition at :: "str \<Rightarrow> nat \<Rightarrow> char option" where
  "at bytes i = (if i < length bytes then Some (bytes ! i) else None)"

definition at_digit :: "str \<Rightarrow> nat \<Rightarrow> bool" where
  "at_digit bytes i \<longleftrightarrow> (case at bytes i of Some c \<Rightarrow> is_digit c | None \<Rightarrow> False)"

text \<open>The loop \<open>while matches!(at(bytes, i), Some(b'0'..=b'9')) \{ i += 1; \}\<close>.\<close>

function skip_digits :: "str \<Rightarrow> nat \<Rightarrow> nat" where
  "skip_digits bytes i = (if at_digit bytes i then skip_digits bytes (Suc i) else i)"
  by pat_completeness auto
termination
  by (relation "measure (\<lambda>(b, i). length b - i)")
     (auto simp: at_digit_def at_def split: if_splits)

declare skip_digits.simps [simp del]

definition number_int :: "str \<Rightarrow> nat \<Rightarrow> nat + nat" where
  "number_int bytes i =
     (case at bytes i of
        Some c \<Rightarrow>
          if c = CHR ''0'' then Inr (i + 1)
          else if is_digit c then Inr (skip_digits bytes (i + 1))
          else Inl i
      | None \<Rightarrow> Inl i)"

definition number_frac :: "str \<Rightarrow> nat \<Rightarrow> nat + nat" where
  "number_frac bytes i =
     (if at bytes i = Some (CHR ''.'') then
        if \<not> at_digit bytes (i + 1) then Inl (i + 1) else Inr (skip_digits bytes (i + 1))
      else Inr i)"

definition number_exp :: "str \<Rightarrow> nat \<Rightarrow> nat + nat" where
  "number_exp bytes i =
     (if at bytes i = Some (CHR ''e'') \<or> at bytes i = Some (CHR ''E'') then
        let j = (if at bytes (i + 1) = Some (CHR ''+'') \<or> at bytes (i + 1) = Some (CHR ''-'')
                 then i + 2 else i + 1)
        in if \<not> at_digit bytes j then Inl j else Inr (skip_digits bytes j)
      else Inr i)"

definition validate_json_number :: "str \<Rightarrow> nat + unit" where
  "validate_json_number bytes =
     (let i = (if at bytes 0 = Some (CHR ''-'') then 1 else 0)
      in and_then (number_int bytes i) (\<lambda>i.
         and_then (number_frac bytes i) (\<lambda>i.
         and_then (number_exp bytes i) (\<lambda>i.
         if i \<noteq> length bytes then Inl i else Inr ()))))"

definition is_number :: "str \<Rightarrow> bool" where
  "is_number text \<longleftrightarrow> is_ok (validate_json_number text)"

definition number_new :: "str \<Rightarrow> value_error + str" where
  "number_new text =
     (case validate_json_number text of Inl _ \<Rightarrow> Inl NotANumber | Inr _ \<Rightarrow> Inr text)"

text \<open>\<open>to_string\<close> on a signed integer, and \<open>From<i64> for Number\<close> and its siblings.\<close>

definition show_int :: "int \<Rightarrow> str" where
  "show_int v = (if v < 0 then CHR ''-'' # show_nat (nat (- v)) else show_nat (nat v))"

definition number_from_integer :: "int \<Rightarrow> value_error + str" where
  "number_from_integer v = number_new (show_int v)"

text \<open>RFC 8259, section 6, as a grammar: the specification the scanner is checked against.\<close>

definition digits1 :: "str \<Rightarrow> bool" where
  "digits1 s \<longleftrightarrow> s \<noteq> [] \<and> list_all is_digit s"

definition json_int :: "str \<Rightarrow> bool" where
  "json_int s \<longleftrightarrow> s = ''0'' \<or> (digits1 s \<and> hd s \<noteq> CHR ''0'')"

definition json_frac :: "str \<Rightarrow> bool" where
  "json_frac s \<longleftrightarrow> s = [] \<or> (\<exists>ds. s = CHR ''.'' # ds \<and> digits1 ds)"

definition json_exp :: "str \<Rightarrow> bool" where
  "json_exp s \<longleftrightarrow> s = [] \<or>
     (\<exists>e sg ds. s = e # sg @ ds \<and> e \<in> {CHR ''e'', CHR ''E''} \<and> sg \<in> {[], ''+'', ''-''} \<and>
        digits1 ds)"

definition json_number :: "str \<Rightarrow> bool" where
  "json_number s \<longleftrightarrow> (\<exists>sg ip fr ex. s = sg @ ip @ fr @ ex \<and> sg \<in> {[], ''-''} \<and>
     json_int ip \<and> json_frac fr \<and> json_exp ex)"

subsection \<open>The scanner follows the grammar\<close>

lemma at_drop: "at s i = (case drop i s of [] \<Rightarrow> None | c # _ \<Rightarrow> Some c)"
  by (cases "i < length s") (auto simp: at_def Cons_nth_drop_Suc [symmetric])

lemma at_digit_drop: "at_digit s i \<longleftrightarrow> (case drop i s of [] \<Rightarrow> False | c # _ \<Rightarrow> is_digit c)"
  by (auto simp: at_digit_def at_drop split: list.splits)

lemma skip_digits_takeWhile: "skip_digits s i = i + length (takeWhile is_digit (drop i s))"
proof (induction s i rule: skip_digits.induct)
  case (1 s i)
  show ?case
  proof (cases "at_digit s i")
    case True
    then have "drop i s = s ! i # drop (Suc i) s" "is_digit (s ! i)"
      by (auto simp: at_digit_def at_def Cons_nth_drop_Suc split: if_splits)
    with True "1.IH" show ?thesis by (simp add: skip_digits.simps [of s i])
  next
    case False
    then show ?thesis by (simp add: skip_digits.simps [of s i] at_digit_drop split: list.splits)
  qed
qed

lemma takeWhile_hd:
  "list_all P xs \<Longrightarrow> r = [] \<or> \<not> P (hd r) \<Longrightarrow> takeWhile P (xs @ r) = xs"
  by (induction xs) (auto simp: takeWhile_eq_Nil_iff)

lemma drop_shift: "drop i s = xs @ r \<Longrightarrow> drop (i + length xs) s = r"
  by (metis add.commute append_eq_conv_conj drop_drop)

lemma skip_digits_split:
  assumes "drop i s = c # r" "is_digit c"
  shows "\<exists>ds. digits1 ds \<and> drop i s = ds @ drop (skip_digits s i) s \<and> hd ds = c \<and>
    skip_digits s i = i + length ds"
proof -
  let ?ds = "takeWhile is_digit (drop i s)"
  have "?ds @ dropWhile is_digit (drop i s) = drop i s" by simp
  moreover have "drop (skip_digits s i) s = dropWhile is_digit (drop i s)"
    by (metis calculation drop_shift skip_digits_takeWhile)
  moreover have "digits1 ?ds" using assms
    by (auto simp: digits1_def list_all_iff dest: set_takeWhileD)
  moreover have "hd ?ds = c" using assms by simp
  ultimately show ?thesis by (metis skip_digits_takeWhile)
qed

lemma skip_digits_exact:
  assumes "drop i s = ds @ r" "list_all is_digit ds" "r = [] \<or> \<not> is_digit (hd r)"
  shows "skip_digits s i = i + length ds"
  using assms by (simp add: skip_digits_takeWhile takeWhile_hd)

lemma number_int_sound:
  assumes "number_int s i = Inr j"
  shows "\<exists>ip. json_int ip \<and> drop i s = ip @ drop j s \<and> j = i + length ip"
proof -
  from assms obtain c r where d: "drop i s = c # r"
    by (auto simp: number_int_def at_drop split: option.splits list.splits)
  show ?thesis
  proof (cases "c = CHR ''0''")
    case True
    with assms d have "j = i + 1" by (simp add: number_int_def at_drop)
    with True d drop_shift [of i s "''0''" r] show ?thesis
      by (intro exI [of _ "''0''"]) (auto simp: json_int_def)
  next
    case False
    with assms d have c: "is_digit c" and j: "j = skip_digits s (i + 1)"
      by (auto simp: number_int_def at_drop split: if_splits)
    have "skip_digits s i = j" using d c j
      by (simp add: skip_digits.simps [of s i] at_digit_drop)
    with skip_digits_split [OF d c] False show ?thesis by (auto simp: json_int_def)
  qed
qed

lemma number_int_complete:
  assumes "drop i s = ip @ r" "json_int ip" "r = [] \<or> \<not> is_digit (hd r)"
  shows "number_int s i = Inr (i + length ip)"
proof (cases "ip = ''0''")
  case True
  with assms show ?thesis by (simp add: number_int_def at_drop)
next
  case False
  with assms obtain c ds where ip: "ip = c # ds" "is_digit c" "c \<noteq> CHR ''0''" "list_all is_digit ds"
    by (cases ip) (auto simp: json_int_def digits1_def)
  have "drop (i + 1) s = ds @ r" using assms(1) ip drop_shift [of i s "[c]" "ds @ r"] by simp
  then have "skip_digits s (i + 1) = i + 1 + length ds"
    using ip assms(3) by (intro skip_digits_exact) auto
  with assms(1) ip show ?thesis by (simp add: number_int_def at_drop)
qed

lemma number_frac_sound:
  assumes "number_frac s i = Inr j"
  shows "\<exists>fr. json_frac fr \<and> drop i s = fr @ drop j s \<and> j = i + length fr"
proof (cases "at s i = Some (CHR ''.'')")
  case True
  then obtain r where d: "drop i s = CHR ''.'' # r" by (auto simp: at_drop split: list.splits)
  then have r: "drop (i + 1) s = r" using drop_shift [of i s "''.''" r] by simp
  from True assms have "at_digit s (i + 1)" and j: "j = skip_digits s (i + 1)"
    by (auto simp: number_frac_def split: if_splits)
  then obtain c r' where "drop (i + 1) s = c # r'" "is_digit c"
    by (auto simp: at_digit_drop split: list.splits)
  from skip_digits_split [OF this] obtain ds where
    "digits1 ds" "drop (i + 1) s = ds @ drop j s" "j = i + 1 + length ds" using j by blast
  with d r show ?thesis
    by (intro exI [of _ "CHR ''.'' # ds"]) (auto simp: json_frac_def)
next
  case False
  with assms show ?thesis by (auto simp: number_frac_def json_frac_def)
qed

lemma number_frac_complete:
  assumes "drop i s = fr @ r" "json_frac fr" "r = [] \<or> hd r \<in> {CHR ''e'', CHR ''E''}"
  shows "number_frac s i = Inr (i + length fr)"
proof (cases "fr = []")
  case True
  with assms show ?thesis by (auto simp: number_frac_def at_drop split: list.splits)
next
  case False
  with assms obtain c ds where fr: "fr = CHR ''.'' # c # ds" "is_digit c" "list_all is_digit ds"
    by (auto simp: json_frac_def digits1_def neq_Nil_conv)
  have d: "drop (i + 1) s = (c # ds) @ r"
    using assms(1) fr drop_shift [of i s "''.''" "(c # ds) @ r"] by simp
  have "r = [] \<or> \<not> is_digit (hd r)" using assms(3) by (auto simp: is_digit_def)
  with d fr have "skip_digits s (i + 1) = i + 1 + length (c # ds)"
    by (intro skip_digits_exact) auto
  with assms(1) fr d show ?thesis by (simp add: number_frac_def at_drop at_digit_drop)
qed

lemma number_exp_sound:
  assumes "number_exp s i = Inr j"
  shows "\<exists>ex. json_exp ex \<and> drop i s = ex @ drop j s \<and> j = i + length ex"
proof (cases "at s i = Some (CHR ''e'') \<or> at s i = Some (CHR ''E'')")
  case True
  then obtain e r where d: "drop i s = e # r" and e: "e \<in> {CHR ''e'', CHR ''E''}"
    by (auto simp: at_drop split: list.splits)
  have r: "drop (i + 1) s = r" using d drop_shift [of i s "[e]" r] by simp
  let ?k = "if at s (i + 1) = Some (CHR ''+'') \<or> at s (i + 1) = Some (CHR ''-'') then i + 2 else i + 1"
  from True assms have dig: "at_digit s ?k" and j: "j = skip_digits s ?k"
    by (auto simp: number_exp_def Let_def split: if_splits)
  obtain sg where sg: "sg \<in> {[], ''+'', ''-''}" "r = sg @ drop ?k s" "?k = i + 1 + length sg"
  proof (cases "at s (i + 1) = Some (CHR ''+'') \<or> at s (i + 1) = Some (CHR ''-'')")
    case True
    then obtain c r' where "drop (i + 1) s = c # r'" "c \<in> {CHR ''+'', CHR ''-''}"
      by (auto simp: at_drop split: list.splits)
    with drop_shift [of "i + 1" s "[c]" r'] r True that [of "[c]"] show ?thesis by auto
  next
    case False
    with r that [of "[]"] show ?thesis by auto
  qed
  from dig obtain c r' where "drop ?k s = c # r'" "is_digit c"
    by (auto simp: at_digit_drop split: list.splits)
  from skip_digits_split [OF this] obtain ds where
    "digits1 ds" "drop ?k s = ds @ drop j s" "j = ?k + length ds" using j by blast
  with d e sg show ?thesis
    by (intro exI [of _ "e # sg @ ds"]) (auto simp: json_exp_def)
next
  case False
  with assms show ?thesis by (auto simp: number_exp_def json_exp_def)
qed

lemma number_exp_complete:
  assumes "drop i s = ex" "json_exp ex"
  shows "number_exp s i = Inr (i + length ex)"
proof (cases "ex = []")
  case True
  with assms show ?thesis by (simp add: number_exp_def at_drop)
next
  case False
  with assms(2) obtain e sg cs where ex0: "ex = e # sg @ cs" "e \<in> {CHR ''e'', CHR ''E''}"
    "sg \<in> {[], ''+'', ''-''}" "digits1 cs"
    unfolding json_exp_def by blast
  then obtain c ds where "cs = c # ds" "is_digit c" "list_all is_digit ds"
    by (cases cs) (auto simp: digits1_def)
  with ex0 have ex: "ex = e # sg @ c # ds" "e \<in> {CHR ''e'', CHR ''E''}"
    "sg \<in> {[], ''+'', ''-''}" "is_digit c" "list_all is_digit ds" by simp_all
  have c: "c \<noteq> CHR ''+''" "c \<noteq> CHR ''-''" using ex(4) by (auto simp: is_digit_def)
  have d1: "drop (i + 1) s = sg @ c # ds"
    using assms(1) ex drop_shift [of i s "[e]" "sg @ c # ds"] by simp
  have d2: "drop (i + 1 + length sg) s = c # ds" using drop_shift [OF d1] .
  have "skip_digits s (i + 1 + length sg) = i + 1 + length sg + length (c # ds)"
    using d2 ex by (intro skip_digits_exact [where r = "[]"]) auto
  with assms(1) ex c d1 d2 show ?thesis
    by (auto simp: number_exp_def at_drop at_digit_drop Let_def)
qed

lemma validate_json_number_Inr:
  "validate_json_number s = Inr u \<longleftrightarrow>
     (\<exists>i j k. number_int s (if at s 0 = Some (CHR ''-'') then 1 else 0) = Inr i \<and>
        number_frac s i = Inr j \<and> number_exp s j = Inr k \<and> k = length s)"
  by (auto simp: validate_json_number_def result_simps split: if_splits)

lemma is_number_sound:
  assumes "is_number s"
  shows "json_number s"
proof -
  from assms obtain i j k where *: "number_int s (if at s 0 = Some (CHR ''-'') then 1 else 0) = Inr i"
    "number_frac s i = Inr j" "number_exp s j = Inr k" "k = length s"
    by (auto simp: is_number_def is_ok_iff validate_json_number_Inr)
  obtain sg where sg: "sg \<in> {[], ''-''}"
    "s = sg @ drop (if at s 0 = Some (CHR ''-'') then 1 else 0) s"
  proof (cases "at s 0 = Some (CHR ''-'')")
    case True
    then show ?thesis by (intro that [of "''-''"]) (auto simp: at_drop split: list.splits)
  next
    case False
    then show ?thesis by (intro that [of "[]"]) auto
  qed
  from number_int_sound [OF *(1)] number_frac_sound [OF *(2)] number_exp_sound [OF *(3)] *(4) sg
  show ?thesis unfolding json_number_def by (metis append_Nil2 drop_all order_refl)
qed

lemma is_number_complete:
  assumes "json_number s"
  shows "is_number s"
proof -
  from assms obtain sg ip fr ex where s: "s = sg @ ip @ fr @ ex" "sg \<in> {[], ''-''}"
    "json_int ip" "json_frac fr" "json_exp ex" by (auto simp: json_number_def)
  obtain c ip' where ip: "ip = c # ip'" "is_digit c"
    using s(3) by (cases ip) (auto simp: json_int_def digits1_def)
  then have "c \<noteq> CHR ''-''" by (auto simp: is_digit_def)
  with s ip have i: "(if at s 0 = Some (CHR ''-'') then 1 else 0) = length sg"
    by (auto simp: at_drop)
  have fe: "fr @ ex = [] \<or> \<not> is_digit (hd (fr @ ex))"
    using s(4,5) by (auto simp: json_frac_def json_exp_def is_digit_def)
  have e: "ex = [] \<or> hd ex \<in> {CHR ''e'', CHR ''E''}" using s(5) by (auto simp: json_exp_def)
  have 1: "number_int s (length sg) = Inr (length sg + length ip)"
    using s fe by (intro number_int_complete [where r = "fr @ ex"]) auto
  have 2: "number_frac s (length sg + length ip) = Inr (length sg + length ip + length fr)"
    using s e by (intro number_frac_complete [where r = ex]) auto
  have 3: "number_exp s (length sg + length ip + length fr) = Inr (length s)"
    using s number_exp_complete [of "length sg + length ip + length fr" s ex] by simp
  show "is_number s"
    unfolding is_number_def is_ok_iff using i 1 2 3 by (auto simp: validate_json_number_Inr)
qed

lemma is_number_iff: "is_number s \<longleftrightarrow> json_number s"
  using is_number_sound is_number_complete by blast

subsection \<open>Where the scanner stops\<close>

text \<open>The scanner's decision at an index depends on nothing past that index.\<close>

definition agree :: "nat \<Rightarrow> str \<Rightarrow> str \<Rightarrow> bool" where
  "agree i s t \<longleftrightarrow> i < length s \<and> i < length t \<and> take (Suc i) s = take (Suc i) t"

lemma agree_at: "agree i s t \<Longrightarrow> k \<le> i \<Longrightarrow> at t k = at s k"
  unfolding agree_def at_def by (metis le_imp_less_Suc nth_take order_le_less_trans)

lemma agree_at_digit: "agree i s t \<Longrightarrow> k \<le> i \<Longrightarrow> at_digit t k = at_digit s k"
  by (simp add: at_digit_def agree_at)

lemma skip_digits_ge: "a \<le> skip_digits s a"
  by (simp add: skip_digits_takeWhile)

lemma agree_skip_digits:
  "agree i s t \<Longrightarrow> skip_digits s a \<le> i \<Longrightarrow> skip_digits t a = skip_digits s a"
proof (induction s a rule: skip_digits.induct)
  case (1 s a)
  have "a \<le> i" using skip_digits_ge [of a s] "1.prems" by simp
  then have d: "at_digit t a = at_digit s a" using "1.prems" by (simp add: agree_at_digit)
  show ?case
  proof (cases "at_digit s a")
    case True
    with "1.prems" have "skip_digits s (Suc a) \<le> i" by (simp add: skip_digits.simps [of s a])
    with 1 True d show ?thesis by (simp add: skip_digits.simps [of s a] skip_digits.simps [of t a])
  next
    case False
    with d show ?thesis by (simp add: skip_digits.simps [of s a] skip_digits.simps [of t a])
  qed
qed

lemma number_stage_ge:
  "number_int s a = Inr j \<Longrightarrow> a < j" "number_int s a = Inl j \<Longrightarrow> j = a"
  "number_frac s a = Inr j \<Longrightarrow> a \<le> j" "number_frac s a = Inl j \<Longrightarrow> a < j"
  "number_exp s a = Inr j \<Longrightarrow> a \<le> j" "number_exp s a = Inl j \<Longrightarrow> a < j"
  by (auto simp: number_int_def number_frac_def number_exp_def Let_def skip_digits_takeWhile
      split: option.splits if_splits)

lemma agree_number_int:
  "agree i s t \<Longrightarrow> number_int s a = Inr j \<Longrightarrow> j \<le> i \<Longrightarrow> number_int t a = Inr j"
  "agree i s t \<Longrightarrow> number_int s a = Inl j \<Longrightarrow> j \<le> i \<Longrightarrow> number_int t a = Inl j"
proof -
  assume ag: "agree i s t" and r: "number_int s a = Inr j" and j: "j \<le> i"
  have "a \<le> i" using number_stage_ge(1) [OF r] j by simp
  with ag r j show "number_int t a = Inr j"
    by (auto simp: number_int_def agree_at agree_skip_digits split: option.splits if_splits)
next
  assume ag: "agree i s t" and r: "number_int s a = Inl j" and j: "j \<le> i"
  have "a \<le> i" using number_stage_ge(2) [OF r] j by simp
  with ag r show "number_int t a = Inl j"
    by (auto simp: number_int_def agree_at split: option.splits if_splits)
qed

lemma agree_number_frac:
  "agree i s t \<Longrightarrow> number_frac s a = Inr j \<Longrightarrow> j \<le> i \<Longrightarrow> number_frac t a = Inr j"
  "agree i s t \<Longrightarrow> number_frac s a = Inl j \<Longrightarrow> j \<le> i \<Longrightarrow> number_frac t a = Inl j"
proof -
  assume ag: "agree i s t" and r: "number_frac s a = Inr j" and j: "j \<le> i"
  have "a \<le> i" using number_stage_ge(3) [OF r] j by simp
  moreover have "at s a = Some (CHR ''.'') \<Longrightarrow> Suc a \<le> i"
    using r j skip_digits_ge [of "Suc a" s] by (auto simp: number_frac_def split: if_splits)
  ultimately show "number_frac t a = Inr j" using ag r j
    by (auto simp: number_frac_def agree_at agree_at_digit agree_skip_digits split: if_splits)
next
  assume ag: "agree i s t" and r: "number_frac s a = Inl j" and j: "j \<le> i"
  have "a \<le> i" using number_stage_ge(4) [OF r] j by simp
  with ag r j show "number_frac t a = Inl j"
    by (auto simp: number_frac_def agree_at agree_at_digit split: if_splits)
qed

lemma agree_number_exp:
  "agree i s t \<Longrightarrow> number_exp s a = Inr j \<Longrightarrow> j \<le> i \<Longrightarrow> number_exp t a = Inr j"
  "agree i s t \<Longrightarrow> number_exp s a = Inl j \<Longrightarrow> j \<le> i \<Longrightarrow> number_exp t a = Inl j"
proof -
  let ?e = "\<lambda>s. at s a = Some (CHR ''e'') \<or> at s a = Some (CHR ''E'')"
  let ?k = "\<lambda>s. if at s (a + 1) = Some (CHR ''+'') \<or> at s (a + 1) = Some (CHR ''-'')
    then a + 2 else a + 1"
  assume ag: "agree i s t" and r: "number_exp s a = Inr j" and j: "j \<le> i"
  have a: "a \<le> i" using number_stage_ge(5) [OF r] j by simp
  show "number_exp t a = Inr j"
  proof (cases "?e s")
    case True
    with r have d: "at_digit s (?k s)" and jk: "j = skip_digits s (?k s)"
      by (auto simp: number_exp_def Let_def split: if_splits)
    have k: "?k s \<le> i" using jk j skip_digits_ge [of "?k s" s] by linarith
    then have "?k t = ?k s" using ag by (auto simp: agree_at split: if_splits)
    with True d jk j k ag a show ?thesis
      by (simp add: number_exp_def Let_def agree_at agree_at_digit agree_skip_digits)
  next
    case False
    with r ag a show ?thesis by (auto simp: number_exp_def agree_at)
  qed
next
  let ?k = "\<lambda>s. if at s (a + 1) = Some (CHR ''+'') \<or> at s (a + 1) = Some (CHR ''-'')
    then a + 2 else a + 1"
  assume ag: "agree i s t" and r: "number_exp s a = Inl j" and j: "j \<le> i"
  have a: "a \<le> i" using number_stage_ge(6) [OF r] j by simp
  from r have e: "at s a = Some (CHR ''e'') \<or> at s a = Some (CHR ''E'')"
    and d: "\<not> at_digit s (?k s)" and jk: "j = ?k s"
    by (auto simp: number_exp_def Let_def split: if_splits)
  have "?k t = ?k s" using ag jk j by (auto simp: agree_at split: if_splits)
  with e d jk j ag a show "number_exp t a = Inl j"
    by (simp add: number_exp_def Let_def agree_at agree_at_digit)
qed

lemma validate_json_number_Inl:
  "validate_json_number s = Inl e \<longleftrightarrow>
     (let a = (if at s 0 = Some (CHR ''-'') then 1 else 0) in
      number_int s a = Inl e \<or>
      (\<exists>i. number_int s a = Inr i \<and> (number_frac s i = Inl e \<or>
        (\<exists>j. number_frac s i = Inr j \<and> (number_exp s j = Inl e \<or>
          (number_exp s j = Inr e \<and> e \<noteq> length s))))))"
  by (auto simp: validate_json_number_def result_simps Let_def split: if_splits)

lemma agree_validate:
  assumes ag: "agree e s t" and v: "validate_json_number s = Inl e"
  shows "validate_json_number t = Inl e"
proof -
  let ?a = "if at s 0 = Some (CHR ''-'') then 1 else (0::nat)"
  have a: "(if at t 0 = Some (CHR ''-'') then 1 else 0) = ?a" using ag by (simp add: agree_at)
  have lt: "e < length t" using ag by (simp add: agree_def)
  from v consider
      "number_int s ?a = Inl e"
    | i where "number_int s ?a = Inr i" "number_frac s i = Inl e"
    | i j where "number_int s ?a = Inr i" "number_frac s i = Inr j" "number_exp s j = Inl e"
    | i j where "number_int s ?a = Inr i" "number_frac s i = Inr j" "number_exp s j = Inr e"
    unfolding validate_json_number_Inl Let_def by blast
  then show ?thesis
  proof cases
    case 1
    with agree_number_int(2) [OF ag] show ?thesis unfolding validate_json_number_Inl a Let_def by simp
  next
    case 2
    then have "i \<le> e" using number_stage_ge(4) by fastforce
    with 2 agree_number_int(1) [OF ag] agree_number_frac(2) [OF ag] show ?thesis
      unfolding validate_json_number_Inl a Let_def by auto
  next
    case 3
    then have "j \<le> e" using number_stage_ge(6) by fastforce
    moreover have "i \<le> j" using 3 number_stage_ge(3) by blast
    ultimately show ?thesis using 3 agree_number_int(1) [OF ag] agree_number_frac(1) [OF ag]
        agree_number_exp(2) [OF ag]
      unfolding validate_json_number_Inl a Let_def by auto
  next
    case 4
    then have "j \<le> e" using number_stage_ge(5) by blast
    moreover have "i \<le> j" using 4 number_stage_ge(3) by blast
    ultimately show ?thesis using 4 lt agree_number_int(1) [OF ag] agree_number_frac(1) [OF ag]
        agree_number_exp(1) [OF ag]
      unfolding validate_json_number_Inl a Let_def by auto
  qed
qed

definition viable :: "str \<Rightarrow> bool" where
  "viable s \<longleftrightarrow> (\<exists>t. json_number (s @ t))"

lemma prefix_take: "s = p @ drop k s \<Longrightarrow> length p = k \<Longrightarrow> take k s = p"
  by (metis append_eq_conv_conj)

lemma json_parts_zero:
  "json_int ''0''" "json_frac []" "json_exp []" "json_frac ''.0''"
  by (auto simp: json_int_def json_frac_def json_exp_def digits1_def)

lemma json_exp_zero:
  assumes "e \<in> {CHR ''e'', CHR ''E''}" "sg \<in> {[], ''+'', ''-''}"
  shows "json_exp (e # sg @ ''0'')"
proof -
  have "digits1 ''0''" by (simp add: digits1_def)
  with assms show ?thesis unfolding json_exp_def by blast
qed

lemma number_frac_Inl:
  "number_frac s j = Inl e \<Longrightarrow> e = j + 1 \<and> drop j s = CHR ''.'' # drop (j + 1) s"
  by (auto simp: number_frac_def at_def Cons_nth_drop_Suc [symmetric] split: if_splits)

lemma number_exp_Inl:
  assumes "number_exp s j = Inl k"
  shows "\<exists>e sg. e \<in> {CHR ''e'', CHR ''E''} \<and> sg \<in> {[], ''+'', ''-''} \<and>
    drop j s = (e # sg) @ drop k s \<and> k = j + length (e # sg)"
proof -
  from assms have e: "at s j = Some (CHR ''e'') \<or> at s j = Some (CHR ''E'')"
    by (auto simp: number_exp_def split: if_splits)
  then have j: "j < length s" by (auto simp: at_def split: if_splits)
  then have d: "drop j s = s ! j # drop (j + 1) s" by (simp add: Cons_nth_drop_Suc)
  have sj: "s ! j \<in> {CHR ''e'', CHR ''E''}" using e j by (auto simp: at_def)
  show ?thesis
  proof (cases "at s (j + 1) = Some (CHR ''+'') \<or> at s (j + 1) = Some (CHR ''-'')")
    case True
    then have "j + 1 < length s" by (auto simp: at_def split: if_splits)
    then have "drop (j + 1) s = s ! (j + 1) # drop (j + 2) s" by (simp add: Cons_nth_drop_Suc)
    moreover have "s ! (j + 1) \<in> {CHR ''+'', CHR ''-''}"
      using True by (auto simp: at_def split: if_splits)
    moreover have "k = j + 2" using True e assms by (auto simp: number_exp_def Let_def split: if_splits)
    ultimately show ?thesis using d sj
      by (intro exI [of _ "s ! j"] exI [of _ "[s ! (j + 1)]"]) auto
  next
    case False
    then have "k = j + 1" using e assms by (auto simp: number_exp_def Let_def split: if_splits)
    with d sj show ?thesis by (intro exI [of _ "s ! j"] exI [of _ "[]"]) auto
  qed
qed

lemma validate_prefix_viable:
  assumes v: "validate_json_number s = Inl e"
  shows "viable (take e s) \<and> e \<le> length s"
proof -
  let ?a = "if at s 0 = Some (CHR ''-'') then 1 else (0::nat)"
  obtain sg where sg: "sg \<in> {[], ''-''}" "s = sg @ drop ?a s" "length sg = ?a"
  proof (cases "at s 0 = Some (CHR ''-'')")
    case True
    then show ?thesis by (intro that [of "''-''"]) (auto simp: at_drop split: list.splits)
  next
    case False
    then show ?thesis by (intro that [of "[]"]) auto
  qed
  have num: "json_number (sg @ ip @ fr @ ex)" if "json_int ip" "json_frac fr" "json_exp ex" for ip fr ex
    using that sg(1) unfolding json_number_def by blast
  have fin: ?thesis if "s = p @ drop e s" "length p = e" "json_number (p @ t)" for p t
  proof -
    have "take e s = p" using that by (intro prefix_take)
    moreover have "e \<le> length s" using that(1,2) by (metis le_add1 length_append)
    ultimately show ?thesis using that(3) by (auto simp: viable_def)
  qed
  from v consider
      "number_int s ?a = Inl e"
    | i where "number_int s ?a = Inr i" "number_frac s i = Inl e"
    | i j where "number_int s ?a = Inr i" "number_frac s i = Inr j" "number_exp s j = Inl e"
    | i j where "number_int s ?a = Inr i" "number_frac s i = Inr j" "number_exp s j = Inr e"
    unfolding validate_json_number_Inl Let_def by blast
  then show ?thesis
  proof cases
    case 1
    then have "e = ?a" by (rule number_stage_ge(2))
    then show ?thesis using sg num [OF json_parts_zero(1,2,3)] fin [of sg "''0''"] by simp
  next
    case (2 i)
    obtain ip where ip: "json_int ip" "drop ?a s = ip @ drop i s" "i = ?a + length ip"
      using number_int_sound [OF 2(1)] by blast
    have e: "e = i + 1" "drop i s = ''.'' @ drop e s" using number_frac_Inl [OF 2(2)] by auto
    show ?thesis
      using fin [of "sg @ ip @ ''.''" "''0''"] num [OF ip(1) json_parts_zero(4,3)] sg ip e by simp
  next
    case (3 i j)
    obtain ip where ip: "json_int ip" "drop ?a s = ip @ drop i s" "i = ?a + length ip"
      using number_int_sound [OF 3(1)] by blast
    obtain fr where fr: "json_frac fr" "drop i s = fr @ drop j s" "j = i + length fr"
      using number_frac_sound [OF 3(2)] by blast
    obtain c cs where c: "c \<in> {CHR ''e'', CHR ''E''}" "cs \<in> {[], ''+'', ''-''}"
      "drop j s = (c # cs) @ drop e s" "e = j + length (c # cs)"
      using number_exp_Inl [OF 3(3)] by blast
    show ?thesis
      using fin [of "sg @ ip @ fr @ c # cs" "''0''"] num [OF ip(1) fr(1) json_exp_zero [OF c(1,2)]]
        sg ip fr c by simp
  next
    case (4 i j)
    obtain ip where ip: "json_int ip" "drop ?a s = ip @ drop i s" "i = ?a + length ip"
      using number_int_sound [OF 4(1)] by blast
    obtain fr where fr: "json_frac fr" "drop i s = fr @ drop j s" "j = i + length fr"
      using number_frac_sound [OF 4(2)] by blast
    obtain ex where ex: "json_exp ex" "drop j s = ex @ drop e s" "e = j + length ex"
      using number_exp_sound [OF 4(3)] by blast
    show ?thesis
      using fin [of "sg @ ip @ fr @ ex" "[]"] num [OF ip(1) fr(1) ex(1)] sg ip fr ex by simp
  qed
qed

lemma validate_stops_at_viable:
  assumes v: "validate_json_number s = Inl e" and lt: "e < length s"
  shows "\<not> viable (take (Suc e) s)"
proof
  assume "viable (take (Suc e) s)"
  then obtain t where n: "json_number (take (Suc e) s @ t)" by (auto simp: viable_def)
  have "agree e s (take (Suc e) s @ t)" using lt by (simp add: agree_def min_def)
  then have "validate_json_number (take (Suc e) s @ t) = Inl e" using v by (rule agree_validate)
  with n show False by (simp add: is_number_iff [symmetric] is_number_def)
qed

subsection \<open>Integers are numbers\<close>

lemma show_nat_json_int: "json_int (show_nat n)"
  using show_nat_leading [of n] show_nat_digits [of n]
  by (cases "n = 0") (auto simp: json_int_def digits1_def)

lemma show_int_json_number: "json_number (show_int v)"
proof -
  have "json_number (sg @ show_nat n @ [] @ [])" if "sg \<in> {[], ''-''}" for sg n
    using that show_nat_json_int json_parts_zero(2,3) unfolding json_number_def by blast
  from this [of "[]"] this [of "''-''"] show ?thesis by (simp add: show_int_def)
qed

lemma number_from_integer_ok: "number_from_integer v = Inr (show_int v)"
  using show_int_json_number [of v]
  by (auto simp: number_from_integer_def number_new_def is_number_iff [symmetric] is_number_def
      split: sum.splits)

section \<open>A number is ASCII text\<close>

lemma digits_ascii: "list_all is_digit ds \<Longrightarrow> list_all ascii ds"
  by (auto simp: list_all_iff is_digit_ascii)

lemma json_number_ascii:
  assumes "json_number s"
  shows "list_all ascii s"
proof -
  have [simp]: "ascii (CHR ''0'')" "ascii (CHR ''-'')" "ascii (CHR ''+'')" "ascii (CHR ''.'')"
    "ascii (CHR ''e'')" "ascii (CHR ''E'')"
    by (simp_all add: ascii_def)
  have "json_int ip \<Longrightarrow> list_all ascii ip" "json_frac fr \<Longrightarrow> list_all ascii fr"
    "json_exp ex \<Longrightarrow> list_all ascii ex" for ip fr ex
    by (auto simp: json_int_def json_frac_def json_exp_def digits1_def digits_ascii)
  with assms show ?thesis unfolding json_number_def by auto
qed

lemma number_is_text: "is_number s \<Longrightarrow> is_text s"
  by (simp add: ascii_is_text json_number_ascii is_number_iff)

section \<open>Properties\<close>

text \<open>\<open>validate_json_number\<close> accepts exactly the numbers of RFC 8259's grammar.\<close>

theorem number_scanner_is_the_grammar: "is_number s \<longleftrightarrow> json_number s"
  by (rule is_number_iff)

text \<open>The offset of a refused number is where it stops being the start of a number: the
  text before it can be completed to one, and one character more cannot.\<close>

theorem number_error_is_the_first_bad_byte:
  "validate_json_number s = Inl i \<Longrightarrow>
   i \<le> length s \<and> viable (take i s) \<and> (i < length s \<longrightarrow> \<not> viable (take (Suc i) s))"
  using validate_prefix_viable validate_stops_at_viable by blast

theorem number_error_is_the_first_bad_byte_witness:
  "viable (take 2 ''1.x'') \<and> \<not> viable (take (Suc 2) ''1.x'')"
proof -
  have "validate_json_number ''1.x'' = Inl 2" by code_simp
  from number_error_is_the_first_bad_byte [OF this] show ?thesis by simp
qed

text \<open>every integer becomes a number, and its text reads back as that integer's decimal
  form within the grammar.\<close>

theorem integers_are_numbers:
  "number_from_integer v = Inr (show_int v) \<and> json_number (show_int v)"
  by (simp add: number_from_integer_ok show_int_json_number)

end
