(* ===== verification/Walks.thy ===== *)
theory Walks
  imports Values
begin

text \<open>
  The doors to a node's content (\<open>value/value.rs\<close>) and the whole-tree walks of
  \<open>value/walk.rs\<close>: equality, the hash input and the deep copy. Each walk is the
  source's loop over an explicit stack (the head of the list is the top of the stack);
  the lemmas show what the loop computes: structural equality, and the identity on every
  tree whose content its doors accept.
\<close>

section \<open>Doors\<close>

fun text_bytes :: "Value \<Rightarrow> tag \<Rightarrow> str option" where
  "text_bytes (VString t) k = (if k = GUATIAO_STRING then Some t else None)"
| "text_bytes (VNumber t) k = (if k = GUATIAO_NUMBER then Some t else None)"
| "text_bytes v k = None"

fun map_arm :: "Value \<Rightarrow> map_entries option" where
  "map_arm (VMap es) = Some es"
| "map_arm v = None"

definition keys_are_text :: "map_entries \<Rightarrow> bool" where
  "keys_are_text es \<longleftrightarrow> list_all (\<lambda>e. is_text (fst e)) es"

definition holds_text :: "Value \<Rightarrow> bool" where
  "holds_text v \<longleftrightarrow> (case text_bytes v GUATIAO_STRING of Some t \<Rightarrow> is_text t | None \<Rightarrow> False)"

definition holds_a_number :: "Value \<Rightarrow> bool" where
  "holds_a_number v \<longleftrightarrow> (case text_bytes v GUATIAO_NUMBER of Some t \<Rightarrow> is_number t | None \<Rightarrow> False)"

definition holds_a_map :: "Value \<Rightarrow> bool" where
  "holds_a_map v \<longleftrightarrow> (case map_arm v of Some es \<Rightarrow> keys_are_text es | None \<Rightarrow> False)"

text \<open>\<open>TryAsRef\<close>, one function per type a node can be read as.\<close>

definition as_text :: "Value \<Rightarrow> str option" where
  "as_text v = (if holds_text v then text_bytes v GUATIAO_STRING else None)"

definition as_number :: "Value \<Rightarrow> str option" where
  "as_number v = (if holds_a_number v then text_bytes v GUATIAO_NUMBER else None)"

definition as_map :: "Value \<Rightarrow> map_entries option" where
  "as_map v = (if holds_a_map v then map_arm v else None)"

fun as_list :: "Value \<Rightarrow> Value list option" where
  "as_list (VList xs) = Some xs"
| "as_list v = None"

fun as_bool :: "Value \<Rightarrow> bool option" where
  "as_bool (VBool b) = Some b"
| "as_bool v = None"

fun as_buffer :: "Value \<Rightarrow> u8 list option" where
  "as_buffer (VBytes b) = Some b"
| "as_buffer v = None"

lemma door_simps [simp]:
  "as_text (VString t) = (if is_text t then Some t else None)"
  "as_number (VNumber t) = (if is_number t then Some t else None)"
  "as_map (VMap es) = (if keys_are_text es then Some es else None)"
  "as_map VAbsent = None" "as_map VNull = None" "as_map (VBool b) = None"
  "as_map (VNumber t) = None" "as_map (VString t) = None" "as_map (VBytes bs) = None"
  "as_map (VList xs) = None" "as_map (VUnknown k) = None"
  by (simp_all add: as_text_def holds_text_def as_number_def holds_a_number_def as_map_def
      holds_a_map_def)

text \<open>A tree whose every node its own door accepts: what a Rust caller can build.\<close>

function readable :: "Value \<Rightarrow> bool" where
  "readable (VNumber t) = is_number t"
| "readable (VString t) = is_text t"
| "readable (VList xs) = list_all readable xs"
| "readable (VMap es) = (keys_are_text es \<and> list_all (\<lambda>e. readable (snd e)) es)"
| "readable (VUnknown k) = False"
| "readable VAbsent = True"
| "readable VNull = True"
| "readable (VBool b) = True"
| "readable (VBytes bs) = True"
  by pat_completeness auto
termination
  by (relation "measure size") (auto dest: size_list_member size_entry_member)

text \<open>The error of the first node, in document order, whose door refuses its content;
  a walk chooses the error of a NUMBER outside the grammar.\<close>

function refusal_with :: "value_error \<Rightarrow> Value \<Rightarrow> value_error option" where
  "refusal_with ne (VNumber t) = (if is_number t then None else Some ne)"
| "refusal_with ne (VString t) = (if is_text t then None else Some NotUtf8)"
| "refusal_with ne (VList xs) = first_some (map (refusal_with ne) xs)"
| "refusal_with ne (VMap es) =
     (if keys_are_text es then first_some (map (\<lambda>e. refusal_with ne (snd e)) es) else Some NotUtf8)"
| "refusal_with ne (VUnknown k) = Some (UnknownTag (8 + k))"
| "refusal_with ne VAbsent = None"
| "refusal_with ne VNull = None"
| "refusal_with ne (VBool b) = None"
| "refusal_with ne (VBytes bs) = None"
  by pat_completeness auto
termination
  by (relation "measure (\<lambda>(ne, v). size v)") (auto dest: size_list_member size_entry_member)

lemma refusal_None: "refusal_with ne v = None \<longleftrightarrow> readable v"
proof (induction v rule: value_induct)
  case (List xs)
  then show ?case by (simp add: first_some_None list_all_iff)
next
  case (Map es)
  then show ?case by (auto simp: first_some_None list_all_iff)
qed auto

abbreviation refusal :: "Value \<Rightarrow> value_error option" where
  "refusal v \<equiv> refusal_with WrongKind v"

section \<open>Equality\<close>

datatype pair =
    Values Value Value
  | Lists "Value list" "Value list"
  | Maps map_entries map_entries

fun pair_weight :: "pair \<Rightarrow> nat" where
  "pair_weight (Values a b) = weight a"
| "pair_weight (Lists xs ys) = 2 + sum_list (map weight xs)"
| "pair_weight (Maps xs ys) = 2 + sum_list (map (\<lambda>e. weight (snd e)) xs)"

definition values_step :: "Value \<Rightarrow> Value \<Rightarrow> pair list \<Rightarrow> bool \<times> pair list" where
  "values_step a b stack =
     (if raw_tag a \<noteq> raw_tag b then (False, stack)
      else case tag_of a of
        Inl _ \<Rightarrow> (True, stack)
      | Inr GUATIAO_ABSENT \<Rightarrow> (True, stack)
      | Inr GUATIAO_NULL \<Rightarrow> (True, stack)
      | Inr GUATIAO_BOOL \<Rightarrow>
          (case (as_bool a, as_bool b) of (Some x, Some y) \<Rightarrow> (x = y, stack) | _ \<Rightarrow> (False, stack))
      | Inr GUATIAO_STRING \<Rightarrow> (text_bytes a GUATIAO_STRING = text_bytes b GUATIAO_STRING, stack)
      | Inr GUATIAO_NUMBER \<Rightarrow> (text_bytes a GUATIAO_NUMBER = text_bytes b GUATIAO_NUMBER, stack)
      | Inr GUATIAO_BYTES \<Rightarrow>
          (case (as_buffer a, as_buffer b) of (Some x, Some y) \<Rightarrow> (x = y, stack) | _ \<Rightarrow> (False, stack))
      | Inr GUATIAO_LIST \<Rightarrow>
          (case (as_list a, as_list b) of
             (Some x, Some y) \<Rightarrow> (True, Lists x y # stack) | _ \<Rightarrow> (False, stack))
      | Inr GUATIAO_MAP \<Rightarrow>
          (case (map_arm a, map_arm b) of
             (Some x, Some y) \<Rightarrow> (True, Maps x y # stack) | _ \<Rightarrow> (False, stack)))"

text \<open>The closure over the zipped entries of two maps: each pair of equal keys pushes its
  values, the first pair of different keys stops.\<close>

fun entry_pairs :: "(entry \<times> entry) list \<Rightarrow> pair list \<Rightarrow> bool \<times> pair list" where
  "entry_pairs [] stack = (True, stack)"
| "entry_pairs ((x, y) # r) stack =
     (if fst x = fst y then entry_pairs r (Values (snd x) (snd y) # stack) else (False, stack))"

definition equal_step :: "pair \<Rightarrow> pair list \<Rightarrow> bool \<times> pair list" where
  "equal_step p stack =
     (case p of
        Values a b \<Rightarrow> values_step a b stack
      | Lists xs ys \<Rightarrow>
          if length xs = length ys
          then (True, rev (map (\<lambda>(x, y). Values x y) (zip xs ys)) @ stack)
          else (False, stack)
      | Maps xs ys \<Rightarrow>
          if length xs = length ys then entry_pairs (zip xs ys) stack else (False, stack))"

lemma entry_pairs_weight:
  "sum_list (map pair_weight (snd (entry_pairs zs stack)))
     \<le> sum_list (map (\<lambda>z. weight (snd (fst z))) zs) + sum_list (map pair_weight stack)"
proof (induction zs arbitrary: stack)
  case (Cons z zs)
  obtain x y where z: "z = (x, y)" by (cases z)
  show ?case using Cons.IH [of "Values (snd x) (snd y) # stack"] z by (auto split: if_splits)
qed simp

lemma zip_weight:
  "sum_list (map (\<lambda>z. weight (snd (fst z))) (zip xs ys)) \<le> sum_list (map (\<lambda>e. weight (snd e)) xs)"
proof (induction xs arbitrary: ys)
  case (Cons x xs)
  show ?case
  proof (cases ys)
    case (Cons y ys')
    with Cons.IH [of ys'] show ?thesis by simp
  qed simp
qed simp

lemma zip_values_weight:
  "sum_list (map (pair_weight \<circ> (\<lambda>(x, y). Values x y)) (zip xs ys)) \<le> sum_list (map weight xs)"
proof (induction xs arbitrary: ys)
  case (Cons x xs)
  show ?case
  proof (cases ys)
    case (Cons y ys')
    with Cons.IH [of ys'] show ?thesis by simp
  qed simp
qed simp

lemma equal_step_weight:
  "sum_list (map pair_weight (snd (equal_step p stack)))
     < pair_weight p + sum_list (map pair_weight stack)"
proof (cases p)
  case (Values a b)
  then show ?thesis
    by (cases a; cases b) (auto simp: equal_step_def values_step_def)
next
  case (Lists xs ys)
  then show ?thesis using zip_values_weight [of xs ys]
    by (auto simp: equal_step_def rev_map [symmetric] sum_list_rev)
next
  case (Maps xs ys)
  then show ?thesis using entry_pairs_weight [of "zip xs ys" stack] zip_weight [of xs ys]
    by (auto simp: equal_step_def)
qed

function equal_loop :: "pair list \<Rightarrow> bool" where
  "equal_loop [] = True"
| "equal_loop (p # stack) =
     (let r = equal_step p stack in if fst r then equal_loop (snd r) else False)"
  by pat_completeness auto
termination
  by (relation "measure (\<lambda>st. sum_list (map pair_weight st))")
     (use equal_step_weight in auto)

text \<open>\<open>next.take().or_else(|| stack.pop())\<close>: the first pair is compared before anything
  is on the stack.\<close>

definition equal :: "pair \<Rightarrow> bool" where
  "equal first = equal_loop [first]"

fun pair_eq :: "pair \<Rightarrow> bool" where
  "pair_eq (Values a b) \<longleftrightarrow> a = b"
| "pair_eq (Lists xs ys) \<longleftrightarrow> xs = ys"
| "pair_eq (Maps xs ys) \<longleftrightarrow> xs = ys"

lemma entry_pairs_eq:
  "length xs = length ys \<Longrightarrow>
   (fst (entry_pairs (zip xs ys) stack) \<and> list_all pair_eq (snd (entry_pairs (zip xs ys) stack)))
     \<longleftrightarrow> xs = ys \<and> list_all pair_eq stack"
  by (induction xs ys arbitrary: stack rule: list_induct2) auto

lemma zip_values_eq:
  "length xs = length ys \<Longrightarrow>
   list_all pair_eq (map (\<lambda>(x, y). Values x y) (zip xs ys)) \<longleftrightarrow> xs = ys"
  by (induction xs ys rule: list_induct2) auto

lemma equal_step_eq:
  "(fst (equal_step p stack) \<and> list_all pair_eq (snd (equal_step p stack)))
     \<longleftrightarrow> pair_eq p \<and> list_all pair_eq stack"
proof (cases p)
  case (Values a b)
  then show ?thesis by (cases a; cases b) (auto simp: equal_step_def values_step_def)
next
  case (Lists xs ys)
  then show ?thesis using zip_values_eq [of xs ys]
    by (auto simp: equal_step_def)
next
  case (Maps xs ys)
  then show ?thesis using entry_pairs_eq [of xs ys stack] by (auto simp: equal_step_def)
qed

lemma equal_loop_eq: "equal_loop st \<longleftrightarrow> list_all pair_eq st"
proof (induction st rule: equal_loop.induct)
  case (2 p stack)
  then show ?case using equal_step_eq [of p stack] by (auto simp: Let_def)
qed simp

lemma equal_iff: "equal p \<longleftrightarrow> pair_eq p"
  by (simp add: equal_def equal_loop_eq)

section \<open>The hash input\<close>

text \<open>What \<open>walk::hash\<close> writes into a \<open>Hasher\<close>, in order.\<close>

datatype hash_write = WriteU32 nat | WriteU8 nat | WriteUsize nat | WriteBytes "u8 list"

definition feed_bytes :: "str \<Rightarrow> hash_write list" where
  "feed_bytes bytes = [WriteUsize (length bytes), WriteBytes (as_bytes bytes)]"

definition hash_node :: "Value \<Rightarrow> hash_write list \<times> Value list" where
  "hash_node node =
     (let w = WriteU32 (raw_tag node) in
      case tag_of node of
        Inl _ \<Rightarrow> ([w], [])
      | Inr GUATIAO_ABSENT \<Rightarrow> ([w], [])
      | Inr GUATIAO_NULL \<Rightarrow> ([w], [])
      | Inr GUATIAO_BOOL \<Rightarrow>
          ([w, WriteU8 (case as_bool node of None \<Rightarrow> 2 | Some b \<Rightarrow> (if b then 1 else 0))], [])
      | Inr GUATIAO_STRING \<Rightarrow>
          (w # feed_bytes (case text_bytes node GUATIAO_STRING of None \<Rightarrow> [] | Some t \<Rightarrow> t), [])
      | Inr GUATIAO_NUMBER \<Rightarrow>
          (w # feed_bytes (case text_bytes node GUATIAO_NUMBER of None \<Rightarrow> [] | Some t \<Rightarrow> t), [])
      | Inr GUATIAO_BYTES \<Rightarrow>
          (let b = (case as_buffer node of None \<Rightarrow> [] | Some b \<Rightarrow> b)
           in ([w, WriteUsize (length b), WriteBytes b], []))
      | Inr GUATIAO_LIST \<Rightarrow>
          (let items = (case as_list node of None \<Rightarrow> [] | Some xs \<Rightarrow> xs)
           in ([w, WriteUsize (length items)], items))
      | Inr GUATIAO_MAP \<Rightarrow>
          (let es = (case map_arm node of None \<Rightarrow> [] | Some es \<Rightarrow> es)
           in (w # WriteUsize (length es) # concat (map (\<lambda>e. feed_bytes (fst e)) es), map snd es)))"

lemma hash_node_weight: "sum_list (map weight (snd (hash_node v))) < weight v"
  by (cases v) (auto simp: hash_node_def Let_def comp_def)

function hash_loop :: "Value list \<Rightarrow> hash_write list" where
  "hash_loop [] = []"
| "hash_loop (node # stack) =
     fst (hash_node node) @ hash_loop (snd (hash_node node) @ stack)"
  by pat_completeness auto
termination
  by (relation "measure (\<lambda>st. sum_list (map weight st))") (use hash_node_weight in auto)

definition hash_input :: "Value \<Rightarrow> hash_write list" where
  "hash_input v = hash_loop [v]"

section \<open>Copying\<close>

datatype built = BList "Value list" | BMap map_entries

datatype left = LList "Value list" | LMap map_entries

record copying =
  built :: built
  left :: left
  ckey :: "str option"

fun built_into_value :: "built \<Rightarrow> Value" where
  "built_into_value (BList xs) = VList xs"
| "built_into_value (BMap es) = VMap es"

text \<open>\<open>Copying::next\<close>: the next child with its key, and what is left after it.\<close>

fun next_child :: "left \<Rightarrow> ((str option \<times> Value) \<times> left) option" where
  "next_child (LList []) = None"
| "next_child (LList (x # xs)) = Some ((None, x), LList xs)"
| "next_child (LMap []) = None"
| "next_child (LMap (e # es)) = Some ((Some (fst e), snd e), LMap es)"

fun attach :: "built \<Rightarrow> str option \<Rightarrow> Value \<Rightarrow> value_error failure + built" where
  "attach (BList xs) key v = Inr (BList (xs @ [v]))"
| "attach (BMap es) (Some key) v = Inr (BMap (es @ [(key, v)]))"
| "attach (BMap es) None v = Inl Panicked"

datatype child_step = Leaf Value | Open copying

definition copy_step :: "Value \<Rightarrow> str option \<Rightarrow> value_error + child_step" where
  "copy_step node key =
     (case tag_of node of
        Inl e \<Rightarrow> Inl e
      | Inr GUATIAO_LIST \<Rightarrow>
          and_then (ok_or WrongKind (as_list node))
            (\<lambda>xs. Inr (Open \<lparr>built = BList [], left = LList xs, ckey = key\<rparr>))
      | Inr GUATIAO_MAP \<Rightarrow>
          and_then (ok_or NotUtf8 (as_map node))
            (\<lambda>es. Inr (Open \<lparr>built = BMap [], left = LMap es, ckey = key\<rparr>))
      | Inr GUATIAO_ABSENT \<Rightarrow> Inr (Leaf VAbsent)
      | Inr GUATIAO_NULL \<Rightarrow> Inr (Leaf VNull)
      | Inr GUATIAO_BOOL \<Rightarrow> and_then (ok_or WrongKind (as_bool node)) (\<lambda>b. Inr (Leaf (VBool b)))
      | Inr GUATIAO_STRING \<Rightarrow> and_then (ok_or NotUtf8 (as_text node)) (\<lambda>t. Inr (Leaf (VString t)))
      | Inr GUATIAO_NUMBER \<Rightarrow> and_then (ok_or WrongKind (as_number node)) (\<lambda>n. Inr (Leaf (VNumber n)))
      | Inr GUATIAO_BYTES \<Rightarrow> and_then (ok_or WrongKind (as_buffer node)) (\<lambda>b. Inr (Leaf (VBytes b))))"

fun left_weight :: "left \<Rightarrow> nat" where
  "left_weight (LList xs) = sum_list (map weight xs)"
| "left_weight (LMap es) = sum_list (map (\<lambda>e. weight (snd e)) es)"

lemma next_child_weight:
  "next_child l = Some ((k, v), l') \<Longrightarrow> left_weight l = weight v + left_weight l'"
  by (cases l rule: next_child.cases) auto

lemma copy_step_weight:
  "copy_step v k = Inr (Open c) \<Longrightarrow> Suc (left_weight (left c)) < weight v"
  by (cases v) (auto simp: copy_step_def result_simps split: if_splits)

function copy_loop :: "copying list \<Rightarrow> value_error failure + built" where
  "copy_loop [] = Inl Panicked"
| "copy_loop (tp # stack) =
     (case next_child (left tp) of
        Some ((key, node), rest) \<Rightarrow>
          (case (copy_step node key) of
             Inl e \<Rightarrow> Inl (Refused e)
           | Inr (Leaf copy) \<Rightarrow>
               and_then (attach (built tp) key copy)
                 (\<lambda>b. copy_loop (tp\<lparr>built := b, left := rest\<rparr> # stack))
           | Inr (Open container) \<Rightarrow> copy_loop (container # tp\<lparr>left := rest\<rparr> # stack))
      | None \<Rightarrow>
          (case stack of
             [] \<Rightarrow> Inr (built tp)
           | parent # st \<Rightarrow>
               and_then (attach (built parent) (ckey tp) (built_into_value (built tp)))
                 (\<lambda>b. copy_loop (parent\<lparr>built := b\<rparr> # st))))"
  by pat_completeness auto
termination
  by (relation "measure (\<lambda>st. sum_list (map (\<lambda>c. Suc (left_weight (left c))) st))")
     (auto dest!: next_child_weight copy_step_weight)

declare copy_loop.simps(2) [simp del]

definition copy_value :: "Value \<Rightarrow> value_error failure + Value" where
  "copy_value node =
     (case copy_step node None of
        Inl e \<Rightarrow> Inl (Refused e)
      | Inr (Leaf copy) \<Rightarrow> Inr copy
      | Inr (Open root) \<Rightarrow> and_then (copy_loop [root]) (\<lambda>b. Inr (built_into_value b)))"

text \<open>One child copied: the loop refuses, or continues with the copy attached.\<close>

definition fits :: "built \<Rightarrow> str option \<Rightarrow> bool" where
  "fits b k \<longleftrightarrow> (case b of BList _ \<Rightarrow> True | BMap _ \<Rightarrow> k \<noteq> None)"

lemma attach_fits: "fits b k \<Longrightarrow> \<exists>b'. attach b k v = Inr b'"
  by (cases b; cases k) (auto simp: fits_def)

definition copies :: "Value \<Rightarrow> bool" where
  "copies v \<longleftrightarrow> (\<forall>tp stack key rest.
     next_child (left tp) = Some ((key, v), rest) \<longrightarrow> fits (built tp) key \<longrightarrow>
     copy_loop (tp # stack) =
       (case refusal v of
          Some e \<Rightarrow> Inl (Refused e)
        | None \<Rightarrow> and_then (attach (built tp) key v)
            (\<lambda>b. copy_loop (tp\<lparr>built := b, left := rest\<rparr> # stack))))"

lemma copiesD:
  "copies v \<Longrightarrow> next_child (left tp) = Some ((key, v), rest) \<Longrightarrow> fits (built tp) key \<Longrightarrow>
   copy_loop (tp # stack) =
     (case refusal v of
        Some e \<Rightarrow> Inl (Refused e)
      | None \<Rightarrow> and_then (attach (built tp) key v)
          (\<lambda>b. copy_loop (tp\<lparr>built := b, left := rest\<rparr> # stack)))"
  unfolding copies_def by blast

lemma copy_items:
  assumes "\<And>x. x \<in> set xs \<Longrightarrow> copies x" "left c = LList xs" "built c = BList done'"
  shows "copy_loop (c # stack) =
    (case first_some (map (refusal_with WrongKind) xs) of
       Some e \<Rightarrow> Inl (Refused e)
     | None \<Rightarrow> copy_loop (c\<lparr>built := BList (done' @ xs), left := LList []\<rparr> # stack))"
  using assms
proof (induction xs arbitrary: c done')
  case Nil
  then have "c\<lparr>built := BList done', left := LList []\<rparr> = c" by (cases c) simp
  then show ?case by simp
next
  case (Cons x xs)
  from Cons.prems have "copy_loop (c # stack) = (case refusal x of Some e \<Rightarrow> Inl (Refused e)
      | None \<Rightarrow> copy_loop (c\<lparr>built := BList (done' @ [x]), left := LList xs\<rparr> # stack))"
    by (subst copiesD [of x c None "LList xs"]) (auto simp: fits_def split: option.splits)
  moreover have "copy_loop (c\<lparr>built := BList (done' @ [x]), left := LList xs\<rparr> # stack) =
     (case first_some (map (refusal_with WrongKind) xs) of Some e \<Rightarrow> Inl (Refused e)
      | None \<Rightarrow> copy_loop (c\<lparr>built := BList (done' @ x # xs), left := LList []\<rparr> # stack))"
    using Cons.IH [of "c\<lparr>built := BList (done' @ [x]), left := LList xs\<rparr>" "done' @ [x]"] Cons.prems(1)
    by (cases c) (simp cong: option.case_cong)
  ultimately show ?case by (simp split: option.splits)
qed

lemma copy_entries:
  assumes "list_all (\<lambda>e. copies (snd e)) es" "left c = LMap es" "built c = BMap done'"
  shows "copy_loop (c # stack) =
    (case first_some (map (\<lambda>e. refusal (snd e)) es) of
       Some e \<Rightarrow> Inl (Refused e)
     | None \<Rightarrow> copy_loop (c\<lparr>built := BMap (done' @ es), left := LMap []\<rparr> # stack))"
  using assms
proof (induction es arbitrary: c done')
  case Nil
  then have "c\<lparr>built := BMap done', left := LMap []\<rparr> = c" by (cases c) simp
  then show ?case by simp
next
  case (Cons x es)
  obtain k v where x: "x = (k, v)" by (cases x)
  from Cons.prems x have "copy_loop (c # stack) = (case refusal v of Some e \<Rightarrow> Inl (Refused e)
      | None \<Rightarrow> copy_loop (c\<lparr>built := BMap (done' @ [x]), left := LMap es\<rparr> # stack))"
    by (subst copiesD [of v c "Some k" "LMap es"]) (auto simp: fits_def split: option.splits)
  moreover have "copy_loop (c\<lparr>built := BMap (done' @ [x]), left := LMap es\<rparr> # stack) =
     (case first_some (map (\<lambda>e. refusal (snd e)) es) of Some e \<Rightarrow> Inl (Refused e)
      | None \<Rightarrow> copy_loop (c\<lparr>built := BMap (done' @ x # es), left := LMap []\<rparr> # stack))"
    using Cons.IH [of "c\<lparr>built := BMap (done' @ [x]), left := LMap es\<rparr>" "done' @ [x]"] Cons.prems(1)
    by (cases c) (simp cong: option.case_cong)
  ultimately show ?case using x by (simp split: option.splits)
qed

lemma copy_loop_Leaf:
  "next_child (left tp) = Some ((key, v), rest) \<Longrightarrow> copy_step v key = Inr (Leaf v) \<Longrightarrow>
   copy_loop (tp # stack) =
     and_then (attach (built tp) key v) (\<lambda>b. copy_loop (tp\<lparr>built := b, left := rest\<rparr> # stack))"
  by (simp add: copy_loop.simps(2))

lemma all_copies: "copies v"
proof (induction v rule: value_induct)
  case (List xs)
  show ?case unfolding copies_def
  proof (intro allI impI)
    fix tp :: copying and stack key rest
    assume n: "next_child (left tp) = Some ((key, VList xs), rest)" and f: "fits (built tp) key"
    let ?c = "\<lparr>built = BList [], left = LList xs, ckey = key\<rparr>"
    have "copy_loop (tp # stack) = copy_loop (?c # tp\<lparr>left := rest\<rparr> # stack)"
      using n by (simp add: copy_loop.simps(2) [of tp] copy_step_def)
    also have "\<dots> = (case first_some (map (refusal_with WrongKind) xs) of Some e \<Rightarrow> Inl (Refused e)
       | None \<Rightarrow> copy_loop (\<lparr>built = BList xs, left = LList [], ckey = key\<rparr> # tp\<lparr>left := rest\<rparr> # stack))"
      using copy_items [of xs ?c "[]" "tp\<lparr>left := rest\<rparr> # stack"] List
      by (simp cong: option.case_cong)
    also have "copy_loop (\<lparr>built = BList xs, left = LList [], ckey = key\<rparr> # tp\<lparr>left := rest\<rparr> # stack)
      = and_then (attach (built tp) key (VList xs))
          (\<lambda>b. copy_loop (tp\<lparr>built := b, left := rest\<rparr> # stack))"
      by (cases tp) (simp add: copy_loop.simps(2))
    finally show "copy_loop (tp # stack) = (case refusal (VList xs) of Some e \<Rightarrow> Inl (Refused e)
       | None \<Rightarrow> and_then (attach (built tp) key (VList xs))
           (\<lambda>b. copy_loop (tp\<lparr>built := b, left := rest\<rparr> # stack)))" by simp
  qed
next
  case (Map es)
  then have children: "list_all (\<lambda>e. copies (snd e)) es" by (auto simp: list_all_iff)
  show ?case unfolding copies_def
  proof (intro allI impI)
    fix tp :: copying and stack key rest
    assume n: "next_child (left tp) = Some ((key, VMap es), rest)" and f: "fits (built tp) key"
    let ?c = "\<lparr>built = BMap [], left = LMap es, ckey = key\<rparr>"
    have "keys_are_text es \<Longrightarrow> copy_loop (tp # stack) = copy_loop (?c # tp\<lparr>left := rest\<rparr> # stack)"
      using n by (simp add: copy_loop.simps(2) [of tp] copy_step_def)
    also have "copy_loop (?c # tp\<lparr>left := rest\<rparr> # stack) =
      (case first_some (map (\<lambda>e. refusal (snd e)) es) of Some e \<Rightarrow> Inl (Refused e)
       | None \<Rightarrow> copy_loop (\<lparr>built = BMap es, left = LMap [], ckey = key\<rparr> # tp\<lparr>left := rest\<rparr> # stack))"
      using copy_entries [of es ?c "[]" "tp\<lparr>left := rest\<rparr> # stack"] children
      by (simp cong: option.case_cong)
    also have "copy_loop (\<lparr>built = BMap es, left = LMap [], ckey = key\<rparr> # tp\<lparr>left := rest\<rparr> # stack)
      = and_then (attach (built tp) key (VMap es))
          (\<lambda>b. copy_loop (tp\<lparr>built := b, left := rest\<rparr> # stack))"
      by (cases tp) (simp add: copy_loop.simps(2))
    finally show "copy_loop (tp # stack) = (case refusal (VMap es) of Some e \<Rightarrow> Inl (Refused e)
       | None \<Rightarrow> and_then (attach (built tp) key (VMap es))
           (\<lambda>b. copy_loop (tp\<lparr>built := b, left := rest\<rparr> # stack)))"
      using n by (auto simp: copy_loop.simps(2) [of tp] copy_step_def split: option.splits)
  qed
qed (auto simp: copies_def copy_loop.simps(2) copy_step_def)

lemma copy_value_eq:
  "copy_value v = (case refusal v of Some e \<Rightarrow> Inl (Refused e) | None \<Rightarrow> Inr v)"
proof (cases v)
  case (VList xs)
  then show ?thesis
    using copy_items [of xs "\<lparr>built = BList [], left = LList xs, ckey = None\<rparr>" "[]" "[]"] all_copies
    by (simp add: list_all_iff copy_value_def copy_step_def copy_loop.simps(2) split: option.splits)
next
  case (VMap es)
  then show ?thesis
    using copy_entries [of es "\<lparr>built = BMap [], left = LMap es, ckey = None\<rparr>" "[]" "[]"] all_copies
    by (simp add: list_all_iff copy_value_def copy_step_def copy_loop.simps(2) split: option.splits)
qed (simp_all add: copy_value_def copy_step_def)

section \<open>Properties\<close>

text \<open>The explicit-stack comparison of two trees is structural equality.\<close>

theorem equality_is_structural: "equal (Values a b) \<longleftrightarrow> a = b"
  by (simp add: equal_iff)

text \<open>The copying machine returns the tree it was given when every door accepts its
  content, and otherwise the error of the first node, in document order, that a door
  refuses; its \<open>expect\<close>s never fail.\<close>

theorem copy_is_the_identity_or_the_first_refusal:
  "copy_value v = (case refusal v of Some e \<Rightarrow> Inl (Refused e) | None \<Rightarrow> Inr v)"
  by (rule copy_value_eq)

end
