(* ===== verification/Maps.thy ===== *)
theory Maps
  imports Walks
begin

text \<open>
  The insertion-ordered map of \<open>value/types/map.rs\<close> as its entries, with the index
  structures that find keys in a wide map (\<open>KeyIndex\<close>, \<open>Filling\<close>, \<open>Lookup\<close>) and
  the seeded hash of \<open>value/wire/keys.rs\<close> they rest on. The seeds the source draws
  at random are an argument.

  The interface \<open>keyed_store\<close> says what a store promises, to write a key in place or
  append it; a plain map and a filling map both provide it, so filling through the hash
  index builds what repeated \<open>Map::set\<close> would, whatever the seeds.
\<close>

section \<open>The map\<close>

fun position :: "map_entries \<Rightarrow> str \<Rightarrow> nat option" where
  "position [] key = None"
| "position (e # es) key = (if fst e = key then Some 0 else map_option Suc (position es key))"

definition map_get :: "map_entries \<Rightarrow> str \<Rightarrow> Value option" where
  "map_get es key = (case position es key of None \<Rightarrow> None | Some i \<Rightarrow> Some (snd (es ! i)))"

definition contains_key :: "map_entries \<Rightarrow> str \<Rightarrow> bool" where
  "contains_key es key \<longleftrightarrow> position es key \<noteq> None"

definition insert_node :: "map_entries \<Rightarrow> str \<Rightarrow> Value \<Rightarrow> map_entries" where
  "insert_node es key v = es @ [(key, v)]"

definition put_at :: "map_entries \<Rightarrow> nat \<Rightarrow> Value \<Rightarrow> map_entries" where
  "put_at es i v = es[i := (fst (es ! i), v)]"

definition map_set :: "map_entries \<Rightarrow> str \<Rightarrow> Value \<Rightarrow> map_entries" where
  "map_set es key v =
     (case position es key of Some i \<Rightarrow> put_at es i v | None \<Rightarrow> insert_node es key v)"

definition map_remove :: "map_entries \<Rightarrow> str \<Rightarrow> (Value \<times> map_entries) option" where
  "map_remove es key =
     (case position es key of
        None \<Rightarrow> None
      | Some i \<Rightarrow> Some (snd (es ! i), take i es @ drop (i + 1) es))"

definition map_discard :: "map_entries \<Rightarrow> str \<Rightarrow> bool \<times> map_entries" where
  "map_discard es key =
     (case map_remove es key of None \<Rightarrow> (False, es) | Some (_, es') \<Rightarrow> (True, es'))"

text \<open>\<open>push_into\<close>: append to the list under a key, made first when there is none.\<close>

definition push_into :: "map_entries \<Rightarrow> str \<Rightarrow> Value \<Rightarrow> value_error + map_entries" where
  "push_into es key v =
     (let es' = (if contains_key es key then es else map_set es key (VList []))
      in case position es' key of
           None \<Rightarrow> Inl WrongKind
         | Some i \<Rightarrow>
             and_then (ok_or WrongKind (as_list (snd (es' ! i))))
               (\<lambda>xs. Inr (put_at es' i (VList (xs @ [v])))))"

text \<open>\<open>drop_keys_not_text\<close>: how many entries had a key that is not UTF-8, and the rest.\<close>

definition drop_keys_not_text :: "map_entries \<Rightarrow> nat \<times> map_entries" where
  "drop_keys_not_text es =
     (if keys_are_text es then (0, es)
      else let kept = filter (\<lambda>e. is_text (fst e)) es in (length es - length kept, kept))"

lemma position_Some:
  "position es k = Some i \<Longrightarrow> i < length es \<and> fst (es ! i) = k \<and> (\<forall>j<i. fst (es ! j) \<noteq> k)"
proof (induction es arbitrary: i)
  case (Cons e es)
  show ?case
  proof (cases "fst e = k")
    case False
    with Cons.prems obtain j where j: "position es k = Some j" "i = Suc j" by auto
    from Cons.IH [OF j(1)] j(2) False show ?thesis by (auto simp: less_Suc_eq_0_disj)
  qed (use Cons in auto)
qed simp

lemma position_None: "position es k = None \<longleftrightarrow> k \<notin> fst ` set es"
  by (induction es) auto

lemma position_least:
  assumes "i < length es" "fst (es ! i) = k" "\<And>j. j < i \<Longrightarrow> fst (es ! j) \<noteq> k"
  shows "position es k = Some i"
proof (cases "position es k")
  case None
  then show ?thesis using assms by (metis image_eqI nth_mem position_None)
next
  case (Some j)
  from position_Some [OF this] assms have "j = i" by (metis linorder_neqE_nat)
  with Some show ?thesis by simp
qed

lemma map_get_map_of: "map_get es k = map_of es k"
proof (induction es)
  case (Cons e es)
  show ?case
  proof (cases "position es k")
    case None
    with Cons show ?thesis by (cases e) (auto simp: map_get_def)
  next
    case (Some i)
    with Cons show ?thesis by (cases e) (auto simp: map_get_def)
  qed
qed (simp add: map_get_def)

lemma contains_key_iff: "contains_key es k \<longleftrightarrow> k \<in> fst ` set es"
  by (simp add: contains_key_def position_None)

lemma map_set_Nil [simp]: "map_set [] k v = [(k, v)]"
  by (simp add: map_set_def insert_node_def)

lemma map_set_Cons:
  "map_set (e # es) k v = (if fst e = k then (k, v) # es else e # map_set es k v)"
  by (auto simp: map_set_def put_at_def insert_node_def split: option.splits)

lemma map_of_map_set: "map_of (map_set es k v) = (map_of es)(k \<mapsto> v)"
proof (induction es)
  case (Cons e es)
  then show ?case by (cases e) (auto simp: map_set_Cons fun_eq_iff)
qed simp

lemma map_fst_map_set:
  "map fst (map_set es k v) = (if k \<in> fst ` set es then map fst es else map fst es @ [k])"
  by (induction es) (auto simp: map_set_Cons)

lemma set_fst_map_set: "fst ` set (map_set es k v) = insert k (fst ` set es)"
proof -
  have "set (map fst (map_set es k v)) = insert k (set (map fst es))"
    by (auto simp: map_fst_map_set)
  then show ?thesis by simp
qed

lemma distinct_map_set: "distinct (map fst es) \<Longrightarrow> distinct (map fst (map_set es k v))"
  by (auto simp: map_fst_map_set)

lemma map_remove_None: "map_remove es k = None \<longleftrightarrow> k \<notin> fst ` set es"
  by (simp add: map_remove_def position_None [symmetric] split: option.splits)

lemma map_remove_Cons:
  "map_remove (e # es) k =
     (if fst e = k then Some (snd e, es) else map_option (\<lambda>(v, r). (v, e # r)) (map_remove es k))"
  by (auto simp: map_remove_def split: option.splits)

lemma map_remove_Some:
  assumes "map_remove es k = Some (v, es')" "distinct (map fst es)"
  shows "map_of es k = Some v \<and> map_of es' = (map_of es)(k := None) \<and>
    map fst es' = filter (\<lambda>x. x \<noteq> k) (map fst es)"
  using assms
proof (induction es arbitrary: es')
  case Nil
  then show ?case by (simp add: map_remove_def)
next
  case (Cons e es)
  obtain x y where e: "e = (x, y)" by (cases e)
  show ?case
  proof (cases "x = k")
    case True
    with Cons.prems e have k: "v = y" "es' = es" "k \<notin> fst ` set es" by (auto simp: map_remove_Cons)
    then have "map_of es k = None" by (simp add: map_of_eq_None_iff)
    moreover have "filter (\<lambda>x. x \<noteq> k) (map fst es) = map fst es"
      using k by (auto simp: filter_id_conv)
    ultimately show ?thesis using e True k by (auto simp: fun_eq_iff)
  next
    case False
    with Cons.prems(1) e obtain r where r: "map_remove es k = Some (v, r)" "es' = e # r"
      by (auto simp: map_remove_Cons)
    with Cons.IH [OF r(1)] Cons.prems(2) e False show ?thesis by (auto simp: fun_eq_iff)
  qed
qed

section \<open>The seeded hash\<close>

definition LINEAR :: nat where "LINEAR = 16"

text \<open>\<open>Seeded::hash_one\<close>: a multiply-and-fold per eight bytes.\<close>

definition fold_mul :: "u64 \<Rightarrow> u64 \<Rightarrow> u64" where
  "fold_mul a b = (let p = (ucast a :: u128) * ucast b in ucast p XOR ucast (drop_bit 64 p))"

fun le_bytes :: "u8 list \<Rightarrow> u64" where
  "le_bytes [] = 0"
| "le_bytes (b # bs) = ucast b OR push_bit 8 (le_bytes bs)"

definition hash_M :: u64 where "hash_M = 0x9e3779b97f4a7c15"

fun hash_words :: "u64 \<Rightarrow> u64 \<Rightarrow> u64 \<Rightarrow> u8 list \<Rightarrow> u64" where
  "hash_words s0 s1 h (a # b # c # d # e # f # g # i # rest) =
     hash_words s0 s1 (fold_mul (h XOR le_bytes [a, b, c, d, e, f, g, i]) (s1 XOR hash_M)) rest"
| "hash_words s0 s1 h [] = h"
| "hash_words s0 s1 h rest =
     fold_mul (h XOR le_bytes (rest @ replicate (8 - length rest) 0)) s1"

definition hash_one :: "u64 \<times> u64 \<Rightarrow> u8 list \<Rightarrow> u64" where
  "hash_one seeds key =
     (let s0 = fst seeds; s1 = snd seeds;
          h = s0 XOR (word_of_nat (length key) * hash_M)
      in fold_mul (hash_words s0 s1 h key) (s0 XOR hash_M))"

section \<open>Finding keys in a wide map\<close>

record key_index =
  seeds :: "u64 \<times> u64"
  first :: "u64 \<Rightarrow> nat option"

definition key_hash :: "key_index \<Rightarrow> str \<Rightarrow> u64" where
  "key_hash ix key = hash_one (seeds ix) (as_bytes key)"

fun index_from :: "u64 \<times> u64 \<Rightarrow> nat \<Rightarrow> map_entries \<Rightarrow> (u64 \<Rightarrow> nat option) \<Rightarrow> (u64 \<Rightarrow> nat option)" where
  "index_from sd pos [] m = m"
| "index_from sd pos (e # es) m =
     (let h = hash_one sd (as_bytes (fst e))
      in index_from sd (Suc pos) es (case m h of None \<Rightarrow> m(h \<mapsto> pos) | Some _ \<Rightarrow> m))"

definition index_of_entries :: "map_entries \<Rightarrow> u64 \<times> u64 \<Rightarrow> key_index" where
  "index_of_entries es sd = \<lparr>seeds = sd, first = index_from sd 0 es (\<lambda>_. None)\<rparr>"

definition index_find :: "key_index \<Rightarrow> map_entries \<Rightarrow> str \<Rightarrow> nat option" where
  "index_find ix es key =
     (case first ix (key_hash ix key) of
        None \<Rightarrow> None
      | Some pos \<Rightarrow> if fst (es ! pos) = key then Some pos else position es key)"

record filling =
  fentries :: map_entries
  index :: "key_index option"
  expected :: nat

definition with_room :: "map_entries \<Rightarrow> nat \<Rightarrow> filling" where
  "with_room es n = \<lparr>fentries = es, index = None, expected = n\<rparr>"

text \<open>\<open>Filling::index\<close>: the index, made first when the map is wide or expected to be,
  under the seeds \<open>drawn\<close> holds.\<close>

definition filling_index :: "u64 \<times> u64 \<Rightarrow> filling \<Rightarrow> filling" where
  "filling_index drawn f =
     (if index f = None \<and> length (fentries f) + expected f > LINEAR
      then f\<lparr>index := Some (index_of_entries (fentries f) drawn)\<rparr> else f)"

definition filling_set :: "u64 \<times> u64 \<Rightarrow> filling \<Rightarrow> str \<Rightarrow> Value \<Rightarrow> filling" where
  "filling_set drawn f0 key v =
     (let f = filling_index drawn f0; es = fentries f in
      case index f of
        None \<Rightarrow> f\<lparr>fentries := map_set es key v\<rparr>
      | Some ix \<Rightarrow>
          (let h = key_hash ix key in
           case first ix h of
             None \<Rightarrow>
               f\<lparr>fentries := insert_node es key v,
                 index := Some (ix\<lparr>first := (first ix)(h \<mapsto> length es)\<rparr>)\<rparr>
           | Some at0 \<Rightarrow>
               (case (if fst (es ! at0) = key then Some at0 else position es key) of
                  Some pos \<Rightarrow> f\<lparr>fentries := put_at es pos v\<rparr>
                | None \<Rightarrow> f\<lparr>fentries := insert_node es key v\<rparr>)))"

definition filling_contains :: "u64 \<times> u64 \<Rightarrow> filling \<Rightarrow> str \<Rightarrow> filling \<times> bool" where
  "filling_contains drawn f0 key =
     (let f = filling_index drawn f0 in
      case index f of
        Some ix \<Rightarrow> (f, index_find ix (fentries f) key \<noteq> None)
      | None \<Rightarrow> (f, contains_key (fentries f) key))"

text \<open>\<open>Lookup\<close>: a map read by key many times.\<close>

definition lookup_get :: "u64 \<times> u64 \<Rightarrow> map_entries \<Rightarrow> str \<Rightarrow> Value option" where
  "lookup_get drawn es key =
     (case (if length es > LINEAR then index_find (index_of_entries es drawn) es key
            else position es key) of
        None \<Rightarrow> None
      | Some pos \<Rightarrow> Some (snd (es ! pos)))"

text \<open>\<open>absorb\<close> and \<open>Extend\<close>: every entry of another map stored in turn.\<close>

definition map_extend :: "u64 \<times> u64 \<Rightarrow> map_entries \<Rightarrow> (str \<times> Value) list \<Rightarrow> map_entries" where
  "map_extend drawn es pairs =
     fentries (fold (\<lambda>(k, v) f. filling_set drawn f k v) pairs (with_room es (length pairs)))"

subsection \<open>The index finds what a scan finds\<close>

definition index_ok :: "key_index \<Rightarrow> map_entries \<Rightarrow> bool" where
  "index_ok ix es \<longleftrightarrow>
     (\<forall>i<length es. \<exists>j\<le>i. first ix (key_hash ix (fst (es ! i))) = Some j) \<and>
     (\<forall>h j. first ix h = Some j \<longrightarrow> j < length es \<and> key_hash ix (fst (es ! j)) = h)"

lemma index_okD1:
  "index_ok ix es \<Longrightarrow> i < length es \<Longrightarrow> \<exists>j\<le>i. first ix (key_hash ix (fst (es ! i))) = Some j"
  by (simp add: index_ok_def)

lemma index_okD2:
  "index_ok ix es \<Longrightarrow> first ix h = Some j \<Longrightarrow> j < length es \<and> key_hash ix (fst (es ! j)) = h"
  by (simp add: index_ok_def)

lemma index_ok_append:
  assumes "index_ok ix es" "first ix (key_hash ix (fst e)) \<noteq> None"
  shows "index_ok ix (es @ [e])"
  unfolding index_ok_def
proof (intro conjI allI impI)
  fix i assume i: "i < length (es @ [e])"
  show "\<exists>j\<le>i. first ix (key_hash ix (fst ((es @ [e]) ! i))) = Some j"
  proof (cases "i < length es")
    case True
    then show ?thesis using index_okD1 [OF assms(1) True] by (simp add: nth_append)
  next
    case False
    with i have "i = length es" by simp
    moreover obtain j where "first ix (key_hash ix (fst e)) = Some j" using assms(2) by auto
    moreover from this have "j < length es" using index_okD2 [OF assms(1)] by blast
    ultimately show ?thesis by auto
  qed
next
  fix h j assume "first ix h = Some j"
  with index_okD2 [OF assms(1)] show "j < length (es @ [e])" "key_hash ix (fst ((es @ [e]) ! j)) = h"
    by (fastforce simp: nth_append)+
qed

lemma index_ok_append_new:
  assumes "index_ok ix es" "first ix (key_hash ix (fst e)) = None"
  shows "index_ok (ix\<lparr>first := (first ix)(key_hash ix (fst e) \<mapsto> length es)\<rparr>) (es @ [e])"
proof -
  let ?ix = "ix\<lparr>first := (first ix)(key_hash ix (fst e) \<mapsto> length es)\<rparr>"
  have h: "key_hash ?ix = key_hash ix" by (simp add: key_hash_def fun_eq_iff)
  show ?thesis unfolding index_ok_def h
  proof (intro conjI allI impI)
    fix i assume i: "i < length (es @ [e])"
    show "\<exists>j\<le>i. first ?ix (key_hash ix (fst ((es @ [e]) ! i))) = Some j"
    proof (cases "i < length es")
      case True
      from index_okD1 [OF assms(1) True] assms(2) True show ?thesis by (auto simp: nth_append)
    next
      case False
      with i have "i = length es" by simp
      then show ?thesis by auto
    qed
  next
    fix h' j assume "first ?ix h' = Some j"
    then show "j < length (es @ [e])" "key_hash ix (fst ((es @ [e]) ! j)) = h'"
      using index_okD2 [OF assms(1)] by (fastforce simp: nth_append split: if_splits)+
  qed
qed

lemma index_ok_put_at:
  assumes "index_ok ix es" "i < length es"
  shows "index_ok ix (put_at es i v)"
proof -
  have "fst (put_at es i v ! j) = fst (es ! j)" if "j < length es" for j
    using that by (cases "j = i") (auto simp: put_at_def)
  with assms show ?thesis by (fastforce simp: index_ok_def put_at_def)
qed

lemma index_from_ok:
  assumes "index_ok \<lparr>seeds = sd, first = m\<rparr> done'"
  shows "index_ok \<lparr>seeds = sd, first = index_from sd (length done') es m\<rparr> (done' @ es)"
  using assms
proof (induction es arbitrary: m done')
  case (Cons e es)
  let ?h = "hash_one sd (as_bytes (fst e))"
  have "index_ok \<lparr>seeds = sd, first = (case m ?h of None \<Rightarrow> m(?h \<mapsto> length done') | Some _ \<Rightarrow> m)\<rparr>
      (done' @ [e])"
  proof (cases "m ?h")
    case None
    then show ?thesis using index_ok_append_new [OF Cons.prems, of e] by (simp add: key_hash_def)
  next
    case (Some j)
    then show ?thesis using index_ok_append [OF Cons.prems, of e] by (simp add: key_hash_def)
  qed
  from Cons.IH [OF this] show ?case by (simp add: Let_def)
qed simp

lemma index_of_entries_ok: "index_ok (index_of_entries es sd) es"
  using index_from_ok [of sd "\<lambda>_. None" "[]" es] by (simp add: index_of_entries_def index_ok_def)

text \<open>The position the index proposes, checked by its bytes, is the first of its key.\<close>

lemma index_candidate:
  assumes ok: "index_ok ix es" and f: "first ix (key_hash ix k) = Some pos" and k: "fst (es ! pos) = k"
  shows "position es k = Some pos"
proof (rule position_least)
  show "pos < length es" using index_okD2 [OF ok f] by simp
  show "fst (es ! pos) = k" by (rule k)
next
  fix j assume j: "j < pos"
  show "fst (es ! j) \<noteq> k"
  proof
    assume "fst (es ! j) = k"
    moreover have "j < length es" using j index_okD2 [OF ok f] by simp
    ultimately obtain j' where "j' \<le> j" "first ix (key_hash ix k) = Some j'"
      using index_okD1 [OF ok] by blast
    with f j show False by simp
  qed
qed

lemma index_vacant:
  assumes ok: "index_ok ix es" and f: "first ix (key_hash ix k) = None"
  shows "position es k = None"
proof -
  have "fst (es ! i) \<noteq> k" if "i < length es" for i
    using index_okD1 [OF ok that] f by auto
  then show ?thesis unfolding position_None by (metis imageE in_set_conv_nth)
qed

lemma index_find_position: "index_ok ix es \<Longrightarrow> index_find ix es k = position es k"
  by (auto simp: index_find_def index_candidate index_vacant split: option.splits)

lemma lookup_get_eq: "lookup_get drawn es k = map_get es k"
  by (simp add: lookup_get_def map_get_def index_find_position index_of_entries_ok)

section \<open>Storing\<close>

text \<open>What a store promises: a repeated key is replaced in place, a new one appended.\<close>

locale keyed_store =
  fixes store :: "'m \<Rightarrow> str \<Rightarrow> Value \<Rightarrow> 'm"
    and content :: "'m \<Rightarrow> map_entries"
    and sound :: "'m \<Rightarrow> bool"
  assumes store_sound: "sound m \<Longrightarrow> sound (store m k v)"
    and store_content: "sound m \<Longrightarrow> content (store m k v) = map_set (content m) k v"
begin

definition store_all :: "(str \<times> Value) list \<Rightarrow> 'm \<Rightarrow> 'm" where
  "store_all es m = fold (\<lambda>(k, v) f. store f k v) es m"

lemma store_all_content:
  "sound m \<Longrightarrow> sound (store_all es m) \<and>
   content (store_all es m) = fold (\<lambda>(k, v) f. map_set f k v) es (content m)"
  unfolding store_all_def
  by (induction es arbitrary: m) (auto simp: store_sound store_content)

lemma store_all_lookup:
  assumes "sound m"
  shows "map_of (content (store_all es m)) = map_of (content m) ++ map_of (rev es)"
proof -
  have "map_of (fold (\<lambda>(k, v) f. map_set f k v) es c) = map_of c ++ map_of (rev es)" for c
    by (induction es arbitrary: c) (auto simp: map_of_map_set)
  with store_all_content [OF assms] show ?thesis by simp
qed

lemma store_all_distinct:
  assumes "sound m" "distinct (map fst (content m))"
  shows "distinct (map fst (content (store_all es m)))"
proof -
  have "distinct (map fst c) \<Longrightarrow> distinct (map fst (fold (\<lambda>(k, v) f. map_set f k v) es c))" for c
    by (induction es arbitrary: c) (auto intro: distinct_map_set)
  with store_all_content [OF assms(1)] assms(2) show ?thesis by simp
qed

lemma store_all_keeps_order:
  assumes "sound m"
  shows "\<exists>ks. map fst (content (store_all es m)) = map fst (content m) @ ks"
proof -
  have "\<exists>ks. map fst (fold (\<lambda>(k, v) f. map_set f k v) es c) = map fst c @ ks" for c
  proof (induction es arbitrary: c)
    case (Cons e es)
    obtain k v where e: "e = (k, v)" by (cases e)
    from Cons.IH [of "map_set c k v"] e show ?case by (auto simp: map_fst_map_set split: if_splits)
  qed simp
  with store_all_content [OF assms] show ?thesis by simp
qed

end

interpretation plain_map: keyed_store map_set "\<lambda>m. m" "\<lambda>_. True"
  by unfold_locales simp_all

definition filling_ok :: "filling \<Rightarrow> bool" where
  "filling_ok f \<longleftrightarrow> (case index f of None \<Rightarrow> True | Some ix \<Rightarrow> index_ok ix (fentries f))"

lemma filling_index_ok: "filling_ok f \<Longrightarrow> filling_ok (filling_index drawn f)"
  by (simp add: filling_ok_def filling_index_def index_of_entries_ok)

lemma filling_index_entries [simp]: "fentries (filling_index drawn f) = fentries f"
  by (simp add: filling_index_def)

lemma filling_set_spec:
  assumes "filling_ok f"
  shows "filling_ok (filling_set drawn f k v) \<and>
    fentries (filling_set drawn f k v) = map_set (fentries f) k v"
proof (cases "index (filling_index drawn f)")
  case None
  then show ?thesis by (simp add: filling_set_def filling_ok_def Let_def)
next
  case (Some ix)
  have ok: "index_ok ix (fentries f)"
    using filling_index_ok [OF assms, of drawn] Some by (simp add: filling_ok_def)
  show ?thesis
  proof (cases "first ix (key_hash ix k)")
    case None
    then show ?thesis using Some ok index_vacant [OF ok None] index_ok_append_new [OF ok, of "(k, v)"]
      by (simp add: filling_set_def filling_ok_def map_set_def insert_node_def Let_def)
  next
    case at0: (Some at0)
    have p: "(if fst (fentries f ! at0) = k then Some at0 else position (fentries f) k)
        = position (fentries f) k"
      using index_candidate [OF ok at0] by simp
    show ?thesis
    proof (cases "position (fentries f) k")
      case None
      with p have "filling_set drawn f k v =
          (filling_index drawn f)\<lparr>fentries := insert_node (fentries f) k v\<rparr>"
        using Some at0 by (auto simp: filling_set_def Let_def split: if_splits)
      then show ?thesis using Some at0 None index_ok_append [OF ok, of "(k, v)"]
        by (simp add: filling_ok_def map_set_def insert_node_def)
    next
      case at: (Some i)
      with p have "filling_set drawn f k v =
          (filling_index drawn f)\<lparr>fentries := put_at (fentries f) i v\<rparr>"
        using Some at0 by (auto simp: filling_set_def Let_def split: if_splits)
      then show ?thesis using Some at index_ok_put_at [OF ok] position_Some [OF at]
        by (simp add: filling_ok_def map_set_def)
    qed
  qed
qed

interpretation filling_map: keyed_store "filling_set drawn" fentries filling_ok for drawn
  by unfold_locales (simp_all add: filling_set_spec)

lemma filling_contains_spec:
  assumes "filling_ok f"
  shows "snd (filling_contains drawn f k) \<longleftrightarrow> contains_key (fentries f) k"
  using filling_index_ok [OF assms, of drawn]
  by (auto simp: filling_contains_def contains_key_def filling_ok_def index_find_position Let_def
      split: option.splits)

lemma map_extend_spec:
  "map_extend drawn es pairs = fold (\<lambda>(k, v) f. map_set f k v) pairs es"
  using filling_map.store_all_content [of "with_room es (length pairs)" drawn pairs]
  by (simp add: map_extend_def filling_map.store_all_def with_room_def filling_ok_def)

section \<open>Properties\<close>

text \<open>A stored key reads back, every other key reads as before, a repeated key keeps its
  place and a new one goes last.\<close>

theorem set_then_get:
  "map_get (map_set es k v) k' = (if k' = k then Some v else map_get es k') \<and>
   map fst (map_set es k v) = (if k \<in> fst ` set es then map fst es else map fst es @ [k])"
  by (simp add: map_get_map_of map_of_map_set map_fst_map_set)

text \<open>removing a key of a map that holds it once answers its value, leaves every other
  entry readable and in its order, and the key unreadable.\<close>

theorem remove_takes_one_entry:
  "map_remove es k = Some (v, es') \<Longrightarrow> distinct (map fst es) \<Longrightarrow>
   map_get es k = Some v \<and> map_get es' k = None \<and> (\<forall>k'. k' \<noteq> k \<longrightarrow> map_get es' k' = map_get es k') \<and>
   map fst es' = filter (\<lambda>x. x \<noteq> k) (map fst es)"
  by (simp add: map_get_map_of map_remove_Some)

theorem remove_takes_one_entry_witness:
  "map_get [(''b'', VNull)] ''a'' = None \<and> map_get [(''a'', VBool True), (''b'', VNull)] ''a'' = Some (VBool True)"
proof -
  have "map_remove [(''a'', VBool True), (''b'', VNull)] ''a'' = Some (VBool True, [(''b'', VNull)])"
    by code_simp
  from remove_takes_one_entry [OF this] show ?thesis by simp
qed

text \<open>Filling a map through the seeded key index stores exactly what storing into the
  plain map does, whatever the seeds and whichever keys collide.\<close>

theorem filling_is_storing:
  "map_extend drawn es pairs = fold (\<lambda>(k, v) m. map_set m k v) pairs es \<and>
   lookup_get drawn es k = map_get es k"
  using filling_map.store_all_content [of "with_room es (length pairs)" drawn pairs]
  by (simp add: map_extend_def filling_map.store_all_def with_room_def filling_ok_def lookup_get_eq)

end
