(* ===== verification/Merge.thy ===== *)
theory Merge
  imports Merge_Path Walks Maps
begin

text \<open>
  The merge of \<open>value/merge/mod.rs\<close>: the three modes, each arm a function of the source's
  name, mutually recursive as they are there. The context holds what a merge needs beyond
  its two values, and what the standard library draws at random: the seeds of the key
  indexes one call makes (numbered in the order it makes them) and the hasher of a union.
  Every allocation succeeds.
\<close>

section \<open>Modes and context\<close>

datatype MergeMode = Simple | Substitute | Deep

fun merge_mode_discriminant :: "MergeMode \<Rightarrow> nat" where
  "merge_mode_discriminant Simple = 1"
| "merge_mode_discriminant Substitute = 3"
| "merge_mode_discriminant Deep = 2"

datatype MergeError = Kind str "tag option" "tag option" MergeMode | Build value_error

type_synonym MergeOverrides = "str list \<Rightarrow> MergeMode option"

definition overrides_set :: "MergeOverrides \<Rightarrow> str list \<Rightarrow> MergeMode \<Rightarrow> MergeOverrides" where
  "overrides_set o' path m = o'(path \<mapsto> m)"

record context_of =
  mode :: MergeMode
  mergelists :: bool
  overrides :: "MergeOverrides option"
  draws :: "Value \<Rightarrow> Value \<Rightarrow> nat \<Rightarrow> u64 \<times> u64"
  hasher :: "Value \<Rightarrow> Value \<Rightarrow> hash_write list \<Rightarrow> u64"

definition mode_at :: "context_of \<Rightarrow> str list \<Rightarrow> MergeMode" where
  "mode_at ctx path =
     (case Option.bind (overrides ctx) (\<lambda>o'. o' path) of Some m \<Rightarrow> m | None \<Rightarrow> mode ctx)"

type_synonym 'a merged = "MergeError failure + 'a"

section \<open>Kinds\<close>

definition kind :: "Value \<Rightarrow> tag option" where
  "kind v = (case tag_of v of Inr t \<Rightarrow> Some t | Inl _ \<Rightarrow> None)"

definition is_map :: "Value \<Rightarrow> bool" where
  "is_map v \<longleftrightarrow> as_map v \<noteq> None"

definition is_list :: "Value \<Rightarrow> bool" where
  "is_list v \<longleftrightarrow> kind v = Some GUATIAO_LIST"

definition is_scalar :: "Value \<Rightarrow> bool" where
  "is_scalar v \<longleftrightarrow> \<not> is_map v \<and> \<not> is_list v"

definition clone_into :: "Value \<Rightarrow> Value merged" where
  "clone_into v = map_err (map_failure Build) (copy_value v)"

text \<open>\<open>unwrap_or(&[])\<close> on the two container doors.\<close>

definition items_of :: "Value \<Rightarrow> Value list" where
  "items_of v = (case as_list v of Some xs \<Rightarrow> xs | None \<Rightarrow> [])"

definition entries_of :: "Value \<Rightarrow> map_entries" where
  "entries_of v = (case as_map v of Some es \<Rightarrow> es | None \<Rightarrow> [])"

definition lookup_contains :: "u64 \<times> u64 \<Rightarrow> map_entries \<Rightarrow> str \<Rightarrow> bool" where
  "lookup_contains drawn es key \<longleftrightarrow> lookup_get drawn es key \<noteq> None"

definition shares_a_key :: "u64 \<times> u64 \<Rightarrow> Value \<Rightarrow> Value \<Rightarrow> bool" where
  "shares_a_key drawn a b =
     (case as_map a of
        None \<Rightarrow> False
      | Some m \<Rightarrow> list_ex (\<lambda>e. lookup_contains drawn m (fst e)) (entries_of b))"

section \<open>Finding an equal item\<close>

definition SCAN :: nat where "SCAN = 16"

record held =
  hfirst :: "u64 \<Rightarrow> nat option"
  indexed :: nat

definition held_new :: held where
  "held_new = \<lparr>hfirst = (\<lambda>_. None), indexed = 0\<rparr>"

fun index_held ::
  "(hash_write list \<Rightarrow> u64) \<Rightarrow> nat \<Rightarrow> Value list \<Rightarrow> (u64 \<Rightarrow> nat option) \<Rightarrow> (u64 \<Rightarrow> nat option)" where
  "index_held hf at0 [] m = m"
| "index_held hf at0 (v # vs) m =
     (let h = hf (hash_input v)
      in index_held hf (Suc at0) vs (case m h of None \<Rightarrow> m(h \<mapsto> at0) | Some _ \<Rightarrow> m))"

definition held_contains ::
  "(hash_write list \<Rightarrow> u64) \<Rightarrow> held \<Rightarrow> Value list \<Rightarrow> Value \<Rightarrow> held \<times> bool" where
  "held_contains hf h made item =
     (if length made \<le> SCAN then (h, list_ex (\<lambda>x. equal (Values x item)) made)
      else
        let m = index_held hf (indexed h) (drop (indexed h) made) (hfirst h);
            h' = \<lparr>hfirst = m, indexed = length made\<rparr>
        in (h', case m (hf (hash_input item)) of
                  None \<Rightarrow> False
                | Some i \<Rightarrow>
                    if equal (Values (made ! i) item) then True
                    else list_ex (\<lambda>x. equal (Values x item)) made))"

text \<open>The loop both arms of \<open>union_lists\<close> start with: the non-map items the list does not
  hold yet, each copied.\<close>

fun push_unique ::
  "(hash_write list \<Rightarrow> u64) \<Rightarrow> Value list \<Rightarrow> held \<Rightarrow> Value list \<Rightarrow> Value list merged" where
  "push_unique hf [] h made = Inr made"
| "push_unique hf (item # rest) h made =
     (if is_map item then push_unique hf rest h made
      else
        let r = held_contains hf h made item in
        if snd r then push_unique hf rest (fst r) made
        else and_then (clone_into item) (\<lambda>c. push_unique hf rest (fst r) (made @ [c])))"

fun push_all :: "Value list \<Rightarrow> Value list \<Rightarrow> Value list merged" where
  "push_all [] made = Inr made"
| "push_all (item # rest) made = and_then (clone_into item) (\<lambda>c. push_all rest (made @ [c]))"

section \<open>The merge\<close>

definition kind_error :: "str list \<Rightarrow> tag option \<Rightarrow> tag option \<Rightarrow> MergeMode \<Rightarrow> 'a merged" where
  "kind_error path earlier later m = Inl (Refused (Kind (render path) earlier later m))"

definition too_deep :: "'a merged" where
  "too_deep = Inl (Refused (Build TooDeep))"

text \<open>The positions \<open>union_lists\<close> merges at: a map of the list so far that shares a key with
  the map the later list has at the same index.\<close>

definition mergeable_at :: "(nat \<Rightarrow> u64 \<times> u64) \<Rightarrow> Value list \<Rightarrow> Value list \<Rightarrow> nat list" where
  "mergeable_at sd result later_items =
     filter (\<lambda>i. i < length later_items \<and> is_map (later_items ! i) \<and> is_map (result ! i) \<and>
               shares_a_key (sd i) (result ! i) (later_items ! i))
       [0..<length result]"

lemma items_of_weight: "x \<in> set (items_of v) \<Longrightarrow> weight x < weight v"
proof -
  assume x: "x \<in> set (items_of v)"
  then obtain xs where v: "v = VList xs" by (cases v) (auto simp: items_of_def)
  with x have "weight x \<le> sum_list (map weight xs)" by (auto simp: items_of_def intro: member_le_sum_list)
  with v show ?thesis by simp
qed

lemma entries_of_weight: "e \<in> set (entries_of v) \<Longrightarrow> weight (snd e) < weight v"
proof -
  assume e: "e \<in> set (entries_of v)"
  then obtain es where v: "v = VMap es" by (cases v) (auto simp: entries_of_def split: if_splits)
  with e have "weight (snd e) \<in> set (map (\<lambda>e. weight (snd e)) es)"
    by (auto simp: entries_of_def split: if_splits)
  then have "weight (snd e) \<le> sum_list (map (\<lambda>e. weight (snd e)) es)"
    by (intro member_le_sum_list) auto
  with v show ?thesis by simp
qed

lemma lookup_weight: "lookup_get drawn (entries_of v) k = Some x \<Longrightarrow> weight x < weight v"
proof -
  assume "lookup_get drawn (entries_of v) k = Some x"
  then have "map_of (entries_of v) k = Some x" by (simp add: lookup_get_eq map_get_map_of)
  then have "(k, x) \<in> set (entries_of v)" by (rule map_of_SomeD)
  from entries_of_weight [OF this] show ?thesis by simp
qed

lemma enumerate_items_weight: "(i, x) \<in> set (enumerate n (items_of v)) \<Longrightarrow> weight x < weight v"
  by (metis enumerate_eq_zip items_of_weight set_zip_rightD)

text \<open>The merge: every call is on a part of the later value, and the calls on the same value
  go down the rank of the functions, which is why it terminates.\<close>

function (sequential)
  merge_value :: "context_of \<Rightarrow> str list \<Rightarrow> nat \<Rightarrow> Value \<Rightarrow> Value \<Rightarrow> Value merged" and
  merge_simple :: "context_of \<Rightarrow> str list \<Rightarrow> nat \<Rightarrow> Value \<Rightarrow> Value \<Rightarrow> Value merged" and
  overwrite_positionally :: "context_of \<Rightarrow> str list \<Rightarrow> nat \<Rightarrow> Value \<Rightarrow> Value \<Rightarrow> Value merged" and
  merge_substitute :: "context_of \<Rightarrow> str list \<Rightarrow> nat \<Rightarrow> Value \<Rightarrow> Value \<Rightarrow> Value merged" and
  merge_deep :: "context_of \<Rightarrow> str list \<Rightarrow> nat \<Rightarrow> Value \<Rightarrow> Value \<Rightarrow> Value merged" and
  merge_maps_recursively :: "context_of \<Rightarrow> str list \<Rightarrow> nat \<Rightarrow> Value \<Rightarrow> Value \<Rightarrow> Value merged" and
  absorb_list_of_maps :: "context_of \<Rightarrow> str list \<Rightarrow> nat \<Rightarrow> MergeMode \<Rightarrow> Value \<Rightarrow> Value \<Rightarrow> Value merged" and
  union_lists :: "context_of \<Rightarrow> str list \<Rightarrow> nat \<Rightarrow> Value \<Rightarrow> Value \<Rightarrow> Value merged"
where
  "merge_value ctx path depth earlier later =
     (if depth \<ge> MAX_DEPTH then too_deep
      else if kind later = Some GUATIAO_ABSENT then clone_into earlier
      else if kind earlier = Some GUATIAO_ABSENT then clone_into later
      else case mode_at ctx path of
        Simple \<Rightarrow> merge_simple ctx path depth earlier later
      | Substitute \<Rightarrow> merge_substitute ctx path depth earlier later
      | Deep \<Rightarrow> merge_deep ctx path depth earlier later)"
| "merge_simple ctx path depth earlier later =
     (if depth \<ge> MAX_DEPTH then too_deep
      else if kind later = Some GUATIAO_ABSENT then clone_into earlier
      else if kind earlier = Some GUATIAO_ABSENT then clone_into later
      else if is_scalar later then clone_into later
      else if is_list later then
        if \<not> is_list earlier then clone_into later
        else overwrite_positionally ctx path depth earlier later
      else if \<not> is_map earlier then clone_into later
      else
        and_then (clone_into earlier) (\<lambda>copied.
        and_then (ok_or (Refused (Build WrongKind)) (as_map copied)) (\<lambda>m.
        and_then
          (fold_result (\<lambda>e out.
             let absent = kind (snd e) = Some GUATIAO_ABSENT;
                 r = filling_contains (draws ctx earlier later 0) out (fst e) in
             if absent \<and> snd r then Inr (fst r)
             else and_then (clone_into (snd e)) (\<lambda>c.
                    Inr (filling_set (draws ctx earlier later 0)
                           (if absent then fst r else out) (fst e) c)))
             (entries_of later) (with_room m 0))
          (\<lambda>out. Inr (VMap (fentries out))))))"
| "overwrite_positionally ctx path depth earlier later =
     (let earlier_items = items_of earlier; later_items = items_of later in
      and_then
        (fold_result (\<lambda>(i, item) out.
           and_then
             (if i < length earlier_items
              then merge_simple ctx (path @ [show_nat i]) (depth + 1) (earlier_items ! i) item
              else clone_into item)
             (\<lambda>c. Inr (out @ [c])))
           (enumerate 0 later_items) [])
        (\<lambda>out. and_then (push_all (drop (length later_items) earlier_items) out)
           (\<lambda>out. Inr (VList out))))"
| "merge_substitute ctx path depth earlier later =
     (if \<not> is_map earlier then
        if is_scalar later \<or> is_list later then clone_into later
        else kind_error path (kind earlier) (kind later) Substitute
      else if is_map later then merge_maps_recursively ctx path depth earlier later
      else if is_list later then absorb_list_of_maps ctx path depth Substitute earlier later
      else kind_error path (Some GUATIAO_MAP) (kind later) Substitute)"
| "merge_deep ctx path depth earlier later =
     (if kind earlier = Some GUATIAO_NULL \<or> is_scalar later then clone_into later
      else if is_list earlier \<and> is_list later then union_lists ctx path depth earlier later
      else if is_map earlier \<and> is_map later then merge_maps_recursively ctx path depth earlier later
      else if is_map earlier \<and> is_list later then absorb_list_of_maps ctx path depth Deep earlier later
      else kind_error path (kind earlier) (kind later) Deep)"
| "merge_maps_recursively ctx path depth earlier later =
     (let earlier_map = entries_of earlier; later_map = entries_of later;
          seeds_of = draws ctx earlier later in
      and_then
        (fold_result (\<lambda>e out.
           and_then
             (case lookup_get (seeds_of 1) (entries_of later) (fst e) of
                Some later_value \<Rightarrow>
                  merge_value ctx (path @ [fst e]) (depth + 1) (snd e) later_value
              | None \<Rightarrow> clone_into (snd e))
             (\<lambda>c. Inr (filling_set (seeds_of 2) out (fst e) c)))
           earlier_map (with_room [] 0))
        (\<lambda>out. and_then
          (fold_result (\<lambda>e out.
             if lookup_contains (seeds_of 0) earlier_map (fst e) then Inr out
             else and_then (clone_into (snd e)) (\<lambda>c. Inr (filling_set (seeds_of 2) out (fst e) c)))
             later_map out)
          (\<lambda>out. Inr (VMap (fentries out)))))"
| "absorb_list_of_maps ctx path depth m earlier later =
     and_then (clone_into earlier) (\<lambda>result.
       fold_result (\<lambda>item result.
         if \<not> is_map item then kind_error path (Some GUATIAO_MAP) (kind item) m
         else case m of
           Substitute \<Rightarrow> merge_substitute ctx path (depth + 1) result item
         | _ \<Rightarrow> merge_deep ctx path (depth + 1) result item)
         (items_of later) result)"
| "union_lists ctx path depth earlier later =
     (let later_items = items_of later; hf = hasher ctx earlier later in
      and_then (push_all (items_of earlier) []) (\<lambda>copied.
      and_then (push_unique hf later_items held_new copied) (\<lambda>result.
      and_then
        (if mergelists ctx then
           let mergeable = mergeable_at (draws ctx earlier later) result later_items in
           and_then
             (fold_result (\<lambda>i result.
                if \<not> i < length (items_of later) then Inr result
                else if i < length result then
                  and_then
                    (merge_deep ctx (path @ [show_nat i]) (depth + 1) (result ! i) (items_of later ! i))
                    (\<lambda>c. Inr (result[i := c]))
                else Inl Panicked)
                mergeable result)
             (\<lambda>result. push_all
                (map snd (filter (\<lambda>(i, item). is_map item \<and> i \<notin> set mergeable) (enumerate 0 later_items)))
                result)
         else push_all (filter is_map later_items) result)
        (\<lambda>out. Inr (VList out)))))"
  by pat_completeness auto

termination
  by (relation "measures
     [case_sum (case_sum (case_sum (\<lambda>(c, p, d, e, l). weight l) (\<lambda>(c, p, d, e, l). weight l))
                         (case_sum (\<lambda>(c, p, d, e, l). weight l) (\<lambda>(c, p, d, e, l). weight l)))
               (case_sum (case_sum (\<lambda>(c, p, d, e, l). weight l) (\<lambda>(c, p, d, e, l). weight l))
                         (case_sum (\<lambda>(c, p, d, m, e, l). weight l) (\<lambda>(c, p, d, e, l). weight l))),
      case_sum (case_sum (case_sum (\<lambda>_. 3) (\<lambda>_. 2)) (case_sum (\<lambda>_. 1) (\<lambda>_. 2)))
               (case_sum (case_sum (\<lambda>_. 2) (\<lambda>_. 1)) (case_sum (\<lambda>_. 1) (\<lambda>_. 1)))]")
     (auto intro: items_of_weight dest: items_of_weight lookup_weight enumerate_items_weight)

declare merge_value.simps [simp del] merge_simple.simps [simp del] overwrite_positionally.simps [simp del]
  merge_substitute.simps [simp del] merge_deep.simps [simp del] merge_maps_recursively.simps [simp del]
  absorb_list_of_maps.simps [simp del] union_lists.simps [simp del]

definition merge_with :: "context_of \<Rightarrow> Value \<Rightarrow> Value \<Rightarrow> Value merged" where
  "merge_with ctx earlier later = merge_value ctx [] 0 earlier later"

end
