(* ===== verification/Merge_Laws.thy ===== *)
theory Merge_Laws
  imports Merge "HOL-Library.Sublist"
begin

text \<open>
  What the merge computes. The indexes and hashes its arms search by answer what a scan
  would, so each arm is equal to one that names no seed; on those equations rest the
  invariant of the result, its independence of the seeds, and the rules of the modes.
\<close>

section \<open>Copies and stores\<close>

lemma clone_into_eq:
  "clone_into v = (case refusal v of Some e \<Rightarrow> Inl (Refused (Build e)) | None \<Rightarrow> Inr v)"
  by (auto simp: clone_into_def copy_value_eq split: option.splits)

lemma clone_into_readable [simp]: "readable v \<Longrightarrow> clone_into v = Inr v"
  using refusal_None [of WrongKind v] by (simp add: clone_into_eq)

lemma clone_into_Inr [result_simps]: "clone_into v = Inr w \<longleftrightarrow> readable v \<and> w = v"
  using refusal_None [of WrongKind v] by (auto simp: clone_into_eq split: option.splits)

lemma clone_into_no_panic [simp]: "clone_into v \<noteq> Inl Panicked"
  by (auto simp: clone_into_eq split: option.splits)

lemma lookup_contains_eq: "lookup_contains d es k \<longleftrightarrow> k \<in> fst ` set es"
  by (simp add: lookup_contains_def lookup_get_eq map_get_map_of map_of_eq_None_iff)

lemma fill_fold:
  assumes "\<And>e f. filling_ok f \<Longrightarrow> e \<in> set es \<Longrightarrow>
      (case step f e of Inl x \<Rightarrow> step' (fentries f) e = Inl x
       | Inr f' \<Rightarrow> filling_ok f' \<and> step' (fentries f) e = Inr (fentries f'))"
    and "filling_ok f"
  shows "case fold_result (\<lambda>e f. step f e) es f of
      Inl x \<Rightarrow> fold_result (\<lambda>e m. step' m e) es (fentries f) = Inl x
    | Inr f' \<Rightarrow> filling_ok f' \<and> fold_result (\<lambda>e m. step' m e) es (fentries f) = Inr (fentries f')"
  using assms
proof (induction es arbitrary: f)
  case (Cons e es)
  from Cons.prems(1) [OF Cons.prems(2), of e] show ?case
  proof (cases "step f e")
    case (Inr f')
    with Cons.prems(1) [OF Cons.prems(2), of e] have "filling_ok f'" "step' (fentries f) e = Inr (fentries f')" by auto
    then show ?thesis using Inr Cons.IH [of f'] Cons.prems(1) by (simp split: sum.splits)
  qed simp
qed simp

text \<open>Storing each copied or merged value, as the loops do.\<close>

abbreviation store_step :: "(entry \<Rightarrow> Value merged) \<Rightarrow> entry \<Rightarrow> map_entries \<Rightarrow> map_entries merged" where
  "store_step g e m \<equiv> and_then (g e) (\<lambda>c. Inr (map_set m (fst e) c))"

lemma fill_store:
  assumes "filling_ok f"
  shows "fold_result (\<lambda>e m. if skip e then Inr m else store_step g e m) es (fentries f) =
    and_then (fold_result (\<lambda>e out. if skip e then Inr out
        else and_then (g e) (\<lambda>c. Inr (filling_set d out (fst e) c))) es f) (\<lambda>out. Inr (fentries out)) \<and>
    (\<forall>f'. fold_result (\<lambda>e out. if skip e then Inr out
        else and_then (g e) (\<lambda>c. Inr (filling_set d out (fst e) c))) es f = Inr f' \<longrightarrow> filling_ok f')"
proof -
  have "case fold_result (\<lambda>e f. if skip e then Inr f
        else and_then (g e) (\<lambda>c. Inr (filling_set d f (fst e) c))) es f of
      Inl x \<Rightarrow> fold_result (\<lambda>e m. if skip e then Inr m else store_step g e m) es (fentries f) = Inl x
    | Inr f' \<Rightarrow> filling_ok f' \<and>
        fold_result (\<lambda>e m. if skip e then Inr m else store_step g e m) es (fentries f) = Inr (fentries f')"
  proof (rule fill_fold [OF _ assms])
    fix e f assume "filling_ok f"
    then show "case if skip e then Inr f else and_then (g e) (\<lambda>c. Inr (filling_set d f (fst e) c)) of
        Inl x \<Rightarrow> (if skip e then Inr (fentries f) else store_step g e (fentries f)) = Inl x
      | Inr f' \<Rightarrow> filling_ok f' \<and>
          (if skip e then Inr (fentries f) else store_step g e (fentries f)) = Inr (fentries f')"
      using filling_set_spec [of f d "fst e"] by (cases "g e") auto
  qed
  then show ?thesis by (auto split: sum.splits)
qed

section \<open>The arms without seeds\<close>

lemma filling_ok_new [simp]: "filling_ok (with_room m n)"
  by (simp add: filling_ok_def with_room_def)

lemma fentries_new [simp]: "fentries (with_room m n) = m"
  by (simp add: with_room_def)

lemma merge_maps_eq:
  "merge_maps_recursively ctx path depth earlier later =
     and_then
       (fold_result (\<lambda>e m. store_step (\<lambda>e.
            case map_get (entries_of later) (fst e) of
              Some lv \<Rightarrow> merge_value ctx (path @ [fst e]) (depth + 1) (snd e) lv
            | None \<Rightarrow> clone_into (snd e)) e m) (entries_of earlier) [])
       (\<lambda>m. and_then
          (fold_result (\<lambda>e m. if fst e \<in> fst ` set (entries_of earlier) then Inr m
             else store_step (\<lambda>e. clone_into (snd e)) e m) (entries_of later) m)
          (\<lambda>m. Inr (VMap m)))"
proof -
  let ?g = "\<lambda>e. case map_get (entries_of later) (fst e) of
              Some lv \<Rightarrow> merge_value ctx (path @ [fst e]) (depth + 1) (snd e) lv
            | None \<Rightarrow> clone_into (snd e)"
  let ?d = "draws ctx earlier later 2"
  let ?F = "fold_result (\<lambda>e out. and_then (?g e) (\<lambda>c. Inr (filling_set ?d out (fst e) c)))
      (entries_of earlier) (with_room [] 0)"
  let ?skip = "\<lambda>e. fst e \<in> fst ` set (entries_of earlier)"
  let ?G = "\<lambda>out. fold_result (\<lambda>e out. if ?skip e then Inr out
      else and_then (clone_into (snd e)) (\<lambda>c. Inr (filling_set ?d out (fst e) c))) (entries_of later) out"
  have F: "fold_result (store_step ?g) (entries_of earlier) [] = and_then ?F (\<lambda>out. Inr (fentries out))"
    "?F = Inr f' \<longrightarrow> filling_ok f'" for f'
    using fill_store [of "with_room [] 0" "\<lambda>_. False" ?g "entries_of earlier" ?d] by simp_all
  have G: "filling_ok out \<Longrightarrow> and_then (?G out) (\<lambda>o'. Inr (VMap (fentries o'))) =
      and_then (fold_result (\<lambda>e m. if ?skip e then Inr m else store_step (\<lambda>e. clone_into (snd e)) e m)
        (entries_of later) (fentries out)) (\<lambda>m. Inr (VMap m))" for out
    using fill_store [of out ?skip "\<lambda>e. clone_into (snd e)" "entries_of later" ?d]
    by (simp add: and_then_assoc)
  show ?thesis
  proof (cases ?F)
    case (Inl x)
    then show ?thesis using F(1)
      by (simp add: merge_maps_recursively.simps lookup_get_eq lookup_contains_eq)
  next
    case (Inr out)
    then show ?thesis using F G [of out]
      by (simp add: merge_maps_recursively.simps lookup_get_eq lookup_contains_eq)
  qed
qed

lemma filling_contains_eq:
  assumes "filling_ok f"
  shows "snd (filling_contains d f k) \<longleftrightarrow> k \<in> fst ` set (fentries f)"
    "fentries (fst (filling_contains d f k)) = fentries f" "filling_ok (fst (filling_contains d f k))"
proof -
  show "snd (filling_contains d f k) \<longleftrightarrow> k \<in> fst ` set (fentries f)"
    using filling_contains_spec [OF assms] by (simp add: contains_key_iff)
  show "fentries (fst (filling_contains d f k)) = fentries f"
    by (simp add: filling_contains_def Let_def split: option.splits)
  show "filling_ok (fst (filling_contains d f k))"
    using filling_index_ok [OF assms] by (simp add: filling_contains_def Let_def split: option.splits)
qed

definition simple_step :: "entry \<Rightarrow> map_entries \<Rightarrow> map_entries merged" where
  "simple_step e m =
     (if kind (snd e) = Some GUATIAO_ABSENT \<and> fst e \<in> fst ` set m then Inr m
      else store_step (\<lambda>e. clone_into (snd e)) e m)"

lemma merge_simple_maps:
  "(let step = (\<lambda>e out. let absent = kind (snd e) = Some GUATIAO_ABSENT;
                 r = filling_contains d out (fst e) in
             if absent \<and> snd r then Inr (fst r)
             else and_then (clone_into (snd e)) (\<lambda>c.
                    Inr (filling_set d (if absent then fst r else out) (fst e) c)))
    in and_then (fold_result step es (with_room m 0)) (\<lambda>out. Inr (VMap (fentries out)))) =
   and_then (fold_result simple_step es m) (\<lambda>m. Inr (VMap m))"
proof -
  let ?step = "\<lambda>e out. let absent = kind (snd e) = Some GUATIAO_ABSENT;
                 r = filling_contains d out (fst e) in
             if absent \<and> snd r then Inr (fst r)
             else and_then (clone_into (snd e)) (\<lambda>c.
                    Inr (filling_set d (if absent then fst r else out) (fst e) c))"
  have "case fold_result (\<lambda>e f. ?step e f) es (with_room m 0) of
      Inl x \<Rightarrow> fold_result (\<lambda>e m. simple_step e m) es (fentries (with_room m 0)) = Inl x
    | Inr f' \<Rightarrow> filling_ok f' \<and> fold_result (\<lambda>e m. simple_step e m) es (fentries (with_room m 0)) = Inr (fentries f')"
  proof (rule fill_fold [OF _ filling_ok_new])
    fix e :: entry and f
    assume f: "filling_ok f"
    note c = filling_contains_eq [OF f, of d "fst e"]
    let ?f = "fst (filling_contains d f (fst e))"
    have s: "filling_ok (filling_set d f (fst e) v)" "fentries (filling_set d f (fst e) v) = map_set (fentries f) (fst e) v"
      "filling_ok (filling_set d ?f (fst e) v)" "fentries (filling_set d ?f (fst e) v) = map_set (fentries f) (fst e) v" for v
      using filling_set_spec [OF f, of d "fst e"] filling_set_spec [OF c(3), of d "fst e"] c(2) by simp_all
    show "case ?step e f of Inl x \<Rightarrow> simple_step e (fentries f) = Inl x
      | Inr f' \<Rightarrow> filling_ok f' \<and> simple_step e (fentries f) = Inr (fentries f')"
    proof (cases "kind (snd e) = Some GUATIAO_ABSENT \<and> fst e \<in> fst ` set (fentries f)")
      case True
      then show ?thesis using c by (simp add: simple_step_def)
    next
      case False
      then have "?step e f = and_then (clone_into (snd e)) (\<lambda>x.
          Inr (filling_set d (if kind (snd e) = Some GUATIAO_ABSENT then ?f else f) (fst e) x))"
        using c(1) by (auto simp: Let_def)
      then show ?thesis using False s by (cases "clone_into (snd e)") (auto simp: simple_step_def)
    qed
  qed
  then show ?thesis by (auto simp: Let_def split: sum.splits)
qed

section \<open>An item is held exactly when it is in the list\<close>

definition held_ok :: "(hash_write list \<Rightarrow> u64) \<Rightarrow> held \<Rightarrow> Value list \<Rightarrow> bool" where
  "held_ok hf h made \<longleftrightarrow> indexed h \<le> length made \<and>
     (\<forall>w i. hfirst h w = Some i \<longrightarrow> i < indexed h) \<and>
     (\<forall>v\<in>set (take (indexed h) made). hfirst h (hf (hash_input v)) \<noteq> None)"

lemma held_ok_new [simp]: "held_ok hf held_new made"
  by (simp add: held_ok_def held_new_def)

lemma held_ok_grow: "held_ok hf h made \<Longrightarrow> held_ok hf h (made @ [c])"
  by (auto simp: held_ok_def)

lemma index_held_ok:
  assumes "\<And>w i. m w = Some i \<Longrightarrow> i < n" "\<And>v. v \<in> set pre \<Longrightarrow> m (hf (hash_input v)) \<noteq> None"
    "length pre = n"
  shows "(\<forall>w i. index_held hf n vs m w = Some i \<longrightarrow> i < n + length vs) \<and>
    (\<forall>v\<in>set (pre @ vs). index_held hf n vs m (hf (hash_input v)) \<noteq> None)"
  using assms
proof (induction vs arbitrary: n m pre)
  case (Cons v vs)
  let ?h = "hf (hash_input v)"
  let ?m = "case m ?h of None \<Rightarrow> m(?h \<mapsto> n) | Some _ \<Rightarrow> m"
  have "(\<forall>w i. index_held hf (Suc n) vs ?m w = Some i \<longrightarrow> i < Suc n + length vs) \<and>
      (\<forall>u\<in>set ((pre @ [v]) @ vs). index_held hf (Suc n) vs ?m (hf (hash_input u)) \<noteq> None)"
    using Cons.prems
    by (intro Cons.IH) (auto split: option.splits if_splits intro: less_SucI)
  then show ?case by (simp add: Let_def)
qed auto

lemma held_contains_eq:
  assumes ok: "held_ok hf h made"
  shows "snd (held_contains hf h made item) \<longleftrightarrow> item \<in> set made"
    "held_ok hf (fst (held_contains hf h made item)) made"
proof -
  have scan: "list_ex (\<lambda>x. equal (Values x item)) made \<longleftrightarrow> item \<in> set made"
    by (auto simp: list_ex_iff equal_iff)
  let ?m = "index_held hf (indexed h) (drop (indexed h) made) (hfirst h)"
  have m: "\<And>w i. ?m w = Some i \<Longrightarrow> i < length made" "\<And>v. v \<in> set made \<Longrightarrow> ?m (hf (hash_input v)) \<noteq> None"
    using index_held_ok [of "hfirst h" "indexed h" "take (indexed h) made" hf "drop (indexed h) made"] ok
    unfolding append_take_drop_id by (auto simp: held_ok_def)
  show "snd (held_contains hf h made item) \<longleftrightarrow> item \<in> set made"
    using m(1) m(2) [of item] scan
    by (auto simp: held_contains_def Let_def equal_iff split: option.splits)
  show "held_ok hf (fst (held_contains hf h made item)) made"
    using ok m by (auto simp: held_contains_def Let_def held_ok_def)
qed

text \<open>The items a union appends first: copied, new to the list, and no map.\<close>

fun append_unique :: "Value list \<Rightarrow> Value list \<Rightarrow> Value list merged" where
  "append_unique [] made = Inr made"
| "append_unique (item # rest) made =
     (if is_map item \<or> item \<in> set made then append_unique rest made
      else and_then (clone_into item) (\<lambda>c. append_unique rest (made @ [c])))"

lemma push_unique_eq: "held_ok hf h made \<Longrightarrow> push_unique hf items h made = append_unique items made"
proof (induction hf items h made rule: push_unique.induct)
  case (2 hf item rest h made)
  note c = held_contains_eq [OF "2.prems", of item]
  show ?case
    using 2 c held_ok_grow [OF c(2)] by (cases "clone_into item") (auto simp: Let_def)
qed simp

lemma merge_simple_eq:
  "merge_simple ctx path depth earlier later =
     (if depth \<ge> MAX_DEPTH then too_deep
      else if kind later = Some GUATIAO_ABSENT then clone_into earlier
      else if kind earlier = Some GUATIAO_ABSENT then clone_into later
      else if is_scalar later then clone_into later
      else if is_list later then
        if \<not> is_list earlier then clone_into later
        else overwrite_positionally ctx path depth earlier later
      else if \<not> is_map earlier then clone_into later
      else
        and_then (clone_into earlier) (\<lambda>copied.
        and_then (ok_or (Refused (Build WrongKind)) (as_map copied)) (\<lambda>m.
        and_then (fold_result simple_step (entries_of later) m) (\<lambda>m. Inr (VMap m)))))"
  using merge_simple_maps [of "draws ctx earlier later 0" "entries_of later"]
  by (simp add: merge_simple.simps [of ctx path depth earlier later] Let_def)

lemma shares_a_key_eq:
  "shares_a_key d a b \<longleftrightarrow> (\<exists>e\<in>set (entries_of b). fst e \<in> fst ` set (entries_of a))"
  by (cases "as_map a") (auto simp: shares_a_key_def list_ex_iff lookup_contains_eq entries_of_def)

lemma mergeable_at_eq: "mergeable_at sd r l = mergeable_at sd' r l"
  by (simp add: mergeable_at_def shares_a_key_eq)

definition same_context :: "context_of \<Rightarrow> context_of \<Rightarrow> bool" where
  "same_context c d \<longleftrightarrow> mode c = mode d \<and> mergelists c = mergelists d \<and> overrides c = overrides d"

lemma same_context_mode_at: "same_context c d \<Longrightarrow> mode_at c p = mode_at d p"
  by (cases "Option.bind (overrides c) (\<lambda>o'. o' p)") (auto simp: same_context_def mode_at_def)

lemma union_lists_eq:
  "union_lists ctx path depth earlier later =
     and_then (push_all (items_of earlier) []) (\<lambda>copied.
     and_then (append_unique (items_of later) copied) (\<lambda>result.
     and_then
       (if mergelists ctx then
          and_then
            (fold_result (\<lambda>i result.
               if \<not> i < length (items_of later) then Inr result
               else if i < length result then
                 and_then
                   (merge_deep ctx (path @ [show_nat i]) (depth + 1) (result ! i) (items_of later ! i))
                   (\<lambda>c. Inr (result[i := c]))
               else Inl Panicked)
               (mergeable_at (\<lambda>_. (0, 0)) result (items_of later)) result)
            (\<lambda>result'. push_all
               (map snd (filter (\<lambda>(i, item). is_map item \<and>
                  i \<notin> set (mergeable_at (\<lambda>_. (0, 0)) result (items_of later)))
                  (enumerate 0 (items_of later)))) result')
        else push_all (filter is_map (items_of later)) result)
       (\<lambda>out. Inr (VList out))))"
  unfolding union_lists.simps [of ctx path depth earlier later] Let_def
  by (simp only: push_unique_eq [OF held_ok_new] mergeable_at_eq [of "draws ctx earlier later" _ _ "\<lambda>_. (0, 0)"])

lemma merge_seeds:
  "\<And>d. same_context c d \<Longrightarrow> merge_value c p n e l = merge_value d p n e l"
  "\<And>d. same_context c d \<Longrightarrow> merge_simple c p n e l = merge_simple d p n e l"
  "\<And>d. same_context c d \<Longrightarrow> overwrite_positionally c p n e l = overwrite_positionally d p n e l"
  "\<And>d. same_context c d \<Longrightarrow> merge_substitute c p n e l = merge_substitute d p n e l"
  "\<And>d. same_context c d \<Longrightarrow> merge_deep c p n e l = merge_deep d p n e l"
  "\<And>d. same_context c d \<Longrightarrow> merge_maps_recursively c p n e l = merge_maps_recursively d p n e l"
  "\<And>d. same_context c d \<Longrightarrow> absorb_list_of_maps c p n m e l = absorb_list_of_maps d p n m e l"
  "\<And>d. same_context c d \<Longrightarrow> union_lists c p n e l = union_lists d p n e l"
proof (induction c p n e l and c p n e l and c p n e l and c p n e l and c p n e l and c p n e l
    and c p n m e l and c p n e l
    rule: merge_value_merge_simple_overwrite_positionally_merge_substitute_merge_deep_merge_maps_recursively_absorb_list_of_maps_union_lists.induct)
  case (1 c p n e l)
  then show ?case
    by (auto simp: merge_value.simps same_context_mode_at split: MergeMode.splits)
next
  case (2 c p n e l)
  then show ?case by (simp add: merge_simple_eq)
next
  case (3 c p n e l)
  have "merge_simple c (p @ [show_nat i]) (n + 1) (items_of e ! i) x =
      merge_simple d (p @ [show_nat i]) (n + 1) (items_of e ! i) x"
    if "(i, x) \<in> set (enumerate 0 (items_of l))" "i < length (items_of e)" for i x
    using "3.IH" [OF refl refl that(1) refl that(2) "3.prems"] .
  then show ?case
    unfolding overwrite_positionally.simps Let_def
    by (intro and_then_cong fold_result_cong refl) (auto split: prod.splits)
next
  case (4 c p n e l)
  then show ?case by (simp add: merge_substitute.simps)
next
  case (5 c p n e l)
  then show ?case by (simp add: merge_deep.simps)
next
  case (6 c p n e l)
  have "merge_value c (p @ [fst x]) (n + 1) (snd x) lv = merge_value d (p @ [fst x]) (n + 1) (snd x) lv"
    if "x \<in> set (entries_of e)" "map_get (entries_of l) (fst x) = Some lv" for x lv
    using "6.IH" [OF refl refl refl that(1) _ "6.prems"] that(2) by (simp add: lookup_get_eq)
  then show ?case
    unfolding merge_maps_eq
    by (intro and_then_cong fold_result_cong refl) (auto split: option.splits)
next
  case (7 c p n m e l)
  show ?case
    unfolding absorb_list_of_maps.simps
    using "7.IH" [OF _ _ _ _ "7.prems"]
    by (intro and_then_cong fold_result_cong refl) (auto split: MergeMode.splits)
next
  case (8 c p n e l)
  then have m: "mergelists c = mergelists d" by (simp add: same_context_def)
  have ih: "merge_deep c (p @ [show_nat i]) (n + 1) (u ! i) (items_of l ! i) =
      merge_deep d (p @ [show_nat i]) (n + 1) (u ! i) (items_of l ! i)"
    if "push_all (items_of e) [] = Inr a" "append_unique (items_of l) a = Inr r" "mergelists c"
      "i \<in> set (mergeable_at (\<lambda>_. (0, 0)) r (items_of l))" "i < length (items_of l)" "i < length u" for a r i u
  proof -
    have "push_unique (hasher c e l) (items_of l) held_new a = Inr r"
      using that(2) by (simp add: push_unique_eq)
    moreover have "i \<in> set (mergeable_at (draws c e l) r (items_of l))"
      using that(4) by (subst mergeable_at_eq [of _ _ _ "\<lambda>_. (0, 0)"])
    ultimately show ?thesis
      using "8.IH" [OF refl refl that(1) _ that(3) refl _ _ that(6) "8.prems"] that(5) by simp
  qed
  show ?case
    unfolding union_lists_eq m
    by (intro and_then_cong refl if_cong fold_result_cong) (auto simp: m intro: ih [simplified])
qed

section \<open>The result is a tree the doors accept\<close>

text \<open>What holds of every tree a merge is given and answers: every node readable, no key
  twice in a map.\<close>

function tree_ok :: "Value \<Rightarrow> bool" where
  "tree_ok (VList xs) \<longleftrightarrow> list_all tree_ok xs"
| "tree_ok (VMap es) \<longleftrightarrow> keys_are_text es \<and> distinct (map fst es) \<and> list_all (\<lambda>e. tree_ok (snd e)) es"
| "tree_ok (VUnknown k) \<longleftrightarrow> False"
| "tree_ok VAbsent \<longleftrightarrow> True"
| "tree_ok VNull \<longleftrightarrow> True"
| "tree_ok (VBool b) \<longleftrightarrow> True"
| "tree_ok (VNumber t) \<longleftrightarrow> is_number t"
| "tree_ok (VString t) \<longleftrightarrow> is_text t"
| "tree_ok (VBytes bs) \<longleftrightarrow> True"
  by pat_completeness auto
termination
  by (relation "measure size") (auto dest: size_list_member size_entry_member)

lemma tree_ok_readable: "tree_ok v \<Longrightarrow> readable v"
proof (induction v rule: value_induct)
  case (Map es)
  then show ?case by (auto simp: list_all_iff)
qed (auto simp: list_all_iff)

lemma tree_ok_clone [simp]: "tree_ok v \<Longrightarrow> clone_into v = Inr v"
  by (simp add: tree_ok_readable)

lemma kind_simps [simp]:
  "kind VAbsent = Some GUATIAO_ABSENT" "kind VNull = Some GUATIAO_NULL" "kind (VBool b) = Some GUATIAO_BOOL"
  "kind (VNumber t) = Some GUATIAO_NUMBER" "kind (VString t) = Some GUATIAO_STRING"
  "kind (VBytes bs) = Some GUATIAO_BYTES" "kind (VList xs) = Some GUATIAO_LIST"
  "kind (VMap es) = Some GUATIAO_MAP" "kind (VUnknown k) = None"
  by (simp_all add: kind_def)

lemma is_list_iff: "is_list v \<longleftrightarrow> (\<exists>xs. v = VList xs)"
  by (cases v) (simp_all add: is_list_def)

lemma is_map_iff: "is_map v \<longleftrightarrow> (\<exists>es. v = VMap es \<and> keys_are_text es)"
  by (cases v) (simp_all add: is_map_def)

lemma content_simps [simp]: "items_of (VList xs) = xs" "keys_are_text es \<Longrightarrow> entries_of (VMap es) = es"
  by (simp_all add: items_of_def entries_of_def)

lemma tree_ok_items: "tree_ok v \<Longrightarrow> x \<in> set (items_of v) \<Longrightarrow> tree_ok x"
  by (cases v) (auto simp: items_of_def list_all_iff)

lemma tree_ok_entries: "tree_ok v \<Longrightarrow> e \<in> set (entries_of v) \<Longrightarrow> tree_ok (snd e) \<and> is_text (fst e)"
  by (cases v) (auto simp: entries_of_def list_all_iff keys_are_text_def)

lemma tree_ok_get: "tree_ok v \<Longrightarrow> map_get (entries_of v) k = Some x \<Longrightarrow> tree_ok x"
  using tree_ok_entries [of v "(k, x)"] by (auto simp: map_get_map_of dest: map_of_SomeD)

text \<open>The entries a loop has stored so far.\<close>

definition entries_ok :: "map_entries \<Rightarrow> bool" where
  "entries_ok m \<longleftrightarrow> tree_ok (VMap m)"

lemma set_map_set: "set (map_set m k c) \<subseteq> insert (k, c) (set m)"
  by (induction m) (auto simp: map_set_Cons)

lemma entries_ok_set: "entries_ok m \<Longrightarrow> is_text k \<Longrightarrow> tree_ok c \<Longrightarrow> entries_ok (map_set m k c)"
  using set_map_set [of m k c] distinct_map_set [of m k c]
  by (fastforce simp: entries_ok_def keys_are_text_def list_all_iff)

lemma entries_ok_Nil [simp]: "entries_ok []"
  by (simp add: entries_ok_def keys_are_text_def)

text \<open>An answer: a good tree or a reported error, never a panic.\<close>

fun fine :: "('a \<Rightarrow> bool) \<Rightarrow> 'a merged \<Rightarrow> bool" where
  "fine P (Inr a) \<longleftrightarrow> P a"
| "fine P (Inl (Refused e)) \<longleftrightarrow> True"
| "fine P (Inl Panicked) \<longleftrightarrow> False"

lemma fine_and_then: "fine P x \<Longrightarrow> (\<And>a. P a \<Longrightarrow> fine Q (f a)) \<Longrightarrow> fine Q (and_then x f)"
  by (cases x rule: sum.exhaust; cases "projl x") auto

lemma fine_fold: "(\<And>x s. x \<in> set xs \<Longrightarrow> P s \<Longrightarrow> fine P (f x s)) \<Longrightarrow> P s \<Longrightarrow> fine P (fold_result f xs s)"
proof (induction xs arbitrary: s)
  case (Cons x xs)
  then show ?case by (auto intro: fine_and_then)
qed simp

lemma fine_push_all: "(\<And>x. x \<in> set xs \<Longrightarrow> tree_ok x) \<Longrightarrow> push_all xs made = Inr (made @ xs)"
  by (induction xs arbitrary: made) auto

lemma fine_append_unique:
  "(\<And>x. x \<in> set xs \<Longrightarrow> tree_ok x) \<Longrightarrow> list_all tree_ok made \<Longrightarrow>
   fine (list_all tree_ok) (append_unique xs made)"
  by (induction xs arbitrary: made) auto

lemma fine_kind_error [simp]: "fine P (kind_error p a b m)" "fine P too_deep"
  by (simp_all add: kind_error_def too_deep_def)

lemma fine_clone [simp]: "tree_ok v \<Longrightarrow> fine tree_ok (clone_into v)"
  by simp

lemma fine_store:
  "entries_ok m \<Longrightarrow> is_text k \<Longrightarrow> fine tree_ok r \<Longrightarrow>
   fine entries_ok (and_then r (\<lambda>c. Inr (map_set m k c)))"
  by (erule fine_and_then) (auto intro: entries_ok_set)

lemma entries_of_ok: "tree_ok v \<Longrightarrow> is_map v \<Longrightarrow> entries_ok (entries_of v) \<and> v = VMap (entries_of v)"
  by (auto simp: is_map_iff entries_ok_def)

lemma mergeable_at_less: "i \<in> set (mergeable_at sd r l) \<Longrightarrow> i < length r \<and> i < length l"
  by (simp add: mergeable_at_def)

text \<open>A positional pass keeps the length of the list it writes into.\<close>

definition items_ok :: "nat \<Rightarrow> Value list \<Rightarrow> bool" where
  "items_ok k xs \<longleftrightarrow> length xs = k \<and> list_all tree_ok xs"

lemma merge_fine:
  "tree_ok e \<Longrightarrow> tree_ok l \<Longrightarrow> fine tree_ok (merge_value c p n e l)"
  "tree_ok e \<Longrightarrow> tree_ok l \<Longrightarrow> fine tree_ok (merge_simple c p n e l)"
  "tree_ok e \<Longrightarrow> tree_ok l \<Longrightarrow> fine tree_ok (overwrite_positionally c p n e l)"
  "tree_ok e \<Longrightarrow> tree_ok l \<Longrightarrow> fine tree_ok (merge_substitute c p n e l)"
  "tree_ok e \<Longrightarrow> tree_ok l \<Longrightarrow> fine tree_ok (merge_deep c p n e l)"
  "tree_ok e \<Longrightarrow> tree_ok l \<Longrightarrow> fine tree_ok (merge_maps_recursively c p n e l)"
  "tree_ok e \<Longrightarrow> tree_ok l \<Longrightarrow> fine tree_ok (absorb_list_of_maps c p n m e l)"
  "tree_ok e \<Longrightarrow> tree_ok l \<Longrightarrow> fine tree_ok (union_lists c p n e l)"
proof (induction c p n e l and c p n e l and c p n e l and c p n e l and c p n e l and c p n e l
    and c p n m e l and c p n e l
    rule: merge_value_merge_simple_overwrite_positionally_merge_substitute_merge_deep_merge_maps_recursively_absorb_list_of_maps_union_lists.induct)
  case (1 c p n e l)
  then show ?case by (auto simp: merge_value.simps split: MergeMode.splits)
next
  case (2 c p n e l)
  have step: "fine entries_ok (simple_step x m)" if "x \<in> set (entries_of l)" "entries_ok m" for x m
    using that tree_ok_entries [OF "2.prems"(2) that(1)]
    by (auto simp: simple_step_def intro: entries_ok_set)
  have "fine tree_ok (and_then (fold_result simple_step (entries_of l) (entries_of e)) (\<lambda>m. Inr (VMap m)))"
    if "is_map e"
    by (rule fine_and_then [where P = entries_ok], rule fine_fold [OF step], assumption+)
       (rule entries_of_ok [OF "2.prems"(1) that, THEN conjunct1], simp add: entries_ok_def)
  then show ?case
    using 2 by (auto simp: merge_simple_eq as_map_def is_map_iff)
next
  case (3 c p n e l)
  have "fine (list_all tree_ok)
      (case x of (i, item) \<Rightarrow> and_then
           (if i < length (items_of e)
            then merge_simple c (p @ [show_nat i]) (n + 1) (items_of e ! i) item
            else clone_into item)
           (\<lambda>c. Inr (out @ [c])))"
    if x: "x \<in> set (enumerate 0 (items_of l))" and out: "list_all tree_ok out" for x out
  proof -
    obtain i item where xi: "x = (i, item)" by (cases x)
    have ok: "tree_ok item" using x xi "3.prems"(2) by (auto simp: enumerate_eq_zip dest: set_zip_rightD tree_ok_items)
    have "fine tree_ok (if i < length (items_of e)
        then merge_simple c (p @ [show_nat i]) (n + 1) (items_of e ! i) item else clone_into item)"
      using "3.IH" [OF refl refl x xi [symmetric]] ok tree_ok_items [OF "3.prems"(1)] by auto
    then show ?thesis using out by (simp only: xi prod.case) (erule fine_and_then, simp)
  qed
  moreover have "push_all (drop k (items_of e)) out = Inr (out @ drop k (items_of e))" for k out
    using tree_ok_items [OF "3.prems"(1)] by (intro fine_push_all) (auto dest: in_set_dropD)
  moreover have "list_all tree_ok (drop k (items_of e))" for k
    using tree_ok_items [OF "3.prems"(1)] by (auto simp: list_all_iff dest: in_set_dropD)
  ultimately show ?case
    unfolding overwrite_positionally.simps Let_def
    by (intro fine_and_then [where P = "list_all tree_ok"] fine_fold) auto
next
  case (4 c p n e l)
  then show ?case by (auto simp: merge_substitute.simps)
next
  case (5 c p n e l)
  then show ?case by (auto simp: merge_deep.simps)
next
  case (6 c p n e l)
  have a: "fine entries_ok (store_step (\<lambda>e. case map_get (entries_of l) (fst e) of
        Some lv \<Rightarrow> merge_value c (p @ [fst e]) (n + 1) (snd e) lv | None \<Rightarrow> clone_into (snd e)) x m)"
    if x: "x \<in> set (entries_of e)" and m: "entries_ok m" for x m
  proof -
    have "fine tree_ok (case map_get (entries_of l) (fst x) of
        Some lv \<Rightarrow> merge_value c (p @ [fst x]) (n + 1) (snd x) lv | None \<Rightarrow> clone_into (snd x))"
      using "6.IH" [OF refl refl refl x] tree_ok_entries [OF "6.prems"(1) x] tree_ok_get [OF "6.prems"(2)]
      by (auto simp: lookup_get_eq split: option.splits)
    then show ?thesis using m tree_ok_entries [OF "6.prems"(1) x] by (intro fine_store) auto
  qed
  have b: "fine entries_ok (if fst x \<in> fst ` set (entries_of e) then Inr m
      else store_step (\<lambda>e. clone_into (snd e)) x m)" if "x \<in> set (entries_of l)" "entries_ok m" for x m
    using that tree_ok_entries [OF "6.prems"(2) that(1)] by (auto intro: entries_ok_set)
  show ?case
    unfolding merge_maps_eq
    by (rule fine_and_then [where P = entries_ok], rule fine_fold [OF a], assumption+, simp,
        rule fine_and_then [where P = entries_ok], rule fine_fold [OF b], assumption+,
        simp add: entries_ok_def)
next
  case (7 c p n m e l)
  have step: "fine tree_ok (if \<not> is_map x then kind_error p (Some GUATIAO_MAP) (kind x) m
      else case m of Substitute \<Rightarrow> merge_substitute c p (n + 1) r x | _ \<Rightarrow> merge_deep c p (n + 1) r x)"
    if "x \<in> set (items_of l)" "tree_ok r" for x r
    using "7.IH" [OF tree_ok_clone [OF "7.prems"(1)] that(1)] that(2) tree_ok_items [OF "7.prems"(2) that(1)]
    by (auto split: MergeMode.splits)
  show ?case
    unfolding absorb_list_of_maps.simps tree_ok_clone [OF "7.prems"(1)] and_then.simps
    by (rule fine_fold [OF step]) (use "7.prems" in auto)
next
  case (8 c p n e l)
  have le: "list_all tree_ok (items_of e)" and ll: "list_all tree_ok (items_of l)"
    using tree_ok_items 8 by (auto simp: list_all_iff)
  have pe: "push_all (items_of e) [] = Inr (items_of e)"
    using le fine_push_all [of "items_of e" "[]"] by (simp add: list_all_iff)
  have u: "fine (list_all tree_ok) (append_unique (items_of l) (items_of e))"
    using le ll by (intro fine_append_unique) (auto simp: list_all_iff)
  have push: "fine (list_all tree_ok) (push_all xs r)" if "set xs \<subseteq> set (items_of l)" "list_all tree_ok r" for xs r
  proof -
    have "push_all xs r = Inr (r @ xs)" using that ll by (intro fine_push_all) (auto simp: list_all_iff)
    then show ?thesis using that ll by (auto simp: list_all_iff)
  qed
  have pos: "fine (items_ok (length r)) (fold_result (\<lambda>i result.
        if \<not> i < length (items_of l) then Inr result
        else if i < length result then
          and_then (merge_deep c (p @ [show_nat i]) (n + 1) (result ! i) (items_of l ! i))
            (\<lambda>c. Inr (result[i := c]))
        else Inl Panicked) (mergeable_at (\<lambda>_. (0, 0)) r (items_of l)) r)"
    if mg: "mergelists c" and r: "append_unique (items_of l) (items_of e) = Inr r" "list_all tree_ok r" for r
  proof (rule fine_fold)
    fix i out
    assume i: "i \<in> set (mergeable_at (\<lambda>_. (0, 0)) r (items_of l))" and out: "items_ok (length r) out"
    have less: "i < length out" "i < length (items_of l)"
      using mergeable_at_less [OF i] out by (auto simp: items_ok_def)
    have q: "push_unique (hasher c e l) (items_of l) held_new (items_of e) = Inr r"
      using r(1) by (simp add: push_unique_eq)
    have mi: "i \<in> set (mergeable_at (draws c e l) r (items_of l))"
      using i by (subst mergeable_at_eq [of _ _ _ "\<lambda>_. (0, 0)"])
    have "fine tree_ok (merge_deep c (p @ [show_nat i]) (n + 1) (out ! i) (items_of l ! i))"
      using "8.IH" [OF refl refl pe q mg refl mi _ less(1)] less out ll
      by (simp add: items_ok_def list_all_length)
    then have "fine (items_ok (length r))
        (and_then (merge_deep c (p @ [show_nat i]) (n + 1) (out ! i) (items_of l ! i)) (\<lambda>c. Inr (out[i := c])))"
      using out less by (elim fine_and_then) (auto simp: items_ok_def list_all_length nth_list_update)
    then show "fine (items_ok (length r)) (if \<not> i < length (items_of l) then Inr out
        else if i < length out then
          and_then (merge_deep c (p @ [show_nat i]) (n + 1) (out ! i) (items_of l ! i))
            (\<lambda>c. Inr (out[i := c]))
        else Inl Panicked)"
      using less by simp
  qed (use that in \<open>simp add: items_ok_def\<close>)
  show ?case
  proof (cases "append_unique (items_of l) (items_of e)")
    case (Inl x)
    then show ?thesis using u by (cases x) (simp_all add: union_lists_eq pe)
  next
    case (Inr r)
    then have r: "list_all tree_ok r" using u by simp
    let ?mg = "mergeable_at (\<lambda>_. (0, 0)) r (items_of l)"
    have sub: "set (map snd (filter (\<lambda>(i, item). is_map item \<and> i \<notin> set ?mg) (enumerate 0 (items_of l))))
        \<subseteq> set (items_of l)"
      by (auto simp: enumerate_eq_zip dest: set_zip_rightD)
    have "fine tree_ok (and_then x (\<lambda>out. Inr (VList out)))" if "fine (list_all tree_ok) x" for x
      using that by (rule fine_and_then) simp
    moreover have "fine (list_all tree_ok) (if mergelists c then
        and_then (fold_result (\<lambda>i result.
            if \<not> i < length (items_of l) then Inr result
            else if i < length result then
              and_then (merge_deep c (p @ [show_nat i]) (n + 1) (result ! i) (items_of l ! i))
                (\<lambda>c. Inr (result[i := c]))
            else Inl Panicked) ?mg r)
          (push_all (map snd (filter (\<lambda>(i, item). is_map item \<and> i \<notin> set ?mg) (enumerate 0 (items_of l)))))
        else push_all (filter is_map (items_of l)) r)"
      using push [OF _ r, of "filter is_map (items_of l)"]
      by (auto intro!: fine_and_then [OF pos [OF _ Inr r]] push [OF sub] simp: items_ok_def simp del: set_map)
    ultimately show ?thesis by (simp add: union_lists_eq pe Inr del: push_all.simps)
  qed
qed

section \<open>The rule of the recursive modes for maps\<close>

lemma map_set_new: "k \<notin> fst ` set m \<Longrightarrow> map_set m k c = m @ [(k, c)]"
  by (induction m) (auto simp: map_set_Cons)

lemma store_fold:
  "fold_result (store_step g) es m = Inr m' \<Longrightarrow> distinct (map fst es) \<Longrightarrow>
   fst ` set es \<inter> fst ` set m = {} \<Longrightarrow>
   \<exists>cs. list_all2 (\<lambda>e c. g e = Inr c) es cs \<and> m' = m @ zip (map fst es) cs"
proof (induction es arbitrary: m)
  case (Cons e es)
  then obtain c where c: "g e = Inr c" "fold_result (store_step g) es (m @ [(fst e, c)]) = Inr m'"
    by (auto simp: map_set_new)
  obtain cs where "list_all2 (\<lambda>e c. g e = Inr c) es cs" "m' = (m @ [(fst e, c)]) @ zip (map fst es) cs"
    using Cons.IH [OF c(2)] Cons.prems(2,3) by auto
  then show ?case using c(1) by (intro exI [of _ "c # cs"]) simp
qed simp

lemma store_fold_all:
  assumes "\<And>e. e \<in> set es \<Longrightarrow> g e = Inr (h e)" "distinct (map fst es)" "fst ` set es \<inter> fst ` set m = {}"
  shows "fold_result (store_step g) es m = Inr (m @ map (\<lambda>e. (fst e, h e)) es)"
  using assms by (induction es arbitrary: m) (auto simp: map_set_new)

lemma fold_skip:
  "fold_result (\<lambda>e m. if skip e then Inr m else f e m) es m = fold_result f (filter (\<lambda>e. \<not> skip e) es) m"
proof (induction es arbitrary: m)
  case (Cons e es)
  then have "fold_result (\<lambda>e m. if skip e then Inr m else f e m) es = fold_result f (filter (\<lambda>e. \<not> skip e) es)"
    by blast
  then show ?case by simp
qed simp

lemma map_of_filter_notin: "k \<notin> S \<Longrightarrow> map_of (filter (\<lambda>e. fst e \<notin> S) es) k = map_of es k"
  by (induction es) auto

definition map_rule ::
  "(str \<Rightarrow> Value \<Rightarrow> Value \<Rightarrow> Value merged) \<Rightarrow> map_entries \<Rightarrow> map_entries \<Rightarrow> map_entries \<Rightarrow> bool" where
  "map_rule both a b m \<longleftrightarrow>
     map fst m = map fst a @ filter (\<lambda>k. k \<notin> fst ` set a) (map fst b) \<and>
     (\<forall>k. case (map_of a k, map_of b k) of
        (Some x, Some y) \<Rightarrow> (\<exists>z. both k x y = Inr z \<and> map_of m k = Some z)
      | (Some x, None) \<Rightarrow> map_of m k = Some x
      | (None, y) \<Rightarrow> map_of m k = y)"

lemma maps_recursively_rule:
  assumes "tree_ok (VMap a)" "tree_ok (VMap b)"
    and "merge_maps_recursively ctx path depth (VMap a) (VMap b) = Inr v"
  shows "\<exists>m. v = VMap m \<and> map_rule (\<lambda>k x y. merge_value ctx (path @ [k]) (depth + 1) x y) a b m"
proof -
  let ?g = "\<lambda>e. case map_get b (fst e) of
      Some lv \<Rightarrow> merge_value ctx (path @ [fst e]) (depth + 1) (snd e) lv | None \<Rightarrow> clone_into (snd e)"
  let ?b = "filter (\<lambda>e. fst e \<notin> fst ` set a) b"
  have ea: "entries_of (VMap a) = a" "entries_of (VMap b) = b" and d: "distinct (map fst a)" "distinct (map fst b)"
    using assms(1,2) by simp_all
  obtain m1 where m1: "fold_result (store_step ?g) a [] = Inr m1"
    and v: "and_then (fold_result (store_step (\<lambda>e. clone_into (snd e))) ?b m1) (\<lambda>m. Inr (VMap m)) = Inr v"
    using assms(3) unfolding merge_maps_eq ea fold_skip by auto
  from store_fold [OF m1 d(1)] obtain cs where cs: "list_all2 (\<lambda>e c. ?g e = Inr c) a cs"
    and m1': "m1 = zip (map fst a) cs" by auto
  have len: "length cs = length a" using cs by (auto dest: list_all2_lengthD)
  have k1: "map fst m1 = map fst a" using len m1' by simp
  have "fold_result (store_step (\<lambda>e. clone_into (snd e))) ?b m1 = Inr (m1 @ map (\<lambda>e. (fst e, snd e)) ?b)"
  proof (rule store_fold_all)
    show "clone_into (snd e) = Inr (snd e)" if "e \<in> set ?b" for e
      using that tree_ok_entries [OF assms(2), of e] ea by simp
    show "distinct (map fst ?b)" using d(2) by (rule distinct_map_filter)
    show "fst ` set ?b \<inter> fst ` set m1 = {}"
      using arg_cong [OF k1, of set] by auto
  qed
  then have v': "v = VMap (m1 @ ?b)" using v by simp
  have keys: "map fst (m1 @ ?b) = map fst a @ filter (\<lambda>k. k \<notin> fst ` set a) (map fst b)"
    using k1 by (simp add: filter_map comp_def)
  have "case (map_of a k, map_of b k) of
        (Some x, Some y) \<Rightarrow> (\<exists>z. merge_value ctx (path @ [k]) (depth + 1) x y = Inr z \<and> map_of (m1 @ ?b) k = Some z)
      | (Some x, None) \<Rightarrow> map_of (m1 @ ?b) k = Some x
      | (None, y) \<Rightarrow> map_of (m1 @ ?b) k = y" for k
  proof (cases "map_of a k")
    case None
    then have "k \<notin> fst ` set a" by (simp add: map_of_eq_None_iff)
    moreover have "map_of m1 k = None"
      using arg_cong [OF k1, of set] \<open>k \<notin> fst ` set a\<close> by (simp add: map_of_eq_None_iff)
    ultimately show ?thesis using None by (simp add: map_of_filter_notin map_add_def)
  next
    case (Some x)
    then obtain i where i: "i < length a" "a ! i = (k, x)" by (metis in_set_conv_nth map_of_SomeD)
    have gi: "?g (a ! i) = Inr (cs ! i)" using cs i(1) by (rule list_all2_nthD)
    have "m1 ! i = (k, cs ! i)" "i < length m1" using i len m1' by simp_all
    then have "(k, cs ! i) \<in> set m1" by (metis nth_mem)
    then have "map_of m1 k = Some (cs ! i)" using k1 d(1) by (intro map_of_is_SomeI) simp_all
    then show ?thesis
      using Some gi i by (auto simp: map_get_map_of result_simps split: option.splits)
  qed
  then show ?thesis using v' keys unfolding map_rule_def by blast
qed

section \<open>Merging a value with itself\<close>

function height :: "Value \<Rightarrow> nat" where
  "height (VList xs) = Suc (fold max (map height xs) 0)"
| "height (VMap es) = Suc (fold max (map (\<lambda>e. height (snd e)) es) 0)"
| "height VAbsent = 0" | "height VNull = 0" | "height (VBool b) = 0" | "height (VNumber t) = 0"
| "height (VString t) = 0" | "height (VBytes bs) = 0" | "height (VUnknown k) = 0"
  by pat_completeness auto
termination
  by (relation "measure size") (auto dest: size_list_member size_entry_member)

lemma fold_max_ge: "x \<in> set xs \<Longrightarrow> x \<le> fold max xs (k::nat)"
  and fold_max_base: "k \<le> fold max xs k"
  by (induction xs arbitrary: k) (auto intro: order_trans [OF max.cobounded1] order_trans [OF max.cobounded2])

lemma height_child:
  "x \<in> set xs \<Longrightarrow> height x < height (VList xs)" "e \<in> set es \<Longrightarrow> height (snd e) < height (VMap es)"
  using fold_max_ge [of "height x" "map height xs" 0]
    fold_max_ge [of "height (snd e)" "map (\<lambda>e. height (snd e)) es" 0]
  by (auto simp: less_Suc_eq_le)

lemma map_set_same: "map_of m k = Some v \<Longrightarrow> map_set m k v = m"
  by (induction m) (auto simp: map_set_Cons split: if_splits)

lemma simple_step_same:
  "tree_ok (VMap m) \<Longrightarrow> set es \<subseteq> set m \<Longrightarrow> fold_result simple_step es m = Inr m"
proof (induction es)
  case (Cons e es)
  have e: "e \<in> set m" using Cons.prems by auto
  then have "tree_ok (snd e)" using tree_ok_entries [OF Cons.prems(1), of e] Cons.prems(1) by simp
  moreover have "map_of m (fst e) = Some (snd e)"
    using e Cons.prems(1) by (intro map_of_is_SomeI) auto
  ultimately have "simple_step e m = Inr m"
    by (simp add: simple_step_def map_set_same)
  then show ?case using Cons by simp
qed simp

lemma fold_enumerate_self:
  "(\<And>i x. (i, x) \<in> set (enumerate k xs) \<Longrightarrow> f i x = Inr x) \<Longrightarrow>
   fold_result (\<lambda>(i, x) out. and_then (f i x) (\<lambda>c. Inr (out @ [c]))) (enumerate k xs) out = Inr (out @ xs)"
  by (induction xs arbitrary: k out) auto

lemma merge_simple_self: "tree_ok v \<Longrightarrow> depth + height v < MAX_DEPTH \<Longrightarrow> merge_simple ctx path depth v v = Inr v"
proof (induction v arbitrary: path depth rule: value_induct)
  case (List xs)
  have "merge_simple ctx (path @ [show_nat i]) (depth + 1) (xs ! i) x = Inr x"
    if "(i, x) \<in> set (enumerate 0 xs)" for i x
  proof -
    have x: "x = xs ! i" "i < length xs" using that by (auto simp: in_set_enumerate_eq)
    then have "x \<in> set xs" by simp
    then show ?thesis using List.IH [of x] List.prems height_child(1) [of x xs] x by (auto simp: list_all_iff)
  qed
  then have "fold_result (\<lambda>(i, item) out. and_then
      (if i < length xs then merge_simple ctx (path @ [show_nat i]) (depth + 1) (xs ! i) item
       else clone_into item) (\<lambda>c. Inr (out @ [c]))) (enumerate 0 xs) [] = Inr ([] @ xs)"
    by (intro fold_enumerate_self) (auto simp: in_set_enumerate_eq)
  then have "overwrite_positionally ctx path depth (VList xs) (VList xs) = Inr (VList xs)"
    by (simp add: overwrite_positionally.simps)
  then show ?case using List.prems
    by (simp add: merge_simple_eq is_scalar_def is_list_iff is_map_iff)
next
  case (Map es)
  then have k: "keys_are_text es" by simp
  have "fold_result simple_step es es = Inr es" using Map.prems(1) by (intro simple_step_same) auto
  then show ?case using Map.prems k tree_ok_clone [OF Map.prems(1)]
    by (simp add: merge_simple_eq is_scalar_def is_list_iff is_map_iff del: tree_ok.simps)
qed (simp_all add: merge_simple_eq is_scalar_def is_list_iff is_map_iff)

lemma merge_value_self:
  assumes "overrides ctx = None" "mode ctx \<noteq> Deep"
  shows "tree_ok v \<Longrightarrow> depth + height v < MAX_DEPTH \<Longrightarrow> merge_value ctx path depth v v = Inr v"
proof (induction v arbitrary: path depth rule: value_induct)
  case (Map es)
  show ?case
  proof (cases "mode ctx")
    case Simple
    then show ?thesis using merge_simple_self [OF Map.prems] Map.prems assms(1)
      by (simp add: merge_value.simps mode_at_def del: tree_ok.simps)
  next
    case Substitute
    have k: "keys_are_text es" using Map.prems by simp
    have "fold_result (\<lambda>e m. store_step (\<lambda>e. case map_get es (fst e) of
          Some lv \<Rightarrow> merge_value ctx (path @ [fst e]) (depth + 1) (snd e) lv | None \<Rightarrow> clone_into (snd e)) e m) es []
        = Inr ([] @ map (\<lambda>e. (fst e, snd e)) es)"
    proof (rule store_fold_all)
      fix e assume e: "e \<in> set es"
      then have "map_get es (fst e) = Some (snd e)"
        using Map.prems by (auto simp: map_get_map_of)
      then show "(case map_get es (fst e) of Some lv \<Rightarrow> merge_value ctx (path @ [fst e]) (depth + 1) (snd e) lv
          | None \<Rightarrow> clone_into (snd e)) = Inr (snd e)"
        using Map.IH [of "fst e" "snd e"] Map.prems height_child(2) [OF e] e by (auto simp: list_all_iff)
    qed (use Map.prems in auto)
    moreover have "fold_result (\<lambda>e m. if fst e \<in> fst ` set es then Inr m
        else store_step (\<lambda>e. clone_into (snd e)) e m) es m = Inr m" for m
      unfolding fold_skip by (simp add: filter_empty_conv)
    ultimately have "merge_maps_recursively ctx path depth (VMap es) (VMap es) = Inr (VMap es)"
      using k by (simp add: merge_maps_eq)
    then show ?thesis using Substitute Map.prems k assms(1)
      by (simp add: merge_value.simps mode_at_def merge_substitute.simps is_map_iff)
  qed (use assms in simp)
next
  case (List xs)
  then show ?case using merge_simple_self [OF List.prems] tree_ok_clone [OF List.prems(1)] assms
    by (cases "mode ctx")
       (simp_all add: merge_value.simps mode_at_def merge_substitute.simps is_map_iff is_list_iff del: tree_ok.simps)
qed (use assms in \<open>cases "mode ctx"; simp add: merge_value.simps merge_simple_eq mode_at_def
       merge_substitute.simps is_map_iff is_list_iff is_scalar_def\<close>)+

section \<open>Lists\<close>

lemma append_unique_result:
  "list_all tree_ok ys \<Longrightarrow>
   \<exists>us. append_unique ys made = Inr (made @ us) \<and> distinct us \<and> subseq us ys \<and>
        set us = {y \<in> set ys. \<not> is_map y \<and> y \<notin> set made}"
proof (induction ys arbitrary: made)
  case (Cons y ys)
  show ?case
  proof (cases "is_map y \<or> y \<in> set made")
    case True
    then obtain us where "append_unique ys made = Inr (made @ us)" "distinct us" "subseq us ys"
      "set us = {y \<in> set ys. \<not> is_map y \<and> y \<notin> set made}"
      using Cons.IH [of made] Cons.prems by auto
    moreover from this have "subseq us (y # ys)" by (simp add: list_emb_Cons)
    moreover have "{x \<in> set (y # ys). \<not> is_map x \<and> x \<notin> set made} = {x \<in> set ys. \<not> is_map x \<and> x \<notin> set made}"
      using True by auto
    ultimately show ?thesis using True by (intro exI [of _ us]) simp
  next
    case False
    obtain us where "append_unique ys (made @ [y]) = Inr ((made @ [y]) @ us)" "distinct us" "subseq us ys"
      "set us = {x \<in> set ys. \<not> is_map x \<and> x \<notin> set (made @ [y])}"
      using Cons.IH [of "made @ [y]"] Cons.prems by auto
    moreover from this have "subseq (y # us) (y # ys)" by simp
    moreover have "{x \<in> set (y # ys). \<not> is_map x \<and> x \<notin> set made} =
        insert y {x \<in> set ys. \<not> is_map x \<and> x \<notin> set (made @ [y])}"
      using False by auto
    ultimately show ?thesis using False Cons.prems by (intro exI [of _ "y # us"]) simp
  qed
qed simp

lemma union_lists_plain:
  assumes "tree_ok (VList xs)" "tree_ok (VList ys)" "\<not> mergelists ctx"
  shows "\<exists>us. union_lists ctx path depth (VList xs) (VList ys) = Inr (VList (xs @ us @ filter is_map ys)) \<and>
    distinct us \<and> subseq us ys \<and> set us = {y \<in> set ys. \<not> is_map y \<and> y \<notin> set xs}"
proof -
  obtain us where us: "append_unique ys xs = Inr (xs @ us)" "distinct us" "subseq us ys"
    "set us = {y \<in> set ys. \<not> is_map y \<and> y \<notin> set xs}"
    using append_unique_result [of ys xs] assms(2) by auto
  have "push_all xs [] = Inr xs" using assms(1) fine_push_all [of xs "[]"] by (simp add: list_all_iff)
  moreover have "push_all (filter is_map ys) (xs @ us) = Inr ((xs @ us) @ filter is_map ys)"
    using assms(2) by (intro fine_push_all) (auto simp: list_all_iff)
  ultimately show ?thesis using us assms(3) by (auto simp: union_lists_eq)
qed

lemma overwrite_fold:
  "fold_result (\<lambda>(i, item) out. and_then (f i item) (\<lambda>c. Inr (out @ [c]))) (enumerate k ys) out = Inr r \<Longrightarrow>
   \<exists>cs. r = out @ cs \<and> length cs = length ys \<and> (\<forall>i<length ys. f (k + i) (ys ! i) = Inr (cs ! i))"
proof (induction ys arbitrary: k out)
  case (Cons y ys)
  then obtain c where c: "f k y = Inr c" by auto
  with Cons.prems have "fold_result (\<lambda>(i, item) out. and_then (f i item) (\<lambda>c. Inr (out @ [c])))
      (enumerate (Suc k) ys) (out @ [c]) = Inr r" by simp
  from Cons.IH [OF this] obtain cs where cs: "r = (out @ [c]) @ cs" "length cs = length ys"
    "\<forall>i<length ys. f (Suc k + i) (ys ! i) = Inr (cs ! i)" by blast
  then have "\<forall>i<length (y # ys). f (k + i) ((y # ys) ! i) = Inr ((c # cs) ! i)"
    using c by (auto simp: less_Suc_eq_0_disj)
  then show ?case using cs by (intro exI [of _ "c # cs"]) simp
qed simp

lemma overwrite_rule:
  assumes "tree_ok (VList xs)" "tree_ok (VList ys)"
    and "overwrite_positionally ctx path depth (VList xs) (VList ys) = Inr v"
  shows "\<exists>cs. v = VList (cs @ drop (length ys) xs) \<and> length cs = length ys \<and>
    (\<forall>i<length ys. if i < length xs
       then merge_simple ctx (path @ [show_nat i]) (depth + 1) (xs ! i) (ys ! i) = Inr (cs ! i)
       else cs ! i = ys ! i)"
proof -
  have p: "push_all (drop (length ys) xs) out = Inr (out @ drop (length ys) xs)" for out
    using assms(1) by (intro fine_push_all) (auto simp: list_all_iff dest: in_set_dropD)
  let ?f = "\<lambda>i item. if i < length xs then merge_simple ctx (path @ [show_nat i]) (depth + 1) (xs ! i) item
      else clone_into item"
  from assms(3) obtain r where "fold_result (\<lambda>(i, item) out. and_then (?f i item) (\<lambda>c. Inr (out @ [c])))
      (enumerate 0 ys) [] = Inr r" and v: "v = VList (r @ drop (length ys) xs)"
    by (auto simp: overwrite_positionally.simps p)
  from overwrite_fold [OF this(1)] v show ?thesis
    by (auto simp: result_simps split: if_splits)
qed

section \<open>Properties\<close>

text \<open>A context for the concrete merges.\<close>

definition plain_context :: "MergeMode \<Rightarrow> context_of" where
  "plain_context m = \<lparr>mode = m, mergelists = False, overrides = None,
     draws = (\<lambda>_ _ n. (word_of_nat n, 7)), hasher = (\<lambda>_ _ w. word_of_nat (length w))\<rparr>"

text \<open>C3: merging two trees the doors accept, with no key twice in a map, under any mode and
  overrides answers such a tree or a reported error; no index or \<open>expect\<close> panics.\<close>

theorem merge_keeps_trees_well_formed:
  "tree_ok earlier \<Longrightarrow> tree_ok later \<Longrightarrow>
   (\<forall>v. merge_with ctx earlier later = Inr v \<longrightarrow> tree_ok v) \<and> merge_with ctx earlier later \<noteq> Inl Panicked"
  using merge_fine(1) [of earlier later ctx "[]" 0] by (auto simp: merge_with_def)

theorem merge_keeps_trees_well_formed_witness:
  "merge_with (plain_context Deep) (VList [VNull]) (VList [VBool True]) \<noteq> Inl Panicked"
  using merge_keeps_trees_well_formed [of "VList [VNull]" "VList [VBool True]"] by simp

text \<open>The merge does not depend on what it draws at random: neither the seeds of its key
  indexes nor the hasher its unions find repeats by changes its answer.\<close>

theorem merge_ignores_the_seeds:
  "merge_with ctx earlier later = merge_with (ctx\<lparr>draws := d, hasher := h\<rparr>) earlier later"
proof -
  have "same_context ctx (ctx\<lparr>draws := d, hasher := h\<rparr>)" by (simp add: same_context_def)
  from merge_seeds(1) [OF this] show ?thesis by (simp add: merge_with_def)
qed

text \<open>C4: the recursive map rule: the result holds the earlier map's keys in its order and
  then the later map's own; a key of both holds the merge of its two values at the child's
  path, a key of one holds that one's value.\<close>

theorem maps_merge_key_by_key:
  "tree_ok (VMap a) \<Longrightarrow> tree_ok (VMap b) \<Longrightarrow>
   merge_maps_recursively ctx path depth (VMap a) (VMap b) = Inr v \<Longrightarrow>
   \<exists>m. v = VMap m \<and> map_rule (\<lambda>k x y. merge_value ctx (path @ [k]) (depth + 1) x y) a b m"
  by (rule maps_recursively_rule)

theorem maps_merge_key_by_key_witness:
  "map_rule (\<lambda>k x y. merge_value (plain_context Deep) ([] @ [k]) (0 + 1) x y)
     [(''a'', VNull), (''b'', VNull)] [(''c'', VNull), (''a'', VBool True)]
     [(''a'', VBool True), (''b'', VNull), (''c'', VNull)]"
proof -
  have t: "tree_ok (VMap [(''a'', VNull), (''b'', VNull)])" "tree_ok (VMap [(''c'', VNull), (''a'', VBool True)])"
    by code_simp+
  have "merge_maps_recursively (plain_context Deep) [] 0 (VMap [(''a'', VNull), (''b'', VNull)])
      (VMap [(''c'', VNull), (''a'', VBool True)]) =
      Inr (VMap [(''a'', VBool True), (''b'', VNull), (''c'', VNull)])"
    by code_simp
  from maps_merge_key_by_key [OF t this] show ?thesis by simp
qed

text \<open>\<open>Deep\<close> extends a list: the earlier list stands as it was, then come the later
  list's items that are no map and not yet held, once each and in order, then its maps.
  So \<open>Deep\<close> never shortens a list.\<close>

theorem deep_extends_lists:
  "tree_ok (VList xs) \<Longrightarrow> tree_ok (VList ys) \<Longrightarrow> \<not> mergelists ctx \<Longrightarrow>
   \<exists>us. union_lists ctx path depth (VList xs) (VList ys) = Inr (VList (xs @ us @ filter is_map ys)) \<and>
     distinct us \<and> subseq us ys \<and> set us = {y \<in> set ys. \<not> is_map y \<and> y \<notin> set xs}"
  by (rule union_lists_plain)

theorem deep_extends_lists_witness:
  "\<exists>us. union_lists (plain_context Deep) [] 0 (VList [VNull]) (VList [VBool True, VNull]) =
       Inr (VList ([VNull] @ us @ filter is_map [VBool True, VNull]))"
proof -
  have "tree_ok (VList [VNull])" "tree_ok (VList [VBool True, VNull])" "\<not> mergelists (plain_context Deep)"
    by (simp_all add: plain_context_def)
  from deep_extends_lists [OF this] show ?thesis by blast
qed

text \<open>\<open>Simple\<close> overwrites a list by position: an item of both is the \<open>Simple\<close> merge of
  the two, an item only the later list has is taken over, and the earlier list's excess
  survives.\<close>

theorem simple_overwrites_lists_by_position:
  "tree_ok (VList xs) \<Longrightarrow> tree_ok (VList ys) \<Longrightarrow>
   overwrite_positionally ctx path depth (VList xs) (VList ys) = Inr v \<Longrightarrow>
   \<exists>cs. v = VList (cs @ drop (length ys) xs) \<and> length cs = length ys \<and>
     (\<forall>i<length ys. if i < length xs
        then merge_simple ctx (path @ [show_nat i]) (depth + 1) (xs ! i) (ys ! i) = Inr (cs ! i)
        else cs ! i = ys ! i)"
  by (rule overwrite_rule)

theorem simple_overwrites_lists_by_position_witness:
  "\<exists>cs. VList [VBool True, VNull] = VList (cs @ drop 1 [VNull, VNull]) \<and> length cs = 1"
proof -
  have t: "tree_ok (VList [VNull, VNull])" "tree_ok (VList [VBool True])" by code_simp+
  have "overwrite_positionally (plain_context Simple) [] 0 (VList [VNull, VNull]) (VList [VBool True]) =
      Inr (VList [VBool True, VNull])" by code_simp
  from simple_overwrites_lists_by_position [OF t this] show ?thesis by auto
qed

text \<open>Absent is no opinion: a stored absent value on either side leaves the other side's
  value, under every mode and override.\<close>

theorem absent_is_no_opinion:
  "tree_ok v \<Longrightarrow>
   merge_with ctx v VAbsent = Inr v \<and> merge_with ctx VAbsent v = Inr v"
  by (cases v) (simp_all add: merge_with_def merge_value.simps MAX_DEPTH_def tree_ok_clone del: tree_ok.simps)

theorem absent_is_no_opinion_witness: "merge_with (plain_context Deep) (VList [VNull]) VAbsent = Inr (VList [VNull])"
  using absent_is_no_opinion [of "VList [VNull]"] by simp

text \<open>Merging a value with itself under \<open>Simple\<close> or \<open>Substitute\<close> changes nothing, for
  every well-formed tree within the depth bound.\<close>

theorem merging_a_value_with_itself:
  "overrides ctx = None \<Longrightarrow> mode ctx \<noteq> Deep \<Longrightarrow> tree_ok v \<Longrightarrow> height v < MAX_DEPTH \<Longrightarrow>
   merge_with ctx v v = Inr v"
  using merge_value_self [of ctx v 0 "[]"] by (simp add: merge_with_def)

theorem merging_a_value_with_itself_witness:
  "merge_with (plain_context Substitute) (VMap [(''a'', VNull)]) (VMap [(''a'', VNull)]) = Inr (VMap [(''a'', VNull)])"
proof -
  have "tree_ok (VMap [(''a'', VNull)])" by code_simp
  then show ?thesis
    by (intro merging_a_value_with_itself) (simp_all add: plain_context_def MAX_DEPTH_def)
qed

end
