(* ===== verification/Events.thy ===== *)
theory Events
  imports Merge_Laws
begin

text \<open>
  A tree as a stream of events (\<open>value/visit\<close>): what a walk of a value hands to a sink
  through \<open>Flat\<close>, and the sink that builds a tree from events, \<open>TreeSink\<close>. The abstract
  machine \<open>put_event\<close> says which event sequences describe a tree and which tree; the
  interface \<open>sink\<close> is what a sink promises of it, and both \<open>TreeSink\<close> here and the wire
  encoder of \<open>Streams\<close> provide it.
\<close>

section \<open>Events\<close>

text \<open>The methods of the trait \<open>Sink\<close>.\<close>

datatype event =
    EAbsent | ENull | EBool bool | ENumber str | EString str | EBytes "u8 list"
  | EListBegin "nat option" | EListEnd | EMapBegin "nat option" | EKey str | EMapEnd

subsection \<open>A value walks itself\<close>

definition walk_room :: "nat \<Rightarrow> value_error + nat" where
  "walk_room depth = (if MAX_DEPTH \<le> depth then Inl TooDeep else Inr (depth + 1))"

text \<open>\<open>walk_list\<close> and \<open>walk_map\<close>, over the walk of one child.\<close>

definition walk_list ::
  "(event \<Rightarrow> 's \<Rightarrow> value_error + 's) \<Rightarrow> (nat \<Rightarrow> Value \<Rightarrow> 's \<Rightarrow> value_error + 's) \<Rightarrow>
   nat \<Rightarrow> Value list \<Rightarrow> 's \<Rightarrow> value_error + 's" where
  "walk_list put child depth list s =
     and_then (walk_room depth) (\<lambda>inside.
     and_then (put (EListBegin (Some (length list))) s) (\<lambda>s.
     and_then (fold_result (\<lambda>item s. child inside item s) list s) (put EListEnd)))"

definition walk_map ::
  "(event \<Rightarrow> 's \<Rightarrow> value_error + 's) \<Rightarrow> (nat \<Rightarrow> Value \<Rightarrow> 's \<Rightarrow> value_error + 's) \<Rightarrow>
   nat \<Rightarrow> map_entries \<Rightarrow> 's \<Rightarrow> value_error + 's" where
  "walk_map put child depth m s =
     and_then (walk_room depth) (\<lambda>inside.
     and_then (put (EMapBegin (Some (length m))) s) (\<lambda>s.
     and_then (fold_result (\<lambda>entry s.
         and_then (put (EKey (fst entry)) s) (child inside (snd entry))) m s) (put EMapEnd)))"

lemma walk_list_cong [fundef_cong]:
  "put = put' \<Longrightarrow> d = d' \<Longrightarrow> xs = xs' \<Longrightarrow> s = s' \<Longrightarrow>
   (\<And>i x t. x \<in> set xs' \<Longrightarrow> child i x t = child' i x t) \<Longrightarrow>
   walk_list put child d xs s = walk_list put' child' d' xs' s'"
  unfolding walk_list_def
  by (intro and_then_cong fold_result_cong arg_cong2 [of _ _ _ _ and_then] refl) auto

lemma walk_map_cong [fundef_cong]:
  "put = put' \<Longrightarrow> d = d' \<Longrightarrow> es = es' \<Longrightarrow> s = s' \<Longrightarrow>
   (\<And>i e t. e \<in> set es' \<Longrightarrow> child i (snd e) t = child' i (snd e) t) \<Longrightarrow>
   walk_map put child d es s = walk_map put' child' d' es' s'"
  unfolding walk_map_def
  by (intro and_then_cong fold_result_cong arg_cong2 [of _ _ _ _ and_then] refl) auto

text \<open>\<open>Deep::walk\<close>: a node and how many containers are open above it, into a sink.\<close>

function walk_deep ::
  "(event \<Rightarrow> 's \<Rightarrow> value_error + 's) \<Rightarrow> nat \<Rightarrow> Value \<Rightarrow> 's \<Rightarrow> value_error + 's" where
  "walk_deep put depth node s =
     and_then (tag_of node) (\<lambda>t.
     case t of
       GUATIAO_ABSENT \<Rightarrow> put EAbsent s
     | GUATIAO_NULL \<Rightarrow> put ENull s
     | GUATIAO_BOOL \<Rightarrow> and_then (ok_or WrongKind (as_bool node)) (\<lambda>b. put (EBool b) s)
     | GUATIAO_NUMBER \<Rightarrow> and_then (ok_or NotANumber (as_number node)) (\<lambda>n. put (ENumber n) s)
     | GUATIAO_STRING \<Rightarrow> and_then (ok_or NotUtf8 (as_text node)) (\<lambda>x. put (EString x) s)
     | GUATIAO_BYTES \<Rightarrow> and_then (ok_or WrongKind (as_buffer node)) (\<lambda>b. put (EBytes b) s)
     | GUATIAO_LIST \<Rightarrow>
         and_then (ok_or WrongKind (as_list node)) (\<lambda>list. walk_list put (walk_deep put) depth list s)
     | GUATIAO_MAP \<Rightarrow>
         and_then (ok_or NotUtf8 (as_map node)) (\<lambda>m. walk_map put (walk_deep put) depth m s))"
  by pat_completeness auto
termination
proof (relation "measure (\<lambda>(put, d, v, s). size v)")
  fix v t l and x :: Value
  assume "ok_or WrongKind (as_list v) = Inr l" "x \<in> set l"
  then show "((put, i, x, s'), (put, d, v, s)) \<in> measure (\<lambda>(put, d, v, s). size v)" for put i s' d s
    by (cases v) (auto simp: result_simps dest: size_list_member)
next
  fix v t m and e :: entry
  assume "ok_or NotUtf8 (as_map v) = Inr m" "e \<in> set m"
  then show "((put, i, snd e, s'), (put, d, v, s)) \<in> measure (\<lambda>(put, d, v, s). size v)" for put i s' d s
    by (cases v; cases e) (auto simp: result_simps split: if_splits dest: size_entry_member)
qed simp

declare walk_deep.simps [simp del]

definition walk_value :: "(event \<Rightarrow> 's \<Rightarrow> value_error + 's) \<Rightarrow> Value \<Rightarrow> 's \<Rightarrow> value_error + 's" where
  "walk_value put v s = walk_deep put 0 v s"

text \<open>A map and a list walk as their nodes do.\<close>

definition walk_whole_map ::
  "(event \<Rightarrow> 's \<Rightarrow> value_error + 's) \<Rightarrow> map_entries \<Rightarrow> 's \<Rightarrow> value_error + 's" where
  "walk_whole_map put m s = walk_map put (walk_deep put) 0 m s"

definition walk_whole_list ::
  "(event \<Rightarrow> 's \<Rightarrow> value_error + 's) \<Rightarrow> Value list \<Rightarrow> 's \<Rightarrow> value_error + 's" where
  "walk_whole_list put l s = walk_list put (walk_deep put) 0 l s"

text \<open>The events of a tree, in document order.\<close>

function events :: "Value \<Rightarrow> event list" where
  "events VAbsent = [EAbsent]"
| "events VNull = [ENull]"
| "events (VBool b) = [EBool b]"
| "events (VNumber t) = [ENumber t]"
| "events (VString t) = [EString t]"
| "events (VBytes bs) = [EBytes bs]"
| "events (VList xs) = EListBegin (Some (length xs)) # concat (map events xs) @ [EListEnd]"
| "events (VMap es) =
     EMapBegin (Some (length es)) # concat (map (\<lambda>e. EKey (fst e) # events (snd e)) es) @ [EMapEnd]"
| "events (VUnknown k) = []"
  by pat_completeness auto
termination
  by (relation "measure size") (auto dest: size_list_member size_entry_member)

text \<open>How many containers deep a tree is.\<close>

function nesting :: "Value \<Rightarrow> nat" where
  "nesting (VList xs) = Suc (foldr max (map nesting xs) 0)"
| "nesting (VMap es) = Suc (foldr max (map (\<lambda>e. nesting (snd e)) es) 0)"
| "nesting VAbsent = 0"
| "nesting VNull = 0"
| "nesting (VBool b) = 0"
| "nesting (VNumber t) = 0"
| "nesting (VString t) = 0"
| "nesting (VBytes bs) = 0"
| "nesting (VUnknown k) = 0"
  by pat_completeness auto
termination
  by (relation "measure size") (auto dest: size_list_member size_entry_member)

definition put_all :: "(event \<Rightarrow> 's \<Rightarrow> value_error + 's) \<Rightarrow> event list \<Rightarrow> 's \<Rightarrow> value_error + 's" where
  "put_all put evs s = fold_result put evs s"

lemma put_all_is: "put_all put = fold_result put"
  by (simp add: put_all_def fun_eq_iff)

lemma fold_result_Nil: "fold_result f [] = Inr"
  by (simp add: fun_eq_iff)

lemma put_all_simps [simp]:
  "put_all put [] = Inr"
  "put_all put (e # evs) s = and_then (put e s) (put_all put evs)"
  "put_all put (evs @ evs') s = and_then (put_all put evs s) (put_all put evs')"
  by (simp_all add: put_all_is fold_result_append fold_result_Nil)

lemma put_all_one [simp]: "put_all put [e] = put e"
  by (simp add: fun_eq_iff put_all_is fold_result_Nil)

lemma put_all_fun:
  "put_all put (evs @ evs') = (\<lambda>s. and_then (put_all put evs s) (put_all put evs'))"
  by (simp_all add: fun_eq_iff put_all_is fold_result_append fold_result_Nil)

lemma foldr_max_ge: "n \<in> set ns \<Longrightarrow> n \<le> foldr max (ns :: nat list) 0"
  by (induction ns) auto

lemma nesting_child:
  "x \<in> set xs \<Longrightarrow> Suc (nesting x) \<le> nesting (VList xs)"
  "e \<in> set es \<Longrightarrow> Suc (nesting (snd e)) \<le> nesting (VMap es)"
  by (auto intro!: foldr_max_ge)

lemma fold_put_all:
  assumes "\<And>x s. x \<in> set xs \<Longrightarrow> f x s = put_all put (g x) s"
  shows "fold_result f xs s = put_all put (concat (map g xs)) s"
  using assms
proof (induction xs arbitrary: s)
  case (Cons x xs)
  then have "fold_result f xs = put_all put (concat (map g xs))" by auto
  with Cons show ?case by simp
qed simp

text \<open>A tree every door accepts, nested within the bound, walks as its events.\<close>

lemma walk_deep_events:
  "readable v \<Longrightarrow> nesting v + depth \<le> MAX_DEPTH \<Longrightarrow> walk_deep put depth v s = put_all put (events v) s"
proof (induction v arbitrary: depth s rule: value_induct)
  case (List xs)
  have "fold_result (\<lambda>item s. walk_deep put (depth + 1) item s) xs s = put_all put (concat (map events xs)) s" for s
  proof (intro fold_put_all)
    fix x s assume x: "x \<in> set xs"
    then show "walk_deep put (depth + 1) x s = put_all put (events x) s"
      using List nesting_child(1) [OF x] by (auto simp: list_all_iff)
  qed
  moreover have "walk_room depth = Inr (depth + 1)" using List.prems by (simp add: walk_room_def)
  ultimately show ?case by (simp add: walk_deep.simps [of put depth] walk_list_def put_all_fun)
next
  case (Map es)
  have "fold_result (\<lambda>entry s. and_then (put (EKey (fst entry)) s) (walk_deep put (depth + 1) (snd entry))) es s
      = put_all put (concat (map (\<lambda>e. EKey (fst e) # events (snd e)) es)) s" for s
  proof (intro fold_put_all)
    fix e s assume e: "e \<in> set es"
    have "walk_deep put (depth + 1) (snd e) t = put_all put (events (snd e)) t" for t
      using e Map.IH [of "fst e" "snd e"] Map.prems nesting_child(2) [OF e] by (auto simp: list_all_iff)
    then have "walk_deep put (depth + 1) (snd e) = put_all put (events (snd e))" by (rule ext)
    then show "and_then (put (EKey (fst e)) s) (walk_deep put (depth + 1) (snd e)) =
        put_all put (EKey (fst e) # events (snd e)) s" by simp
  qed
  moreover have "walk_room depth = Inr (depth + 1)" using Map.prems by (simp add: walk_room_def)
  ultimately show ?case using Map.prems
    by (simp add: walk_deep.simps [of put depth] walk_map_def put_all_fun)
qed (auto simp: walk_deep.simps [of put depth for depth])

text \<open>No other tree walks.\<close>

lemma fold_result_Inr_member:
  assumes "fold_result f xs s = Inr s'" "x \<in> set xs"
  shows "\<exists>t t'. f x t = Inr t'"
  using assms by (induction xs arbitrary: s) auto

lemma walk_room_Inr [simp]: "walk_room d = Inr i \<longleftrightarrow> i = d + 1 \<and> d < MAX_DEPTH"
  by (auto simp: walk_room_def)

lemma foldr_max_le: "(\<And>n. n \<in> set ns \<Longrightarrow> n \<le> k) \<Longrightarrow> foldr max (ns :: nat list) 0 \<le> k"
  by (induction ns) auto

lemma walk_deep_Inr:
  "walk_deep put depth v s = Inr s' \<Longrightarrow> depth \<le> MAX_DEPTH \<Longrightarrow>
   readable v \<and> nesting v + depth \<le> MAX_DEPTH"
proof (induction v arbitrary: depth s s' rule: value_induct)
  case (List xs)
  then obtain t t' where d: "depth < MAX_DEPTH"
    and w: "fold_result (\<lambda>item s. walk_deep put (depth + 1) item s) xs t = Inr t'"
    by (auto simp: walk_deep.simps [of put depth] walk_list_def)
  have "readable x \<and> nesting x + (depth + 1) \<le> MAX_DEPTH" if "x \<in> set xs" for x
    using fold_result_Inr_member [OF w that] List.IH [OF that] d by fastforce
  moreover from this have "foldr max (map nesting xs) 0 \<le> MAX_DEPTH - (depth + 1)"
    by (intro foldr_max_le) fastforce
  ultimately show ?case using d by (simp add: list_all_iff)
next
  case (Map es)
  then obtain t t' where d: "depth < MAX_DEPTH" and k: "keys_are_text es"
    and w: "fold_result (\<lambda>entry s. and_then (put (EKey (fst entry)) s)
      (walk_deep put (depth + 1) (snd entry))) es t = Inr t'"
    by (auto simp: walk_deep.simps [of put depth] walk_map_def result_simps split: if_splits)
  have "readable (snd e) \<and> nesting (snd e) + (depth + 1) \<le> MAX_DEPTH" if e: "e \<in> set es" for e
    using fold_result_Inr_member [OF w e] Map.IH [of "fst e" "snd e"] e d by fastforce
  moreover from this have "foldr max (map (\<lambda>e. nesting (snd e)) es) 0 \<le> MAX_DEPTH - (depth + 1)"
    by (intro foldr_max_le) fastforce
  ultimately show ?case using d k by (simp add: list_all_iff)
qed (auto simp: walk_deep.simps [of put depth for depth] result_simps split: if_splits)

section \<open>What a stream of events describes\<close>

text \<open>The containers open, innermost first: what they hold so far, how many elements each
  was promised to have, and for a map the key its next value goes under; and the finished
  value.\<close>

datatype part = PList "Value list" "nat option" | PMap map_entries "str option" "nat option"

type_synonym building = "part list \<times> Value option"

fun part_len :: "part \<Rightarrow> nat" where
  "part_len (PList vs pr) = length vs"
| "part_len (PMap es key pr) = length es"

fun has_room :: "nat option \<Rightarrow> nat \<Rightarrow> bool" where
  "has_room None n = True"
| "has_room (Some k) n = (n < k)"

fun no_more :: "nat option \<Rightarrow> nat \<Rightarrow> bool" where
  "no_more None n = True"
| "no_more (Some k) n = (n \<le> k)"

fun kept :: "nat option \<Rightarrow> nat \<Rightarrow> bool" where
  "kept None n = True"
| "kept (Some k) n = (n = k)"

fun may_put :: "building \<Rightarrow> bool" where
  "may_put ([], v) = (v = None)"
| "may_put (PList vs pr # ps, v) = has_room pr (length vs)"
| "may_put (PMap es key pr # ps, v) = (key \<noteq> None \<and> has_room pr (length es))"

fun put_value :: "Value \<Rightarrow> building \<Rightarrow> building" where
  "put_value x ([], v) = ([], Some x)"
| "put_value x (PList vs pr # ps, v) = (PList (vs @ [x]) pr # ps, v)"
| "put_value x (PMap es key pr # ps, v) =
     (case key of None \<Rightarrow> (PMap es None pr # ps, v) | Some k \<Rightarrow> (PMap (es @ [(k, x)]) None pr # ps, v))"

definition put_leaf :: "Value \<Rightarrow> building \<Rightarrow> value_error + building" where
  "put_leaf x b = (if may_put b then Inr (put_value x b) else Inl WrongKind)"

definition put_open :: "part \<Rightarrow> building \<Rightarrow> value_error + building" where
  "put_open p b = (if may_put b then Inr (p # fst b, snd b) else Inl WrongKind)"

fun put_event :: "event \<Rightarrow> building \<Rightarrow> value_error + building" where
  "put_event EAbsent b = put_leaf VAbsent b"
| "put_event ENull b = put_leaf VNull b"
| "put_event (EBool x) b = put_leaf (VBool x) b"
| "put_event (ENumber t) b = (if is_number t then put_leaf (VNumber t) b else Inl NotANumber)"
| "put_event (EString t) b = put_leaf (VString t) b"
| "put_event (EBytes x) b = put_leaf (VBytes x) b"
| "put_event (EListBegin pr) b = put_open (PList [] pr) b"
| "put_event EListEnd b =
     (case b of
        (PList vs pr # ps, v) \<Rightarrow>
          if kept pr (length vs) then Inr (put_value (VList vs) (ps, v)) else Inl WrongKind
      | _ \<Rightarrow> Inl WrongKind)"
| "put_event (EMapBegin pr) b = put_open (PMap [] None pr) b"
| "put_event (EKey k) b =
     (case b of
        (PMap es None pr # ps, v) \<Rightarrow>
          if k \<in> fst ` set es then Inl DuplicateKey else Inr (PMap es (Some k) pr # ps, v)
      | _ \<Rightarrow> Inl WrongKind)"
| "put_event EMapEnd b =
     (case b of
        (PMap es None pr # ps, v) \<Rightarrow>
          if kept pr (length es) then Inr (put_value (VMap es) (ps, v)) else Inl WrongKind
      | _ \<Rightarrow> Inl WrongKind)"

text \<open>The tree an event sequence describes, if it describes one.\<close>

definition described :: "event list \<Rightarrow> Value option" where
  "described evs = (case put_all put_event evs ([], None) of Inr ([], v) \<Rightarrow> v | _ \<Rightarrow> None)"

text \<open>What a \<open>str\<close> and a \<open>usize\<close> argument guarantee of an event.\<close>

fun event_ok :: "event \<Rightarrow> bool" where
  "event_ok (ENumber t) = (is_text t \<and> length t < 2 ^ 64)"
| "event_ok (EString t) = (is_text t \<and> length t < 2 ^ 64)"
| "event_ok (EKey t) = (is_text t \<and> length t < 2 ^ 64)"
| "event_ok (EBytes bs) = (length bs < 2 ^ 64)"
| "event_ok (EListBegin (Some n)) = (n < 2 ^ 64)"
| "event_ok (EMapBegin (Some n)) = (n < 2 ^ 64)"
| "event_ok e = True"

text \<open>A walk of a tree with no key twice describes that tree.\<close>

function unrepeated :: "Value \<Rightarrow> bool" where
  "unrepeated (VList xs) = list_all unrepeated xs"
| "unrepeated (VMap es) = (distinct (map fst es) \<and> list_all (\<lambda>e. unrepeated (snd e)) es)"
| "unrepeated VAbsent = True"
| "unrepeated VNull = True"
| "unrepeated (VBool b) = True"
| "unrepeated (VNumber t) = True"
| "unrepeated (VString t) = True"
| "unrepeated (VBytes bs) = True"
| "unrepeated (VUnknown k) = True"
  by pat_completeness auto
termination
  by (relation "measure size") (auto dest: size_list_member size_entry_member)

text \<open>The grammar of the sequences that describe a tree: a container's begin, with no promise
  or the promise it keeps, what each element spells, and its end.\<close>

inductive spells :: "event list \<Rightarrow> Value \<Rightarrow> bool" where
  Absent: "spells [EAbsent] VAbsent"
| Null: "spells [ENull] VNull"
| Bool: "spells [EBool b] (VBool b)"
| Number: "is_number t \<Longrightarrow> spells [ENumber t] (VNumber t)"
| String: "spells [EString t] (VString t)"
| Bytes: "spells [EBytes bs] (VBytes bs)"
| List: "list_all2 spells ess xs \<Longrightarrow> kept pr (length xs) \<Longrightarrow>
    spells (EListBegin pr # concat ess @ [EListEnd]) (VList xs)"
| Map: "list_all2 (\<lambda>e kv. spells e (snd kv)) ess kvs \<Longrightarrow> distinct (map fst kvs) \<Longrightarrow>
    kept pr (length kvs) \<Longrightarrow>
    spells (EMapBegin pr # concat (map2 (\<lambda>e kv. EKey (fst kv) # e) ess kvs) @ [EMapEnd]) (VMap kvs)"

text \<open>The machine reads whatever spells a value as that value.\<close>

abbreviation put_reads :: "event list \<Rightarrow> Value \<Rightarrow> bool" where
  "put_reads e x \<equiv> \<forall>b. may_put b \<longrightarrow> put_all put_event e b = Inr (put_value x b)"

lemma put_items:
  assumes "list_all2 put_reads ess xs" and "no_more pr (length vs + length xs)"
  shows "put_all put_event (concat ess) (PList vs pr # ps, v) = Inr (PList (vs @ xs) pr # ps, v)"
  using assms
proof (induction ess xs arbitrary: vs rule: list_all2_induct)
  case (Cons e ess x xs)
  have "may_put (PList vs pr # ps, v)" using Cons.prems by (cases pr) auto
  moreover have "no_more pr (length (vs @ [x]) + length xs)"
    using Cons.prems by (cases pr) auto
  ultimately show ?case using Cons by simp
qed simp

lemma put_entries:
  assumes "list_all2 (\<lambda>e kv. put_reads e (snd kv)) ess fs"
    and "no_more pr (length es + length fs)" "distinct (map fst (es @ fs))"
  shows "put_all put_event (concat (map2 (\<lambda>e kv. EKey (fst kv) # e) ess fs)) (PMap es None pr # ps, v)
    = Inr (PMap (es @ fs) None pr # ps, v)"
  using assms
proof (induction ess fs arbitrary: es rule: list_all2_induct)
  case (Cons e ess kv fs)
  have "may_put (PMap es (Some (fst kv)) pr # ps, v)" using Cons.prems(1) by (cases pr) auto
  moreover have "no_more pr (length (es @ [kv]) + length fs)"
    using Cons.prems(1) by (cases pr) auto
  ultimately show ?case using Cons by simp
qed simp

lemma kept_fits: "kept pr n \<Longrightarrow> no_more pr n"
  by (cases pr) auto

lemma spells_reads: "spells evs x \<Longrightarrow> put_reads evs x"
proof (induction rule: spells.induct)
  case (List ess xs pr)
  have "list_all2 put_reads ess xs" using List(1) by (rule list_all2_mono) blast
  from put_items [OF this, where pr = pr and vs = "[]"] kept_fits [OF List(2)] List(2) show ?case
    by (simp add: put_open_def)
next
  case (Map ess kvs pr)
  have "list_all2 (\<lambda>e kv. put_reads e (snd kv)) ess kvs" using Map(1) by (rule list_all2_mono) blast
  from put_entries [OF this, where pr = pr and es = "[]"] kept_fits [OF Map(3)] Map(2,3) show ?case
    by (simp add: put_open_def)
qed (simp_all add: put_leaf_def)

lemma list_all2_map_left: "(\<And>x. x \<in> set xs \<Longrightarrow> P (f x) x) \<Longrightarrow> list_all2 P (map f xs) xs"
  by (simp add: list_all2_conv_all_nth)

lemma map2_map_left: "map2 f (map g xs) xs = map (\<lambda>x. f (g x) x) xs"
  by (simp add: zip_map1 comp_def zip_same_conv_map)

lemma spells_events: "readable v \<Longrightarrow> unrepeated v \<Longrightarrow> spells (events v) v"
proof (induction v rule: value_induct)
  case (List xs)
  then have "list_all2 spells (map events xs) xs" by (intro list_all2_map_left) (auto simp: list_all_iff)
  then show ?case by (simp add: spells.List)
next
  case (Map es)
  have "list_all2 (\<lambda>e kv. spells e (snd kv)) (map (\<lambda>e. events (snd e)) es) es"
  proof (rule list_all2_map_left)
    fix e assume "e \<in> set es"
    then show "spells (events (snd e)) (snd e)" using Map.IH [of "fst e"] Map.prems by (auto simp: list_all_iff)
  qed
  from spells.Map [OF this, of "Some (length es)"] Map.prems show ?case by (simp add: map2_map_left)
qed (auto intro: spells.intros)

text \<open>And it accepts nothing else: what was put so far is what the open containers spell.\<close>

fun spelt_part :: "part \<Rightarrow> event list \<Rightarrow> bool" where
  "spelt_part (PList vs pr) evs \<longleftrightarrow>
     (\<exists>ess. evs = EListBegin pr # concat ess \<and> list_all2 spells ess vs)"
| "spelt_part (PMap es key pr) evs \<longleftrightarrow>
     (\<exists>ess. evs = EMapBegin pr # concat (map2 (\<lambda>e kv. EKey (fst kv) # e) ess es) @
         (case key of None \<Rightarrow> [] | Some k \<Rightarrow> [EKey k]) \<and>
       list_all2 (\<lambda>e kv. spells e (snd kv)) ess es \<and>
       distinct (map fst es @ (case key of None \<Rightarrow> [] | Some k \<Rightarrow> [k])))"

fun spelt :: "building \<Rightarrow> event list \<Rightarrow> bool" where
  "spelt ([], None) evs \<longleftrightarrow> evs = []"
| "spelt ([], Some x) evs \<longleftrightarrow> spells evs x"
| "spelt (p # ps, v) evs \<longleftrightarrow> v = None \<and> may_put (ps, None) \<and>
     (\<exists>before own. evs = before @ own \<and> spelt_part p own \<and> spelt (ps, None) before)"

lemma spelt_open: "spelt b evs \<Longrightarrow> may_put b \<Longrightarrow> spelt_part p [e] \<Longrightarrow> spelt (p # fst b, snd b) (evs @ [e])"
  by (cases b; cases "fst b") auto

lemma spelt_part_put:
  "spelt_part (PList vs pr) own \<Longrightarrow> spells e x \<Longrightarrow> spelt_part (PList (vs @ [x]) pr) (own @ e)"
  "spelt_part (PMap es (Some k) pr) own \<Longrightarrow> spells e x \<Longrightarrow> spelt_part (PMap (es @ [(k, x)]) None pr) (own @ e)"
proof -
  assume "spelt_part (PList vs pr) own" "spells e x"
  then obtain ess where "own @ e = EListBegin pr # concat (ess @ [e])" "list_all2 spells (ess @ [e]) (vs @ [x])"
    by (auto intro: list_all2_appendI)
  then show "spelt_part (PList (vs @ [x]) pr) (own @ e)" unfolding spelt_part.simps by blast
next
  assume "spelt_part (PMap es (Some k) pr) own" "spells e x"
  then obtain ess where ess: "own = EMapBegin pr # concat (map2 (\<lambda>e kv. EKey (fst kv) # e) ess es) @ [EKey k]"
    "list_all2 (\<lambda>e kv. spells e (snd kv)) ess es" "distinct (map fst es @ [k])" by auto
  then have "own @ e = EMapBegin pr # concat (map2 (\<lambda>e kv. EKey (fst kv) # e) (ess @ [e]) (es @ [(k, x)]))"
    by (simp add: list_all2_lengthD)
  moreover have "list_all2 (\<lambda>e kv. spells e (snd kv)) (ess @ [e]) (es @ [(k, x)])"
    using ess(2) \<open>spells e x\<close> by (auto intro: list_all2_appendI)
  ultimately show "spelt_part (PMap (es @ [(k, x)]) None pr) (own @ e)"
    using ess(3) by auto
qed

lemma spelt_ConsI:
  "may_put (ps, None) \<Longrightarrow> spelt (ps, None) before \<Longrightarrow> spelt_part p own \<Longrightarrow> spelt (p # ps, None) (before @ own)"
  by auto

lemma spelt_put:
  assumes b: "spelt b evs" "may_put b" and x: "spells e x"
  shows "spelt (put_value x b) (evs @ e)"
proof (cases b)
  case (Pair ps v)
  show ?thesis
  proof (cases ps)
    case (Cons p qs)
    with b Pair obtain before own where o: "evs = before @ own" "spelt_part p own" "v = None"
      "spelt (qs, None) before" "may_put (qs, None)" by auto
    show ?thesis
    proof (cases p)
      case (PList vs pr)
      then show ?thesis
        using spelt_ConsI [OF o(5,4), of "PList (vs @ [x]) pr" "own @ e"] o(1-3) Pair Cons x
          spelt_part_put(1) [of vs pr own e x] by simp
    next
      case (PMap es key pr)
      moreover obtain k where "key = Some k" using b(2) Pair Cons PMap by auto
      ultimately show ?thesis
        using spelt_ConsI [OF o(5,4), of "PMap (es @ [(k, x)]) None pr" "own @ e"] o(1-3) Pair Cons x
          spelt_part_put(2) [of es k pr own e x] by simp
    qed
  qed (use b Pair x in \<open>cases v; auto\<close>)
qed

lemma spelt_close:
  "spelt_part (PList vs pr) own \<Longrightarrow> kept pr (length vs) \<Longrightarrow> spells (own @ [EListEnd]) (VList vs)"
  "spelt_part (PMap es None pr) own \<Longrightarrow> kept pr (length es) \<Longrightarrow> spells (own @ [EMapEnd]) (VMap es)"
  by (auto simp: spells.List spells.Map)

lemma spelt_leaf:
  "spelt b evs \<Longrightarrow> put_leaf x b = Inr b' \<Longrightarrow> spells [e] x \<Longrightarrow> spelt b' (evs @ [e])"
  by (auto simp: put_leaf_def spelt_put split: if_splits)

lemma spelt_begin:
  "spelt b evs \<Longrightarrow> put_open p b = Inr b' \<Longrightarrow> spelt_part p [e] \<Longrightarrow> spelt b' (evs @ [e])"
  using spelt_open [of b evs p e] by (simp add: put_open_def del: spelt.simps split: if_splits)

lemma spelt_step:
  assumes "spelt b evs" "put_event e b = Inr b'"
  shows "spelt b' (evs @ [e])"
proof -
  have closed: ?thesis
    if "b = (p # ps, v)" "b' = put_value x (ps, v)" "\<And>own. spelt_part p own \<Longrightarrow> spells (own @ [e]) x" for p ps v x
  proof -
    from assms(1) that obtain before own where "evs = before @ own" "spelt_part p own" "v = None"
      "spelt (ps, None) before" "may_put (ps, None)" by auto
    with that spelt_put [of "(ps, None)" before "own @ [e]" x] show ?thesis by simp
  qed
  show ?thesis
  proof (cases e)
    case EListEnd
    with assms(2) obtain vs pr ps v where "b = (PList vs pr # ps, v)" "kept pr (length vs)"
      "b' = put_value (VList vs) (ps, v)"
      by (auto split: prod.splits list.splits part.splits if_splits)
    with EListEnd spelt_close(1) show ?thesis by (intro closed) auto
  next
    case EMapEnd
    with assms(2) obtain es pr ps v where "b = (PMap es None pr # ps, v)" "kept pr (length es)"
      "b' = put_value (VMap es) (ps, v)"
      by (auto split: prod.splits list.splits part.splits option.splits if_splits)
    with EMapEnd spelt_close(2) show ?thesis by (intro closed) auto
  next
    case (EKey k)
    with assms obtain es pr ps before own where o: "b = (PMap es None pr # ps, None)" "evs = before @ own"
      "spelt_part (PMap es None pr) own" "spelt (ps, None) before" "may_put (ps, None)"
      "b' = (PMap es (Some k) pr # ps, None)" "k \<notin> fst ` set es"
      by (auto split: prod.splits list.splits part.splits option.splits if_splits)
    then have "spelt_part (PMap es (Some k) pr) (own @ [EKey k])" by auto
    from spelt_ConsI [OF o(5,4) this] o(2,6) EKey show ?thesis by simp
  qed (use assms in \<open>auto intro: spelt_leaf spelt_begin spells.intros split: if_splits\<close>)
qed

lemma spelt_run: "spelt b before \<Longrightarrow> put_all put_event evs b = Inr b' \<Longrightarrow> spelt b' (before @ evs)"
proof (induction evs arbitrary: b before)
  case (Cons e evs)
  then obtain b1 where "put_event e b = Inr b1" "put_all put_event evs b1 = Inr b'" by auto
  with Cons.IH [OF spelt_step [OF Cons.prems(1)]] show ?case by fastforce
qed simp

lemma described_iff: "described evs = Some v \<longleftrightarrow> spells evs v"
proof
  assume "described evs = Some v"
  then have "put_all put_event evs ([], None) = Inr ([], Some v)"
    by (auto simp: described_def split: sum.splits list.splits)
  with spelt_run [of "([], None)" "[]"] show "spells evs v" by fastforce
next
  assume "spells evs v"
  from spells_reads [OF this] show "described evs = Some v" by (simp add: described_def)
qed

section \<open>What a sink promises\<close>

text \<open>How many elements the open containers hold: bounded by the events put, so a count
  within a machine word never wraps.\<close>

definition crowd :: "building \<Rightarrow> nat" where
  "crowd b = sum_list (map part_len (fst b))"

lemma crowd_put_value: "crowd (put_value x b) \<le> Suc (crowd b)"
  by (cases "(x, b)" rule: put_value.cases) (auto simp: crowd_def split: option.splits)

lemma crowd_Cons [simp]: "crowd (p # ps, v) = part_len p + crowd (ps, v)"
  by (simp add: crowd_def)

lemma crowd_close: "crowd (put_value x (ps, v)) \<le> Suc (k + crowd (ps, v))"
  using crowd_put_value [of x "(ps, v)"] by simp

lemma crowd_step: "put_event e b = Inr b' \<Longrightarrow> crowd b' \<le> Suc (crowd b)"
  by (cases e) (auto simp: put_leaf_def put_open_def crowd_put_value crowd_close
      split: if_splits prod.splits list.splits part.splits option.splits)

text \<open>The interface of a sink: it takes every event the machine takes, and its state then
  stands for the machine's. One that also refuses what the machine refuses, with the same
  error, is a strict sink.\<close>

locale sink =
  fixes put :: "event \<Rightarrow> 's \<Rightarrow> value_error + 's"
    and stands_for :: "'s \<Rightarrow> building \<Rightarrow> bool"
  assumes takes: "stands_for s b \<Longrightarrow> put_event e b = Inr b' \<Longrightarrow> event_ok e \<Longrightarrow> Suc (crowd b) < 2 ^ 64 \<Longrightarrow>
    \<exists>s'. put e s = Inr s' \<and> stands_for s' b'"
begin

lemma takes_all:
  "stands_for s b \<Longrightarrow> put_all put_event evs b = Inr b' \<Longrightarrow> list_all event_ok evs \<Longrightarrow>
   crowd b + length evs < 2 ^ 64 \<Longrightarrow> \<exists>s'. put_all put evs s = Inr s' \<and> stands_for s' b'"
proof (induction evs arbitrary: s b)
  case (Cons e evs)
  then obtain b1 where b1: "put_event e b = Inr b1" "put_all put_event evs b1 = Inr b'" by auto
  then obtain s1 where s1: "put e s = Inr s1" "stands_for s1 b1"
    using takes [OF Cons.prems(1), of e b1] Cons.prems(3,4) by auto
  have "crowd b1 + length evs < 2 ^ 64" using crowd_step [OF b1(1)] Cons.prems(4) by simp
  from Cons.IH [OF s1(2) b1(2) _ this] Cons.prems(3) s1(1) show ?case by auto
qed simp

lemma takes_spelling:
  assumes "stands_for s ([], None)" "spells evs v" "list_all event_ok evs" "length evs < 2 ^ 64"
  shows "\<exists>s'. put_all put evs s = Inr s' \<and> stands_for s' ([], Some v)"
  using takes_all [of s "([], None)" evs] spells_reads [OF assms(2)] assms by (simp add: crowd_def)

lemma takes_walk:
  assumes "stands_for s ([], None)" "readable v" "unrepeated v" "nesting v \<le> MAX_DEPTH"
    and "list_all event_ok (events v)" "length (events v) < 2 ^ 64"
  shows "\<exists>s'. walk_value put v s = Inr s' \<and> stands_for s' ([], Some v)"
  using takes_spelling [OF assms(1) spells_events [OF assms(2,3)]] assms(2-)
  by (simp add: walk_value_def walk_deep_events)

end

locale strict_sink = sink +
  assumes refuses: "stands_for s b \<Longrightarrow> put_event e b = Inl x \<Longrightarrow> event_ok e \<Longrightarrow> Suc (crowd b) < 2 ^ 64 \<Longrightarrow>
    put e s = Inl x"
begin

lemma refuses_all:
  "stands_for s b \<Longrightarrow> put_all put_event evs b = Inl x \<Longrightarrow> list_all event_ok evs \<Longrightarrow>
   crowd b + length evs < 2 ^ 64 \<Longrightarrow> put_all put evs s = Inl x"
proof (induction evs arbitrary: s b)
  case (Cons e evs)
  show ?case
  proof (cases "put_event e b")
    case (Inl y)
    then show ?thesis using Cons.prems refuses [OF Cons.prems(1) Inl] by auto
  next
    case (Inr b1)
    then obtain s1 where s1: "put e s = Inr s1" "stands_for s1 b1"
      using takes [OF Cons.prems(1) Inr] Cons.prems(3,4) by auto
    have "crowd b1 + length evs < 2 ^ 64" using crowd_step [OF Inr] Cons.prems(4) by simp
    from Cons.IH [OF s1(2) _ _ this] Cons.prems(2,3) Inr s1(1) show ?thesis by auto
  qed
qed simp

lemma takes_only:
  assumes "stands_for s ([], None)" "put_all put evs s = Inr s'" "list_all event_ok evs" "length evs < 2 ^ 64"
  shows "\<exists>b. put_all put_event evs ([], None) = Inr b \<and> stands_for s' b"
proof (cases "put_all put_event evs ([], None)")
  case (Inl x)
  with refuses_all [OF assms(1) Inl] assms show ?thesis by (simp add: crowd_def)
next
  case (Inr b)
  with takes_all [OF assms(1) Inr] assms show ?thesis by (auto simp: crowd_def)
qed

end

section \<open>Building a tree from events\<close>

text \<open>\<open>TreeSink\<close>: its stack of open containers (the head is the innermost) and the finished
  value. The seeds its wide maps hash under are an argument.\<close>

datatype tree_open = TList "Value list" | TMap filling str bool

record tree_sink =
  ts_open :: "tree_open list"
  ts_done :: "Value option"

definition tree_sink_new :: tree_sink where
  "tree_sink_new = \<lparr>ts_open = [], ts_done = None\<rparr>"

definition tree_ready :: "tree_sink \<Rightarrow> value_error + unit" where
  "tree_ready s =
     (case ts_open s of
        [] \<Rightarrow> if ts_done s \<noteq> None then Inl WrongKind else Inr ()
      | TMap m key keyed # _ \<Rightarrow> if keyed then Inr () else Inl WrongKind
      | TList _ # _ \<Rightarrow> Inr ())"

definition tree_place :: "u64 \<times> u64 \<Rightarrow> Value \<Rightarrow> tree_sink \<Rightarrow> value_error + tree_sink" where
  "tree_place drawn value s =
     (case ts_open s of
        [] \<Rightarrow> if ts_done s \<noteq> None then Inl WrongKind else Inr (s\<lparr>ts_done := Some value\<rparr>)
      | TList list # rest \<Rightarrow> Inr (s\<lparr>ts_open := TList (list @ [value]) # rest\<rparr>)
      | TMap m key keyed # rest \<Rightarrow>
          if \<not> keyed then Inl WrongKind
          else Inr (s\<lparr>ts_open := TMap (filling_set drawn m key value) key False # rest\<rparr>))"

definition tree_leaf ::
  "u64 \<times> u64 \<Rightarrow> value_error + Value \<Rightarrow> tree_sink \<Rightarrow> value_error + tree_sink" where
  "tree_leaf drawn value s = and_then (tree_ready s) (\<lambda>_. and_then value (\<lambda>v. tree_place drawn v s))"

definition tree_open_list :: "nat option \<Rightarrow> tree_sink \<Rightarrow> value_error + tree_sink" where
  "tree_open_list len s =
     and_then (tree_ready s) (\<lambda>_. Inr (s\<lparr>ts_open := TList [] # ts_open s\<rparr>))"

definition tree_list_end :: "u64 \<times> u64 \<Rightarrow> tree_sink \<Rightarrow> value_error + tree_sink" where
  "tree_list_end drawn s =
     (case ts_open s of
        TList list # rest \<Rightarrow> tree_place drawn (VList list) (s\<lparr>ts_open := rest\<rparr>)
      | _ \<Rightarrow> Inl WrongKind)"

definition tree_open_map :: "nat option \<Rightarrow> tree_sink \<Rightarrow> value_error + tree_sink" where
  "tree_open_map len s =
     and_then (tree_ready s) (\<lambda>_.
       Inr (s\<lparr>ts_open := TMap (with_room [] (case len of None \<Rightarrow> 0 | Some n \<Rightarrow> n)) [] False # ts_open s\<rparr>))"

definition tree_key :: "str \<Rightarrow> tree_sink \<Rightarrow> value_error + tree_sink" where
  "tree_key x s =
     (case ts_open s of
        TMap m key keyed # rest \<Rightarrow>
          if \<not> keyed then Inr (s\<lparr>ts_open := TMap m x True # rest\<rparr>) else Inl WrongKind
      | _ \<Rightarrow> Inl WrongKind)"

definition tree_map_end :: "u64 \<times> u64 \<Rightarrow> tree_sink \<Rightarrow> value_error + tree_sink" where
  "tree_map_end drawn s =
     (case ts_open s of
        TMap m key keyed # rest \<Rightarrow>
          if \<not> keyed then tree_place drawn (VMap (fentries m)) (s\<lparr>ts_open := rest\<rparr>) else Inl WrongKind
      | _ \<Rightarrow> Inl WrongKind)"

fun tree_put :: "u64 \<times> u64 \<Rightarrow> event \<Rightarrow> tree_sink \<Rightarrow> value_error + tree_sink" where
  "tree_put drawn EAbsent s = tree_leaf drawn (Inr VAbsent) s"
| "tree_put drawn ENull s = tree_leaf drawn (Inr VNull) s"
| "tree_put drawn (EBool b) s = tree_leaf drawn (Inr (VBool b)) s"
| "tree_put drawn (ENumber t) s = tree_leaf drawn (and_then (number_new t) (\<lambda>n. Inr (VNumber n))) s"
| "tree_put drawn (EString t) s = tree_leaf drawn (Inr (VString t)) s"
| "tree_put drawn (EBytes b) s = tree_leaf drawn (Inr (VBytes b)) s"
| "tree_put drawn (EListBegin len) s = tree_open_list len s"
| "tree_put drawn EListEnd s = tree_list_end drawn s"
| "tree_put drawn (EMapBegin len) s = tree_open_map len s"
| "tree_put drawn (EKey k) s = tree_key k s"
| "tree_put drawn EMapEnd s = tree_map_end drawn s"

definition into_value :: "tree_sink \<Rightarrow> value_error + Value" where
  "into_value s =
     (case (ts_open s = [], ts_done s) of (True, Some v) \<Rightarrow> Inr v | _ \<Rightarrow> Inl WrongKind)"

text \<open>The tree the sink builds is the one the machine builds.\<close>

fun same_part :: "tree_open \<Rightarrow> part \<Rightarrow> bool" where
  "same_part (TList xs) (PList vs pr) = (xs = vs)"
| "same_part (TMap m k keyed) (PMap es key pr) =
     (filling_ok m \<and> fentries m = es \<and> key = (if keyed then Some k else None) \<and>
      (\<forall>x. key = Some x \<longrightarrow> x \<notin> fst ` set es))"
| "same_part _ _ = False"

definition tree_stands :: "tree_sink \<Rightarrow> building \<Rightarrow> bool" where
  "tree_stands s b \<longleftrightarrow> list_all2 same_part (ts_open s) (fst b) \<and> ts_done s = snd b"

lemma same_part_PList [simp]: "same_part t (PList vs pr) \<longleftrightarrow> t = TList vs"
  by (cases t) auto

lemma same_part_PMap:
  "same_part t (PMap es key pr) \<longleftrightarrow>
     (\<exists>m k. t = TMap m k (key \<noteq> None) \<and> filling_ok m \<and> fentries m = es \<and>
        (\<forall>x. key = Some x \<longrightarrow> x = k \<and> x \<notin> fst ` set es))"
  by (cases t) auto

lemma tree_ready_ok: "tree_stands s b \<Longrightarrow> may_put b \<Longrightarrow> tree_ready s = Inr ()"
  by (cases b rule: may_put.cases)
     (auto simp: tree_stands_def tree_ready_def list_all2_Cons2 same_part_PMap)

lemma tree_place_ok:
  assumes "tree_stands s b" "may_put b"
  shows "\<exists>s'. tree_place drawn x s = Inr s' \<and> tree_stands s' (put_value x b)"
proof (cases b rule: may_put.cases)
  case (1 v)
  then show ?thesis using assms by (auto simp: tree_stands_def tree_place_def)
next
  case (2 vs pr ps v)
  then show ?thesis using assms by (auto simp: tree_stands_def tree_place_def list_all2_Cons2)
next
  case (3 es key pr ps v)
  then obtain m k rest where k: "key = Some k" "ts_open s = TMap m k True # rest" "filling_ok m"
    "fentries m = es" "k \<notin> fst ` set es" "list_all2 same_part rest ps" "ts_done s = v"
    using assms by (auto simp: tree_stands_def list_all2_Cons2 same_part_PMap)
  have "map_set es k x = es @ [(k, x)]"
    using k(5) by (simp add: map_set_def insert_node_def position_None [symmetric])
  then show ?thesis using 3 k filling_set_spec [OF k(3), of drawn k x]
    by (auto simp: tree_place_def tree_stands_def same_part_PMap)
qed

lemma tree_stands_pop:
  "tree_stands s (p # ps, v) \<Longrightarrow> \<exists>t rest. ts_open s = t # rest \<and> same_part t p \<and> tree_stands (s\<lparr>ts_open := rest\<rparr>) (ps, v)"
  by (auto simp: tree_stands_def list_all2_Cons2)

lemma tree_leaf_ok:
  "tree_stands s b \<Longrightarrow> put_leaf x b = Inr b' \<Longrightarrow>
   \<exists>s'. tree_leaf drawn (Inr x) s = Inr s' \<and> tree_stands s' b'"
  using tree_ready_ok [of s b] tree_place_ok [of s b drawn x]
  by (auto simp: tree_leaf_def put_leaf_def split: if_splits)

lemma tree_close_ok:
  assumes "spelt (p # ps, v) evs" "tree_stands s (p # ps, v)"
  shows "\<exists>t rest. ts_open s = t # rest \<and> same_part t p \<and>
    (\<exists>s'. tree_place drawn x (s\<lparr>ts_open := rest\<rparr>) = Inr s' \<and> tree_stands s' (put_value x (ps, v)))"
proof -
  have "may_put (ps, v)" using assms(1) by auto
  with tree_stands_pop [OF assms(2)] tree_place_ok show ?thesis by blast
qed

text \<open>The sink stands for a state the machine can reach.\<close>

definition tree_follows :: "tree_sink \<Rightarrow> building \<Rightarrow> bool" where
  "tree_follows s b \<longleftrightarrow> tree_stands s b \<and> (\<exists>evs. spelt b evs)"

lemma tree_takes:
  assumes s: "tree_stands s b" "spelt b evs" and e: "put_event e b = Inr b'"
  shows "\<exists>s'. tree_put drawn e s = Inr s' \<and> tree_stands s' b'"
proof (cases e)
  case (ENumber t)
  with e s show ?thesis
    by (auto simp: is_number_def number_new_def split: if_splits sum.splits intro: tree_leaf_ok)
next
  case (EListBegin len)
  with e s tree_ready_ok [OF s(1)] show ?thesis
    by (auto simp: put_open_def tree_open_list_def tree_stands_def split: if_splits)
next
  case (EMapBegin len)
  with e s tree_ready_ok [OF s(1)] show ?thesis
    by (auto simp: put_open_def tree_open_map_def tree_stands_def with_room_def same_part_PMap
        filling_ok_def split: if_splits)
next
  case EListEnd
  with e obtain vs pr ps v where b: "b = (PList vs pr # ps, v)" "b' = put_value (VList vs) (ps, v)"
    by (auto split: prod.splits list.splits part.splits if_splits)
  with tree_close_ok [of "PList vs pr" ps v evs s drawn "VList vs"] s EListEnd show ?thesis
    by (auto simp: tree_list_end_def)
next
  case EMapEnd
  with e obtain es pr ps v where b: "b = (PMap es None pr # ps, v)" "b' = put_value (VMap es) (ps, v)"
    by (auto split: prod.splits list.splits part.splits option.splits if_splits)
  with tree_close_ok [of "PMap es None pr" ps v evs s drawn "VMap es"] s EMapEnd show ?thesis
    by (auto simp: tree_map_end_def same_part_PMap)
next
  case (EKey k)
  with e obtain es pr ps v where b: "b = (PMap es None pr # ps, v)" "k \<notin> fst ` set es"
    "b' = (PMap es (Some k) pr # ps, v)"
    by (auto split: prod.splits list.splits part.splits option.splits if_splits)
  with s EKey show ?thesis
    by (auto simp: tree_key_def tree_stands_def list_all2_Cons2 same_part_PMap)
qed (use e s in \<open>auto intro: tree_leaf_ok\<close>)

interpretation tree: sink "tree_put drawn" tree_follows for drawn
proof
  fix s b e b'
  assume "tree_follows s b" and e: "put_event e b = Inr b'"
  then obtain evs where s: "tree_stands s b" "spelt b evs" by (auto simp: tree_follows_def)
  from tree_takes [OF s e] spelt_step [OF s(2) e]
  show "\<exists>s'. tree_put drawn e s = Inr s' \<and> tree_follows s' b'"
    unfolding tree_follows_def by blast
qed

lemma tree_new_follows [simp]: "tree_follows tree_sink_new ([], None)"
  by (auto simp: tree_follows_def tree_stands_def tree_sink_new_def intro: exI [of _ "[]"])

lemma tree_follows_value: "tree_follows s ([], Some v) \<Longrightarrow> into_value s = Inr v"
  by (simp add: tree_follows_def tree_stands_def into_value_def)

section \<open>Properties\<close>

text \<open>the machine reads exactly the sequences of the grammar: an event sequence describes a
  value when it spells it, containers bracketed, keys before their values and not repeated,
  and every promised count kept.\<close>

theorem events_describe_what_they_spell: "described evs = Some v \<longleftrightarrow> spells evs v"
  by (rule described_iff)

text \<open>\<open>TreeSink\<close> builds the value its events spell, whatever seeds its wide maps hash under and
  whatever counts were promised.\<close>

theorem tree_sink_builds_what_is_spelt:
  assumes "spells evs v" "list_all event_ok evs" "length evs < 2 ^ 64"
  shows "and_then (put_all (tree_put drawn) evs tree_sink_new) into_value = Inr v"
  using tree.takes_spelling [OF tree_new_follows assms, of drawn] tree_follows_value by auto

theorem tree_sink_builds_what_is_spelt_witness:
  "and_then (put_all (tree_put (7, 0)) [EMapBegin None, EKey ''a'', EListBegin (Some 1), ENull, EListEnd, EMapEnd]
     tree_sink_new) into_value = Inr (VMap [(''a'', VList [VNull])])"
proof -
  have l: "spells [EListBegin (Some 1), ENull, EListEnd] (VList [VNull])"
    using spells.List [of "[[ENull]]" "[VNull]" "Some 1"] by (simp add: spells.Null)
  have "spells [EMapBegin None, EKey ''a'', EListBegin (Some 1), ENull, EListEnd, EMapEnd]
      (VMap [(''a'', VList [VNull])])"
    using spells.Map [of "[[EListBegin (Some 1), ENull, EListEnd]]" "[(''a'', VList [VNull])]" None] l by simp
  then show ?thesis
    by (rule tree_sink_builds_what_is_spelt) (simp_all add: ascii_is_text ascii_def)
qed

text \<open>a walk succeeds only on a tree every door accepts and nested within the bound, whatever
  the sink.\<close>

theorem only_readable_trees_walk:
  assumes "walk_value put v s = Inr s'"
  shows "readable v \<and> nesting v \<le> MAX_DEPTH"
  using walk_deep_Inr [of put 0 v s s'] assms by (simp add: walk_value_def)

theorem only_readable_trees_walk_witness: "readable (VList [VNull]) \<and> nesting (VList [VNull]) \<le> MAX_DEPTH"
proof -
  have "walk_value (\<lambda>e n. Inr (Suc n)) (VList [VNull]) (0::nat) = Inr 3"
    by (simp add: walk_value_def walk_deep.simps [of _ "0"] walk_deep.simps [of _ "Suc 0"] walk_list_def
        walk_room_def MAX_DEPTH_def)
  then show ?thesis by (rule only_readable_trees_walk)
qed

end
