(* ===== verification/Wire.thy ===== *)
theory Wire
  imports Maps
begin

text \<open>
  The wire encoding of \<open>value/wire/mod.rs\<close>: unsigned LEB128 lengths, the encoder and
  the size it needs, the reader, and the decoder, each as the source's loop over an
  explicit stack (the head of the list is the top). Offsets are \<open>nat\<close>, as a \<open>usize\<close> that
  indexes a slice; lengths on the wire are 64-bit words. The seeds under which a wide
  map's keys are hashed are an argument of the decoder.
\<close>

section \<open>Lengths\<close>

lemma unat_drop_bit_7: "unat (drop_bit 7 (n::u64)) = unat n div 128"
  by (simp add: drop_bit_eq_div unat_div)

lemma drop_bit_7_less: "drop_bit 7 (n::u64) \<noteq> 0 \<Longrightarrow> unat (drop_bit 7 n) < unat n"
proof -
  assume "drop_bit 7 n \<noteq> 0"
  then have "unat n div 128 \<noteq> 0" by (metis unat_drop_bit_7 unat_eq_zero)
  then have "0 < unat n" by (cases "unat n") auto
  then show ?thesis by (simp add: unat_drop_bit_7)
qed

function put_len :: "u8 list \<Rightarrow> u64 \<Rightarrow> u8 list" where
  "put_len out n =
     (let byte = ucast (n AND 0x7f) :: u8; n' = drop_bit 7 n
      in if n' = 0 then out @ [byte] else put_len (out @ [byte OR 0x80]) n')"
  by pat_completeness auto
termination
  by (relation "measure (\<lambda>(out, n). unat n)") (auto simp: drop_bit_7_less)

declare put_len.simps [simp del]

text \<open>The loop of \<open>len_size\<close>, with the size reached so far.\<close>

function len_size_from :: "nat \<Rightarrow> u64 \<Rightarrow> nat" where
  "len_size_from k n = (if n \<ge> 0x80 then len_size_from (k + 1) (drop_bit 7 n) else k)"
  by pat_completeness auto
termination
proof (relation "measure (\<lambda>(s, n). unat n)")
  fix k and n :: u64
  assume "n \<ge> 0x80"
  then have "128 \<le> unat n" by (simp add: word_le_nat_alt)
  then show "((k + 1, drop_bit 7 n), (k, n)) \<in> measure (\<lambda>(s, n). unat n)"
    by (simp add: unat_drop_bit_7)
qed simp

declare len_size_from.simps [simp del]

definition len_size :: "u64 \<Rightarrow> nat" where
  "len_size n = len_size_from 1 n"

section \<open>Encoding\<close>

datatype iter = Items "Value list" | Entries map_entries

text \<open>\<open>node_into\<close>: the bytes with one node's tag and body appended, and what a container
  leaves to write.\<close>

definition put_text :: "u8 list \<Rightarrow> u8 list \<Rightarrow> u8 list" where
  "put_text out body = put_len out (word_of_nat (length body)) @ body"

definition node_into :: "Value \<Rightarrow> u8 list \<Rightarrow> value_error + (u8 list \<times> iter option)" where
  "node_into node out0 =
     and_then (tag_of node) (\<lambda>t.
     let out = out0 @ [word_of_nat (tag_u32 t)] in
     case t of
       GUATIAO_ABSENT \<Rightarrow> Inr (out, None)
     | GUATIAO_NULL \<Rightarrow> Inr (out, None)
     | GUATIAO_BOOL \<Rightarrow>
         and_then (ok_or WrongKind (as_bool node)) (\<lambda>b. Inr (out @ [if b then 1 else 0], None))
     | GUATIAO_NUMBER \<Rightarrow>
         and_then (ok_or NotANumber (as_number node)) (\<lambda>n. Inr (put_text out (as_bytes n), None))
     | GUATIAO_STRING \<Rightarrow>
         and_then (ok_or NotUtf8 (as_text node)) (\<lambda>s. Inr (put_text out (as_bytes s), None))
     | GUATIAO_BYTES \<Rightarrow>
         and_then (ok_or WrongKind (as_buffer node)) (\<lambda>b. Inr (put_text out b, None))
     | GUATIAO_LIST \<Rightarrow>
         and_then (ok_or WrongKind (as_list node))
           (\<lambda>l. Inr (put_len out (word_of_nat (length l)), Some (Items l)))
     | GUATIAO_MAP \<Rightarrow>
         and_then (ok_or NotUtf8 (as_map node))
           (\<lambda>m. Inr (put_len out (word_of_nat (length m)), Some (Entries m))))"

text \<open>The first half of an iteration of \<open>encode\<close>: write the pending node, if any, and open
  it when it is a container.\<close>

definition write_next ::
  "iter list \<Rightarrow> Value option \<Rightarrow> u8 list \<Rightarrow> value_error + (iter list \<times> u8 list)" where
  "write_next stack next out =
     (case next of
        None \<Rightarrow> Inr (stack, out)
      | Some node \<Rightarrow>
          and_then (node_into node out) (\<lambda>(out', opened).
            Inr (case opened of None \<Rightarrow> stack | Some l \<Rightarrow> l # stack, out')))"

fun iter_weight :: "iter \<Rightarrow> nat" where
  "iter_weight (Items xs) = 1 + sum_list (map weight xs)"
| "iter_weight (Entries es) = 1 + sum_list (map (\<lambda>e. weight (snd e)) es)"

definition next_weight :: "Value option \<Rightarrow> nat" where
  "next_weight next = (case next of None \<Rightarrow> 0 | Some v \<Rightarrow> weight v)"

lemma node_into_weight:
  "node_into v out = Inr (out', Some l) \<Longrightarrow> iter_weight l < weight v"
  by (cases v) (auto simp: node_into_def result_simps Let_def split: if_splits)

lemma write_next_weight:
  "write_next stack next out = Inr (stack', out') \<Longrightarrow>
   sum_list (map iter_weight stack') \<le> next_weight next + sum_list (map iter_weight stack) \<and>
   (next \<noteq> None \<longrightarrow> sum_list (map iter_weight stack') < next_weight next + sum_list (map iter_weight stack))"
  by (auto simp: write_next_def next_weight_def result_simps dest!: node_into_weight
      split: option.splits)

function encode_loop :: "iter list \<Rightarrow> Value option \<Rightarrow> u8 list \<Rightarrow> value_error + u8 list" where
  "encode_loop stack next out =
     (case write_next stack next out of
        Inl e \<Rightarrow> Inl e
      | Inr ([], out') \<Rightarrow> Inr out'
      | Inr (Items [] # st, out') \<Rightarrow> encode_loop st None out'
      | Inr (Items (item # items) # st, out') \<Rightarrow> encode_loop (Items items # st) (Some item) out'
      | Inr (Entries [] # st, out') \<Rightarrow> encode_loop st None out'
      | Inr (Entries (entry # entries) # st, out') \<Rightarrow>
          encode_loop (Entries entries # st) (Some (snd entry))
            (put_text out' (as_bytes (fst entry))))"
  by pat_completeness auto
termination
  by (relation "measures [\<lambda>(st, next, out). next_weight next + sum_list (map iter_weight st),
        \<lambda>(st, next, out). case next of None \<Rightarrow> 1 | Some _ \<Rightarrow> 0]")
     (auto dest!: write_next_weight simp: next_weight_def split: option.splits)

declare encode_loop.simps [simp del]

definition encode :: "Value \<Rightarrow> u8 list \<Rightarrow> value_error + u8 list" where
  "encode v out = encode_loop [] (Some v) out"

definition to_bytes :: "Value \<Rightarrow> value_error + u8 list" where
  "to_bytes v = encode v []"

text \<open>\<open>encoded_len\<close>: one node's own bytes, and the nodes it pushes.\<close>

definition text_size :: "nat \<Rightarrow> nat" where
  "text_size n = len_size (word_of_nat n) + n"

definition node_len :: "Value \<Rightarrow> value_error + (nat \<times> Value list)" where
  "node_len node =
     and_then (tag_of node) (\<lambda>t.
     case t of
       GUATIAO_ABSENT \<Rightarrow> Inr (1, [])
     | GUATIAO_NULL \<Rightarrow> Inr (1, [])
     | GUATIAO_BOOL \<Rightarrow> Inr (2, [])
     | GUATIAO_NUMBER \<Rightarrow>
         and_then (ok_or NotANumber (as_number node)) (\<lambda>n. Inr (1 + text_size (length n), []))
     | GUATIAO_STRING \<Rightarrow>
         and_then (ok_or NotUtf8 (as_text node)) (\<lambda>s. Inr (1 + text_size (length s), []))
     | GUATIAO_BYTES \<Rightarrow>
         and_then (ok_or WrongKind (as_buffer node)) (\<lambda>b. Inr (1 + text_size (length b), []))
     | GUATIAO_LIST \<Rightarrow>
         and_then (ok_or WrongKind (as_list node))
           (\<lambda>l. Inr (1 + len_size (word_of_nat (length l)), l))
     | GUATIAO_MAP \<Rightarrow>
         and_then (ok_or NotUtf8 (as_map node))
           (\<lambda>m. Inr (1 + len_size (word_of_nat (length m)) +
                     sum_list (map (\<lambda>e. text_size (length (fst e))) m), map snd m)))"

lemma node_len_weight: "node_len v = Inr (n, l) \<Longrightarrow> sum_list (map weight l) < weight v"
  by (cases v) (auto simp: node_len_def result_simps comp_def split: if_splits)

text \<open>\<open>stack.extend\<close> and \<open>stack.push\<close> leave the last child on top.\<close>

function encoded_len_loop :: "Value list \<Rightarrow> nat \<Rightarrow> value_error + nat" where
  "encoded_len_loop [] n = Inr n"
| "encoded_len_loop (node # stack) n =
     and_then (node_len node) (\<lambda>r. encoded_len_loop (rev (snd r) @ stack) (n + fst r))"
  by pat_completeness auto
termination
  by (relation "measure (\<lambda>(st, n). sum_list (map weight st))")
     (auto simp: rev_map [symmetric] sum_list_rev dest: node_len_weight)

definition encoded_len :: "Value \<Rightarrow> value_error + nat" where
  "encoded_len v = encoded_len_loop [v] 0"

section \<open>Reading\<close>

datatype wire_error =
    Truncated nat | UnknownWireTag nat u8 | Overlong nat | WireNotUtf8 nat | WireNotANumber nat
  | NotABool nat u8 | WireDuplicateKey nat | Trailing nat

record reader =
  rbytes :: "u8 list"
  rat :: nat
  rbase :: nat

definition offset :: "reader \<Rightarrow> nat" where
  "offset r = rbase r + rat r"

definition advance :: "nat \<Rightarrow> reader \<Rightarrow> reader" where
  "advance n r = r\<lparr>rat := rat r + n\<rparr>"

definition read_byte :: "reader \<Rightarrow> wire_error + (u8 \<times> reader)" where
  "read_byte r =
     (if rat r < length (rbytes r) then Inr (rbytes r ! rat r, advance 1 r)
      else Inl (Truncated (offset r)))"

lemma read_byte_less:
  "read_byte r = Inr (b, r') \<Longrightarrow> length (rbytes r') - rat r' < length (rbytes r) - rat r"
  by (auto simp: read_byte_def advance_def split: if_splits)

function leb_loop :: "nat \<Rightarrow> u64 \<Rightarrow> nat \<Rightarrow> reader \<Rightarrow> wire_error + (u64 \<times> reader)" where
  "leb_loop start n shift r =
     (case read_byte r of
        Inl e \<Rightarrow> Inl e
      | Inr (byte, r') \<Rightarrow>
          (let bits = ucast (byte AND 0x7f) :: u64 in
           if shift = 63 \<and> bits > 1 \<or> shift > 63 then Inl (Overlong start)
           else
             let n' = n OR push_bit shift bits in
             if byte AND 0x80 = 0 then
               if byte = 0 \<and> shift > 0 then Inl (Overlong start) else Inr (n', r')
             else leb_loop start n' (shift + 7) r'))"
  by pat_completeness auto
termination
  by (relation "measure (\<lambda>(st, n, sh, r). length (rbytes r) - rat r)") (auto dest: read_byte_less)

declare leb_loop.simps [simp del]

definition leb :: "reader \<Rightarrow> wire_error + (u64 \<times> reader)" where
  "leb r = leb_loop (offset r) 0 0 r"

definition read_len :: "reader \<Rightarrow> wire_error + (nat \<times> reader)" where
  "read_len r =
     and_then (leb r) (\<lambda>(n, r').
       if unat n > length (rbytes r') - rat r' then Inl (Truncated (offset r'))
       else Inr (unat n, r'))"

definition read_count :: "reader \<Rightarrow> wire_error + (u64 \<times> reader)" where
  "read_count r =
     and_then (leb r) (\<lambda>(n, r').
       if unat n > length (rbytes r') - rat r' then Inl (Truncated (offset r'))
       else Inr (n, r'))"

definition read_slice :: "reader \<Rightarrow> wire_error + (u8 list \<times> reader)" where
  "read_slice r =
     and_then (read_len r) (\<lambda>(n, r').
       Inr (take n (drop (rat r') (rbytes r')), advance n r'))"

definition read_text :: "reader \<Rightarrow> wire_error + (str \<times> reader)" where
  "read_text r =
     and_then (read_slice r) (\<lambda>(bs, r').
       and_then (ok_or (WireNotUtf8 (offset r)) (from_utf8 bs)) (\<lambda>s. Inr (s, r')))"

datatype rnode = NLeaf Value | NList u64 | NMap u64

definition read_node :: "reader \<Rightarrow> wire_error + (rnode \<times> reader)" where
  "read_node r =
     and_then (read_byte r) (\<lambda>(byte, r1).
     case tag_try_from (unat byte) of
       Inl _ \<Rightarrow> Inl (UnknownWireTag (offset r) byte)
     | Inr GUATIAO_ABSENT \<Rightarrow> Inr (NLeaf VAbsent, r1)
     | Inr GUATIAO_NULL \<Rightarrow> Inr (NLeaf VNull, r1)
     | Inr GUATIAO_BOOL \<Rightarrow>
         and_then (read_byte r1) (\<lambda>(b, r2).
           if b = 0 then Inr (NLeaf (VBool False), r2)
           else if b = 1 then Inr (NLeaf (VBool True), r2)
           else Inl (NotABool (offset r1) b))
     | Inr GUATIAO_NUMBER \<Rightarrow>
         and_then (read_text r1) (\<lambda>(s, r2).
           case number_new s of
             Inl _ \<Rightarrow> Inl (WireNotANumber (offset r1))
           | Inr n \<Rightarrow> Inr (NLeaf (VNumber n), r2))
     | Inr GUATIAO_STRING \<Rightarrow> and_then (read_text r1) (\<lambda>(s, r2). Inr (NLeaf (VString s), r2))
     | Inr GUATIAO_BYTES \<Rightarrow> and_then (read_slice r1) (\<lambda>(b, r2). Inr (NLeaf (VBytes b), r2))
     | Inr GUATIAO_LIST \<Rightarrow> and_then (read_count r1) (\<lambda>(n, r2). Inr (NList n, r2))
     | Inr GUATIAO_MAP \<Rightarrow> and_then (read_count r1) (\<lambda>(n, r2). Inr (NMap n, r2)))"

section \<open>Decoding\<close>

datatype frame =
    FList "Value list" u64
  | FMap map_entries u64 "(str \<times> nat) option" "u64 set option"

fun frame_left :: "frame \<Rightarrow> u64" where
  "frame_left (FList xs lft) = lft"
| "frame_left (FMap es lft key seen) = lft"

fun frame_into_value :: "frame \<Rightarrow> Value" where
  "frame_into_value (FList xs lft) = VList xs"
| "frame_into_value (FMap es lft key seen) = VMap es"

text \<open>Reading a map frame's next key, where there is one.\<close>

definition read_key :: "frame list \<Rightarrow> reader \<Rightarrow> wire_error + (frame list \<times> reader)" where
  "read_key stack r =
     (case stack of
        FMap es lft key seen # st \<Rightarrow>
          and_then (read_text r) (\<lambda>(k, r').
            Inr (FMap es lft (Some (k, offset r)) seen # st, r'))
      | _ \<Rightarrow> Inr (stack, r))"

text \<open>Reading a node: a leaf or an empty container is a value, any other container a new
  frame.\<close>

definition open_node ::
  "frame list \<Rightarrow> reader \<Rightarrow> wire_error + (frame list \<times> reader \<times> Value option)" where
  "open_node stack r =
     and_then (read_node r) (\<lambda>(nd, r').
       Inr (case nd of
              NLeaf v \<Rightarrow> (stack, r', Some v)
            | NList n \<Rightarrow>
                if n = 0 then (stack, r', Some (VList []))
                else (FList [] n # stack, r', None)
            | NMap n \<Rightarrow>
                if n = 0 then (stack, r', Some (VMap []))
                else (FMap [] n None (if unat n > LINEAR then Some {} else None) # stack, r', None)))"

definition next_value ::
  "frame list \<Rightarrow> reader \<Rightarrow> wire_error + (frame list \<times> reader \<times> Value option)" where
  "next_value stack r =
     (case stack of
        tp # st \<Rightarrow>
          if frame_left tp = 0 then Inr (st, r, Some (frame_into_value tp))
          else and_then (read_key stack r) (\<lambda>(stack', r'). open_node stack' r')
      | [] \<Rightarrow> open_node stack r)"

text \<open>A finished value goes to the answer or into the frame on top.\<close>

definition attach_value ::
  "u64 \<times> u64 \<Rightarrow> frame list \<Rightarrow> reader \<Rightarrow> Value \<Rightarrow> wire_error failure + (Value + frame list)" where
  "attach_value drawn stack r v =
     (case stack of
        [] \<Rightarrow>
          if rat r \<noteq> length (rbytes r) then Inl (Refused (Trailing (offset r))) else Inr (Inl v)
      | FList xs lft # st \<Rightarrow> Inr (Inr (FList (xs @ [v]) (lft - 1) # st))
      | FMap es lft key seen # st \<Rightarrow>
          (case key of
             None \<Rightarrow> Inl Panicked
           | Some (k, key_at) \<Rightarrow>
               (let h = hash_one drawn (as_bytes k);
                    repeated = (case seen of
                        Some s \<Rightarrow> h \<in> s \<and> contains_key es k
                      | None \<Rightarrow> contains_key es k);
                    seen' = map_option (insert h) seen
                in if repeated then Inl (Refused (WireDuplicateKey key_at))
                   else Inr (Inr (FMap (insert_node es k v) (lft - 1) None seen' # st)))))"

definition remaining :: "reader \<Rightarrow> nat" where
  "remaining r = length (rbytes r) - rat r"

lemma remaining_advance [simp]: "remaining (advance n r) = remaining r - n"
  by (simp add: remaining_def advance_def)

lemma read_byte_remaining: "read_byte r = Inr (b, r') \<Longrightarrow> remaining r' < remaining r"
  unfolding remaining_def by (rule read_byte_less)

lemma leb_loop_remaining:
  "leb_loop st n sh r = Inr (m, r') \<Longrightarrow> remaining r' < remaining r"
proof (induction st n sh r rule: leb_loop.induct)
  case (1 st n sh r)
  from "1.prems" obtain b r1 where b: "read_byte r = Inr (b, r1)"
    by (subst (asm) leb_loop.simps) (auto split: sum.splits)
  have lt: "remaining r1 < remaining r" using b by (rule read_byte_remaining)
  show ?case
  proof (cases "b AND 0x80 = 0")
    case True
    with "1.prems" b lt show ?thesis
      by (subst (asm) leb_loop.simps) (auto simp: Let_def split: if_splits)
  next
    case False
    let ?bits = "ucast (b AND 0x7f) :: u64"
    from "1.prems" b False have g: "\<not> (sh = 63 \<and> ?bits > 1 \<or> sh > 63)"
      and rec: "leb_loop st (n OR push_bit sh ?bits) (sh + 7) r1 = Inr (m, r')"
      by (subst (asm) leb_loop.simps, auto simp: Let_def split: if_splits)+
    have "remaining r' < remaining r1"
      using "1.IH" [OF b refl refl g refl False rec] .
    with lt show ?thesis by simp
  qed
qed

lemma reads_remaining:
  "read_byte r = Inr (b, r') \<Longrightarrow> remaining r' < remaining r"
  "read_len r = Inr (n, r') \<Longrightarrow> remaining r' < remaining r"
  "read_count r = Inr (c, r') \<Longrightarrow> remaining r' < remaining r"
  "read_slice r = Inr (bs, r') \<Longrightarrow> remaining r' < remaining r"
  "read_text r = Inr (s, r') \<Longrightarrow> remaining r' < remaining r"
proof -
  show len: "read_len r = Inr (n, r') \<Longrightarrow> remaining r' < remaining r" for n r'
    by (auto simp: read_len_def leb_def result_simps dest: leb_loop_remaining split: if_splits)
  show slice: "read_slice r = Inr (bs, r') \<Longrightarrow> remaining r' < remaining r" for bs r'
    by (auto simp: read_slice_def result_simps dest!: len)
  show "read_text r = Inr (s, r') \<Longrightarrow> remaining r' < remaining r"
    by (auto simp: read_text_def result_simps dest!: slice)
qed (auto simp: read_count_def leb_def result_simps
       dest: leb_loop_remaining read_byte_remaining split: if_splits)

lemma read_node_cases:
  assumes "read_node r = Inr (n, r')"
  obtains b r1 t where "read_byte r = Inr (b, r1)" "tag_try_from (unat b) = Inr t"
  using assms by (auto simp: read_node_def split: sum.splits)

lemma read_node_remaining:
  assumes "read_node r = Inr (n, r')"
  shows "remaining r' < remaining r"
proof -
  from assms obtain b r1 t where b: "read_byte r = Inr (b, r1)" "tag_try_from (unat b) = Inr t"
    by (rule read_node_cases)
  have "remaining r1 < remaining r" using b(1) by (rule read_byte_remaining)
  moreover from assms b have "remaining r' \<le> remaining r1"
    by (cases t) (auto simp: read_node_def dest!: reads_remaining
        split: if_splits sum.splits)
  ultimately show ?thesis by simp
qed

lemma open_node_remaining:
  "open_node stack r = Inr (stack', r', ov) \<Longrightarrow> remaining r' < remaining r"
  by (auto simp: open_node_def dest!: read_node_remaining
      split: rnode.splits if_splits)

lemma read_key_remaining:
  "read_key stack r = Inr (stack', r') \<Longrightarrow> remaining r' \<le> remaining r"
  by (auto simp: read_key_def dest!: reads_remaining split: list.splits frame.splits)

lemma next_value_measure:
  "next_value stack r = Inr (stack', r', ov) \<Longrightarrow>
   remaining r' < remaining r \<or> remaining r' = remaining r \<and> length stack' < length stack"
  by (auto simp: next_value_def dest!: open_node_remaining read_key_remaining
      split: list.splits if_splits)

lemma attach_value_length:
  "attach_value drawn stack r v = Inr (Inr stack') \<Longrightarrow> length stack' = length stack"
  by (auto simp: attach_value_def Let_def split: list.splits frame.splits option.splits if_splits)

function decode_loop :: "u64 \<times> u64 \<Rightarrow> frame list \<Rightarrow> reader \<Rightarrow> wire_error failure + Value" where
  "decode_loop drawn stack r =
     (case next_value stack r of
        Inl e \<Rightarrow> Inl (Refused e)
      | Inr (stack', r', None) \<Rightarrow> decode_loop drawn stack' r'
      | Inr (stack', r', Some v) \<Rightarrow>
          (case attach_value drawn stack' r' v of
             Inl e \<Rightarrow> Inl e
           | Inr (Inl answer) \<Rightarrow> Inr answer
           | Inr (Inr stack'') \<Rightarrow> decode_loop drawn stack'' r'))"
  by pat_completeness auto
termination
  by (relation "measures [\<lambda>(d, st, r). remaining r, \<lambda>(d, st, r). length st]")
     (auto dest!: next_value_measure attach_value_length)

declare decode_loop.simps [simp del]

definition decode_at :: "u64 \<times> u64 \<Rightarrow> u8 list \<Rightarrow> nat \<Rightarrow> wire_error failure + Value" where
  "decode_at drawn bytes base = decode_loop drawn [] \<lparr>rbytes = bytes, rat = 0, rbase = base\<rparr>"

definition decode :: "u64 \<times> u64 \<Rightarrow> u8 list \<Rightarrow> wire_error failure + Value" where
  "decode drawn bytes = decode_at drawn bytes 0"

end
