(* ===== verification/Wire_Laws.thy ===== *)
theory Wire_Laws
  imports Wire
begin

text \<open>
  What the wire encoding promises. A reader operation succeeds exactly where the bytes
  in front of it are the encoding of its answer (\<open>consumes\<close>); the encoder's loop writes
  the recursive encoding \<open>enc\<close> of every tree its doors accept; the decoder answers a
  tree exactly on the encoding of that tree, under any seeds.
\<close>

section \<open>LEB128\<close>

definition enc_len :: "u64 \<Rightarrow> u8 list" where
  "enc_len n = put_len [] n"

lemma put_len_append: "put_len out n = out @ enc_len n"
proof -
  have "put_len (a @ out) n = a @ put_len out n" for a out n
  proof (induction out n rule: put_len.induct)
    case (1 out n)
    show ?case
      using "1.IH" [OF refl refl] put_len.simps [of "a @ out" n] put_len.simps [of out n]
      by (simp add: Let_def)
  qed
  from this [of out "[]" n] show ?thesis by (simp add: enc_len_def)
qed

lemma enc_len_unfold:
  "enc_len n =
     (if drop_bit 7 n = 0 then [ucast (n AND 0x7f)]
      else (ucast (n AND 0x7f) OR 0x80) # enc_len (drop_bit 7 n))"
  using put_len.simps [of "[]" n]
  by (simp add: enc_len_def [symmetric] Let_def put_len_append [of "[_]"])

lemma enc_len_nonempty [simp]: "enc_len n \<noteq> []"
  by (subst enc_len_unfold) simp

lemma drop_bit_7_eq_0: "drop_bit 7 (n::u64) = 0 \<longleftrightarrow> n < 0x80"
proof -
  have "drop_bit 7 n = 0 \<longleftrightarrow> unat n div 128 = 0"
    by (metis unat_drop_bit_7 unat_eq_zero)
  also have "\<dots> \<longleftrightarrow> n < 0x80" by (simp add: word_less_nat_alt div_eq_0_iff)
  finally show ?thesis .
qed

lemma len_size_from_length: "Suc (len_size_from k n) = k + length (enc_len n)"
proof (induction k n rule: len_size_from.induct)
  case (1 k n)
  show ?case
  proof (cases "n \<ge> 0x80")
    case True
    then have "len_size_from k n = len_size_from (k + 1) (drop_bit 7 n)"
      by (subst len_size_from.simps) simp
    with True "1.IH" [OF True] show ?thesis
      by (simp add: enc_len_unfold [of n] drop_bit_7_eq_0 not_less)
  next
    case False
    then have "len_size_from k n = k" by (subst len_size_from.simps) simp
    with False show ?thesis by (simp add: enc_len_unfold [of n] drop_bit_7_eq_0)
  qed
qed

lemma len_size_length: "len_size n = length (enc_len n)"
  using len_size_from_length [of 1 n] by (simp add: len_size_def)

text \<open>A number that needs at most \<open>w\<close> bits.\<close>

definition fits_bits :: "nat \<Rightarrow> u64 \<Rightarrow> bool" where
  "fits_bits w m \<longleftrightarrow> (\<forall>k. bit m k \<longrightarrow> k < w)"

lemma fits_bits_64 [simp]: "fits_bits 64 m"
  using bit_imp_le_length by (fastforce simp: fits_bits_def)

lemma fits_bits_drop: "fits_bits w m \<Longrightarrow> fits_bits (w - 7) (drop_bit 7 m)"
  unfolding fits_bits_def by (metis add.commute bit_drop_bit_eq comp_apply less_diff_conv)

lemma bit_7f: "bit (0x7f::int) k \<longleftrightarrow> k < 7"
proof -
  have "(0x7f::int) = mask 7" by (simp add: mask_eq_exp_minus_1)
  then show ?thesis by (simp only: bit_mask_iff) simp
qed

lemma bit_80: "bit (0x80::int) k \<longleftrightarrow> k = 7"
proof -
  have "(0x80::int) = push_bit 7 1" by simp
  then show ?thesis by (simp only: bit_push_bit_iff) (auto simp: bit_1_iff)
qed

lemma low_byte [simp]:
  "ucast (ucast ((m::u64) AND 0x7f) AND (0x7f::u8)) = m AND 0x7f"
  "ucast ((ucast ((m::u64) AND 0x7f) OR (0x80::u8)) AND 0x7f) = m AND 0x7f"
  by (rule bit_word_eqI; auto simp: bit_and_iff bit_or_iff bit_unsigned_iff bit_7f bit_80)+

lemma high_bit [simp]:
  "ucast ((m::u64) AND 0x7f) AND (0x80::u8) = 0"
  "(ucast ((m::u64) AND 0x7f) OR (0x80::u8)) AND 0x80 \<noteq> 0"
proof -
  show "ucast (m AND 0x7f) AND (0x80::u8) = 0"
    by (rule bit_word_eqI) (auto simp: bit_and_iff bit_or_iff bit_unsigned_iff bit_7f bit_80)
  have "bit ((ucast (m AND 0x7f) OR (0x80::u8)) AND 0x80) 7"
    by (simp add: bit_and_iff bit_or_iff bit_80)
  then show "(ucast (m AND 0x7f) OR (0x80::u8)) AND 0x80 \<noteq> 0" by (metis bit_0_eq bot_apply bot_bool_def)
qed

lemma high_bit_iff: "(b::u8) AND 0x80 = 0 \<longleftrightarrow> \<not> bit b 7"
proof
  assume "b AND 0x80 = 0"
  then have "\<not> bit (b AND 0x80) 7" by (metis bit_0_eq bot_apply bot_bool_def)
  then show "\<not> bit b 7" by (simp add: bit_and_iff bit_80)
next
  assume "\<not> bit b 7"
  then show "b AND 0x80 = 0" by (intro bit_word_eqI) (auto simp: bit_and_iff bit_80)
qed

lemma byte_bits: "n < 8 \<Longrightarrow> n < 7 \<or> n = (7::nat)"
  by arith

lemma byte_join:
  "(b::u8) AND 0x80 = 0 \<Longrightarrow> ucast (ucast (b AND 0x7f) :: u64) = b"
  "(b::u8) AND 0x80 \<noteq> 0 \<Longrightarrow> ucast (ucast (b AND 0x7f) :: u64) OR 0x80 = b"
  unfolding high_bit_iff
  by (rule bit_word_eqI, use byte_bits in \<open>auto simp: bit_and_iff bit_or_iff bit_unsigned_iff bit_7f bit_80\<close>)+

lemma low_bits_fit: "bit (ucast ((b::u8) AND 0x7f) :: u64) k \<longleftrightarrow> k < 7 \<and> bit b k"
  by (auto simp: bit_and_iff bit_unsigned_iff bit_7f)

lemma join_drop:
  assumes "fits_bits 57 m'"
  shows "drop_bit 7 (ucast ((b::u8) AND 0x7f) OR push_bit 7 m') = m'"
    "(ucast (b AND 0x7f) OR push_bit 7 m') AND 0x7f = (ucast (b AND 0x7f) :: u64)"
  using assms
  by (auto intro!: bit_word_eqI simp: bit_drop_bit_eq bit_or_iff bit_push_bit_iff low_bits_fit
      bit_and_iff bit_7f fits_bits_def dest: bit_imp_le_length)

lemma split_low: "(m::u64) = (m AND 0x7f) OR push_bit 7 (drop_bit 7 m)"
proof (rule bit_word_eqI)
  fix k
  assume "k < LENGTH(64)"
  then show "bit m k = bit ((m AND 0x7f) OR push_bit 7 (drop_bit 7 m)) k"
    by (cases "k < 7") (simp_all add: bit_or_iff bit_and_iff bit_7f bit_push_bit_iff bit_drop_bit_eq)
qed

lemma small_low: "drop_bit 7 (m::u64) = 0 \<Longrightarrow> m AND 0x7f = m"
  by (subst (3) split_low) simp

lemma fits_bits_join:
  "fits_bits (w - 7) m' \<Longrightarrow> 7 \<le> w \<or> m' = 0 \<and> fits_bits w (ucast ((b::u8) AND 0x7f)) \<Longrightarrow>
   fits_bits w (ucast (b AND 0x7f) OR push_bit 7 m')"
  by (auto simp: fits_bits_def bit_or_iff bit_push_bit_iff low_bits_fit)

lemma fits_bits_1: "fits_bits 1 m \<longleftrightarrow> m \<le> 1"
proof
  assume f: "fits_bits 1 m"
  have "m = m AND 1"
    by (rule bit_word_eqI) (use f in \<open>auto simp: fits_bits_def bit_and_iff bit_1_iff\<close>)
  then show "m \<le> 1" by (metis word_and_le1)
next
  assume "m \<le> 1"
  then have "unat m = unat (0::u64) \<or> unat m = unat (1::u64)"
    by (simp add: word_le_nat_alt le_Suc_eq)
  then have "m = 0 \<or> m = 1" unfolding word_unat_eq_iff [symmetric] .
  then show "fits_bits 1 m" by (auto simp: fits_bits_def bit_1_iff)
qed

section \<open>What a reader consumes\<close>

definition rest :: "reader \<Rightarrow> u8 list" where
  "rest r = drop (rat r) (rbytes r)"

definition consumes :: "reader \<Rightarrow> u8 list \<Rightarrow> reader \<Rightarrow> bool" where
  "consumes r x r' \<longleftrightarrow> (\<exists>y. rest r = x @ y) \<and> r' = advance (length x) r"

lemma rest_advance [simp]: "rest (advance n r) = drop n (rest r)"
  by (simp add: rest_def advance_def add.commute)

lemma advance_advance [simp]: "advance m (advance n r) = advance (n + m) r"
  by (cases r) (simp add: advance_def)

lemma advance_0 [simp]: "advance 0 r = r"
  by (cases r) (simp add: advance_def)

lemma consumes_Nil [simp]: "consumes r [] r' \<longleftrightarrow> r' = r"
  by (simp add: consumes_def)

lemma consumes_append: "consumes r (x @ y) r' \<longleftrightarrow> (\<exists>r1. consumes r x r1 \<and> consumes r1 y r')"
  by (auto simp: consumes_def)

lemma consumes_Cons: "consumes r (b # y) r' \<longleftrightarrow> (\<exists>r1. consumes r [b] r1 \<and> consumes r1 y r')"
  using consumes_append [of r "[b]" y r'] by simp

lemma consumes_ConsI: "consumes r [b] r1 \<Longrightarrow> consumes r1 y r' \<Longrightarrow> consumes r (b # y) r'"
  using consumes_Cons by blast

lemma consumes_rest: "consumes r x r' \<Longrightarrow> rest r = x @ rest r'"
  by (auto simp: consumes_def)

lemma remaining_rest: "length (rbytes r) - rat r = length (rest r)"
  by (simp add: rest_def)

lemma read_byte_iff: "read_byte r = Inr (b, r') \<longleftrightarrow> consumes r [b] r'"
proof (cases "rat r < length (rbytes r)")
  case True
  then have "rest r = (rbytes r ! rat r) # rest (advance 1 r)"
    by (simp add: rest_def advance_def Cons_nth_drop_Suc)
  with True show ?thesis by (auto simp: read_byte_def consumes_def)
next
  case False
  then have "rest r = []" by (simp add: rest_def)
  with False show ?thesis by (simp add: read_byte_def consumes_def)
qed

lemma leb_loop_unfold:
  "leb_loop st n sh r = Inr (x, r') \<longleftrightarrow>
     (\<exists>b r1. consumes r [b] r1 \<and> \<not> (sh = 63 \<and> (ucast (b AND 0x7f) :: u64) > 1 \<or> sh > 63) \<and>
        (if b AND 0x80 = 0
         then \<not> (b = 0 \<and> sh > 0) \<and> x = n OR push_bit sh (ucast (b AND 0x7f)) \<and> r' = r1
         else leb_loop st (n OR push_bit sh (ucast (b AND 0x7f))) (sh + 7) r1 = Inr (x, r')))"
proof (cases "read_byte r")
  case (Inl e)
  then have "\<not> consumes r [b] r1" for b r1 using read_byte_iff [of r b r1] by simp
  with Inl show ?thesis by (simp add: leb_loop.simps [of st n sh r])
next
  case (Inr p)
  then obtain b r1 where b: "read_byte r = Inr (b, r1)" by (cases p) auto
  then have "consumes r [b'] r1' \<longleftrightarrow> b' = b \<and> r1' = r1" for b' r1'
    using read_byte_iff [of r b' r1'] by auto
  then show ?thesis
    by (simp add: leb_loop.simps [of st n sh r] b Let_def del: not_less split del: if_split cong: if_cong)
       (auto simp del: not_less)
qed

text \<open>The loop succeeds exactly on the minimal encoding of a number that still fits.\<close>

lemma leb_last:
  assumes "drop_bit 7 m = 0" "fits_bits (64 - sh) m" "7 dvd sh" "sh = 0 \<or> m \<noteq> 0"
    and "consumes r (enc_len m) r'"
  shows "leb_loop st n sh r = Inr (n OR push_bit sh m, r')"
proof -
  have m: "m AND 0x7f = m" using assms(1) by (rule small_low)
  have c: "consumes r [ucast (m AND 0x7f)] r'" using assms(1,5) by (simp add: enc_len_unfold [of m])
  have "sh \<le> 63" using assms(2,3,4) by (cases "sh = 0") (auto simp: fits_bits_def intro: bit_word_eqI)
  moreover have "sh = 63 \<Longrightarrow> m \<le> 1" using assms(2) fits_bits_1 [of m] by simp
  moreover have low: "ucast (ucast m AND (0x7f::u8)) = m" "ucast m AND (0x80::u8) = 0"
    using low_byte(1) [of m] high_bit(1) [of m] unfolding m by blast+
  moreover have "(ucast m :: u8) = 0 \<Longrightarrow> m = 0" using low(1) by simp
  ultimately show ?thesis
    using c assms(4) m
    by (subst leb_loop_unfold) (rule exI [of _ "ucast m"], rule exI [of _ r'], auto simp: not_less)
qed

lemma leb_more:
  assumes "drop_bit 7 m \<noteq> 0" "fits_bits (64 - sh) m" "7 dvd sh"
  shows "sh < 63" "fits_bits (64 - (sh + 7)) (drop_bit 7 m)"
proof -
  obtain k where k: "bit m (7 + k)"
    using assms(1) bit_eq_iff [of "drop_bit 7 m" 0] by (auto simp: bit_drop_bit_eq)
  then show "sh < 63" using assms(2) by (auto simp: fits_bits_def)
  show "fits_bits (64 - (sh + 7)) (drop_bit 7 m)"
    using fits_bits_drop [OF assms(2)] by simp
qed

lemma push_join: "push_bit sh ((m::u64) AND 0x7f) OR push_bit (sh + 7) (drop_bit 7 m) = push_bit sh m"
proof -
  have "push_bit sh m = push_bit sh ((m AND 0x7f) OR push_bit 7 (drop_bit 7 m))"
    using split_low [of m] by simp
  also have "\<dots> = push_bit sh (m AND 0x7f) OR push_bit (sh + 7) (drop_bit 7 m)"
    by (simp add: push_bit_or push_bit_push_bit)
  finally show ?thesis by simp
qed

lemma leb_loop_complete:
  "7 dvd sh \<Longrightarrow> fits_bits (64 - sh) m \<Longrightarrow> sh = 0 \<or> m \<noteq> 0 \<Longrightarrow> consumes r (enc_len m) r' \<Longrightarrow>
   leb_loop st n sh r = Inr (n OR push_bit sh m, r')"
proof (induction "unat m" arbitrary: m n sh r rule: less_induct)
  case less
  show ?case
  proof (cases "drop_bit 7 m = 0")
    case True
    then show ?thesis using less.prems by (intro leb_last)
  next
    case False
    let ?b = "ucast (m AND 0x7f) OR 0x80 :: u8"
    from less.prems(4) False obtain r1 where r1: "consumes r [?b] r1"
      and r': "consumes r1 (enc_len (drop_bit 7 m)) r'"
      by (subst (asm) enc_len_unfold) (auto simp: consumes_Cons [of r ?b "enc_len _"])
    have "leb_loop st (n OR push_bit sh (m AND 0x7f)) (sh + 7) r1 =
        Inr ((n OR push_bit sh (m AND 0x7f)) OR push_bit (sh + 7) (drop_bit 7 m), r')"
      using less.prems(1) leb_more [OF False less.prems(2,1)] False r'
      by (intro less.hyps) (auto simp: drop_bit_7_less)
    then have "leb_loop st (n OR push_bit sh (m AND 0x7f)) (sh + 7) r1 = Inr (n OR push_bit sh m, r')"
      by (simp only: or.assoc push_join)
    then show ?thesis
      using r1 leb_more(1) [OF False less.prems(2,1)]
      by (subst leb_loop_unfold) (rule exI [of _ ?b], rule exI [of _ r1], simp)
  qed
qed

lemma leb_loop_sound:
  "leb_loop st n sh r = Inr (x, r') \<Longrightarrow> 7 dvd sh \<Longrightarrow>
   \<exists>m. fits_bits (64 - sh) m \<and> (sh = 0 \<or> m \<noteq> 0) \<and> x = n OR push_bit sh m \<and> consumes r (enc_len m) r'"
proof (induction st n sh r rule: leb_loop.induct)
  case (1 st n sh r)
  from "1.prems"(1) obtain b r1 where b: "consumes r [b] r1"
    and g: "\<not> (sh = 63 \<and> (ucast (b AND 0x7f) :: u64) > 1 \<or> sh > 63)"
    and cont: "if b AND 0x80 = 0
         then \<not> (b = 0 \<and> sh > 0) \<and> x = n OR push_bit sh (ucast (b AND 0x7f)) \<and> r' = r1
         else leb_loop st (n OR push_bit sh (ucast (b AND 0x7f))) (sh + 7) r1 = Inr (x, r')"
    unfolding leb_loop_unfold [of st n sh r] by blast
  let ?m = "ucast (b AND 0x7f) :: u64"
  have sh: "sh < 63 \<and> sh \<le> 56 \<or> sh = 63 \<and> ?m \<le> 1" using g "1.prems"(2) by (auto simp: not_less elim!: dvdE)
  have fit: "fits_bits (64 - sh) ?m"
    using sh fits_bits_1 [of ?m] by (auto simp: fits_bits_def low_bits_fit)
  show ?case
  proof (cases "b AND 0x80 = 0")
    case True
    then have j: "ucast ?m = b" by (rule byte_join)
    have m: "?m AND 0x7f = ?m" "drop_bit 7 ?m = 0" using join_drop [of 0 b] by (auto simp: fits_bits_def)
    have "enc_len ?m = [b]" using m j by (simp add: enc_len_unfold [of ?m])
    moreover have "sh = 0 \<or> ?m \<noteq> 0" using True cont j by auto
    ultimately show ?thesis using True cont b fit by (intro exI [of _ ?m]) simp
  next
    case False
    then have rec: "leb_loop st (n OR push_bit sh ?m) (sh + 7) r1 = Inr (x, r')" using cont by simp
    have "\<exists>m'. fits_bits (64 - (sh + 7)) m' \<and> (sh + 7 = 0 \<or> m' \<noteq> 0) \<and>
        x = (n OR push_bit sh ?m) OR push_bit (sh + 7) m' \<and> consumes r1 (enc_len m') r'"
      using "1.IH" [OF b [folded read_byte_iff] refl refl g refl False rec] "1.prems"(2) by simp
    then obtain m' where f': "fits_bits (64 - (sh + 7)) m'" and n': "m' \<noteq> 0"
      and x: "x = (n OR push_bit sh ?m) OR push_bit (sh + 7) m'" and c: "consumes r1 (enc_len m') r'"
      by auto
    have f57: "fits_bits 57 m'" using f' by (auto simp: fits_bits_def)
    note jd = join_drop [OF f57, of b]
    have j: "ucast ?m OR 0x80 = b" using False by (rule byte_join)
    let ?j = "?m OR push_bit 7 m'"
    have e: "enc_len ?j = b # enc_len m'" using jd j n' by (simp add: enc_len_unfold [of ?j])
    have p: "x = n OR push_bit sh ?j" using x by (simp add: push_bit_or push_bit_push_bit or.assoc)
    have ff: "fits_bits (64 - sh) ?j"
    proof (rule fits_bits_join)
      show "fits_bits (64 - sh - 7) m'" using f' by simp
      show "7 \<le> 64 - sh \<or> m' = 0 \<and> fits_bits (64 - sh) ?m" using sh f' n'
        by (auto simp: fits_bits_def bit_eq_iff)
    qed
    have "?j \<noteq> 0" using jd(1) n' by (metis drop_bit_of_0)
    then show ?thesis using e p ff b c by (intro exI [of _ ?j]) (auto simp: consumes_Cons [of r b "enc_len m'"])
  qed
qed

lemma leb_iff: "leb r = Inr (n, r') \<longleftrightarrow> consumes r (enc_len n) r'"
  using leb_loop_complete [of 0 n r r' "offset r" 0] leb_loop_sound [of "offset r" 0 0 r n r']
  by (auto simp: leb_def)

definition enc_bytes :: "u8 list \<Rightarrow> u8 list" where
  "enc_bytes bs = enc_len (word_of_nat (length bs)) @ bs"

lemma put_text_eq: "put_text out bs = out @ enc_bytes bs"
  by (simp add: put_text_def enc_bytes_def put_len_append [of out])

lemma text_size_eq: "text_size (length bs) = length (enc_bytes bs)"
  by (simp add: text_size_def enc_bytes_def len_size_length)

lemma unat_word_of_nat_64: "n < 2 ^ 64 \<Longrightarrow> unat (word_of_nat n :: u64) = n"
  by (simp add: unsigned_of_nat take_bit_nat_eq_self)

lemma read_len_iff:
  "read_len r = Inr (n, r') \<longleftrightarrow>
     n < 2 ^ 64 \<and> n \<le> length (rest r') \<and> consumes r (enc_len (word_of_nat n)) r'"
proof
  assume "read_len r = Inr (n, r')"
  then obtain w where w: "leb r = Inr (w, r')" "n = unat w" "n \<le> length (rest r')"
    by (auto simp: read_len_def remaining_rest split: if_splits)
  then show "n < 2 ^ 64 \<and> n \<le> length (rest r') \<and> consumes r (enc_len (word_of_nat n)) r'"
    using unsigned_less [of w] by (simp add: leb_iff)
next
  assume n: "n < 2 ^ 64 \<and> n \<le> length (rest r') \<and> consumes r (enc_len (word_of_nat n)) r'"
  then have "leb r = Inr (word_of_nat n, r')" by (simp add: leb_iff)
  with n show "read_len r = Inr (n, r')"
    by (simp add: read_len_def remaining_rest unat_word_of_nat_64)
qed

lemma read_count_iff:
  "read_count r = Inr (n, r') \<longleftrightarrow> unat n \<le> length (rest r') \<and> consumes r (enc_len n) r'"
proof
  assume "read_count r = Inr (n, r')"
  then show "unat n \<le> length (rest r') \<and> consumes r (enc_len n) r'"
    by (auto simp: read_count_def remaining_rest leb_iff [symmetric] split: if_splits)
next
  assume n: "unat n \<le> length (rest r') \<and> consumes r (enc_len n) r'"
  then have "leb r = Inr (n, r')" by (simp add: leb_iff)
  with n show "read_count r = Inr (n, r')" by (simp add: read_count_def remaining_rest)
qed

lemma consumes_take: "consumes r x r' \<longleftrightarrow> length x \<le> length (rest r) \<and> x = take (length x) (rest r) \<and>
    r' = advance (length x) r"
  by (auto simp: consumes_def) (metis append_take_drop_id)

lemma read_slice_iff: "read_slice r = Inr (bs, r') \<longleftrightarrow> length bs < 2 ^ 64 \<and> consumes r (enc_bytes bs) r'"
proof
  assume "read_slice r = Inr (bs, r')"
  then obtain n r1 where n: "read_len r = Inr (n, r1)" "bs = take n (rest r1)" "r' = advance n r1"
    by (auto simp: read_slice_def rest_def)
  then have "consumes r1 bs r'" "length bs = n"
    by (auto simp: read_len_iff consumes_take)
  with n show "length bs < 2 ^ 64 \<and> consumes r (enc_bytes bs) r'"
    by (auto simp: read_len_iff enc_bytes_def consumes_append)
next
  assume a: "length bs < 2 ^ 64 \<and> consumes r (enc_bytes bs) r'"
  then obtain r1 where r1: "consumes r (enc_len (word_of_nat (length bs))) r1" "consumes r1 bs r'"
    by (auto simp: enc_bytes_def consumes_append)
  then have b: "length bs \<le> length (rest r1)" "take (length bs) (rest r1) = bs" "r' = advance (length bs) r1"
    by (auto simp: consumes_take)
  then have "read_len r = Inr (length bs, r1)" using a r1 by (simp add: read_len_iff)
  then show "read_slice r = Inr (bs, r')" using b by (simp add: read_slice_def rest_def)
qed

lemma read_text_iff:
  "read_text r = Inr (s, r') \<longleftrightarrow>
     is_text s \<and> length s < 2 ^ 64 \<and> consumes r (enc_bytes (as_bytes s)) r'"
proof
  assume "read_text r = Inr (s, r')"
  then obtain bs where "read_slice r = Inr (bs, r')" "from_utf8 bs = Some s"
    by (auto simp: read_text_def result_simps split: option.splits)
  then show "is_text s \<and> length s < 2 ^ 64 \<and> consumes r (enc_bytes (as_bytes s)) r'"
    by (simp add: read_slice_iff from_utf8_Some)
next
  assume s: "is_text s \<and> length s < 2 ^ 64 \<and> consumes r (enc_bytes (as_bytes s)) r'"
  then have "read_slice r = Inr (as_bytes s, r')" by (simp add: read_slice_iff)
  with s show "read_text r = Inr (s, r')"
    by (simp add: read_text_def from_utf8_def is_text_def)
qed

section \<open>Encoding is the recursive encoding\<close>

definition tag_byte :: "tag \<Rightarrow> u8" where
  "tag_byte t = word_of_nat (tag_u32 t)"

function enc :: "Value \<Rightarrow> u8 list" where
  "enc VAbsent = [tag_byte GUATIAO_ABSENT]"
| "enc VNull = [tag_byte GUATIAO_NULL]"
| "enc (VBool b) = [tag_byte GUATIAO_BOOL, if b then 1 else 0]"
| "enc (VNumber t) = tag_byte GUATIAO_NUMBER # enc_bytes (as_bytes t)"
| "enc (VString t) = tag_byte GUATIAO_STRING # enc_bytes (as_bytes t)"
| "enc (VBytes bs) = tag_byte GUATIAO_BYTES # enc_bytes bs"
| "enc (VList xs) =
     tag_byte GUATIAO_LIST # enc_len (word_of_nat (length xs)) @ concat (map enc xs)"
| "enc (VMap es) =
     tag_byte GUATIAO_MAP # enc_len (word_of_nat (length es)) @
       concat (map (\<lambda>e. enc_bytes (as_bytes (fst e)) @ enc (snd e)) es)"
| "enc (VUnknown k) = []"
  by pat_completeness auto
termination
  by (relation "measure size") (auto dest: size_list_member size_entry_member)

abbreviation wire_refusal :: "Value \<Rightarrow> value_error option" where
  "wire_refusal v \<equiv> refusal_with NotANumber v"

fun unless :: "'e option \<Rightarrow> 'e + 'a \<Rightarrow> 'e + 'a" where
  "unless (Some e) k = Inl e"
| "unless None k = k"

lemma encode_loop_None [simp]:
  "encode_loop [] None out = Inr out"
  "encode_loop (Items [] # st) None out = encode_loop st None out"
  "encode_loop (Items (x # xs) # st) None out = encode_loop (Items xs # st) (Some x) out"
  "encode_loop (Entries [] # st) None out = encode_loop st None out"
  "encode_loop (Entries (e # es) # st) None out =
     encode_loop (Entries es # st) (Some (snd e)) (out @ enc_bytes (as_bytes (fst e)))"
  by (subst encode_loop.simps, simp add: write_next_def put_text_eq)+

lemma encode_loop_leaf:
  "node_into v out = Inr (out', None) \<Longrightarrow> encode_loop st (Some v) out = encode_loop st None out'"
  "node_into v out = Inr (out', Some l) \<Longrightarrow> encode_loop st (Some v) out = encode_loop (l # st) None out'"
  "node_into v out = Inl e \<Longrightarrow> encode_loop st (Some v) out = Inl e"
  by (simp_all add: encode_loop.simps [of st] encode_loop.simps [of "l # st"] write_next_def)

lemma encode_items:
  assumes "\<And>x st out. x \<in> set xs \<Longrightarrow>
    encode_loop st (Some x) out = unless (wire_refusal x) (encode_loop st None (out @ enc x))"
  shows "encode_loop (Items xs # st) None out =
    unless (first_some (map (refusal_with NotANumber) xs)) (encode_loop st None (out @ concat (map enc xs)))"
  using assms
proof (induction xs arbitrary: out)
  case (Cons x xs)
  then show ?case by (cases "wire_refusal x") auto
qed simp

lemma encode_entries:
  assumes "\<And>e st out. e \<in> set es \<Longrightarrow>
    encode_loop st (Some (snd e)) out =
    unless (wire_refusal (snd e)) (encode_loop st None (out @ enc (snd e)))"
  shows "encode_loop (Entries es # st) None out =
    unless (first_some (map (\<lambda>e. refusal_with NotANumber (snd e)) es))
      (encode_loop st None (out @ concat (map (\<lambda>e. enc_bytes (as_bytes (fst e)) @ enc (snd e)) es)))"
  using assms
proof (induction es arbitrary: out)
  case (Cons e es)
  then show ?case by (cases "wire_refusal (snd e)") auto
qed simp

lemmas node_into_simps = node_into_def put_text_eq put_len_append [of "out @ _" for out] tag_byte_def Let_def

lemma encode_loop_eq:
  "encode_loop st (Some v) out = unless (wire_refusal v) (encode_loop st None (out @ enc v))"
proof (induction v arbitrary: st out rule: value_induct)
  case (List xs)
  have "encode_loop st (Some (VList xs)) out =
      encode_loop (Items xs # st) None (out @ tag_byte GUATIAO_LIST # enc_len (word_of_nat (length xs)))"
    by (rule encode_loop_leaf) (simp add: node_into_simps)
  also have "\<dots> = unless (wire_refusal (VList xs)) (encode_loop st None (out @ enc (VList xs)))"
    using List by (subst encode_items) auto
  finally show ?case .
next
  case (Map es)
  show ?case
  proof (cases "keys_are_text es")
    case True
    then have "encode_loop st (Some (VMap es)) out =
        encode_loop (Entries es # st) None (out @ tag_byte GUATIAO_MAP # enc_len (word_of_nat (length es)))"
      by (intro encode_loop_leaf) (simp add: node_into_simps)
    also have "\<dots> = unless (wire_refusal (VMap es)) (encode_loop st None (out @ enc (VMap es)))"
      using Map True by (subst encode_entries) auto
    finally show ?thesis .
  next
    case False
    then show ?thesis by (subst encode_loop_leaf(3)) (auto simp: node_into_simps)
  qed
next
  case (Unknown k)
  then show ?case by (subst encode_loop_leaf(3)) (auto simp: node_into_simps)
next
  case (Number t)
  then show ?case
    by (cases "is_number t") (simp_all add: encode_loop_leaf node_into_simps)
next
  case (String t)
  then show ?case
    by (cases "is_text t") (simp_all add: encode_loop_leaf node_into_simps)
qed (simp_all add: encode_loop_leaf node_into_simps)

lemma encode_eq: "encode v out = unless (wire_refusal v) (Inr (out @ enc v))"
  by (simp add: encode_def encode_loop_eq)

lemma node_len_Inr:
  assumes "node_len v = Inr (n, l)"
  shows "readable v \<longleftrightarrow> list_all readable l" "length (enc v) = n + sum_list (map (\<lambda>x. length (enc x)) l)"
proof -
  have t: "text_size (length t) = length (enc_bytes (as_bytes t))" for t
    using text_size_eq [of "as_bytes t"] by simp
  have "(readable v \<longleftrightarrow> list_all readable l) \<and> length (enc v) = n + sum_list (map (\<lambda>x. length (enc x)) l)"
    using assms
    by (cases v; auto simp: node_len_def result_simps t text_size_eq len_size_length length_concat
        comp_def list_all_iff sum_list_addf split: if_splits; fastforce)
  then show "readable v \<longleftrightarrow> list_all readable l" "length (enc v) = n + sum_list (map (\<lambda>x. length (enc x)) l)"
    by auto
qed

lemma node_len_Inl: "node_len v = Inl e \<Longrightarrow> \<not> readable v"
  by (cases v) (auto simp: node_len_def result_simps split: if_splits)

lemma encoded_len_loop_eq:
  "if list_all readable st then encoded_len_loop st n = Inr (n + sum_list (map (\<lambda>x. length (enc x)) st))
   else \<not> is_ok (encoded_len_loop st n)"
proof (induction st n rule: encoded_len_loop.induct)
  case (2 node stack n)
  show ?case
  proof (cases "node_len node")
    case (Inl e)
    then show ?thesis using node_len_Inl [OF Inl] by simp
  next
    case (Inr p)
    then obtain k l where k: "node_len node = Inr (k, l)" by (cases p) auto
    show ?thesis
      using "2.IH" [of "(k, l)"] k node_len_Inr [OF k]
      by (auto simp: rev_map [symmetric] sum_list_rev split: if_splits)
  qed
qed simp

lemma encoded_len_readable: "readable v \<Longrightarrow> encoded_len v = Inr (length (enc v))"
  using encoded_len_loop_eq [of "[v]" 0] by (simp add: encoded_len_def)

lemma encoded_len_refused: "\<not> readable v \<Longrightarrow> \<not> is_ok (encoded_len v)"
  using encoded_len_loop_eq [of "[v]" 0] by (simp add: encoded_len_def)

section \<open>Reading a node\<close>

lemma tag_byte_iff: "unat b = tag_u32 t \<longleftrightarrow> b = tag_byte t"
proof -
  have "tag_u32 t < 256" using tag_u32_less [of t] by (rule less_trans) simp
  then have "unat (tag_byte t) = tag_u32 t"
    by (simp add: tag_byte_def unsigned_of_nat take_bit_nat_eq_self)
  then show ?thesis by (metis word_unat_eq_iff)
qed

fun node_bytes :: "rnode \<Rightarrow> u8 list" where
  "node_bytes (NLeaf v) = enc v"
| "node_bytes (NList n) = tag_byte GUATIAO_LIST # enc_len n"
| "node_bytes (NMap n) = tag_byte GUATIAO_MAP # enc_len n"

text \<open>What a node says of the tree it was read from.\<close>

fun leaf_ok :: "Value \<Rightarrow> bool" where
  "leaf_ok (VNumber t) \<longleftrightarrow> is_number t \<and> is_text t \<and> length t < 2 ^ 64"
| "leaf_ok (VString t) \<longleftrightarrow> is_text t \<and> length t < 2 ^ 64"
| "leaf_ok (VBytes bs) \<longleftrightarrow> length bs < 2 ^ 64"
| "leaf_ok (VList xs) \<longleftrightarrow> False"
| "leaf_ok (VMap es) \<longleftrightarrow> False"
| "leaf_ok (VUnknown k) \<longleftrightarrow> False"
| "leaf_ok v \<longleftrightarrow> True"

fun node_ok :: "rnode \<Rightarrow> reader \<Rightarrow> bool" where
  "node_ok (NLeaf v) r \<longleftrightarrow> leaf_ok v"
| "node_ok (NList n) r \<longleftrightarrow> unat n \<le> length (rest r)"
| "node_ok (NMap n) r \<longleftrightarrow> unat n \<le> length (rest r)"

lemma read_node_sound:
  assumes "read_node r = Inr (nd, r')"
  shows "node_ok nd r' \<and> consumes r (node_bytes nd) r'"
proof -
  from assms obtain b r1 t where b: "read_byte r = Inr (b, r1)" and t: "tag_try_from (unat b) = Inr t"
    by (rule read_node_cases)
  have bt: "b = tag_byte t" using t by (simp add: tag_try_from_Inr tag_byte_iff)
  have c: "consumes r [tag_byte t] r1" using b bt by (simp add: read_byte_iff)
  show ?thesis
    using assms b t c
    by (cases t;
        auto simp: read_node_def read_byte_iff read_text_iff read_slice_iff read_count_iff number_new_def
          is_number_def split: sum.splits if_splits; blast intro: consumes_ConsI)
qed

lemma tag_byte_inject [simp]: "tag_byte t = tag_byte u \<longleftrightarrow> t = u"
proof -
  have "tag_byte t = tag_byte u \<longleftrightarrow> tag_u32 t = tag_u32 u" by (metis tag_byte_iff)
  also have "\<dots> \<longleftrightarrow> t = u" by (cases t; cases u) simp_all
  finally show ?thesis .
qed

lemma read_node_complete:
  assumes ok: "node_ok nd r'" and c: "consumes r (node_bytes nd) r'"
  shows "read_node r = Inr (nd, r')"
proof -
  have "\<exists>t x. node_bytes nd = tag_byte t # x"
    using ok by (cases nd) (auto elim!: leaf_ok.elims)
  then obtain t x where tx: "node_bytes nd = tag_byte t # x" by blast
  with c obtain r1 where b: "consumes r [tag_byte t] r1" and x: "consumes r1 x r'"
    using consumes_Cons [of r "tag_byte t" x r'] by auto
  note rd = b [folded read_byte_iff] read_node_def
  have tg: "tag_try_from (unat (tag_byte t)) = Inr t"
    using tag_byte_iff [of "tag_byte t" t] by (simp add: tag_try_from_Inr)
  have rt: "read_text r1 = Inr (s, r')" if "is_text s" "length s < 2 ^ 64" "x = enc_bytes (as_bytes s)" for s
    using that x by (simp add: read_text_iff)
  show ?thesis
  proof (cases nd)
    case (NLeaf v)
    show ?thesis
    proof (cases v)
      case (VBool f)
      then have "read_byte r1 = Inr (if f then 1 else 0, r')" using x tx NLeaf by (simp add: read_byte_iff)
      then show ?thesis using VBool NLeaf tx tg by (auto simp: rd)
    next
      case (VNumber s)
      then show ?thesis using NLeaf tx tg ok rt [of s]
        by (auto simp: rd number_new_def is_number_def result_simps split: sum.splits)
    next
      case (VString s)
      then show ?thesis using NLeaf tx tg ok rt [of s] by (auto simp: rd)
    next
      case (VBytes bs)
      then have "read_slice r1 = Inr (bs, r')" using NLeaf tx ok x by (simp add: read_slice_iff)
      then show ?thesis using VBytes NLeaf tx tg by (auto simp: rd)
    qed (use NLeaf tx tg ok x in \<open>auto simp: rd\<close>)
  next
    case (NList n)
    then have "read_count r1 = Inr (n, r')" using tx ok x by (simp add: read_count_iff)
    then show ?thesis using NList tx tg by (auto simp: rd)
  next
    case (NMap n)
    then have "read_count r1 = Inr (n, r')" using tx ok x by (simp add: read_count_iff)
    then show ?thesis using NMap tx tg by (auto simp: rd)
  qed
qed

section \<open>Decoding an encoding\<close>

text \<open>The trees the wire carries: what their doors accept, no key twice in a map, and every
  length within the 64 bits a length has on the wire.\<close>

function wire_ok :: "Value \<Rightarrow> bool" where
  "wire_ok (VList xs) \<longleftrightarrow> length xs < 2 ^ 64 \<and> list_all wire_ok xs"
| "wire_ok (VMap es) \<longleftrightarrow> length es < 2 ^ 64 \<and> distinct (map fst es) \<and>
     list_all (\<lambda>e. is_text (fst e) \<and> length (fst e) < 2 ^ 64 \<and> wire_ok (snd e)) es"
| "wire_ok (VUnknown k) \<longleftrightarrow> False"
| "wire_ok VAbsent \<longleftrightarrow> True"
| "wire_ok VNull \<longleftrightarrow> True"
| "wire_ok (VBool b) \<longleftrightarrow> True"
| "wire_ok (VNumber t) \<longleftrightarrow> is_number t \<and> length t < 2 ^ 64"
| "wire_ok (VString t) \<longleftrightarrow> is_text t \<and> length t < 2 ^ 64"
| "wire_ok (VBytes bs) \<longleftrightarrow> length bs < 2 ^ 64"
  by pat_completeness auto
termination
  by (relation "measure size") (auto dest: size_list_member size_entry_member)

lemma wire_ok_readable: "wire_ok v \<Longrightarrow> readable v"
proof (induction v rule: value_induct)
  case (Map es)
  then show ?case by (auto simp: list_all_iff keys_are_text_def)
qed (auto simp: list_all_iff)

lemma leaf_ok_wire_ok: "leaf_ok v \<Longrightarrow> wire_ok v"
  by (cases v) auto

lemma enc_nonempty: "readable v \<Longrightarrow> enc v \<noteq> []"
  by (cases v) auto

text \<open>The two halves of an iteration, named.\<close>

definition after_value :: "u64 \<times> u64 \<Rightarrow> frame list \<Rightarrow> reader \<Rightarrow> Value \<Rightarrow> wire_error failure + Value" where
  "after_value drawn st r v =
     (case attach_value drawn st r v of
        Inl e \<Rightarrow> Inl e
      | Inr (Inl answer) \<Rightarrow> Inr answer
      | Inr (Inr st') \<Rightarrow> decode_loop drawn st' r)"

definition run_open :: "u64 \<times> u64 \<Rightarrow> frame list \<Rightarrow> reader \<Rightarrow> wire_error failure + Value" where
  "run_open drawn st r =
     (case open_node st r of
        Inl e \<Rightarrow> Inl (Refused e)
      | Inr (st', r', None) \<Rightarrow> decode_loop drawn st' r'
      | Inr (st', r', Some v) \<Rightarrow> after_value drawn st' r' v)"

lemma decode_loop_next:
  "decode_loop drawn st r =
     (case next_value st r of
        Inl e \<Rightarrow> Inl (Refused e)
      | Inr (st', r', None) \<Rightarrow> decode_loop drawn st' r'
      | Inr (st', r', Some v) \<Rightarrow> after_value drawn st' r' v)"
  unfolding after_value_def by (rule decode_loop.simps)

lemma decode_loop_steps:
  "decode_loop drawn [] r = run_open drawn [] r"
  "frame_left f = 0 \<Longrightarrow> decode_loop drawn (f # st) r = after_value drawn st r (frame_into_value f)"
  "lft \<noteq> 0 \<Longrightarrow> decode_loop drawn (FList xs lft # st) r = run_open drawn (FList xs lft # st) r"
  "lft \<noteq> 0 \<Longrightarrow> decode_loop drawn (FMap es lft key seen # st) r =
     (case read_text r of
        Inl e \<Rightarrow> Inl (Refused e)
      | Inr (k, r') \<Rightarrow> run_open drawn (FMap es lft (Some (k, offset r)) seen # st) r')"
     apply (simp add: decode_loop_next [of drawn "[]"] next_value_def run_open_def)
    apply (simp add: decode_loop_next [of drawn "f # st"] next_value_def)
   apply (simp add: decode_loop_next [of drawn "FList xs lft # st"] next_value_def run_open_def read_key_def)
  apply (cases "read_text r")
   apply (auto simp: decode_loop_next [of drawn "FMap es lft key seen # st"] next_value_def run_open_def
      read_key_def)
  done

lemma after_value_steps:
  "after_value drawn (FList xs lft # st) r v = decode_loop drawn (FList (xs @ [v]) (lft - 1) # st) r"
  "\<not> contains_key es k \<Longrightarrow>
   after_value drawn (FMap es lft (Some (k, p)) seen # st) r v =
     decode_loop drawn (FMap (es @ [(k, v)]) (lft - 1) None
       (map_option (insert (hash_one drawn (as_bytes k))) seen) # st) r"
  by (cases seen; simp add: after_value_def attach_value_def insert_node_def Let_def)+

lemma run_open_leaf:
  assumes "leaf_ok v" "consumes r (enc v) r'"
  shows "run_open drawn st r = after_value drawn st r' v"
  using read_node_complete [of "NLeaf v" r' r] assms by (simp add: run_open_def open_node_def)

lemma word_of_nat_Suc_64:
  "Suc n < 2 ^ 64 \<Longrightarrow> (word_of_nat (Suc n) :: u64) \<noteq> 0 \<and> word_of_nat (Suc n) - 1 = (word_of_nat n :: u64)"
  using unat_word_of_nat_64 [of "Suc n"] by auto

lemma decode_items:
  assumes "\<And>x st r r'. x \<in> set xs \<Longrightarrow> consumes r (enc x) r' \<Longrightarrow>
      run_open drawn st r = after_value drawn st r' x"
    and "length xs < 2 ^ 64" "consumes r (concat (map enc xs)) r'"
  shows "decode_loop drawn (FList acc (word_of_nat (length xs)) # st) r =
    after_value drawn st r' (VList (acc @ xs))"
  using assms
proof (induction xs arbitrary: acc r)
  case Nil
  then show ?case by (simp add: decode_loop_steps)
next
  case (Cons x xs)
  from Cons.prems(3) obtain r1 where x: "consumes r (enc x) r1" and r': "consumes r1 (concat (map enc xs)) r'"
    by (auto simp: consumes_append)
  note n = word_of_nat_Suc_64 [of "length xs"]
  have "decode_loop drawn (FList acc (word_of_nat (length (x # xs))) # st) r =
      run_open drawn (FList acc (word_of_nat (length (x # xs))) # st) r"
    using n Cons.prems(2) by (intro decode_loop_steps) simp
  also have "\<dots> = decode_loop drawn (FList (acc @ [x]) (word_of_nat (length xs)) # st) r1"
    using Cons.prems(1) [OF _ x] n Cons.prems(2) by (simp add: after_value_steps)
  also have "\<dots> = after_value drawn st r' (VList ((acc @ [x]) @ xs))"
    using Cons.prems r' by (intro Cons.IH) auto
  finally show ?case by simp
qed

abbreviation enc_entry :: "entry \<Rightarrow> u8 list" where
  "enc_entry e \<equiv> enc_bytes (as_bytes (fst e)) @ enc (snd e)"

lemma decode_entries:
  assumes "\<And>e st r r'. e \<in> set es \<Longrightarrow> consumes r (enc (snd e)) r' \<Longrightarrow>
      run_open drawn st r = after_value drawn st r' (snd e)"
    and "length es < 2 ^ 64" "distinct (map fst (acc @ es))"
    and "list_all (\<lambda>e. is_text (fst e) \<and> length (fst e) < 2 ^ 64) es"
    and "consumes r (concat (map enc_entry es)) r'"
  shows "decode_loop drawn (FMap acc (word_of_nat (length es)) None seen # st) r =
    after_value drawn st r' (VMap (acc @ es))"
  using assms
proof (induction es arbitrary: acc r seen)
  case Nil
  then show ?case by (simp add: decode_loop_steps)
next
  case (Cons e es)
  let ?h = "hash_one drawn (as_bytes (fst e))" and ?n = "word_of_nat (length (e # es)) :: u64"
  from Cons.prems(5) obtain r0 r1 where k: "consumes r (enc_bytes (as_bytes (fst e))) r0"
    and v: "consumes r0 (enc (snd e)) r1" and r': "consumes r1 (concat (map enc_entry es)) r'"
    by (auto simp: consumes_append)
  have n: "?n \<noteq> 0" "?n - 1 = word_of_nat (length es)"
    using word_of_nat_Suc_64 [of "length es"] Cons.prems(2) by simp_all
  have rt: "read_text r = Inr (fst e, r0)" using k Cons.prems(4) by (simp add: read_text_iff)
  have nk: "\<not> contains_key acc (fst e)" using Cons.prems(3) by (auto simp: contains_key_iff)
  have "decode_loop drawn (FMap acc ?n None seen # st) r =
      run_open drawn (FMap acc ?n (Some (fst e, offset r)) seen # st) r0"
    using n(1) rt by (simp add: decode_loop_steps)
  also have "\<dots> = decode_loop drawn (FMap (acc @ [(fst e, snd e)]) (word_of_nat (length es)) None
      (map_option (insert ?h) seen) # st) r1"
    using Cons.prems(1) [OF _ v] n(2) nk by (simp add: after_value_steps)
  also have "\<dots> = after_value drawn st r' (VMap ((acc @ [(fst e, snd e)]) @ es))"
    using Cons.prems r' by (intro Cons.IH) auto
  finally show ?case by simp
qed

lemma length_le_concat: "(\<And>x. x \<in> set xs \<Longrightarrow> f x \<noteq> []) \<Longrightarrow> length xs \<le> length (concat (map f xs))"
proof (induction xs)
  case (Cons x xs)
  have "length xs \<le> length (concat (map f xs))" using Cons by simp
  moreover have "1 \<le> length (f x)" using Cons.prems [of x] by (simp add: Suc_leI)
  ultimately have "Suc (length xs) \<le> length (f x) + length (concat (map f xs))" by linarith
  then show ?case by simp
qed simp

lemma run_open_complete:
  "wire_ok v \<Longrightarrow> consumes r (enc v) r' \<Longrightarrow> run_open drawn st r = after_value drawn st r' v"
proof (induction v arbitrary: st r r' rule: value_induct)
  case (List xs)
  then obtain r1 where r1: "consumes r (node_bytes (NList (word_of_nat (length xs)))) r1"
    and body: "consumes r1 (concat (map enc xs)) r'"
    using consumes_append [of r "node_bytes (NList (word_of_nat (length xs)))" "concat (map enc xs)" r']
    by auto
  have len: "length xs < 2 ^ 64" using List.prems by simp
  have "length xs \<le> length (concat (map enc xs))"
    using List.prems by (intro length_le_concat) (auto simp: list_all_iff dest: wire_ok_readable enc_nonempty)
  then have "node_ok (NList (word_of_nat (length xs))) r1"
    using consumes_rest [OF body] len by (simp add: unat_word_of_nat_64)
  then have rn: "read_node r = Inr (NList (word_of_nat (length xs)), r1)"
    using r1 by (rule read_node_complete)
  show ?case
  proof (cases xs)
    case Nil
    then show ?thesis using rn body by (simp add: run_open_def open_node_def)
  next
    case (Cons y ys)
    have "(word_of_nat (length xs) :: u64) \<noteq> 0" using word_of_nat_Suc_64 [of "length ys"] len Cons by simp
    then have "run_open drawn st r = decode_loop drawn (FList [] (word_of_nat (length xs)) # st) r1"
      using rn by (simp add: run_open_def open_node_def)
    also have "\<dots> = after_value drawn st r' (VList ([] @ xs))"
      using List body len by (intro decode_items) (auto simp: list_all_iff)
    finally show ?thesis by simp
  qed
next
  case (Map es)
  then obtain r1 where r1: "consumes r (node_bytes (NMap (word_of_nat (length es)))) r1"
    and body: "consumes r1 (concat (map enc_entry es)) r'"
    using consumes_append [of r "node_bytes (NMap (word_of_nat (length es)))" "concat (map enc_entry es)" r']
    by auto
  have len: "length es < 2 ^ 64" using Map.prems by simp
  have "length es \<le> length (concat (map enc_entry es))"
    using Map.prems by (intro length_le_concat) (auto simp: enc_bytes_def)
  then have "node_ok (NMap (word_of_nat (length es))) r1"
    using consumes_rest [OF body] len by (simp add: unat_word_of_nat_64)
  then have rn: "read_node r = Inr (NMap (word_of_nat (length es)), r1)"
    using r1 by (rule read_node_complete)
  show ?case
  proof (cases es)
    case Nil
    then show ?thesis using rn body by (simp add: run_open_def open_node_def)
  next
    case (Cons y ys)
    have "(word_of_nat (length es) :: u64) \<noteq> 0" using word_of_nat_Suc_64 [of "length ys"] len Cons by simp
    then obtain seen where "run_open drawn st r = decode_loop drawn (FMap [] (word_of_nat (length es)) None seen # st) r1"
      using rn by (simp add: run_open_def open_node_def)
    also have "\<dots> = after_value drawn st r' (VMap ([] @ es))"
      using Map body len by (intro decode_entries) (auto simp: list_all_iff)
    finally show ?thesis by simp
  qed
qed (simp_all add: run_open_leaf number_is_text)

lemma decode_enc:
  assumes "wire_ok v"
  shows "decode_at drawn (enc v) base = Inr v"
proof -
  let ?r = "\<lparr>rbytes = enc v, rat = 0, rbase = base\<rparr>"
  have "consumes ?r (enc v) (advance (length (enc v)) ?r)"
    by (simp add: consumes_def rest_def)
  from run_open_complete [OF assms this] show ?thesis
    by (simp add: decode_at_def decode_loop_steps after_value_def attach_value_def advance_def)
qed

section \<open>What decodes is an encoding\<close>

text \<open>The bytes the frames of a stack stand for, and what holds of every frame: its children
  are what the wire carries, its count is the declared one, its key set covers its keys.\<close>

fun frame_key_bytes :: "(str \<times> nat) option \<Rightarrow> u8 list" where
  "frame_key_bytes None = []"
| "frame_key_bytes (Some (k, p)) = enc_bytes (as_bytes k)"

fun frame_bytes :: "frame \<Rightarrow> u8 list" where
  "frame_bytes (FList xs lft) =
     tag_byte GUATIAO_LIST # enc_len (word_of_nat (length xs) + lft) @ concat (map enc xs)"
| "frame_bytes (FMap es lft key seen) =
     tag_byte GUATIAO_MAP # enc_len (word_of_nat (length es) + lft) @ concat (map enc_entry es) @
       frame_key_bytes key"

definition stack_bytes :: "frame list \<Rightarrow> u8 list" where
  "stack_bytes st = concat (map frame_bytes (rev st))"

fun frame_ok :: "u64 \<times> u64 \<Rightarrow> frame \<Rightarrow> bool" where
  "frame_ok drawn (FList xs lft) \<longleftrightarrow> length xs + unat lft < 2 ^ 64 \<and> list_all wire_ok xs"
| "frame_ok drawn (FMap es lft key seen) \<longleftrightarrow> length es + unat lft < 2 ^ 64 \<and> distinct (map fst es) \<and>
     list_all (\<lambda>e. is_text (fst e) \<and> length (fst e) < 2 ^ 64 \<and> wire_ok (snd e)) es \<and>
     (\<forall>k p. key = Some (k, p) \<longrightarrow> is_text k \<and> length k < 2 ^ 64) \<and>
     (\<forall>s. seen = Some s \<longrightarrow> (\<forall>e\<in>set es. hash_one drawn (as_bytes (fst e)) \<in> s))"

fun has_key :: "frame \<Rightarrow> bool" where
  "has_key (FList xs lft) \<longleftrightarrow> True"
| "has_key (FMap es lft key seen) \<longleftrightarrow> key \<noteq> None"

fun no_key :: "frame \<Rightarrow> bool" where
  "no_key (FList xs lft) \<longleftrightarrow> True"
| "no_key (FMap es lft key seen) \<longleftrightarrow> key = None"

definition pending :: "u64 \<times> u64 \<Rightarrow> frame list \<Rightarrow> bool" where
  "pending drawn st \<longleftrightarrow> list_all (\<lambda>f. frame_ok drawn f \<and> frame_left f \<noteq> 0 \<and> has_key f) st"

fun stack_ok :: "u64 \<times> u64 \<Rightarrow> frame list \<Rightarrow> bool" where
  "stack_ok drawn [] \<longleftrightarrow> True"
| "stack_ok drawn (f # st) \<longleftrightarrow> frame_ok drawn f \<and> no_key f \<and> pending drawn st"

lemma stack_bytes_simps [simp]:
  "stack_bytes [] = []" "stack_bytes (f # st) = stack_bytes st @ frame_bytes f"
  by (simp_all add: stack_bytes_def)

lemma pending_simps [simp]:
  "pending drawn []"
  "pending drawn (f # st) \<longleftrightarrow> frame_ok drawn f \<and> frame_left f \<noteq> 0 \<and> has_key f \<and> pending drawn st"
  by (auto simp: pending_def)

lemma repeated_iff:
  assumes "frame_ok drawn (FMap es lft key seen)"
  shows "(case seen of Some s \<Rightarrow> hash_one drawn (as_bytes k) \<in> s \<and> contains_key es k
           | None \<Rightarrow> contains_key es k) \<longleftrightarrow> contains_key es k"
  using assms by (auto simp: contains_key_iff split: option.splits)

lemma unat_minus_1: "(x::u64) \<noteq> 0 \<Longrightarrow> unat (x - 1) = unat x - 1"
  by (simp add: unat_sub word_le_nat_alt Suc_leI unat_gt_0)

lemma unat_nonzero: "(x::u64) \<noteq> 0 \<Longrightarrow> 1 \<le> unat x"
  by (metis One_nat_def Suc_leI gr0I unat_eq_zero)

lemma attach_stack_ok:
  assumes "attach_value drawn st r v = Inr (Inr st')" "pending drawn st" "wire_ok v"
  shows "stack_ok drawn st' \<and> stack_bytes st' = stack_bytes st @ enc v"
proof (cases st)
  case Nil
  then show ?thesis using assms by (simp add: attach_value_def split: if_splits)
next
  case (Cons f st0)
  show ?thesis
  proof (cases f)
    case (FList xs lft)
    then show ?thesis
      using assms Cons unat_nonzero [of lft] unat_minus_1 [of lft]
      by (auto simp: attach_value_def)
  next
    case (FMap es lft key seen)
    then obtain k p where key: "key = Some (k, p)" using assms Cons by auto
    have ok: "frame_ok drawn (FMap es lft key seen)" using assms Cons FMap by simp
    have nk: "\<not> contains_key es k"
      and st': "st' = FMap (es @ [(k, v)]) (lft - 1) None
         (map_option (insert (hash_one drawn (as_bytes k))) seen) # st0"
      using assms Cons FMap key repeated_iff [OF ok, of k]
      by (auto simp: attach_value_def Let_def insert_node_def split: if_splits)
    show ?thesis
      using assms Cons FMap key st' nk ok unat_nonzero [of lft] unat_minus_1 [of lft]
      by (auto simp: contains_key_iff)
  qed
qed

lemma attach_answer:
  assumes "attach_value drawn st r v = Inr (Inl a)"
  shows "st = [] \<and> a = v \<and> rest r = []"
  using assms
  by (auto simp: attach_value_def rest_def Let_def split: list.splits frame.splits option.splits if_splits)

lemma open_node_sound:
  assumes "open_node st r = Inr (st', r', ov)" "pending drawn st"
  shows "case ov of
      None \<Rightarrow> stack_ok drawn st' \<and> stack_bytes st' @ rest r' = stack_bytes st @ rest r
    | Some v \<Rightarrow> st' = st \<and> wire_ok v \<and> rest r = enc v @ rest r'"
proof -
  from assms(1) obtain nd where nd: "read_node r = Inr (nd, r')"
    by (auto simp: open_node_def split: rnode.splits if_splits)
  have s: "node_ok nd r'" and b: "rest r = node_bytes nd @ rest r'"
    using read_node_sound [OF nd] consumes_rest by auto
  have lt: "unat n < 18446744073709551616" for n :: u64 using unsigned_less [of n] by simp
  show ?thesis
    using assms nd s b
    by (cases nd) (auto simp: open_node_def leaf_ok_wire_ok lt split: if_splits)
qed

lemma next_value_sound:
  assumes "next_value st r = Inr (st', r', ov)" "stack_ok drawn st"
  shows "case ov of
      None \<Rightarrow> stack_ok drawn st' \<and> stack_bytes st' @ rest r' = stack_bytes st @ rest r
    | Some v \<Rightarrow> pending drawn st' \<and> wire_ok v \<and> stack_bytes st' @ enc v @ rest r' = stack_bytes st @ rest r"
proof (cases st)
  case Nil
  then show ?thesis
    using assms open_node_sound [of "[]" r st' r' ov drawn] by (auto simp: next_value_def split: option.splits)
next
  case (Cons f st0)
  show ?thesis
  proof (cases "frame_left f = 0")
    case True
    then show ?thesis using assms Cons
      by (cases f) (auto simp: next_value_def list_all_iff)
  next
    case False
    show ?thesis
    proof (cases f)
      case (FList xs lft)
      then have "open_node st r = Inr (st', r', ov)" "pending drawn st"
        using assms False Cons by (auto simp: next_value_def read_key_def)
      from open_node_sound [OF this] this(2) show ?thesis by (auto split: option.splits)
    next
      case (FMap es lft key seen)
      then obtain k r1 where k: "read_text r = Inr (k, r1)"
        and o: "open_node (FMap es lft (Some (k, offset r)) seen # st0) r1 = Inr (st', r', ov)"
        using assms False Cons by (auto simp: next_value_def read_key_def)
      have t: "is_text k" "length k < 2 ^ 64" "rest r = enc_bytes (as_bytes k) @ rest r1"
        using k consumes_rest by (auto simp: read_text_iff)
      have p: "pending drawn (FMap es lft (Some (k, offset r)) seen # st0)"
        using assms Cons FMap False t by auto
      show ?thesis
        using open_node_sound [OF o p] p t assms Cons FMap by (auto split: option.splits)
    qed
  qed
qed

lemma decode_loop_sound:
  "decode_loop drawn st r = Inr v \<Longrightarrow> stack_ok drawn st \<Longrightarrow> wire_ok v \<and> enc v = stack_bytes st @ rest r"
proof (induction drawn st r rule: decode_loop.induct)
  case (1 drawn st r)
  from "1.prems"(1) obtain st1 r1 ov where n: "next_value st r = Inr (st1, r1, ov)"
    by (subst (asm) decode_loop.simps) (auto split: sum.splits)
  note s = next_value_sound [OF n "1.prems"(2)]
  show ?case
  proof (cases ov)
    case None
    then show ?thesis
      using "1.IH"(1) [OF n refl refl None] "1.prems"(1) n s by (subst (asm) decode_loop.simps) auto
  next
    case (Some x)
    show ?thesis
    proof (cases "attach_value drawn st1 r1 x")
      case (Inl e)
      then show ?thesis using "1.prems"(1) n Some by (subst (asm) decode_loop.simps) simp
    next
      case (Inr c)
      show ?thesis
      proof (cases c)
        case (Inl a)
        then show ?thesis using attach_answer [of drawn st1 r1 x a] Inr "1.prems"(1) n Some s
          by (subst (asm) decode_loop.simps) auto
      next
        case (Inr st2)
        have a: "attach_value drawn st1 r1 x = Inr (Inr st2)" using \<open>attach_value _ _ _ _ = Inr c\<close> Inr by simp
        have "decode_loop drawn st2 r1 = Inr v"
          using "1.prems"(1) n Some a by (subst (asm) decode_loop.simps) simp
        moreover have "stack_ok drawn st2 \<and> stack_bytes st2 = stack_bytes st1 @ enc x"
          using attach_stack_ok [OF a] s Some by simp
        ultimately show ?thesis using "1.IH"(2) [OF n refl refl Some a refl] s Some by simp
      qed
    qed
  qed
qed

lemma decode_sound: "decode_at drawn bs base = Inr v \<Longrightarrow> wire_ok v \<and> enc v = bs"
  using decode_loop_sound [of drawn "[]" "\<lparr>rbytes = bs, rat = 0, rbase = base\<rparr>" v]
  by (simp add: decode_at_def rest_def)

section \<open>Neither a panic nor a dependence on the seeds\<close>

lemma attach_no_panic: "pending drawn st \<Longrightarrow> attach_value drawn st r v \<noteq> Inl Panicked"
  by (auto simp: attach_value_def Let_def split: list.splits frame.splits option.splits)

text \<open>A stack without what the seeds decide.\<close>

fun strip :: "frame \<Rightarrow> frame" where
  "strip (FList xs lft) = FList xs lft"
| "strip (FMap es lft key seen) = FMap es lft key None"

lemma strip_simps [simp]: "frame_left (strip f) = frame_left f"
  "frame_into_value (strip f) = frame_into_value f"
  by (cases f; simp)+

lemma strip_cases:
  "strip f = strip g \<Longrightarrow>
   (\<exists>xs lft. f = FList xs lft \<and> g = FList xs lft) \<or>
   (\<exists>es lft key s t. f = FMap es lft key s \<and> g = FMap es lft key t)"
  by (cases f; cases g) auto

definition alike :: "frame list \<Rightarrow> frame list \<Rightarrow> bool" where
  "alike st su \<longleftrightarrow> map strip st = map strip su"

lemma alike_simps [simp]:
  "alike [] su \<longleftrightarrow> su = []" "alike st [] \<longleftrightarrow> st = []"
  "alike (f # st) (g # su) \<longleftrightarrow> strip f = strip g \<and> alike st su"
  by (auto simp: alike_def)

lemma alike_Cons: "alike (f # st) su \<longleftrightarrow> (\<exists>g sv. su = g # sv \<and> strip f = strip g \<and> alike st sv)"
  by (auto simp: alike_def)

fun rel_next :: "wire_error + (frame list \<times> reader \<times> Value option) \<Rightarrow>
    wire_error + (frame list \<times> reader \<times> Value option) \<Rightarrow> bool" where
  "rel_next (Inl e) (Inl f) \<longleftrightarrow> e = f"
| "rel_next (Inr (st, r, ov)) (Inr (su, q, ow)) \<longleftrightarrow> alike st su \<and> r = q \<and> ov = ow"
| "rel_next _ _ \<longleftrightarrow> False"

lemma open_node_alike: "alike st su \<Longrightarrow> rel_next (open_node st r) (open_node su r)"
  by (cases "read_node r") (auto simp: open_node_def split: rnode.splits)

lemma next_value_alike:
  assumes "alike st su"
  shows "rel_next (next_value st r) (next_value su r)"
proof (cases st)
  case Nil
  then show ?thesis using assms open_node_alike [of "[]" "[]" r] by (simp add: next_value_def)
next
  case (Cons f st0)
  then obtain g su0 where su: "su = g # su0" and fg: "strip f = strip g" "alike st0 su0"
    using assms by (auto simp: alike_Cons)
  have left: "frame_left f = frame_left g" "frame_into_value f = frame_into_value g"
    using fg(1) by (metis strip_simps)+
  show ?thesis
  proof (cases "frame_left g = 0")
    case True
    then show ?thesis using Cons su fg left by (simp add: next_value_def)
  next
    case False
    from strip_cases [OF fg(1)] show ?thesis
    proof (elim disjE exE conjE)
      fix xs lft
      assume "f = FList xs lft" "g = FList xs lft"
      then show ?thesis using Cons su fg False by (simp add: next_value_def read_key_def open_node_alike)
    next
      fix es lft key s t
      assume "f = FMap es lft key s" "g = FMap es lft key t"
      then show ?thesis using Cons su fg False
        by (cases "read_text r") (auto simp: next_value_def read_key_def open_node_alike)
    qed
  qed
qed

fun rel_attach :: "wire_error failure + (Value + frame list) \<Rightarrow> wire_error failure + (Value + frame list) \<Rightarrow> bool" where
  "rel_attach (Inl e) (Inl f) \<longleftrightarrow> e = f"
| "rel_attach (Inr (Inl v)) (Inr (Inl w)) \<longleftrightarrow> v = w"
| "rel_attach (Inr (Inr st)) (Inr (Inr su)) \<longleftrightarrow> alike st su"
| "rel_attach _ _ \<longleftrightarrow> False"

lemma attach_alike:
  assumes "alike st su" "pending d st" "pending c su"
  shows "rel_attach (attach_value d st r v) (attach_value c su r v)"
proof (cases st)
  case Nil
  then show ?thesis using assms by (simp add: attach_value_def)
next
  case (Cons f st0)
  then obtain g su0 where su: "su = g # su0" and fg: "strip f = strip g" "alike st0 su0"
    using assms by (auto simp: alike_Cons)
  from strip_cases [OF fg(1)] show ?thesis
  proof (elim disjE exE conjE)
    fix xs lft
    assume "f = FList xs lft" "g = FList xs lft"
    then show ?thesis using Cons su fg by (simp add: attach_value_def)
  next
    fix es lft key s t
    assume fm: "f = FMap es lft key s" "g = FMap es lft key t"
    then obtain k p where key: "key = Some (k, p)" using assms Cons by auto
    show ?thesis
      using assms Cons su fg fm key repeated_iff [of d es lft key s k] repeated_iff [of c es lft key t k]
      by (simp add: attach_value_def Let_def)
  qed
qed

lemma decode_loop_alike:
  "alike st su \<Longrightarrow> stack_ok d st \<Longrightarrow> stack_ok c su \<Longrightarrow>
   decode_loop d st r = decode_loop c su r \<and> decode_loop d st r \<noteq> Inl Panicked"
proof (induction d st r arbitrary: su rule: decode_loop.induct)
  case (1 d st r)
  note rel = next_value_alike [OF "1.prems"(1), of r]
  show ?case
  proof (cases "next_value st r")
    case (Inl e)
    then show ?thesis using rel
      by (cases "next_value su r") (auto simp: decode_loop.simps [of d st] decode_loop.simps [of c su])
  next
    case (Inr p)
    then obtain st1 r1 ov where n: "next_value st r = Inr (st1, r1, ov)" by (cases p) auto
    then obtain su1 where m: "next_value su r = Inr (su1, r1, ov)" and a1: "alike st1 su1"
      using rel by (cases "next_value su r") auto
    note s = next_value_sound [OF n "1.prems"(2)] and t = next_value_sound [OF m "1.prems"(3)]
    show ?thesis
    proof (cases ov)
      case None
      then show ?thesis
        using "1.IH"(1) [OF n refl refl None a1] s t n m
        by (auto simp: decode_loop.simps [of d st] decode_loop.simps [of c su])
    next
      case (Some x)
      have pd: "pending d st1" "pending c su1" "wire_ok x" using s t Some by simp_all
      have ra: "rel_attach (attach_value d st1 r1 x) (attach_value c su1 r1 x)"
        using a1 pd(1,2) by (rule attach_alike)
      note unf = decode_loop.simps [of d st] decode_loop.simps [of c su] n m Some
      show ?thesis
      proof (cases "\<exists>st2. attach_value d st1 r1 x = Inr (Inr st2)")
        case True
        then obtain st2 where a: "attach_value d st1 r1 x = Inr (Inr st2)" by blast
        then obtain su2 where b: "attach_value c su1 r1 x = Inr (Inr su2)" and a2: "alike st2 su2"
          using ra by (cases "attach_value c su1 r1 x" rule: sum.exhaust) (auto elim: rel_attach.elims)
        have "stack_ok d st2" "stack_ok c su2"
          using attach_stack_ok [OF a pd(1,3)] attach_stack_ok [OF b pd(2,3)] by simp_all
        then show ?thesis using "1.IH"(2) [OF n refl refl Some a refl a2] a b by (auto simp: unf)
      next
        case False
        then show ?thesis using ra attach_no_panic [OF pd(1), of r1 x]
          by (auto simp: unf elim!: rel_attach.elims)
      qed
    qed
  qed
qed

lemma decode_any_seeds: "decode_at d bs base = decode_at c bs base"
  "decode_at d bs base \<noteq> Inl Panicked"
  using decode_loop_alike [of "[]" "[]" d c "\<lparr>rbytes = bs, rat = 0, rbase = base\<rparr>"]
  by (auto simp: decode_at_def)

section \<open>Where an error points\<close>

fun error_at :: "wire_error \<Rightarrow> nat" where
  "error_at (Truncated n) = n"
| "error_at (UnknownWireTag n b) = n"
| "error_at (Overlong n) = n"
| "error_at (WireNotUtf8 n) = n"
| "error_at (WireNotANumber n) = n"
| "error_at (NotABool n b) = n"
| "error_at (WireDuplicateKey n) = n"
| "error_at (Trailing n) = n"

text \<open>A reader over \<open>bs\<close> from \<open>base\<close> that has not passed the end, and a position in it.\<close>

definition over :: "u8 list \<Rightarrow> nat \<Rightarrow> reader \<Rightarrow> bool" where
  "over bs base r \<longleftrightarrow> rbytes r = bs \<and> rbase r = base \<and> rat r \<le> length bs"

definition within :: "u8 list \<Rightarrow> nat \<Rightarrow> nat \<Rightarrow> bool" where
  "within bs base n \<longleftrightarrow> base \<le> n \<and> n \<le> base + length bs"

lemma over_offset: "over bs base r \<Longrightarrow> within bs base (offset r)"
  by (simp add: over_def within_def offset_def)

lemma over_consumes: "over bs base r \<Longrightarrow> consumes r x r' \<Longrightarrow> over bs base r'"
  by (auto simp: over_def consumes_take rest_def advance_def)

lemma read_byte_error:
  "over bs base r \<Longrightarrow> read_byte r = Inl e \<Longrightarrow> within bs base (error_at e)"
  by (auto simp: read_byte_def over_offset split: if_splits)

lemma leb_loop_error:
  "leb_loop st n sh r = Inl e \<Longrightarrow> over bs base r \<Longrightarrow> within bs base st \<Longrightarrow> within bs base (error_at e)"
proof (induction st n sh r rule: leb_loop.induct)
  case (1 st n sh r)
  show ?case
  proof (cases "read_byte r")
    case (Inl e')
    then show ?thesis using "1.prems" read_byte_error by (simp add: leb_loop.simps [of st])
  next
    case (Inr p)
    then obtain b r1 where b: "read_byte r = Inr (b, r1)" by (cases p) auto
    have o: "over bs base r1" using "1.prems"(2) b over_consumes by (auto simp: read_byte_iff)
    let ?bits = "ucast (b AND 0x7f) :: u64"
    let ?g = "sh = 63 \<and> ?bits > 1 \<or> sh > 63"
    show ?thesis
    proof (cases "?g \<or> b AND 0x80 = 0")
      case True
      then show ?thesis using "1.prems" b
        by (auto simp: leb_loop.simps [of st n sh r] Let_def simp del: not_less split: if_splits)
    next
      case False
      then have g: "\<not> ?g" and h: "b AND 0x80 \<noteq> 0" by blast+
      have "leb_loop st (n OR push_bit sh ?bits) (sh + 7) r1 = Inl e"
        using "1.prems"(1) b g h by (simp add: leb_loop.simps [of st n sh r] Let_def del: not_less)
      from "1.IH" [OF b refl refl g refl h this o "1.prems"(3)] show ?thesis .
    qed
  qed
qed

lemma leb_error: "over bs base r \<Longrightarrow> leb r = Inl e \<Longrightarrow> within bs base (error_at e)"
  using leb_loop_error over_offset by (auto simp: leb_def)

lemma leb_over: "over bs base r \<Longrightarrow> leb r = Inr (n, r') \<Longrightarrow> over bs base r'"
  using over_consumes by (auto simp: leb_iff)

lemma reads_error:
  assumes "over bs base r"
  shows "read_len r = Inl e \<Longrightarrow> within bs base (error_at e)"
    "read_count r = Inl e \<Longrightarrow> within bs base (error_at e)"
    "read_slice r = Inl e \<Longrightarrow> within bs base (error_at e)"
    "read_text r = Inl e \<Longrightarrow> within bs base (error_at e)"
proof -
  show len: "read_len r = Inl e \<Longrightarrow> within bs base (error_at e)" for e
    using assms leb_error leb_over over_offset
    by (cases "leb r") (fastforce simp: read_len_def split: if_splits)+
  show "read_count r = Inl e \<Longrightarrow> within bs base (error_at e)" for e
    using assms leb_error leb_over over_offset
    by (cases "leb r") (fastforce simp: read_count_def split: if_splits)+
  show slice: "read_slice r = Inl e \<Longrightarrow> within bs base (error_at e)" for e
    using len by (cases "read_len r") (auto simp: read_slice_def)
  show "read_text r = Inl e \<Longrightarrow> within bs base (error_at e)"
    using slice over_offset [OF assms]
    by (cases "read_slice r") (auto simp: read_text_def result_simps)
qed

lemma read_node_error:
  assumes o: "over bs base r" and e: "read_node r = Inl e"
  shows "within bs base (error_at e)"
proof (cases "read_byte r")
  case (Inl e')
  then show ?thesis using e read_byte_error [OF o] by (simp add: read_node_def)
next
  case (Inr p)
  then obtain b r1 where b: "read_byte r = Inr (b, r1)" by (cases p) auto
  have o1: "over bs base r1" using o b over_consumes by (auto simp: read_byte_iff)
  note errs = read_byte_error [OF o1] reads_error [OF o1] over_offset [OF o] over_offset [OF o1]
  show ?thesis
  proof (cases "tag_try_from (unat b)")
    case (Inl x)
    then show ?thesis using e b errs by (auto simp: read_node_def)
  next
    case (Inr t)
    then show ?thesis using e b errs
      by (cases t; cases "read_byte r1"; cases "read_text r1"; cases "read_slice r1"; cases "read_count r1")
         (auto simp: read_node_def split: if_splits sum.splits)
  qed
qed

lemma read_node_over: "over bs base r \<Longrightarrow> read_node r = Inr (nd, r') \<Longrightarrow> over bs base r'"
  using over_consumes read_node_sound by blast

text \<open>The position a map frame keeps of its pending key.\<close>

fun key_within :: "u8 list \<Rightarrow> nat \<Rightarrow> frame \<Rightarrow> bool" where
  "key_within bs base (FList xs lft) \<longleftrightarrow> True"
| "key_within bs base (FMap es lft key seen) \<longleftrightarrow> (\<forall>k p. key = Some (k, p) \<longrightarrow> within bs base p)"

definition keys_within :: "u8 list \<Rightarrow> nat \<Rightarrow> frame list \<Rightarrow> bool" where
  "keys_within bs base st \<longleftrightarrow> list_all (key_within bs base) st"

lemma keys_within_simps [simp]: "keys_within bs base []"
  "keys_within bs base (f # st) \<longleftrightarrow> key_within bs base f \<and> keys_within bs base st"
  by (simp_all add: keys_within_def)

lemma open_node_within:
  assumes "over bs base r" "keys_within bs base st"
  shows "case open_node st r of Inl e \<Rightarrow> within bs base (error_at e)
    | Inr (st', r', ov) \<Rightarrow> over bs base r' \<and> keys_within bs base st'"
  using assms read_node_error [OF assms(1)] read_node_over [OF assms(1)]
  by (cases "read_node r") (auto simp: open_node_def split: rnode.splits)

lemma next_value_within:
  assumes o: "over bs base r" and k: "keys_within bs base st"
  shows "case next_value st r of Inl e \<Rightarrow> within bs base (error_at e)
    | Inr (st', r', ov) \<Rightarrow> over bs base r' \<and> keys_within bs base st'"
proof (cases st)
  case Nil
  then show ?thesis using open_node_within [OF o, of "[]"] by (simp add: next_value_def)
next
  case (Cons f st0)
  show ?thesis
  proof (cases "frame_left f = 0")
    case True
    then show ?thesis using Cons o k by (simp add: next_value_def)
  next
    case False
    show ?thesis
    proof (cases f)
      case (FList xs lft)
      then show ?thesis using Cons False open_node_within [OF o k] by (simp add: next_value_def read_key_def)
    next
      case (FMap es lft key seen)
      show ?thesis
      proof (cases "read_text r")
        case (Inl e)
        then show ?thesis using Cons FMap False reads_error(4) [OF o] by (simp add: next_value_def read_key_def)
      next
        case (Inr p)
        then obtain s r1 where s: "read_text r = Inr (s, r1)" by (cases p) auto
        have o1: "over bs base r1" using o s over_consumes by (auto simp: read_text_iff)
        have "keys_within bs base (FMap es lft (Some (s, offset r)) seen # st0)"
          using k Cons over_offset [OF o] by simp
        from open_node_within [OF o1 this] show ?thesis
          using Cons FMap False s by (simp add: next_value_def read_key_def)
      qed
    qed
  qed
qed

lemma attach_within:
  assumes "over bs base r" "keys_within bs base st"
  shows "case attach_value drawn st r v of Inl (Refused e) \<Rightarrow> within bs base (error_at e)
    | Inr (Inr st') \<Rightarrow> keys_within bs base st' | _ \<Rightarrow> True"
  using assms over_offset [OF assms(1)]
  by (auto simp: attach_value_def Let_def split: list.splits frame.splits option.splits)

lemma decode_loop_within:
  "decode_loop drawn st r = Inl (Refused e) \<Longrightarrow> over bs base r \<Longrightarrow> keys_within bs base st \<Longrightarrow>
   within bs base (error_at e)"
proof (induction drawn st r rule: decode_loop.induct)
  case (1 drawn st r)
  note nw = next_value_within [OF "1.prems"(2,3)]
  show ?case
  proof (cases "next_value st r")
    case (Inl e')
    then show ?thesis using "1.prems"(1) nw by (simp add: decode_loop.simps [of drawn st])
  next
    case (Inr p)
    then obtain st1 r1 ov where n: "next_value st r = Inr (st1, r1, ov)" by (cases p) auto
    have o1: "over bs base r1" and k1: "keys_within bs base st1" using nw n by simp_all
    show ?thesis
    proof (cases ov)
      case None
      then show ?thesis using "1.IH"(1) [OF n refl refl None _ o1 k1] "1.prems"(1) n
        by (simp add: decode_loop.simps [of drawn st])
    next
      case (Some x)
      note aw = attach_within [OF o1 k1, of drawn x]
      show ?thesis
      proof (cases "\<exists>st2. attach_value drawn st1 r1 x = Inr (Inr st2)")
        case True
        then obtain st2 where a: "attach_value drawn st1 r1 x = Inr (Inr st2)" by blast
        then show ?thesis using "1.IH"(2) [OF n refl refl Some a refl _ o1] "1.prems"(1) n Some aw
          by (simp add: decode_loop.simps [of drawn st])
      next
        case False
        then show ?thesis using "1.prems"(1) n Some aw
          by (auto simp: decode_loop.simps [of drawn st] split: sum.splits)
      qed
    qed
  qed
qed

lemma decode_error_within: "decode_at drawn bs base = Inl (Refused e) \<Longrightarrow> within bs base (error_at e)"
  using decode_loop_within [of drawn "[]" "\<lparr>rbytes = bs, rat = 0, rbase = base\<rparr>" e bs base]
  by (simp add: decode_at_def over_def)

section \<open>Properties\<close>

text \<open>A LEB128 length is read exactly where its minimal encoding stands, consuming just
  those bytes: what \<open>put_len\<close> writes reads back, and no other spelling of a length is
  accepted.\<close>

theorem lengths_are_canonical: "leb r = Inr (n, r') \<longleftrightarrow> consumes r (put_len [] n) r'"
  by (simp add: leb_iff enc_len_def)

text \<open>The encoder's loop appends the recursive encoding of a tree its doors accept, and
  otherwise answers the error of the first node in document order that they refuse.\<close>

theorem encode_is_the_recursive_encoding:
  "encode v out = (case refusal_with NotANumber v of None \<Rightarrow> Inr (out @ enc v) | Some e \<Rightarrow> Inl e)"
  by (cases "wire_refusal v") (simp_all add: encode_eq)

text \<open>\<open>encoded_len\<close> is the exact length of what \<open>to_bytes\<close> writes, and fails exactly
  when it does.\<close>

theorem encoded_len_is_exact:
  "(\<forall>bs. to_bytes v = Inr bs \<longrightarrow> encoded_len v = Inr (length bs)) \<and>
   (is_ok (encoded_len v) \<longleftrightarrow> is_ok (to_bytes v))"
proof (cases "wire_refusal v")
  case None
  then have "readable v" by (simp add: refusal_None)
  with None show ?thesis by (simp add: to_bytes_def encode_eq encoded_len_readable)
next
  case (Some e)
  then have "\<not> readable v" using refusal_None [of NotANumber v] by simp
  with Some show ?thesis using encoded_len_refused by (simp add: to_bytes_def encode_eq)
qed

theorem encoded_len_is_exact_witness: "encoded_len (VList [VNull, VBool True]) = Inr 5"
proof -
  have "to_bytes (VList [VNull, VBool True]) = Inr [6, 2, 1, 2, 1]" by code_simp
  then show ?thesis using encoded_len_is_exact [of "VList [VNull, VBool True]"] by simp
qed

text \<open>C1: every tree the wire carries decodes from its encoding, whatever the seeds.\<close>

theorem decode_inverts_encode:
  "wire_ok v \<Longrightarrow> \<exists>bs. to_bytes v = Inr bs \<and> decode drawn bs = Inr v"
  using wire_ok_readable [of v] refusal_None [of NotANumber v]
  by (simp add: to_bytes_def encode_eq decode_def decode_enc)

theorem decode_inverts_encode_witness:
  "\<exists>bs. to_bytes (VMap [(''a'', VList [VBool True, VNull])]) = Inr bs \<and>
     decode (3, 5) bs = Inr (VMap [(''a'', VList [VBool True, VNull])])"
proof -
  have "is_text ''a''" by code_simp
  then have "wire_ok (VMap [(''a'', VList [VBool True, VNull])])" by simp
  then show ?thesis by (rule decode_inverts_encode)
qed

text \<open>C2: bytes that decode are the one encoding of the tree they decode to, and that tree
  is well formed: readable, no key twice in any map. The decoder accepts no other bytes.\<close>

theorem decode_accepts_only_encodings:
  "decode drawn bs = Inr v \<Longrightarrow> wire_ok v \<and> to_bytes v = Inr bs"
  using decode_sound [of drawn bs 0 v] wire_ok_readable [of v] refusal_None [of NotANumber v]
  by (auto simp: to_bytes_def encode_eq decode_def)

theorem decode_accepts_only_encodings_witness:
  "to_bytes (VList [VNull, VBool True]) = Inr [6, 2, 1, 2, 1]"
proof -
  have "decode (3, 5) [6, 2, 1, 2, 1] = Inr (VList [VNull, VBool True])" by code_simp
  from decode_accepts_only_encodings [OF this] show ?thesis by simp
qed

text \<open>the decoder's \<open>expect\<close> never fails, and its answer, errors included, does not
  depend on the seeds under which a wide map's keys are hashed.\<close>

theorem decode_ignores_the_seeds:
  "decode drawn bs = decode drawn' bs \<and> decode drawn bs \<noteq> Inl Panicked"
  using decode_any_seeds by (simp add: decode_def)

text \<open>An error of the decoder points into the bytes it was given, displaced by the base
  it was given.\<close>

theorem decode_error_points_into_the_input:
  "decode_at drawn bs base = Inl (Refused e) \<Longrightarrow> base \<le> error_at e \<and> error_at e \<le> base + length bs"
  using decode_error_within [of drawn bs base e] by (simp add: within_def)

theorem decode_error_points_into_the_input_witness: "10 \<le> error_at (Truncated 12)"
proof -
  have "decode_at (3, 5) [6, 2] 10 = Inl (Refused (Truncated 12))" by code_simp
  from decode_error_points_into_the_input [OF this] show ?thesis by simp
qed

end
