(* ===== verification/Streams.thy ===== *)
theory Streams
  imports Events Wire_Laws
begin

text \<open>
  The wire encoding as events (\<open>value/wire/stream.rs\<close>): the \<open>Encoder\<close>, which writes any
  stream of events as wire bytes, checks promised counts and repeated keys as it goes and
  moves what follows a count that turned out to need more than the byte it reserved. It is
  a strict \<open>sink\<close>: it takes exactly the sequences that describe a tree, and its bytes are
  that tree's encoding.
\<close>

section \<open>The encoder\<close>

text \<open>A map's keys as ranges of the output, and their hashes once it is wide; a container
  being written; the encoder (the head of \<open>e_open\<close> is the innermost container). The seeds
  the source draws are an argument.\<close>

record enc_keys =
  k_ranges :: "(nat \<times> nat) list"
  k_hashes :: "u64 set option"
  k_keyed :: bool

record enc_open =
  o_at :: nat
  o_promised :: "u64 option"
  o_written :: u64
  o_map :: "enc_keys option"

record encoder =
  e_out :: "u8 list"
  e_open :: "enc_open list"
  e_done :: bool

definition encoder_new :: "u8 list \<Rightarrow> encoder" where
  "encoder_new out = \<lparr>e_out = out, e_open = [], e_done = False\<rparr>"

definition is_complete :: "encoder \<Rightarrow> bool" where
  "is_complete s \<longleftrightarrow> e_done s \<and> e_open s = []"

definition value_here :: "encoder \<Rightarrow> value_error + encoder" where
  "value_here s =
     (case e_open s of
        [] \<Rightarrow> if e_done s then Inl WrongKind else Inr s
      | o1 # st \<Rightarrow>
          and_then (case o_map o1 of
              Some keys \<Rightarrow>
                if \<not> k_keyed keys then Inl WrongKind
                else Inr (o1\<lparr>o_map := Some (keys\<lparr>k_keyed := False\<rparr>)\<rparr>)
            | None \<Rightarrow> Inr o1) (\<lambda>o2.
          let o3 = o2\<lparr>o_written := o_written o2 + 1\<rparr> in
          if (case o_promised o3 of Some n \<Rightarrow> o_written o3 > n | None \<Rightarrow> False) then Inl WrongKind
          else Inr (s\<lparr>e_open := o3 # st\<rparr>)))"

definition value_done :: "encoder \<Rightarrow> encoder" where
  "value_done s = (if e_open s = [] then s\<lparr>e_done := True\<rparr> else s)"

definition enc_leaf :: "tag \<Rightarrow> u8 list option \<Rightarrow> encoder \<Rightarrow> value_error + encoder" where
  "enc_leaf t body s =
     and_then (value_here s) (\<lambda>s.
     let out = e_out s @ [word_of_nat (tag_u32 t)] in
     Inr (value_done (s\<lparr>e_out := (case body of None \<Rightarrow> out | Some b \<Rightarrow> put_text out b)\<rparr>)))"

definition enc_bool :: "bool \<Rightarrow> encoder \<Rightarrow> value_error + encoder" where
  "enc_bool b s =
     and_then (value_here s) (\<lambda>s.
     Inr (value_done (s\<lparr>e_out := e_out s @ [word_of_nat (tag_u32 GUATIAO_BOOL)] @ [if b then 1 else 0]\<rparr>)))"

definition enc_begin :: "tag \<Rightarrow> nat option \<Rightarrow> bool \<Rightarrow> encoder \<Rightarrow> value_error + encoder" where
  "enc_begin t len ismap s =
     and_then (value_here s) (\<lambda>s.
     let out = e_out s @ [word_of_nat (tag_u32 t)];
         promised = map_option word_of_nat len :: u64 option
     in Inr (s\<lparr>e_out := (case promised of Some n \<Rightarrow> put_len out n | None \<Rightarrow> out @ [0]),
               e_open := \<lparr>o_at = length out, o_promised = promised, o_written = 0,
                  o_map = (if ismap then Some \<lparr>k_ranges = [], k_hashes = None, k_keyed = False\<rparr>
                           else None)\<rparr> # e_open s\<rparr>))"

text \<open>One byte was reserved for a count not promised: a count that needs more moves what
  follows it.\<close>

definition put_count :: "nat \<Rightarrow> u64 \<Rightarrow> u8 list \<Rightarrow> u8 list" where
  "put_count pos n out =
     (case put_len [] n of
        [one] \<Rightarrow> out[pos := one]
      | count \<Rightarrow> take pos out @ count @ drop (pos + 1) out)"

definition enc_end :: "bool \<Rightarrow> encoder \<Rightarrow> value_error + encoder" where
  "enc_end ismap s =
     (case e_open s of
        [] \<Rightarrow> Inl WrongKind
      | o1 # st \<Rightarrow>
          if \<not> (case o_map o1 of None \<Rightarrow> \<not> ismap | Some keys \<Rightarrow> ismap \<and> \<not> k_keyed keys) then Inl WrongKind
          else
            (case o_promised o1 of
               Some n \<Rightarrow>
                 if n \<noteq> o_written o1 then Inl WrongKind else Inr (value_done (s\<lparr>e_open := st\<rparr>))
             | None \<Rightarrow>
                 Inr (value_done (s\<lparr>e_open := st, e_out := put_count (o_at o1) (o_written o1) (e_out s)\<rparr>))))"

definition slice_of :: "u8 list \<Rightarrow> nat \<times> nat \<Rightarrow> u8 list" where
  "slice_of out r = take (snd r) (drop (fst r) out)"

definition enc_key :: "u64 \<times> u64 \<Rightarrow> str \<Rightarrow> encoder \<Rightarrow> value_error + encoder" where
  "enc_key drawn key s =
     (case e_open s of
        [] \<Rightarrow> Inl WrongKind
      | o1 # st \<Rightarrow>
          (case o_map o1 of
             None \<Rightarrow> Inl WrongKind
           | Some keys \<Rightarrow>
               if k_keyed keys then Inl WrongKind
               else
                 let bytes = as_bytes key;
                     h = hash_one drawn bytes;
                     same = (\<lambda>r. slice_of (e_out s) r = bytes);
                     repeated = (case k_hashes keys of
                         Some hashes \<Rightarrow> h \<in> hashes \<and> list_ex same (k_ranges keys)
                       | None \<Rightarrow> list_ex same (k_ranges keys))
                 in if repeated then Inl DuplicateKey
                    else
                      let lead = put_len (e_out s) (word_of_nat (length bytes));
                          out = lead @ bytes;
                          ranges = k_ranges keys @ [(length lead, length bytes)];
                          held = length ranges;
                          lft = (case o_promised o1 of None \<Rightarrow> 0 | Some n \<Rightarrow> unat n - held);
                          hashes = (case k_hashes keys of
                              Some hs \<Rightarrow> Some (insert h hs)
                            | None \<Rightarrow>
                                if held + lft > LINEAR
                                then Some (set (map (\<lambda>r. hash_one drawn (slice_of out r)) ranges)) else None)
                      in Inr (s\<lparr>e_out := out,
                           e_open := o1\<lparr>o_map := Some \<lparr>k_ranges = ranges, k_hashes = hashes,
                             k_keyed = True\<rparr>\<rparr> # st\<rparr>)))"

fun enc_put :: "u64 \<times> u64 \<Rightarrow> event \<Rightarrow> encoder \<Rightarrow> value_error + encoder" where
  "enc_put drawn EAbsent s = enc_leaf GUATIAO_ABSENT None s"
| "enc_put drawn ENull s = enc_leaf GUATIAO_NULL None s"
| "enc_put drawn (EBool b) s = enc_bool b s"
| "enc_put drawn (ENumber t) s =
     and_then (map_err (\<lambda>_. NotANumber) (validate_json_number t)) (\<lambda>_.
       enc_leaf GUATIAO_NUMBER (Some (as_bytes t)) s)"
| "enc_put drawn (EString t) s = enc_leaf GUATIAO_STRING (Some (as_bytes t)) s"
| "enc_put drawn (EBytes b) s = enc_leaf GUATIAO_BYTES (Some b) s"
| "enc_put drawn (EListBegin len) s = enc_begin GUATIAO_LIST len False s"
| "enc_put drawn EListEnd s = enc_end False s"
| "enc_put drawn (EMapBegin len) s = enc_begin GUATIAO_MAP len True s"
| "enc_put drawn (EKey k) s = enc_key drawn k s"
| "enc_put drawn EMapEnd s = enc_end True s"

definition encode_of :: "u64 \<times> u64 \<Rightarrow> Value \<Rightarrow> u8 list \<Rightarrow> value_error + u8 list" where
  "encode_of drawn v out =
     and_then (walk_value (enc_put drawn) v (encoder_new out)) (\<lambda>s.
       if \<not> is_complete s then Inl WrongKind else Inr (e_out s))"

definition to_bytes_of :: "u64 \<times> u64 \<Rightarrow> Value \<Rightarrow> value_error + u8 list" where
  "to_bytes_of drawn v = encode_of drawn v []"

section \<open>What the buffer holds\<close>

fun count_bytes :: "nat option \<Rightarrow> u8 list" where
  "count_bytes None = [0]"
| "count_bytes (Some n) = enc_len (word_of_nat n)"

fun part_bytes :: "part \<Rightarrow> u8 list" where
  "part_bytes (PList vs pr) = tag_byte GUATIAO_LIST # count_bytes pr @ concat (map enc vs)"
| "part_bytes (PMap es key pr) =
     tag_byte GUATIAO_MAP # count_bytes pr @ concat (map enc_entry es) @
       (case key of None \<Rightarrow> [] | Some k \<Rightarrow> enc_bytes (as_bytes k))"

definition parts_bytes :: "part list \<Rightarrow> u8 list" where
  "parts_bytes ps = concat (map part_bytes (rev ps))"

lemma parts_bytes_simps [simp]:
  "parts_bytes [] = []" "parts_bytes (p # ps) = parts_bytes ps @ part_bytes p"
  by (simp_all add: parts_bytes_def)

definition keys_ok :: "u64 \<times> u64 \<Rightarrow> u8 list \<Rightarrow> enc_keys \<Rightarrow> str list \<Rightarrow> bool" where
  "keys_ok drawn bytes ks names \<longleftrightarrow>
     list_all2 (\<lambda>r k. fst r + snd r \<le> length bytes \<and> slice_of bytes r = as_bytes k) (k_ranges ks) names \<and>
     (case k_hashes ks of None \<Rightarrow> True | Some h \<Rightarrow> (\<lambda>k. hash_one drawn (as_bytes k)) ` set names \<subseteq> h)"

fun part_promise :: "part \<Rightarrow> nat option" where
  "part_promise (PList vs pr) = pr"
| "part_promise (PMap es key pr) = pr"

text \<open>An open container of the encoder and the part it stands for, with the bytes before it;
  \<open>inside\<close> when a value of it is being written, and already counted.\<close>

definition open_ok :: "u64 \<times> u64 \<Rightarrow> bool \<Rightarrow> u8 list \<Rightarrow> enc_open \<Rightarrow> part \<Rightarrow> bool" where
  "open_ok drawn inside pre o1 p \<longleftrightarrow>
     o_at o1 = length pre + 1 \<and>
     o_promised o1 = map_option word_of_nat (part_promise p) \<and>
     (\<forall>n. part_promise p = Some n \<longrightarrow> n < 2 ^ 64) \<and>
     o_written o1 = word_of_nat (part_len p + (if inside then 1 else 0)) \<and>
     part_len p + (if inside then 1 else 0) < 2 ^ 64 \<and>
     (case p of
        PList vs pr \<Rightarrow> o_map o1 = None
      | PMap es key pr \<Rightarrow>
          (\<exists>ks. o_map o1 = Some ks \<and> (inside \<longrightarrow> key \<noteq> None) \<and> k_keyed ks = (\<not> inside \<and> key \<noteq> None) \<and>
             keys_ok drawn (pre @ part_bytes p) ks (map fst es @ (case key of None \<Rightarrow> [] | Some k \<Rightarrow> [k]))))"

fun opens_ok :: "u64 \<times> u64 \<Rightarrow> u8 list \<Rightarrow> bool \<Rightarrow> enc_open list \<Rightarrow> part list \<Rightarrow> bool" where
  "opens_ok drawn out0 inside [] [] = True"
| "opens_ok drawn out0 inside (o1 # os) (p # ps) =
     (open_ok drawn inside (out0 @ parts_bytes ps) o1 p \<and> opens_ok drawn out0 True os ps)"
| "opens_ok drawn out0 inside _ _ = False"

definition enc_stands :: "u64 \<times> u64 \<Rightarrow> u8 list \<Rightarrow> encoder \<Rightarrow> building \<Rightarrow> bool" where
  "enc_stands drawn out0 s b \<longleftrightarrow>
     e_out s = out0 @ parts_bytes (fst b) @ (case snd b of None \<Rightarrow> [] | Some v \<Rightarrow> enc v) \<and>
     e_done s = (snd b \<noteq> None) \<and> opens_ok drawn out0 False (e_open s) (fst b) \<and>
     (fst b \<noteq> [] \<longrightarrow> snd b = None)"

lemma keys_ok_mono:
  assumes "keys_ok drawn bytes ks names"
  shows "keys_ok drawn (bytes @ rst) ks names"
proof -
  have "list_all2 (\<lambda>r k. fst r + snd r \<le> length bytes \<and> slice_of bytes r = as_bytes k) (k_ranges ks) names"
    using assms by (simp add: keys_ok_def)
  then have "list_all2 (\<lambda>r k. fst r + snd r \<le> length (bytes @ rst) \<and>
      slice_of (bytes @ rst) r = as_bytes k) (k_ranges ks) names"
    by (rule list_all2_mono) (auto simp: slice_of_def)
  then show ?thesis using assms by (simp add: keys_ok_def)
qed

lemma enc_stands_Cons:
  "enc_stands drawn out0 s (p # ps, v) \<longleftrightarrow>
     v = None \<and> e_done s = False \<and> e_out s = out0 @ parts_bytes ps @ part_bytes p \<and>
     (\<exists>o1 os. e_open s = o1 # os \<and> open_ok drawn False (out0 @ parts_bytes ps) o1 p \<and>
        opens_ok drawn out0 True os ps)"
  by (cases "e_open s") (auto simp: enc_stands_def)

lemma enc_stands_Nil:
  "enc_stands drawn out0 s ([], v) \<longleftrightarrow>
     e_out s = out0 @ (case v of None \<Rightarrow> [] | Some x \<Rightarrow> enc x) \<and> e_done s = (v \<noteq> None) \<and> e_open s = []"
  by (cases "e_open s") (auto simp: enc_stands_def)

lemma word_of_nat_less_64:
  "a < 2 ^ 64 \<Longrightarrow> b < 2 ^ 64 \<Longrightarrow> (word_of_nat a :: u64) < word_of_nat b \<longleftrightarrow> a < b"
  "a < 2 ^ 64 \<Longrightarrow> b < 2 ^ 64 \<Longrightarrow> (word_of_nat a :: u64) = word_of_nat b \<longleftrightarrow> a = b"
  by (simp_all add: word_less_nat_alt word_unat_eq_iff unat_word_of_nat_64)

text \<open>Before a value: the container it goes in counts it, and a map's key is used up.\<close>

lemma counted_promise:
  assumes "part_promise p = None \<or> (\<exists>k. part_promise p = Some k \<and> k < 2 ^ 64)" "Suc n < 2 ^ 64"
  shows "(case map_option word_of_nat (part_promise p) of Some m \<Rightarrow> (word_of_nat (Suc n) :: u64) > m | None \<Rightarrow> False)
    \<longleftrightarrow> \<not> has_room (part_promise p) n"
  using assms word_of_nat_less_64(1) [of _ "Suc n"] by (auto simp: not_less less_Suc_eq_le)

definition entered :: "enc_open \<Rightarrow> enc_open" where
  "entered o1 = o1\<lparr>o_map := map_option (\<lambda>ks. ks\<lparr>k_keyed := False\<rparr>) (o_map o1), o_written := o_written o1 + 1\<rparr>"

lemma may_put_Cons:
  "may_put (p # ps, v) \<longleftrightarrow> has_room (part_promise p) (part_len p) \<and>
     (case p of PList vs pr \<Rightarrow> True | PMap es key pr \<Rightarrow> key \<noteq> None)"
  by (cases p) auto

lemma open_ok_entered:
  assumes "open_ok drawn False pre o1 p" "Suc (part_len p) < 2 ^ 64"
    "case p of PList vs pr \<Rightarrow> True | PMap es key pr \<Rightarrow> key \<noteq> None"
  shows "open_ok drawn True pre (entered o1) p"
  using assms by (cases p) (auto simp: open_ok_def entered_def keys_ok_def)

lemma value_here_Cons:
  assumes o: "open_ok drawn False pre o1 p" "Suc (part_len p) < 2 ^ 64" and s: "e_open s = o1 # os"
  shows "value_here s = (if may_put (p # ps, v) then Inr (s\<lparr>e_open := entered o1 # os\<rparr>) else Inl WrongKind)"
proof -
  have w: "o_written o1 + 1 = word_of_nat (Suc (part_len p))" using o(1) by (simp add: open_ok_def)
  have "part_promise p = None \<or> (\<exists>k. part_promise p = Some k \<and> k < 2 ^ 64)"
    using o(1) by (cases "part_promise p") (auto simp: open_ok_def)
  note c = counted_promise [OF this o(2)]
  have pr: "o_promised o1 = map_option word_of_nat (part_promise p)" using o(1) by (simp add: open_ok_def)
  have en: "entered o1 = (case o_map o1 of None \<Rightarrow> o1 | Some ks \<Rightarrow> o1\<lparr>o_map := Some (ks\<lparr>k_keyed := False\<rparr>)\<rparr>)
      \<lparr>o_written := o_written o1 + 1\<rparr>"
    by (cases o1) (auto simp: entered_def split: option.splits)
  show ?thesis
  proof (cases p)
    case (PList vs k)
    then have "o_map o1 = None" using o(1) by (simp add: open_ok_def)
    with c w pr PList s en show ?thesis by (cases k) (simp_all add: value_here_def may_put_Cons Let_def add.commute [of "1::u64"])
  next
    case (PMap es key k)
    then obtain ks where "o_map o1 = Some ks" "k_keyed ks = (key \<noteq> None)" using o(1) by (auto simp: open_ok_def)
    with c w pr PMap s en show ?thesis by (cases k) (simp_all add: value_here_def may_put_Cons Let_def add.commute [of "1::u64"])
  qed
qed

lemma value_here_ok:
  assumes "enc_stands drawn out0 s b" "Suc (crowd b) < 2 ^ 64"
  shows "if may_put b then \<exists>os. value_here s = Inr (s\<lparr>e_open := os\<rparr>) \<and> opens_ok drawn out0 True os (fst b)
    else value_here s = Inl WrongKind"
proof (cases b)
  case (Pair ps v)
  show ?thesis
  proof (cases ps)
    case Nil
    have "s\<lparr>e_open := []\<rparr> = s" if "e_open s = []" using that by (cases s) simp
    with Nil Pair assms show ?thesis
      by (auto simp: enc_stands_Nil value_here_def intro!: exI [of _ "[]"])
  next
    case (Cons p qs)
    with assms Pair obtain o1 os where o: "e_open s = o1 # os"
      "open_ok drawn False (out0 @ parts_bytes qs) o1 p" "opens_ok drawn out0 True os qs"
      by (auto simp: enc_stands_Cons)
    have l: "Suc (part_len p) < 2 ^ 64" using assms(2) Pair Cons by simp
    have "may_put b \<Longrightarrow> open_ok drawn True (out0 @ parts_bytes qs) (entered o1) p"
      using open_ok_entered [OF o(2) l] Pair Cons by (simp add: may_put_Cons)
    then show ?thesis using value_here_Cons [OF o(2) l o(1), of qs v] o(3) Pair Cons by auto
  qed
qed

text \<open>After a value: its bytes follow what its container held.\<close>

lemma open_ok_settle:
  assumes "open_ok drawn True pre o1 p"
  shows "\<exists>q. put_value x (p # ps, None) = (q # ps, None) \<and> open_ok drawn False pre o1 q \<and>
    part_bytes q = part_bytes p @ enc x"
proof (cases p)
  case (PList vs pr)
  then show ?thesis using assms by (auto simp: open_ok_def)
next
  case (PMap es key pr)
  with assms obtain ks k where k: "o_map o1 = Some ks" "key = Some k" "\<not> k_keyed ks"
    "keys_ok drawn (pre @ part_bytes p) ks (map fst es @ [k])"
    by (auto simp: open_ok_def)
  then have "keys_ok drawn ((pre @ part_bytes p) @ enc x) ks (map fst (es @ [(k, x)]))"
    using keys_ok_mono [OF k(4), of "enc x"] by simp
  with assms PMap k show ?thesis by (auto simp: open_ok_def)
qed

lemma value_done_ok:
  assumes "opens_ok drawn out0 True (e_open s) ps" "e_out s = out0 @ parts_bytes ps @ enc x" "\<not> e_done s"
  shows "enc_stands drawn out0 (value_done s) (put_value x (ps, None))"
proof (cases ps)
  case Nil
  then show ?thesis using assms by (cases "e_open s") (auto simp: value_done_def enc_stands_Nil)
next
  case (Cons p qs)
  with assms obtain o1 os where o: "e_open s = o1 # os"
    "open_ok drawn True (out0 @ parts_bytes qs) o1 p" "opens_ok drawn out0 True os qs"
    by (cases "e_open s") auto
  from open_ok_settle [OF o(2), of x qs] obtain q where
    "put_value x (p # qs, None) = (q # qs, None)" "open_ok drawn False (out0 @ parts_bytes qs) o1 q"
    "part_bytes q = part_bytes p @ enc x" by blast
  with o assms Cons show ?thesis by (auto simp: value_done_def enc_stands_Cons)
qed

text \<open>A leaf.\<close>

definition matches ::
  "u64 \<times> u64 \<Rightarrow> u8 list \<Rightarrow> value_error + encoder \<Rightarrow> value_error + building \<Rightarrow> bool" where
  "matches drawn out0 r q \<longleftrightarrow>
     (case q of Inl x \<Rightarrow> r = Inl x | Inr b \<Rightarrow> \<exists>s. r = Inr s \<and> enc_stands drawn out0 s b)"

lemma matches_simps [simp]:
  "matches drawn out0 r (Inl x) \<longleftrightarrow> r = Inl x"
  "matches drawn out0 r (Inr b) \<longleftrightarrow> (\<exists>s. r = Inr s \<and> enc_stands drawn out0 s b)"
  by (simp_all add: matches_def)

abbreviation follows_put ::
  "u64 \<times> u64 \<Rightarrow> u8 list \<Rightarrow> encoder \<Rightarrow> building \<Rightarrow> event \<Rightarrow> bool" where
  "follows_put drawn out0 s b e \<equiv> matches drawn out0 (enc_put drawn e s) (put_event e b)"

lemma may_put_done: "enc_stands drawn out0 s b \<Longrightarrow> may_put b \<Longrightarrow> snd b = None"
  by (cases b; cases "fst b") (auto simp: enc_stands_def)

lemma leaf_follows:
  assumes s: "enc_stands drawn out0 s b" "Suc (crowd b) < 2 ^ 64"
    and w: "\<And>s1. value_here s = Inr s1 \<Longrightarrow> write s = Inr (value_done (s1\<lparr>e_out := e_out s1 @ enc x\<rparr>))"
      "\<And>err. value_here s = Inl err \<Longrightarrow> write s = Inl err"
  shows "matches drawn out0 (write s) (put_leaf x b)"
proof (cases "may_put b")
  case True
  then obtain os where v: "value_here s = Inr (s\<lparr>e_open := os\<rparr>)" and os: "opens_ok drawn out0 True os (fst b)"
    using value_here_ok [OF s] by auto
  let ?s = "s\<lparr>e_open := os, e_out := e_out s @ enc x\<rparr>"
  have sn: "snd b = None" by (rule may_put_done [OF s(1) True])
  then have "enc_stands drawn out0 (value_done ?s) (put_value x (fst b, None))"
    using s(1) os by (intro value_done_ok) (auto simp: enc_stands_def)
  moreover have "put_value x (fst b, None) = put_value x b" using sn by (metis prod.collapse)
  ultimately show ?thesis using w(1) [OF v] True by (simp add: put_leaf_def)
next
  case False
  with value_here_ok [OF s] w(2) show ?thesis by (simp add: put_leaf_def)
qed

lemma leaves_follow:
  assumes s: "enc_stands drawn out0 s b" "Suc (crowd b) < 2 ^ 64"
  shows "follows_put drawn out0 s b EAbsent" "follows_put drawn out0 s b ENull"
    "follows_put drawn out0 s b (EBool f)" "follows_put drawn out0 s b (EString t)"
    "follows_put drawn out0 s b (EBytes bs)" "follows_put drawn out0 s b (ENumber t)"
proof -
  note l = leaf_follows [OF s] and t = tag_byte_def
  show "follows_put drawn out0 s b EAbsent"
    using l [of "enc_leaf GUATIAO_ABSENT None" VAbsent] by (simp add: enc_leaf_def t)
  show "follows_put drawn out0 s b ENull"
    using l [of "enc_leaf GUATIAO_NULL None" VNull] by (simp add: enc_leaf_def t)
  show "follows_put drawn out0 s b (EBool f)"
    using l [of "enc_bool f" "VBool f"] by (simp add: enc_bool_def t)
  show "follows_put drawn out0 s b (EString t)"
    using l [of "enc_leaf GUATIAO_STRING (Some (as_bytes t))" "VString t"] by (simp add: enc_leaf_def t put_text_eq)
  show "follows_put drawn out0 s b (EBytes bs)"
    using l [of "enc_leaf GUATIAO_BYTES (Some bs)" "VBytes bs"] by (simp add: enc_leaf_def t put_text_eq)
  have "matches drawn out0 (enc_leaf GUATIAO_NUMBER (Some (as_bytes t)) s) (put_leaf (VNumber t) b)"
    using l [of "enc_leaf GUATIAO_NUMBER (Some (as_bytes t))" "VNumber t"] by (simp add: enc_leaf_def t put_text_eq)
  then show "follows_put drawn out0 s b (ENumber t)"
    by (cases "validate_json_number t") (simp_all add: is_number_def)
qed

text \<open>A container's begin.\<close>

definition new_open :: "nat \<Rightarrow> nat option \<Rightarrow> bool \<Rightarrow> enc_open" where
  "new_open pos len ismap = \<lparr>o_at = pos, o_promised = map_option word_of_nat len, o_written = 0,
     o_map = (if ismap then Some \<lparr>k_ranges = [], k_hashes = None, k_keyed = False\<rparr> else None)\<rparr>"

lemma begin_follows:
  assumes s: "enc_stands drawn out0 s b" "Suc (crowd b) < 2 ^ 64"
    and p: "part_bytes p = tag_byte t # count_bytes len"
    and o1: "\<And>pre. open_ok drawn False pre (new_open (length pre + 1) len ismap) p"
  shows "matches drawn out0 (enc_begin t len ismap s) (put_open p b)"
proof (cases "may_put b")
  case True
  then obtain os where v: "value_here s = Inr (s\<lparr>e_open := os\<rparr>)" and os: "opens_ok drawn out0 True os (fst b)"
    using value_here_ok [OF s] by auto
  have sn: "snd b = None" by (rule may_put_done [OF s(1) True])
  then have out: "e_out s = out0 @ parts_bytes (fst b)" using s(1) by (simp add: enc_stands_def)
  let ?s = "s\<lparr>e_open := new_open (length (out0 @ parts_bytes (fst b)) + 1) len ismap # os,
    e_out := out0 @ parts_bytes (fst b) @ part_bytes p\<rparr>"
  have "enc_begin t len ismap s = Inr ?s"
    using v out p by (cases len) (simp_all add: enc_begin_def Let_def tag_byte_def put_len_append
        [of "out0 @ _"] new_open_def)
  moreover have "enc_stands drawn out0 ?s (p # fst b, snd b)"
    using o1 [of "out0 @ parts_bytes (fst b)"] os sn s(1) by (auto simp: enc_stands_Cons enc_stands_def)
  ultimately show ?thesis using True by (simp add: put_open_def)
next
  case False
  with value_here_ok [OF s] show ?thesis by (simp add: put_open_def enc_begin_def)
qed

lemma begins_follow:
  assumes s: "enc_stands drawn out0 s b" "Suc (crowd b) < 2 ^ 64"
    and len: "\<forall>n. len = Some n \<longrightarrow> n < 2 ^ 64"
  shows "follows_put drawn out0 s b (EListBegin len)" "follows_put drawn out0 s b (EMapBegin len)"
  using begin_follows [OF s, of "PList [] len" GUATIAO_LIST len False]
    begin_follows [OF s, of "PMap [] None len" GUATIAO_MAP len True] len
  by (auto simp: open_ok_def new_open_def keys_ok_def)

text \<open>A container's end.\<close>

lemma put_count_eq:
  "put_count (length pre + 1) n (pre @ t # 0 # body) = pre @ t # enc_len n @ body"
proof -
  have d: "take (length pre + 1) (pre @ t # 0 # body) = pre @ [t]"
    "take 1 (t # 0 # body) = [t]" "drop (length pre + 1 + 1) (pre @ t # 0 # body) = body" by simp_all
  have u: "(pre @ t # 0 # body)[length pre + 1 := one] = pre @ t # one # body" for one
    by (simp add: list_update_append)
  show ?thesis
  proof (cases "enc_len n")
    case Nil
    then show ?thesis using enc_len_nonempty [of n] by simp
  next
    case (Cons a as)
    then show ?thesis
      by (cases as) (simp_all add: put_count_def enc_len_def [symmetric] u d del: One_nat_def)
  qed
qed

definition closed_value :: "part \<Rightarrow> Value" where
  "closed_value p = (case p of PList vs pr \<Rightarrow> VList vs | PMap es key pr \<Rightarrow> VMap es)"

lemma end_follows:
  assumes s: "enc_stands drawn out0 s (p # ps, v)"
    and p: "case p of PList vs pr \<Rightarrow> \<not> ismap | PMap es key pr \<Rightarrow> ismap \<and> key = None"
  shows "if kept (part_promise p) (part_len p)
    then \<exists>s'. enc_end ismap s = Inr s' \<and> enc_stands drawn out0 s' (put_value (closed_value p) (ps, v))
    else enc_end ismap s = Inl WrongKind"
proof -
  from s obtain o1 os where o: "v = None" "\<not> e_done s" "e_out s = out0 @ parts_bytes ps @ part_bytes p"
    "e_open s = o1 # os" "open_ok drawn False (out0 @ parts_bytes ps) o1 p" "opens_ok drawn out0 True os ps"
    by (auto simp: enc_stands_Cons)
  have g: "case o_map o1 of None \<Rightarrow> \<not> ismap | Some keys \<Rightarrow> ismap \<and> \<not> k_keyed keys"
    using o(5) p by (cases p) (auto simp: open_ok_def)
  have w: "o_written o1 = word_of_nat (part_len p)" "part_len p < 2 ^ 64"
    "o_promised o1 = map_option word_of_nat (part_promise p)" "\<forall>n. part_promise p = Some n \<longrightarrow> n < 2 ^ 64"
    "o_at o1 = length (out0 @ parts_bytes ps) + 1"
    using o(5) by (auto simp: open_ok_def)
  have fin: "enc_stands drawn out0 (value_done (s\<lparr>e_open := os, e_out := out\<rparr>)) (put_value (closed_value p) (ps, v))"
    if "out = out0 @ parts_bytes ps @ enc (closed_value p)" for out
    using o(1,2,6) that by (auto intro: value_done_ok)
  show ?thesis
  proof (cases "part_promise p")
    case None
    have "put_count (o_at o1) (o_written o1) (e_out s) = out0 @ parts_bytes ps @ enc (closed_value p)"
      using put_count_eq [of "out0 @ parts_bytes ps"] None p
      by (cases p) (simp_all add: o(3) w(1,5) closed_value_def)
    with fin None o(4) g w(3) show ?thesis by (simp add: enc_end_def)
  next
    case (Some n)
    show ?thesis
    proof (cases "n = part_len p")
      case True
      have "e_out s = out0 @ parts_bytes ps @ enc (closed_value p)"
        using Some True p by (cases p) (simp_all add: o(3) closed_value_def)
      then have "enc_stands drawn out0 (value_done (s\<lparr>e_open := os\<rparr>)) (put_value (closed_value p) (ps, v))"
        using o(1,2,6) by (auto intro: value_done_ok)
      with Some True o(4) g w show ?thesis by (simp add: enc_end_def)
    next
      case False
      then have "(word_of_nat n :: u64) \<noteq> word_of_nat (part_len p)"
        using w(2,4) Some by (simp add: word_of_nat_less_64)
      with Some False o(4) g w show ?thesis by (simp add: enc_end_def)
    qed
  qed
qed

text \<open>A key.\<close>

lemma keys_ok_repeated:
  assumes "keys_ok drawn bytes ks names"
  shows "(case k_hashes ks of
      Some hashes \<Rightarrow> hash_one drawn (as_bytes k) \<in> hashes \<and> list_ex (\<lambda>r. slice_of bytes r = as_bytes k) (k_ranges ks)
    | None \<Rightarrow> list_ex (\<lambda>r. slice_of bytes r = as_bytes k) (k_ranges ks)) \<longleftrightarrow> k \<in> set names"
proof -
  have l: "list_all2 (\<lambda>r k. fst r + snd r \<le> length bytes \<and> slice_of bytes r = as_bytes k) (k_ranges ks) names"
    using assms by (simp add: keys_ok_def)
  then have "list_ex (\<lambda>r. slice_of bytes r = as_bytes k) (k_ranges ks) \<longleftrightarrow> k \<in> set names"
    by (induction rule: list_all2_induct) auto
  then show ?thesis using assms by (auto simp: keys_ok_def split: option.splits)
qed

lemma list_all2_hashes:
  "list_all2 (\<lambda>r k. A r \<and> f r = g k) rs names \<Longrightarrow> map (\<lambda>r. h (f r)) rs = map (\<lambda>k. h (g k)) names"
  by (induction rule: list_all2_induct) auto

lemma keys_ok_add:
  assumes k: "keys_ok drawn bytes ks names" and l: "lead = bytes @ more'"
    and h: "hashes = (case k_hashes ks of Some hs \<Rightarrow> Some (insert (hash_one drawn (as_bytes key)) hs)
      | None \<Rightarrow> if wide then Some (set (map (\<lambda>r. hash_one drawn (slice_of (lead @ as_bytes key) r))
          (k_ranges ks @ [(length lead, length key)]))) else None)"
  shows "keys_ok drawn (lead @ as_bytes key)
    \<lparr>k_ranges = k_ranges ks @ [(length lead, length key)], k_hashes = hashes, k_keyed = kd\<rparr> (names @ [key])"
proof -
  let ?out = "lead @ as_bytes key"
  have "list_all2 (\<lambda>r k. fst r + snd r \<le> length ?out \<and> slice_of ?out r = as_bytes k) (k_ranges ks) names"
    using keys_ok_mono [OF k, of "more' @ as_bytes key"] l by (simp add: keys_ok_def)
  then have all: "list_all2 (\<lambda>r k. fst r + snd r \<le> length ?out \<and> slice_of ?out r = as_bytes k)
      (k_ranges ks @ [(length lead, length key)]) (names @ [key])"
    by (intro list_all2_appendI) (auto simp: slice_of_def)
  have "set (map (\<lambda>r. hash_one drawn (slice_of ?out r)) (k_ranges ks @ [(length lead, length key)])) =
      (\<lambda>k. hash_one drawn (as_bytes k)) ` set (names @ [key])"
    unfolding list_all2_hashes [OF all] by simp
  then show ?thesis using all k h by (auto simp: keys_ok_def split: option.splits)
qed

lemma key_follows:
  assumes s: "enc_stands drawn out0 s b" "Suc (crowd b) < 2 ^ 64"
  shows "follows_put drawn out0 s b (EKey key)"
proof (cases b)
  case (Pair ps v)
  show ?thesis
  proof (cases ps)
    case Nil
    with Pair s show ?thesis by (simp add: enc_stands_Nil enc_key_def)
  next
    case (Cons p qs)
    with s Pair obtain o1 os where o: "v = None" "\<not> e_done s" "e_out s = out0 @ parts_bytes qs @ part_bytes p"
      "e_open s = o1 # os" "open_ok drawn False (out0 @ parts_bytes qs) o1 p" "opens_ok drawn out0 True os qs"
      by (auto simp: enc_stands_Cons)
    show ?thesis
    proof (cases p)
      case (PList vs pr)
      with o Pair Cons show ?thesis by (simp add: enc_key_def open_ok_def)
    next
      case (PMap es k0 pr)
      with o(5) obtain ks where ks: "o_map o1 = Some ks" "k_keyed ks = (k0 \<noteq> None)"
        "keys_ok drawn (e_out s) ks (map fst es @ (case k0 of None \<Rightarrow> [] | Some k \<Rightarrow> [k]))"
        by (auto simp: open_ok_def o(3))
      show ?thesis
      proof (cases k0)
        case (Some k)
        with o ks PMap Pair Cons show ?thesis by (simp add: enc_key_def)
      next
        case None
        then have ko: "keys_ok drawn (e_out s) ks (map fst es)" using ks(3) by simp
        note rep = keys_ok_repeated [OF ko, of key]
        let ?lead = "e_out s @ enc_len (word_of_nat (length key))"
        show ?thesis
        proof (cases "key \<in> set (map fst es)")
          case True
          with rep have "enc_key drawn key s = Inl DuplicateKey"
            using o(4) ks None by (simp add: enc_key_def Let_def)
          then show ?thesis using True None PMap Pair Cons by simp
        next
          case False
          obtain hashes where e: "enc_key drawn key s = Inr (s\<lparr>e_out := ?lead @ as_bytes key,
              e_open := o1\<lparr>o_map := Some \<lparr>k_ranges = k_ranges ks @ [(length ?lead, length key)],
                k_hashes = hashes, k_keyed = True\<rparr>\<rparr> # os\<rparr>)"
            and k: "keys_ok drawn (?lead @ as_bytes key) \<lparr>k_ranges = k_ranges ks @ [(length ?lead, length key)],
                k_hashes = hashes, k_keyed = True\<rparr> (map fst es @ [key])"
          proof -
            let ?rs = "k_ranges ks @ [(length ?lead, length key)]"
            let ?wide = "length ?rs + (case o_promised o1 of None \<Rightarrow> 0 | Some n \<Rightarrow> unat n - length ?rs) > LINEAR"
            let ?hs = "case k_hashes ks of Some hs \<Rightarrow> Some (insert (hash_one drawn (as_bytes key)) hs)
              | None \<Rightarrow> if ?wide then Some (set (map (\<lambda>r. hash_one drawn (slice_of (?lead @ as_bytes key) r))
                  (k_ranges ks @ [(length ?lead, length key)]))) else None"
            have "enc_key drawn key s = Inr (s\<lparr>e_out := ?lead @ as_bytes key,
              e_open := o1\<lparr>o_map := Some \<lparr>k_ranges = k_ranges ks @ [(length ?lead, length key)],
                k_hashes = ?hs, k_keyed = True\<rparr>\<rparr> # os\<rparr>)"
              using rep False o(4) ks None by (simp add: enc_key_def Let_def put_len_append [of "e_out s"])
            then show thesis by (rule that [OF _ keys_ok_add [OF ko refl refl]])
          qed
          let ?p = "PMap es (Some key) pr"
          have "part_bytes ?p = part_bytes p @ enc_bytes (as_bytes key)" using PMap None by simp
          then have "?lead @ as_bytes key = out0 @ parts_bytes qs @ part_bytes ?p"
            by (simp add: o(3) enc_bytes_def)
          then show ?thesis
            using e k o PMap None Pair Cons False
            by (auto simp: enc_stands_Cons open_ok_def simp del: part_bytes.simps)
        qed
      qed
    qed
  qed
qed

text \<open>The encoder takes what the machine takes, and refuses the rest with the same error.\<close>

lemma ends_follow:
  assumes "enc_stands drawn out0 s b"
  shows "follows_put drawn out0 s b EListEnd" "follows_put drawn out0 s b EMapEnd"
proof -
  obtain ps v where b: "b = (ps, v)" by (cases b)
  have n: "enc_end ismap s = Inl WrongKind" if "ps = []" for ismap
    using assms that b by (simp add: enc_stands_Nil enc_end_def)
  have w: "enc_end ismap s = Inl WrongKind"
    if "ps = p # qs" "\<not> (case p of PList vs pr \<Rightarrow> \<not> ismap | PMap es key pr \<Rightarrow> ismap \<and> key = None)" for p qs ismap
    using assms that b by (cases p) (auto simp: enc_stands_Cons enc_end_def open_ok_def)
  have ok: "if kept (part_promise p) (part_len p)
      then \<exists>s'. enc_end ismap s = Inr s' \<and> enc_stands drawn out0 s' (put_value (closed_value p) (qs, v))
      else enc_end ismap s = Inl WrongKind"
    if "ps = p # qs" "case p of PList vs pr \<Rightarrow> \<not> ismap | PMap es key pr \<Rightarrow> ismap \<and> key = None" for p qs ismap
    using end_follows [of drawn out0 s p qs v ismap] assms that b by simp
  show "follows_put drawn out0 s b EListEnd"
    using b n w [of _ _ False] ok [of _ _ False]
    by (auto simp: closed_value_def split: list.split part.split)
  show "follows_put drawn out0 s b EMapEnd"
    using b n w [of _ _ True] ok [of _ _ True]
    by (auto simp: closed_value_def split: list.split part.split option.split)
qed

lemma encoder_follows:
  assumes "enc_stands drawn out0 s b" "Suc (crowd b) < 2 ^ 64" "event_ok e"
  shows "follows_put drawn out0 s b e"
  using leaves_follow [OF assms(1,2)] begins_follow [OF assms(1,2)] key_follows [OF assms(1,2)]
    ends_follow [OF assms(1)] assms(3)
  by (cases e rule: event_ok.cases) auto

interpretation encoder: strict_sink "enc_put drawn" "enc_stands drawn out0" for drawn out0
proof
  fix s b e b'
  assume "enc_stands drawn out0 s b" "put_event e b = Inr b'" "event_ok e" "Suc (crowd b) < 2 ^ 64"
  with encoder_follows show "\<exists>s'. enc_put drawn e s = Inr s' \<and> enc_stands drawn out0 s' b'" by fastforce
next
  fix s b e x
  assume "enc_stands drawn out0 s b" "put_event e b = Inl x" "event_ok e" "Suc (crowd b) < 2 ^ 64"
  with encoder_follows show "enc_put drawn e s = Inl x" by fastforce
qed

lemma encoder_new_stands [simp]: "enc_stands drawn out0 (encoder_new out0) ([], None)"
  by (simp add: enc_stands_Nil encoder_new_def)

lemma complete_iff: "enc_stands drawn out0 s (ps, v) \<Longrightarrow> is_complete s \<longleftrightarrow> ps = [] \<and> v \<noteq> None"
  by (cases ps) (auto simp: is_complete_def enc_stands_Nil enc_stands_Cons)

section \<open>What the bytes of a stream say\<close>

definition events_ok :: "event list \<Rightarrow> bool" where
  "events_ok evs \<longleftrightarrow> list_all event_ok evs \<and> length evs < 2 ^ 64"

lemma events_ok_concat: "events_ok (concat ess) \<Longrightarrow> list_all events_ok ess"
  by (induction ess) (auto simp: events_ok_def)

lemma events_ok_body: "events_ok (e # body @ [e']) \<Longrightarrow> events_ok body"
  by (simp add: events_ok_def)

lemma list_all2_transfer:
  assumes "list_all2 P ess xs" "list_all Q ess" "\<And>e x. P e x \<Longrightarrow> Q e \<Longrightarrow> R x"
  shows "list_all R xs"
  using assms by (induction rule: list_all2_induct) auto

lemma list_all2_map2_left:
  "list_all2 P ess kvs \<Longrightarrow> (\<And>e kv. P e kv \<Longrightarrow> Q (f e kv) kv) \<Longrightarrow> list_all2 Q (map2 f ess kvs) kvs"
  by (induction rule: list_all2_induct) auto

lemma list_all2_length_concat:
  assumes "list_all2 P ess xs" "\<And>e x. P e x \<Longrightarrow> e \<noteq> []"
  shows "length xs \<le> length (concat ess)"
  using assms(1)
proof (induction rule: list_all2_induct)
  case (Cons e ess x xs)
  then have "1 \<le> length e" using assms(2) [of e x] by (simp add: Suc_leI)
  with Cons show ?case by simp
qed simp

lemma spells_event_nonempty: "spells e v \<Longrightarrow> e \<noteq> []"
  by (cases rule: spells.cases) auto

lemma spells_wire_ok: "spells evs v \<Longrightarrow> events_ok evs \<Longrightarrow> wire_ok v"
proof (induction rule: spells.induct)
  case (List ess xs pr)
  have body: "events_ok (concat ess)" using List.prems by (rule events_ok_body)
  have "list_all wire_ok xs"
    by (rule list_all2_transfer [OF List(1) events_ok_concat [OF body]]) simp
  moreover have "length xs \<le> length (concat ess)"
    using List(1) by (rule list_all2_length_concat) (blast dest: spells_event_nonempty)
  ultimately show ?case using body by (simp add: events_ok_def)
next
  case (Map ess kvs pr)
  let ?f = "\<lambda>e kv. EKey (fst kv) # e"
    and ?R = "\<lambda>kv. is_text (fst kv) \<and> length (fst kv) < 2 ^ 64 \<and> wire_ok (snd kv)"
  have body: "events_ok (concat (map2 ?f ess kvs))" using Map.prems by (rule events_ok_body)
  have l: "list_all2 (\<lambda>e kv. e \<noteq> [] \<and> (events_ok e \<longrightarrow> ?R kv)) (map2 ?f ess kvs) kvs"
    by (rule list_all2_map2_left [OF Map(1)]) (auto simp: events_ok_def)
  have "list_all ?R kvs"
    by (rule list_all2_transfer [OF l events_ok_concat [OF body]]) simp
  moreover have "length kvs \<le> length (concat (map2 ?f ess kvs))"
    using l by (rule list_all2_length_concat) simp
  ultimately show ?case using body Map(2) by (simp add: events_ok_def)
qed (auto simp: events_ok_def)

lemma encoder_complete_iff:
  assumes "events_ok evs"
  shows "(\<exists>s. put_all (enc_put drawn) evs (encoder_new out) = Inr s \<and> is_complete s \<and> e_out s = bytes)
    \<longleftrightarrow> (\<exists>v. spells evs v \<and> bytes = out @ enc v)"
proof
  assume "\<exists>s. put_all (enc_put drawn) evs (encoder_new out) = Inr s \<and> is_complete s \<and> e_out s = bytes"
  then obtain s where s: "put_all (enc_put drawn) evs (encoder_new out) = Inr s" "is_complete s" "e_out s = bytes"
    by blast
  from encoder.takes_only [OF encoder_new_stands s(1)] assms
  obtain ps v where b: "put_all put_event evs ([], None) = Inr (ps, v)" "enc_stands drawn out s (ps, v)"
    by (auto simp: events_ok_def)
  with s(2) complete_iff [OF b(2)] obtain x where x: "ps = []" "v = Some x" by auto
  then have "spells evs x" using spelt_run [of "([], None)" "[]" evs] b(1) by fastforce
  then show "\<exists>v. spells evs v \<and> bytes = out @ enc v" using b(2) x s(3) by (auto simp: enc_stands_Nil)
next
  assume "\<exists>v. spells evs v \<and> bytes = out @ enc v"
  then obtain v where v: "spells evs v" "bytes = out @ enc v" by blast
  from encoder.takes_spelling [OF encoder_new_stands [of drawn out] v(1)] assms
  obtain s where "put_all (enc_put drawn) evs (encoder_new out) = Inr s" "enc_stands drawn out s ([], Some v)"
    by (auto simp: events_ok_def)
  with v complete_iff [of drawn out s "[]" "Some v"] show "\<exists>s. put_all (enc_put drawn) evs (encoder_new out) = Inr s \<and> is_complete s \<and> e_out s = bytes"
    by (auto simp: enc_stands_Nil)
qed

lemma encode_wire_ok: "wire_ok v \<Longrightarrow> encode v out = Inr (out @ enc v)"
  using wire_ok_readable [of v] by (simp add: encode_eq refusal_None [of NotANumber, symmetric])

text \<open>A walk that a sink of the grammar takes is of a tree with no key twice.\<close>

lemma put_items_only:
  assumes "\<And>x b b'. x \<in> set xs \<Longrightarrow> put_all put_event (events x) b = Inr b' \<Longrightarrow>
      unrepeated x \<and> may_put b \<and> b' = put_value x b"
    and "put_all put_event (concat (map events xs)) (PList vs pr # ps, v) = Inr b'"
  shows "list_all unrepeated xs"
  using assms
proof (induction xs arbitrary: vs)
  case (Cons x xs)
  then obtain b1 where b1: "put_all put_event (events x) (PList vs pr # ps, v) = Inr b1"
    "put_all put_event (concat (map events xs)) b1 = Inr b'" by auto
  have "unrepeated x" "b1 = (PList (vs @ [x]) pr # ps, v)"
    using Cons.prems(1) [OF _ b1(1)] by simp_all
  moreover have "list_all unrepeated xs"
  proof (rule Cons.IH)
    show "put_all put_event (concat (map events xs)) (PList (vs @ [x]) pr # ps, v) = Inr b'"
      using b1(2) calculation(2) by simp
  next
    fix y b b' assume "y \<in> set xs" "put_all put_event (events y) b = Inr b'"
    then show "unrepeated y \<and> may_put b \<and> b' = put_value y b" using Cons.prems(1) [of y b b'] by simp
  qed
  ultimately show ?case by simp
qed simp

lemma put_entries_only:
  assumes "\<And>e b b'. e \<in> set fs \<Longrightarrow> put_all put_event (events (snd e)) b = Inr b' \<Longrightarrow>
      unrepeated (snd e) \<and> may_put b \<and> b' = put_value (snd e) b"
    and "put_all put_event (concat (map (\<lambda>e. EKey (fst e) # events (snd e)) fs)) (PMap es None pr # ps, v) = Inr b'"
    and "distinct (map fst es)"
  shows "list_all (\<lambda>e. unrepeated (snd e)) fs \<and> distinct (map fst (es @ fs))"
  using assms
proof (induction fs arbitrary: es)
  case (Cons e fs)
  from Cons.prems(2) obtain b1 where b1: "fst e \<notin> fst ` set es"
    "put_all put_event (events (snd e)) (PMap es (Some (fst e)) pr # ps, v) = Inr b1"
    "put_all put_event (concat (map (\<lambda>e. EKey (fst e) # events (snd e)) fs)) b1 = Inr b'"
    by (auto split: if_splits)
  have u: "unrepeated (snd e)" "b1 = (PMap (es @ [e]) None pr # ps, v)"
    using Cons.prems(1) [OF _ b1(2)] by simp_all
  have "list_all (\<lambda>e. unrepeated (snd e)) fs \<and> distinct (map fst ((es @ [e]) @ fs))"
  proof (rule Cons.IH)
    show "put_all put_event (concat (map (\<lambda>e. EKey (fst e) # events (snd e)) fs))
        (PMap (es @ [e]) None pr # ps, v) = Inr b'" using b1(3) u(2) by simp
    show "distinct (map fst (es @ [e]))" using Cons.prems(3) b1(1) by simp
  next
    fix y b b' assume "y \<in> set fs" "put_all put_event (events (snd y)) b = Inr b'"
    then show "unrepeated (snd y) \<and> may_put b \<and> b' = put_value (snd y) b"
      using Cons.prems(1) [of y b b'] by simp
  qed
  with u(1) show ?case by simp
qed simp

lemma put_leaf_only: "put_leaf x b = Inr b' \<Longrightarrow> may_put b \<and> b' = put_value x b"
  by (auto simp: put_leaf_def split: if_splits)

lemma put_events_only:
  "readable x \<Longrightarrow> put_all put_event (events x) b = Inr b' \<Longrightarrow> unrepeated x \<and> may_put b \<and> b' = put_value x b"
proof (induction x arbitrary: b b' rule: value_induct)
  case (List xs)
  from List.prems(2) obtain c where m: "may_put b"
    and c: "put_all put_event (concat (map events xs)) (PList [] (Some (length xs)) # fst b, snd b) = Inr c"
    by (auto simp: put_open_def split: if_splits)
  have "list_all unrepeated xs"
    by (rule put_items_only [OF _ c]) (use List in \<open>auto simp: list_all_iff\<close>)
  then have u: "unrepeated (VList xs)" by simp
  have "put_all put_event (events (VList xs)) b = Inr (put_value (VList xs) b)"
    using spells_reads [OF spells_events [OF List.prems(1) u]] m by blast
  with m List.prems(2) u show ?case by simp
next
  case (Map es)
  from Map.prems(2) obtain c where m: "may_put b"
    and c: "put_all put_event (concat (map (\<lambda>e. EKey (fst e) # events (snd e)) es))
      (PMap [] None (Some (length es)) # fst b, snd b) = Inr c"
    by (auto simp: put_open_def split: if_splits)
  have "list_all (\<lambda>e. unrepeated (snd e)) es \<and> distinct (map fst ([] @ es))"
  proof (rule put_entries_only [OF _ c])
    fix e b b' assume "e \<in> set es" "put_all put_event (events (snd e)) b = Inr b'"
    then show "unrepeated (snd e) \<and> may_put b \<and> b' = put_value (snd e) b"
      using Map.IH [of "fst e" "snd e"] Map.prems(1) by (auto simp: list_all_iff)
  qed simp
  then have u: "unrepeated (VMap es)" by simp
  have "put_all put_event (events (VMap es)) b = Inr (put_value (VMap es) b)"
    using spells_reads [OF spells_events [OF Map.prems(1) u]] m by blast
  with m Map.prems(2) u show ?case by simp
qed (auto dest: put_leaf_only split: if_splits)

lemma encode_of_iff:
  assumes ok: "events_ok (events v)"
  shows "encode_of drawn v out = Inr bytes \<longleftrightarrow>
    encode v out = Inr bytes \<and> unrepeated v \<and> nesting v \<le> MAX_DEPTH"
proof
  assume "encode_of drawn v out = Inr bytes"
  then obtain s where s: "walk_deep (enc_put drawn) 0 v (encoder_new out) = Inr s" "is_complete s" "e_out s = bytes"
    by (auto simp: encode_of_def walk_value_def split: if_splits)
  have r: "readable v" "nesting v \<le> MAX_DEPTH" using walk_deep_Inr [OF s(1)] by simp_all
  then have p: "put_all (enc_put drawn) (events v) (encoder_new out) = Inr s"
    using s(1) walk_deep_events [of v 0 "enc_put drawn"] by simp
  obtain b where b: "put_all put_event (events v) ([], None) = Inr b"
    using encoder.takes_only [OF encoder_new_stands p] ok by (auto simp: events_ok_def)
  have u: "unrepeated v" "spells (events v) v" using put_events_only [OF r(1) b] spells_events r(1) by auto
  obtain w where w: "spells (events v) w" "bytes = out @ enc w"
    using encoder_complete_iff [OF ok, of drawn out bytes] p s by blast
  have "w = v" using u(2) w(1) described_iff [of "events v"] by (metis option.inject)
  then show "encode v out = Inr bytes \<and> unrepeated v \<and> nesting v \<le> MAX_DEPTH"
    using w u r encode_wire_ok [OF spells_wire_ok [OF u(2) ok]] by simp
next
  assume e: "encode v out = Inr bytes \<and> unrepeated v \<and> nesting v \<le> MAX_DEPTH"
  then have r: "readable v" by (cases "wire_refusal v") (auto simp: encode_eq refusal_None)
  then have u: "spells (events v) v" using e spells_events by blast
  obtain s where s: "put_all (enc_put drawn) (events v) (encoder_new out) = Inr s" "is_complete s" "e_out s = out @ enc v"
    using encoder_complete_iff [OF ok, of drawn out "out @ enc v"] u by blast
  have "out @ enc v = bytes" using e encode_wire_ok [OF spells_wire_ok [OF u ok]] by simp
  then show "encode_of drawn v out = Inr bytes"
    using s walk_deep_events [of v 0 "enc_put drawn"] r e by (simp add: encode_of_def walk_value_def)
qed

section \<open>Properties\<close>

text \<open>C5: the encoder completes on exactly the event sequences that spell a value, and what it has
  then appended is that value's encoding; promised counts, counts filled in afterwards and
  the keys' hashes change nothing.\<close>

theorem encoder_writes_the_value_spelt:
  assumes "events_ok evs"
  shows "(\<exists>s. put_all (enc_put drawn) evs (encoder_new out) = Inr s \<and> is_complete s \<and> e_out s = bytes)
    \<longleftrightarrow> (\<exists>v. spells evs v \<and> encode v out = Inr bytes)"
  unfolding encoder_complete_iff [OF assms]
  using encode_wire_ok [OF spells_wire_ok [OF _ assms], of _ out] by (metis sum.inject(2))

theorem encoder_writes_the_value_spelt_witness:
  "\<exists>s. put_all (enc_put (7, 0)) [EListBegin None, ENull, EListEnd] (encoder_new []) = Inr s \<and>
    is_complete s \<and> e_out s = [6, 1, 1]"
proof -
  have "spells [EListBegin None, ENull, EListEnd] (VList [VNull])"
    using spells.List [of "[[ENull]]" "[VNull]" None] by (simp add: spells.Null)
  moreover have "encode (VList [VNull]) [] = Inr [6, 1, 1]"
    by (simp add: encode_eq enc_len_unfold tag_byte_def)
  ultimately show ?thesis
    using encoder_writes_the_value_spelt [of "[EListBegin None, ENull, EListEnd]" "(7, 0)" "[]" "[6, 1, 1]"]
    by (auto simp: events_ok_def)
qed

text \<open>What the encoder wrote decodes to the value \<open>TreeSink\<close> builds from the same events: the
  stream, the tree and the bytes are one value.\<close>

theorem streamed_bytes_decode_to_the_tree:
  assumes "events_ok evs" "put_all (enc_put drawn) evs (encoder_new []) = Inr s" "is_complete s"
  shows "\<exists>v. decode drawn' (e_out s) = Inr v \<and>
    and_then (put_all (tree_put drawn'') evs tree_sink_new) into_value = Inr v"
proof -
  obtain v where v: "spells evs v" "e_out s = enc v"
    using encoder_complete_iff [OF assms(1), of drawn "[]" "e_out s"] assms(2,3) by auto
  have "decode drawn' (e_out s) = Inr v"
    using decode_enc [OF spells_wire_ok [OF v(1) assms(1)]] v(2) by (simp add: decode_def)
  moreover have "\<exists>t. put_all (tree_put drawn'') evs tree_sink_new = Inr t \<and> tree_follows t ([], Some v)"
    using tree.takes_spelling [OF tree_new_follows v(1)] assms(1) by (simp add: events_ok_def)
  ultimately show ?thesis using tree_follows_value by auto
qed

theorem streamed_bytes_decode_to_the_tree_witness:
  "\<exists>s v. put_all (enc_put (7, 0)) [EListBegin (Some 1), EBool True, EListEnd] (encoder_new []) = Inr s \<and>
    decode (1, 2) (e_out s) = Inr v"
proof -
  let ?evs = "[EListBegin (Some 1), EBool True, EListEnd]"
  have ok: "events_ok ?evs" by (simp add: events_ok_def)
  have "spells ?evs (VList [VBool True])"
    using spells.List [of "[[EBool True]]" "[VBool True]" "Some 1"] by (simp add: spells.Bool)
  then obtain s where "put_all (enc_put (7, 0)) ?evs (encoder_new []) = Inr s" "is_complete s"
    using encoder_complete_iff [OF ok, of "(7, 0)" "[]"] by blast
  with streamed_bytes_decode_to_the_tree [OF ok this, of "(1, 2)" "(0, 0)"] show ?thesis by blast
qed

text \<open>\<open>encode_of\<close> writes the bytes \<open>encode\<close> writes, for every tree with no key twice nested within
  the bound, and refuses every other.\<close>

theorem encode_of_is_encode_where_it_writes:
  assumes "events_ok (events v)"
  shows "encode_of drawn v out = Inr bytes \<longleftrightarrow>
    encode v out = Inr bytes \<and> unrepeated v \<and> nesting v \<le> MAX_DEPTH"
  by (rule encode_of_iff [OF assms])

theorem encode_of_is_encode_where_it_writes_witness:
  "encode_of (7, 0) (VMap [(''a'', VNull), (''a'', VNull)]) [] \<noteq> encode (VMap [(''a'', VNull), (''a'', VNull)]) []"
proof -
  let ?v = "VMap [(''a'', VNull), (''a'', VNull)]"
  have t: "is_text ''a''" by (simp add: ascii_is_text ascii_def)
  have ok: "events_ok (events ?v)" using t by (simp add: events_ok_def)
  have "encode ?v [] = Inr (enc ?v)" using t by (simp add: encode_eq keys_are_text_def)
  then show ?thesis using encode_of_is_encode_where_it_writes [OF ok, of "(7, 0)" "[]" "enc ?v"] by auto
qed

end
