(* ===== verification/Walkers.thy ===== *)
theory Walkers
  imports Streams
begin

text \<open>
  Wire bytes that walk themselves (the second half of \<open>value/wire/stream.rs\<close>): the reader's
  tokens, the keys of the maps open while reading (\<open>OpenKeys\<close>), \<open>Decoder::skip\<close>, and
  \<open>Encoded\<close>, whose walk hands the events of the bytes' value to a sink with no tree built.
  The laws say that walking bytes is walking the tree they decode to.
\<close>

section \<open>Tokens\<close>

datatype token =
    TAbsent | TNull | TBool bool | TNumber str | TString str | TBytes "u8 list" | TListOf u64 | TMapOf u64

definition read_token :: "reader \<Rightarrow> wire_error + (token \<times> reader)" where
  "read_token r =
     and_then (read_byte r) (\<lambda>(byte, r1).
     case tag_try_from (unat byte) of
       Inl _ \<Rightarrow> Inl (UnknownWireTag (offset r) byte)
     | Inr GUATIAO_ABSENT \<Rightarrow> Inr (TAbsent, r1)
     | Inr GUATIAO_NULL \<Rightarrow> Inr (TNull, r1)
     | Inr GUATIAO_BOOL \<Rightarrow>
         and_then (read_byte r1) (\<lambda>(b, r2).
           if b = 0 then Inr (TBool False, r2)
           else if b = 1 then Inr (TBool True, r2)
           else Inl (NotABool (offset r1) b))
     | Inr GUATIAO_NUMBER \<Rightarrow>
         and_then (read_text r1) (\<lambda>(s, r2).
           case validate_json_number s of
             Inl _ \<Rightarrow> Inl (WireNotANumber (offset r1))
           | Inr _ \<Rightarrow> Inr (TNumber s, r2))
     | Inr GUATIAO_STRING \<Rightarrow> and_then (read_text r1) (\<lambda>(s, r2). Inr (TString s, r2))
     | Inr GUATIAO_BYTES \<Rightarrow> and_then (read_slice r1) (\<lambda>(b, r2). Inr (TBytes b, r2))
     | Inr GUATIAO_LIST \<Rightarrow> and_then (read_count r1) (\<lambda>(n, r2). Inr (TListOf n, r2))
     | Inr GUATIAO_MAP \<Rightarrow> and_then (read_count r1) (\<lambda>(n, r2). Inr (TMapOf n, r2)))"

text \<open>A token is the node the tree decoder reads there.\<close>

fun token_node :: "token \<Rightarrow> rnode" where
  "token_node TAbsent = NLeaf VAbsent"
| "token_node TNull = NLeaf VNull"
| "token_node (TBool b) = NLeaf (VBool b)"
| "token_node (TNumber s) = NLeaf (VNumber s)"
| "token_node (TString s) = NLeaf (VString s)"
| "token_node (TBytes b) = NLeaf (VBytes b)"
| "token_node (TListOf n) = NList n"
| "token_node (TMapOf n) = NMap n"

lemma token_node_inject [simp]: "token_node t = token_node u \<longleftrightarrow> t = u"
  by (cases t; cases u) auto

lemma read_token_node:
  "read_node r = and_then (read_token r) (\<lambda>(t, r'). Inr (token_node t, r'))"
  unfolding read_node_def read_token_def and_then_assoc
  by (intro and_then_cong refl, clarify)
     (auto simp: and_then_assoc number_new_def is_number_def split: sum.splits tag.splits
       intro!: and_then_cong)

lemma read_token_iff: "read_token r = Inr (t, r') \<longleftrightarrow> read_node r = Inr (token_node t, r')"
  unfolding read_token_node by (cases "read_token r") auto

lemma read_token_Inl: "read_token r = Inl e \<longleftrightarrow> read_node r = Inl e"
  unfolding read_token_node by (cases "read_token r") auto

section \<open>The keys of the open maps\<close>

record open_keys =
  ok_list :: "str list"
  ok_sets :: "(nat \<times> u64 set) list"

definition no_keys :: open_keys where
  "no_keys = \<lparr>ok_list = [], ok_sets = []\<rparr>"

definition keys_insert :: "u64 \<times> u64 \<Rightarrow> nat \<Rightarrow> str \<Rightarrow> u64 \<Rightarrow> open_keys \<Rightarrow> bool \<times> open_keys" where
  "keys_insert drawn start key lft ks =
     (let h = hash_one drawn (as_bytes key);
          hashed = (case ok_sets ks of (s, _) # _ \<Rightarrow> s = start | [] \<Rightarrow> False);
          mine = drop start (ok_list ks)
      in if (case ok_sets ks of
               (_, hs) # _ \<Rightarrow> if hashed then h \<in> hs \<and> key \<in> set mine else key \<in> set mine
             | [] \<Rightarrow> key \<in> set mine) then (False, ks)
         else
           let sets = (if hashed
                 then (case ok_sets ks of (s, hs) # more' \<Rightarrow> (s, insert h hs) # more' | [] \<Rightarrow> [])
                 else ok_sets ks);
               list = ok_list ks @ [key];
               held = length list - start
           in (True, \<lparr>ok_list = list,
                 ok_sets = (if \<not> hashed \<and> held + unat lft > LINEAR
                   then (start, set (map (\<lambda>k. hash_one drawn (as_bytes k)) (drop start list))) # sets
                   else sets)\<rparr>))"

definition keys_truncate :: "nat \<Rightarrow> open_keys \<Rightarrow> open_keys" where
  "keys_truncate start ks =
     \<lparr>ok_list = take start (ok_list ks), ok_sets = dropWhile (\<lambda>(s, _). start \<le> s) (ok_sets ks)\<rparr>"

section \<open>Passing over a value\<close>

text \<open>\<open>Decoder::skip\<close>: each open container's values left, and for a map where its keys
  start.\<close>

definition skip_key ::
  "u64 \<times> u64 \<Rightarrow> nat option \<Rightarrow> u64 \<Rightarrow> open_keys \<Rightarrow> reader \<Rightarrow> wire_error + (open_keys \<times> reader)" where
  "skip_key drawn start lft keys r =
     (case start of
        None \<Rightarrow> Inr (keys, r)
      | Some st \<Rightarrow>
          and_then (read_text r) (\<lambda>(key, r').
          case keys_insert drawn st key lft keys of
            (True, keys') \<Rightarrow> Inr (keys', r')
          | (False, _) \<Rightarrow> Inl (WireDuplicateKey (offset r))))"

lemma skip_key_remaining:
  "skip_key drawn start lft keys r = Inr (keys', r') \<Longrightarrow> remaining r' \<le> remaining r"
  by (auto simp: skip_key_def dest!: reads_remaining split: option.splits prod.splits bool.splits)

lemma read_token_remaining: "read_token r = Inr (t, r') \<Longrightarrow> remaining r' < remaining r"
  by (auto simp: read_token_iff dest: read_node_remaining)

function skip_loop ::
  "u64 \<times> u64 \<Rightarrow> (u64 \<times> nat option) list \<Rightarrow> open_keys \<Rightarrow> reader \<Rightarrow> wire_error + (open_keys \<times> reader)" where
  "skip_loop drawn [] keys r = Inr (keys, r)"
| "skip_loop drawn ((lft, start) # st) keys r =
     (if lft = 0 then
        skip_loop drawn st (case start of None \<Rightarrow> keys | Some k \<Rightarrow> keys_truncate k keys) r
      else
        (case skip_key drawn start (lft - 1) keys r of
           Inl e \<Rightarrow> Inl e
         | Inr (keys', r1) \<Rightarrow>
             (case read_token r1 of
                Inl e \<Rightarrow> Inl e
              | Inr (t, r2) \<Rightarrow>
                  skip_loop drawn
                    (case t of
                       TListOf n \<Rightarrow> (n, None) # (lft - 1, start) # st
                     | TMapOf n \<Rightarrow> (n, Some (length (ok_list keys'))) # (lft - 1, start) # st
                     | _ \<Rightarrow> (lft - 1, start) # st) keys' r2)))"
  by pat_completeness auto
termination
  by (relation "measures [\<lambda>(d, st, ks, r). remaining r, \<lambda>(d, st, ks, r). length st]")
     (auto dest!: skip_key_remaining read_token_remaining)

declare skip_loop.simps(2) [simp del]

definition skip :: "u64 \<times> u64 \<Rightarrow> open_keys \<Rightarrow> reader \<Rightarrow> wire_error + (open_keys \<times> reader)" where
  "skip drawn keys r =
     and_then (skip_loop drawn [(1, None)] keys r) (\<lambda>(keys', r').
       Inr (keys_truncate (length (ok_list keys)) keys', r'))"

section \<open>Bytes that walk themselves\<close>

text \<open>A wire refusal as a writing error, at its offset.\<close>

fun unparsed :: "wire_error \<Rightarrow> value_error" where
  "unparsed (Truncated p) = Unparsed p ''a node that is not cut short''"
| "unparsed (UnknownWireTag p b) = Unparsed p ''a tag this build knows''"
| "unparsed (Overlong p) = Unparsed p ''a length in its shortest LEB128 form''"
| "unparsed (WireNotUtf8 p) = Unparsed p ''text that is UTF-8''"
| "unparsed (WireNotANumber p) = Unparsed p ''a number in the JSON number grammar''"
| "unparsed (NotABool p b) = Unparsed p ''a bool byte of 0 or 1''"
| "unparsed (WireDuplicateKey p) = Unparsed p ''a key not repeated in its map''"
| "unparsed (Trailing p) = Unparsed p ''the end of the bytes''"

text \<open>\<open>Node::walk\<close> into a sink: the node at the reader, its list's items and its map's
  entries. The answer holds the sink, the keys of the maps still open and where the node
  ends.\<close>

function walk_node ::
  "u64 \<times> u64 \<Rightarrow> (event \<Rightarrow> 's \<Rightarrow> value_error + 's) \<Rightarrow> nat \<Rightarrow> open_keys \<Rightarrow> reader \<Rightarrow> 's \<Rightarrow>
   value_error + ('s \<times> open_keys \<times> reader)"
and walk_items ::
  "u64 \<times> u64 \<Rightarrow> (event \<Rightarrow> 's \<Rightarrow> value_error + 's) \<Rightarrow> nat \<Rightarrow> u64 \<Rightarrow> open_keys \<Rightarrow> reader \<Rightarrow> 's \<Rightarrow>
   value_error + ('s \<times> open_keys \<times> reader)"
and walk_entries ::
  "u64 \<times> u64 \<Rightarrow> (event \<Rightarrow> 's \<Rightarrow> value_error + 's) \<Rightarrow> nat \<Rightarrow> nat \<Rightarrow> u64 \<Rightarrow> open_keys \<Rightarrow> reader \<Rightarrow> 's \<Rightarrow>
   value_error + ('s \<times> open_keys \<times> reader)"
where
  "walk_node drawn put depth keys r s =
     (case read_token r of
        Inl e \<Rightarrow> Inl (unparsed e)
      | Inr (TAbsent, r') \<Rightarrow> and_then (put EAbsent s) (\<lambda>s. Inr (s, keys, r'))
      | Inr (TNull, r') \<Rightarrow> and_then (put ENull s) (\<lambda>s. Inr (s, keys, r'))
      | Inr (TBool b, r') \<Rightarrow> and_then (put (EBool b) s) (\<lambda>s. Inr (s, keys, r'))
      | Inr (TNumber x, r') \<Rightarrow> and_then (put (ENumber x) s) (\<lambda>s. Inr (s, keys, r'))
      | Inr (TString x, r') \<Rightarrow> and_then (put (EString x) s) (\<lambda>s. Inr (s, keys, r'))
      | Inr (TBytes b, r') \<Rightarrow> and_then (put (EBytes b) s) (\<lambda>s. Inr (s, keys, r'))
      | Inr (TListOf n, r') \<Rightarrow>
          if MAX_DEPTH \<le> depth then Inl TooDeep
          else
            and_then (put (EListBegin (Some (unat n))) s) (\<lambda>s.
            and_then (walk_items drawn put (depth + 1) n keys r' s) (\<lambda>(s, keys', r'').
            and_then (put EListEnd s) (\<lambda>s. Inr (s, keys', r''))))
      | Inr (TMapOf n, r') \<Rightarrow>
          if MAX_DEPTH \<le> depth then Inl TooDeep
          else
            and_then (put (EMapBegin (Some (unat n))) s) (\<lambda>s.
            and_then (walk_entries drawn put (depth + 1) (length (ok_list keys)) n keys r' s) (\<lambda>(s, keys', r'').
            and_then (put EMapEnd s) (\<lambda>s. Inr (s, keys_truncate (length (ok_list keys)) keys', r'')))))"
| "walk_items drawn put depth n keys r s =
     (if n = 0 then Inr (s, keys, r)
      else
        (case walk_node drawn put depth keys r s of
           Inl e \<Rightarrow> Inl e
         | Inr (s', keys', r') \<Rightarrow> walk_items drawn put depth (n - 1) keys' r' s'))"
| "walk_entries drawn put depth start n keys r s =
     (if n = 0 then Inr (s, keys, r)
      else
        (case map_err unparsed (read_text r) of
           Inl e \<Rightarrow> Inl e
         | Inr (key, r1) \<Rightarrow>
             (case keys_insert drawn start key (n - 1) keys of
                (False, _) \<Rightarrow> Inl (unparsed (WireDuplicateKey (offset r)))
              | (True, keys1) \<Rightarrow>
                  (case and_then (put (EKey key) s) (\<lambda>s. walk_node drawn put depth keys1 r1 s) of
                     Inl e \<Rightarrow> Inl e
                   | Inr (s', keys', r') \<Rightarrow> walk_entries drawn put depth start (n - 1) keys' r' s'))))"
  by pat_completeness auto
termination
  by (relation "measures
       [\<lambda>x. case x of
          Inl (d, put, depth, ks, r, s) \<Rightarrow> 2 * (MAX_DEPTH - depth)
        | Inr (Inl (d, put, depth, n, ks, r, s)) \<Rightarrow> 2 * (MAX_DEPTH - depth) + 1
        | Inr (Inr (d, put, depth, start, n, ks, r, s)) \<Rightarrow> 2 * (MAX_DEPTH - depth) + 1,
        \<lambda>x. case x of
          Inl _ \<Rightarrow> 0
        | Inr (Inl (d, put, depth, n, ks, r, s)) \<Rightarrow> unat n
        | Inr (Inr (d, put, depth, start, n, ks, r, s)) \<Rightarrow> unat n]")
     (auto simp: unat_minus_1 dest: unat_nonzero)

declare walk_node.simps [simp del] walk_items.simps [simp del] walk_entries.simps [simp del]

text \<open>\<open>Encoded::walk\<close>.\<close>

definition walk_encoded ::
  "u64 \<times> u64 \<Rightarrow> (event \<Rightarrow> 's \<Rightarrow> value_error + 's) \<Rightarrow> u8 list \<Rightarrow> 's \<Rightarrow> value_error + 's" where
  "walk_encoded drawn put bytes s =
     and_then (walk_node drawn put 0 no_keys \<lparr>rbytes = bytes, rat = 0, rbase = 0\<rparr> s) (\<lambda>(s', _, r).
       if rat r \<noteq> length bytes then Inl (unparsed (Trailing (rat r))) else Inr s')"

section \<open>The open keys\<close>

definition keys_wf :: "open_keys \<Rightarrow> bool" where
  "keys_wf ks \<longleftrightarrow> (\<forall>(s, h)\<in>set (ok_sets ks). s < length (ok_list ks))"

text \<open>A map whose keys so far are \<open>names\<close>, opened over \<open>base\<close>.\<close>

definition map_opened :: "u64 \<times> u64 \<Rightarrow> open_keys \<Rightarrow> str list \<Rightarrow> open_keys \<Rightarrow> bool" where
  "map_opened drawn base names ks \<longleftrightarrow>
     ok_list ks = ok_list base @ names \<and>
     (ok_sets ks = ok_sets base \<or>
      names \<noteq> [] \<and> (\<exists>h. ok_sets ks = (length (ok_list base), h) # ok_sets base \<and>
        (\<lambda>k. hash_one drawn (as_bytes k)) ` set names \<subseteq> h))"

lemma no_keys_wf [simp]: "keys_wf no_keys"
  by (simp add: keys_wf_def no_keys_def)

lemma map_opened_Nil [simp]: "map_opened drawn base [] base"
  by (simp add: map_opened_def)

lemma map_opened_wf: "keys_wf base \<Longrightarrow> map_opened drawn base names ks \<Longrightarrow> keys_wf ks"
  by (fastforce simp: keys_wf_def map_opened_def)

lemma base_start: "keys_wf base \<Longrightarrow> ok_sets base = (s, h) # st \<Longrightarrow> s \<noteq> length (ok_list base)"
  by (auto simp: keys_wf_def)

lemma keys_insert_spec:
  assumes wf: "keys_wf base" and m: "map_opened drawn base names ks"
  shows "if key \<in> set names then fst (keys_insert drawn (length (ok_list base)) key lft ks) = False
    else \<exists>ks'. keys_insert drawn (length (ok_list base)) key lft ks = (True, ks') \<and>
      map_opened drawn base (names @ [key]) ks'"
proof -
  have l: "ok_list ks = ok_list base @ names" using m by (simp add: map_opened_def)
  from m consider "ok_sets ks = ok_sets base"
    | h where "ok_sets ks = (length (ok_list base), h) # ok_sets base"
        "(\<lambda>k. hash_one drawn (as_bytes k)) ` set names \<subseteq> h"
    by (auto simp: map_opened_def)
  then show ?thesis
  proof cases
    case 1
    show ?thesis
    proof (cases "ok_sets base")
      case Nil
      then show ?thesis using 1 l by (auto simp: keys_insert_def Let_def map_opened_def)
    next
      case (Cons a st)
      obtain s0 h0 where a: "a = (s0, h0)" by (cases a)
      then have "s0 \<noteq> length (ok_list base)" using base_start [OF wf] Cons by blast
      then show ?thesis using 1 l Cons a by (auto simp: keys_insert_def Let_def map_opened_def)
    qed
  next
    case 2
    then show ?thesis using l by (auto simp: keys_insert_def Let_def map_opened_def)
  qed
qed

lemma keys_truncate_spec:
  assumes "keys_wf base" "map_opened drawn base names ks"
  shows "keys_truncate (length (ok_list base)) ks = base"
proof -
  have "dropWhile (\<lambda>(s, _). length (ok_list base) \<le> s) (ok_sets base) = ok_sets base"
    using assms(1) by (cases "ok_sets base") (auto simp: keys_wf_def)
  with assms(2) show ?thesis by (auto simp: keys_truncate_def map_opened_def)
qed

section \<open>Walking an encoding\<close>

text \<open>The walk of a node, when the bytes in front of the reader encode \<open>v\<close>.\<close>

definition node_walked where
  "node_walked drawn put depth v \<longleftrightarrow>
     (\<forall>keys r r' s. keys_wf keys \<longrightarrow> consumes r (enc v) r' \<longrightarrow>
        walk_node drawn put depth keys r s = and_then (put_all put (events v) s) (\<lambda>s'. Inr (s', keys, r')))"

lemma node_walkedD:
  "node_walked drawn put depth v \<Longrightarrow> keys_wf keys \<Longrightarrow> consumes r (enc v) r' \<Longrightarrow>
   walk_node drawn put depth keys r s = and_then (put_all put (events v) s) (\<lambda>s'. Inr (s', keys, r'))"
  unfolding node_walked_def by blast

lemma case_walked:
  "(case and_then x (\<lambda>s'. Inr (s', k, r)) of Inl e \<Rightarrow> Inl e | Inr (s', k', r') \<Rightarrow> f s' k' r') =
   and_then x (\<lambda>s'. f s' k r)"
  by (cases x) auto

lemma walk_items_enc:
  assumes "list_all (node_walked drawn put depth) xs" "length xs < 2 ^ 64" "keys_wf keys"
    "consumes r (concat (map enc xs)) r'"
  shows "walk_items drawn put depth (word_of_nat (length xs)) keys r s =
    and_then (put_all put (concat (map events xs)) s) (\<lambda>s'. Inr (s', keys, r'))"
  using assms
proof (induction xs arbitrary: r s)
  case Nil
  then show ?case by (simp add: walk_items.simps)
next
  case (Cons x xs)
  from Cons.prems(4) obtain r1 where x: "consumes r (enc x) r1" and r': "consumes r1 (concat (map enc xs)) r'"
    by (auto simp: consumes_append)
  note n = word_of_nat_Suc_64 [of "length xs"]
  have w: "walk_node drawn put depth keys r s = and_then (put_all put (events x) s) (\<lambda>s'. Inr (s', keys, r1))"
    using Cons.prems x by (intro node_walkedD) auto
  have tl: "walk_items drawn put depth (word_of_nat (length xs)) keys r1 s' =
      and_then (put_all put (concat (map events xs)) s') (\<lambda>s'. Inr (s', keys, r'))" for s'
    using Cons.prems r' by (intro Cons.IH) auto
  have n1: "(word_of_nat (length (x # xs)) :: u64) \<noteq> 0"
    "(word_of_nat (length (x # xs)) :: u64) - 1 = word_of_nat (length xs)"
    using n Cons.prems(2) by simp_all
  show ?case
    using n1 by (subst walk_items.simps) (simp add: w case_walked tl and_then_assoc put_all_fun)
qed

lemma walk_entries_enc:
  assumes "list_all (\<lambda>e. node_walked drawn put depth (snd e)) es" "length es < 2 ^ 64"
    "keys_wf base" "map_opened drawn base names keys" "distinct (names @ map fst es)"
    "list_all (\<lambda>e. is_text (fst e) \<and> length (fst e) < 2 ^ 64) es"
    "consumes r (concat (map enc_entry es)) r'"
  shows "\<exists>keys'. map_opened drawn base (names @ map fst es) keys' \<and>
    (\<forall>s. walk_entries drawn put depth (length (ok_list base)) (word_of_nat (length es)) keys r s =
      and_then (put_all put (concat (map (\<lambda>e. EKey (fst e) # events (snd e)) es)) s) (\<lambda>s'. Inr (s', keys', r')))"
  using assms
proof (induction es arbitrary: names keys r)
  case Nil
  then show ?case by (auto simp: walk_entries.simps intro!: exI [of _ keys])
next
  case (Cons e es)
  from Cons.prems(7) obtain r0 r1 where k: "consumes r (enc_bytes (as_bytes (fst e))) r0"
    and v: "consumes r0 (enc (snd e)) r1" and r': "consumes r1 (concat (map enc_entry es)) r'"
    by (auto simp: consumes_append)
  let ?n = "word_of_nat (length (e # es)) :: u64"
  have n1: "?n \<noteq> 0" "?n - 1 = word_of_nat (length es)"
    using word_of_nat_Suc_64 [of "length es"] Cons.prems(2) by simp_all
  have rt: "read_text r = Inr (fst e, r0)" using k Cons.prems(6) by (simp add: read_text_iff)
  have "fst e \<notin> set names" using Cons.prems(5) by auto
  then obtain keys1 where ki: "keys_insert drawn (length (ok_list base)) (fst e) (word_of_nat (length es)) keys = (True, keys1)"
    and m1: "map_opened drawn base (names @ [fst e]) keys1"
    using keys_insert_spec [OF Cons.prems(3,4), of "fst e"] by auto
  have w: "walk_node drawn put depth keys1 r0 = (\<lambda>t. and_then (put_all put (events (snd e)) t) (\<lambda>s'. Inr (s', keys1, r1)))"
    using Cons.prems(1) v map_opened_wf [OF Cons.prems(3) m1] by (intro ext node_walkedD) auto
  have "\<exists>keys'. map_opened drawn base ((names @ [fst e]) @ map fst es) keys' \<and>
      (\<forall>t. walk_entries drawn put depth (length (ok_list base)) (word_of_nat (length es)) keys1 r1 t =
      and_then (put_all put (concat (map (\<lambda>e. EKey (fst e) # events (snd e)) es)) t) (\<lambda>s'. Inr (s', keys', r')))"
    using Cons.prems m1 r' by (intro Cons.IH) auto
  then obtain keys' where m': "map_opened drawn base (names @ map fst (e # es)) keys'"
    and tl: "\<And>t. walk_entries drawn put depth (length (ok_list base)) (word_of_nat (length es)) keys1 r1 t =
      and_then (put_all put (concat (map (\<lambda>e. EKey (fst e) # events (snd e)) es)) t) (\<lambda>s'. Inr (s', keys', r'))"
    by auto
  have "walk_entries drawn put depth (length (ok_list base)) ?n keys r s =
      (case and_then (and_then (put (EKey (fst e)) s) (put_all put (events (snd e)))) (\<lambda>s'. Inr (s', keys1, r1)) of
         Inl e \<Rightarrow> Inl e
       | Inr (s', keys', r') \<Rightarrow> walk_entries drawn put depth (length (ok_list base)) (word_of_nat (length es)) keys' r' s')" for s
    unfolding n1(2) [symmetric] and_then_assoc using n1 rt ki by (subst walk_entries.simps) (simp add: w)
  then have "walk_entries drawn put depth (length (ok_list base)) ?n keys r s =
      and_then (put_all put (concat (map (\<lambda>e. EKey (fst e) # events (snd e)) (e # es))) s) (\<lambda>s'. Inr (s', keys', r'))" for s
    by (simp only: case_walked tl) (simp add: and_then_assoc put_all_fun)
  with m' show ?case by blast
qed

lemma count_read:
  assumes "consumes r (tag_byte t # enc_len (word_of_nat n) @ body) r'" "n \<le> length body" "n < 2 ^ 64"
    and "t = GUATIAO_LIST \<and> nd = NList (word_of_nat n) \<or> t = GUATIAO_MAP \<and> nd = NMap (word_of_nat n)"
  obtains r1 where "read_node r = Inr (nd, r1)" "consumes r1 body r'"
proof -
  from assms(1) obtain r1 where r1: "consumes r (tag_byte t # enc_len (word_of_nat n)) r1" and b: "consumes r1 body r'"
    using consumes_append [of r "tag_byte t # enc_len (word_of_nat n)" body r'] by auto
  have "node_ok nd r1" using consumes_rest [OF b] assms(2-4) by (auto simp: unat_word_of_nat_64)
  with r1 assms(4) have "read_node r = Inr (nd, r1)" by (intro read_node_complete) auto
  from this b show thesis by (rule that)
qed

lemma length_enc_items:
  "list_all wire_ok xs \<Longrightarrow> length xs \<le> length (concat (map enc xs))"
  by (intro length_le_concat) (auto simp: list_all_iff dest: wire_ok_readable enc_nonempty)

lemma length_enc_entries: "length es \<le> length (concat (map enc_entry es))"
  by (intro length_le_concat) (auto simp: enc_bytes_def)

lemma leaf_token:
  assumes "leaf_ok v" "consumes r (enc v) r'"
  obtains t where "read_token r = Inr (t, r')" "token_node t = NLeaf v"
proof -
  have rn: "read_node r = Inr (NLeaf v, r')" using assms by (intro read_node_complete) auto
  obtain t where "token_node t = NLeaf v" using assms(1)
    by (cases v) (auto intro: that [of TAbsent] that [of TNull] that [of "TBool _"] that [of "TNumber _"]
        that [of "TString _"] that [of "TBytes _"])
  with rn that show thesis by (simp add: read_token_iff)
qed

lemma leaf_walked: "leaf_ok v \<Longrightarrow> node_walked drawn put depth v"
  unfolding node_walked_def
proof (intro allI impI)
  fix keys r r' s assume l: "leaf_ok v" and c: "consumes r (enc v) r'"
  then obtain t where "read_token r = Inr (t, r')" "token_node t = NLeaf v" by (rule leaf_token)
  with l show "walk_node drawn put depth keys r s =
      and_then (put_all put (events v) s) (\<lambda>s'. Inr (s', keys, r'))"
    by (subst walk_node.simps) (cases t; auto)
qed

lemma walk_node_enc:
  "wire_ok v \<Longrightarrow> nesting v + depth \<le> MAX_DEPTH \<Longrightarrow> node_walked drawn put depth v"
proof (induction v arbitrary: depth rule: value_induct)
  case (List xs)
  show ?case unfolding node_walked_def
  proof (intro allI impI)
    fix keys r r' s assume wf: "keys_wf keys" and c: "consumes r (enc (VList xs)) r'"
    obtain r1 where rn: "read_node r = Inr (NList (word_of_nat (length xs)), r1)"
      and b: "consumes r1 (concat (map enc xs)) r'"
      using count_read [of r GUATIAO_LIST "length xs" "concat (map enc xs)" r'] c List.prems(1) length_enc_items [of xs]
      by auto
    have rt: "read_token r = Inr (TListOf (word_of_nat (length xs)), r1)" using rn by (simp add: read_token_iff)
    have "list_all (node_walked drawn put (depth + 1)) xs"
      unfolding list_all_iff
    proof
      fix x assume x: "x \<in> set xs"
      with List.IH [OF x, of "depth + 1"] List.prems nesting_child(1) [OF x]
      show "node_walked drawn put (depth + 1) x" by (auto simp: list_all_iff)
    qed
    from walk_items_enc [OF this _ wf b] List.prems
    show "walk_node drawn put depth keys r s =
        and_then (put_all put (events (VList xs)) s) (\<lambda>s'. Inr (s', keys, r'))"
      by (subst walk_node.simps) (simp add: rt unat_word_of_nat_64 and_then_assoc put_all_fun)
  qed
next
  case (Map es)
  show ?case unfolding node_walked_def
  proof (intro allI impI)
    fix keys r r' s assume wf: "keys_wf keys" and c: "consumes r (enc (VMap es)) r'"
    obtain r1 where rn: "read_node r = Inr (NMap (word_of_nat (length es)), r1)"
      and b: "consumes r1 (concat (map enc_entry es)) r'"
      using count_read [of r GUATIAO_MAP "length es" "concat (map enc_entry es)" r'] c Map.prems(1) length_enc_entries [of es]
      by auto
    have rt: "read_token r = Inr (TMapOf (word_of_nat (length es)), r1)" using rn by (simp add: read_token_iff)
    have all: "list_all (\<lambda>e. node_walked drawn put (Suc depth) (snd e)) es"
      unfolding list_all_iff
    proof
      fix e assume e: "e \<in> set es"
      with Map.IH [of "fst e" "snd e" "Suc depth"] Map.prems nesting_child(2) [OF e]
      show "node_walked drawn put (Suc depth) (snd e)" by (auto simp: list_all_iff)
    qed
    obtain keys' where m: "map_opened drawn keys (map fst es) keys'" and
      w: "\<And>s. walk_entries drawn put (Suc depth) (length (ok_list keys)) (word_of_nat (length es)) keys r1 s =
      and_then (put_all put (concat (map (\<lambda>e. EKey (fst e) # events (snd e)) es)) s) (\<lambda>s'. Inr (s', keys', r'))"
      using walk_entries_enc [OF all _ wf map_opened_Nil _ _ b] Map.prems(1) by (auto simp: list_all_iff)
    show "walk_node drawn put depth keys r s =
        and_then (put_all put (events (VMap es)) s) (\<lambda>s'. Inr (s', keys, r'))"
      using Map.prems keys_truncate_spec [OF wf m]
      by (subst walk_node.simps) (simp add: rt w unat_word_of_nat_64 and_then_assoc put_all_fun)
  qed
qed (simp_all add: leaf_walked number_is_text)

lemma walk_encoded_enc:
  assumes "wire_ok v" "nesting v \<le> MAX_DEPTH"
  shows "walk_encoded drawn put (enc v) s = put_all put (events v) s"
proof -
  let ?r = "\<lparr>rbytes = enc v, rat = 0, rbase = 0\<rparr>" 
  have "consumes ?r (enc v) \<lparr>rbytes = enc v, rat = length (enc v), rbase = 0\<rparr>"
    by (simp add: consumes_def advance_def rest_def)
  then have "walk_node drawn put 0 no_keys ?r s =
      and_then (put_all put (events v) s) (\<lambda>s'. Inr (s', no_keys, \<lparr>rbytes = enc v, rat = length (enc v), rbase = 0\<rparr>))"
    using assms by (intro node_walkedD walk_node_enc) auto
  then show ?thesis by (cases "put_all put (events v) s") (simp_all add: walk_encoded_def)
qed

section \<open>Only an encoding walks\<close>

definition node_encodes :: "nat \<Rightarrow> reader \<Rightarrow> reader \<Rightarrow> bool" where
  "node_encodes depth r r' \<longleftrightarrow>
     (\<exists>v. wire_ok v \<and> nesting v + depth \<le> MAX_DEPTH \<and> consumes r (enc v) r')"

definition items_encode :: "nat \<Rightarrow> u64 \<Rightarrow> reader \<Rightarrow> reader \<Rightarrow> bool" where
  "items_encode depth n r r' \<longleftrightarrow>
     (\<exists>xs. length xs = unat n \<and> (\<forall>x\<in>set xs. wire_ok x \<and> nesting x + depth \<le> MAX_DEPTH) \<and>
        consumes r (concat (map enc xs)) r')"

definition entries_encode ::
  "u64 \<times> u64 \<Rightarrow> open_keys \<Rightarrow> str list \<Rightarrow> nat \<Rightarrow> u64 \<Rightarrow> reader \<Rightarrow> open_keys \<Rightarrow> reader \<Rightarrow> bool" where
  "entries_encode drawn base names depth n r keys' r' \<longleftrightarrow>
     (\<exists>es. length es = unat n \<and> distinct (names @ map fst es) \<and> map_opened drawn base (names @ map fst es) keys' \<and>
        (\<forall>e\<in>set es. is_text (fst e) \<and> length (fst e) < 2 ^ 64 \<and> wire_ok (snd e) \<and>
           nesting (snd e) + depth \<le> MAX_DEPTH) \<and>
        consumes r (concat (map enc_entry es)) r')"

lemma items_encode_0 [simp]: "items_encode depth 0 r r"
  by (auto simp: items_encode_def intro: exI [of _ "[]"])

lemma items_encode_step:
  assumes "n \<noteq> 0" "node_encodes depth r r1" "items_encode depth (n - 1) r1 r'"
  shows "items_encode depth n r r'"
proof -
  obtain v xs where "wire_ok v" "nesting v + depth \<le> MAX_DEPTH" "consumes r (enc v) r1"
    "length xs = unat (n - 1)" "\<forall>x\<in>set xs. wire_ok x \<and> nesting x + depth \<le> MAX_DEPTH"
    "consumes r1 (concat (map enc xs)) r'"
    using assms(2,3) by (auto simp: node_encodes_def items_encode_def)
  then show ?thesis unfolding items_encode_def using assms(1) unat_nonzero [of n]
    by (intro exI [of _ "v # xs"]) (auto simp: consumes_append unat_minus_1)
qed

lemma entries_encode_0: "map_opened drawn base names keys \<Longrightarrow> distinct names \<Longrightarrow>
   entries_encode drawn base names depth 0 r keys r"
  by (auto simp: entries_encode_def intro: exI [of _ "[]"])

lemma entries_encode_step:
  assumes "n \<noteq> 0" "is_text k" "length k < 2 ^ 64" "consumes r (enc_bytes (as_bytes k)) r0" "node_encodes depth r0 r1"
    "entries_encode drawn base (names @ [k]) depth (n - 1) r1 keys' r'"
  shows "entries_encode drawn base names depth n r keys' r'"
proof -
  obtain v es where "wire_ok v" "nesting v + depth \<le> MAX_DEPTH" "consumes r0 (enc v) r1"
    "length es = unat (n - 1)" "distinct ((names @ [k]) @ map fst es)"
    "map_opened drawn base ((names @ [k]) @ map fst es) keys'"
    "\<forall>e\<in>set es. is_text (fst e) \<and> length (fst e) < 2 ^ 64 \<and> wire_ok (snd e) \<and> nesting (snd e) + depth \<le> MAX_DEPTH"
    "consumes r1 (concat (map enc_entry es)) r'"
    using assms(5,6) by (auto simp: node_encodes_def entries_encode_def)
  then show ?thesis unfolding entries_encode_def using assms(1-4) unat_nonzero [of n]
    by (intro exI [of _ "(k, v) # es"]) (auto simp: consumes_append unat_minus_1)
qed

lemma node_encodes_leaf: "read_node r = Inr (NLeaf v, r') \<Longrightarrow> depth \<le> MAX_DEPTH \<Longrightarrow> node_encodes depth r r'"
proof -
  assume rn: "read_node r = Inr (NLeaf v, r')" and d: "depth \<le> MAX_DEPTH"
  from read_node_sound [OF rn] have l: "leaf_ok v" "consumes r (enc v) r'" by auto
  then have "nesting v = 0" by (cases v) auto
  with l d show ?thesis by (auto simp: node_encodes_def intro: leaf_ok_wire_ok)
qed

lemma foldr_max_Suc_le: "(\<And>x. x \<in> set xs \<Longrightarrow> f x + Suc depth \<le> M) \<Longrightarrow> depth < M \<Longrightarrow>
   Suc (foldr max (map f xs) 0) + depth \<le> (M::nat)"
  using foldr_max_le [of "map f xs" "M - Suc depth"] by fastforce

lemma unat_64 [simp]: "unat (n::u64) < 18446744073709551616"
  using unsigned_less [of n] by simp

lemma node_encodes_list:
  assumes "read_node r = Inr (NList n, r1)" "items_encode (Suc depth) n r1 r'" "depth < MAX_DEPTH"
  shows "node_encodes depth r r'"
proof -
  obtain xs where xs: "length xs = unat n" "\<forall>x\<in>set xs. wire_ok x \<and> nesting x + Suc depth \<le> MAX_DEPTH"
    "consumes r1 (concat (map enc xs)) r'"
    using assms(2) by (auto simp: items_encode_def)
  have "consumes r (tag_byte GUATIAO_LIST # enc_len n) r1" using read_node_sound [OF assms(1)] by simp
  with xs(3) consumes_append [of r "tag_byte GUATIAO_LIST # enc_len n" "concat (map enc xs)" r']
  have "consumes r (tag_byte GUATIAO_LIST # enc_len n @ concat (map enc xs)) r'" by auto
  then have "consumes r (enc (VList xs)) r'" using xs(1) by simp
  moreover have "wire_ok (VList xs)" using xs by (simp add: list_all_iff)
  moreover have "nesting (VList xs) + depth \<le> MAX_DEPTH"
    using foldr_max_Suc_le [of xs nesting depth MAX_DEPTH] xs(2) assms(3) by auto
  ultimately show ?thesis unfolding node_encodes_def by blast
qed

lemma node_encodes_map:
  assumes "read_node r = Inr (NMap n, r1)" "entries_encode drawn base [] (Suc depth) n r1 keys' r'" "depth < MAX_DEPTH"
  shows "node_encodes depth r r'"
proof -
  obtain es where es: "length es = unat n" "distinct (map fst es)"
    "\<forall>e\<in>set es. is_text (fst e) \<and> length (fst e) < 2 ^ 64 \<and> wire_ok (snd e) \<and> nesting (snd e) + Suc depth \<le> MAX_DEPTH"
    "consumes r1 (concat (map enc_entry es)) r'"
    using assms(2) by (auto simp: entries_encode_def)
  have "consumes r (tag_byte GUATIAO_MAP # enc_len n) r1" using read_node_sound [OF assms(1)] by simp
  with es(4) consumes_append [of r "tag_byte GUATIAO_MAP # enc_len n" "concat (map enc_entry es)" r']
  have "consumes r (tag_byte GUATIAO_MAP # enc_len n @ concat (map enc_entry es)) r'" by auto
  then have "consumes r (enc (VMap es)) r'" using es(1) by simp
  moreover have "wire_ok (VMap es)" using es by (simp add: list_all_iff)
  moreover have "nesting (VMap es) + depth \<le> MAX_DEPTH"
    using foldr_max_Suc_le [of es "\<lambda>e. nesting (snd e)" depth MAX_DEPTH] es(3) assms(3) by auto
  ultimately show ?thesis unfolding node_encodes_def by blast
qed

lemma walk_sound:
  "keys_wf keys \<Longrightarrow> depth \<le> MAX_DEPTH \<Longrightarrow> walk_node drawn put depth keys r s = Inr (s', keys', r') \<Longrightarrow>
     keys' = keys \<and> node_encodes depth r r'"
  "keys_wf keys \<Longrightarrow> depth \<le> MAX_DEPTH \<Longrightarrow> walk_items drawn put depth n keys r s = Inr (s', keys', r') \<Longrightarrow>
     keys' = keys \<and> items_encode depth n r r'"
  "keys_wf base \<Longrightarrow> depth \<le> MAX_DEPTH \<Longrightarrow> map_opened drawn base names keys \<Longrightarrow> distinct names \<Longrightarrow>
     start = length (ok_list base) \<Longrightarrow>
     walk_entries drawn put depth start n keys r s = Inr (s', keys', r') \<Longrightarrow>
     entries_encode drawn base names depth n r keys' r'"
proof (induction drawn put depth keys r s and drawn put depth n keys r s and drawn put depth start n keys r s
    arbitrary: s' keys' r' and s' keys' r' and s' keys' r' names base
    rule: walk_node_walk_items_walk_entries.induct)
  case (1 drawn put depth keys r s)
  obtain t r1 where t: "read_token r = Inr (t, r1)"
    using "1.prems"(3) by (subst (asm) walk_node.simps) (auto split: sum.splits)
  then have rn: "read_node r = Inr (token_node t, r1)" by (simp add: read_token_iff)
  have lf: "keys' = keys \<and> node_encodes depth r r'"
    if "token_node t = NLeaf v" for v
  proof -
    have "keys' = keys \<and> r' = r1"
      using "1.prems"(3) t that by (subst (asm) walk_node.simps) (cases t; auto)
    with rn that "1.prems"(2) show ?thesis by (auto intro: node_encodes_leaf)
  qed
  show ?case
  proof (cases t)
    case (TListOf n)
    from "1.prems"(3) t TListOf obtain s1 s2 where d: "depth < MAX_DEPTH" and
      s1: "put (EListBegin (Some (unat n))) s = Inr s1"
      and w: "walk_items drawn put (depth + 1) n keys r1 s1 = Inr (s2, keys', r')"
      by (subst (asm) walk_node.simps) (auto split: if_splits)
    from "1.IH"(1) [OF t refl TListOf _ s1 "1.prems"(1) _ w] d
    have "keys' = keys" "items_encode (Suc depth) n r1 r'" by auto
    with node_encodes_list [of r n r1 depth r'] rn TListOf d show ?thesis by simp
  next
    case (TMapOf n)
    from "1.prems"(3) t TMapOf obtain s1 s2 k2 where d: "depth < MAX_DEPTH" and
      s1: "put (EMapBegin (Some (unat n))) s = Inr s1"
      and w: "walk_entries drawn put (depth + 1) (length (ok_list keys)) n keys r1 s1 = Inr (s2, k2, r')"
      and k: "keys' = keys_truncate (length (ok_list keys)) k2"
      by (subst (asm) walk_node.simps) (auto split: if_splits)
    from "1.IH"(2) [OF t refl TMapOf _ s1 "1.prems"(1) _ map_opened_Nil _ refl w] d
    have e: "entries_encode drawn keys [] (Suc depth) n r1 k2 r'" by auto
    then obtain names where "map_opened drawn keys names k2" by (auto simp: entries_encode_def)
    then have "keys' = keys" using k keys_truncate_spec [OF "1.prems"(1)] by simp
    with node_encodes_map [OF _ e d] rn TMapOf show ?thesis by simp
  qed (use lf in auto)
next
  case (2 drawn put depth n keys r s)
  show ?case
  proof (cases "n = 0")
    case True
    with "2.prems"(3) show ?thesis by (simp add: walk_items.simps)
  next
    case False
    with "2.prems"(3) obtain s1 k1 r1 where
      w: "walk_node drawn put depth keys r s = Inr (s1, k1, r1)" "walk_items drawn put depth (n - 1) k1 r1 s1 = Inr (s', keys', r')"
      by (subst (asm) walk_items.simps) (auto split: sum.splits)
    have a: "k1 = keys" "node_encodes depth r r1" using "2.IH"(1) [OF False "2.prems"(1,2) w(1)] by auto
    have "keys' = k1 \<and> items_encode depth (n - 1) r1 r'"
      using "2.IH"(2) [OF False w(1) refl refl _ "2.prems"(2) w(2)] "2.prems"(1) a(1) by simp
    with items_encode_step [OF False a(2)] a(1) show ?thesis by simp
  qed
next
  case (3 drawn put depth start n keys r s)
  show ?case
  proof (cases "n = 0")
    case True
    with "3.prems" show ?thesis by (simp add: walk_entries.simps entries_encode_0)
  next
    case False
    with "3.prems"(6) obtain k r0 k1 s1 s2 k2 r2 where rt: "read_text r = Inr (k, r0)"
      and ki: "keys_insert drawn start k (n - 1) keys = (True, k1)"
      and p: "put (EKey k) s = Inr s1" "walk_node drawn put depth k1 r0 s1 = Inr (s2, k2, r2)"
      and w: "walk_entries drawn put depth start (n - 1) k2 r2 s2 = Inr (s', keys', r')"
      by (subst (asm) walk_entries.simps)
         (auto simp: result_simps split: sum.splits prod.splits bool.splits)
    have kt: "is_text k" "length k < 2 ^ 64" "consumes r (enc_bytes (as_bytes k)) r0"
      using rt by (simp_all add: read_text_iff)
    have new: "k \<notin> set names" "map_opened drawn base (names @ [k]) k1"
      using keys_insert_spec [OF "3.prems"(1,3), of k "n - 1"] ki "3.prems"(5) by (auto split: if_splits)
    have e: "and_then (put (EKey k) s) (\<lambda>s. walk_node drawn put depth k1 r0 s) = Inr (s2, k2, r2)"
      using p by simp
    have a: "k2 = k1" "node_encodes depth r0 r2"
      using "3.IH"(1) [OF False _ refl ki [symmetric] refl p(1) map_opened_wf [OF "3.prems"(1) new(2)] "3.prems"(2) p(2)] rt
      by auto
    have "entries_encode drawn base (names @ [k]) depth (n - 1) r2 keys' r'"
      using "3.IH"(2) [OF False _ refl ki [symmetric] refl e refl refl "3.prems"(1,2) _ _ "3.prems"(5) w, of "names @ [k]"]
        rt new a(1) "3.prems"(4) by auto
    with entries_encode_step [OF False kt a(2)] show ?thesis by blast
  qed
qed

lemma walk_encoded_iff:
  "walk_encoded drawn put bytes s = Inr s' \<longleftrightarrow>
   (\<exists>v. decode drawn' bytes = Inr v \<and> nesting v \<le> MAX_DEPTH \<and> walk_value put v s = Inr s')"
proof
  assume w: "walk_encoded drawn put bytes s = Inr s'"
  let ?r = "\<lparr>rbytes = bytes, rat = 0, rbase = 0\<rparr>"
  from w obtain keys r where n: "walk_node drawn put 0 no_keys ?r s = Inr (s', keys, r)" and "rat r = length bytes"
    by (auto simp: walk_encoded_def split: if_splits)
  from walk_sound(1) [OF no_keys_wf _ n] obtain v where v: "wire_ok v" "nesting v \<le> MAX_DEPTH" "consumes ?r (enc v) r"
    by (auto simp: node_encodes_def)
  then have "bytes = enc v" using \<open>rat r = length bytes\<close> by (auto simp: consumes_def rest_def advance_def)
  with v w have "decode drawn' bytes = Inr v" "walk_value put v s = Inr s'"
    by (simp_all add: decode_def decode_enc walk_encoded_enc walk_value_def walk_deep_events wire_ok_readable)
  with v(2) show "\<exists>v. decode drawn' bytes = Inr v \<and> nesting v \<le> MAX_DEPTH \<and> walk_value put v s = Inr s'" by blast
next
  assume "\<exists>v. decode drawn' bytes = Inr v \<and> nesting v \<le> MAX_DEPTH \<and> walk_value put v s = Inr s'"
  then obtain v where v: "decode drawn' bytes = Inr v" "nesting v \<le> MAX_DEPTH" "walk_value put v s = Inr s'" by blast
  have "wire_ok v" "enc v = bytes" using decode_sound [of drawn' bytes 0 v] v(1) by (simp_all add: decode_def)
  with v(2,3) show "walk_encoded drawn put bytes s = Inr s'"
    using walk_encoded_enc [of v drawn put s] by (simp add: walk_value_def walk_deep_events wire_ok_readable)
qed

section \<open>Skipping an encoding\<close>

definition skip_value where
  "skip_value drawn st keys r =
     (case read_token r of
        Inl e \<Rightarrow> Inl e
      | Inr (t, r2) \<Rightarrow>
          skip_loop drawn
            (case t of
               TListOf n \<Rightarrow> (n, None) # st
             | TMapOf n \<Rightarrow> (n, Some (length (ok_list keys))) # st
             | _ \<Rightarrow> st) keys r2)"

definition skipped where
  "skipped drawn v \<longleftrightarrow>
     (\<forall>st keys r r'. keys_wf keys \<longrightarrow> consumes r (enc v) r' \<longrightarrow>
        skip_value drawn st keys r = skip_loop drawn st keys r')"

lemma skippedD:
  "skipped drawn v \<Longrightarrow> keys_wf keys \<Longrightarrow> consumes r (enc v) r' \<Longrightarrow>
   skip_value drawn st keys r = skip_loop drawn st keys r'"
  unfolding skipped_def by blast

lemma skip_loop_steps:
  "skip_loop drawn ((0, start) # st) keys r =
     skip_loop drawn st (case start of None \<Rightarrow> keys | Some k \<Rightarrow> keys_truncate k keys) r"
  "lft \<noteq> 0 \<Longrightarrow> skip_loop drawn ((lft, start) # st) keys r =
     and_then (skip_key drawn start (lft - 1) keys r) (\<lambda>(keys', r1).
       skip_value drawn ((lft - 1, start) # st) keys' r1)"
  by (simp_all add: skip_loop.simps(2) skip_value_def split: sum.split)

lemma skip_items:
  assumes "list_all (skipped drawn) xs" "length xs < 2 ^ 64" "keys_wf keys" "consumes r (concat (map enc xs)) r'"
  shows "skip_loop drawn ((word_of_nat (length xs), None) # st) keys r = skip_loop drawn st keys r'"
  using assms
proof (induction xs arbitrary: r)
  case Nil
  then show ?case by (simp add: skip_loop_steps)
next
  case (Cons x xs)
  from Cons.prems(4) obtain r1 where x: "consumes r (enc x) r1" and r': "consumes r1 (concat (map enc xs)) r'"
    by (auto simp: consumes_append)
  have n1: "(word_of_nat (length (x # xs)) :: u64) \<noteq> 0"
    "(word_of_nat (length (x # xs)) :: u64) - 1 = word_of_nat (length xs)"
    using word_of_nat_Suc_64 [of "length xs"] Cons.prems(2) by simp_all
  have "skip_loop drawn ((word_of_nat (length (x # xs)), None) # st) keys r =
      skip_value drawn ((word_of_nat (length xs), None) # st) keys r"
    by (subst skip_loop_steps(2) [OF n1(1)]) (simp only: n1(2), simp add: skip_key_def)
  also have "\<dots> = skip_loop drawn ((word_of_nat (length xs), None) # st) keys r1"
    using Cons.prems x by (intro skippedD) auto
  also have "\<dots> = skip_loop drawn st keys r'" using Cons.prems r' by (intro Cons.IH) auto
  finally show ?case .
qed

lemma skip_entries:
  assumes "list_all (\<lambda>e. skipped drawn (snd e)) es" "length es < 2 ^ 64"
    "keys_wf base" "map_opened drawn base names keys" "distinct (names @ map fst es)"
    "list_all (\<lambda>e. is_text (fst e) \<and> length (fst e) < 2 ^ 64) es"
    "consumes r (concat (map enc_entry es)) r'"
  shows "skip_loop drawn ((word_of_nat (length es), Some (length (ok_list base))) # st) keys r =
    skip_loop drawn st base r'"
  using assms
proof (induction es arbitrary: names keys r)
  case Nil
  then show ?case using keys_truncate_spec [of base drawn names keys] by (simp add: skip_loop_steps)
next
  case (Cons e es)
  from Cons.prems(7) obtain r0 r1 where k: "consumes r (enc_bytes (as_bytes (fst e))) r0"
    and v: "consumes r0 (enc (snd e)) r1" and r': "consumes r1 (concat (map enc_entry es)) r'"
    by (auto simp: consumes_append)
  have n1: "(word_of_nat (length (e # es)) :: u64) \<noteq> 0"
    "(word_of_nat (length (e # es)) :: u64) - 1 = word_of_nat (length es)"
    using word_of_nat_Suc_64 [of "length es"] Cons.prems(2) by simp_all
  have rt: "read_text r = Inr (fst e, r0)" using k Cons.prems(6) by (simp add: read_text_iff)
  have "fst e \<notin> set names" using Cons.prems(5) by auto
  then obtain keys1 where ki: "keys_insert drawn (length (ok_list base)) (fst e) (word_of_nat (length es)) keys = (True, keys1)"
    and m1: "map_opened drawn base (names @ [fst e]) keys1"
    using keys_insert_spec [OF Cons.prems(3,4), of "fst e"] by auto
  have "skip_loop drawn ((word_of_nat (length (e # es)), Some (length (ok_list base))) # st) keys r =
      skip_value drawn ((word_of_nat (length es), Some (length (ok_list base))) # st) keys1 r0"
    by (subst skip_loop_steps(2) [OF n1(1)]) (simp only: n1(2), simp add: skip_key_def rt ki)
  also have "\<dots> = skip_loop drawn ((word_of_nat (length es), Some (length (ok_list base))) # st) keys1 r1"
    using Cons.prems v map_opened_wf [OF Cons.prems(3) m1] by (intro skippedD) auto
  also have "\<dots> = skip_loop drawn st base r'" using Cons.prems r' m1 by (intro Cons.IH [of "names @ [fst e]"]) auto
  finally show ?case .
qed

lemma leaf_skipped: "leaf_ok v \<Longrightarrow> skipped drawn v"
  unfolding skipped_def
proof (intro allI impI)
  fix st keys r r' assume "leaf_ok v" "consumes r (enc v) r'"
  then obtain t where "read_token r = Inr (t, r')" "token_node t = NLeaf v" by (rule leaf_token)
  then show "skip_value drawn st keys r = skip_loop drawn st keys r'" by (cases t) (auto simp: skip_value_def)
qed

lemma skip_enc: "wire_ok v \<Longrightarrow> skipped drawn v"
proof (induction v rule: value_induct)
  case (List xs)
  show ?case unfolding skipped_def
  proof (intro allI impI)
    fix st keys r r' assume wf: "keys_wf keys" and c: "consumes r (enc (VList xs)) r'"
    obtain r1 where rn: "read_node r = Inr (NList (word_of_nat (length xs)), r1)"
      and b: "consumes r1 (concat (map enc xs)) r'"
      using count_read [of r GUATIAO_LIST "length xs" "concat (map enc xs)" r'] c List.prems(1) length_enc_items [of xs]
      by auto
    have rt: "read_token r = Inr (TListOf (word_of_nat (length xs)), r1)" using rn by (simp add: read_token_iff)
    have "list_all (skipped drawn) xs" using List by (auto simp: list_all_iff)
    from skip_items [OF this _ wf b] List.prems show "skip_value drawn st keys r = skip_loop drawn st keys r'"
      by (simp add: skip_value_def rt)
  qed
next
  case (Map es)
  show ?case unfolding skipped_def
  proof (intro allI impI)
    fix st keys r r' assume wf: "keys_wf keys" and c: "consumes r (enc (VMap es)) r'"
    obtain r1 where rn: "read_node r = Inr (NMap (word_of_nat (length es)), r1)"
      and b: "consumes r1 (concat (map enc_entry es)) r'"
      using count_read [of r GUATIAO_MAP "length es" "concat (map enc_entry es)" r'] c Map.prems(1) length_enc_entries [of es]
      by auto
    have rt: "read_token r = Inr (TMapOf (word_of_nat (length es)), r1)" using rn by (simp add: read_token_iff)
    have "list_all (\<lambda>e. skipped drawn (snd e)) es"
      unfolding list_all_iff
    proof
      fix e assume "e \<in> set es"
      with Map.IH [of "fst e" "snd e"] Map.prems show "skipped drawn (snd e)" by (auto simp: list_all_iff)
    qed
    from skip_entries [OF this _ wf map_opened_Nil _ _ b] Map.prems
    show "skip_value drawn st keys r = skip_loop drawn st keys r'"
      by (auto simp: skip_value_def rt list_all_iff)
  qed
qed (simp_all add: leaf_skipped number_is_text)

lemma length_events_enc: "readable v \<Longrightarrow> length (events v) \<le> length (enc v)"
proof (induction v rule: value_induct)
  case (List xs)
  have "length (concat (map events xs)) \<le> length (concat (map enc xs))"
    using List by (induction xs) (auto simp: add_mono)
  moreover have "1 \<le> length (enc_len (word_of_nat (length xs)))" by (simp add: Suc_leI)
  ultimately show ?case by simp
next
  case (Map es)
  have "length (concat (map (\<lambda>e. EKey (fst e) # events (snd e)) es)) \<le> length (concat (map enc_entry es))"
    using Map
  proof (induction es)
    case (Cons e es)
    have "length (events (snd e)) \<le> length (enc (snd e))"
      using Cons.prems(1) [of "fst e" "snd e"] Cons.prems(2) by simp
    moreover have "1 \<le> length (enc_bytes (as_bytes (fst e)))" by (simp add: enc_bytes_def Suc_leI)
    moreover have "length (concat (map (\<lambda>e. EKey (fst e) # events (snd e)) es)) \<le> length (concat (map enc_entry es))"
      using Cons by (auto simp: keys_are_text_def)
    ultimately show ?case by simp
  qed simp
  moreover have "1 \<le> length (enc_len (word_of_nat (length es)))" by (simp add: Suc_leI)
  ultimately show ?case by simp
qed auto

lemma wire_ok_events: "wire_ok v \<Longrightarrow> list_all event_ok (events v)"
proof (induction v rule: value_induct)
  case (Map es)
  have "list_all event_ok (events (snd e))" if "e \<in> set es" for e
    using Map.IH [of "fst e" "snd e"] Map.prems that by (auto simp: list_all_iff)
  with Map.prems show ?case by (auto simp: list_all_iff)
qed (auto simp: list_all_iff number_is_text)

lemma wire_ok_unrepeated: "wire_ok v \<Longrightarrow> unrepeated v"
proof (induction v rule: value_induct)
  case (Map es)
  have "unrepeated (snd e)" if "e \<in> set es" for e
    using Map.IH [of "fst e" "snd e"] Map.prems that by (auto simp: list_all_iff)
  with Map.prems show ?case by (auto simp: list_all_iff)
qed (auto simp: list_all_iff)

section \<open>Properties\<close>

text \<open>C6: walking bytes is walking the tree they decode to: into any sink, with the same outcome, for
  exactly the bytes \<open>decode\<close> accepts and a walk can nest.\<close>

theorem walking_bytes_is_walking_their_tree:
  "walk_encoded drawn put bytes s = Inr s' \<longleftrightarrow>
   (\<exists>v. decode drawn' bytes = Inr v \<and> nesting v \<le> MAX_DEPTH \<and> walk_value put v s = Inr s')"
  by (rule walk_encoded_iff)

text \<open>C7: bytes walked into the encoder come out again, byte for byte.\<close>

theorem bytes_walked_into_the_encoder_are_copied:
  assumes "decode drawn bytes = Inr v" "nesting v \<le> MAX_DEPTH" "length bytes < 2 ^ 64"
  shows "\<exists>s. walk_encoded drawn' (enc_put drawn'') bytes (encoder_new out) = Inr s \<and>
    is_complete s \<and> e_out s = out @ bytes"
proof -
  have v: "wire_ok v" "enc v = bytes" using decode_sound [of drawn bytes 0 v] assms(1) by (simp_all add: decode_def)
  have ok: "events_ok (events v)"
    using wire_ok_events [OF v(1)] length_events_enc [of v] v assms(3) wire_ok_readable [OF v(1)]
    by (simp add: events_ok_def)
  have "spells (events v) v" using v(1) by (simp add: spells_events wire_ok_readable wire_ok_unrepeated)
  then obtain s where "put_all (enc_put drawn'') (events v) (encoder_new out) = Inr s" "is_complete s"
    "e_out s = out @ enc v"
    using encoder_complete_iff [OF ok, of drawn'' out] by blast
  then show ?thesis using walk_encoded_enc [OF v(1) assms(2), of drawn' "enc_put drawn''"] v(2) by auto
qed

theorem bytes_walked_into_the_encoder_are_copied_witness:
  "\<exists>s. walk_encoded (7, 0) (enc_put (1, 2)) [6, 1, 1] (encoder_new [9]) = Inr s \<and> e_out s = [9, 6, 1, 1]"
proof -
  have "enc (VList [VNull]) = [6, 1, 1]" by (simp add: enc_len_unfold tag_byte_def)
  then have "decode (0, 0) [6, 1, 1] = Inr (VList [VNull])"
    using decode_enc [of "VList [VNull]" "(0, 0)" 0] by (simp add: decode_def)
  from bytes_walked_into_the_encoder_are_copied [OF this, of "(7, 0)" "(1, 2)" "[9]"] show ?thesis
    by (auto simp: MAX_DEPTH_def)
qed

text \<open>A reader passes over exactly one value: \<open>skip\<close> leaves it where the value's bytes end, and the
  keys of the maps still open as they were.\<close>

theorem skip_passes_over_one_value:
  assumes "decode drawn' bytes = Inr v" "keys_wf keys"
  shows "skip drawn keys \<lparr>rbytes = before @ bytes @ after, rat = length before, rbase = base\<rparr> =
    Inr (keys, \<lparr>rbytes = before @ bytes @ after, rat = length before + length bytes, rbase = base\<rparr>)"
proof -
  let ?r = "\<lparr>rbytes = before @ bytes @ after, rat = length before, rbase = base\<rparr>"
    and ?r' = "\<lparr>rbytes = before @ bytes @ after, rat = length before + length bytes, rbase = base\<rparr>"
  have v: "wire_ok v" "enc v = bytes" using decode_sound [of drawn' bytes 0 v] assms(1) by (simp_all add: decode_def)
  have c: "consumes ?r (enc v) ?r'" using v(2) by (simp add: consumes_def rest_def advance_def)
  have "skip_loop drawn [(1, None)] keys ?r = skip_value drawn [(0, None)] keys ?r"
    by (simp add: skip_loop_steps skip_key_def)
  also have "\<dots> = Inr (keys, ?r')"
    using skippedD [OF skip_enc [OF v(1)] assms(2) c] by (simp add: skip_loop_steps)
  finally show ?thesis using keys_truncate_spec [OF assms(2) map_opened_Nil] by (simp add: skip_def)
qed

theorem skip_passes_over_one_value_witness:
  "skip (7, 0) no_keys \<lparr>rbytes = [9] @ [6, 1, 1] @ [8], rat = 1, rbase = 0\<rparr> =
    Inr (no_keys, \<lparr>rbytes = [9] @ [6, 1, 1] @ [8], rat = 4, rbase = 0\<rparr>)"
proof -
  have "enc (VList [VNull]) = [6, 1, 1]" by (simp add: enc_len_unfold tag_byte_def)
  then have "decode (0, 0) [6, 1, 1] = Inr (VList [VNull])"
    using decode_enc [of "VList [VNull]" "(0, 0)" 0] by (simp add: decode_def)
  from skip_passes_over_one_value [OF this no_keys_wf, of "(7, 0)" "[9]" "[8]" 0] show ?thesis by simp
qed

end
