(* ===== verification/Intake_Path.thy ===== *)
theory Intake_Path
  imports Merge_Path Walks Maps
begin

text \<open>
  The path grammar of \<open>guatiao-intake/src/path/mod.rs\<close> and the walk of \<open>path/walk.rs\<close>:
  the segments and their spelling, the reader of one segment with its byte counts and
  error offsets, \<open>parse\<close>, the iterator and the readers built on it. \<open>usize\<close> is 64 bits.
\<close>

section \<open>Segments and errors\<close>

datatype Segment = Field str | Index nat | Key str

datatype PathError =
    Empty | EmptyField nat | EmptyIndex nat | UnclosedIndex nat | UnclosedQuote nat
  | BadEscape nat | UnexpectedClose nat | TrailingQuote nat | MissingSeparator nat

fun path_offset :: "PathError \<Rightarrow> nat" where
  "path_offset Empty = 0"
| "path_offset (EmptyField n) = n"
| "path_offset (EmptyIndex n) = n"
| "path_offset (UnclosedIndex n) = n"
| "path_offset (UnclosedQuote n) = n"
| "path_offset (BadEscape n) = n"
| "path_offset (UnexpectedClose n) = n"
| "path_offset (TrailingQuote n) = n"
| "path_offset (MissingSeparator n) = n"

fun offset_by :: "PathError \<Rightarrow> nat \<Rightarrow> PathError" where
  "offset_by Empty k = Empty"
| "offset_by (EmptyField n) k = EmptyField (n + k)"
| "offset_by (EmptyIndex n) k = EmptyIndex (n + k)"
| "offset_by (UnclosedIndex n) k = UnclosedIndex (n + k)"
| "offset_by (UnclosedQuote n) k = UnclosedQuote (n + k)"
| "offset_by (BadEscape n) k = BadEscape (n + k)"
| "offset_by (UnexpectedClose n) k = UnexpectedClose (n + k)"
| "offset_by (TrailingQuote n) k = TrailingQuote (n + k)"
| "offset_by (MissingSeparator n) k = MissingSeparator (n + k)"

definition is_bare_name :: "str \<Rightarrow> bool" where
  "is_bare_name s \<longleftrightarrow> s \<noteq> [] \<and> \<not> list_ex name_ends s"

definition index_of :: "str \<Rightarrow> nat option" where
  "index_of s =
     (if s = [] \<or> \<not> list_all is_digit s then None
      else if length s > 1 \<and> hd s = CHR ''0'' then None
      else if dec_val s < 2 ^ 64 then Some (dec_val s) else None)"

definition needs_quoting :: "str \<Rightarrow> bool" where
  "needs_quoting key \<longleftrightarrow>
     key = [] \<or> hd key = DQ \<or> list_ex (\<lambda>c. c = CHR ''['' \<or> c = CHR '']'') key \<or> index_of key \<noteq> None"

fun show_segment :: "Segment \<Rightarrow> str" where
  "show_segment (Field s) = s"
| "show_segment (Index n) = ''['' @ show_nat n @ '']''"
| "show_segment (Key key) =
     (if needs_quoting key then ''['' @ [DQ] @ escaped key @ [DQ] @ '']'' else ''['' @ key @ '']'')"

section \<open>Reading\<close>

text \<open>The two passes of \<open>quoted_key\<close>, each with the byte index it has reached: the first
  answers the borrowed key, that there is an escape, or that the quote never closes.\<close>

fun scan_quoted :: "nat \<Rightarrow> str \<Rightarrow> bool \<times> nat option" where
  "scan_quoted i [] = (False, None)"
| "scan_quoted i (c # r) =
     (if c = BSL then (True, None)
      else if c = DQ then (False, Some i)
      else scan_quoted (i + 1) r)"

fun unescape :: "nat \<Rightarrow> str \<Rightarrow> str \<Rightarrow> PathError + (str \<times> nat)" where
  "unescape i out [] = Inl (UnclosedQuote 0)"
| "unescape i out (c # r) =
     (if c = DQ then Inr (out, i + 1)
      else if c = BSL then
        (case r of
           [] \<Rightarrow> Inl (BadEscape (i + 1))
         | d # r' \<Rightarrow>
             if d = DQ \<or> d = BSL then unescape (i + 2) (out @ [d]) r'
             else Inl (BadEscape (i + 1)))
      else unescape (i + 1) (out @ [c]) r)"

definition quoted_key :: "str \<Rightarrow> PathError + (str \<times> nat)" where
  "quoted_key quoted =
     (case scan_quoted 0 quoted of
        (esc, Some i) \<Rightarrow> Inr (take i quoted, i + 1)
      | (esc, None) \<Rightarrow> if \<not> esc then Inl (UnclosedQuote 0) else unescape 0 [] quoted)"

text \<open>\<open>str::find\<close>: the byte index of the first match.\<close>

definition find_at :: "(char \<Rightarrow> bool) \<Rightarrow> str \<Rightarrow> nat option" where
  "find_at f s =
     (let n = length (takeWhile (\<lambda>c. \<not> f c) s) in if n < length s then Some n else None)"

definition bracket :: "str \<Rightarrow> PathError + (Segment \<times> nat)" where
  "bracket body =
     (let inside = drop 1 body in
      if inside \<noteq> [] \<and> hd inside = DQ then
        and_then (map_err (\<lambda>e. offset_by e 1) (quoted_key (tl inside))) (\<lambda>(key, n).
          let after = drop (1 + n) inside in
          if after \<noteq> [] \<and> hd after = CHR '']'' then Inr (Key key, 1 + 1 + n + 1)
          else Inl (TrailingQuote (1 + 1 + n)))
      else
        (case find_at (\<lambda>c. c = CHR '']'') inside of
           None \<Rightarrow> Inl (UnclosedIndex 0)
         | Some n \<Rightarrow>
             (let s = take n inside in
              if n = 0 then Inl (EmptyIndex 0)
              else if CHR ''['' \<in> set s then Inl (UnclosedIndex 0)
              else Inr (case index_of s of Some i \<Rightarrow> Index i | None \<Rightarrow> Key s, 1 + n + 1))))"

text \<open>The end of a bare name.\<close>

definition name_end :: "str \<Rightarrow> nat" where
  "name_end body = (case find_at name_ends body of Some n \<Rightarrow> n | None \<Rightarrow> length body)"

definition step :: "str \<Rightarrow> bool \<Rightarrow> PathError + (Segment \<times> nat) option" where
  "step r starts =
     (if r = [] then Inr None
      else
        let dotted = (hd r = CHR ''.'');
            body = (if dotted then tl r else r);
            skipped = (if dotted then 1 else 0)
        in if skipped = 0 \<and> \<not> starts \<and> hd r \<noteq> CHR ''['' then Inl (MissingSeparator 0)
           else if body \<noteq> [] \<and> hd body = CHR ''['' then
             if skipped = 1 then Inl (EmptyField 1)
             else and_then (bracket body) (\<lambda>(segment, n). Inr (Some (segment, skipped + n)))
           else
             let end = name_end body;
                 after = drop end body
             in if after \<noteq> [] \<and> hd after = CHR '']'' then Inl (UnexpectedClose (skipped + end))
                else if end = 0 then Inl (EmptyField skipped)
                else Inr (Some (Field (take end body), skipped + end)))"

subsection \<open>A step advances within the text\<close>

lemma scan_quoted_Some:
  "scan_quoted i s = (esc, Some j) \<Longrightarrow>
   \<exists>k. j = i + k \<and> k < length s \<and> s ! k = DQ \<and> (\<forall>c\<in>set (take k s). c \<noteq> DQ \<and> c \<noteq> BSL)"
proof (induction i s rule: scan_quoted.induct)
  case (2 i c r)
  show ?case
  proof (cases "c = BSL \<or> c = DQ")
    case True
    then show ?thesis using "2.prems" by (auto split: if_splits)
  next
    case False
    then obtain k where "j = (i + 1) + k" "k < length r" "r ! k = DQ"
      "\<forall>c\<in>set (take k r). c \<noteq> DQ \<and> c \<noteq> BSL"
      using 2 by (auto split: if_splits)
    then show ?thesis using False by (intro exI [of _ "Suc k"]) auto
  qed
qed simp

lemma unescape_Inr:
  "unescape i out s = Inr (key, n) \<Longrightarrow>
   \<exists>k. n = i + k + 1 \<and> k < length s \<and> s ! k = DQ"
proof (induction i out s rule: unescape.induct)
  case (2 i out c r)
  consider "c = DQ" | d r' where "c \<noteq> DQ" "c = BSL" "r = d # r'" "d = DQ \<or> d = BSL" | "c \<noteq> DQ" "c \<noteq> BSL"
    using "2.prems" by (auto split: if_splits list.splits)
  then show ?case
  proof cases
    case 1
    then show ?thesis using "2.prems" by auto
  next
    case 2
    then have "unescape (i + 2) (out @ [d]) r' = Inr (key, n)" using "2.prems" by simp
    then obtain k where "n = (i + 2) + k + 1" "k < length r'" "r' ! k = DQ"
      using "2.IH"(1) 2 by blast
    then show ?thesis using 2 by (intro exI [of _ "Suc (Suc k)"]) auto
  next
    case 3
    then have "unescape (i + 1) (out @ [c]) r = Inr (key, n)" using "2.prems" by simp
    then obtain k where "n = (i + 1) + k + 1" "k < length r" "r ! k = DQ"
      using "2.IH"(2) 3 by blast
    then show ?thesis by (intro exI [of _ "Suc k"]) auto
  qed
qed simp

lemma quoted_key_Inr: "quoted_key s = Inr (key, n) \<Longrightarrow> 0 < n \<and> n \<le> length s"
  by (auto simp: quoted_key_def dest!: scan_quoted_Some unescape_Inr split: prod.splits option.splits if_splits)

lemma find_at_Some: "find_at f s = Some n \<Longrightarrow> n < length s \<and> f (s ! n) \<and> (\<forall>c\<in>set (take n s). \<not> f c)"
proof -
  assume "find_at f s = Some n"
  then have n: "n = length (takeWhile (\<lambda>c. \<not> f c) s)" "n < length s"
    by (auto simp: find_at_def Let_def split: if_splits)
  then have "take n s = takeWhile (\<lambda>c. \<not> f c) s" by (simp add: takeWhile_eq_take [symmetric])
  then show ?thesis using n nth_length_takeWhile [of "\<lambda>c. \<not> f c" s] by (auto dest: set_takeWhileD)
qed

lemma find_at_None: "find_at f s = None \<longleftrightarrow> (\<forall>c\<in>set s. \<not> f c)"
proof -
  have "length (takeWhile (\<lambda>c. \<not> f c) s) < length s \<longleftrightarrow> (\<exists>c\<in>set s. f c)"
    by (induction s) auto
  then show ?thesis by (auto simp: find_at_def Let_def)
qed

lemma bracket_quoted_Inr:
  assumes "inside \<noteq> []" "hd inside = DQ" "bracket (CHR ''['' # inside) = Inr (seg, n)"
  obtains key m where "quoted_key (tl inside) = Inr (key, m)" "n = m + 3" "m + 2 \<le> length inside"
    "drop (1 + m) inside ! 0 = CHR '']''" "seg = Key key"
proof -
  from assms obtain key m where q: "quoted_key (tl inside) = Inr (key, m)"
    and c: "drop (1 + m) inside \<noteq> []" "hd (drop (1 + m) inside) = CHR '']''" "seg = Key key" "n = m + 3"
    by (auto simp: bracket_def Let_def result_simps split: if_splits)
  then have "m + 2 \<le> length inside" by simp
  with q c that show thesis by (metis hd_conv_nth)
qed

lemma bracket_bare_Inr:
  assumes "\<not> (inside \<noteq> [] \<and> hd inside = DQ)" "bracket (CHR ''['' # inside) = Inr (seg, n)"
  obtains m where "find_at (\<lambda>c. c = CHR '']'') inside = Some m" "n = m + 2" "0 < m" "m < length inside"
    "CHR ''['' \<notin> set (take m inside)"
    "seg = (case index_of (take m inside) of Some i \<Rightarrow> Index i | None \<Rightarrow> Key (take m inside))"
  using assms find_at_Some [of "\<lambda>c. c = CHR '']''" inside]
  by (cases "find_at (\<lambda>c. c = CHR '']'') inside") (auto simp: bracket_def Let_def split: if_splits)

lemma bracket_Inr: "bracket (CHR ''['' # inside) = Inr (seg, n) \<Longrightarrow> 0 < n \<and> n \<le> Suc (length inside)"
proof (cases "inside \<noteq> [] \<and> hd inside = DQ")
  case True
  assume "bracket (CHR ''['' # inside) = Inr (seg, n)"
  with True show ?thesis by (elim conjE bracket_quoted_Inr) auto
next
  case False
  assume "bracket (CHR ''['' # inside) = Inr (seg, n)"
  with False show ?thesis by (elim bracket_bare_Inr) auto
qed

lemma name_end_le: "name_end body \<le> length body"
  by (auto simp: name_end_def dest!: find_at_Some split: option.splits)

lemma step_Some_cases:
  assumes "step r starts = Inr (Some (seg, n))"
  obtains (Bracket) inside where "r = CHR ''['' # inside" "bracket r = Inr (seg, n)"
  | (Name) body k where "r = (if k = 1 then CHR ''.'' # body else body)" "k = 1 \<or> k = 0 \<and> starts"
      "0 < name_end body" "seg = Field (take (name_end body) body)" "n = k + name_end body"
      "\<not> (drop (name_end body) body \<noteq> [] \<and> hd (drop (name_end body) body) = CHR '']'')"
proof (cases r)
  case Nil
  then show thesis using assms by (simp add: step_def)
next
  case (Cons c t)
  show thesis
  proof (cases "c = CHR ''.''")
    case True
    then show thesis
      using assms Cons Name [of 1 t] by (auto simp: step_def Let_def split: if_splits)
  next
    case False
    show thesis
    proof (cases "c = CHR ''[''")
      case True
      then have "step r starts = and_then (bracket r) (\<lambda>(segment, n). Inr (Some (segment, n)))"
        using Cons False by (simp add: step_def)
      then have "bracket r = Inr (seg, n)" using assms by (cases "bracket r") auto
      then show thesis using True Cons by (intro Bracket [of t]) simp_all
    next
      case nb: False
      have "starts \<and> 0 < name_end r \<and> seg = Field (take (name_end r) r) \<and> n = name_end r \<and>
          \<not> (drop (name_end r) r \<noteq> [] \<and> hd (drop (name_end r) r) = CHR '']'')"
        using assms nb False unfolding Cons step_def Let_def by (simp split: if_splits) blast
      then show thesis by (intro Name [of 0 r]) simp_all
    qed
  qed
qed

lemma step_Some: "step r starts = Inr (Some (seg, n)) \<Longrightarrow> 0 < n \<and> n \<le> length r"
proof (erule step_Some_cases)
  fix body k
  show "r = (if k = 1 then CHR ''.'' # body else body) \<Longrightarrow> k = 1 \<or> k = 0 \<and> starts \<Longrightarrow>
    0 < name_end body \<Longrightarrow> n = k + name_end body \<Longrightarrow> 0 < n \<and> n \<le> length r"
    using name_end_le [of body] by auto
qed (auto dest: bracket_Inr)

section \<open>Paths\<close>

function path_loop :: "str \<Rightarrow> nat \<Rightarrow> PathError + unit" where
  "path_loop r n =
     (if r = [] then Inr ()
      else case step r (n = 0) of
        Inl e \<Rightarrow> Inl (offset_by e n)
      | Inr None \<Rightarrow> Inl (EmptyField n)
      | Inr (Some (segment, k)) \<Rightarrow> path_loop (drop k r) (n + k))"
  by pat_completeness auto
termination
  by (relation "measure (\<lambda>(r, n). length r)") (auto dest!: step_Some)

declare path_loop.simps [simp del]

definition path_parse :: "str \<Rightarrow> PathError + str" where
  "path_parse s =
     (if s = [] then Inl Empty
      else if hd s = CHR ''.'' then Inl (EmptyField 0)
      else and_then (path_loop s 0) (\<lambda>_. Inr s))"

text \<open>The iterator \<open>Segments\<close>: its state is what is left and how much was read.\<close>

definition segments_next :: "str \<times> nat \<Rightarrow> (Segment \<times> (str \<times> nat)) option" where
  "segments_next st =
     (case step (fst st) (snd st = 0) of
        Inr (Some (segment, k)) \<Rightarrow> Some (segment, (drop k (fst st), snd st + k))
      | _ \<Rightarrow> None)"

lemma segments_next_less:
  "segments_next st = Some (segment, st') \<Longrightarrow> length (fst st') < length (fst st)"
  by (auto simp: segments_next_def dest!: step_Some split: sum.splits option.splits)

function segments_from :: "str \<times> nat \<Rightarrow> Segment list" where
  "segments_from st =
     (case segments_next st of
        None \<Rightarrow> []
      | Some (segment, st') \<Rightarrow> segment # segments_from st')"
  by pat_completeness auto
termination
  by (relation "measure (\<lambda>st. length (fst st))") (auto dest!: segments_next_less)

declare segments_from.simps [simp del]

definition segments :: "str \<Rightarrow> Segment list" where
  "segments s = segments_from (s, 0)"

definition remainder :: "str \<times> nat \<Rightarrow> str option" where
  "remainder st =
     (let r = (if fst st \<noteq> [] \<and> hd (fst st) = CHR ''.'' then tl (fst st) else fst st)
      in if r = [] then None else Some r)"

definition split_first :: "str \<Rightarrow> (Segment \<times> str option) option" where
  "split_first s =
     map_option (\<lambda>(segment, st). (segment, remainder st)) (segments_next (s, 0))"

function split_last_loop ::
  "str \<Rightarrow> nat \<Rightarrow> (nat \<times> Segment) option \<Rightarrow> (nat \<times> Segment) option option" where
  "split_last_loop r n seen =
     (if r = [] then Some seen
      else case step r (n = 0) of
        Inr (Some (segment, k)) \<Rightarrow> split_last_loop (drop k r) (n + k) (Some (n, segment))
      | _ \<Rightarrow> None)"
  by pat_completeness auto
termination
  by (relation "measure (\<lambda>(r, n, l). length r)") (auto dest!: step_Some)

declare split_last_loop.simps [simp del]

definition split_last :: "str \<Rightarrow> (str \<times> Segment) option" where
  "split_last s =
     (case path_parse s of
        Inl _ \<Rightarrow> None
      | Inr _ \<Rightarrow>
          (case split_last_loop s 0 None of
             Some (Some (start, segment)) \<Rightarrow>
               if start > 0 then Some (take start s, segment) else None
           | _ \<Rightarrow> None))"

text \<open>\<open>spelled\<close>, with the text left from offset \<open>n\<close>.\<close>

function spelled_loop :: "str \<Rightarrow> nat \<Rightarrow> bool \<Rightarrow> (Segment \<times> nat) list \<Rightarrow> (Segment \<times> nat) list option" where
  "spelled_loop r n continued out =
     (if r = [] then Some out
      else case step r (n = 0 \<and> \<not> continued) of
        Inr (Some (segment, k)) \<Rightarrow>
          spelled_loop (drop k r) (n + k) continued (out @ [(segment, n + k)])
      | _ \<Rightarrow> None)"
  by pat_completeness auto
termination
  by (relation "measure (\<lambda>(r, n, c, out). length r)") (auto dest!: step_Some)

declare spelled_loop.simps [simp del]

definition spelled :: "str \<Rightarrow> bool \<Rightarrow> (Segment \<times> nat) list option" where
  "spelled s continued =
     (if \<not> continued \<and> s \<noteq> [] \<and> hd s = CHR ''.'' then None
      else case spelled_loop s 0 continued [] of
        None \<Rightarrow> None
      | Some out \<Rightarrow> if out = [] then None else Some out)"

section \<open>Reading a path once is enough\<close>

text \<open>A step only asks whether it opens the path, and after the first every reader answers
  no: all the readers see the same segments.\<close>

lemma path_loop_step:
  assumes "path_loop r n = Inr ()" "r \<noteq> []"
  obtains seg k where "step r (n = 0) = Inr (Some (seg, k))" "path_loop (drop k r) (n + k) = Inr ()"
  using assms by (auto simp: path_loop.simps [of r n] split: sum.splits option.splits)

lemma segments_from_step:
  "step r (n = 0) = Inr (Some (seg, k)) \<Longrightarrow>
   segments_from (r, n) = seg # segments_from (drop k r, n + k)"
  by (subst segments_from.simps) (simp add: segments_next_def)

lemma segments_from_Nil [simp]: "segments_from ([], n) = []"
  by (subst segments_from.simps) (simp add: segments_next_def step_def)

lemma readers_agree:
  "path_loop r n = Inr () \<Longrightarrow>
   \<exists>ends. length ends = length (segments_from (r, n)) \<and>
     spelled_loop r n False out = Some (out @ zip (segments_from (r, n)) ends) \<and>
     sorted_wrt (<) (n # ends) \<and> last (n # ends) = n + length r \<and>
     split_last_loop r n seen =
       Some (if r = [] then seen
             else Some (last (butlast (n # ends)), last (segments_from (r, n))))"
proof (induction r n arbitrary: out seen rule: path_loop.induct)
  case (1 r n)
  show ?case
  proof (cases "r = []")
    case True
    then show ?thesis by (intro exI [of _ "[]"]) (simp add: spelled_loop.simps split_last_loop.simps)
  next
    case False
    with "1.prems" obtain seg k where s: "step r (n = 0) = Inr (Some (seg, k))"
      and rec: "path_loop (drop k r) (n + k) = Inr ()"
      by (rule path_loop_step)
    have k: "0 < k" "k \<le> length r" using step_Some [OF s] by simp_all
    from "1.IH" [OF False s refl refl rec, of "out @ [(seg, n + k)]" "Some (n, seg)"] obtain ends
      where e: "length ends = length (segments_from (drop k r, n + k))"
      "spelled_loop (drop k r) (n + k) False (out @ [(seg, n + k)]) =
         Some ((out @ [(seg, n + k)]) @ zip (segments_from (drop k r, n + k)) ends)"
      "sorted_wrt (<) ((n + k) # ends)" "last ((n + k) # ends) = n + k + length (drop k r)"
      "split_last_loop (drop k r) (n + k) (Some (n, seg)) =
         Some (if drop k r = [] then Some (n, seg)
               else Some (last (butlast ((n + k) # ends)), last (segments_from (drop k r, n + k))))"
      by (metis (no_types))
    note unf = segments_from_step [OF s] spelled_loop.simps [of r n] split_last_loop.simps [of r n]
    show ?thesis
    proof (rule exI [of _ "(n + k) # ends"], intro conjI)
      show "sorted_wrt (<) (n # (n + k) # ends)" using e(3) k by auto
      show "last (n # (n + k) # ends) = n + length r" using e(4) k by simp
      show "split_last_loop r n seen = Some (if r = [] then seen
          else Some (last (butlast (n # (n + k) # ends)), last (segments_from (r, n))))"
      proof (cases "ends = []")
        case True
        then have "k = length r" "segments_from (drop k r, n + k) = []" using e(1,4) k by auto
        then show ?thesis using e(5) False s True by (simp add: unf)
      next
        case ne: False
        then have sg: "segments_from (drop k r, n + k) \<noteq> []" using e(1) by auto
        then have "drop k r \<noteq> []" by auto
        then show ?thesis using e(5) False s ne sg by (simp add: unf)
      qed
    qed (use e False s in \<open>simp_all add: unf\<close>)
  qed
qed

lemma path_parse_Inr: "path_parse s = Inr t \<longleftrightarrow>
    t = s \<and> s \<noteq> [] \<and> hd s \<noteq> CHR ''.'' \<and> path_loop s 0 = Inr ()"
  by (auto simp: path_parse_def result_simps)

lemma segments_nonempty: "path_parse s = Inr s \<Longrightarrow> segments s \<noteq> []"
proof -
  assume "path_parse s = Inr s"
  then have "path_loop s 0 = Inr ()" "s \<noteq> []" by (simp_all add: path_parse_Inr)
  then obtain seg k where "step s (0 = (0::nat)) = Inr (Some (seg, k))" by (rule path_loop_step)
  then show ?thesis unfolding segments_def by (simp add: segments_from_step)
qed

section \<open>Where an error points\<close>

lemma offset_by_offset: "path_offset (offset_by e k) \<le> path_offset e + k"
  by (cases e) auto

lemma unescape_Inl: "unescape i out s = Inl e \<Longrightarrow> path_offset e \<le> i + length s"
proof (induction i out s rule: unescape.induct)
  case (2 i out c r)
  consider "c = BSL" "e = BadEscape (i + 1)"
    | d r' where "c \<noteq> DQ" "c = BSL" "r = d # r'" "d = DQ \<or> d = BSL" | "c \<noteq> DQ" "c \<noteq> BSL"
    using "2.prems" by (auto split: if_splits list.splits)
  then show ?case
  proof cases
    case 2
    then have "unescape (i + 2) (out @ [d]) r' = Inl e" using "2.prems" by simp
    then have "path_offset e \<le> i + 2 + length r'" using "2.IH"(1) 2 by blast
    then show ?thesis using 2 by simp
  next
    case 3
    then have "unescape (i + 1) (out @ [c]) r = Inl e" using "2.prems" by simp
    then have "path_offset e \<le> i + 1 + length r" using "2.IH"(2) 3 by blast
    then show ?thesis by simp
  qed simp
qed auto

lemma quoted_key_Inl: "quoted_key s = Inl e \<Longrightarrow> path_offset e \<le> length s"
  using unescape_Inl [of 0 "[]" s e]
  by (auto simp: quoted_key_def split: prod.splits option.splits if_splits)

lemma bracket_Inl: "bracket (CHR ''['' # inside) = Inl e \<Longrightarrow> path_offset e \<le> Suc (length inside)"
proof (cases "inside \<noteq> [] \<and> hd inside = DQ")
  case True
  assume b: "bracket (CHR ''['' # inside) = Inl e"
  show ?thesis
  proof (cases "quoted_key (tl inside)")
    case (Inl q)
    then have "e = offset_by q 1" using b True by (simp add: bracket_def)
    then show ?thesis using quoted_key_Inl [OF Inl] offset_by_offset [of q 1] True by auto
  next
    case (Inr p)
    then obtain key m where "quoted_key (tl inside) = Inr (key, m)" by (cases p) auto
    then show ?thesis using quoted_key_Inr [of "tl inside" key m] b True
      by (auto simp: bracket_def Let_def split: if_splits)
  qed
next
  case False
  assume "bracket (CHR ''['' # inside) = Inl e"
  then show ?thesis using False by (auto simp: bracket_def Let_def split: option.splits if_splits)
qed

lemma step_Inl:
  assumes "step r starts = Inl e"
  shows "path_offset e \<le> length r"
proof (cases r)
  case Nil
  then show ?thesis using assms by (simp add: step_def)
next
  case (Cons c t)
  consider "c = CHR ''['' " | "c = CHR ''.''" | "c \<noteq> CHR ''[''" "c \<noteq> CHR ''.''" by blast
  then show ?thesis
  proof cases
    case 1
    then have "step r starts = and_then (bracket r) (\<lambda>(segment, n). Inr (Some (segment, n)))"
      using Cons by (simp add: step_def)
    then have "bracket r = Inl e" using assms by (cases "bracket r") auto
    then show ?thesis using bracket_Inl [of t e] 1 Cons by simp
  next
    case 2
    then show ?thesis using assms Cons name_end_le [of t]
      by (auto simp: step_def Let_def split: if_splits)
  next
    case 3
    then show ?thesis using assms name_end_le [of "c # t"] unfolding Cons step_def Let_def
      by (simp split: if_splits) auto
  qed
qed

lemma path_loop_Inl: "path_loop r n = Inl e \<Longrightarrow> path_offset e \<le> n + length r"
proof (induction r n rule: path_loop.induct)
  case (1 r n)
  have "r \<noteq> []" using "1.prems" by (auto simp: path_loop.simps)
  show ?case
  proof (cases "step r (n = 0)")
    case (Inl d)
    then have "e = offset_by d n" using "1.prems" \<open>r \<noteq> []\<close> by (simp add: path_loop.simps)
    then show ?thesis using step_Inl [OF Inl] offset_by_offset [of d n] by simp
  next
    case (Inr o')
    show ?thesis
    proof (cases o')
      case None
      then show ?thesis using "1.prems" \<open>r \<noteq> []\<close> Inr by (auto simp: path_loop.simps)
    next
      case (Some p)
      then obtain seg k where s: "step r (n = 0) = Inr (Some (seg, k))" using Inr by (cases p) auto
      then have "path_loop (drop k r) (n + k) = Inl e" using "1.prems" \<open>r \<noteq> []\<close>
        by (simp add: path_loop.simps [of r n])
      from "1.IH" [OF \<open>r \<noteq> []\<close> s refl refl this] step_Some [OF s] show ?thesis by simp
    qed
  qed
qed

lemma path_parse_Inl: "path_parse s = Inl e \<Longrightarrow> path_offset e \<le> length s"
  using path_loop_Inl [of s 0 e] by (auto simp: path_parse_def result_simps split: if_splits)

section \<open>A spelled path parses back\<close>

text \<open>The spelling of a list of segments: each as it displays, a \<open>.\<close> before a field that
  does not open the path.\<close>

definition spell_segment :: "bool \<Rightarrow> Segment \<Rightarrow> str" where
  "spell_segment starts seg =
     (case seg of Field s \<Rightarrow> if starts then [] else ''.'' | _ \<Rightarrow> []) @ show_segment seg"

fun spell_from :: "bool \<Rightarrow> Segment list \<Rightarrow> str" where
  "spell_from starts [] = []"
| "spell_from starts (seg # p) =
spell_segment starts seg @ spell_from False p"

definition spell :: "Segment list \<Rightarrow> str" where
  "spell p = spell_from True p"

fun seg_ok :: "Segment \<Rightarrow> bool" where
  "seg_ok (Field s) \<longleftrightarrow> is_bare_name s"
| "seg_ok (Index n) \<longleftrightarrow> n < 2 ^ 64"
| "seg_ok (Key s) \<longleftrightarrow> True"

lemma DQ_BSL [simp]: "DQ \<noteq> BSL" "BSL \<noteq> DQ" "DQ \<noteq> CHR '']''" "DQ \<noteq> CHR ''[''"
  by (simp_all add: DQ_def BSL_def)

lemma escaped_plain: "\<forall>c\<in>set s. c \<noteq> DQ \<and> c \<noteq> BSL \<Longrightarrow> escaped s = s"
  by (induction s) auto

lemma scan_plain:
  "\<forall>c\<in>set s. c \<noteq> DQ \<and> c \<noteq> BSL \<Longrightarrow> scan_quoted i (s @ DQ # r) = (False, Some (i + length s))"
  by (induction s arbitrary: i) auto

lemma scan_escaped:
  "\<not> (\<forall>c\<in>set s. c \<noteq> DQ \<and> c \<noteq> BSL) \<Longrightarrow> scan_quoted i (escaped s @ r) = (True, None)"
  by (induction s arbitrary: i) auto

lemma unescape_escaped: "unescape i out (escaped s @ DQ # r) = Inr (out @ s, i + length (escaped s) + 1)"
  by (induction s arbitrary: i out) auto

lemma quoted_key_escaped: "quoted_key (escaped s @ DQ # r) = Inr (s, length (escaped s) + 1)"
proof (cases "\<forall>c\<in>set s. c \<noteq> DQ \<and> c \<noteq> BSL")
  case True
  then show ?thesis by (simp add: quoted_key_def escaped_plain scan_plain)
next
  case False
  then have "scan_quoted 0 (escaped s @ DQ # r) = (True, None)" by (rule scan_escaped)
  then show ?thesis by (simp add: quoted_key_def unescape_escaped)
qed

lemma bracket_escaped:
  "bracket (CHR ''['' # DQ # escaped s @ DQ # CHR '']'' # r) = Inr (Key s, length (escaped s) + 4)"
  by (simp add: bracket_def quoted_key_escaped)

lemma find_at_append:
  "\<forall>c\<in>set s. \<not> f c \<Longrightarrow> f d \<Longrightarrow> find_at f (s @ d # r) = Some (length s)"
  by (simp add: find_at_def takeWhile_append)

lemma bracket_bare:
  assumes "s \<noteq> []" "hd s \<noteq> DQ" "\<not> list_ex (\<lambda>c. c = CHR ''['' \<or> c = CHR '']'') s"
  shows "bracket (CHR ''['' # s @ CHR '']'' # r) =
    Inr (case index_of s of Some i \<Rightarrow> Index i | None \<Rightarrow> Key s, length s + 2)"
proof -
  have "find_at (\<lambda>c. c = CHR '']'') (s @ CHR '']'' # r) = Some (length s)"
    using assms(3) by (intro find_at_append) (auto simp: list_ex_iff)
  moreover have "CHR ''['' \<notin> set s" using assms(3) by (auto simp: list_ex_iff)
  ultimately show ?thesis using assms(1,2) by (simp add: bracket_def Let_def)
qed

lemma name_end_append:
  assumes "is_bare_name s" "r = [] \<or> name_ends (hd r)"
  shows "name_end (s @ r) = length s"
proof (cases r)
  case Nil
  then have "find_at name_ends (s @ r) = None"
    using assms by (auto simp: find_at_None is_bare_name_def list_ex_iff)
  then show ?thesis using Nil by (simp add: name_end_def)
next
  case (Cons d t)
  then have "find_at name_ends (s @ r) = Some (length s)"
    using assms find_at_append [of s name_ends d t] by (auto simp: is_bare_name_def list_ex_iff)
  then show ?thesis by (simp add: name_end_def)
qed

lemma step_bracket:
  assumes "bracket (CHR ''['' # r) = Inr (seg, n)"
  shows "step (CHR ''['' # r) starts = Inr (Some (seg, n))"
  using assms by (simp add: step_def)

lemma step_name:
  assumes s: "is_bare_name s" and r: "r = [] \<or> hd r = CHR ''.'' \<or> hd r = CHR ''[''"
  shows "step ((if starts then [] else ''.'') @ s @ r) starts =
    Inr (Some (Field s, (if starts then 0 else 1) + length s))"
proof -
  have e: "name_end (s @ r) = length s"
    using r by (intro name_end_append s) (auto simp: name_ends_def)
  have h: "s \<noteq> []" "\<not> name_ends (hd (s @ r))" using s by (cases s; auto simp: is_bare_name_def)+
  then have "hd (s @ r) \<noteq> CHR ''['' \<and> hd (s @ r) \<noteq> CHR ''.''" by (auto simp: name_ends_def)
  then show ?thesis using h e r by (auto simp: step_def Let_def)
qed

lemma spell_from_False:
  "spell_from False p = [] \<or> hd (spell_from False p) = CHR ''.'' \<or> hd (spell_from False p) = CHR ''[''"
  by (cases p) (auto simp: spell_segment_def split: Segment.splits)

lemma index_of_show_nat: "n < 2 ^ 64 \<Longrightarrow> index_of (show_nat n) = Some n"
  using show_nat_leading [of n] dec_val_show_nat [of 0] unfolding show_nat_0
  by (cases "n = 0") (simp_all add: index_of_def show_nat_digits)

lemma index_of_Some: "index_of s = Some n \<Longrightarrow> s = show_nat n \<and> n < 2 ^ 64"
  using show_nat_dec_val [of s] by (cases s) (auto simp: index_of_def split: if_splits)

lemma show_nat_plain:
  "hd (show_nat n) \<noteq> DQ" "\<not> list_ex (\<lambda>c. c = CHR ''['' \<or> c = CHR '']'') (show_nat n)"
proof -
  have d: "\<forall>c\<in>set (show_nat n). is_digit c" using show_nat_digits [of n] by (simp add: list_all_iff)
  then have "is_digit (hd (show_nat n))" by simp
  then show "hd (show_nat n) \<noteq> DQ" by (auto dest: digit_plain)
  show "\<not> list_ex (\<lambda>c. c = CHR ''['' \<or> c = CHR '']'') (show_nat n)"
    using d by (auto simp: list_ex_iff dest: digit_plain)
qed

lemma step_spelled:
  assumes "seg_ok seg" "r = [] \<or> hd r = CHR ''.'' \<or> hd r = CHR ''[''"
  shows "step (spell_segment starts seg @ r) starts = Inr (Some (seg, length (spell_segment starts seg)))"
proof (cases seg)
  case (Field s)
  then show ?thesis using assms step_name [of s r starts] by (auto simp: spell_segment_def)
next
  case (Index n)
  have "bracket (CHR ''['' # show_nat n @ CHR '']'' # r) = Inr (Index n, length (show_nat n) + 2)"
    using assms(1) Index show_nat_plain [of n]
    by (subst bracket_bare) (simp_all add: index_of_show_nat)
  then show ?thesis using step_bracket Index by (auto simp: spell_segment_def)
next
  case (Key s)
  show ?thesis
  proof (cases "needs_quoting s")
    case True
    then show ?thesis using Key step_bracket [OF bracket_escaped [of s r]] by (simp add: spell_segment_def)
  next
    case False
    then have "bracket (CHR ''['' # s @ CHR '']'' # r) = Inr (Key s, length s + 2)"
      by (subst bracket_bare) (auto simp: needs_quoting_def)
    then show ?thesis using step_bracket Key False by (auto simp: spell_segment_def)
  qed
qed

lemma show_segment_nonempty: "seg_ok seg \<Longrightarrow> show_segment seg \<noteq> []"
  by (cases seg) (auto simp: is_bare_name_def)

lemma spell_from_parses:
  "list_all seg_ok p \<Longrightarrow> starts = (n = 0) \<Longrightarrow>
   path_loop (spell_from starts p) n = Inr () \<and> segments_from (spell_from starts p, n) = p"
proof (induction p arbitrary: n starts)
  case Nil
  then show ?case by (simp add: path_loop.simps)
next
  case (Cons seg p)
  let ?chunk = "spell_segment starts seg"
  have ne: "?chunk \<noteq> []" using Cons.prems show_segment_nonempty [of seg] by (simp add: spell_segment_def)
  have st: "step (?chunk @ spell_from False p) starts = Inr (Some (seg, length ?chunk))"
    using Cons.prems by (intro step_spelled spell_from_False) simp
  have e: "spell_from starts (seg # p) = ?chunk @ spell_from False p" by simp
  have "path_loop (spell_from False p) (n + length ?chunk) = Inr () \<and>
      segments_from (spell_from False p, n + length ?chunk) = p"
    using Cons.prems ne by (intro Cons.IH) auto
  moreover have "path_loop (?chunk @ spell_from False p) n = path_loop (spell_from False p) (n + length ?chunk)"
    using ne st Cons.prems(2) by (subst path_loop.simps) simp
  moreover have "segments_from (?chunk @ spell_from False p, n) =
      seg # segments_from (spell_from False p, n + length ?chunk)"
    using segments_from_step [of "?chunk @ spell_from False p" n seg "length ?chunk"] st Cons.prems(2) by simp
  ultimately show ?case unfolding e by simp
qed

lemma spell_opening: "list_all seg_ok p \<Longrightarrow> p \<noteq> [] \<Longrightarrow> spell p \<noteq> [] \<and> hd (spell p) \<noteq> CHR ''.''"
  by (cases p; cases "hd p") (auto simp: spell_def spell_segment_def is_bare_name_def name_ends_def neq_Nil_conv)

lemma spell_parses:
  assumes "list_all seg_ok p" "p \<noteq> []"
  shows "path_parse (spell p) = Inr (spell p) \<and> segments (spell p) = p"
  using spell_from_parses [OF assms(1), of True 0] spell_opening [OF assms]
  by (simp add: path_parse_Inr segments_def spell_def)

text \<open>Every segment read is one that spells back.\<close>

lemma step_seg_ok: "step r starts = Inr (Some (seg, n)) \<Longrightarrow> seg_ok seg"
proof (erule step_Some_cases)
  fix inside
  assume r: "r = CHR ''['' # inside" and b: "bracket r = Inr (seg, n)"
  show "seg_ok seg"
  proof (cases "inside \<noteq> [] \<and> hd inside = DQ")
    case True
    then show ?thesis using b unfolding r by (elim conjE bracket_quoted_Inr) auto
  next
    case False
    then show ?thesis using b unfolding r
      by (elim bracket_bare_Inr) (auto dest: index_of_Some split: option.splits)
  qed
next
  fix body k
  assume s: "seg = Field (take (name_end body) body)" "0 < name_end body"
  have "\<forall>c\<in>set (take (name_end body) body). \<not> name_ends c"
    using find_at_Some [of name_ends body] find_at_None [of name_ends body]
    by (cases "find_at name_ends body") (auto simp: name_end_def)
  then show "seg_ok seg" using s name_end_le [of body] by (auto simp: is_bare_name_def list_ex_iff)
qed

lemma segments_from_ok: "list_all seg_ok (segments_from st)"
proof (induction st rule: segments_from.induct)
  case (1 st)
  then show ?case
    by (subst segments_from.simps)
       (auto simp: segments_next_def step_seg_ok split: option.splits sum.splits)
qed

section \<open>A merge path reads as an intake path\<close>

fun seg_text :: "Segment \<Rightarrow> str" where
  "seg_text (Field s) = s"
| "seg_text (Index n) = show_nat n"
| "seg_text (Key s) = s"

fun merge_segment :: "str \<Rightarrow> Segment" where
  "merge_segment s =
     (if is_digits s then (case index_of s of Some i \<Rightarrow> Index i | None \<Rightarrow> Key s)
      else if needs_quotes s then Key s else Field s)"

lemma merge_segment_text [simp]: "seg_text (merge_segment s) = s"
  by (auto dest: index_of_Some split: option.splits)

lemma step_render:
  assumes "r = [] \<or> hd r = CHR ''.'' \<or> hd r = CHR ''[''"
  shows "step (render_segment starts s @ r) starts =
    Inr (Some (merge_segment s, length (render_segment starts s)))"
proof -
  consider "is_digits s" | "\<not> is_digits s" "needs_quotes s" | "\<not> is_digits s" "\<not> needs_quotes s" by blast
  then show ?thesis
  proof cases
    case 1
    then have "s \<noteq> []" "hd s \<noteq> DQ" "\<not> list_ex (\<lambda>c. c = CHR ''['' \<or> c = CHR '']'') s"
      by (cases s; auto simp: is_digits_def list_ex_iff list_all_iff dest: digit_plain)+
    from step_bracket [OF bracket_bare [OF this, of r]] 1 show ?thesis
      by (simp add: render_segment_def)
  next
    case 2
    then show ?thesis using step_bracket [OF bracket_escaped [of s r]] by (simp add: render_segment_def)
  next
    case 3
    then have "is_bare_name s" by (simp add: needs_quotes_def is_bare_name_def)
    from step_name [OF this assms, of starts] 3 show ?thesis by (auto simp: render_segment_def)
  qed
qed

lemma render_segment_nonempty: "render_segment starts s \<noteq> []"
  by (auto simp: render_segment_def needs_quotes_def)

lemma render_from_start: "render_from False p = [] \<or> hd (render_from False p) = CHR ''.'' \<or>
    hd (render_from False p) = CHR ''[''"
  by (cases p) (auto simp: render_segment_def)

lemma render_from_parses:
  "starts = (n = 0) \<Longrightarrow> path_loop (render_from starts p) n = Inr () \<and>
   segments_from (render_from starts p, n) = map merge_segment p"
proof (induction p arbitrary: n starts)
  case Nil
  then show ?case by (simp add: path_loop.simps)
next
  case (Cons s p)
  let ?c = "render_segment starts s"
  have st: "step (?c @ render_from False p) starts = Inr (Some (merge_segment s, length ?c))"
    by (rule step_render) (rule render_from_start)
  have "path_loop (render_from False p) (n + length ?c) = Inr () \<and>
      segments_from (render_from False p, n + length ?c) = map merge_segment p"
    using Cons.prems render_segment_nonempty [of starts s] by (intro Cons.IH) auto
  moreover have "path_loop (?c @ render_from False p) n = path_loop (render_from False p) (n + length ?c)"
    using st Cons.prems render_segment_nonempty [of starts s] by (subst path_loop.simps) simp
  moreover have "segments_from (?c @ render_from False p, n) =
      merge_segment s # segments_from (render_from False p, n + length ?c)"
    using segments_from_step [of "?c @ render_from False p" n "merge_segment s" "length ?c"] st Cons.prems by simp
  ultimately show ?case by simp
qed

lemma render_opening: "p \<noteq> [] \<Longrightarrow> render p \<noteq> [] \<and> hd (render p) \<noteq> CHR ''.''"
  by (cases p; cases "hd p")
     (auto simp: render_def render_segment_def needs_quotes_def name_ends_def)

lemma intake_reads_render:
  assumes "p \<noteq> []"
  shows "path_parse (render p) = Inr (render p) \<and> segments (render p) = map merge_segment p"
  using render_from_parses [of True 0 p] render_opening [OF assms]
  by (simp add: path_parse_Inr segments_def render_def)

section \<open>Following a path through a value\<close>

definition step_into :: "Value \<Rightarrow> Segment \<Rightarrow> Value option" where
  "step_into v seg =
     (case seg of
        Field s \<Rightarrow> Option.bind (as_map v) (\<lambda>m. map_get m s)
      | Key s \<Rightarrow> Option.bind (as_map v) (\<lambda>m. map_get m s)
      | Index i \<Rightarrow>
          (case as_list v of
             Some xs \<Rightarrow> if i < length xs then Some (xs ! i) else None
           | None \<Rightarrow> Option.bind (as_map v) (\<lambda>m. map_get m (show_nat i))))"

fun walk_get :: "Value \<Rightarrow> Segment list \<Rightarrow> Value option" where
  "walk_get v [] = Some v"
| "walk_get v (seg # p) = Option.bind (step_into v seg) (\<lambda>x. walk_get x p)"

text \<open>\<open>get_mut\<close> as the tree after a write through the reference it answers: \<open>None\<close> where
  there is none. The step that leads to the reference rebuilds what holds it.\<close>

definition map_put :: "map_entries \<Rightarrow> str \<Rightarrow> (Value \<Rightarrow> Value option) \<Rightarrow> Value option" where
  "map_put es key f =
     (case position es key of
        None \<Rightarrow> None
      | Some i \<Rightarrow> map_option (\<lambda>x. VMap (put_at es i x)) (f (snd (es ! i))))"

definition step_mut :: "Value \<Rightarrow> Segment \<Rightarrow> (Value \<Rightarrow> Value option) \<Rightarrow> Value option" where
  "step_mut v seg f =
     (case seg of
        Field s \<Rightarrow> Option.bind (as_map v) (\<lambda>m. map_put m s f)
      | Key s \<Rightarrow> Option.bind (as_map v) (\<lambda>m. map_put m s f)
      | Index i \<Rightarrow>
          (case as_list v of
             Some xs \<Rightarrow>
               if i < length xs then map_option (\<lambda>x. VList (xs[i := x])) (f (xs ! i)) else None
           | None \<Rightarrow> Option.bind (as_map v) (\<lambda>m. map_put m (show_nat i) f)))"

fun walk_put :: "Value \<Rightarrow> Segment list \<Rightarrow> Value \<Rightarrow> Value option" where
  "walk_put v [] w = Some w"
| "walk_put v (seg # p) w = step_mut v seg (\<lambda>x. walk_put x p w)"

lemma keys_put_at [simp]: "i < length es \<Longrightarrow> map fst (put_at es i v) = map fst es"
  by (simp add: put_at_def map_update list_update_same_conv)

lemma keys_are_text_put_at: "i < length es \<Longrightarrow> keys_are_text (put_at es i v) = keys_are_text es"
proof -
  assume "i < length es"
  then have "list_all is_text (map fst (put_at es i v)) = list_all is_text (map fst es)" by simp
  then show ?thesis by (simp add: keys_are_text_def list.pred_map comp_def)
qed

lemma position_put_at:
  assumes "position es k = Some i"
  shows "position (put_at es i v) k = Some i"
proof -
  note p = position_Some [OF assms]
  show ?thesis using p by (intro position_least) (auto simp: put_at_def nth_list_update)
qed

lemma map_put_get:
  assumes "map_put es k f = Some v'" "keys_are_text es"
  shows "\<exists>x y es'. map_get es k = Some x \<and> f x = Some y \<and> v' = VMap es' \<and> keys_are_text es' \<and>
    map_get es' k = Some y"
proof -
  from assms(1) obtain i y where i: "position es k = Some i" "f (snd (es ! i)) = Some y"
    "v' = VMap (put_at es i y)"
    by (auto simp: map_put_def split: option.splits)
  note p = position_Some [OF i(1)]
  then show ?thesis using i assms(2)
    by (auto simp: map_get_def position_put_at keys_are_text_put_at) (simp add: put_at_def)
qed

lemma as_map_Some: "as_map v = Some m \<longleftrightarrow> v = VMap m \<and> keys_are_text m"
  by (cases v) auto

lemma as_list_Some: "as_list v = Some xs \<longleftrightarrow> v = VList xs"
  by (cases v) auto

lemma step_mut_get:
  assumes "step_mut v seg f = Some v'"
  shows "\<exists>x y. step_into v seg = Some x \<and> f x = Some y \<and> step_into v' seg = Some y"
proof -
  have m: "\<exists>x y. Option.bind (as_map v) (\<lambda>m. map_get m k) = Some x \<and> f x = Some y \<and>
      (\<exists>es. v' = VMap es \<and> keys_are_text es \<and> map_get es k = Some y)"
    if "Option.bind (as_map v) (\<lambda>m. map_put m k f) = Some v'" for k
    using that map_put_get [of _ k f v'] by (auto simp: bind_eq_Some_conv as_map_Some)
  show ?thesis
  proof (cases seg)
    case (Index i)
    show ?thesis
    proof (cases "as_list v")
      case None
      then show ?thesis using assms Index m [of "show_nat i"] by (auto simp: step_mut_def step_into_def)
    next
      case (Some xs)
      then show ?thesis using assms Index by (auto simp: step_mut_def step_into_def split: if_splits)
    qed
  next
    case (Field s)
    then show ?thesis using assms m [of s] by (auto simp: step_mut_def step_into_def)
  next
    case (Key s)
    then show ?thesis using assms m [of s] by (auto simp: step_mut_def step_into_def)
  qed
qed

lemma walk_put_get: "walk_put v p w = Some v' \<Longrightarrow> walk_get v' p = Some w"
proof (induction p arbitrary: v v')
  case (Cons seg p)
  then obtain x y where "walk_put x p w = Some y" "step_into v' seg = Some y"
    using step_mut_get [of v seg "\<lambda>x. walk_put x p w" v'] by auto
  then show ?case using Cons.IH by simp
qed simp

lemma step_mut_defined: "step_into v seg = Some x \<Longrightarrow> f x = Some y \<Longrightarrow> step_mut v seg f \<noteq> None"
  by (cases seg; cases "as_map v"; cases "as_list v")
     (auto simp: step_into_def step_mut_def map_put_def map_get_def split: option.splits if_splits)

lemma walk_put_defined: "walk_get v p \<noteq> None \<longleftrightarrow> walk_put v p w \<noteq> None"
proof (induction p arbitrary: v)
  case (Cons seg p)
  show ?case
  proof
    assume "walk_get v (seg # p) \<noteq> None"
    then obtain x where "step_into v seg = Some x" "walk_get x p \<noteq> None" by (auto simp: bind_eq_Some_conv)
    then show "walk_put v (seg # p) w \<noteq> None" using Cons.IH [of x] step_mut_defined by fastforce
  next
    assume "walk_put v (seg # p) w \<noteq> None"
    then obtain v' where "step_mut v seg (\<lambda>x. walk_put x p w) = Some v'" by auto
    from step_mut_get [OF this] show "walk_get v (seg # p) \<noteq> None" using Cons.IH by auto
  qed
qed simp

section \<open>Properties\<close>

text \<open>C34: a path of well-formed segments parses back from its spelling to the same segments,
  and every segment the iterator yields, on any text, is one that spells back.\<close>

theorem intake_path_round_trip:
  "list_all seg_ok p \<Longrightarrow> p \<noteq> [] \<Longrightarrow>
   path_parse (spell p) = Inr (spell p) \<and> segments (spell p) = p"
  by (rule spell_parses)

theorem intake_path_round_trip_witness:
  "segments (spell [Field ''a'', Index 1, Key ''x.y'']) = [Field ''a'', Index 1, Key ''x.y'']"
proof -
  have "list_all seg_ok [Field ''a'', Index 1, Key ''x.y'']"
    by (simp add: is_bare_name_def name_ends_def)
  from intake_path_round_trip [OF this] show ?thesis by blast
qed

text \<open>A path the merge prints is a path the intake reads, with the same segment texts: an
  all-digit segment as a position (or a key when it is not one), a segment with a separator
  as a quoted key, any other as a field.\<close>

theorem intake_reads_merge_paths:
  "p \<noteq> [] \<Longrightarrow>
   path_parse (render p) = Inr (render p) \<and> map seg_text (segments (render p)) = p"
  using intake_reads_render [of p] by (simp add: comp_def del: merge_segment.simps)

theorem intake_reads_merge_paths_witness:
  "map seg_text (segments (render [''a'', ''007'', ''b.c''])) = [''a'', ''007'', ''b.c'']"
  using intake_reads_merge_paths [of "[''a'', ''007'', ''b.c'']"] by blast

text \<open>On an accepted path the three readers agree: the iterator reads it to its end,
  \<open>spelled\<close> gives the same segments with strictly increasing end offsets, the last of them
  the length of the text, and \<open>split_last\<close> cuts where the last segment starts.\<close>

theorem accepted_paths_read_alike:
  "path_parse s = Inr s \<Longrightarrow>
   \<exists>ends. length ends = length (segments s) \<and> segments s \<noteq> [] \<and>
     spelled s False = Some (zip (segments s) ends) \<and>
     sorted_wrt (<) (0 # ends) \<and> last ends = length s \<and>
     split_last s = (let start = last (butlast (0 # ends)) in
       if start > 0 then Some (take start s, last (segments s)) else None)"
proof -
  assume p: "path_parse s = Inr s"
  then have ok: "path_loop s 0 = Inr ()" "s \<noteq> []" "hd s \<noteq> CHR ''.''" by (simp_all add: path_parse_Inr)
  have ne: "segments s \<noteq> []" using p by (rule segments_nonempty)
  obtain ends where e: "length ends = length (segments s)"
    "spelled_loop s 0 False [] = Some (zip (segments s) ends)" "sorted_wrt (<) (0 # ends)"
    "last (0 # ends) = length s"
    "split_last_loop s 0 None = Some (Some (last (butlast (0 # ends)), last (segments s)))"
    using readers_agree [OF ok(1), of "[]" None] ok(2) by (auto simp: segments_def)
  have "ends \<noteq> []" using e(1) ne by auto
  then have "zip (segments s) ends \<noteq> []" using ne by (cases ends; cases "segments s") auto
  then have sp: "spelled s False = Some (zip (segments s) ends)" using e(2) ok by (simp add: spelled_def)
  have "split_last s = (let start = last (butlast (0 # ends)) in
       if start > 0 then Some (take start s, last (segments s)) else None)"
    using p e(5) by (simp add: split_last_def Let_def)
  then show ?thesis using e(1,3,4) ne sp \<open>ends \<noteq> []\<close> by (intro exI [of _ ends]) simp
qed

theorem accepted_paths_read_alike_witness:
  "\<exists>ends. spelled ''a[k]'' False = Some (zip (segments ''a[k]'') ends) \<and> last ends = 4"
proof -
  have "path_parse ''a[k]'' = Inr ''a[k]''" by code_simp
  from accepted_paths_read_alike [OF this] obtain ends where
    "spelled ''a[k]'' False = Some (zip (segments ''a[k]'') ends)" "last ends = length ''a[k]''" by blast
  then show ?thesis by (intro exI [of _ ends]) simp
qed

text \<open>The offset of a path error lies in the text.\<close>

theorem path_error_points_into_the_text: "path_parse s = Inl e \<Longrightarrow> path_offset e \<le> length s"
  by (rule path_parse_Inl)

theorem path_error_points_into_the_text_witness: "path_offset (UnclosedIndex 1) \<le> length ''a[''"
proof -
  have "path_parse ''a['' = Inl (UnclosedIndex 1)" by code_simp
  from path_error_points_into_the_text [OF this] show ?thesis by simp
qed

text \<open>What is written through the reference \<open>get_mut\<close> answers is what \<open>get\<close> then
  reads at that path, and \<open>get_mut\<close> answers one exactly where \<open>get\<close> does.\<close>

theorem write_through_a_path_reads_back:
  "(\<forall>v'. walk_put v p w = Some v' \<longrightarrow> walk_get v' p = Some w) \<and>
   (walk_get v p \<noteq> None \<longleftrightarrow> walk_put v p w \<noteq> None)"
  using walk_put_get walk_put_defined by blast

theorem write_through_a_path_reads_back_witness:
  "walk_get (VList [VMap [(''k'', VBool True)]]) [Index 0, Key ''k''] = Some (VBool True)"
proof -
  have "walk_put (VList [VMap [(''k'', VNull)]]) [Index 0, Key ''k''] (VBool True) =
      Some (VList [VMap [(''k'', VBool True)]])" by code_simp
  then show ?thesis
    using write_through_a_path_reads_back [of "VList [VMap [(''k'', VNull)]]" "[Index 0, Key ''k'']" "VBool True"]
    by blast
qed

end
