(* ===== verification/Provenance.thy ===== *)
theory Provenance
  imports Merge_Laws "HOL-Library.List_Lexorder" "HOL-Library.Char_ord"
begin

text \<open>
  Which layer each leaf of a merged value came from (\<open>value/merge/mod.rs\<close>): the leaf map,
  kept in the order of its paths as a \<open>BTreeMap\<close> keeps it, the scans that rely on that
  order, and the walk that records a layer's claims. Text compares by its bytes.
\<close>

datatype Source = Layer str | Mixed | Absent

type_synonym leaves = "(str list \<times> str) list"

text \<open>\<open>BTreeMap::insert\<close>, \<open>range(path..)\<close> and \<open>take_while(starts_with)\<close>.\<close>

fun tree_insert :: "str list \<Rightarrow> str \<Rightarrow> leaves \<Rightarrow> leaves" where
  "tree_insert k v [] = [(k, v)]"
| "tree_insert k v (e # es) =
     (if k < fst e then (k, v) # e # es
      else if k = fst e then (k, v) # es
      else e # tree_insert k v es)"

definition range_from :: "str list \<Rightarrow> leaves \<Rightarrow> leaves" where
  "range_from path es = dropWhile (\<lambda>e. fst e < path) es"

fun starts_with :: "str list \<Rightarrow> str list \<Rightarrow> bool" where
  "starts_with k [] = True"
| "starts_with [] (p # ps) = False"
| "starts_with (x # k) (p # ps) = (x = p \<and> starts_with k ps)"

definition beneath :: "str list \<Rightarrow> leaves \<Rightarrow> leaves" where
  "beneath path es = takeWhile (\<lambda>e. starts_with (fst e) path) (range_from path es)"

fun agree_on :: "str option \<Rightarrow> leaves \<Rightarrow> Source" where
  "agree_on found [] = (case found of Some layer \<Rightarrow> Layer layer | None \<Rightarrow> Absent)"
| "agree_on found (e # es) =
     (case found of
        None \<Rightarrow> agree_on (Some (snd e)) es
      | Some seen \<Rightarrow> if seen = snd e then agree_on found es else Mixed)"

definition source_of :: "leaves \<Rightarrow> str list \<Rightarrow> Source" where
  "source_of es path =
     (case map_of es path of
        Some layer \<Rightarrow> Layer layer
      | None \<Rightarrow> agree_on None (beneath path es))"

definition forget_subtree :: "leaves \<Rightarrow> str list \<Rightarrow> leaves" where
  "forget_subtree es path =
     fold (\<lambda>k m. filter (\<lambda>e. fst e \<noteq> k) m) (map fst (beneath path es)) es"

section \<open>Claims\<close>

function claim :: "leaves \<Rightarrow> str list \<Rightarrow> Value \<Rightarrow> str \<Rightarrow> nat \<Rightarrow> leaves" where
  "claim es path v layer depth =
     (if depth \<ge> MAX_DEPTH then tree_insert path layer es
      else case kind v of
        Some GUATIAO_ABSENT \<Rightarrow> es
      | Some GUATIAO_MAP \<Rightarrow>
          (if entries_of v = [] then tree_insert path layer es
           else fold (\<lambda>e m. claim m (path @ [fst e]) (snd e) layer (depth + 1)) (entries_of v) es)
      | Some GUATIAO_LIST \<Rightarrow>
          (if items_of v = [] then tree_insert path layer es
           else fold (\<lambda>(i, x) m. claim m (path @ [show_nat i]) x layer (depth + 1))
                  (enumerate 0 (items_of v)) es)
      | _ \<Rightarrow> tree_insert path layer es)"
  by pat_completeness auto
termination
  by (relation "measure (\<lambda>(es, p, v, l, d). weight v)")
     (auto dest: entries_of_weight enumerate_items_weight)

declare claim.simps [simp del]

definition replace :: "leaves \<Rightarrow> str list \<Rightarrow> Value \<Rightarrow> str \<Rightarrow> nat \<Rightarrow> leaves" where
  "replace es path later label depth = claim (forget_subtree es path) path later label depth"

function record_simple :: "Value \<Rightarrow> Value \<Rightarrow> str list \<Rightarrow> str \<Rightarrow> leaves \<Rightarrow> nat \<Rightarrow> leaves" where
  "record_simple earlier later path label es depth =
     (if depth \<ge> MAX_DEPTH \<or> kind later = Some GUATIAO_ABSENT then es
      else if is_map earlier \<and> is_map later then
        fold (\<lambda>e m. replace m (path @ [fst e]) (snd e) label (depth + 1))
          (filter (\<lambda>e. kind (snd e) \<noteq> Some GUATIAO_ABSENT) (entries_of later)) es
      else if is_list earlier \<and> is_list later then
        fold (\<lambda>(i, item) m.
                if i < length (items_of earlier)
                then record_simple (items_of earlier ! i) item (path @ [show_nat i]) label m (depth + 1)
                else replace m (path @ [show_nat i]) item label (depth + 1))
          (enumerate 0 (items_of later)) es
      else replace es path later label depth)"
  by pat_completeness auto
termination
  by (relation "measure (\<lambda>(e, l, p, la, es, d). weight l)")
     (auto dest: entries_of_weight enumerate_items_weight)

declare record_simple.simps [simp del]

function record_claims ::
  "Value \<Rightarrow> Value \<Rightarrow> str list \<Rightarrow> context_of \<Rightarrow> str \<Rightarrow> leaves \<Rightarrow> nat \<Rightarrow> leaves" where
  "record_claims earlier later path ctx label es depth =
     (if depth \<ge> MAX_DEPTH then es
      else if kind later = Some GUATIAO_ABSENT then es
      else
        let m = mode_at ctx path in
        if m = Simple then record_simple earlier later path label es depth
        else if (m = Substitute \<or> m = Deep) \<and> is_map earlier \<and> is_map later then
          fold (\<lambda>e acc.
                  case lookup_get (draws ctx earlier later 3) (entries_of earlier) (fst e) of
                    Some earlier_child \<Rightarrow>
                      record_claims earlier_child (snd e) (path @ [fst e]) ctx label acc (depth + 1)
                  | None \<Rightarrow> replace acc (path @ [fst e]) (snd e) label (depth + 1))
            (entries_of later) es
        else if m = Deep \<and> is_list earlier \<and> is_list later then
          (if items_of earlier = [] then replace es path later label depth else es)
        else replace es path later label depth)"
  by pat_completeness auto
termination
  by (relation "measure (\<lambda>(e, l, p, c, la, es, d). weight l)")
     (auto dest: entries_of_weight)

declare record_claims.simps [simp del]

text \<open>\<open>merge_layers_with\<close>: the layers folded left to right.\<close>

fun merge_layers ::
  "context_of \<Rightarrow> (str \<times> Value) list \<Rightarrow> Value option \<Rightarrow> leaves \<Rightarrow> (Value \<times> leaves) merged" where
  "merge_layers ctx [] accumulated es =
     Inr (case accumulated of Some v \<Rightarrow> v | None \<Rightarrow> VMap [], es)"
| "merge_layers ctx ((label, layer) # rest) accumulated es =
     (case accumulated of
        None \<Rightarrow>
          (let es' = claim es [] layer label 0 in
           and_then (clone_into layer) (\<lambda>v. merge_layers ctx rest (Some v) es'))
      | Some previous \<Rightarrow>
          (let es' = record_claims previous layer [] ctx label es 0 in
           and_then (merge_value ctx [] 0 previous layer)
             (\<lambda>v. merge_layers ctx rest (Some v) es')))"

definition merge_layers_with ::
  "context_of \<Rightarrow> (str \<times> Value) list \<Rightarrow> (Value \<times> leaves) merged" where
  "merge_layers_with ctx layers = merge_layers ctx layers None []"

section \<open>The scans find exactly what is beneath a path\<close>

lemma starts_with_iff: "starts_with k p \<longleftrightarrow> (\<exists>s. k = p @ s)"
  by (induction k p rule: starts_with.induct) auto

lemma prefix_le: "p \<le> p @ (s :: str list)"
proof (induction p)
  case Nil
  show ?case by (cases s) simp_all
qed simp

lemma starts_with_le: "starts_with k p \<Longrightarrow> p \<le> k"
  using prefix_le by (auto simp: starts_with_iff)

lemma starts_with_between: "p \<le> j \<Longrightarrow> j \<le> k \<Longrightarrow> starts_with k p \<Longrightarrow> starts_with j p"
proof (induction k p arbitrary: j rule: starts_with.induct)
  case (3 x k p ps)
  then show ?case by (cases j) (auto simp: Cons_le_Cons)
qed auto

definition leaves_sorted :: "leaves \<Rightarrow> bool" where
  "leaves_sorted es \<longleftrightarrow> sorted_wrt (<) (map fst es)"

lemma leaves_sorted_simps [simp]: "leaves_sorted []"
  "leaves_sorted (e # es) \<longleftrightarrow> (\<forall>x\<in>set es. fst e < fst x) \<and> leaves_sorted es"
  by (auto simp: leaves_sorted_def)

lemma takeWhile_beneath:
  "leaves_sorted es \<Longrightarrow> (\<forall>e\<in>set es. path \<le> fst e) \<Longrightarrow>
   takeWhile (\<lambda>e. starts_with (fst e) path) es = filter (\<lambda>e. starts_with (fst e) path) es"
proof (induction es)
  case (Cons e es)
  show ?case
  proof (cases "starts_with (fst e) path")
    case True
    then show ?thesis using Cons by simp
  next
    case False
    then have "\<not> starts_with (fst x) path" if "x \<in> set es" for x
      using starts_with_between [of path "fst e" "fst x"] Cons.prems that by (auto intro: less_imp_le)
    then show ?thesis using False by (simp add: filter_empty_conv)
  qed
qed simp

lemma beneath_eq:
  "leaves_sorted es \<Longrightarrow> beneath path es = filter (\<lambda>e. starts_with (fst e) path) es"
proof (induction es)
  case (Cons e es)
  show ?case
  proof (cases "fst e < path")
    case True
    then have "\<not> starts_with (fst e) path" using starts_with_le leD by blast
    then show ?thesis using Cons True by (simp add: beneath_def range_from_def)
  next
    case False
    then have "\<forall>x\<in>set (e # es). path \<le> fst x" using Cons.prems by fastforce
    then show ?thesis using False takeWhile_beneath [OF Cons.prems]
      by (simp add: beneath_def range_from_def)
  qed
qed (simp add: beneath_def range_from_def)

lemma fold_filter_keys:
  "fold (\<lambda>k m. filter (\<lambda>e. fst e \<noteq> k) m) ks m = filter (\<lambda>e. fst e \<notin> set ks) m"
  by (induction ks arbitrary: m) (auto simp: filter_filter conj_commute)

lemma forget_subtree_eq:
  assumes "leaves_sorted es"
  shows "forget_subtree es path = filter (\<lambda>e. \<not> starts_with (fst e) path) es"
  by (auto simp: forget_subtree_def beneath_eq [OF assms] fold_filter_keys intro!: filter_cong)

lemma leaves_sorted_filter: "leaves_sorted es \<Longrightarrow> leaves_sorted (filter P es)"
  by (induction es) auto

lemma set_tree_insert: "set (tree_insert k v es) \<subseteq> insert (k, v) (set es)"
  by (induction es) auto

lemma leaves_sorted_insert: "leaves_sorted es \<Longrightarrow> leaves_sorted (tree_insert k v es)"
proof (induction es)
  case (Cons e es)
  then show ?case using set_tree_insert [of k v es] by fastforce
qed simp

lemma map_of_tree_insert: "leaves_sorted es \<Longrightarrow> map_of (tree_insert k v es) = (map_of es)(k \<mapsto> v)"
proof (induction es)
  case (Cons e es)
  obtain a b where e: "e = (a, b)" by (cases e)
  show ?case using Cons e by (auto simp: fun_eq_iff)
qed simp

lemma agree_on_Some:
  "agree_on (Some layer) es = (if \<forall>e\<in>set es. snd e = layer then Layer layer else Mixed)"
  by (induction es) (simp_all, metis+)

lemma agree_on_iff:
  "agree_on None es = Absent \<longleftrightarrow> es = []"
  "agree_on None es = Layer l \<longleftrightarrow> es \<noteq> [] \<and> (\<forall>e\<in>set es. snd e = l)"
proof -
  show "agree_on None es = Absent \<longleftrightarrow> es = []"
    "agree_on None es = Layer l \<longleftrightarrow> es \<noteq> [] \<and> (\<forall>e\<in>set es. snd e = l)"
    by (cases es; auto simp: agree_on_Some)+
qed

lemma source_of_iff:
  assumes "leaves_sorted es" "map_of es path = None"
  shows "source_of es path = Absent \<longleftrightarrow> (\<forall>e\<in>set es. \<not> starts_with (fst e) path)"
    "source_of es path = Layer l \<longleftrightarrow>
       (\<exists>e\<in>set es. starts_with (fst e) path) \<and> (\<forall>e\<in>set es. starts_with (fst e) path \<longrightarrow> snd e = l)"
proof -
  have s: "source_of es path = agree_on None (filter (\<lambda>e. starts_with (fst e) path) es)"
    using assms by (simp add: source_of_def beneath_eq)
  show "source_of es path = Absent \<longleftrightarrow> (\<forall>e\<in>set es. \<not> starts_with (fst e) path)"
    "source_of es path = Layer l \<longleftrightarrow>
       (\<exists>e\<in>set es. starts_with (fst e) path) \<and> (\<forall>e\<in>set es. starts_with (fst e) path \<longrightarrow> snd e = l)"
    unfolding s agree_on_iff filter_empty_conv set_filter by blast+
qed

section \<open>What a claim records\<close>

text \<open>The leaf paths of a tree: an empty container is a leaf, an absent node has none.\<close>

function leaf_paths :: "Value \<Rightarrow> str list list" where
  "leaf_paths (VList xs) =
     (if xs = [] then [[]]
      else concat (map (\<lambda>(i, ps). map ((#) (show_nat i)) ps) (enumerate 0 (map leaf_paths xs))))"
| "leaf_paths (VMap es) =
     (if es = [] then [[]] else concat (map (\<lambda>e. map ((#) (fst e)) (leaf_paths (snd e))) es))"
| "leaf_paths VAbsent = []"
| "leaf_paths VNull = [[]]" | "leaf_paths (VBool b) = [[]]" | "leaf_paths (VNumber t) = [[]]"
| "leaf_paths (VString t) = [[]]" | "leaf_paths (VBytes bs) = [[]]" | "leaf_paths (VUnknown k) = [[]]"
  by pat_completeness auto
termination
  by (relation "measure size") (auto dest: size_list_member size_entry_member)

definition claimed :: "leaves \<Rightarrow> str list \<Rightarrow> Value \<Rightarrow> str \<Rightarrow> leaves \<Rightarrow> bool" where
  "claimed es path v layer es' \<longleftrightarrow> leaves_sorted es' \<and>
     (\<forall>k. map_of es' k = (if \<exists>p\<in>set (leaf_paths v). k = path @ p then Some layer else map_of es k))"

lemma claimed_leaf:
  "leaves_sorted es \<Longrightarrow> leaf_paths v = [[]] \<Longrightarrow> claimed es path v layer (tree_insert path layer es)"
  by (simp add: claimed_def leaves_sorted_insert map_of_tree_insert)

lemma claimed_none: "leaves_sorted es \<Longrightarrow> leaf_paths v = [] \<Longrightarrow> claimed es path v layer es"
  by (simp add: claimed_def)

lemma claim_fold:
  assumes "\<And>q x m. (q, x) \<in> set l \<Longrightarrow> leaves_sorted m \<Longrightarrow> claimed m (path @ [q]) x layer (f m q x)"
    and "leaves_sorted es"
  shows "leaves_sorted (fold (\<lambda>(q, x) m. f m q x) l es) \<and>
    (\<forall>k. map_of (fold (\<lambda>(q, x) m. f m q x) l es) k =
       (if \<exists>(q, x)\<in>set l. \<exists>p\<in>set (leaf_paths x). k = path @ q # p then Some layer else map_of es k))"
  using assms
proof (induction l arbitrary: es)
  case (Cons c l)
  obtain q x where c: "c = (q, x)" by (cases c)
  have cl: "claimed es (path @ [q]) x layer (f es q x)" using Cons.prems c by simp
  then have s: "leaves_sorted (f es q x)" by (simp add: claimed_def)
  have m: "map_of (f es q x) k =
      (if \<exists>p\<in>set (leaf_paths x). k = path @ q # p then Some layer else map_of es k)" for k
    using cl by (simp add: claimed_def)
  have ih: "leaves_sorted (fold (\<lambda>(q, x) m. f m q x) l (f es q x)) \<and>
    (\<forall>k. map_of (fold (\<lambda>(q, x) m. f m q x) l (f es q x)) k =
       (if \<exists>(q, x)\<in>set l. \<exists>p\<in>set (leaf_paths x). k = path @ q # p then Some layer
        else map_of (f es q x) k))"
    using Cons.prems(1) s by (intro Cons.IH) simp_all
  show ?case unfolding c fold_simps prod.case comp_apply using ih by (simp add: m)
qed simp

lemma claim_children:
  assumes "\<And>q x m. (q, x) \<in> set l \<Longrightarrow> leaves_sorted m \<Longrightarrow> claimed m (path @ [q]) x layer (f m q x)"
    and "leaves_sorted es"
    and "\<And>p. p \<in> set (leaf_paths v) \<longleftrightarrow> (\<exists>(q, x)\<in>set l. \<exists>r\<in>set (leaf_paths x). p = q # r)"
  shows "claimed es path v layer (fold (\<lambda>(q, x) m. f m q x) l es)"
proof -
  have "leaves_sorted (fold (\<lambda>(q, x) m. f m q x) l es) \<and>
    (\<forall>k. map_of (fold (\<lambda>(q, x) m. f m q x) l es) k =
       (if \<exists>(q, x)\<in>set l. \<exists>p\<in>set (leaf_paths x). k = path @ q # p then Some layer else map_of es k))"
    using assms(1,2) by (rule claim_fold)
  moreover have "(\<exists>(q, x)\<in>set l. \<exists>p\<in>set (leaf_paths x). k = path @ q # p) \<longleftrightarrow>
      (\<exists>p\<in>set (leaf_paths v). k = path @ p)" for k
    unfolding Bex_def assms(3) by (auto simp: split_def)
  ultimately show ?thesis unfolding claimed_def by simp
qed

lemma set_leaf_paths_list:
  assumes "xs \<noteq> []"
  shows "p \<in> set (leaf_paths (VList xs)) \<longleftrightarrow>
    (\<exists>(q, x)\<in>set (map (\<lambda>(i, x). (show_nat i, x)) (enumerate 0 xs)). \<exists>r\<in>set (leaf_paths x). p = q # r)"
proof -
  have "enumerate 0 (map leaf_paths xs) = map (\<lambda>e. (fst e, leaf_paths (snd e))) (enumerate 0 xs)"
    by (simp add: enumerate_eq_zip zip_map2 split_def)
  then have "leaf_paths (VList xs) =
      concat (map (\<lambda>e. map ((#) (show_nat (fst e))) (leaf_paths (snd e))) (enumerate 0 xs))"
    using assms by (simp add: comp_def split_def)
  then show ?thesis by (auto simp: split_def)
qed

lemma set_leaf_paths_map:
  assumes "es \<noteq> []"
  shows "p \<in> set (leaf_paths (VMap es)) \<longleftrightarrow> (\<exists>(q, x)\<in>set es. \<exists>r\<in>set (leaf_paths x). p = q # r)"
proof -
  have "leaf_paths (VMap es) = concat (map (\<lambda>e. map ((#) (fst e)) (leaf_paths (snd e))) es)"
    using assms by simp
  then show ?thesis by (auto simp: split_def)
qed

lemma claim_claims:
  "tree_ok v \<Longrightarrow> depth + height v < MAX_DEPTH \<Longrightarrow> leaves_sorted es \<Longrightarrow>
   claimed es path v layer (claim es path v layer depth)"
proof (induction v arbitrary: es path depth rule: value_induct)
  case (List xs)
  show ?case
  proof (cases "xs = []")
    case True
    then show ?thesis using List.prems by (simp add: claim.simps claimed_leaf)
  next
    case False
    let ?l = "map (\<lambda>(i, x). (show_nat i, x)) (enumerate 0 xs)"
    have "claimed m (path @ [q]) x layer (claim m (path @ [q]) x layer (depth + 1))"
      if "(q, x) \<in> set ?l" "leaves_sorted m" for q x m
    proof -
      have "x \<in> set xs" using that(1) by (auto simp: enumerate_eq_zip dest: set_zip_rightD)
      then show ?thesis using List.IH [of x] List.prems height_child(1) [of x xs] that(2)
        by (auto simp: list_all_iff)
    qed
    note c = claim_children [OF this List.prems(3) set_leaf_paths_list [OF False]]
    have f: "fold (\<lambda>(q, x) m. claim m (path @ [q]) x layer (depth + 1)) ?l es =
        fold (\<lambda>(i, x) m. claim m (path @ [show_nat i]) x layer (depth + 1)) (enumerate 0 xs) es"
      by (simp add: fold_map comp_def split_def)
    have e: "claim es path (VList xs) layer depth =
        fold (\<lambda>(i, x) m. claim m (path @ [show_nat i]) x layer (depth + 1)) (enumerate 0 xs) es"
      using False List.prems by (simp add: claim.simps)
    show ?thesis using c unfolding f e .
  qed
next
  case (Map m)
  show ?case
  proof (cases "m = []")
    case True
    then show ?thesis using Map.prems by (simp add: claim.simps claimed_leaf entries_of_def)
  next
    case False
    have "claimed a (path @ [q]) x layer (claim a (path @ [q]) x layer (depth + 1))"
      if "(q, x) \<in> set m" "leaves_sorted a" for q x a
      using Map.IH [OF that(1)] Map.prems height_child(2) [OF that(1)] that
      by (auto simp: list_all_iff)
    note c = claim_children [OF this Map.prems(3) set_leaf_paths_map [OF False]]
    have f: "fold (\<lambda>(q, x) a. claim a (path @ [q]) x layer (depth + 1)) m es =
        fold (\<lambda>e a. claim a (path @ [fst e]) (snd e) layer (depth + 1)) m es"
      by (simp add: split_def)
    have e: "claim es path (VMap m) layer depth =
        fold (\<lambda>e a. claim a (path @ [fst e]) (snd e) layer (depth + 1)) m es"
      using False Map.prems by (simp add: claim.simps)
    show ?thesis using c unfolding f e .
  qed
qed (simp_all add: claim.simps claimed_leaf claimed_none)

section \<open>Properties\<close>

text \<open>C35: the range scan of \<open>source_of\<close> sees every leaf beneath the path and no other, so a
  path that is no leaf is absent when nothing is recorded beneath it, one layer when every
  leaf beneath it is that layer's, and mixed otherwise.\<close>

theorem source_of_an_interior_node:
  "leaves_sorted es \<Longrightarrow> map_of es path = None \<Longrightarrow>
   (source_of es path = Absent \<longleftrightarrow> (\<forall>e\<in>set es. \<not> starts_with (fst e) path)) \<and>
   (source_of es path = Layer l \<longleftrightarrow>
      (\<exists>e\<in>set es. starts_with (fst e) path) \<and> (\<forall>e\<in>set es. starts_with (fst e) path \<longrightarrow> snd e = l))"
  using source_of_iff by simp

theorem source_of_an_interior_node_witness:
  "source_of [([''a'', ''b''], ''x'')] [''a''] = Layer ''x''"
proof -
  have "leaves_sorted [([''a'', ''b''], ''x'')]" "map_of [([''a'', ''b''], ''x'')] [''a''] = None" by simp_all
  from source_of_an_interior_node [OF this, of "''x''"] show ?thesis by simp
qed

text \<open>A replaced path is forgotten with everything beneath it, and exactly the leaves of
  the value that took it are recorded for the layer; every other record stands.\<close>

theorem replace_forgets_and_claims:
  "leaves_sorted es \<Longrightarrow> tree_ok v \<Longrightarrow> depth + height v < MAX_DEPTH \<Longrightarrow>
   leaves_sorted (replace es path v layer depth) \<and>
   (\<forall>k. map_of (replace es path v layer depth) k =
      (if \<exists>p\<in>set (leaf_paths v). k = path @ p then Some layer
       else if starts_with k path then None else map_of es k))"
proof -
  assume s: "leaves_sorted es" and v: "tree_ok v" "depth + height v < MAX_DEPTH"
  have "map_of (filter (\<lambda>e. \<not> starts_with (fst e) path) es) k =
      (if starts_with k path then None else map_of es k)" for k
    by (induction es) auto
  then show ?thesis
    using claim_claims [OF v leaves_sorted_filter [OF s], of "\<lambda>e. \<not> starts_with (fst e) path" path layer]
    unfolding replace_def forget_subtree_eq [OF s] claimed_def by simp
qed

theorem replace_forgets_and_claims_witness:
  "map_of (replace [([''a'', ''b''], ''x'')] [''a''] VNull ''y'' 0) [''a'', ''b''] = None"
proof -
  have "leaves_sorted [([''a'', ''b''], ''x'')]" "tree_ok VNull" "0 + height VNull < MAX_DEPTH"
    by (simp_all add: MAX_DEPTH_def)
  from replace_forgets_and_claims [OF this, of "[''a'']" "''y''"] show ?thesis by simp
qed

text \<open>an empty map a later layer fills keeps its record as a leaf, so the layer that
  brought nothing is named as the source of a node whose every leaf is the later layer's.\<close>

theorem filled_empty_map_keeps_its_old_source:
  "map_err (\<lambda>_. ()) (merge_layers_with (plain_context Substitute)
      [(''system'', VMap [(''tls'', VMap [])]), (''user'', VMap [(''tls'', VMap [(''verify'', VBool False)])])]) =
   Inr (VMap [(''tls'', VMap [(''verify'', VBool False)])],
        [([''tls''], ''system''), ([''tls'', ''verify''], ''user'')]) \<and>
   source_of [([''tls''], ''system''), ([''tls'', ''verify''], ''user'')] [''tls''] = Layer ''system''"
  by code_simp

text \<open>after a union of lists the items it appended have no recorded source, and the list
  itself is reported as the earlier layer's alone.\<close>

theorem appended_items_have_no_source:
  "map_err (\<lambda>_. ()) (merge_layers_with (plain_context Deep)
      [(''system'', VMap [(''t'', VList [VBool True])]), (''user'', VMap [(''t'', VList [VBool False])])]) =
   Inr (VMap [(''t'', VList [VBool True, VBool False])], [([''t'', ''0''], ''system'')]) \<and>
   source_of [([''t'', ''0''], ''system'')] [''t'', ''1''] = Absent \<and>
   source_of [([''t'', ''0''], ''system'')] [''t''] = Layer ''system''"
  by code_simp

text \<open>a map that absorbs a list of maps loses its own provenance: the record holds
  positions of the list that the merged map does not have.\<close>

theorem absorbed_list_is_recorded_by_position:
  "map_err (\<lambda>_. ()) (merge_layers_with (plain_context Substitute)
      [(''system'', VMap [(''a'', VBool True)]), (''user'', VList [VMap [(''b'', VNull)]])]) =
   Inr (VMap [(''a'', VBool True), (''b'', VNull)], [([''0'', ''b''], ''user'')]) \<and>
   source_of [([''0'', ''b''], ''user'')] [''a''] = Absent \<and>
   source_of [([''0'', ''b''], ''user'')] [''b''] = Absent"
  by code_simp

end
