(* ===== verification/Calendar.thy ===== *)
theory Calendar
  imports Values
begin

text \<open>
  Dates and times with no zone: \<open>src/crates/guatiao/src/value/time/\<close>. The civil calendar
  arithmetic (Hinnant's \<open>days_from_civil\<close> and \<open>civil_from_days\<close>), the types \<open>Date\<close>,
  \<open>Time\<close>, \<open>DateTime\<close> and \<open>Timestamp\<close> with their constructors, their text forms and the
  cursor that reads them. Every machine integer of these files stays far inside its width, so
  the model counts in \<open>int\<close>: the divisions of the code are all of non-negative numbers or
  written \<open>div_euclid\<close> with a positive divisor, which is what \<open>div\<close> and \<open>mod\<close> are on
  \<open>int\<close>. The bounds are proved, not assumed (\<open>date_ok\<close>, \<open>time_ok\<close>).
\<close>

section \<open>The civil calendar\<close>

definition DAY :: int where "DAY = 86400"
definition NANOS_PER_SECOND :: int where "NANOS_PER_SECOND = 1000000000"
definition DAY_NANOS :: int where "DAY_NANOS = DAY * NANOS_PER_SECOND"
definition FIRST_DAY :: int where "FIRST_DAY = - 719528"
definition LAST_DAY :: int where "LAST_DAY = 2932896"

definition YEARS :: "int \<Rightarrow> bool" where
  "YEARS y \<longleftrightarrow> 0 \<le> y \<and> y \<le> 9999"

definition days_from_civil :: "int \<Rightarrow> int \<Rightarrow> int \<Rightarrow> int" where
  "days_from_civil y0 m d =
     (let y = (if m \<le> 2 then y0 - 1 else y0);
          era = y div 400;
          yoe = y - era * 400;
          doy = (153 * (if m > 2 then m - 3 else m + 9) + 2) div 5 + d - 1;
          doe = yoe * 365 + yoe div 4 - yoe div 100 + doy
      in era * 146097 + doe - 719468)"

definition civil_from_days :: "int \<Rightarrow> int \<times> int \<times> int" where
  "civil_from_days days =
     (let z = days + 719468;
          era = z div 146097;
          doe = z - era * 146097;
          yoe = (doe - doe div 1460 + doe div 36524 - doe div 146096) div 365;
          doy = doe - (365 * yoe + yoe div 4 - yoe div 100);
          mp = (5 * doy + 2) div 153;
          d = doy - (153 * mp + 2) div 5 + 1;
          m = (if mp < 10 then mp + 3 else mp - 9);
          y = yoe + era * 400 + (if m \<le> 2 then 1 else 0)
      in (y, m, d))"

definition is_leap :: "int \<Rightarrow> bool" where
  "is_leap y \<longleftrightarrow> y mod 4 = 0 \<and> (y mod 100 \<noteq> 0 \<or> y mod 400 = 0)"

definition days_in_month :: "int \<Rightarrow> int \<Rightarrow> int" where
  "days_in_month y m =
     (if m = 2 then if is_leap y then 29 else 28
      else if m = 4 \<or> m = 6 \<or> m = 9 \<or> m = 11 then 30
      else 31)"

definition civil :: "int \<Rightarrow> int \<Rightarrow> int \<Rightarrow> bool" where
  "civil y m d \<longleftrightarrow> 1 \<le> m \<and> m \<le> 12 \<and> 1 \<le> d \<and> d \<le> days_in_month y m"

subsection \<open>A day of a 400-year era\<close>

text \<open>A year of an era that starts in March is \<open>100 * c + 4 * q + r\<close>: its century, the leap
  cycle of the century and the year of the cycle. \<open>era_day\<close> says when \<open>doy\<close> is a day of
  that year.\<close>

definition era_year :: "int \<Rightarrow> int \<Rightarrow> int \<Rightarrow> bool" where
  "era_year c q r \<longleftrightarrow> 0 \<le> c \<and> c \<le> 3 \<and> 0 \<le> q \<and> q \<le> 24 \<and> 0 \<le> r \<and> r \<le> 3"

definition era_day :: "int \<Rightarrow> int \<Rightarrow> int \<Rightarrow> int \<Rightarrow> bool" where
  "era_day c q r doy \<longleftrightarrow>
     era_year c q r \<and> 0 \<le> doy \<and> doy \<le> (if r = 3 \<and> (q < 24 \<or> c = 3) then 365 else 364)"

definition era_days :: "int \<Rightarrow> int \<Rightarrow> int \<Rightarrow> int \<Rightarrow> int" where
  "era_days c q r doy = 36524 * c + 1461 * q + 365 * r + doy"

lemma int_div_eqI:
  fixes k n x :: int
  assumes "k * n \<le> x" "x < k * n + n"
  shows "x div n = k"
  using int_div_pos_eq [of x n k "x - k * n"] assms by (simp add: algebra_simps)

lemma int_div_bounds:
  fixes n x :: int
  assumes "0 < n"
  shows "n * (x div n) \<le> x" "x < n * (x div n) + n"
  using assms pos_mod_sign [of n x] pos_mod_bound [of n x] minus_mod_eq_mult_div [of x n]
  by linarith+

lemma era_year_cases:
  fixes yoe :: int
  assumes "0 \<le> yoe" "yoe < 400"
  obtains c q r where "era_year c q r" "yoe = 100 * c + 4 * q + r"
proof -
  define c where "c = yoe div 100"
  define x where "x = yoe - 100 * c"
  define q where "q = x div 4"
  have c: "0 \<le> c" "c \<le> 3" "0 \<le> x" "x < 100"
    using assms int_div_bounds [of 100 yoe] unfolding c_def x_def by linarith+
  have "era_year c q (x - 4 * q)"
    using c int_div_bounds [of 4 x] unfolding era_year_def q_def by linarith
  moreover have "yoe = 100 * c + 4 * q + (x - 4 * q)" by (simp add: x_def)
  ultimately show thesis using that by blast
qed

lemma era_year_parts:
  assumes "era_year c q r"
  shows "(100 * c + 4 * q + r) div 4 = 25 * c + q" "(100 * c + 4 * q + r) div 100 = c"
  by (rule int_div_eqI; use assms in \<open>simp add: era_year_def\<close>)+

lemma era_doe:
  assumes "era_year c q r" "yoe = 100 * c + 4 * q + r"
  shows "yoe * 365 + yoe div 4 - yoe div 100 + doy = era_days c q r doy"
  using era_year_parts [OF assms(1)] by (simp add: assms(2) era_days_def)

lemma era_days_bounds:
  assumes "era_day c q r doy"
  shows "0 \<le> era_days c q r doy" "era_days c q r doy < 146097"
  using assms unfolding era_day_def era_year_def era_days_def by (auto split: if_splits)

text \<open>Every day of an era is one of a year, and the year formula of \<open>civil_from_days\<close> finds
  it.\<close>

lemma era_day_cases:
  fixes doe :: int
  assumes "0 \<le> doe" "doe < 146097"
  obtains c q r doy where "era_day c q r doy" "doe = era_days c q r doy"
proof -
  define c where "c = min 3 (doe div 36524)"
  define x where "x = doe - 36524 * c"
  define q where "q = x div 1461"
  define y where "y = x - 1461 * q"
  define r where "r = min 3 (y div 365)"
  have c: "0 \<le> c" "c \<le> 3" "0 \<le> x" "x \<le> 36524" "c < 3 \<Longrightarrow> x < 36524"
    using assms int_div_bounds [of 36524 doe] unfolding c_def x_def by linarith+
  have q: "0 \<le> q" "q \<le> 24" "0 \<le> y" "y \<le> 1460" "c < 3 \<Longrightarrow> q = 24 \<Longrightarrow> y < 1460"
    using c int_div_bounds [of 1461 x] unfolding q_def y_def by linarith+
  have r: "0 \<le> r" "r \<le> 3" "365 * r \<le> y" "r < 3 \<Longrightarrow> y < 365 * r + 365"
    using q int_div_bounds [of 365 y] unfolding r_def by linarith+
  have "y - 365 * r \<le> 364" if "\<not> (r = 3 \<and> (q < 24 \<or> c = 3))"
    using that c q r by (cases "r = 3") auto
  then have "era_day c q r (y - 365 * r)"
    using c q r unfolding era_day_def era_year_def by auto
  moreover have "doe = era_days c q r (y - 365 * r)"
    unfolding era_days_def y_def x_def by simp
  ultimately show thesis using that by blast
qed

lemma era_yoe:
  assumes ok: "era_day c q r doy" and doe: "doe = era_days c q r doy"
  shows "(doe - doe div 1460 + doe div 36524 - doe div 146096) div 365 = 100 * c + 4 * q + r"
proof -
  define e :: int where "e = (if 24 * c + q + 365 * r + doy < 1460 then 0 else 1)"
  have b: "0 \<le> c" "c \<le> 3" "0 \<le> q" "q \<le> 24" "0 \<le> r" "r \<le> 3" "0 \<le> doy" "doy \<le> 365"
    using ok by (auto simp: era_day_def era_year_def split: if_splits)
  have e1: "doe div 1460 = 25 * c + q + e"
    by (rule int_div_eqI) (use b doe in \<open>auto simp: era_days_def e_def\<close>)
  have f: "doe div 36524 - doe div 146096 = c"
  proof (cases "doe = 146096")
    case True
    then have "c = 3" using ok doe by (auto simp: era_day_def era_year_def era_days_def split: if_splits)
    with True show ?thesis by simp
  next
    case False
    have "doe div 36524 = c"
      by (rule int_div_eqI) (use ok doe False in \<open>auto simp: era_day_def era_year_def era_days_def split: if_splits\<close>)
    moreover have "doe div 146096 = 0"
      by (rule int_div_eqI)
        (use era_days_bounds [OF ok] doe False in auto)
    ultimately show ?thesis by simp
  qed
  have e2: "0 \<le> doy - e" "doy - e < 365"
    using ok by (auto simp: e_def era_day_def era_year_def split: if_splits)
  have "doe - doe div 1460 + doe div 36524 - doe div 146096
        = 365 * (100 * c + 4 * q + r) + (doy - e)"
    using e1 f by (simp add: doe era_days_def)
  then show ?thesis using e2 by (simp add: int_div_eqI)
qed

subsection \<open>A day of a year that starts in March\<close>

definition month_index :: "int \<Rightarrow> int" where
  "month_index m = (if m > 2 then m - 3 else m + 9)"

definition day_of_year :: "int \<Rightarrow> int \<Rightarrow> int" where
  "day_of_year m d = (153 * month_index m + 2) div 5 + d - 1"

lemma month_cases:
  fixes m :: int
  assumes "1 \<le> m" "m \<le> 12"
  shows "m = 1 \<or> m = 2 \<or> m = 3 \<or> m = 4 \<or> m = 5 \<or> m = 6 \<or> m = 7 \<or> m = 8 \<or> m = 9 \<or> m = 10 \<or>
         m = 11 \<or> m = 12"
  using assms by presburger

definition month_length :: "int \<Rightarrow> int" where
  "month_length m = (if m = 2 then 29 else if m = 4 \<or> m = 6 \<or> m = 9 \<or> m = 11 then 30 else 31)"

lemma day_of_year:
  assumes "1 \<le> m" "m \<le> 12" "1 \<le> d" "d \<le> month_length m"
  shows "0 \<le> day_of_year m d" "day_of_year m d \<le> 365"
    "(5 * day_of_year m d + 2) div 153 = month_index m"
    "day_of_year m d = 365 \<longleftrightarrow> m = 2 \<and> d = 29"
proof -
  have "0 \<le> day_of_year m d \<and> day_of_year m d \<le> 365 \<and>
    (day_of_year m d = 365 \<longleftrightarrow> m = 2 \<and> d = 29)"
    using month_cases [OF assms(1,2)] assms(3,4)
    by (elim disjE) (simp_all add: day_of_year_def month_index_def month_length_def)
  then show "0 \<le> day_of_year m d" "day_of_year m d \<le> 365"
    "day_of_year m d = 365 \<longleftrightarrow> m = 2 \<and> d = 29" by blast+
  show "(5 * day_of_year m d + 2) div 153 = month_index m"
    by (rule int_div_eqI; use month_cases [OF assms(1,2)] assms(3,4) in
      \<open>elim disjE; simp add: day_of_year_def month_index_def month_length_def\<close>)
qed

lemma month_of_day:
  assumes doy: "0 \<le> doy" "doy \<le> 365"
    and mp: "mp = (5 * doy + 2) div 153"
    and m: "m = (if mp < 10 then mp + 3 else mp - 9)"
    and d: "d = doy - (153 * mp + 2) div 5 + 1"
  shows "1 \<le> m" "m \<le> 12" "1 \<le> d" "d \<le> month_length m" "day_of_year m d = doy"
    "month_index m = mp"
proof -
  have b: "153 * mp \<le> 5 * doy + 2" "5 * doy + 2 < 153 * mp + 153"
    using int_div_bounds [of 153 "5 * doy + 2"] mp by simp_all
  then have "0 \<le> mp" "mp \<le> 11" using doy by linarith+
  then have "mp = 0 \<or> mp = 1 \<or> mp = 2 \<or> mp = 3 \<or> mp = 4 \<or> mp = 5 \<or> mp = 6 \<or> mp = 7 \<or> mp = 8 \<or>
    mp = 9 \<or> mp = 10 \<or> mp = 11" by presburger
  then have "1 \<le> m \<and> m \<le> 12 \<and> 1 \<le> d \<and> d \<le> month_length m \<and> day_of_year m d = doy \<and> month_index m = mp"
    using b doy
    by (elim disjE) (simp_all add: m d day_of_year_def month_index_def month_length_def)
  then show "1 \<le> m" "m \<le> 12" "1 \<le> d" "d \<le> month_length m" "day_of_year m d = doy"
    "month_index m = mp" by blast+
qed

subsection \<open>The two conversions are inverse\<close>

lemma leap_era:
  assumes "era_year c q r"
  shows "is_leap (400 * era + (100 * c + 4 * q + r) + 1) \<longleftrightarrow> r = 3 \<and> (q < 24 \<or> c = 3)"
proof -
  have r4: "(400 * era + (100 * c + 4 * q + r) + 1) mod 4 = (r + 1) mod 4"
    using mod_mult_self2 [of "r + 1" 4 "100 * era + 25 * c + q"] by (simp add: algebra_simps)
  have r100: "(400 * era + (100 * c + 4 * q + r) + 1) mod 100 = (4 * q + r + 1) mod 100"
    using mod_mult_self2 [of "4 * q + r + 1" 100 "4 * era + c"] by (simp add: algebra_simps)
  have r400: "(400 * era + (100 * c + 4 * q + r) + 1) mod 400 = (100 * c + 4 * q + r + 1) mod 400"
    using mod_mult_self2 [of "100 * c + 4 * q + r + 1" 400 era] by (simp add: algebra_simps)
  have b: "0 \<le> c" "c \<le> 3" "0 \<le> q" "q \<le> 24" "0 \<le> r" "r \<le> 3"
    using assms by (auto simp: era_year_def)
  have m4: "(r + 1) mod 4 = 0 \<longleftrightarrow> r = 3" using b by presburger
  show ?thesis
  proof (cases "r = 3")
    case True
    have "(4 * q + 4) mod 100 = 0 \<longleftrightarrow> q = 24"
      using b by presburger
    moreover have "c = 0 \<or> c = 1 \<or> c = 2 \<or> c = 3" using b by presburger
    then have "q = 24 \<Longrightarrow> (100 * c + 4 * q + 4) mod 400 = 0 \<longleftrightarrow> c = 3"
      by (elim disjE) simp_all
    ultimately show ?thesis
      using True b unfolding is_leap_def r4 r100 r400 m4 by (auto simp: add.assoc)
  qed (simp add: is_leap_def r4 m4)
qed

definition shifted_year :: "int \<Rightarrow> int \<Rightarrow> int" where
  "shifted_year y m = (if m \<le> 2 then y - 1 else y)"

lemma days_of_era:
  assumes e: "era_year c q r" and y: "shifted_year y m = 400 * era + (100 * c + 4 * q + r)"
  shows "days_from_civil y m d = 146097 * era + era_days c q r (day_of_year m d) - 719468"
proof -
  have era: "shifted_year y m div 400 = era"
    unfolding y by (rule int_div_eqI) (use e in \<open>auto simp: era_year_def\<close>)
  define yoe where "yoe = 100 * c + 4 * q + r"
  have yoe: "shifted_year y m - era * 400 = yoe" using y by (simp add: yoe_def)
  show ?thesis
    unfolding days_from_civil_def Let_def shifted_year_def [symmetric] era yoe
      month_index_def [symmetric]
    using era_doe [OF e yoe_def, of "day_of_year m d"] by (simp add: day_of_year_def)
qed

lemma era_of_civil:
  assumes "civil y m d"
  obtains era c q r where "era_day c q r (day_of_year m d)"
    "shifted_year y m = 400 * era + (100 * c + 4 * q + r)"
    "days_from_civil y m d = 146097 * era + era_days c q r (day_of_year m d) - 719468"
proof -
  define y' where "y' = shifted_year y m"
  define era where "era = y' div 400"
  have yoe: "0 \<le> y' - era * 400" "y' - era * 400 < 400"
    using int_div_bounds [of 400 y'] by (simp_all add: era_def)
  obtain c q r where e: "era_year c q r" and split: "y' - era * 400 = 100 * c + 4 * q + r"
    using era_year_cases [OF yoe] by blast
  have m: "1 \<le> m" "m \<le> 12" "1 \<le> d" "d \<le> month_length m"
    using assms by (auto simp: civil_def days_in_month_def month_length_def split: if_splits)
  have "day_of_year m d \<le> 364" if n: "\<not> (r = 3 \<and> (q < 24 \<or> c = 3))"
  proof -
    have "\<not> (m = 2 \<and> d = 29)"
    proof
      assume md: "m = 2 \<and> d = 29"
      then have "y = 400 * era + (100 * c + 4 * q + r) + 1"
        using split by (simp add: y'_def shifted_year_def)
      moreover have "is_leap y" using assms md by (simp add: civil_def days_in_month_def split: if_splits)
      ultimately show False using leap_era [OF e, of era] n by simp
    qed
    with day_of_year [OF m] show ?thesis by linarith
  qed
  then have "era_day c q r (day_of_year m d)"
    using e day_of_year [OF m] by (auto simp: era_day_def)
  moreover have "shifted_year y m = 400 * era + (100 * c + 4 * q + r)"
    using split by (simp add: y'_def)
  moreover have "days_from_civil y m d = 146097 * era + era_days c q r (day_of_year m d) - 719468"
    by (rule days_of_era [OF e]) (use split in \<open>simp add: y'_def\<close>)
  ultimately show thesis using that by blast
qed

lemma civil_of_era:
  assumes ok: "era_day c q r doy"
    and mp: "mp = (5 * doy + 2) div 153"
    and m: "m = (if mp < 10 then mp + 3 else mp - 9)"
    and d: "d = doy - (153 * mp + 2) div 5 + 1"
    and y: "y = 400 * era + (100 * c + 4 * q + r) + (if m \<le> 2 then 1 else 0)"
  shows "civil_from_days (146097 * era + era_days c q r doy - 719468) = (y, m, d)" (is ?A)
    and "civil y m d" (is ?B)
proof -
  define doe where "doe = era_days c q r doy"
  define yoe where "yoe = 100 * c + 4 * q + r"
  have e: "era_year c q r" using ok by (simp add: era_day_def)
  have z: "146097 * era + doe - 719468 + 719468 = 146097 * era + doe" by simp
  have era: "(146097 * era + doe) div 146097 = era"
    by (rule int_div_eqI) (use era_days_bounds [OF ok] in \<open>auto simp: doe_def\<close>)
  have day: "146097 * era + doe - era * 146097 = doe" by simp
  have year: "(doe - doe div 1460 + doe div 36524 - doe div 146096) div 365 = yoe"
    using era_yoe [OF ok refl] by (simp add: doe_def yoe_def)
  have doy': "doe - (365 * yoe + yoe div 4 - yoe div 100) = doy"
    using era_doe [OF e yoe_def, of doy] by (simp add: doe_def)
  show ?A
    unfolding doe_def [symmetric] civil_from_days_def Let_def z era day year doy'
    by (simp add: mp m d y yoe_def)
  have doy: "0 \<le> doy" "doy \<le> 365" using ok by (auto simp: era_day_def split: if_splits)
  note month = month_of_day [OF doy mp m d]
  have "is_leap y" if "m = 2" "d = 29"
  proof -
    have "doy = 365" using month that day_of_year(4) [OF month(1-4)] by simp
    then have "r = 3 \<and> (q < 24 \<or> c = 3)" using ok by (auto simp: era_day_def split: if_splits)
    with leap_era [OF e, of era] y that show ?thesis by simp
  qed
  then have "d \<le> 28" if "m = 2" "\<not> is_leap y"
    using that month(4) by (cases "d = 29") (simp_all add: month_length_def)
  with month show ?B
    by (auto simp: civil_def days_in_month_def month_length_def split: if_splits)
qed

lemma civil_from_days_inverts: "civil y m d \<Longrightarrow> civil_from_days (days_from_civil y m d) = (y, m, d)"
proof -
  assume c: "civil y m d"
  obtain era c q r where e: "era_day c q r (day_of_year m d)"
    and y: "shifted_year y m = 400 * era + (100 * c + 4 * q + r)"
    and days: "days_from_civil y m d = 146097 * era + era_days c q r (day_of_year m d) - 719468"
    by (rule era_of_civil [OF c])
  have m: "1 \<le> m" "m \<le> 12" "1 \<le> d" "d \<le> month_length m"
    using c by (auto simp: civil_def days_in_month_def month_length_def split: if_splits)
  note mp = day_of_year(3) [OF m, symmetric]
  show ?thesis unfolding days
    by (rule civil_of_era(1) [OF e mp])
      (use m y in \<open>auto simp: month_index_def shifted_year_def day_of_year_def split: if_splits\<close>)
qed

lemma civil_from_days_civil:
  assumes "civil_from_days z = (y, m, d)"
  shows "civil y m d" and "days_from_civil y m d = z"
proof -
  define era where "era = (z + 719468) div 146097"
  have "0 \<le> z + 719468 - 146097 * era" "z + 719468 - 146097 * era < 146097"
    using int_div_bounds [of 146097 "z + 719468"] by (simp_all add: era_def)
  then obtain c q r doy where ok: "era_day c q r doy"
    and z: "z + 719468 - 146097 * era = era_days c q r doy"
    using era_day_cases by blast
  have z': "z = 146097 * era + era_days c q r doy - 719468" using z by simp
  define mp where "mp = (5 * doy + 2) div 153"
  define m' where "m' = (if mp < 10 then mp + 3 else mp - 9)"
  define d' where "d' = doy - (153 * mp + 2) div 5 + 1"
  define y1 where "y1 = 400 * era + (100 * c + 4 * q + r) + (if m' \<le> 2 then 1 else 0)"
  note made = civil_of_era [OF ok mp_def m'_def d'_def y1_def, folded z']
  have eqs: "y = y1" "m = m'" "d = d'" using made(1) assms by simp_all
  then show c: "civil y m d" using made(2) by simp
  obtain era' c' q' r' where e': "era_day c' q' r' (day_of_year m d)"
    and y': "shifted_year y m = 400 * era' + (100 * c' + 4 * q' + r')"
    and days: "days_from_civil y m d = 146097 * era' + era_days c' q' r' (day_of_year m d) - 719468"
    by (rule era_of_civil [OF c])
  have doy: "0 \<le> doy" "doy \<le> 365" using ok by (auto simp: era_day_def split: if_splits)
  have md: "day_of_year m d = doy" using month_of_day(5) [OF doy mp_def m'_def d'_def] eqs by simp
  have "shifted_year y m = 400 * era + (100 * c + 4 * q + r)"
    using eqs y1_def by (simp add: shifted_year_def)
  with y' have "400 * era' + (100 * c' + 4 * q' + r') = 400 * era + (100 * c + 4 * q + r)" by simp
  moreover have "shifted_year y m div 400 = era"
    unfolding \<open>shifted_year y m = 400 * era + (100 * c + 4 * q + r)\<close>
    by (rule int_div_eqI) (use ok in \<open>auto simp: era_day_def era_year_def\<close>)
  moreover have "shifted_year y m div 400 = era'"
    unfolding y' by (rule int_div_eqI) (use e' in \<open>auto simp: era_day_def era_year_def\<close>)
  ultimately have era': "era' = era" and years: "100 * c' + 4 * q' + r' = 100 * c + 4 * q + r" by simp_all
  note era'
  moreover have "era_days c' q' r' doy = era_days c q r doy"
    using era_doe [of c q r _ doy, OF _ refl] era_doe [of c' q' r' _ doy, OF _ years [symmetric]] ok e'
    by (simp add: era_day_def)
  ultimately show "days_from_civil y m d = z" using days z' md by simp
qed

subsection \<open>Day numbers count the days of the calendar\<close>

text \<open>The calendar as one reads it: the day after the last of a month is the first of the
  next.\<close>

definition next_day :: "int \<times> int \<times> int \<Rightarrow> int \<times> int \<times> int" where
  "next_day = (\<lambda>(y, m, d).
     if d < days_in_month y m then (y, m, d + 1)
     else if m < 12 then (y, m + 1, 1)
     else (y + 1, 1, 1))"

lemma next_day_civil: "civil y m d \<Longrightarrow> next_day (y, m, d) = (y', m', d') \<Longrightarrow> civil y' m' d'"
  by (auto simp: next_day_def civil_def days_in_month_def split: if_splits)

text \<open>March follows the last day of February: the one place where the year of an era ends.\<close>

lemma february_to_march:
  assumes "civil y 2 d" and last: "\<not> d < days_in_month y 2"
  shows "days_from_civil y 3 1 = days_from_civil y 2 d + 1"
proof -
  obtain era c q r where e: "era_day c q r (day_of_year 2 d)"
    and y: "shifted_year y 2 = 400 * era + (100 * c + 4 * q + r)"
    and days: "days_from_civil y 2 d = 146097 * era + era_days c q r (day_of_year 2 d) - 719468"
    by (rule era_of_civil [OF assms(1)])
  have ok: "era_year c q r" using e by (simp add: era_day_def)
  have doy: "day_of_year 2 d = 336 + d" by (simp add: day_of_year_def month_index_def)
  have y2: "y = 400 * era + (100 * c + 4 * q + r) + 1" using y by (simp add: shifted_year_def)
  have "d = (if is_leap y then 29 else 28)"
    using assms by (simp add: civil_def days_in_month_def split: if_splits)
  then have len: "336 + d = (if r = 3 \<and> (q < 24 \<or> c = 3) then 365 else 364)"
    using leap_era [OF ok, of era] y2 by simp
  have y3: "shifted_year y 3 = y" "day_of_year 3 1 = 0"
    by (simp_all add: shifted_year_def day_of_year_def month_index_def)
  have next_year: "days_from_civil y 3 1 = 146097 * era' + era_days c' q' r' 0 - 719468"
    if "era_year c' q' r'" "y = 400 * era' + (100 * c' + 4 * q' + r')" for era' c' q' r'
    using days_of_era [of c' q' r' y 3 era' 1] that y3 by simp
  consider "r < 3" | "r = 3" "q < 24" | "r = 3" "q = 24" "c < 3" | "r = 3" "q = 24" "c = 3"
    using ok unfolding era_year_def by linarith
  then show ?thesis
  proof cases
    case 1
    then show ?thesis using next_year [of c q "r + 1" era] ok len y2 unfolding days doy
      by (simp add: era_year_def era_days_def)
  next
    case 2
    then show ?thesis using next_year [of c "q + 1" 0 era] ok len y2 unfolding days doy
      by (simp add: era_year_def era_days_def)
  next
    case 3
    then show ?thesis using next_year [of "c + 1" 0 0 era] ok len y2 unfolding days doy
      by (simp add: era_year_def era_days_def)
  next
    case 4
    then show ?thesis using next_year [of 0 0 0 "era + 1"] ok len y2 unfolding days doy
      by (simp add: era_year_def era_days_def)
  qed
qed

lemma days_from_civil_day: "days_from_civil y m d = days_from_civil y m 1 + (d - 1)"
  by (simp add: days_from_civil_def Let_def)

lemma month_step:
  assumes "1 \<le> m" "m < 12" "m \<noteq> 2"
  shows "days_from_civil y (m + 1) 1 = days_from_civil y m 1 + days_in_month y m"
proof -
  have "m = 1 \<or> m = 3 \<or> m = 4 \<or> m = 5 \<or> m = 6 \<or> m = 7 \<or> m = 8 \<or> m = 9 \<or> m = 10 \<or> m = 11"
    using assms by presburger
  then show ?thesis
    by (elim disjE; hypsubst; simp add: days_from_civil_def Let_def days_in_month_def)
qed

lemma days_next_day:
  assumes c: "civil y m d" and n: "next_day (y, m, d) = (y', m', d')"
  shows "days_from_civil y' m' d' = days_from_civil y m d + 1"
proof -
  have b: "1 \<le> m" "m \<le> 12" "1 \<le> d" "d \<le> days_in_month y m" using c by (simp_all add: civil_def)
  consider "d < days_in_month y m" | "d = days_in_month y m" "m = 2"
    | "d = days_in_month y m" "m < 12" "m \<noteq> 2" | "d = days_in_month y m" "m = 12"
    using b by linarith
  then show ?thesis
  proof cases
    case 1
    then have "y' = y" "m' = m" "d' = d + 1" using n by (simp_all add: next_day_def)
    then show ?thesis using days_from_civil_day [of y m d] days_from_civil_day [of y m "d + 1"] by simp
  next
    case 2
    then show ?thesis using n february_to_march [of y d] c by (auto simp: next_day_def)
  next
    case 3
    then have "y' = y" "m' = m + 1" "d' = 1" using n by (simp_all add: next_day_def)
    then show ?thesis using 3 month_step [of m y] b days_from_civil_day [of y m d] by simp
  next
    case 4
    then show ?thesis using n
      by (auto simp: next_day_def days_from_civil_def Let_def days_in_month_def)
  qed
qed

lemma civil_from_days_next: "civil_from_days (z + 1) = next_day (civil_from_days z)"
proof -
  obtain y m d where z: "civil_from_days z = (y, m, d)" by (cases "civil_from_days z")
  obtain y' m' d' where n: "next_day (y, m, d) = (y', m', d')" by (cases "next_day (y, m, d)")
  note c = civil_from_days_civil [OF z]
  have "days_from_civil y' m' d' = z + 1" using days_next_day [OF c(1) n] c(2) by simp
  then show ?thesis using civil_from_days_inverts [OF next_day_civil [OF c(1) n]] z n by simp
qed

text \<open>So the derived order of \<open>Date\<close>, year then month then day, is the order of the day
  numbers.\<close>

definition civil_less :: "int \<times> int \<times> int \<Rightarrow> int \<times> int \<times> int \<Rightarrow> bool" where
  "civil_less = (\<lambda>(y, m, d) (y', m', d').
     y < y' \<or> y = y' \<and> (m < m' \<or> m = m' \<and> d < d'))"

lemma civil_less_trans: "civil_less a b \<Longrightarrow> civil_less b c \<Longrightarrow> civil_less a c"
  by (auto simp: civil_less_def split: prod.splits)

lemma civil_less_next: "civil_less a (next_day a)"
  by (auto simp: civil_less_def next_day_def split: prod.splits)

lemma civil_from_days_less:
  assumes "z < z'"
  shows "civil_less (civil_from_days z) (civil_from_days z')"
proof -
  have "civil_less (civil_from_days z) (civil_from_days (z + 1 + int n))" for n
  proof (induction n)
    case 0
    show ?case using civil_less_next [of "civil_from_days z"] by (simp add: civil_from_days_next)
  next
    case (Suc n)
    have "civil_from_days (z + 1 + int (Suc n)) = next_day (civil_from_days (z + 1 + int n))"
      using civil_from_days_next [of "z + 1 + int n"] by (simp add: add_ac)
    then show ?case using Suc.IH civil_less_next civil_less_trans by metis
  qed
  from this [of "nat (z' - z - 1)"] show ?thesis using assms by simp
qed

lemma civil_less_iff:
  assumes "civil y m d" "civil y' m' d'"
  shows "civil_less (y, m, d) (y', m', d') \<longleftrightarrow> days_from_civil y m d < days_from_civil y' m' d'"
proof -
  note inv = civil_from_days_inverts [OF assms(1)] civil_from_days_inverts [OF assms(2)]
  show ?thesis
  proof (cases "days_from_civil y m d" "days_from_civil y' m' d'" rule: linorder_cases)
    case less
    then show ?thesis using civil_from_days_less [OF less] inv by simp
  next
    case equal
    then have "(y, m, d) = (y', m', d')" using inv by metis
    then show ?thesis by (simp add: civil_less_def)
  next
    case greater
    then have "civil_less (y', m', d') (y, m, d)" using civil_from_days_less [OF greater] inv by simp
    moreover have "\<not> civil_less (y, m, d) (y, m, d)" by (simp add: civil_less_def)
    ultimately show ?thesis using greater civil_less_trans by (metis not_less_iff_gr_or_eq)
  qed
qed

section \<open>Properties\<close>

text \<open>C30: \<open>days_from_civil\<close> and \<open>civil_from_days\<close> are inverse: on every date of the proleptic
  Gregorian calendar, and on those alone, and on every day number.\<close>

theorem civil_conversions_are_inverse:
  "(civil y m d \<longleftrightarrow> civil_from_days (days_from_civil y m d) = (y, m, d)) \<and>
   (case civil_from_days z of (y', m', d') \<Rightarrow> civil y' m' d' \<and> days_from_civil y' m' d' = z)"
  using civil_from_days_inverts civil_from_days_civil by (auto split: prod.splits)

text \<open>Day numbers count the days of the calendar: 0 is 1970-01-01, the number after a
  day's is the next day's as the months and leap years have it, and the order of the numbers
  is the order of the dates.\<close>

theorem day_numbers_count_the_calendar:
  "civil_from_days 0 = (1970, 1, 1) \<and>
   civil_from_days (z + 1) = next_day (civil_from_days z) \<and>
   (civil_less (civil_from_days z) (civil_from_days w) \<longleftrightarrow> z < w)"
proof -
  obtain y m d where z: "civil_from_days z = (y, m, d)" by (cases "civil_from_days z")
  obtain y' m' d' where w: "civil_from_days w = (y', m', d')" by (cases "civil_from_days w")
  have "civil_less (y, m, d) (y', m', d') \<longleftrightarrow> z < w"
    using civil_less_iff [OF civil_from_days_civil(1) [OF z] civil_from_days_civil(1) [OF w]]
      civil_from_days_civil(2) [OF z] civil_from_days_civil(2) [OF w] by simp
  moreover have "days_from_civil 1970 1 1 = 0" by (simp add: days_from_civil_def)
  then have "civil_from_days 0 = (1970, 1, 1)"
    using civil_from_days_inverts [of 1970 1 1] by (simp add: civil_def days_in_month_def)
  ultimately show ?thesis using z w civil_from_days_next by simp
qed

end
