(* ===== verification/Times.thy ===== *)
theory Times
  imports Calendar "HOL-Library.Product_Lexorder"
begin

text \<open>
  \<open>Date\<close>, \<open>Time\<close>, \<open>DateTime\<close> and \<open>Timestamp\<close>: their constructors, the cursor that reads
  their text (\<open>Reader\<close> of \<open>time/mod.rs\<close>), what \<open>Display\<close> writes, and the conversion of a
  timestamp to and from a civil date and time. A reader is a function of the text and the
  position, answering the value and the position after it or the refusal.
\<close>

section \<open>The types\<close>

datatype Date = Date (year: int) (month: int) (day: int)

datatype Time = Time (hour: int) (minute: int) (second: int) (nanosecond: int)

datatype DateTime = DateTime (dt_date: Date) (dt_time: Time)

datatype Timestamp = Timestamp (seconds: int) (nanoseconds: int)

fun date_ok :: "Date \<Rightarrow> bool" where
  "date_ok (Date y m d) \<longleftrightarrow> YEARS y \<and> civil y m d"

fun time_ok :: "Time \<Rightarrow> bool" where
  "time_ok (Time h m s n) \<longleftrightarrow>
     0 \<le> h \<and> h \<le> 23 \<and> 0 \<le> m \<and> m \<le> 59 \<and> 0 \<le> s \<and> s \<le> 59 \<and> 0 \<le> n \<and> n < NANOS_PER_SECOND"

fun date_time_ok :: "DateTime \<Rightarrow> bool" where
  "date_time_ok (DateTime d t) \<longleftrightarrow> date_ok d \<and> time_ok t"

fun timestamp_ok :: "Timestamp \<Rightarrow> bool" where
  "timestamp_ok (Timestamp s n) \<longleftrightarrow>
     FIRST_DAY * DAY \<le> s \<and> s < (LAST_DAY + 1) * DAY \<and> 0 \<le> n \<and> n < NANOS_PER_SECOND"

text \<open>The constructors: \<open>Date::try_new\<close>, \<open>Time::try_new\<close>, \<open>Timestamp::from_unix\<close>. Their
  arguments are unsigned where the code's are (\<open>u8\<close>, \<open>u32\<close>).\<close>

definition date_try_new :: "int \<Rightarrow> int \<Rightarrow> int \<Rightarrow> value_error + Date" where
  "date_try_new y m d =
     (if \<not> YEARS y \<or> \<not> (1 \<le> m \<and> m \<le> 12) \<or> d = 0 \<or> d > days_in_month y m
      then Inl Unrepresentable else Inr (Date y m d))"

definition time_try_new :: "int \<Rightarrow> int \<Rightarrow> int \<Rightarrow> int \<Rightarrow> value_error + Time" where
  "time_try_new h m s n =
     (if h > 23 \<or> m > 59 \<or> s > 59 \<or> n \<ge> NANOS_PER_SECOND
      then Inl Unrepresentable else Inr (Time h m s n))"

definition from_unix :: "int \<Rightarrow> int \<Rightarrow> value_error + Timestamp" where
  "from_unix s n =
     (if n \<ge> NANOS_PER_SECOND \<or> \<not> (FIRST_DAY * DAY \<le> s \<and> s < (LAST_DAY + 1) * DAY)
      then Inl Unrepresentable else Inr (Timestamp s n))"

definition midnight :: Time where "midnight = Time 0 0 0 0"

definition date_days :: "Date \<Rightarrow> int" where
  "date_days d = days_from_civil (year d) (month d) (day d)"

definition from_days :: "int \<Rightarrow> Date" where
  "from_days days = (case civil_from_days days of (y, m, d) \<Rightarrow> Date y m d)"

definition seconds_of_day :: "Time \<Rightarrow> int" where
  "seconds_of_day t = hour t * 3600 + minute t * 60 + second t"

definition from_seconds_of_day :: "int \<Rightarrow> int \<Rightarrow> Time" where
  "from_seconds_of_day s n = Time (s div 3600) (s div 60 mod 60) (s mod 60) n"

definition utc :: "Timestamp \<Rightarrow> DateTime" where
  "utc t = DateTime (from_days (seconds t div DAY))
                    (from_seconds_of_day (seconds t mod DAY) (nanoseconds t))"

section \<open>The text forms\<close>

definition show_pad :: "nat \<Rightarrow> int \<Rightarrow> str" where
  "show_pad w v = pad_nat w (nat v)"

text \<open>\<open>write_fraction\<close>: the nine digits with the trailing zeros popped.\<close>

definition pop_zeros :: "str \<Rightarrow> str" where
  "pop_zeros s = rev (dropWhile (\<lambda>c. c = CHR ''0'') (rev s))"

definition write_fraction :: "int \<Rightarrow> str" where
  "write_fraction nanos = (if nanos = 0 then [] else CHR ''.'' # pop_zeros (show_pad 9 nanos))"

definition show_date :: "Date \<Rightarrow> str" where
  "show_date d = show_pad 4 (year d) @ ''-'' @ show_pad 2 (month d) @ ''-'' @ show_pad 2 (day d)"

definition show_time :: "Time \<Rightarrow> str" where
  "show_time t = show_pad 2 (hour t) @ '':'' @ show_pad 2 (minute t) @ '':'' @
                 show_pad 2 (second t) @ write_fraction (nanosecond t)"

definition show_date_time :: "DateTime \<Rightarrow> str" where
  "show_date_time x = show_date (dt_date x) @ ''T'' @ show_time (dt_time x)"

definition show_timestamp :: "Timestamp \<Rightarrow> str" where
  "show_timestamp t = show_date_time (utc t) @ ''Z''"

section \<open>The cursor\<close>

definition quoted :: "string \<Rightarrow> string" where
  "quoted s = CHR 0x27 # s @ [CHR 0x27]"

definition refuse :: "nat \<Rightarrow> string \<Rightarrow> value_error + 'a" where
  "refuse i expected = Inl (Unparsed i expected)"

definition digits :: "str \<Rightarrow> nat \<Rightarrow> string \<Rightarrow> nat \<Rightarrow> value_error + (int \<times> nat)" where
  "digits s n expected i =
     (if length s < i + n then refuse i expected
      else let run = take n (drop i s) in
           if \<not> list_all is_digit run then refuse i expected
           else Inr (int (dec_val run), i + n))"

definition read_field :: "str \<Rightarrow> int \<Rightarrow> int \<Rightarrow> string \<Rightarrow> nat \<Rightarrow> value_error + (int \<times> nat)" where
  "read_field s low high expected i =
     and_then (digits s 2 expected i) (\<lambda>(v, j).
       if v < low \<or> v > high then refuse i expected else Inr (v, j))"

definition read_any :: "str \<Rightarrow> str \<Rightarrow> string \<Rightarrow> nat \<Rightarrow> value_error + (char \<times> nat)" where
  "read_any s any_of expected i =
     (case at s i of
        Some b \<Rightarrow> if b \<in> set any_of then Inr (b, i + 1) else refuse i expected
      | None \<Rightarrow> refuse i expected)"

definition read_end :: "str \<Rightarrow> string \<Rightarrow> nat \<Rightarrow> value_error + unit" where
  "read_end s expected i = (if i = length s then Inr () else refuse i expected)"

definition read_date :: "str \<Rightarrow> nat \<Rightarrow> value_error + (Date \<times> nat)" where
  "read_date s i =
     and_then (digits s 4 ''a four-digit year'' i) (\<lambda>(y, i).
     and_then (read_any s ''-'' (quoted ''-'' @ '' after the year'') i) (\<lambda>(_, i).
     and_then (read_field s 1 12 ''a month from 01 to 12'' i) (\<lambda>(m, i).
     and_then (read_any s ''-'' (quoted ''-'' @ '' after the month'') i) (\<lambda>(_, i).
     and_then (read_field s 1 31 ''a day of the month'' i) (\<lambda>(d, j).
       if d > days_in_month y m then refuse i ''a day of the month''
       else Inr (Date y m d, j))))))"

text \<open>The fraction of a second: \<open>.\<close> and one to nine digits, as nanoseconds.\<close>

definition read_fraction :: "str \<Rightarrow> nat \<Rightarrow> value_error + (int \<times> nat)" where
  "read_fraction s i =
     (if at s i = Some (CHR ''.'') then
        let start = i + 1; j = skip_digits s start; n = j - start in
        if n = 0 \<or> n > 9
        then refuse start ''one to nine digits of a second, no finer than a nanosecond''
        else Inr (int (dec_val (take n (drop start s)) * 10 ^ (9 - n)), j)
      else Inr (0, i))"

definition read_time :: "str \<Rightarrow> nat \<Rightarrow> value_error + (Time \<times> nat)" where
  "read_time s i =
     and_then (read_field s 0 23 ''an hour from 00 to 23'' i) (\<lambda>(hh, i).
     and_then (read_any s '':'' (quoted '':'' @ '' after the hour'') i) (\<lambda>(_, i).
     and_then (read_field s 0 59 ''a minute from 00 to 59'' i) (\<lambda>(mm, i).
     and_then (read_any s '':'' (quoted '':'' @ '' after the minute'') i) (\<lambda>(_, i).
     and_then (read_field s 0 59 ''a second from 00 to 59'' i) (\<lambda>(ss, i).
     and_then (read_fraction s i) (\<lambda>(nanos, i).
       Inr (Time hh mm ss nanos, i)))))))"

definition read_date_time :: "str \<Rightarrow> nat \<Rightarrow> value_error + (DateTime \<times> nat)" where
  "read_date_time s i =
     and_then (read_date s i) (\<lambda>(d, i).
     and_then (read_any s ''Tt'' (quoted ''T'' @ '' between the date and the time'') i) (\<lambda>(_, i).
     and_then (read_time s i) (\<lambda>(t, i). Inr (DateTime d t, i))))"

definition read_offset :: "str \<Rightarrow> nat \<Rightarrow> value_error + (int \<times> nat)" where
  "read_offset s i =
     and_then (read_any s ''Zz+-'' (quoted ''Z'' @ '' or an offset such as +05:30'') i) (\<lambda>(sign, i).
       if sign = CHR ''Z'' \<or> sign = CHR ''z'' then Inr (0, i)
       else
         and_then (read_field s 0 23 ''an offset hour from 00 to 23'' i) (\<lambda>(oh, i).
         and_then (read_any s '':'' (quoted '':'' @ '' in the offset'') i) (\<lambda>(_, i).
         and_then (read_field s 0 59 ''an offset minute from 00 to 59'' i) (\<lambda>(om, i).
           let east = oh * 3600 + om * 60 in
           Inr (if sign = CHR ''-'' then - east else east, i)))))"

definition date_from_str :: "str \<Rightarrow> value_error + Date" where
  "date_from_str s =
     and_then (read_date s 0) (\<lambda>(d, i).
     and_then (read_end s ''nothing after the date'' i) (\<lambda>_. Inr d))"

definition time_from_str :: "str \<Rightarrow> value_error + Time" where
  "time_from_str s =
     and_then (read_time s 0) (\<lambda>(t, i).
     and_then (read_end s ''nothing after the time: a time of day has no offset'' i) (\<lambda>_. Inr t))"

definition date_time_from_str :: "str \<Rightarrow> value_error + DateTime" where
  "date_time_from_str s =
     and_then (read_date_time s 0) (\<lambda>(x, i).
     and_then (read_end s ''nothing after the time: a civil date and time has no offset'' i)
       (\<lambda>_. Inr x))"

definition timestamp_from_str :: "str \<Rightarrow> value_error + Timestamp" where
  "timestamp_from_str s =
     and_then (read_date_time s 0) (\<lambda>(x, offset_at).
     and_then (read_offset s offset_at) (\<lambda>(offset, i).
     and_then (read_end s ''nothing after the offset'' i) (\<lambda>_.
       let secs = date_days (dt_date x) * DAY + seconds_of_day (dt_time x) - offset in
       map_err (\<lambda>_. Unparsed offset_at
                  ''an offset that keeps the instant within the years 0000 to 9999'')
         (from_unix secs (nanosecond (dt_time x))))))"

section \<open>What stands at a position\<close>

definition stands :: "str \<Rightarrow> nat \<Rightarrow> str \<Rightarrow> nat \<Rightarrow> bool" where
  "stands s i u j \<longleftrightarrow> i \<le> length s \<and> j = i + length u \<and> take (length u) (drop i s) = u"

lemma stands_Nil [simp]: "stands s i [] j \<longleftrightarrow> j = i \<and> i \<le> length s"
  by (auto simp: stands_def)

lemma stands_Cons: "stands s i (c # u) k \<longleftrightarrow> at s i = Some c \<and> stands s (i + 1) u k"
  by (cases "i < length s")
    (auto simp: stands_def at_def Cons_nth_drop_Suc [symmetric])

lemma stands_le: "stands s i u j \<Longrightarrow> i \<le> j \<and> j \<le> length s"
proof -
  assume a: "stands s i u j"
  then have "length (take (length u) (drop i s)) = length u" unfolding stands_def by metis
  then have "length u \<le> length s - i" unfolding length_take length_drop by simp
  with a show ?thesis by (auto simp: stands_def)
qed

lemma stands_append: "stands s i (u @ v) k \<longleftrightarrow> (\<exists>j. stands s i u j \<and> stands s j v k)"
  by (induction u arbitrary: i) (auto simp: stands_Cons dest: stands_le)

lemma stands_fun: "stands s i u j \<Longrightarrow> stands s i v k \<Longrightarrow> length u = length v \<Longrightarrow> u = v \<and> j = k"
  by (simp add: stands_def)

lemma stands_whole: "stands s 0 u (length s) \<longleftrightarrow> u = s"
  by (auto simp: stands_def)

lemma pad_nat_dec_val: "list_all is_digit u \<Longrightarrow> u \<noteq> [] \<Longrightarrow> pad_nat (length u) (dec_val u) = u"
proof (induction u)
  case (Cons c u)
  show ?case
  proof (cases "u = [] \<or> c \<noteq> CHR ''0''")
    case True
    then have "show_nat (dec_val (c # u)) = c # u" using show_nat_dec_val [of "c # u"] Cons.prems by auto
    then show ?thesis by (simp add: pad_nat_def)
  next
    case False
    then have "dec_val (c # u) = dec_val u" by (simp add: dec_val_Cons)
    moreover have "length (show_nat (dec_val u)) \<le> length u"
      using False Cons.prems by (intro length_show_nat_le) (auto intro: dec_val_less)
    ultimately show ?thesis using False Cons by (simp add: pad_nat_def Suc_diff_le)
  qed
qed simp

lemma show_pad_iff:
  assumes "0 < n"
  shows "(length u = n \<and> list_all is_digit u \<and> v = int (dec_val u)) \<longleftrightarrow>
         (0 \<le> v \<and> v < 10 ^ n \<and> u = show_pad n v)"
proof
  assume u: "length u = n \<and> list_all is_digit u \<and> v = int (dec_val u)"
  then have "dec_val u < 10 ^ n" using dec_val_less by blast
  then have "int (dec_val u) < 10 ^ n" by (metis of_nat_less_iff of_nat_numeral of_nat_power)
  with u assms show "0 \<le> v \<and> v < 10 ^ n \<and> u = show_pad n v"
    using pad_nat_dec_val [of u] by (auto simp: show_pad_def)
next
  assume v: "0 \<le> v \<and> v < 10 ^ n \<and> u = show_pad n v"
  then have "nat v < 10 ^ n" by (metis nat_less_iff of_nat_numeral of_nat_power)
  with v assms show "length u = n \<and> list_all is_digit u \<and> v = int (dec_val u)"
    by (simp add: show_pad_def length_pad_nat pad_nat_digits)
qed

lemma digits_Inr:
  assumes "digits s n e i = Inr (v, j)" "0 < n"
  shows "0 \<le> v \<and> v < 10 ^ n \<and> stands s i (show_pad n v) j"
proof -
  define u where "u = take n (drop i s)"
  have u: "i + n \<le> length s" "list_all is_digit u" "v = int (dec_val u)" "j = i + n"
    using assms(1) by (auto simp: digits_def refuse_def Let_def u_def not_less split: if_splits)
  then have "length u = n" by (simp add: u_def)
  then have "stands s i u j" using u by (simp add: stands_def u_def)
  moreover have "0 \<le> v \<and> v < 10 ^ n \<and> u = show_pad n v"
    using u \<open>length u = n\<close> by (intro show_pad_iff [OF assms(2), THEN iffD1]) simp
  ultimately show ?thesis by simp
qed

lemma digits_read:
  assumes "stands s i (show_pad n v) j" "0 < n" "0 \<le> v" "v < 10 ^ n"
  shows "digits s n e i = Inr (v, j)"
proof -
  have "length (show_pad n v) = n \<and> list_all is_digit (show_pad n v) \<and> v = int (dec_val (show_pad n v))"
    using show_pad_iff [OF assms(2), of "show_pad n v" v] assms(3,4) by blast
  with assms stands_le [OF assms(1)] show ?thesis by (auto simp: digits_def stands_def)
qed

lemma read_field_Inr:
  "read_field s low high e i = Inr (v, j) \<Longrightarrow> low \<le> v \<and> v \<le> high \<and> stands s i (show_pad 2 v) j"
  by (auto simp: read_field_def refuse_def elim!: and_then_InrE split: if_splits dest: digits_Inr)

lemma read_field_read:
  "stands s i (show_pad 2 v) j \<Longrightarrow> low \<le> v \<Longrightarrow> v \<le> high \<Longrightarrow> 0 \<le> low \<Longrightarrow> high < 100 \<Longrightarrow>
   read_field s low high e i = Inr (v, j)"
  by (simp add: read_field_def digits_read)

lemma read_any_iff:
  "read_any s cs e i = Inr (c, j) \<longleftrightarrow> c \<in> set cs \<and> stands s i [c] j"
  by (cases "i < length s")
    (auto simp: read_any_def stands_Cons at_def refuse_def split: option.splits if_splits)

lemma read_end_iff: "read_end s e i = Inr x \<longleftrightarrow> i = length s"
  by (auto simp: read_end_def refuse_def)

lemmas reads_Inr = digits_Inr read_field_Inr read_any_iff [THEN iffD1]
lemmas reads_read = digits_read read_field_read read_any_iff [THEN iffD2]

lemma read_date_Inr:
  assumes "read_date s i = Inr (d, j)"
  shows "date_ok d \<and> stands s i (show_date d) j"
proof -
  obtain y m dd i1 i2 i3 i4 where r:
    "0 \<le> y" "y < 10 ^ 4" "stands s i (show_pad 4 y) i1" "stands s i1 ''-'' i2"
    "1 \<le> m" "m \<le> 12" "stands s i2 (show_pad 2 m) i3" "stands s i3 ''-'' i4"
    "1 \<le> dd" "stands s i4 (show_pad 2 dd) j" "dd \<le> days_in_month y m" "d = Date y m dd"
    using assms
    by (auto simp: read_date_def refuse_def split: if_splits dest!: reads_Inr)
  then have "stands s i (show_date d) j" unfolding show_date_def stands_append by auto
  with r show ?thesis by (simp add: YEARS_def civil_def)
qed

lemma read_date_read:
  assumes ok: "date_ok d" and u: "stands s i (show_date d) j"
  shows "read_date s i = Inr (d, j)"
proof -
  obtain y m dd where d: "d = Date y m dd" by (cases d)
  obtain i1 i2 i3 i4 where p: "stands s i (show_pad 4 y) i1" "stands s i1 ''-'' i2"
    "stands s i2 (show_pad 2 m) i3" "stands s i3 ''-'' i4" "stands s i4 (show_pad 2 dd) j"
    using u unfolding show_date_def stands_append d by auto
  have "days_in_month y m \<le> 31" by (simp add: days_in_month_def)
  with ok d have b: "0 \<le> y" "y < 10 ^ 4" "1 \<le> m" "m \<le> 12" "1 \<le> dd" "dd \<le> days_in_month y m" "dd \<le> 31"
    by (auto simp: YEARS_def civil_def)
  have "digits s 4 ''a four-digit year'' i = Inr (y, i1)"
    by (rule digits_read) (use p b in auto)
  moreover have "read_field s 1 12 e i2 = Inr (m, i3)" for e
    by (rule read_field_read) (use p b in auto)
  moreover have "read_field s 1 31 e i4 = Inr (dd, j)" for e
    by (rule read_field_read) (use p b in auto)
  moreover have "read_any s ''-'' e i1 = Inr (CHR ''-'', i2)" "read_any s ''-'' e i3 = Inr (CHR ''-'', i4)" for e
    using p by (simp_all add: read_any_iff)
  ultimately show ?thesis using b d by (simp add: read_date_def)
qed

lemma read_date_iff: "read_date s i = Inr (d, j) \<longleftrightarrow> date_ok d \<and> stands s i (show_date d) j"
  using read_date_Inr read_date_read by blast

text \<open>The fraction: what \<open>write_fraction\<close> writes is read back where no digit follows, and
  nothing is read where neither a point nor a digit follows.\<close>

lemma skip_digits_stands:
  assumes "stands s i u j" "list_all is_digit u" "\<not> at_digit s j"
  shows "skip_digits s i = j"
proof -
  have "takeWhile is_digit (drop i s) = u"
  proof -
    have "drop i s = u @ drop j s" using assms(1)
      by (metis stands_def append_take_drop_id drop_drop add.commute)
    moreover have "takeWhile is_digit (drop j s) = []"
      using assms(3) by (simp add: at_digit_drop takeWhile_eq_Nil_iff split: list.splits)
    moreover have "\<forall>c\<in>set u. is_digit c" using assms(2) by (simp add: list_all_iff)
    ultimately show ?thesis by (simp add: takeWhile_append2)
  qed
  with assms(1) show ?thesis by (simp add: skip_digits_takeWhile stands_def)
qed

lemma pop_zeros_split: "\<exists>k. s = pop_zeros s @ replicate k (CHR ''0'')"
proof -
  let ?zeros = "takeWhile (\<lambda>c. c = CHR ''0'') (rev s)"
  have "?zeros = replicate (length ?zeros) (CHR ''0'')"
    by (rule replicate_eqI) (auto dest: set_takeWhileD)
  moreover have "s = pop_zeros s @ rev ?zeros"
    unfolding pop_zeros_def by (metis rev_append rev_rev_ident takeWhile_dropWhile_id)
  ultimately show ?thesis by (metis rev_replicate)
qed

lemma dec_val_append: "dec_val (u @ v) = dec_val u * 10 ^ length v + dec_val v"
  by (induction v rule: rev_induct)
    (simp_all add: append_assoc [symmetric] algebra_simps del: append_assoc)

lemma dec_val_replicate_0: "dec_val (replicate k (CHR ''0'')) = 0"
  using dec_val_zeros [of k "[]"] by simp

text \<open>What stands after the point: the digits of a fraction, and the nanoseconds they are.\<close>

definition fraction_text :: "str \<Rightarrow> int \<Rightarrow> bool" where
  "fraction_text u n \<longleftrightarrow>
     u = [] \<and> n = 0 \<or>
     (\<exists>v. u = CHR ''.'' # v \<and> list_all is_digit v \<and> 1 \<le> length v \<and> length v \<le> 9 \<and>
          n = int (dec_val v * 10 ^ (9 - length v)))"

lemma fraction_text_bound: "fraction_text u n \<Longrightarrow> 0 \<le> n \<and> n < NANOS_PER_SECOND"
proof -
  have "int (dec_val v * 10 ^ (9 - length v)) < 1000000000"
    if v: "list_all is_digit v" "length v \<le> 9" for v
  proof -
    have "dec_val v * 10 ^ (9 - length v) < 10 ^ length v * 10 ^ (9 - length v)"
      using dec_val_less [OF v(1)] by simp
    also have "\<dots> = 10 ^ 9" using v(2) by (simp add: power_add [symmetric])
    finally have "int (dec_val v * 10 ^ (9 - length v)) < int (10 ^ 9)" by (simp only: of_nat_less_iff)
    then show ?thesis by simp
  qed
  then show "fraction_text u n \<Longrightarrow> 0 \<le> n \<and> n < NANOS_PER_SECOND"
    by (auto simp: fraction_text_def NANOS_PER_SECOND_def)
qed

lemma fraction_text_write:
  assumes "0 \<le> n" "n < NANOS_PER_SECOND"
  shows "fraction_text (write_fraction n) n"
proof (cases "n = 0")
  case False
  have n: "nat n < 10 ^ 9" using assms by (simp add: NANOS_PER_SECOND_def)
  obtain k where k: "show_pad 9 n = pop_zeros (show_pad 9 n) @ replicate k (CHR ''0'')"
    using pop_zeros_split by blast
  define v where "v = pop_zeros (show_pad 9 n)"
  have d: "list_all is_digit (show_pad 9 n)" "dec_val (show_pad 9 n) = nat n" "length (show_pad 9 n) = 9"
    using n by (simp_all add: show_pad_def pad_nat_digits length_pad_nat)
  have "list_all is_digit v" using d(1) k unfolding v_def by (metis list_all_append)
  moreover have len: "length v + k = 9" using d(3) k unfolding v_def by (metis length_append length_replicate)
  moreover have "nat n = dec_val v * 10 ^ (9 - length v)"
  proof -
    have "nat n = dec_val (v @ replicate k (CHR ''0''))" using d(2) k unfolding v_def by simp
    moreover have "k = 9 - length v" using len by simp
    ultimately show ?thesis by (simp add: dec_val_append dec_val_replicate_0)
  qed
  moreover have "v \<noteq> []"
    using calculation(3) False assms by auto
  moreover have "n = int (dec_val v * 10 ^ (9 - length v))"
    using calculation(3) assms by (simp only: flip: calculation(3))
  moreover have "write_fraction n = CHR ''.'' # v" using False by (simp add: write_fraction_def v_def)
  ultimately show ?thesis unfolding fraction_text_def by (auto simp: Suc_le_eq simp del: of_nat_mult)
qed (simp add: fraction_text_def write_fraction_def)

text \<open>A fraction ends where it does because what follows is neither a digit nor, where there
  is no fraction, a point.\<close>

definition fraction_ends :: "str \<Rightarrow> nat \<Rightarrow> str \<Rightarrow> bool" where
  "fraction_ends s j u \<longleftrightarrow> (if u = [] then at s j \<noteq> Some (CHR ''.'') else \<not> at_digit s j)"

lemma read_fraction_read:
  assumes u: "stands s i u j" "fraction_text u n" "fraction_ends s j u"
  shows "read_fraction s i = Inr (n, j)"
proof (cases "u = []")
  case True
  then show ?thesis using u by (simp add: read_fraction_def fraction_ends_def fraction_text_def)
next
  case False
  then obtain v where v: "u = CHR ''.'' # v" "list_all is_digit v" "1 \<le> length v" "length v \<le> 9"
    "n = int (dec_val v * 10 ^ (9 - length v))"
    using u(2) by (auto simp: fraction_text_def)
  have p: "at s i = Some (CHR ''.'')" "stands s (i + 1) v j" using u(1) v(1) by (simp_all add: stands_Cons)
  have "skip_digits s (i + 1) = j"
    by (rule skip_digits_stands [OF p(2) v(2)]) (use u(3) False in \<open>simp add: fraction_ends_def\<close>)
  moreover have "take (length v) (drop (i + 1) s) = v" "j = i + 1 + length v"
    using p(2) by (simp_all add: stands_def)
  moreover define n' where "n' = length v"
  ultimately have "read_fraction s i
      = (if n' = 0 \<or> n' > 9 then refuse (i + 1) ''one to nine digits of a second, no finer than a nanosecond''
         else Inr (int (dec_val v * 10 ^ (9 - n')), j))"
    using p(1) by (simp add: read_fraction_def Let_def)
  then show ?thesis using v(3-5) by (cases "v = []") (simp_all add: n'_def)
qed

lemma read_fraction_Inr:
  assumes "read_fraction s i = Inr (n, j)" "i \<le> length s"
  shows "\<exists>u. stands s i u j \<and> fraction_text u n"
proof (cases "at s i = Some (CHR ''.'')")
  case False
  with assms have "stands s i [] j \<and> fraction_text [] n"
    by (simp add: read_fraction_def fraction_text_def)
  then show ?thesis by blast
next
  case True
  define v where "v = takeWhile is_digit (drop (i + 1) s)"
  have j: "skip_digits s (i + 1) = i + 1 + length v" by (simp add: skip_digits_takeWhile v_def)
  have v: "take (length v) (drop (i + 1) s) = v" unfolding v_def by (rule takeWhile_eq_take [symmetric])
  have "i < length s" using True by (simp add: at_def split: if_splits)
  then have "stands s (i + 1) v (i + 1 + length v)" using v by (simp add: stands_def)
  then have "stands s i (CHR ''.'' # v) (i + 1 + length v)" using True by (simp add: stands_Cons)
  moreover have digits: "list_all is_digit v" unfolding v_def by (auto simp: list_all_iff dest: set_takeWhileD)
  have len: "1 \<le> length v" "length v \<le> 9" and n: "n = int (dec_val v * 10 ^ (9 - length v))"
    and "j = i + 1 + length v"
    using assms(1) True v j by (auto simp: read_fraction_def refuse_def Let_def Suc_le_eq split: if_splits)
  moreover have "fraction_text (CHR ''.'' # v) n" using digits len n by (auto simp: fraction_text_def)
  ultimately show ?thesis by blast
qed

lemma write_fraction_Nil [simp]: "write_fraction n = [] \<longleftrightarrow> n = 0"
  by (simp add: write_fraction_def)

text \<open>A time: the clock's fields, and a fraction text for its nanoseconds.\<close>

definition time_text :: "str \<Rightarrow> str \<Rightarrow> Time \<Rightarrow> bool" where
  "time_text u f t \<longleftrightarrow>
     time_ok t \<and> fraction_text f (nanosecond t) \<and>
     u = show_pad 2 (hour t) @ '':'' @ show_pad 2 (minute t) @ '':'' @ show_pad 2 (second t) @ f"

lemma read_time_read:
  assumes t: "time_text u f t" and u: "stands s i u j" and f: "fraction_ends s j f"
  shows "read_time s i = Inr (t, j)"
proof -
  obtain h m ss n where x: "t = Time h m ss n" by (cases t)
  obtain i1 i2 i3 i4 i5 where p: "stands s i (show_pad 2 h) i1" "stands s i1 '':'' i2"
    "stands s i2 (show_pad 2 m) i3" "stands s i3 '':'' i4" "stands s i4 (show_pad 2 ss) i5"
    "stands s i5 f j"
    using t u unfolding time_text_def x by (auto simp only: stands_append Time.sel)
  have b: "0 \<le> h" "h \<le> 23" "0 \<le> m" "m \<le> 59" "0 \<le> ss" "ss \<le> 59" "fraction_text f n"
    using t x by (auto simp: time_text_def)
  have "read_field s 0 23 e i = Inr (h, i1)" for e
    by (rule read_field_read) (use p b in auto)
  moreover have "read_field s 0 59 e i2 = Inr (m, i3)" for e
    by (rule read_field_read) (use p b in auto)
  moreover have "read_field s 0 59 e i4 = Inr (ss, i5)" for e
    by (rule read_field_read) (use p b in auto)
  moreover have "read_fraction s i5 = Inr (n, j)"
    by (rule read_fraction_read) (use p b f in auto)
  moreover have "read_any s '':'' e i1 = Inr (CHR '':'', i2)" "read_any s '':'' e i3 = Inr (CHR '':'', i4)" for e
    using p by (simp_all add: read_any_iff)
  ultimately show ?thesis using x by (simp add: read_time_def)
qed

lemma read_time_Inr:
  assumes "read_time s i = Inr (t, j)"
  shows "\<exists>u f. stands s i u j \<and> time_text u f t"
proof -
  obtain h m ss n i1 i2 i3 i4 i5 where r:
    "0 \<le> h" "h \<le> 23" "stands s i (show_pad 2 h) i1" "stands s i1 '':'' i2"
    "0 \<le> m" "m \<le> 59" "stands s i2 (show_pad 2 m) i3" "stands s i3 '':'' i4"
    "0 \<le> ss" "ss \<le> 59" "stands s i4 (show_pad 2 ss) i5"
    "read_fraction s i5 = Inr (n, j)" "t = Time h m ss n"
    using assms by (auto simp: read_time_def dest!: reads_Inr)
  obtain f where f: "stands s i5 f j" "fraction_text f n"
    using read_fraction_Inr [OF r(12)] stands_le [OF r(11)] by blast
  have "stands s i (show_pad 2 h @ '':'' @ show_pad 2 m @ '':'' @ show_pad 2 ss @ f) j"
    unfolding stands_append using r f by blast
  moreover have "time_ok t" using r fraction_text_bound [OF f(2)] by simp
  ultimately show ?thesis unfolding time_text_def using r f by auto
qed

lemma show_time_text: "time_ok t \<Longrightarrow> time_text (show_time t) (write_fraction (nanosecond t)) t"
  by (cases t) (simp add: time_text_def show_time_def fraction_text_write)

text \<open>Two times with one text are one time: what a text denotes is unique.\<close>

lemma read_date_time_read:
  assumes "date_ok d" "time_text u f t" "stands s i (show_date d @ [c] @ u) j" "c = CHR ''T'' \<or> c = CHR ''t''"
    "fraction_ends s j f"
  shows "read_date_time s i = Inr (DateTime d t, j)"
proof -
  obtain i1 i2 where p: "stands s i (show_date d) i1" "stands s i1 [c] i2" "stands s i2 u j"
    using assms(3) by (auto simp only: stands_append)
  have "read_any s ''Tt'' e i1 = Inr (c, i2)" for e using p(2) assms(4) by (auto simp: read_any_iff)
  then show ?thesis
    using read_date_read [OF assms(1) p(1)] read_time_read [OF assms(2) p(3) assms(5)]
    by (simp add: read_date_time_def)
qed

lemma read_date_time_Inr:
  assumes "read_date_time s i = Inr (x, j)"
  shows "date_time_ok x \<and> (\<exists>c u f. stands s i (show_date (dt_date x) @ [c] @ u) j \<and>
           (c = CHR ''T'' \<or> c = CHR ''t'') \<and> time_text u f (dt_time x))"
proof -
  obtain d t c i1 i2 where r: "date_ok d" "stands s i (show_date d) i1" "stands s i1 [c] i2"
    "c = CHR ''T'' \<or> c = CHR ''t''" "read_time s i2 = Inr (t, j)" "x = DateTime d t"
    using assms by (auto simp: read_date_time_def read_date_iff dest!: read_any_iff [THEN iffD1])
  obtain u f where t: "stands s i2 u j" "time_text u f t" using read_time_Inr [OF r(5)] by blast
  have "stands s i (show_date d @ [c] @ u) j" unfolding stands_append using r t by blast
  moreover have "date_time_ok x" using r t by (simp add: time_text_def)
  ultimately show ?thesis using r t by auto
qed

section \<open>Days and instants\<close>

lemma date_days_from_days:
  assumes "FIRST_DAY \<le> z" "z \<le> LAST_DAY"
  shows "date_ok (from_days z)" and "date_days (from_days z) = z"
proof -
  obtain y m d where c: "civil_from_days z = (y, m, d)" by (cases "civil_from_days z")
  note ok = civil_from_days_civil [OF c]
  have "days_from_civil 0 1 1 = FIRST_DAY" "days_from_civil 9999 12 31 = LAST_DAY"
    by (simp_all add: days_from_civil_def FIRST_DAY_def LAST_DAY_def)
  moreover have "civil 0 1 1" "civil 9999 12 31" by (simp_all add: civil_def days_in_month_def)
  ultimately have "\<not> civil_less (y, m, d) (0, 1, 1)" "\<not> civil_less (9999, 12, 31) (y, m, d)"
    using civil_less_iff [OF ok(1), of 0 1 1] civil_less_iff [OF _ ok(1), of 9999 12 31] ok(2) assms
    by auto
  then have "YEARS y" by (auto simp: civil_less_def YEARS_def)
  with ok c show "date_ok (from_days z)" "date_days (from_days z) = z"
    by (simp_all add: from_days_def date_days_def)
qed

lemma from_days_date_days: "date_ok d \<Longrightarrow> from_days (date_days d) = d"
  by (cases d) (simp add: from_days_def date_days_def civil_from_days_inverts)

lemma date_days_less:
  assumes "date_ok d" "date_ok e"
  shows "date_days d < date_days e \<longleftrightarrow> civil_less (year d, month d, day d) (year e, month e, day e)"
  using assms civil_less_iff by (cases d; cases e) (auto simp: date_days_def)

lemma date_days_bounds:
  assumes "date_ok d"
  shows "FIRST_DAY \<le> date_days d" "date_days d \<le> LAST_DAY"
proof -
  obtain y m dd where d: "d = Date y m dd" by (cases d)
  have c: "civil y m dd" "0 \<le> y" "y \<le> 9999" using assms d by (simp_all add: YEARS_def)
  have e: "days_from_civil 0 1 1 = FIRST_DAY" "days_from_civil 9999 12 31 = LAST_DAY"
    by (simp_all add: days_from_civil_def FIRST_DAY_def LAST_DAY_def)
  have f: "civil 0 1 1" "civil 9999 12 31" by (simp_all add: civil_def days_in_month_def)
  have "\<not> civil_less (y, m, dd) (0, 1, 1)" using c by (auto simp: civil_less_def civil_def)
  moreover have "\<not> civil_less (9999, 12, 31) (y, m, dd)"
    using c by (auto simp: civil_less_def civil_def days_in_month_def split: if_splits)
  ultimately show "FIRST_DAY \<le> date_days d" "date_days d \<le> LAST_DAY"
    using civil_less_iff [OF c(1) f(1)] civil_less_iff [OF f(2) c(1)] d e by (simp_all add: date_days_def)
qed

lemma seconds_of_day_bounds: "time_ok t \<Longrightarrow> 0 \<le> seconds_of_day t \<and> seconds_of_day t < DAY"
  by (cases t) (simp add: seconds_of_day_def DAY_def)

lemma from_seconds_seconds_of_day:
  assumes "time_ok t"
  shows "from_seconds_of_day (seconds_of_day t) (nanosecond t) = t"
proof -
  obtain h m s n where t: "t = Time h m s n" by (cases t)
  have b: "0 \<le> m" "m \<le> 59" "0 \<le> s" "s \<le> 59" using assms t by simp_all
  have "(h * 3600 + m * 60 + s) div 3600 = h" by (rule int_div_eqI) (use b in auto)
  moreover have e: "(h * 3600 + m * 60 + s) div 60 = h * 60 + m" by (rule int_div_eqI) (use b in auto)
  moreover have "(h * 60 + m) mod 60 = m" using b by simp
  moreover have "(h * 3600 + m * 60 + s) mod 60 = s"
    using minus_div_mult_eq_mod [of "h * 3600 + m * 60 + s" 60] e by simp
  ultimately show ?thesis by (simp add: t from_seconds_of_day_def seconds_of_day_def)
qed

lemma seconds_of_day_from_seconds:
  assumes "0 \<le> s" "s < DAY" "0 \<le> n" "n < NANOS_PER_SECOND"
  shows "time_ok (from_seconds_of_day s n)" "seconds_of_day (from_seconds_of_day s n) = s"
proof -
  have "s div 3600 \<le> 23" "0 \<le> s div 3600"
    using int_div_bounds [of 3600 s] assms by (simp_all add: DAY_def)
  then show "time_ok (from_seconds_of_day s n)"
    unfolding from_seconds_of_day_def time_ok.simps
    using assms pos_mod_sign [of 60 "s div 60"] pos_mod_bound [of 60 "s div 60"]
      pos_mod_sign [of 60 s] pos_mod_bound [of 60 s] by linarith
  have "s div 3600 = s div 60 div 60" by (simp add: zdiv_zmult2_eq [symmetric])
  then have "s div 3600 * 3600 + s div 60 mod 60 * 60 + s mod 60 = s"
    using div_mult_mod_eq [of "s div 60" 60] div_mult_mod_eq [of s 60] by linarith
  then show "seconds_of_day (from_seconds_of_day s n) = s"
    by (simp add: from_seconds_of_day_def seconds_of_day_def)
qed

definition instant :: "DateTime \<Rightarrow> int" where
  "instant x = (date_days (dt_date x) * DAY + seconds_of_day (dt_time x)) * NANOS_PER_SECOND
               + nanosecond (dt_time x)"

lemma utc_civil:
  assumes "timestamp_ok t"
  shows "date_time_ok (utc t)"
    and "date_days (dt_date (utc t)) * DAY + seconds_of_day (dt_time (utc t)) = seconds t"
    and "nanosecond (dt_time (utc t)) = nanoseconds t"
proof -
  obtain s n where t: "t = Timestamp s n" by (cases t)
  have ok: "FIRST_DAY * DAY \<le> s" "s < (LAST_DAY + 1) * DAY" "0 \<le> n" "n < NANOS_PER_SECOND"
    using assms t by simp_all
  have d: "FIRST_DAY \<le> s div DAY" "s div DAY \<le> LAST_DAY"
    using int_div_bounds [of DAY s] ok by (simp_all add: DAY_def FIRST_DAY_def LAST_DAY_def)
  have r: "0 \<le> s mod DAY" "s mod DAY < DAY" by (simp_all add: DAY_def)
  note day = date_days_from_days [OF d] and clock = seconds_of_day_from_seconds [OF r ok(3,4)]
  show "date_time_ok (utc t)" using day(1) clock(1) t by (simp add: utc_def)
  show "date_days (dt_date (utc t)) * DAY + seconds_of_day (dt_time (utc t)) = seconds t"
    using day(2) clock(2) t div_mult_mod_eq [of s DAY] by (simp add: utc_def)
  show "nanosecond (dt_time (utc t)) = nanoseconds t"
    by (simp add: utc_def from_seconds_of_day_def)
qed

lemma from_unix_civil:
  assumes "date_time_ok x"
  shows "from_unix (date_days (dt_date x) * DAY + seconds_of_day (dt_time x)) (nanosecond (dt_time x))
         = Inr (Timestamp (date_days (dt_date x) * DAY + seconds_of_day (dt_time x)) (nanosecond (dt_time x)))"
proof -
  obtain d t where x: "x = DateTime d t" by (cases x)
  have ok: "date_ok d" "time_ok t" using assms x by simp_all
  have "nanosecond t < NANOS_PER_SECOND" using ok(2) by (cases t) simp
  with date_days_bounds [OF ok(1)] seconds_of_day_bounds [OF ok(2)] show ?thesis
    by (simp add: from_unix_def x DAY_def)
qed

section \<open>Reading what was written\<close>

lemma date_from_str_iff: "date_from_str s = Inr d \<longleftrightarrow> date_ok d \<and> s = show_date d"
proof
  assume "date_from_str s = Inr d"
  then have "date_ok d \<and> stands s 0 (show_date d) (length s)"
    by (auto simp: date_from_str_def read_date_iff read_end_iff)
  then show "date_ok d \<and> s = show_date d" by (simp add: stands_whole)
next
  assume d: "date_ok d \<and> s = show_date d"
  then have "read_date s 0 = Inr (d, length s)" by (simp add: read_date_iff stands_whole)
  then show "date_from_str s = Inr d" by (simp add: date_from_str_def read_end_def)
qed

lemma fraction_ends_whole [simp]: "fraction_ends s (length s) f"
  by (simp add: fraction_ends_def at_def at_digit_def)

lemma time_from_str_iff: "time_from_str s = Inr t \<longleftrightarrow> (\<exists>f. time_text s f t)"
proof
  assume "time_from_str s = Inr t"
  then have "read_time s 0 = Inr (t, length s)" by (auto simp: time_from_str_def read_end_iff)
  then show "\<exists>f. time_text s f t" using read_time_Inr stands_whole by metis
next
  assume "\<exists>f. time_text s f t"
  then obtain f where f: "time_text s f t" by blast
  have "read_time s 0 = Inr (t, length s)" by (rule read_time_read [OF f]) (simp_all add: stands_whole)
  then show "time_from_str s = Inr t" by (simp add: time_from_str_def read_end_def)
qed

text \<open>\<open>date_time_text s f x\<close>: \<open>s\<close> spells the civil date and time \<open>x\<close>.\<close>

definition date_time_text :: "str \<Rightarrow> str \<Rightarrow> DateTime \<Rightarrow> bool" where
  "date_time_text s f x \<longleftrightarrow> date_time_ok x \<and>
     (\<exists>c u. s = show_date (dt_date x) @ [c] @ u \<and> (c = CHR ''T'' \<or> c = CHR ''t'') \<and>
            time_text u f (dt_time x))"

lemma read_date_time_text:
  assumes "date_time_text u f x" "stands s i u j" "fraction_ends s j f"
  shows "read_date_time s i = Inr (x, j)"
proof -
  obtain c v where c: "c = CHR ''T'' \<or> c = CHR ''t''" and u: "u = show_date (dt_date x) @ [c] @ v"
    and v: "time_text v f (dt_time x)" and ok: "date_time_ok x"
    using assms(1) unfolding date_time_text_def by blast
  have "date_ok (dt_date x)" using ok by (cases x) simp
  from read_date_time_read [OF this v _ c assms(3)] assms(2) u show ?thesis by simp
qed

lemma read_date_time_denotes:
  assumes "read_date_time s i = Inr (x, j)"
  shows "\<exists>u f. stands s i u j \<and> date_time_text u f x"
proof -
  obtain c u f where "date_time_ok x" "stands s i (show_date (dt_date x) @ [c] @ u) j"
    "c = CHR ''T'' \<or> c = CHR ''t''" "time_text u f (dt_time x)"
    using read_date_time_Inr [OF assms] by blast
  moreover from this have "date_time_text (show_date (dt_date x) @ [c] @ u) f x"
    unfolding date_time_text_def by blast
  ultimately show ?thesis by blast
qed

lemma date_time_from_str_iff: "date_time_from_str s = Inr x \<longleftrightarrow> (\<exists>f. date_time_text s f x)"
proof
  assume "date_time_from_str s = Inr x"
  then have "read_date_time s 0 = Inr (x, length s)" by (auto simp: date_time_from_str_def read_end_iff)
  then show "\<exists>f. date_time_text s f x" using read_date_time_denotes stands_whole by metis
next
  assume "\<exists>f. date_time_text s f x"
  then obtain f where f: "date_time_text s f x" by blast
  have "read_date_time s 0 = Inr (x, length s)"
    by (rule read_date_time_text [OF f]) (simp_all add: stands_whole)
  then show "date_time_from_str s = Inr x" by (simp add: date_time_from_str_def read_end_def)
qed

lemma show_date_time_text:
  "date_time_ok x \<Longrightarrow> date_time_text (show_date_time x) (write_fraction (nanosecond (dt_time x))) x"
  by (cases x) (auto simp: date_time_text_def show_date_time_def intro: show_time_text)

subsection \<open>Offsets and instants\<close>

text \<open>\<open>offset_text u east\<close>: \<open>u\<close> spells an offset of \<open>east\<close> seconds.\<close>

definition offset_text :: "str \<Rightarrow> int \<Rightarrow> bool" where
  "offset_text u east \<longleftrightarrow>
     (u = ''Z'' \<or> u = ''z'') \<and> east = 0 \<or>
     (\<exists>sign h m. u = [sign] @ show_pad 2 h @ '':'' @ show_pad 2 m \<and>
        0 \<le> h \<and> h \<le> 23 \<and> 0 \<le> m \<and> m \<le> 59 \<and>
        (sign = CHR ''+'' \<and> east = h * 3600 + m * 60 \<or> sign = CHR ''-'' \<and> east = - (h * 3600 + m * 60)))"

lemma read_offset_Inr:
  assumes "read_offset s i = Inr (east, j)"
  shows "\<exists>u. stands s i u j \<and> offset_text u east"
proof -
  obtain sign i1 where sign: "stands s i [sign] i1" "sign \<in> set ''Zz+-''"
    and r: "(if sign = CHR ''Z'' \<or> sign = CHR ''z'' then Inr (0, i1)
       else
         and_then (read_field s 0 23 ''an offset hour from 00 to 23'' i1) (\<lambda>(oh, i).
         and_then (read_any s '':'' (quoted '':'' @ '' in the offset'') i) (\<lambda>(_, i).
         and_then (read_field s 0 59 ''an offset minute from 00 to 59'' i) (\<lambda>(om, i).
           let east = oh * 3600 + om * 60 in
           Inr (if sign = CHR ''-'' then - east else east, i))))) = Inr (east, j)"
    using assms unfolding read_offset_def by (auto dest!: read_any_iff [THEN iffD1])
  show ?thesis
  proof (cases "sign = CHR ''Z'' \<or> sign = CHR ''z''")
    case True
    with r sign show ?thesis unfolding offset_text_def by auto
  next
    case False
    obtain h m i2 i3 where p: "0 \<le> h" "h \<le> 23" "stands s i1 (show_pad 2 h) i2" "stands s i2 '':'' i3"
      "0 \<le> m" "m \<le> 59" "stands s i3 (show_pad 2 m) j"
      "east = (if sign = CHR ''-'' then - (h * 3600 + m * 60) else h * 3600 + m * 60)"
      using r False by (auto simp: Let_def dest!: reads_Inr split: if_splits)
    have "stands s i ([sign] @ show_pad 2 h @ '':'' @ show_pad 2 m) j"
      unfolding stands_append using sign(1) p by blast
    moreover have "offset_text ([sign] @ show_pad 2 h @ '':'' @ show_pad 2 m) east"
      unfolding offset_text_def using p sign(2) False by auto
    ultimately show ?thesis by blast
  qed
qed

lemma read_offset_read:
  assumes "offset_text u east" "stands s i u j"
  shows "read_offset s i = Inr (east, j)"
  using assms(1) unfolding offset_text_def
proof (elim disjE conjE exE)
  assume "u = ''Z''" "east = 0"
  moreover have "read_any s ''Zz+-'' e i = Inr (CHR ''Z'', j)" for e
    using assms(2) calculation by (simp add: read_any_iff)
  ultimately show ?thesis by (simp add: read_offset_def)
next
  assume "u = ''z''" "east = 0"
  moreover have "read_any s ''Zz+-'' e i = Inr (CHR ''z'', j)" for e
    using assms(2) calculation by (simp add: read_any_iff)
  ultimately show ?thesis by (simp add: read_offset_def)
next
  fix sign h m
  assume u: "u = [sign] @ show_pad 2 h @ '':'' @ show_pad 2 m"
    and b: "0 \<le> h" "h \<le> 23" "0 \<le> m" "m \<le> 59" and sign: "sign = CHR ''+''" "east = h * 3600 + m * 60"
  obtain i1 i2 i3 where p: "stands s i [sign] i1" "stands s i1 (show_pad 2 h) i2" "stands s i2 '':'' i3"
    "stands s i3 (show_pad 2 m) j"
    using assms(2) unfolding u stands_append by blast
  have "read_any s ''Zz+-'' e i = Inr (sign, i1)" "read_any s '':'' e i2 = Inr (CHR '':'', i3)" for e
    using p sign by (simp_all add: read_any_iff)
  moreover have "read_field s 0 23 e i1 = Inr (h, i2)" "read_field s 0 59 e i3 = Inr (m, j)" for e
    using p b by (simp_all add: read_field_read)
  ultimately show ?thesis using sign by (simp add: read_offset_def)
next
  fix sign h m
  assume u: "u = [sign] @ show_pad 2 h @ '':'' @ show_pad 2 m"
    and b: "0 \<le> h" "h \<le> 23" "0 \<le> m" "m \<le> 59" and sign: "sign = CHR ''-''" "east = - (h * 3600 + m * 60)"
  obtain i1 i2 i3 where p: "stands s i [sign] i1" "stands s i1 (show_pad 2 h) i2" "stands s i2 '':'' i3"
    "stands s i3 (show_pad 2 m) j"
    using assms(2) unfolding u stands_append by blast
  have "read_any s ''Zz+-'' e i = Inr (sign, i1)" "read_any s '':'' e i2 = Inr (CHR '':'', i3)" for e
    using p sign by (simp_all add: read_any_iff)
  moreover have "read_field s 0 23 e i1 = Inr (h, i2)" "read_field s 0 59 e i3 = Inr (m, j)" for e
    using p b by (simp_all add: read_field_read)
  ultimately show ?thesis using sign by (simp add: read_offset_def)
qed

lemma offset_text_start:
  "offset_text u east \<Longrightarrow> \<exists>c v. u = c # v \<and> c \<noteq> CHR ''.'' \<and> \<not> is_digit c"
  unfolding offset_text_def by (elim disjE exE conjE) (simp_all add: is_digit_def)

text \<open>\<open>names_instant s t\<close>: \<open>s\<close> is a civil date and time and an offset, and \<open>t\<close> is that many
  seconds before the civil reading.\<close>

definition names_instant :: "str \<Rightarrow> Timestamp \<Rightarrow> bool" where
  "names_instant s t \<longleftrightarrow> timestamp_ok t \<and>
     (\<exists>u f x v east. s = u @ v \<and> date_time_text u f x \<and> offset_text v east \<and>
        seconds t = date_days (dt_date x) * DAY + seconds_of_day (dt_time x) - east \<and>
        nanoseconds t = nanosecond (dt_time x))"

lemma nanosecond_bounds: "date_time_ok x \<Longrightarrow> 0 \<le> nanosecond (dt_time x) \<and> nanosecond (dt_time x) < NANOS_PER_SECOND"
  by (cases x; cases "dt_time x") auto

lemma timestamp_from_str_iff: "timestamp_from_str s = Inr t \<longleftrightarrow> names_instant s t"
proof
  assume "timestamp_from_str s = Inr t"
  then obtain x i east where x: "read_date_time s 0 = Inr (x, i)"
    and east: "read_offset s i = Inr (east, length s)"
    and t: "from_unix (date_days (dt_date x) * DAY + seconds_of_day (dt_time x) - east)
              (nanosecond (dt_time x)) = Inr t"
    by (auto simp: timestamp_from_str_def read_end_iff Let_def map_err_Inr_iff)
  obtain u f where u: "stands s 0 u i" "date_time_text u f x" using read_date_time_denotes [OF x] by blast
  obtain v where v: "stands s i v (length s)" "offset_text v east" using read_offset_Inr [OF east] by blast
  have "s = u @ v" using u(1) v(1) stands_append [of s 0 u v "length s"] by (metis stands_whole)
  moreover have "0 \<le> nanosecond (dt_time x)" using u(2) nanosecond_bounds by (simp add: date_time_text_def)
  moreover have "timestamp_ok t" "nanoseconds t = nanosecond (dt_time x)"
    "seconds t = date_days (dt_date x) * DAY + seconds_of_day (dt_time x) - east"
    using t calculation(2) by (auto simp: from_unix_def split: if_splits)
  ultimately show "names_instant s t" unfolding names_instant_def using u(2) v(2) by blast
next
  assume "names_instant s t"
  then obtain u f x v east where s: "s = u @ v" and u: "date_time_text u f x" and v: "offset_text v east"
    and t: "timestamp_ok t" "seconds t = date_days (dt_date x) * DAY + seconds_of_day (dt_time x) - east"
      "nanoseconds t = nanosecond (dt_time x)"
    unfolding names_instant_def by blast
  obtain c w where c: "v = c # w" "c \<noteq> CHR ''.''" "\<not> is_digit c" using offset_text_start [OF v] by blast
  obtain i where p: "stands s 0 u i" "stands s i v (length s)"
    using stands_append [of s 0 u v "length s"] stands_whole [of s "u @ v"] s by blast
  have "at s i = Some c" using p(2) c(1) by (simp add: stands_Cons)
  then have "fraction_ends s i f" using c(2,3) by (simp add: fraction_ends_def at_digit_def)
  then have "read_date_time s 0 = Inr (x, i)" using read_date_time_text [OF u p(1)] by simp
  moreover have "read_offset s i = Inr (east, length s)" by (rule read_offset_read [OF v p(2)])
  moreover have "from_unix (date_days (dt_date x) * DAY + seconds_of_day (dt_time x) - east)
    (nanosecond (dt_time x)) = Inr t"
    using t by (cases t) (auto simp: from_unix_def)
  ultimately show "timestamp_from_str s = Inr t"
    by (simp add: timestamp_from_str_def read_end_def Let_def)
qed

lemma names_show_timestamp:
  assumes "timestamp_ok t"
  shows "names_instant (show_timestamp t) t"
proof -
  note spelled = show_date_time_text [OF utc_civil(1) [OF assms]]
  have "offset_text ''Z'' 0" by (simp add: offset_text_def)
  moreover have "seconds t = date_days (dt_date (utc t)) * DAY + seconds_of_day (dt_time (utc t)) - 0"
    using utc_civil(2) [OF assms] by simp
  ultimately show ?thesis
    unfolding names_instant_def show_timestamp_def using spelled assms utc_civil(3) [OF assms] by metis
qed

section \<open>Refusals\<close>

text \<open>\<open>points s r\<close>: a refusal of \<open>r\<close> is at a position of the text. \<open>cursor s r\<close>: and a
  success leaves the cursor at one.\<close>

definition points :: "str \<Rightarrow> value_error + 'a \<Rightarrow> bool" where
  "points s r \<longleftrightarrow> (\<forall>e. r = Inl e \<longrightarrow> (\<exists>k x. e = Unparsed k x \<and> k \<le> length s))"

definition cursor :: "str \<Rightarrow> value_error + ('a \<times> nat) \<Rightarrow> bool" where
  "cursor s r \<longleftrightarrow> points s r \<and> (\<forall>v j. r = Inr (v, j) \<longrightarrow> j \<le> length s)"

lemma points_Inr [simp]: "points s (Inr v)"
  by (simp add: points_def)

lemma points_refuse [simp]: "points s (refuse k x) \<longleftrightarrow> k \<le> length s"
  by (auto simp: points_def refuse_def)

lemma cursor_refuse [simp]: "cursor s (refuse k x) \<longleftrightarrow> k \<le> length s"
  by (auto simp: cursor_def refuse_def points_def)

lemma cursor_Inr [simp]: "cursor s (Inr (v, j)) \<longleftrightarrow> j \<le> length s"
  by (simp add: cursor_def)

lemma points_and_then:
  "cursor s r \<Longrightarrow> (\<And>v j. r = Inr (v, j) \<Longrightarrow> j \<le> length s \<Longrightarrow> points s (f v j)) \<Longrightarrow>
   points s (and_then r (\<lambda>(v, j). f v j))"
  by (cases r) (auto simp: cursor_def points_def)

lemma cursor_and_then:
  "cursor s r \<Longrightarrow> (\<And>v j. r = Inr (v, j) \<Longrightarrow> j \<le> length s \<Longrightarrow> cursor s (f v j)) \<Longrightarrow>
   cursor s (and_then r (\<lambda>(v, j). f v j))"
  by (cases r) (auto simp: cursor_def points_def)

lemma read_any_cursor: "i \<le> length s \<Longrightarrow> cursor s (read_any s cs e i)"
  by (auto simp: read_any_def at_def split: option.splits if_splits)

lemma digits_cursor: "i \<le> length s \<Longrightarrow> cursor s (digits s n e i)"
  by (auto simp: digits_def Let_def)

lemma read_field_cursor: "i \<le> length s \<Longrightarrow> cursor s (read_field s low high e i)"
  unfolding read_field_def by (rule cursor_and_then [OF digits_cursor]) auto

lemma skip_digits_le: "i \<le> length s \<Longrightarrow> skip_digits s i \<le> length s"
  using length_takeWhile_le [of is_digit "drop i s"] by (simp add: skip_digits_takeWhile)

lemma read_fraction_cursor: "i \<le> length s \<Longrightarrow> cursor s (read_fraction s i)"
  using skip_digits_le [of "Suc i" s]
  by (auto simp: read_fraction_def Let_def at_def split: if_splits)

lemmas cursor_intros = cursor_and_then read_any_cursor digits_cursor read_field_cursor read_fraction_cursor

lemma read_date_cursor: "i \<le> length s \<Longrightarrow> cursor s (read_date s i)"
  unfolding read_date_def by (intro cursor_intros) auto

lemma read_time_cursor: "i \<le> length s \<Longrightarrow> cursor s (read_time s i)"
  unfolding read_time_def by (intro cursor_intros) auto

lemma read_date_time_cursor: "i \<le> length s \<Longrightarrow> cursor s (read_date_time s i)"
  unfolding read_date_time_def by (intro cursor_intros read_date_cursor read_time_cursor) auto

lemma read_offset_cursor: "i \<le> length s \<Longrightarrow> cursor s (read_offset s i)"
  unfolding read_offset_def
  by (rule cursor_and_then, erule read_any_cursor) (auto intro!: cursor_intros simp: Let_def)

lemma points_end: "i \<le> length s \<Longrightarrow> points s r \<Longrightarrow> points s (and_then (read_end s e i) (\<lambda>_. r))"
  by (simp add: read_end_def refuse_def points_def)

lemma parse_points:
  "points s (date_from_str s)" "points s (time_from_str s)" "points s (date_time_from_str s)"
  "points s (timestamp_from_str s)"
  unfolding date_from_str_def time_from_str_def date_time_from_str_def timestamp_from_str_def
  by (intro points_and_then points_end read_date_cursor read_time_cursor read_date_time_cursor
      read_offset_cursor; simp add: points_def map_err_Inl_iff Let_def)+

section \<open>Order\<close>

text \<open>The derived orders: lexicographic in the fields, in the order they are declared.\<close>

definition date_fields :: "Date \<Rightarrow> int \<times> int \<times> int" where
  "date_fields d = (year d, month d, day d)"

instantiation Date :: linorder
begin

definition less_eq_Date :: "Date \<Rightarrow> Date \<Rightarrow> bool" where
  "less_eq_Date d e \<longleftrightarrow> date_fields d \<le> date_fields e"

definition less_Date :: "Date \<Rightarrow> Date \<Rightarrow> bool" where
  "less_Date d e \<longleftrightarrow> date_fields d < date_fields e"

instance
  by standard (auto simp: less_eq_Date_def less_Date_def date_fields_def Date.expand)

end

definition time_fields :: "Time \<Rightarrow> int \<times> int \<times> int \<times> int" where
  "time_fields t = (hour t, minute t, second t, nanosecond t)"

instantiation Time :: linorder
begin

definition less_eq_Time :: "Time \<Rightarrow> Time \<Rightarrow> bool" where
  "less_eq_Time t u \<longleftrightarrow> time_fields t \<le> time_fields u"

definition less_Time :: "Time \<Rightarrow> Time \<Rightarrow> bool" where
  "less_Time t u \<longleftrightarrow> time_fields t < time_fields u"

instance
  by standard (auto simp: less_eq_Time_def less_Time_def time_fields_def Time.expand)

end

definition date_time_fields :: "DateTime \<Rightarrow> Date \<times> Time" where
  "date_time_fields x = (dt_date x, dt_time x)"

instantiation DateTime :: linorder
begin

definition less_eq_DateTime :: "DateTime \<Rightarrow> DateTime \<Rightarrow> bool" where
  "less_eq_DateTime x y \<longleftrightarrow> date_time_fields x \<le> date_time_fields y"

definition less_DateTime :: "DateTime \<Rightarrow> DateTime \<Rightarrow> bool" where
  "less_DateTime x y \<longleftrightarrow> date_time_fields x < date_time_fields y"

instance
  by standard (auto simp: less_eq_DateTime_def less_DateTime_def date_time_fields_def DateTime.expand)

end

definition timestamp_fields :: "Timestamp \<Rightarrow> int \<times> int" where
  "timestamp_fields t = (seconds t, nanoseconds t)"

instantiation Timestamp :: linorder
begin

definition less_eq_Timestamp :: "Timestamp \<Rightarrow> Timestamp \<Rightarrow> bool" where
  "less_eq_Timestamp t u \<longleftrightarrow> timestamp_fields t \<le> timestamp_fields u"

definition less_Timestamp :: "Timestamp \<Rightarrow> Timestamp \<Rightarrow> bool" where
  "less_Timestamp t u \<longleftrightarrow> timestamp_fields t < timestamp_fields u"

instance
  by standard (auto simp: less_eq_Timestamp_def less_Timestamp_def timestamp_fields_def Timestamp.expand)

end

lemma Date_less_days: "date_ok d \<Longrightarrow> date_ok e \<Longrightarrow> d < e \<longleftrightarrow> date_days d < date_days e"
  by (auto simp: date_days_less less_Date_def date_fields_def civil_less_def)

text \<open>The clock's order is the order of the seconds of the day, then of the nanoseconds.\<close>

lemma Time_less_seconds:
  assumes "time_ok t" "time_ok u"
  shows "t < u \<longleftrightarrow> seconds_of_day t < seconds_of_day u \<or>
           seconds_of_day t = seconds_of_day u \<and> nanosecond t < nanosecond u"
  using assms by (cases t; cases u) (auto simp: less_Time_def time_fields_def seconds_of_day_def)

lemma DateTime_less_instant:
  assumes "date_time_ok x" "date_time_ok y"
  shows "x < y \<longleftrightarrow> instant x < instant y"
proof -
  obtain d t where x: "x = DateTime d t" by (cases x)
  obtain e u where y: "y = DateTime e u" by (cases y)
  have ok: "date_ok d" "time_ok t" "date_ok e" "time_ok u" using assms x y by simp_all
  have b: "0 \<le> seconds_of_day t" "seconds_of_day t < 86400" "0 \<le> seconds_of_day u" "seconds_of_day u < 86400"
    "0 \<le> nanosecond t" "nanosecond t < 1000000000" "0 \<le> nanosecond u" "nanosecond u < 1000000000"
    using seconds_of_day_bounds [OF ok(2)] seconds_of_day_bounds [OF ok(4)] nanosecond_bounds [OF assms(1)]
      nanosecond_bounds [OF assms(2)] x y by (simp_all add: DAY_def NANOS_PER_SECOND_def)
  have eq: "d = e \<longleftrightarrow> date_days d = date_days e" using from_days_date_days ok by metis
  have "x < y \<longleftrightarrow> d < e \<or> d = e \<and> t < u" by (auto simp: less_DateTime_def date_time_fields_def x y)
  also have "\<dots> \<longleftrightarrow> date_days d < date_days e \<or> date_days d = date_days e \<and>
      (seconds_of_day t < seconds_of_day u \<or> seconds_of_day t = seconds_of_day u \<and> nanosecond t < nanosecond u)"
    using Date_less_days ok Time_less_seconds eq by simp
  also have "\<dots> \<longleftrightarrow> instant x < instant y"
    unfolding instant_def DAY_def NANOS_PER_SECOND_def x y using b by (auto simp: algebra_simps)
  finally show ?thesis .
qed

section \<open>Properties\<close>

text \<open>A text is a date's exactly when it is what \<open>Display\<close> writes for it: reading and
  writing are inverse, and nothing but a day of the calendar in the years 0000 to 9999 is
  read.\<close>

theorem dates_are_their_text: "date_from_str s = Inr d \<longleftrightarrow> date_ok d \<and> s = show_date d"
  by (rule date_from_str_iff)

text \<open>\<open>DateTime\<close> reads its grammar, and the text written for a civil date and time reads
  back as it, exactly when it is one.\<close>

theorem date_times_round_trip:
  "(date_time_from_str s = Inr x \<longleftrightarrow> (\<exists>f. date_time_text s f x)) \<and>
   (date_time_from_str (show_date_time x) = Inr x \<longleftrightarrow> date_time_ok x)"
proof -
  have "(\<exists>f. date_time_text (show_date_time x) f x) \<longleftrightarrow> date_time_ok x"
    using show_date_time_text by (metis date_time_text_def)
  then show ?thesis by (simp add: date_time_from_str_iff)
qed

text \<open>C31: a timestamp's text names the instant: the seconds of its civil reading less the
  offset it spells; the text written for a timestamp reads back as it.\<close>

theorem timestamps_name_their_instant:
  "(timestamp_from_str s = Inr t \<longleftrightarrow> names_instant s t) \<and>
   (timestamp_from_str (show_timestamp t) = Inr t \<longleftrightarrow> timestamp_ok t)"
proof -
  have "names_instant (show_timestamp t) t \<longleftrightarrow> timestamp_ok t"
    using names_show_timestamp by (auto simp: names_instant_def)
  then show ?thesis by (simp add: timestamp_from_str_iff)
qed

text \<open>Every refusal of the date and time readers is at a byte offset of the text.\<close>

theorem time_refusals_point_into_the_text:
  "points s (date_from_str s) \<and> points s (time_from_str s) \<and> points s (date_time_from_str s) \<and>
   points s (timestamp_from_str s)"
  using parse_points by blast

text \<open>The UTC reading of a timestamp is the civil date and time at its seconds, and the
  derived order of timestamps is the order of their civil readings.\<close>

theorem utc_reads_the_instant:
  assumes "timestamp_ok t" "timestamp_ok u"
  shows "date_time_ok (utc t) \<and>
         instant (utc t) = seconds t * NANOS_PER_SECOND + nanoseconds t \<and>
         (t < u \<longleftrightarrow> utc t < utc u)"
proof -
  have ok: "date_time_ok (utc t)" by (rule utc_civil(1) [OF assms(1)])
  have t: "instant (utc t) = seconds t * NANOS_PER_SECOND + nanoseconds t"
    unfolding instant_def by (simp add: utc_civil(2,3) [OF assms(1)])
  have u: "instant (utc u) = seconds u * NANOS_PER_SECOND + nanoseconds u"
    unfolding instant_def by (simp add: utc_civil(2,3) [OF assms(2)])
  have b: "0 \<le> nanoseconds t" "nanoseconds t < 1000000000" "0 \<le> nanoseconds u" "nanoseconds u < 1000000000"
    using assms by (cases t; cases u; simp add: NANOS_PER_SECOND_def)+
  have "t < u \<longleftrightarrow> seconds t < seconds u \<or> seconds t = seconds u \<and> nanoseconds t < nanoseconds u"
    by (auto simp: less_Timestamp_def timestamp_fields_def)
  also have "\<dots> \<longleftrightarrow> instant (utc t) < instant (utc u)"
    unfolding t u NANOS_PER_SECOND_def using b by auto
  finally show ?thesis
    using DateTime_less_instant [OF ok utc_civil(1) [OF assms(2)]] ok t by simp
qed

theorem utc_reads_the_instant_witness:
  "Timestamp (- 1) 500000000 < Timestamp 0 0 \<and>
   (Timestamp (- 1) 500000000 < Timestamp 0 0 \<longleftrightarrow> utc (Timestamp (- 1) 500000000) < utc (Timestamp 0 0))"
  using utc_reads_the_instant [of "Timestamp (- 1) 500000000" "Timestamp 0 0"]
  by (simp add: less_Timestamp_def timestamp_fields_def FIRST_DAY_def LAST_DAY_def DAY_def NANOS_PER_SECOND_def)

end
