(* ===== verification/Spans.thy ===== *)
theory Spans
  imports Times
begin

text \<open>
  \<open>Span\<close>, a length of time in calendar units: \<open>src/crates/guatiao/src/value/span.rs\<close> and
  \<open>span/parse.rs\<close>. Its builders and accessors, the ISO 8601 text \<open>Display\<close> writes, the two
  forms \<open>from_str\<close> reads, the conversions with \<open>Duration\<close>, and what a date and a civil date
  and time make of a span (\<open>Date::checked_add\<close>, \<open>DateTime::checked_add\<close>). The \<open>u64\<close>
  magnitudes are naturals: the checked and saturating operations of the code are written out
  against \<open>U64_MAX\<close> and \<open>I64_MAX\<close>, and the unchecked additions of \<open>friendly\<close> are proved to
  stay below \<open>U64_MAX\<close>.
\<close>

section \<open>Spans\<close>

definition I64_MAX :: nat where "I64_MAX = 9223372036854775807"
definition U64_MAX :: nat where "U64_MAX = 18446744073709551615"
definition BILLION :: nat where "BILLION = 1000000000"

abbreviation (input) "years_at \<equiv> (0 :: nat)"
abbreviation (input) "months_at \<equiv> (1 :: nat)"
abbreviation (input) "weeks_at \<equiv> (2 :: nat)"
abbreviation (input) "days_at \<equiv> (3 :: nat)"
abbreviation (input) "hours_at \<equiv> (4 :: nat)"
abbreviation (input) "minutes_at \<equiv> (5 :: nat)"
abbreviation (input) "seconds_at \<equiv> (6 :: nat)"
abbreviation (input) "nanos_at \<equiv> (7 :: nat)"

datatype Span = Span (units: "nat list") (negative: bool)

definition is_zero :: "Span \<Rightarrow> bool" where
  "is_zero s \<longleftrightarrow> list_all (\<lambda>u. u = 0) (units s)"

definition normalised :: "Span \<Rightarrow> Span" where
  "normalised s = (if is_zero s then Span (units s) False else s)"

definition span_new :: Span where "span_new = Span (replicate 8 0) False"

text \<open>\<open>n.unsigned_abs().min(i64::MAX)\<close> of an \<open>i64\<close>.\<close>

definition magnitude :: "int \<Rightarrow> nat" where
  "magnitude n = min (nat \<bar>n\<bar>) I64_MAX"

definition span_with :: "Span \<Rightarrow> nat \<Rightarrow> int \<Rightarrow> Span" where
  "span_with s i n =
     normalised (Span ((units s)[i := magnitude n]) (if n \<noteq> 0 then n < 0 else negative s))"

definition signed :: "Span \<Rightarrow> nat \<Rightarrow> int" where
  "signed s i = (if negative s then - int (units s ! i) else int (units s ! i))"

definition span_nanoseconds :: "Span \<Rightarrow> int \<Rightarrow> Span" where
  "span_nanoseconds s n =
     (let m = magnitude n;
          out = span_with s nanos_at 0;
          carried = min (units out ! seconds_at + m div BILLION) U64_MAX;
          us = (units out)[seconds_at := min carried I64_MAX, nanos_at := m mod BILLION]
      in normalised (Span us (if n \<noteq> 0 then n < 0 else negative out)))"

definition span_abs :: "Span \<Rightarrow> Span" where
  "span_abs s = Span (units s) False"

definition span_negate :: "Span \<Rightarrow> Span" where
  "span_negate s = normalised (Span (units s) (\<not> negative s))"

definition from_parts :: "nat list \<Rightarrow> bool \<Rightarrow> Span" where
  "from_parts us neg = normalised (Span us neg)"

section \<open>The ISO 8601 text\<close>

definition show_unit :: "nat list \<Rightarrow> nat \<times> char \<Rightarrow> str" where
  "show_unit u p = (if u ! fst p \<noteq> 0 then show_nat (u ! fst p) @ [snd p] else [])"

definition show_span :: "Span \<Rightarrow> str" where
  "show_span s =
     (let u = units s in
      (if negative s then ''-'' else []) @ ''P'' @
      (if is_zero s then ''T0S''
       else
         concat (map (show_unit u)
           [(years_at, CHR ''Y''), (months_at, CHR ''M''), (weeks_at, CHR ''W''), (days_at, CHR ''D'')]) @
         (if list_ex (\<lambda>n. n \<noteq> 0) (drop hours_at u) then
            ''T'' @
            concat (map (show_unit u) [(hours_at, CHR ''H''), (minutes_at, CHR ''M'')]) @
            (if u ! seconds_at \<noteq> 0 \<or> u ! nanos_at \<noteq> 0
             then show_nat (u ! seconds_at) @ write_fraction (int (u ! nanos_at)) @ ''S''
             else [])
          else [])))"

section \<open>The reader\<close>

definition eat :: "str \<Rightarrow> char \<Rightarrow> nat \<Rightarrow> bool \<times> nat" where
  "eat s b i = (if at s i = Some b then (True, i + 1) else (False, i))"

function skip_spaces :: "str \<Rightarrow> nat \<Rightarrow> nat" where
  "skip_spaces s i = (if at s i = Some (CHR '' '') then skip_spaces s (i + 1) else i)"
  by pat_completeness auto
termination
  by (relation "measure (\<lambda>(s, i). length s - i)") (auto simp: at_def split: if_splits)

declare skip_spaces.simps [simp del]

text \<open>The two loops of \<open>number\<close>: the whole part, refused at its start once it passes
  \<open>i64::MAX\<close>, and at most nine digits of a fraction.\<close>

function whole_loop :: "str \<Rightarrow> nat \<Rightarrow> nat \<Rightarrow> nat \<Rightarrow> value_error + (nat \<times> nat)" where
  "whole_loop s start whole i =
     (case at s i of
        Some d \<Rightarrow>
          if is_digit d then
            let w = whole * 10 + digit_val d in
            if w > I64_MAX then refuse start ''a number no greater than 9223372036854775807''
            else whole_loop s start w (i + 1)
          else Inr (whole, i)
      | None \<Rightarrow> Inr (whole, i))"
  by pat_completeness auto
termination
  by (relation "measure (\<lambda>(s, st, w, i). length s - i)") (auto simp: at_def split: if_splits)

declare whole_loop.simps [simp del]

function nanos_loop :: "str \<Rightarrow> nat \<Rightarrow> nat \<Rightarrow> nat \<Rightarrow> value_error + (nat \<times> nat)" where
  "nanos_loop s start nanos i =
     (case at s i of
        Some d \<Rightarrow>
          if is_digit d then
            if i - start = 9 then refuse i ''no more than nine fractional digits''
            else nanos_loop s start (nanos * 10 + digit_val d) (i + 1)
          else Inr (nanos, i)
      | None \<Rightarrow> Inr (nanos, i))"
  by pat_completeness auto
termination
  by (relation "measure (\<lambda>(s, st, w, i). length s - i)") (auto simp: at_def split: if_splits)

declare nanos_loop.simps [simp del]

definition read_number :: "str \<Rightarrow> nat \<Rightarrow> value_error + ((nat \<times> nat \<times> bool) \<times> nat)" where
  "read_number s start =
     and_then (whole_loop s start 0 start) (\<lambda>(whole, i).
       if i = start then refuse i ''a number''
       else if at s i \<noteq> Some (CHR ''.'') then Inr ((whole, 0, False), i)
       else
         let from = i + 1 in
         and_then (nanos_loop s from 0 from) (\<lambda>(nanos, j).
           let n = j - from in
           if n = 0 then refuse j (''a digit after the '' @ quoted ''.'')
           else Inr ((whole, nanos * 10 ^ (9 - n), True), j)))"

text \<open>\<open>b.to_ascii_uppercase()\<close> against the designators of a part of the text.\<close>

definition upper :: "char \<Rightarrow> char" where
  "upper c = (if 97 \<le> (of_char c :: nat) \<and> (of_char c :: nat) \<le> 122
              then char_of ((of_char c :: nat) - 32) else c)"

definition date_unit :: "char option \<Rightarrow> nat option" where
  "date_unit c =
     (case map_option upper c of
        Some b \<Rightarrow>
          if b = CHR ''Y'' then Some years_at else if b = CHR ''M'' then Some months_at
          else if b = CHR ''W'' then Some weeks_at else if b = CHR ''D'' then Some days_at else None
      | None \<Rightarrow> None)"

definition time_unit :: "char option \<Rightarrow> nat option" where
  "time_unit c =
     (case map_option upper c of
        Some b \<Rightarrow>
          if b = CHR ''H'' then Some hours_at else if b = CHR ''M'' then Some minutes_at
          else if b = CHR ''S'' then Some seconds_at else None
      | None \<Rightarrow> None)"

lemma whole_loop_ge: "whole_loop s start w i = Inr (v, j) \<Longrightarrow> i \<le> j"
proof (induction s start w i rule: whole_loop.induct)
  case (1 s start w i)
  from "1.prems" show ?case
    by (subst (asm) whole_loop.simps)
      (auto simp: Let_def refuse_def split: option.splits if_splits dest!: "1.IH")
qed

lemma nanos_loop_ge: "nanos_loop s start w i = Inr (v, j) \<Longrightarrow> i \<le> j"
proof (induction s start w i rule: nanos_loop.induct)
  case (1 s start w i)
  from "1.prems" show ?case
    by (subst (asm) nanos_loop.simps)
      (auto simp: refuse_def split: option.splits if_splits dest!: "1.IH")
qed

lemma read_number_less: "read_number s i = Inr (x, j) \<Longrightarrow> i < j"
  by (auto simp: read_number_def Let_def refuse_def split: if_splits dest!: whole_loop_ge nanos_loop_ge)

lemma unit_at: "date_unit (at s j) = Some a \<Longrightarrow> j < length s" "time_unit (at s j) = Some a \<Longrightarrow> j < length s"
  by (auto simp: date_unit_def time_unit_def at_def split: option.splits if_splits)

section \<open>The ISO 8601 form\<close>

function iso_date :: "str \<Rightarrow> nat list \<Rightarrow> nat \<Rightarrow> bool \<Rightarrow> nat \<Rightarrow> value_error + ((nat list \<times> bool) \<times> nat)" where
  "iso_date s us nxt any start =
     (if at_digit s start then
        (case read_number s start of Inl e \<Rightarrow> Inl e | Inr ((n, _, fraction), i) \<Rightarrow>
          if fraction then refuse start ''a whole number: only the seconds take a fraction''
          else
            (case date_unit (at s i) of
               None \<Rightarrow> refuse i ''Y, M, W or D, or T before a time''
             | Some a \<Rightarrow>
                 if a < nxt then refuse i ''the date units in the order Y, M, W, D, each once''
                 else iso_date s (us[a := n]) (a + 1) True (i + 1)))
      else Inr ((us, any), start))"
  by pat_completeness auto
termination
  by (relation "measure (\<lambda>(s, us, nxt, any, i). length s - i)")
    (auto dest!: read_number_less unit_at)

declare iso_date.simps [simp del]

function iso_time :: "str \<Rightarrow> nat list \<Rightarrow> nat \<Rightarrow> bool \<Rightarrow> nat \<Rightarrow> value_error + ((nat list \<times> bool) \<times> nat)" where
  "iso_time s us nxt timed start =
     (if start < length s then
        (case read_number s start of Inl e \<Rightarrow> Inl e | Inr ((n, nanos, fraction), i) \<Rightarrow>
          case time_unit (at s i) of
            None \<Rightarrow> refuse i ''H, M or S''
          | Some a \<Rightarrow>
              if a < nxt then refuse i ''the time units in the order H, M, S, each once''
              else if fraction \<and> a \<noteq> seconds_at
              then refuse start ''a whole number: only the seconds take a fraction''
              else iso_time s (if a = seconds_at then us[a := n, nanos_at := nanos] else us[a := n])
                     (a + 1) True (i + 1))
      else Inr ((us, timed), start))"
  by pat_completeness auto
termination
  by (relation "measure (\<lambda>(s, us, nxt, any, i). length s - i)")
    (auto dest!: read_number_less unit_at)

declare iso_time.simps [simp del]

definition iso :: "str \<Rightarrow> nat \<Rightarrow> value_error + nat list" where
  "iso s start =
     and_then (iso_date s (replicate 8 0) 0 False start) (\<lambda>((us, any), i).
     and_then
       (if at s i = Some (CHR ''T'') \<or> at s i = Some (CHR ''t'') then
          and_then (iso_time s us hours_at False (i + 1)) (\<lambda>((us, timed), i).
            if \<not> timed then refuse i ''a time unit after T'' else Inr ((us, True), i))
        else Inr ((us, any), i))
       (\<lambda>((us, any), i).
          if i \<noteq> length s then refuse i ''nothing after the last unit''
          else if \<not> any then refuse i ''at least one unit''
          else Inr us))"

section \<open>The friendly form\<close>

definition is_letter :: "char \<Rightarrow> bool" where
  "is_letter c \<longleftrightarrow>
     65 \<le> (of_char c :: nat) \<and> (of_char c :: nat) \<le> 90 \<or>
     97 \<le> (of_char c :: nat) \<and> (of_char c :: nat) \<le> 122 \<or> 128 \<le> (of_char c :: nat)"

text \<open>The unit a run of letters spells: its slot, the nanoseconds of one and its length.\<close>

definition friendly_unit :: "str \<Rightarrow> (nat \<times> nat \<times> nat) option" where
  "friendly_unit u =
     (if u = ''y'' then Some (0, 0, 1)
      else if u = ''mo'' then Some (1, 0, 2)
      else if u = ''w'' then Some (2, 0, 1)
      else if u = ''d'' then Some (3, 0, 1)
      else if u = ''h'' then Some (4, 0, 1)
      else if u = ''m'' then Some (5, 0, 1)
      else if u = ''min'' then Some (5, 0, 3)
      else if u = ''s'' then Some (6, 0, 1)
      else if u = ''ms'' then Some (7, 1000000, 2)
      else if u = ''us'' then Some (8, 1000, 2)
      else if u = [CHR 0xC2, CHR 0xB5, CHR ''s''] then Some (8, 1000, 3)
      else if u = ''ns'' then Some (9, 1, 2)
      else None)"

text \<open>What a number and a unit do to the units read so far.\<close>

definition friendly_store ::
  "nat list \<Rightarrow> nat \<Rightarrow> nat \<Rightarrow> nat \<Rightarrow> nat \<Rightarrow> nat \<Rightarrow> value_error + nat list" where
  "friendly_store us slot per n nanos start =
     (if slot \<le> 6 then
        let us = us[slot := n] in
        Inr (if slot = 6 then us[nanos_at := us ! nanos_at + nanos] else us)
      else if n * per > U64_MAX
      then Inl (Unparsed start ''a part of a second no larger than a u64 of nanoseconds'')
      else let total = n * per in
        Inr (us[nanos_at := us ! nanos_at + total mod BILLION,
                seconds_at := us ! seconds_at + total div BILLION]))"

lemma skip_spaces_ge: "i \<le> skip_spaces s i"
proof (induction s i rule: skip_spaces.induct)
  case (1 s i)
  then show ?case by (subst skip_spaces.simps) auto
qed

function friendly_loop :: "str \<Rightarrow> nat list \<Rightarrow> bool list \<Rightarrow> nat \<Rightarrow> value_error + nat list" where
  "friendly_loop s us seen start =
     (if start < length s then
        (case read_number s start of Inl e \<Rightarrow> Inl e | Inr ((n, nanos, fraction), unit_at) \<Rightarrow>
          case friendly_unit (takeWhile is_letter (drop unit_at s)) of
            None \<Rightarrow> refuse unit_at ''a unit: y, mo, w, d, h, m, min, s, ms, us or ns''
          | Some (slot, per, len) \<Rightarrow>
              if fraction \<and> slot \<noteq> 6
              then refuse start ''a whole number: only seconds take a fraction''
              else if seen ! slot then refuse unit_at ''each unit once''
              else and_then (friendly_store us slot per n nanos start) (\<lambda>us.
                     friendly_loop s us (seen[slot := True]) (skip_spaces s (unit_at + len))))
      else Inr us)"
  by pat_completeness auto
termination
  by (relation "measure (\<lambda>(s, us, seen, i). length s - i)")
    (auto dest!: read_number_less intro!: diff_less_mono2 less_le_trans [OF _ skip_spaces_ge])

declare friendly_loop.simps [simp del]

definition friendly :: "str \<Rightarrow> nat \<Rightarrow> value_error + nat list" where
  "friendly s i0 =
     (let i = skip_spaces s i0 in
      if i = length s then refuse i ''a number and a unit, such as 1h or PT1H''
      else
        and_then (friendly_loop s (replicate 8 0) (replicate 10 False) i) (\<lambda>us.
          let secs = us ! seconds_at + us ! nanos_at div BILLION in
          if secs > I64_MAX
          then Inl (Unparsed 0 ''seconds no greater than 9223372036854775807'')
          else Inr (us[seconds_at := secs, nanos_at := us ! nanos_at mod BILLION])))"

definition is_p :: "char option \<Rightarrow> bool" where
  "is_p c \<longleftrightarrow> c = Some (CHR ''P'') \<or> c = Some (CHR ''p'')"

definition span_from_str :: "str \<Rightarrow> value_error + Span" where
  "span_from_str s =
     (let r = eat s (CHR ''-'') 0;
          neg = fst r;
          i = (if \<not> neg \<and> at s (snd r) = Some (CHR ''+'') \<and> is_p (at s 1) then snd r + 1 else snd r)
      in and_then (if is_p (at s i) then iso s (i + 1) else friendly s i)
           (\<lambda>us. Inr (from_parts us neg)))"

section \<open>Durations\<close>

text \<open>A \<open>Duration\<close> is its seconds and the nanoseconds below a second.\<close>

type_synonym duration = "nat \<times> nat"

definition span_of_duration :: "duration \<Rightarrow> Span" where
  "span_of_duration d =
     (case d of (secs, nanos) \<Rightarrow>
        from_parts ((replicate 8 0)[hours_at := secs div 3600, minutes_at := secs mod 3600 div 60,
          seconds_at := secs mod 60, nanos_at := nanos]) False)"

definition checked_add_u64 :: "nat \<Rightarrow> nat \<Rightarrow> nat option" where
  "checked_add_u64 a b = (if a + b > U64_MAX then None else Some (a + b))"

definition checked_mul_u64 :: "nat \<Rightarrow> nat \<Rightarrow> nat option" where
  "checked_mul_u64 a b = (if a * b > U64_MAX then None else Some (a * b))"

fun total_seconds :: "(nat \<times> nat) list \<Rightarrow> nat \<Rightarrow> nat option" where
  "total_seconds [] acc = Some acc"
| "total_seconds ((n, per) # ps) acc =
     (case checked_mul_u64 n per of
        None \<Rightarrow> None
      | Some m \<Rightarrow> (case checked_add_u64 acc m of None \<Rightarrow> None | Some t \<Rightarrow> total_seconds ps t))"

definition duration_of_span :: "Span \<Rightarrow> value_error + duration" where
  "duration_of_span s =
     (let u = units s in
      if negative s \<or> u ! years_at \<noteq> 0 \<or> u ! months_at \<noteq> 0 then Inl Unrepresentable
      else
        and_then
          (ok_or Unrepresentable
             (total_seconds
                [(u ! weeks_at, 7 * 86400), (u ! days_at, 86400), (u ! hours_at, 3600),
                 (u ! minutes_at, 60), (u ! seconds_at, 1)] 0))
          (\<lambda>secs. Inr (secs, u ! nanos_at)))"

section \<open>A span applied to a date\<close>

definition shifted :: "Date \<Rightarrow> Span \<Rightarrow> int \<Rightarrow> Date option" where
  "shifted d sp more_days =
     (let months = signed sp years_at * 12 + signed sp months_at;
          ym = year d * 12 + month d - 1 + months;
          y = ym div 12
      in if \<not> YEARS y then None
         else
           let m = ym mod 12 + 1;
               landed = Date y m (min (day d) (days_in_month y m));
               days = date_days landed + signed sp weeks_at * 7 + signed sp days_at + more_days
           in if days < FIRST_DAY \<or> days > LAST_DAY then None else Some (from_days days))"

definition date_checked_add :: "Date \<Rightarrow> Span \<Rightarrow> Date option" where
  "date_checked_add d sp =
     (if signed sp hours_at \<noteq> 0 \<or> signed sp minutes_at \<noteq> 0 \<or> signed sp seconds_at \<noteq> 0 \<or>
         signed sp nanos_at \<noteq> 0
      then None else shifted d sp 0)"

definition date_time_checked_add :: "DateTime \<Rightarrow> Span \<Rightarrow> DateTime option" where
  "date_time_checked_add x sp =
     (let nanos = (seconds_of_day (dt_time x) + signed sp hours_at * 3600 + signed sp minutes_at * 60
                   + signed sp seconds_at) * NANOS_PER_SECOND
                  + nanosecond (dt_time x) + signed sp nanos_at
      in case shifted (dt_date x) sp (nanos div DAY_NANOS) of
           None \<Rightarrow> None
         | Some d \<Rightarrow>
             let of_day = nanos mod DAY_NANOS in
             Some (DateTime d (from_seconds_of_day (of_day div NANOS_PER_SECOND)
                                                   (of_day mod NANOS_PER_SECOND))))"

section \<open>Numbers\<close>

lemma whole_loop_read:
  "stands s i u j \<Longrightarrow> list_all is_digit u \<Longrightarrow> \<not> at_digit s j \<Longrightarrow>
   w * 10 ^ length u + dec_val u \<le> I64_MAX \<Longrightarrow>
   whole_loop s start w i = Inr (w * 10 ^ length u + dec_val u, j)"
proof (induction u arbitrary: i w)
  case Nil
  then show ?case by (subst whole_loop.simps) (auto simp: at_digit_def split: option.splits)
next
  case (Cons c u)
  let ?w = "w * 10 + digit_val c"
  have p: "at s i = Some c" "stands s (i + 1) u j" using Cons.prems(1) by (simp_all add: stands_Cons)
  have e: "?w * 10 ^ length u + dec_val u = w * 10 ^ length (c # u) + dec_val (c # u)"
    by (simp add: dec_val_Cons algebra_simps)
  have "?w \<le> ?w * 10 ^ length u + dec_val u" by (rule trans_le_add1) simp
  then have "?w \<le> I64_MAX" using Cons.prems(4) unfolding e by (rule le_trans)
  with Cons.IH [OF p(2), of ?w] Cons.prems p e show ?case
    by (subst whole_loop.simps) simp
qed

lemma nanos_loop_read:
  "stands s i u j \<Longrightarrow> list_all is_digit u \<Longrightarrow> \<not> at_digit s j \<Longrightarrow> start \<le> i \<Longrightarrow>
   i - start + length u \<le> 9 \<Longrightarrow>
   nanos_loop s start w i = Inr (w * 10 ^ length u + dec_val u, j)"
proof (induction u arbitrary: i w)
  case Nil
  then show ?case by (subst nanos_loop.simps) (auto simp: at_digit_def split: option.splits)
next
  case (Cons c u)
  have p: "at s i = Some c" "stands s (i + 1) u j" using Cons.prems(1) by (simp_all add: stands_Cons)
  moreover have "i - start \<noteq> 9" using Cons.prems(5) by simp
  ultimately show ?case using Cons.IH [OF p(2), of "w * 10 + digit_val c"] Cons.prems
    by (subst nanos_loop.simps) (simp add: dec_val_Cons algebra_simps)
qed

lemma whole_loop_Inr:
  "whole_loop s start w i = Inr (v, j) \<Longrightarrow> w \<le> I64_MAX \<Longrightarrow> v \<le> I64_MAX"
proof (induction s start w i rule: whole_loop.induct)
  case (1 s start w i)
  from "1.prems" show ?case
    by (subst (asm) whole_loop.simps)
      (auto simp: Let_def refuse_def split: option.splits if_splits dest: "1.IH")
qed

lemma nanos_loop_Inr:
  "nanos_loop s start w i = Inr (v, j) \<Longrightarrow> start \<le> i \<Longrightarrow> i - start \<le> 9 \<Longrightarrow> w < 10 ^ (i - start) \<Longrightarrow>
   v < 10 ^ (j - start) \<and> j - start \<le> 9"
proof (induction s start w i rule: nanos_loop.induct)
  case (1 s start w i)
  show ?case
  proof (cases "at s i")
    case (Some d)
    show ?thesis
    proof (cases "is_digit d")
      case True
      have ne: "i - start \<noteq> 9"
        using "1.prems"(1) Some True by (subst (asm) nanos_loop.simps) (auto simp: refuse_def)
      then have r: "nanos_loop s start (w * 10 + digit_val d) (i + 1) = Inr (v, j)"
        using "1.prems"(1) Some True by (subst (asm) nanos_loop.simps) simp
      have "digit_val d < 10" using True by simp
      then have "w * 10 + digit_val d < 10 ^ (i + 1 - start)"
        using "1.prems"(2,4) by (simp add: Suc_diff_le)
      with "1.IH" [OF Some True ne r] "1.prems" ne show ?thesis by simp
    next
      case False
      with "1.prems" Some show ?thesis by (subst (asm) nanos_loop.simps) auto
    qed
  next
    case None
    with "1.prems" show ?thesis by (subst (asm) nanos_loop.simps) auto
  qed
qed

lemma read_number_Inr:
  assumes "read_number s i = Inr ((n, nanos, f), j)"
  shows "n \<le> I64_MAX" "nanos < BILLION" "\<not> f \<Longrightarrow> nanos = 0"
proof -
  obtain i1 where w: "whole_loop s i 0 i = Inr (n, i1)"
    using assms by (auto simp: read_number_def Let_def refuse_def split: if_splits)
  show "n \<le> I64_MAX" by (rule whole_loop_Inr [OF w]) simp
  show "\<not> f \<Longrightarrow> nanos = 0"
    using assms w by (auto simp: read_number_def Let_def refuse_def split: if_splits)
  show "nanos < BILLION"
  proof (cases f)
    case True
    then obtain v where v: "nanos_loop s (i1 + 1) 0 (i1 + 1) = Inr (v, j)"
      and nanos: "nanos = v * 10 ^ (9 - (j - (i1 + 1)))"
      using assms w by (auto simp: read_number_def Let_def refuse_def split: if_splits)
    define k where "k = j - (i1 + 1)"
    have b: "v < 10 ^ k" "k \<le> 9" using nanos_loop_Inr [OF v] by (simp_all add: k_def)
    have "nanos < 10 ^ k * 10 ^ (9 - k)" unfolding nanos k_def [symmetric] using b(1) by simp
    also have "\<dots> = 10 ^ 9" using b(2) by (simp add: power_add [symmetric])
    finally show ?thesis by (simp add: BILLION_def)
  qed (use \<open>\<not> f \<Longrightarrow> nanos = 0\<close> in \<open>simp add: BILLION_def\<close>)
qed

text \<open>The text of a whole number and a fraction reads back.\<close>

lemma read_number_read:
  assumes u: "stands s i (show_nat n @ write_fraction (int nanos)) j"
    and n: "n \<le> I64_MAX" and nanos: "nanos < BILLION" and j: "\<not> at_digit s j" "at s j \<noteq> Some (CHR ''.'')"
  shows "read_number s i = Inr ((n, nanos, nanos \<noteq> 0), j)"
proof -
  obtain i1 where p: "stands s i (show_nat n) i1" "stands s i1 (write_fraction (int nanos)) j"
    using u by (auto simp: stands_append)
  have "length (show_nat n) > 0" by simp
  then have i1: "i1 \<noteq> i" using p(1) by (auto simp: stands_def)
  have frac: "fraction_text (write_fraction (int nanos)) (int nanos)"
    by (rule fraction_text_write) (use nanos in \<open>simp_all add: NANOS_PER_SECOND_def BILLION_def\<close>)
  show ?thesis
  proof (cases "nanos = 0")
    case True
    then have "i1 = j" using p(2) by (simp add: write_fraction_def)
    moreover have "whole_loop s i 0 i = Inr (n, i1)"
      using whole_loop_read [OF p(1) show_nat_digits, of 0 i] j n calculation by simp
    ultimately show ?thesis using True j i1 by (simp add: read_number_def)
  next
    case False
    then obtain v where v: "write_fraction (int nanos) = CHR ''.'' # v" "list_all is_digit v"
      "1 \<le> length v" "length v \<le> 9" "int nanos = int (dec_val v * 10 ^ (9 - length v))"
      using frac by (auto simp: fraction_text_def)
    have q: "at s i1 = Some (CHR ''.'')" "stands s (i1 + 1) v j" using p(2) v(1) by (simp_all add: stands_Cons)
    have "whole_loop s i 0 i = Inr (n, i1)"
      using whole_loop_read [OF p(1) show_nat_digits, of 0 i] n q(1) by (simp add: at_digit_def is_digit_def)
    moreover have "nanos_loop s (i1 + 1) 0 (i1 + 1) = Inr (dec_val v, j)"
      using nanos_loop_read [OF q(2) v(2) j(1), of "i1 + 1" 0] v(4) by simp
    moreover have "j - (i1 + 1) = length v" using q(2) by (simp add: stands_def)
    moreover have "v \<noteq> []" "\<not> j \<le> Suc i1" using v(3) q(2) by (auto simp: stands_def)
    moreover have "nanos = dec_val v * 10 ^ (9 - length v)" using v(5) by (simp only: of_nat_eq_iff)
    ultimately show ?thesis using q(1) i1 False by (simp add: read_number_def)
  qed
qed

section \<open>The type invariant\<close>

fun span_ok :: "Span \<Rightarrow> bool" where
  "span_ok (Span us neg) \<longleftrightarrow>
     length us = 8 \<and> (\<forall>u\<in>set us. u \<le> I64_MAX) \<and> us ! nanos_at < BILLION \<and>
     (neg \<longrightarrow> \<not> list_all (\<lambda>u. u = 0) us)"

lemma span_ok_parts:
  "length us = 8 \<Longrightarrow> \<forall>u\<in>set us. u \<le> I64_MAX \<Longrightarrow> us ! nanos_at < BILLION \<Longrightarrow> span_ok (normalised (Span us neg))"
  by (auto simp: normalised_def is_zero_def)

lemma bounded_update: "\<forall>u\<in>set us. u \<le> m \<Longrightarrow> (n :: nat) \<le> m \<Longrightarrow> \<forall>u\<in>set (us[i := n]). u \<le> m"
  using set_update_subset_insert [of us i n] by blast

lemma magnitude_le: "magnitude n \<le> I64_MAX"
  by (simp add: magnitude_def)

lemma BILLION_I64: "n < BILLION \<Longrightarrow> n \<le> I64_MAX"
  by (simp add: BILLION_def I64_MAX_def)

lemma span_with_ok: "span_ok s \<Longrightarrow> i < nanos_at \<Longrightarrow> span_ok (span_with s i n)"
  unfolding span_with_def
  by (cases s, intro span_ok_parts bounded_update magnitude_le) auto

lemma span_nanoseconds_ok:
  assumes "span_ok s"
  shows "span_ok (span_nanoseconds s n)"
proof -
  obtain us neg where s: "s = Span us neg" by (cases s)
  define out where "out = span_with s nanos_at 0"
  have u: "units out = us[nanos_at := 0]" by (simp add: out_def span_with_def s normalised_def magnitude_def)
  have ok: "length us = 8" "\<forall>u\<in>set us. u \<le> I64_MAX" using assms s by simp_all
  have "magnitude n mod BILLION < BILLION" by (simp add: BILLION_def)
  then show ?thesis
    unfolding span_nanoseconds_def Let_def out_def [symmetric] u
    by (intro span_ok_parts bounded_update) (use ok BILLION_I64 in auto)
qed

lemma span_negate_ok: "span_ok s \<Longrightarrow> span_ok (span_negate s)"
  unfolding span_negate_def by (cases s, intro span_ok_parts) auto

lemma span_abs_ok: "span_ok s \<Longrightarrow> span_ok (span_abs s)"
  by (cases s) (simp add: span_abs_def)

lemma span_new_ok: "span_ok span_new"
  by (simp add: span_new_def I64_MAX_def BILLION_def)

definition units_ok :: "nat list \<Rightarrow> bool" where
  "units_ok us \<longleftrightarrow> length us = 8 \<and> (\<forall>u\<in>set us. u \<le> I64_MAX) \<and> us ! nanos_at < BILLION"

lemma units_ok_zero: "units_ok (replicate 8 0)"
  by (simp add: units_ok_def I64_MAX_def BILLION_def)

lemma units_ok_update: "units_ok us \<Longrightarrow> n \<le> I64_MAX \<Longrightarrow> i < nanos_at \<Longrightarrow> units_ok (us[i := n])"
  using bounded_update [of us I64_MAX n i] by (simp add: units_ok_def)

lemma units_ok_nanos: "units_ok us \<Longrightarrow> n < BILLION \<Longrightarrow> units_ok (us[nanos_at := n])"
  using bounded_update [of us I64_MAX n nanos_at] BILLION_I64 by (simp add: units_ok_def)

lemma units_ok_span: "units_ok us \<Longrightarrow> span_ok (from_parts us neg)"
  unfolding units_ok_def from_parts_def using span_ok_parts by blast

lemma date_unit_less: "date_unit c = Some a \<Longrightarrow> a < hours_at"
  by (auto simp: date_unit_def split: option.splits if_splits)

lemma time_unit_less: "time_unit c = Some a \<Longrightarrow> a < nanos_at"
  by (auto simp: time_unit_def split: option.splits if_splits)

lemma iso_date_ok: "iso_date s us nxt any i = Inr ((us', any'), j) \<Longrightarrow> units_ok us \<Longrightarrow> units_ok us'"
proof (induction s us nxt any i rule: iso_date.induct)
  case (1 s us nxt any i)
  show ?case
  proof (cases "at_digit s i")
    case True
    obtain n nanos k where r: "read_number s i = Inr ((n, nanos, False), k)"
      using "1.prems"(1) True
      by (subst (asm) iso_date.simps) (auto simp: refuse_def split: sum.splits if_splits)
    obtain a where a: "date_unit (at s k) = Some a" "\<not> a < nxt"
      and run: "iso_date s (us[a := n]) (a + 1) True (k + 1) = Inr ((us', any'), j)"
      using "1.prems"(1) True r
      by (subst (asm) iso_date.simps) (auto simp: refuse_def split: option.splits if_splits)
    have "units_ok (us[a := n])"
      using "1.prems"(2) read_number_Inr(1) [OF r] date_unit_less [OF a(1)] by (intro units_ok_update) auto
    with "1.IH" [OF True r refl refl refl _ a run] show ?thesis by simp
  next
    case False
    with "1.prems" show ?thesis by (subst (asm) iso_date.simps) simp
  qed
qed

lemma iso_time_ok: "iso_time s us nxt timed i = Inr ((us', timed'), j) \<Longrightarrow> units_ok us \<Longrightarrow> units_ok us'"
proof (induction s us nxt timed i rule: iso_time.induct)
  case (1 s us nxt timed i)
  show ?case
  proof (cases "i < length s")
    case True
    obtain n nanos f k where r: "read_number s i = Inr ((n, nanos, f), k)"
      using "1.prems"(1) True
      by (subst (asm) iso_time.simps) (auto simp: refuse_def split: sum.splits if_splits)
    obtain a where a: "time_unit (at s k) = Some a" "\<not> a < nxt" "\<not> (f \<and> a \<noteq> seconds_at)"
      and run: "iso_time s (if a = seconds_at then us[a := n, nanos_at := nanos] else us[a := n])
                  (a + 1) True (k + 1) = Inr ((us', timed'), j)"
      using "1.prems"(1) True r
      by (subst (asm) iso_time.simps) (auto simp: refuse_def split: option.splits if_splits)
    have "units_ok (us[a := n])"
      using "1.prems"(2) read_number_Inr(1) [OF r] time_unit_less [OF a(1)] by (intro units_ok_update) auto
    then have "units_ok (if a = seconds_at then us[a := n, nanos_at := nanos] else us[a := n])"
      using units_ok_nanos [OF _ read_number_Inr(2) [OF r]] by auto
    with "1.IH" [OF True r refl refl refl a run] show ?thesis by simp
  next
    case False
    with "1.prems" show ?thesis by (subst (asm) iso_time.simps) simp
  qed
qed

lemma iso_ok: "iso s i = Inr us \<Longrightarrow> units_ok us"
  using iso_date_ok [OF _ units_ok_zero] iso_time_ok
  by (auto simp: iso_def refuse_def split: if_splits)

text \<open>The friendly form: every unit is written once, so the seconds and nanoseconds gathered
  from the parts of a second stay far below \<open>u64::MAX\<close>, where the code adds unchecked.\<close>

definition MOST_SECONDS :: nat where "MOST_SECONDS = 18446744073"

definition friendly_inv :: "nat list \<Rightarrow> bool list \<Rightarrow> bool" where
  "friendly_inv us seen \<longleftrightarrow>
     length us = 8 \<and> length seen = 10 \<and> (\<forall>i<6. us ! i \<le> I64_MAX) \<and>
     us ! 6 \<le> I64_MAX + MOST_SECONDS * (of_bool (seen ! 7) + of_bool (seen ! 8) + of_bool (seen ! 9)) \<and>
     us ! 7 \<le> BILLION * (of_bool (seen ! 6) + of_bool (seen ! 7) + of_bool (seen ! 8) + of_bool (seen ! 9))"

lemma friendly_unit_slot:
  "friendly_unit u = Some (slot, per, len) \<Longrightarrow>
   slot < 6 \<or> slot = 6 \<or> slot = 7 \<or> slot = 8 \<or> slot = 9"
  by (auto simp: friendly_unit_def split: if_splits)

lemma u64_parts: "t \<le> U64_MAX \<Longrightarrow> t div BILLION \<le> MOST_SECONDS" "t mod BILLION < BILLION"
  using div_le_mono [of t U64_MAX BILLION] by (simp_all add: U64_MAX_def BILLION_def MOST_SECONDS_def)

lemma friendly_store_inv:
  assumes inv: "friendly_inv us seen" and slot: "friendly_unit u = Some (slot, per, len)"
    and unseen: "\<not> seen ! slot" and n: "n \<le> I64_MAX" "nanos < BILLION"
    and r: "friendly_store us slot per n nanos start = Inr us'"
  shows "friendly_inv us' (seen[slot := True])"
proof -
  consider "slot < 6" | "slot = 6" | "slot = 7 \<or> slot = 8 \<or> slot = 9"
    using friendly_unit_slot [OF slot] by blast
  then show ?thesis
  proof cases
    case 1
    then have "us' = us[slot := n]" using r by (simp add: friendly_store_def)
    with 1 inv n show ?thesis by (auto simp: friendly_inv_def nth_list_update)
  next
    case 2
    then have "us' = us[6 := n, 7 := us ! 7 + nanos]" using r by (simp add: friendly_store_def Let_def)
    with 2 inv n unseen show ?thesis by (auto simp: friendly_inv_def)
  next
    case 3
    then have t: "n * per \<le> U64_MAX"
      and us': "us' = us[7 := us ! 7 + n * per mod BILLION, 6 := us ! 6 + n * per div BILLION]"
      using r by (auto simp: friendly_store_def Let_def split: if_splits)
    show ?thesis
      using 3 inv unseen u64_parts(1) [OF t] u64_parts(2) [of "n * per"] unfolding us'
      by (elim disjE) (simp_all add: friendly_inv_def)
  qed
qed

lemma friendly_inv_bounds:
  assumes "friendly_inv us seen"
  shows "us ! seconds_at + us ! nanos_at div BILLION \<le> U64_MAX" "us ! nanos_at \<le> U64_MAX"
proof -
  have a: "us ! 6 \<le> I64_MAX + MOST_SECONDS * 3"
    using assms unfolding friendly_inv_def
    by (elim conjE, erule_tac le_trans) (simp add: MOST_SECONDS_def of_bool_def)
  have b: "us ! 7 \<le> BILLION * 4"
    using assms unfolding friendly_inv_def
    by (elim conjE, erule_tac le_trans) (simp add: BILLION_def of_bool_def)
  then have "us ! 7 div BILLION \<le> 4" using div_le_mono [OF b, of BILLION] by (simp add: BILLION_def)
  with a show "us ! seconds_at + us ! nanos_at div BILLION \<le> U64_MAX"
    by (simp add: I64_MAX_def U64_MAX_def MOST_SECONDS_def)
  from b show "us ! nanos_at \<le> U64_MAX" by (simp add: BILLION_def U64_MAX_def)
qed

lemma friendly_loop_inv:
  "friendly_loop s us seen i = Inr us' \<Longrightarrow> friendly_inv us seen \<Longrightarrow> \<exists>seen'. friendly_inv us' seen'"
proof (induction s us seen i rule: friendly_loop.induct)
  case (1 s us seen i)
  show ?case
  proof (cases "i < length s")
    case True
    obtain n nanos f k where r: "read_number s i = Inr ((n, nanos, f), k)"
      using "1.prems"(1) True
      by (subst (asm) friendly_loop.simps) (auto simp: refuse_def split: sum.splits if_splits)
    obtain slot per len us1 where u: "friendly_unit (takeWhile is_letter (drop k s)) = Some (slot, per, len)"
      "\<not> (f \<and> slot \<noteq> 6)" "\<not> seen ! slot" and store: "friendly_store us slot per n nanos i = Inr us1"
      and run: "friendly_loop s us1 (seen[slot := True]) (skip_spaces s (k + len)) = Inr us'"
      using "1.prems"(1) True r
      by (subst (asm) friendly_loop.simps) (auto simp: refuse_def split: option.splits if_splits)
    from friendly_store_inv [OF "1.prems"(2) u(1,3) read_number_Inr(1,2) [OF r] store]
    show ?thesis using "1.IH" [OF True r refl refl refl u(1) refl refl u(2,3) store run] by blast
  next
    case False
    with "1.prems" show ?thesis by (subst (asm) friendly_loop.simps) auto
  qed
qed

lemma friendly_ok: 
  assumes "friendly s i = Inr us"
  shows "units_ok us"
proof -
  obtain k us0 where run: "friendly_loop s (replicate 8 0) (replicate 10 False) k = Inr us0"
    and secs: "us0 ! seconds_at + us0 ! nanos_at div BILLION \<le> I64_MAX"
    and us: "us = us0[seconds_at := us0 ! seconds_at + us0 ! nanos_at div BILLION,
                      nanos_at := us0 ! nanos_at mod BILLION]"
    using assms by (auto simp: friendly_def Let_def refuse_def split: if_splits)
  have "friendly_inv (replicate 8 0) (replicate 10 False)"
    by (simp add: friendly_inv_def)
  from friendly_loop_inv [OF run this] obtain seen where inv: "friendly_inv us0 seen" by blast
  have len: "length us0 = 8" and small: "\<forall>i<6. us0 ! i \<le> I64_MAX" using inv by (auto simp: friendly_inv_def)
  have "us ! i \<le> I64_MAX" if i8: "i < 8" for i
  proof -
    consider "i < 6" | "i = 6" | "i = 7" using i8 by linarith
    then show ?thesis
    proof cases
      case 3
      have "us0 ! 7 mod BILLION < BILLION" by (simp add: BILLION_def)
      with 3 len us show ?thesis using BILLION_I64 by simp
    qed (use us len small secs in auto)
  qed
  then have "\<forall>u\<in>set us. u \<le> I64_MAX" using len us by (auto simp: in_set_conv_nth)
  moreover have "us ! nanos_at < BILLION" using us len by (simp add: BILLION_def)
  ultimately show ?thesis using len us by (simp add: units_ok_def)
qed

lemma span_from_str_ok: "span_from_str s = Inr x \<Longrightarrow> span_ok x"
  by (auto simp: span_from_str_def Let_def split: if_splits
      intro: units_ok_span dest: iso_ok friendly_ok)

section \<open>Reading the ISO 8601 text back\<close>

lemma show_nat_at_digit: "stands s i (show_nat n @ u) j \<Longrightarrow> at_digit s i"
proof -
  assume a: "stands s i (show_nat n @ u) j"
  obtain c v where c: "show_nat n = c # v" using show_nat_nonempty by (cases "show_nat n") auto
  then have "is_digit c" using show_nat_digits [of n] by simp
  moreover have "at s i = Some c" using a c by (simp add: stands_Cons)
  ultimately show ?thesis by (simp add: at_digit_def)
qed

lemma at_digit_less: "at_digit s i \<Longrightarrow> i < length s"
  by (simp add: at_digit_def at_def split: if_splits)

lemma designator:
  "date_unit (Some c) = Some a \<Longrightarrow> \<not> is_digit c \<and> c \<noteq> CHR ''.''"
  "time_unit (Some c) = Some a \<Longrightarrow> \<not> is_digit c \<and> c \<noteq> CHR ''.''"
  by (auto simp: date_unit_def time_unit_def upper_def is_digit_def split: if_splits)

text \<open>One unit of each part: written when it is not zero, read into its place.\<close>

lemma iso_date_unit:
  assumes u: "stands s i (show_unit u (a, c)) j" and c: "date_unit (Some c) = Some a"
    and n: "u ! a \<le> I64_MAX" and nxt: "nxt \<le> a" and zero: "us ! a = 0"
  shows "iso_date s us nxt any i =
         iso_date s (us[a := u ! a]) (if u ! a = 0 then nxt else a + 1) (any \<or> u ! a \<noteq> 0) j"
proof (cases "u ! a = 0")
  case True
  then have "us[a := u ! a] = us" using zero by (metis list_update_id)
  with True u show ?thesis by (simp add: show_unit_def)
next
  case False
  obtain k where p: "stands s i (show_nat (u ! a)) k" "stands s k [c] j"
    using u False by (auto simp: show_unit_def stands_append)
  have k: "at s k = Some c" "j = k + 1" using p(2) by (simp_all add: stands_Cons)
  have "read_number s i = Inr ((u ! a, 0, False), k)"
    using read_number_read [of s i "u ! a" 0 k] p(1) n k(1) designator(1) [OF c]
    by (simp add: write_fraction_def BILLION_def at_digit_def)
  moreover have "at_digit s i" using show_nat_at_digit [of s i "u ! a" "[]"] p(1) by simp
  ultimately show ?thesis using k c nxt False by (subst iso_date.simps) simp
qed

lemma iso_time_unit:
  assumes u: "stands s i (show_unit u (a, c)) j" and c: "time_unit (Some c) = Some a" and a: "a \<noteq> seconds_at"
    and n: "u ! a \<le> I64_MAX" and nxt: "nxt \<le> a" and zero: "us ! a = 0"
  shows "iso_time s us nxt timed i =
         iso_time s (us[a := u ! a]) (if u ! a = 0 then nxt else a + 1) (timed \<or> u ! a \<noteq> 0) j"
proof (cases "u ! a = 0")
  case True
  then have "us[a := u ! a] = us" using zero by (metis list_update_id)
  with True u show ?thesis by (simp add: show_unit_def)
next
  case False
  obtain k where p: "stands s i (show_nat (u ! a)) k" "stands s k [c] j"
    using u False by (auto simp: show_unit_def stands_append)
  have k: "at s k = Some c" "j = k + 1" using p(2) by (simp_all add: stands_Cons)
  have "read_number s i = Inr ((u ! a, 0, False), k)"
    using read_number_read [of s i "u ! a" 0 k] p(1) n k(1) designator(2) [OF c]
    by (simp add: write_fraction_def BILLION_def at_digit_def)
  moreover have "i < length s"
    by (rule at_digit_less, rule show_nat_at_digit [of s i "u ! a" "[]"]) (use p(1) in simp)
  ultimately show ?thesis using k c nxt False a by (subst iso_time.simps) simp
qed

lemma iso_time_seconds:
  assumes u: "stands s i (show_nat n @ write_fraction (int nanos) @ ''S'') j"
    and n: "n \<le> I64_MAX" "nanos < BILLION" and nxt: "nxt \<le> seconds_at"
  shows "iso_time s us nxt timed i = iso_time s (us[seconds_at := n, nanos_at := nanos]) 7 True j"
proof -
  obtain k where p: "stands s i (show_nat n @ write_fraction (int nanos)) k" "stands s k ''S'' j"
    using u stands_append [of s i "show_nat n @ write_fraction (int nanos)" "''S''" j] by auto
  have k: "at s k = Some (CHR ''S'')" "j = k + 1" using p(2) by (simp_all add: stands_Cons)
  have c: "time_unit (at s k) = Some seconds_at" by (simp add: k time_unit_def upper_def)
  have "read_number s i = Inr ((n, nanos, nanos \<noteq> 0), k)"
    by (rule read_number_read [OF p(1) n]) (simp_all add: k at_digit_def is_digit_def)
  moreover have "i < length s" by (rule at_digit_less [OF show_nat_at_digit [OF p(1)]])
  ultimately show ?thesis using k(2) c nxt by (subst iso_time.simps) simp
qed

lemma iso_date_stop: "\<not> at_digit s i \<Longrightarrow> iso_date s us nxt any i = Inr ((us, any), i)"
  by (subst iso_date.simps) simp

lemma iso_time_stop: "\<not> i < length s \<Longrightarrow> iso_time s us nxt any i = Inr ((us, any), i)"
  by (subst iso_time.simps) simp

definition date_part :: "nat list \<Rightarrow> str" where
  "date_part u = concat (map (show_unit u)
     [(years_at, CHR ''Y''), (months_at, CHR ''M''), (weeks_at, CHR ''W''), (days_at, CHR ''D'')])"

definition time_part :: "nat list \<Rightarrow> str" where
  "time_part u =
     concat (map (show_unit u) [(hours_at, CHR ''H''), (minutes_at, CHR ''M'')]) @
     (if u ! seconds_at \<noteq> 0 \<or> u ! nanos_at \<noteq> 0
      then show_nat (u ! seconds_at) @ write_fraction (int (u ! nanos_at)) @ ''S'' else [])"

lemma length_8: "length u = 8 \<Longrightarrow> u = [u ! 0, u ! 1, u ! 2, u ! 3, u ! 4, u ! 5, u ! 6, u ! 7]"
  by (rule nth_equalityI) (auto simp: less_Suc_eq numeral_eq_Suc)

lemma iso_date_part:
  assumes u: "units_ok u" and p: "stands s i (date_part u) j" and j: "\<not> at_digit s j"
  shows "iso_date s (replicate 8 0) 0 False i =
         Inr (([u ! 0, u ! 1, u ! 2, u ! 3, 0, 0, 0, 0], \<not> (u ! 0 = 0 \<and> u ! 1 = 0 \<and> u ! 2 = 0 \<and> u ! 3 = 0)), j)"
proof -
  obtain i1 i2 i3 where q: "stands s i (show_unit u (years_at, CHR ''Y'')) i1"
    "stands s i1 (show_unit u (months_at, CHR ''M'')) i2" "stands s i2 (show_unit u (weeks_at, CHR ''W'')) i3"
    "stands s i3 (show_unit u (days_at, CHR ''D'')) j"
    using p by (auto simp: date_part_def stands_append)
  have b: "u ! k \<le> I64_MAX" if "k < 8" for k using u that by (auto simp: units_ok_def)
  have z: "replicate 8 0 = [0, 0, 0, 0, 0, 0, 0, 0 :: nat]" by (simp add: numeral_eq_Suc)
  have d: "date_unit (Some (CHR ''Y'')) = Some 0" "date_unit (Some (CHR ''M'')) = Some 1"
    "date_unit (Some (CHR ''W'')) = Some 2" "date_unit (Some (CHR ''D'')) = Some 3"
    by (simp_all add: date_unit_def upper_def)
  define n1 where "n1 = (if u ! 0 = 0 then 0 else 0 + 1 :: nat)"
  define n2 where "n2 = (if u ! 1 = 0 then n1 else 1 + 1)"
  define n3 where "n3 = (if u ! 2 = 0 then n2 else 2 + 1)"
  have n: "n1 \<le> 1" "n2 \<le> 2" "n3 \<le> 3" by (simp_all add: n1_def n2_def n3_def)
  have "iso_date s [0, 0, 0, 0, 0, 0, 0, 0] 0 False i
      = iso_date s [u ! 0, 0, 0, 0, 0, 0, 0, 0] n1 (u ! 0 \<noteq> 0) i1"
    using iso_date_unit [OF q(1) d(1) b, of 0 "[0, 0, 0, 0, 0, 0, 0, 0]" False]
    unfolding n1_def [symmetric] by simp
  also have "\<dots> = iso_date s [u ! 0, u ! 1, 0, 0, 0, 0, 0, 0] n2 (u ! 0 \<noteq> 0 \<or> u ! 1 \<noteq> 0) i2"
    using iso_date_unit [OF q(2) d(2) b n(1), of "[u ! 0, 0, 0, 0, 0, 0, 0, 0]" "u ! 0 \<noteq> 0"]
    unfolding n2_def [symmetric] by simp
  also have "\<dots> = iso_date s [u ! 0, u ! 1, u ! 2, 0, 0, 0, 0, 0] n3 (u ! 0 \<noteq> 0 \<or> u ! 1 \<noteq> 0 \<or> u ! 2 \<noteq> 0) i3"
    using iso_date_unit [OF q(3) d(3) b n(2), of "[u ! 0, u ! 1, 0, 0, 0, 0, 0, 0]" "u ! 0 \<noteq> 0 \<or> u ! 1 \<noteq> 0"]
    unfolding n3_def [symmetric] by (simp add: disj_assoc)
  also have "\<dots> = Inr (([u ! 0, u ! 1, u ! 2, u ! 3, 0, 0, 0, 0], \<not> (u ! 0 = 0 \<and> u ! 1 = 0 \<and> u ! 2 = 0 \<and> u ! 3 = 0)), j)"
    using iso_date_unit [OF q(4) d(4) b n(3), of "[u ! 0, u ! 1, u ! 2, 0, 0, 0, 0, 0]"]
    by (auto simp: iso_date_stop [OF j] disj_assoc)
  finally show ?thesis unfolding z .
qed

lemma iso_time_part:
  assumes u: "units_ok u" and p: "stands s i (time_part u) (length s)" and us: "us = [a, b, c, d, 0, 0, 0, 0]"
    and some: "u ! 4 \<noteq> 0 \<or> u ! 5 \<noteq> 0 \<or> u ! 6 \<noteq> 0 \<or> u ! 7 \<noteq> 0"
  shows "iso_time s us hours_at False i = Inr (([a, b, c, d, u ! 4, u ! 5, u ! 6, u ! 7], True), length s)"
proof -
  define w where "w = (if u ! 6 \<noteq> 0 \<or> u ! 7 \<noteq> 0 then show_nat (u ! 6) @ write_fraction (int (u ! 7)) @ ''S'' else [])"
  obtain i1 i2 where q: "stands s i (show_unit u (hours_at, CHR ''H'')) i1"
    "stands s i1 (show_unit u (minutes_at, CHR ''M'')) i2" "stands s i2 w (length s)"
    using p by (auto simp: time_part_def stands_append w_def)
  have bd: "u ! k \<le> I64_MAX" if "k < 8" for k using u that by (auto simp: units_ok_def)
  have d4: "time_unit (Some (CHR ''H'')) = Some 4" "time_unit (Some (CHR ''M'')) = Some 5"
    by (simp_all add: time_unit_def upper_def)
  define n1 where "n1 = (if u ! 4 = 0 then 4 else 4 + 1 :: nat)"
  define n2 where "n2 = (if u ! 5 = 0 then n1 else 5 + 1)"
  have n: "n1 \<le> 5" "n2 \<le> 6" by (simp_all add: n1_def n2_def)
  have "iso_time s us 4 False i = iso_time s [a, b, c, d, u ! 4, 0, 0, 0] n1 (u ! 4 \<noteq> 0) i1"
    using iso_time_unit [OF q(1) d4(1) _ bd, of 4 us False] unfolding n1_def [symmetric] us by simp
  also have "\<dots> = iso_time s [a, b, c, d, u ! 4, u ! 5, 0, 0] n2 (u ! 4 \<noteq> 0 \<or> u ! 5 \<noteq> 0) i2"
    using iso_time_unit [OF q(2) d4(2) _ bd n(1), of "[a, b, c, d, u ! 4, 0, 0, 0]" "u ! 4 \<noteq> 0"]
    unfolding n2_def [symmetric] by simp
  also have "\<dots> = Inr (([a, b, c, d, u ! 4, u ! 5, u ! 6, u ! 7], True), length s)"
  proof (cases "u ! 6 \<noteq> 0 \<or> u ! 7 \<noteq> 0")
    case True
    then have "stands s i2 (show_nat (u ! 6) @ write_fraction (int (u ! 7)) @ ''S'') (length s)"
      using q(3) by (simp add: w_def)
    from iso_time_seconds [OF this bd _ n(2)] u show ?thesis
      by (simp add: units_ok_def iso_time_stop)
  next
    case False
    with q(3) some show ?thesis by (auto simp: w_def iso_time_stop)
  qed
  finally show ?thesis .
qed

definition span_body :: "nat list \<Rightarrow> str" where
  "span_body u =
     (if list_all (\<lambda>n. n = 0) u then ''T0S''
      else date_part u @ (if list_ex (\<lambda>n. n \<noteq> 0) (drop hours_at u) then ''T'' @ time_part u else []))"

lemma show_span_body: "show_span (Span u neg) = (if neg then ''-'' else []) @ ''P'' @ span_body u"
  by (simp add: show_span_def span_body_def is_zero_def date_part_def time_part_def)

lemma list_8_zero: "length u = 8 \<Longrightarrow> list_all (\<lambda>n. n = 0) u \<longleftrightarrow> (\<forall>i<8. u ! i = (0 :: nat))"
  by (simp add: list_all_length)

lemma iso_read_zero:
  assumes p: "stands s i ''T0S'' (length s)"
  shows "iso s i = Inr (replicate 8 0)"
proof -
  have a: "at s i = Some (CHR ''T'')" "stands s (i + 1) ''0S'' (length s)" using p by (simp_all add: stands_Cons)
  have "(replicate 8 0)[6 := 0, 7 := 0] = replicate 8 (0 :: nat)" by (simp add: numeral_eq_Suc)
  then have "iso_time s (replicate 8 0) hours_at False (i + 1) = Inr ((replicate 8 0, True), length s)"
    using iso_time_seconds [of s "i + 1" 0 0 "length s" hours_at "replicate 8 0" False] a(2)
    by (simp add: write_fraction_def I64_MAX_def BILLION_def iso_time_stop)
  then show ?thesis using a(1)
    by (simp add: iso_def iso_date_stop at_digit_def is_digit_def)
qed

lemma iso_read:
  assumes u: "units_ok u" and p: "stands s i (span_body u) (length s)"
  shows "iso s i = Inr u"
proof (cases "list_all (\<lambda>n. n = 0) u")
  case True
  then have "u = replicate 8 0" using u
    by (intro nth_equalityI) (auto simp: units_ok_def list_all_length)
  with True p show ?thesis by (simp add: span_body_def iso_read_zero)
next
  case False
  have len: "length u = 8" using u by (simp add: units_ok_def)
  then have u8: "u = [u ! 0, u ! 1, u ! 2, u ! 3, u ! 4, u ! 5, u ! 6, u ! 7]" by (rule length_8)
  have "list_ex (\<lambda>n. n \<noteq> 0) (drop 4 u) \<longleftrightarrow> list_ex (\<lambda>n. n \<noteq> 0) (drop 4 [u ! 0, u ! 1, u ! 2, u ! 3, u ! 4, u ! 5, u ! 6, u ! 7])"
    using u8 by simp
  then have timed: "list_ex (\<lambda>n. n \<noteq> 0) (drop 4 u) \<longleftrightarrow> u ! 4 \<noteq> 0 \<or> u ! 5 \<noteq> 0 \<or> u ! 6 \<noteq> 0 \<or> u ! 7 \<noteq> 0"
    by simp
  have some: "\<not> (u ! 0 = 0 \<and> u ! 1 = 0 \<and> u ! 2 = 0 \<and> u ! 3 = 0)" if "\<not> list_ex (\<lambda>n. n \<noteq> 0) (drop 4 u)"
  proof
    assume "u ! 0 = 0 \<and> u ! 1 = 0 \<and> u ! 2 = 0 \<and> u ! 3 = 0"
    then have "list_all (\<lambda>n. n = 0) [u ! 0, u ! 1, u ! 2, u ! 3, u ! 4, u ! 5, u ! 6, u ! 7]"
      using that timed by simp
    with u8 False show False by simp
  qed
  define us where "us = [u ! 0, u ! 1, u ! 2, u ! 3, 0, 0, 0, 0 :: nat]"
  define any where "any \<longleftrightarrow> \<not> (u ! 0 = 0 \<and> u ! 1 = 0 \<and> u ! 2 = 0 \<and> u ! 3 = 0)"
  show ?thesis
  proof (cases "list_ex (\<lambda>n. n \<noteq> 0) (drop 4 u)")
    case True
    obtain j where j: "stands s i (date_part u) j" "at s j = Some (CHR ''T'')"
      "stands s (j + 1) (time_part u) (length s)"
      using p False True by (auto simp: span_body_def stands_append stands_Cons)
    have "iso_date s (replicate 8 0) 0 False i = Inr ((us, any), j)"
      unfolding us_def any_def by (rule iso_date_part [OF u j(1)]) (simp add: at_digit_def j(2) is_digit_def)
    moreover have "iso_time s us hours_at False (j + 1) = Inr ((u, True), length s)"
      using iso_time_part [OF u j(3) us_def] True timed u8 by simp
    ultimately show ?thesis using j(2) by (simp add: iso_def)
  next
    case out: False
    have d: "stands s i (date_part u) (length s)" using p False out by (simp add: span_body_def)
    have e: "\<not> at_digit s (length s)" by (simp add: at_digit_def at_def)
    have "iso_date s (replicate 8 0) 0 False i = Inr ((us, any), length s)"
      unfolding us_def any_def by (rule iso_date_part [OF u d e])
    moreover have "us = u" using out timed u8 by (simp add: us_def)
    moreover have "any" using some [OF out] by (simp add: any_def)
    ultimately show ?thesis by (simp add: iso_def at_def)
  qed
qed

lemma span_round_trip:
  assumes "span_ok x"
  shows "span_from_str (show_span x) = Inr x"
proof -
  obtain u neg where x: "x = Span u neg" by (cases x)
  have u: "units_ok u" using assms x by (simp add: units_ok_def)
  define s where "s = show_span x"
  have s: "s = (if neg then ''-'' else []) @ ''P'' @ span_body u"
    by (simp add: s_def x show_span_body)
  have made: "from_parts u neg = x"
    using assms x by (auto simp: from_parts_def normalised_def is_zero_def)
  have whole: "stands s 0 s (length s)" by (simp add: stands_whole)
  show ?thesis
  proof (cases neg)
    case True
    then have "stands s 0 (''-'' @ ''P'' @ span_body u) (length s)" using whole s by simp
    then have a: "at s 0 = Some (CHR ''-'')" "at s 1 = Some (CHR ''P'')" "stands s 2 (span_body u) (length s)"
      by (simp_all add: stands_Cons numeral_2_eq_2)
    from iso_read [OF u a(3)] show ?thesis using a True made
      unfolding s_def [symmetric]
      by (simp add: span_from_str_def eat_def is_p_def numeral_2_eq_2)
  next
    case False
    then have "stands s 0 (''P'' @ span_body u) (length s)" using whole s by simp
    then have a: "at s 0 = Some (CHR ''P'')" "stands s 1 (span_body u) (length s)"
      by (simp_all add: stands_Cons)
    from iso_read [OF u a(2)] show ?thesis using a False made
      unfolding s_def [symmetric]
      by (simp add: span_from_str_def eat_def is_p_def)
  qed
qed

section \<open>Refusals\<close>

lemma whole_loop_cursor: "start \<le> length s \<Longrightarrow> i \<le> length s \<Longrightarrow> cursor s (whole_loop s start w i)"
proof (induction s start w i rule: whole_loop.induct)
  case (1 s start w i)
  show ?case
    by (subst whole_loop.simps)
      (use "1.prems" "1.IH" in \<open>auto simp: Let_def at_def split: option.splits if_splits\<close>)
qed

lemma nanos_loop_cursor: "i \<le> length s \<Longrightarrow> cursor s (nanos_loop s start w i)"
proof (induction s start w i rule: nanos_loop.induct)
  case (1 s start w i)
  show ?case
    by (subst nanos_loop.simps)
      (use "1.prems" "1.IH" in \<open>auto simp: at_def split: option.splits if_splits\<close>)
qed

lemma read_number_cursor: "i \<le> length s \<Longrightarrow> cursor s (read_number s i)"
  unfolding read_number_def
  by (rule cursor_and_then [OF whole_loop_cursor])
    (auto simp: Let_def at_def intro!: cursor_and_then nanos_loop_cursor)

lemma iso_date_cursor: "i \<le> length s \<Longrightarrow> cursor s (iso_date s us nxt any i)"
proof (induction s us nxt any i rule: iso_date.induct)
  case (1 s us nxt any i)
  have c: "cursor s (read_number s i)" by (rule read_number_cursor [OF "1.prems"])
  show ?case
  proof (cases "read_number s i")
    case (Inl e)
    with c "1.prems" show ?thesis by (subst iso_date.simps) (simp add: cursor_def points_def)
  next
    case (Inr r)
    then obtain n nanos f k where r: "read_number s i = Inr ((n, nanos, f), k)" by (cases r) auto
    have k: "k \<le> length s" using c r by simp
    show ?thesis
      by (subst iso_date.simps)
        (use "1.IH" "1.prems" k unit_at(1) [of s k] r in \<open>auto split: option.splits\<close>)
  qed
qed

lemma iso_time_cursor: "i \<le> length s \<Longrightarrow> cursor s (iso_time s us nxt timed i)"
proof (induction s us nxt timed i rule: iso_time.induct)
  case (1 s us nxt timed i)
  have c: "cursor s (read_number s i)" by (rule read_number_cursor [OF "1.prems"])
  show ?case
  proof (cases "read_number s i")
    case (Inl e)
    with c "1.prems" show ?thesis by (subst iso_time.simps) (simp add: cursor_def points_def)
  next
    case (Inr r)
    then obtain n nanos f k where r: "read_number s i = Inr ((n, nanos, f), k)" by (cases r) auto
    have k: "k \<le> length s" using c r by simp
    show ?thesis
      by (subst iso_time.simps)
        (use "1.IH" "1.prems" k unit_at(2) [of s k] r in \<open>auto split: option.splits\<close>)
  qed
qed

lemma iso_points: "i \<le> length s \<Longrightarrow> points s (iso s i)"
  unfolding iso_def
  by (rule points_and_then [OF iso_date_cursor])
    (auto simp: at_def intro!: points_and_then cursor_and_then iso_time_cursor split: if_splits)

lemma skip_spaces_le: "i \<le> length s \<Longrightarrow> skip_spaces s i \<le> length s"
proof (induction s i rule: skip_spaces.induct)
  case (1 s i)
  then show ?case by (subst skip_spaces.simps) (auto simp: at_def split: if_splits)
qed

lemma friendly_unit_length: "friendly_unit u = Some (slot, per, len) \<Longrightarrow> len = length u"
  by (auto simp: friendly_unit_def split: if_splits)

lemma friendly_loop_points: "i \<le> length s \<Longrightarrow> points s (friendly_loop s us seen i)"
proof (induction s us seen i rule: friendly_loop.induct)
  case (1 s us seen i)
  have c: "cursor s (read_number s i)" by (rule read_number_cursor [OF "1.prems"])
  show ?case
  proof (cases "i < length s")
    case True
    show ?thesis
    proof (cases "read_number s i")
      case (Inl e)
      with c show ?thesis by (subst friendly_loop.simps) (simp add: cursor_def points_def)
    next
      case (Inr r)
      then obtain n nanos f k where r: "read_number s i = Inr ((n, nanos, f), k)" by (cases r) auto
      have k: "k \<le> length s" using c r by simp
      show ?thesis
      proof (cases "friendly_unit (takeWhile is_letter (drop k s))")
        case None
        with r k True show ?thesis by (subst friendly_loop.simps) simp
      next
        case (Some p)
        then obtain slot per len where p: "friendly_unit (takeWhile is_letter (drop k s)) = Some (slot, per, len)"
          by (cases p) auto
        have "k + len \<le> length s"
          using friendly_unit_length [OF p] length_takeWhile_le [of is_letter "drop k s"] k by simp
        then have j: "skip_spaces s (k + len) \<le> length s" by (rule skip_spaces_le)
        show ?thesis
        proof (cases "friendly_store us slot per n nanos i")
          case (Inl e)
          then have "e = Unparsed i ''a part of a second no larger than a u64 of nanoseconds''"
            by (auto simp: friendly_store_def Let_def split: if_splits)
          with Inl r p k True "1.prems" show ?thesis
            by (subst friendly_loop.simps) (auto simp: points_def refuse_def)
        next
          case (Inr us1)
          show ?thesis
            using "1.IH" [OF True r refl refl refl p refl refl _ _ Inr j] True r p k Inr "1.prems"
            by (subst friendly_loop.simps) auto
        qed
      qed
    qed
  next
    case False
    then show ?thesis by (subst friendly_loop.simps) simp
  qed
qed

lemma friendly_points: "i \<le> length s \<Longrightarrow> points s (friendly s i)"
proof -
  assume "i \<le> length s"
  then have k: "skip_spaces s i \<le> length s" by (rule skip_spaces_le)
  show ?thesis
    using friendly_loop_points [OF k, of "replicate 8 0" "replicate 10 False"]
    by (cases "friendly_loop s (replicate 8 0) (replicate 10 False) (skip_spaces s i)")
      (auto simp: friendly_def Let_def points_def refuse_def)
qed

lemma span_points: "points s (span_from_str s)"
proof -
  define i where "i = (if \<not> fst (eat s (CHR ''-'') 0) \<and> at s (snd (eat s (CHR ''-'') 0)) = Some (CHR ''+'') \<and> is_p (at s 1)
      then snd (eat s (CHR ''-'') 0) + 1 else snd (eat s (CHR ''-'') 0))"
  have "i \<le> length s" by (cases s) (auto simp: i_def eat_def at_def is_p_def split: if_splits)
  moreover have "i + 1 \<le> length s" if "is_p (at s i)"
    using that by (auto simp: is_p_def at_def split: if_splits)
  ultimately have "points s (if is_p (at s i) then iso s (i + 1) else friendly s i)"
    using iso_points friendly_points by auto
  then have "points s (and_then (if is_p (at s i) then iso s (i + 1) else friendly s i) (\<lambda>us. Inr (from_parts us neg)))"
    for neg by (cases "if is_p (at s i) then iso s (i + 1) else friendly s i") (auto simp: points_def)
  then show ?thesis unfolding span_from_str_def Let_def i_def [symmetric] .
qed

section \<open>Durations, exactly\<close>

lemma zeros_8: "replicate 8 0 = [0, 0, 0, 0, 0, 0, 0, 0 :: nat]"
  by (simp add: numeral_eq_Suc)

lemma total_seconds_eq:
  "acc \<le> U64_MAX \<Longrightarrow>
   total_seconds ps acc =
     (let t = acc + sum_list (map (\<lambda>(n, per). n * per) ps) in if t \<le> U64_MAX then Some t else None)"
proof (induction ps arbitrary: acc)
  case (Cons p ps)
  obtain n per where p: "p = (n, per)" by (cases p)
  show ?case
  proof (cases "acc + n * per \<le> U64_MAX")
    case True
    then show ?thesis using Cons.IH [OF True] p
      by (simp add: checked_mul_u64_def checked_add_u64_def Let_def add.assoc)
  next
    case False
    then show ?thesis using p by (auto simp: checked_mul_u64_def checked_add_u64_def Let_def)
  qed
qed (simp add: Let_def)

lemma duration_of_span_iff:
  "duration_of_span s = Inr (secs, nanos) \<longleftrightarrow>
     \<not> negative s \<and> units s ! years_at = 0 \<and> units s ! months_at = 0 \<and>
     secs = units s ! weeks_at * (7 * 86400) + units s ! days_at * 86400 + units s ! hours_at * 3600
            + units s ! minutes_at * 60 + units s ! seconds_at \<and>
     secs \<le> U64_MAX \<and> nanos = units s ! nanos_at"
  by (auto simp: duration_of_span_def Let_def total_seconds_eq U64_MAX_def ok_or_Inr_iff
      simp del: total_seconds.simps split: if_splits)

lemma span_of_duration_units:
  "units (span_of_duration (secs, nanos)) = [0, 0, 0, 0, secs div 3600, secs mod 3600 div 60, secs mod 60, nanos]"
  "negative (span_of_duration (secs, nanos)) = False"
  by (simp_all add: span_of_duration_def from_parts_def normalised_def zeros_8)

lemma clock_seconds: "secs div 3600 * 3600 + secs mod 3600 div 60 * 60 + secs mod 60 = (secs :: nat)"
proof -
  have "secs mod 3600 mod 60 = secs mod 60" by (simp add: mod_mod_cancel)
  then show ?thesis
    using div_mult_mod_eq [of secs 3600] div_mult_mod_eq [of "secs mod 3600" 60] by linarith
qed

lemma span_of_duration_ok:
  assumes "secs \<le> U64_MAX" "nanos < BILLION"
  shows "span_ok (span_of_duration (secs, nanos))"
proof -
  have "secs div 3600 \<le> U64_MAX div 3600" using assms(1) by (rule div_le_mono)
  then have "units_ok [0, 0, 0, 0, secs div 3600, secs mod 3600 div 60, secs mod 60, nanos]"
    using assms(2) mod_less_divisor [of 60 secs] mod_less_divisor [of 3600 secs]
      div_le_dividend [of "secs mod 3600" 60]
    by (auto simp: units_ok_def U64_MAX_def I64_MAX_def BILLION_def)
  then show ?thesis
    using units_ok_span by (simp add: span_of_duration_def zeros_8)
qed

section \<open>Dates moved by a span\<close>

text \<open>What years and months make of a date: the month counted from year 0, and the day
  clamped to it.\<close>

definition add_months :: "Date \<Rightarrow> int \<Rightarrow> Date" where
  "add_months d k =
     (let ym = year d * 12 + (month d - 1) + k; y = ym div 12; m = ym mod 12 + 1
      in Date y m (min (day d) (days_in_month y m)))"

definition span_months :: "Span \<Rightarrow> int" where
  "span_months sp = signed sp years_at * 12 + signed sp months_at"

definition span_days :: "Span \<Rightarrow> int" where
  "span_days sp = signed sp weeks_at * 7 + signed sp days_at"

definition span_clock :: "Span \<Rightarrow> int" where
  "span_clock sp =
     (signed sp hours_at * 3600 + signed sp minutes_at * 60 + signed sp seconds_at) * NANOS_PER_SECOND
     + signed sp nanos_at"

lemma days_in_month_pos: "28 \<le> days_in_month y m"
  by (simp add: days_in_month_def)

lemma add_months_ok: "date_ok d \<Longrightarrow> YEARS (year (add_months d k)) \<Longrightarrow> date_ok (add_months d k)"
  by (cases d)
    (auto simp: add_months_def Let_def civil_def intro: order_trans [OF _ days_in_month_pos])

lemma add_months_0: "date_ok d \<Longrightarrow> add_months d 0 = d"
  by (cases d) (simp add: add_months_def Let_def civil_def)

lemma shifted_eq:
  assumes "date_ok d"
  shows "shifted d sp more =
     (if YEARS (year (add_months d (span_months sp)))
      then let z = date_days (add_months d (span_months sp)) + span_days sp + more in
           if FIRST_DAY \<le> z \<and> z \<le> LAST_DAY then Some (from_days z) else None
      else None)"
  by (auto simp: shifted_def add_months_def span_months_def span_days_def Let_def algebra_simps)

lemma shifted_Some:
  assumes "date_ok d"
  shows "shifted d sp more = Some e \<longleftrightarrow>
     YEARS (year (add_months d (span_months sp))) \<and> date_ok e \<and>
     date_days e = date_days (add_months d (span_months sp)) + span_days sp + more"
proof -
  define z where "z = date_days (add_months d (span_months sp)) + span_days sp + more"
  have "FIRST_DAY \<le> z \<and> z \<le> LAST_DAY \<and> e = from_days z \<longleftrightarrow> date_ok e \<and> date_days e = z"
    using date_days_from_days date_days_bounds from_days_date_days by metis
  then show ?thesis unfolding shifted_eq [OF assms] z_def [symmetric] Let_def by auto
qed

text \<open>A civil date and time moved by a span: the date by its months, then the instant by its
  days and clock.\<close>

lemma clock_split:
  assumes "0 \<le> r" "r < DAY_NANOS"
  shows "time_ok (from_seconds_of_day (r div NANOS_PER_SECOND) (r mod NANOS_PER_SECOND))"
    "seconds_of_day (from_seconds_of_day (r div NANOS_PER_SECOND) (r mod NANOS_PER_SECOND)) * NANOS_PER_SECOND
     + nanosecond (from_seconds_of_day (r div NANOS_PER_SECOND) (r mod NANOS_PER_SECOND)) = r"
proof -
  have "0 \<le> r div NANOS_PER_SECOND" "r div NANOS_PER_SECOND < DAY"
    using assms int_div_bounds [of NANOS_PER_SECOND r]
    by (simp_all add: NANOS_PER_SECOND_def DAY_NANOS_def DAY_def)
  moreover have "0 \<le> r mod NANOS_PER_SECOND" "r mod NANOS_PER_SECOND < NANOS_PER_SECOND"
    by (simp_all add: NANOS_PER_SECOND_def)
  ultimately show "time_ok (from_seconds_of_day (r div NANOS_PER_SECOND) (r mod NANOS_PER_SECOND))"
    "seconds_of_day (from_seconds_of_day (r div NANOS_PER_SECOND) (r mod NANOS_PER_SECOND)) * NANOS_PER_SECOND
     + nanosecond (from_seconds_of_day (r div NANOS_PER_SECOND) (r mod NANOS_PER_SECOND)) = r"
    using seconds_of_day_from_seconds [of "r div NANOS_PER_SECOND" "r mod NANOS_PER_SECOND"]
      div_mult_mod_eq [of r NANOS_PER_SECOND]
    by (simp_all add: from_seconds_of_day_def)
qed

lemma instant_inject:
  assumes "date_time_ok x" "date_time_ok y" "instant x = instant y"
  shows "x = y"
  using DateTime_less_instant [OF assms(1,2)] DateTime_less_instant [OF assms(2,1)] assms(3)
  by (metis less_irrefl linorder_neqE)

lemma date_time_checked_add_Some:
  assumes x: "date_time_ok x" and r: "date_time_checked_add x sp = Some y"
  shows "date_time_ok y"
    and "instant y = instant (DateTime (add_months (dt_date x) (span_months sp)) (dt_time x))
           + span_days sp * DAY_NANOS + span_clock sp"
proof -
  obtain d t where xd: "x = DateTime d t" by (cases x)
  have d: "date_ok d" using x xd by simp
  define nanos where "nanos = (seconds_of_day t + signed sp hours_at * 3600 + signed sp minutes_at * 60
    + signed sp seconds_at) * NANOS_PER_SECOND + nanosecond t + signed sp nanos_at"
  obtain e where e: "shifted d sp (nanos div DAY_NANOS) = Some e"
    and y: "y = DateTime e (from_seconds_of_day (nanos mod DAY_NANOS div NANOS_PER_SECOND)
                                                 (nanos mod DAY_NANOS mod NANOS_PER_SECOND))"
    using r xd by (auto simp: date_time_checked_add_def nanos_def Let_def split: option.splits)
  have m: "0 \<le> nanos mod DAY_NANOS" "nanos mod DAY_NANOS < DAY_NANOS"
    by (simp_all add: DAY_NANOS_def DAY_def NANOS_PER_SECOND_def)
  note clock = clock_split [OF m]
  note days = shifted_Some [OF d, THEN iffD1, OF e]
  show "date_time_ok y" using y clock(1) days by simp
  have "instant y = date_days e * DAY_NANOS + nanos mod DAY_NANOS"
    using clock(2) by (simp add: instant_def y DAY_NANOS_def algebra_simps)
  also have "\<dots> = (date_days (add_months d (span_months sp)) + span_days sp) * DAY_NANOS + nanos"
    using days div_mult_mod_eq [of nanos DAY_NANOS] by (simp add: algebra_simps)
  finally show "instant y = instant (DateTime (add_months (dt_date x) (span_months sp)) (dt_time x))
           + span_days sp * DAY_NANOS + span_clock sp"
    by (simp add: xd instant_def nanos_def span_clock_def DAY_NANOS_def algebra_simps)
qed

lemma date_time_checked_add_iff:
  assumes x: "date_time_ok x"
  shows "date_time_checked_add x sp = Some y \<longleftrightarrow>
     YEARS (year (add_months (dt_date x) (span_months sp))) \<and> date_time_ok y \<and>
     instant y = instant (DateTime (add_months (dt_date x) (span_months sp)) (dt_time x))
       + span_days sp * DAY_NANOS + span_clock sp"
    (is "?l \<longleftrightarrow> ?yr \<and> ?ok \<and> ?inst y")
proof
  assume ?l
  then have "?yr" using x
    by (cases x) (auto simp: date_time_checked_add_def Let_def shifted_eq split: option.splits if_splits)
  with date_time_checked_add_Some [OF x \<open>?l\<close>] show "?yr \<and> ?ok \<and> ?inst y" by simp
next
  assume r: "?yr \<and> ?ok \<and> ?inst y"
  obtain d t where xd: "x = DateTime d t" by (cases x)
  obtain e u where y: "y = DateTime e u" by (cases y)
  have d: "date_ok d" using x xd by simp
  have e: "date_ok e" "time_ok u" using r y by simp_all
  define nanos where "nanos = (seconds_of_day t + signed sp hours_at * 3600 + signed sp minutes_at * 60
    + signed sp seconds_at) * NANOS_PER_SECOND + nanosecond t + signed sp nanos_at"
  define q where "q = seconds_of_day u * NANOS_PER_SECOND + nanosecond u"
  define z where "z = date_days (add_months d (span_months sp)) + span_days sp"
  have n: "0 \<le> nanosecond u" "nanosecond u < NANOS_PER_SECOND" using e(2) by (cases u; simp)+
  have q: "0 \<le> q" "q < DAY_NANOS"
    using seconds_of_day_bounds [OF e(2)] n by (simp_all add: q_def DAY_NANOS_def NANOS_PER_SECOND_def DAY_def)
  have "date_days e * DAY_NANOS + q = z * DAY_NANOS + nanos"
    using r by (simp add: xd y instant_def q_def z_def nanos_def span_clock_def DAY_NANOS_def algebra_simps)
  then have "nanos = (date_days e - z) * DAY_NANOS + q" by (simp add: algebra_simps)
  then have "nanos div DAY_NANOS = date_days e - z" using q by (intro int_div_eqI) simp_all
  then have "shifted d sp (nanos div DAY_NANOS) = Some e"
    using r e d xd by (simp add: shifted_Some z_def)
  then obtain y' where y': "date_time_checked_add x sp = Some y'"
    by (simp add: date_time_checked_add_def xd nanos_def Let_def)
  have "y' = y"
    using date_time_checked_add_Some [OF x y'] r by (intro instant_inject) simp_all
  with y' show ?l by simp
qed

section \<open>Properties\<close>

text \<open>C32: a span's text reads back as it exactly when the span is well formed (eight units of at
  most \<open>i64::MAX\<close>, the nanoseconds below a second, no sign on zero).\<close>

theorem spans_round_trip: "span_from_str (show_span x) = Inr x \<longleftrightarrow> span_ok x"
  using span_round_trip span_from_str_ok by blast

text \<open>Whatever the text, \<open>from_str\<close> answers a well-formed span or refuses at a byte offset of
  the text.\<close>

theorem read_spans_are_well_formed:
  "case span_from_str s of
     Inr x \<Rightarrow> span_ok x
   | Inl e \<Rightarrow> (\<exists>k expected. e = Unparsed k expected \<and> k \<le> length s)"
  using span_points [of s] span_from_str_ok [of s] by (auto simp: points_def split: sum.splits)

text \<open>The builders keep a span well formed; the unit set reads back with its sign, clamped to
  \<open>i64::MAX\<close>, and the other magnitudes stay.\<close>

theorem span_builders:
  assumes "span_ok s" "i < nanos_at"
  shows "span_ok (span_with s i n) \<and> span_ok (span_nanoseconds s n) \<and> span_ok (span_negate s) \<and>
         span_ok (span_abs s) \<and>
         units (span_with s i n) = (units s)[i := magnitude n] \<and>
         signed (span_with s i n) i = sgn n * int (magnitude n)"
proof -
  have len: "i < length (units s)" using assms by (cases s) simp
  have "units (span_with s i n) = (units s)[i := magnitude n]"
    by (simp add: span_with_def normalised_def)
  moreover have "signed (span_with s i n) i = sgn n * int (magnitude n)"
  proof (cases "n = 0")
    case True
    then show ?thesis using len by (simp add: span_with_def signed_def normalised_def magnitude_def)
  next
    case False
    then have "magnitude n \<noteq> 0" by (simp add: magnitude_def I64_MAX_def)
    then have "\<not> is_zero (Span ((units s)[i := magnitude n]) (n < 0))"
      using len by (auto simp: is_zero_def list_all_length intro!: exI [of _ i])
    then show ?thesis using len False by (simp add: span_with_def signed_def normalised_def sgn_if)
  qed
  ultimately show ?thesis
    using span_with_ok [OF assms] span_nanoseconds_ok [OF assms(1)] span_negate_ok [OF assms(1)]
      span_abs_ok [OF assms(1)] by blast
qed

theorem span_builders_witness:
  "span_ok (span_with span_new 3 (- 2)) \<and> signed (span_with span_new 3 (- 2)) 3 = - 2"
  using span_builders [of span_new 3 "- 2"] span_new_ok
  by (simp add: magnitude_def I64_MAX_def)

text \<open>A span converts to a \<open>Duration\<close> exactly when it is neither negative nor has years or
  months and its seconds fit \<open>u64\<close>, to exactly those seconds; a duration crosses into a span
  and back unchanged.\<close>

theorem durations_are_exact:
  "(duration_of_span s = Inr (secs, nanos) \<longleftrightarrow>
      \<not> negative s \<and> units s ! years_at = 0 \<and> units s ! months_at = 0 \<and>
      secs = units s ! weeks_at * (7 * 86400) + units s ! days_at * 86400 + units s ! hours_at * 3600
             + units s ! minutes_at * 60 + units s ! seconds_at \<and>
      secs \<le> U64_MAX \<and> nanos = units s ! nanos_at) \<and>
   (duration_of_span (span_of_duration (secs, nanos)) = Inr (secs, nanos) \<longleftrightarrow> secs \<le> U64_MAX)"
  using duration_of_span_iff
  by (simp add: duration_of_span_iff span_of_duration_units clock_seconds)

text \<open>C33: a civil date and time plus a span: years and months move the date with its day clamped
  to the month, and the rest moves the instant exactly; there is an answer exactly when both
  stay within the years 0000 to 9999.\<close>

theorem spans_move_civil_times:
  assumes "date_time_ok x"
  shows "date_time_checked_add x sp = Some y \<longleftrightarrow>
     YEARS (year (add_months (dt_date x) (span_months sp))) \<and> date_time_ok y \<and>
     instant y = instant (DateTime (add_months (dt_date x) (span_months sp)) (dt_time x))
       + span_days sp * DAY_NANOS + span_clock sp"
  by (rule date_time_checked_add_iff [OF assms])

text \<open>A date plus a span answers exactly when the span has no clock units and the calendar
  has the answer: the months first, then the days.\<close>

theorem spans_move_dates:
  assumes "date_ok d"
  shows "date_checked_add d sp = Some e \<longleftrightarrow>
     signed sp hours_at = 0 \<and> signed sp minutes_at = 0 \<and> signed sp seconds_at = 0 \<and>
     signed sp nanos_at = 0 \<and>
     YEARS (year (add_months d (span_months sp))) \<and> date_ok e \<and>
     date_days e = date_days (add_months d (span_months sp)) + span_days sp"
  unfolding date_checked_add_def using shifted_Some [OF assms, of sp 0 e] by auto

theorem spans_move_dates_witness:
  "date_checked_add (Date 2026 1 31) (Span [0, 1, 0, 0, 0, 0, 0, 0] False) = Some (Date 2026 2 28)"
  using spans_move_dates [of "Date 2026 1 31" "Span [0, 1, 0, 0, 0, 0, 0, 0] False" "Date 2026 2 28"]
  by (simp add: YEARS_def civil_def days_in_month_def is_leap_def signed_def add_months_def
      span_months_def span_days_def)

theorem spans_move_civil_times_witness:
  "date_time_checked_add (DateTime (Date 2026 10 21) (Time 23 30 0 0)) (Span [0, 0, 0, 0, 1, 0, 0, 0] False)
   = Some (DateTime (Date 2026 10 22) (Time 0 30 0 0))"
  using spans_move_civil_times [of "DateTime (Date 2026 10 21) (Time 23 30 0 0)"
      "Span [0, 0, 0, 0, 1, 0, 0, 0] False" "DateTime (Date 2026 10 22) (Time 0 30 0 0)"]
  by (simp add: YEARS_def civil_def days_in_month_def is_leap_def signed_def add_months_def
      span_months_def span_days_def span_clock_def instant_def date_days_def days_from_civil_def
      seconds_of_day_def DAY_def NANOS_PER_SECOND_def DAY_NANOS_def)

text \<open>The friendly form stores the seconds where it adds the parts of a second: milliseconds
  read before the seconds lose the whole seconds they carry, and read after them keep them.\<close>

theorem friendly_seconds_overwrite:
  "span_from_str ''1s 1500ms'' = Inr (Span [0, 0, 0, 0, 0, 0, 2, 500000000] False) \<and>
   span_from_str ''1500ms 1s'' = Inr (Span [0, 0, 0, 0, 0, 0, 1, 500000000] False)"
  by (simp add: span_from_str_def eat_def is_p_def at_def friendly_def Let_def skip_spaces.simps
      friendly_loop.simps read_number_def whole_loop.simps is_digit_def digit_val_def I64_MAX_def
      friendly_unit_def is_letter_def friendly_store_def BILLION_def U64_MAX_def zeros_8
      from_parts_def normalised_def is_zero_def)

end
