(* ===== verification/Convert.thy ===== *)
theory Convert
  imports Maps Spans
begin

text \<open>
  Reading Rust types out of a value and writing them into one (\<open>value/convert.rs\<close> and
  \<open>value/convert/\<close>). Each type is a pair of functions, its \<open>to_value_in\<close> and its
  \<open>from_value\<close>; the interface \<open>conversion\<close> says what the pair promises, and a type made of
  others (a list of them, an optional one, a map of them) keeps the promise when they do.

  A refusal keeps its case and the dotted path it names; what it expected is words for a person
  and is not modelled. Allocation succeeds, as everywhere in this development.
\<close>

section \<open>Refusals\<close>

datatype map_error = MissingKey str | WrongType str tag "tag option" | BadValue str | Stopped str

fun error_key :: "map_error \<Rightarrow> str" where
  "error_key (MissingKey key) = key"
| "error_key (WrongType key e f) = key"
| "error_key (BadValue key) = key"
| "error_key (Stopped key) = key"

fun rekey :: "(str \<Rightarrow> str) \<Rightarrow> map_error \<Rightarrow> map_error" where
  "rekey f (MissingKey key) = MissingKey (f key)"
| "rekey f (WrongType key e d) = WrongType (f key) e d"
| "rekey f (BadValue key) = BadValue (f key)"
| "rekey f (Stopped key) = Stopped (f key)"

definition under :: "str \<Rightarrow> map_error \<Rightarrow> map_error" where
  "under prefix =
     rekey (\<lambda>key. if key = [] then prefix
                  else if hd key = CHR ''['' then prefix @ key
                  else prefix @ ''.'' @ key)"

definition at_index :: "nat \<Rightarrow> map_error \<Rightarrow> map_error" where
  "at_index i = rekey (\<lambda>key. ''['' @ show_nat i @ '']'' @ key)"

definition at_key :: "str \<Rightarrow> map_error \<Rightarrow> map_error" where
  "at_key entry = rekey (\<lambda>key. ''['' @ entry @ '']'' @ key)"

definition missing :: "str \<Rightarrow> map_error" where
  "missing key = MissingKey key"

definition wrong_type :: "tag \<Rightarrow> Value \<Rightarrow> map_error" where
  "wrong_type wanted v = WrongType [] wanted (case tag_of v of Inr t \<Rightarrow> Some t | Inl _ \<Rightarrow> None)"

definition bad_value :: map_error where
  "bad_value = BadValue []"

definition refused :: "tag \<Rightarrow> Value \<Rightarrow> map_error" where
  "refused wanted v = (if tag_of v \<noteq> Inr wanted then wrong_type wanted v else bad_value)"

section \<open>Kinds\<close>

text \<open>\<open>Kinds\<close>: a set of stored kinds, one bit each.\<close>

type_synonym kinds = u8

fun kinds_of :: "tag \<Rightarrow> kinds" where
  "kinds_of GUATIAO_ABSENT = 0"
| "kinds_of GUATIAO_NULL = push_bit 1 1"
| "kinds_of GUATIAO_BOOL = push_bit 2 1"
| "kinds_of GUATIAO_NUMBER = push_bit 3 1"
| "kinds_of GUATIAO_STRING = push_bit 4 1"
| "kinds_of GUATIAO_BYTES = push_bit 5 1"
| "kinds_of GUATIAO_LIST = push_bit 6 1"
| "kinds_of GUATIAO_MAP = push_bit 7 1"

definition kinds_any :: kinds where "kinds_any = 0xFE"

definition kinds_union :: "kinds \<Rightarrow> kinds \<Rightarrow> kinds" where
  "kinds_union a b = a OR b"

definition kinds_intersects :: "kinds \<Rightarrow> kinds \<Rightarrow> bool" where
  "kinds_intersects a b \<longleftrightarrow> a AND b \<noteq> 0"

definition kinds_contains :: "kinds \<Rightarrow> tag \<Rightarrow> bool" where
  "kinds_contains a t \<longleftrightarrow> kinds_intersects a (kinds_of t)"

text \<open>The tags \<open>wrong_kind\<close> tries, in its order.\<close>

definition stored_tags :: "tag list" where
  "stored_tags = [GUATIAO_NULL, GUATIAO_BOOL, GUATIAO_NUMBER, GUATIAO_STRING, GUATIAO_BYTES,
     GUATIAO_LIST, GUATIAO_MAP]"

definition wrong_kind :: "kinds \<Rightarrow> tag \<Rightarrow> map_error" where
  "wrong_kind wanted found =
     (case find (\<lambda>t. wanted = kinds_of t) stored_tags of
        Some t \<Rightarrow> WrongType [] t (Some found)
      | None \<Rightarrow> bad_value)"

lemma kinds_contains_of [simp]: "kinds_contains (kinds_of s) t \<longleftrightarrow> s = t \<and> t \<noteq> GUATIAO_ABSENT"
  by (cases s; cases t) (simp_all add: kinds_contains_def kinds_intersects_def)

lemma kinds_contains_union [simp]:
  "kinds_contains (kinds_union a b) t \<longleftrightarrow> kinds_contains a t \<or> kinds_contains b t"
  by (auto simp: kinds_contains_def kinds_intersects_def kinds_union_def bit.conj_disj_distrib2 or_eq_0_iff)

lemma kinds_contains_any [simp]: "kinds_contains kinds_any t \<longleftrightarrow> t \<noteq> GUATIAO_ABSENT"
  by (cases t) (simp_all add: kinds_contains_def kinds_intersects_def kinds_any_def)

declare kinds_of.simps [simp del]

section \<open>What a type's conversion promises\<close>

text \<open>Every value of the type writes, and what it wrote reads back; a value is read only out of
  the kinds the type names.\<close>

locale conversion =
  fixes tov :: "'a \<Rightarrow> value_error + Value"
    and fromv :: "Value \<Rightarrow> map_error + 'a"
    and ok :: "'a \<Rightarrow> bool"
    and ks :: kinds
  assumes writes: "ok x \<Longrightarrow> \<exists>v. tov x = Inr v \<and> v \<noteq> VAbsent \<and> fromv v = Inr x"
    and reads_kinds: "v \<noteq> VAbsent \<Longrightarrow> fromv v = Inr x \<Longrightarrow> \<exists>t. tag_of v = Inr t \<and> kinds_contains ks t"
begin

lemma round_trip: "ok x \<Longrightarrow> and_then (map_err e (tov x)) (\<lambda>v. map_err d (fromv v)) = Inr x"
  using writes [of x] by auto

lemma writes_its_kind:
  assumes "ok x"
  shows "\<exists>v t. tov x = Inr v \<and> tag_of v = Inr t \<and> kinds_contains ks t"
  using writes [OF assms] reads_kinds by blast

end

section \<open>Scalars\<close>

definition bool_to_value :: "bool \<Rightarrow> value_error + Value" where
  "bool_to_value b = Inr (VBool b)"

definition bool_from_value :: "Value \<Rightarrow> map_error + bool" where
  "bool_from_value v = ok_or (wrong_type GUATIAO_BOOL v) (as_bool v)"

definition str_to_value :: "str \<Rightarrow> value_error + Value" where
  "str_to_value s = Inr (VString s)"

definition str_from_value :: "Value \<Rightarrow> map_error + str" where
  "str_from_value v = ok_or (refused GUATIAO_STRING v) (as_text v)"

definition bytes_to_value :: "u8 list \<Rightarrow> value_error + Value" where
  "bytes_to_value bs = Inr (VBytes bs)"

definition bytes_from_value :: "Value \<Rightarrow> map_error + u8 list" where
  "bytes_from_value v = ok_or (wrong_type GUATIAO_BYTES v) (as_buffer v)"

definition unit_to_value :: "unit \<Rightarrow> value_error + Value" where
  "unit_to_value u = Inr VNull"

definition unit_from_value :: "Value \<Rightarrow> map_error + unit" where
  "unit_from_value v = (if tag_of v = Inr GUATIAO_NULL then Inr () else Inl (wrong_type GUATIAO_NULL v))"

text \<open>A raw subtree is copied, either way.\<close>

definition copied :: "value_error failure + 'a \<Rightarrow> map_error failure + 'a" where
  "copied r = map_err (\<lambda>f. case f of Refused _ \<Rightarrow> Refused bad_value | Panicked \<Rightarrow> Panicked) r"

definition tree_from_value :: "Value \<Rightarrow> map_error failure + Value" where
  "tree_from_value v = copied (copy_value v)"

text \<open>The doors as \<open>try_from\<close>, with their refusals.\<close>

definition list_of_value :: "Value \<Rightarrow> map_error + Value list" where
  "list_of_value v = ok_or (refused GUATIAO_LIST v) (as_list v)"

definition map_of_value :: "Value \<Rightarrow> map_error + map_entries" where
  "map_of_value v = ok_or (refused GUATIAO_MAP v) (as_map v)"

definition map_required :: "map_entries \<Rightarrow> str \<Rightarrow> map_error + Value" where
  "map_required es key = ok_or (missing key) (map_get es key)"

lemma door_Some:
  "as_bool v = Some b \<longleftrightarrow> v = VBool b"
  "as_buffer v = Some bs \<longleftrightarrow> v = VBytes bs"
  "as_list v = Some xs \<longleftrightarrow> v = VList xs"
  "as_text v = Some s \<longleftrightarrow> v = VString s \<and> is_text s"
  "as_number v = Some s \<longleftrightarrow> v = VNumber s \<and> is_number s"
  "as_map v = Some es \<longleftrightarrow> v = VMap es \<and> keys_are_text es"
  by (cases v; auto simp: as_text_def holds_text_def as_number_def holds_a_number_def)+

named_theorems reads \<open>what each reader accepts, exactly\<close>

lemma scalar_reads [reads]:
  "bool_from_value v = Inr b \<longleftrightarrow> v = VBool b"
  "bytes_from_value v = Inr bs \<longleftrightarrow> v = VBytes bs"
  "str_from_value v = Inr s \<longleftrightarrow> v = VString s \<and> is_text s"
  "unit_from_value v = Inr u \<longleftrightarrow> v = VNull"
  "list_of_value v = Inr xs \<longleftrightarrow> v = VList xs"
  "map_of_value v = Inr es \<longleftrightarrow> v = VMap es \<and> keys_are_text es"
  by (auto simp: bool_from_value_def bytes_from_value_def str_from_value_def unit_from_value_def
      list_of_value_def map_of_value_def ok_or_Inr_iff door_Some)
     (cases v; simp)

interpretation bools: conversion bool_to_value bool_from_value "\<lambda>_. True" "kinds_of GUATIAO_BOOL"
  by unfold_locales (simp_all add: reads bool_to_value_def)

interpretation strings: conversion str_to_value str_from_value is_text "kinds_of GUATIAO_STRING"
  by unfold_locales (simp_all add: reads str_to_value_def)

interpretation byte_strings: conversion bytes_to_value bytes_from_value "\<lambda>_. True" "kinds_of GUATIAO_BYTES"
  by unfold_locales (simp_all add: reads bytes_to_value_def)

interpretation units: conversion unit_to_value unit_from_value "\<lambda>_. True" "kinds_of GUATIAO_NULL"
  by unfold_locales (simp_all add: reads unit_to_value_def)

section \<open>Integers\<close>

text \<open>The integer types: signed or not, and their width in bits.\<close>

definition int_lo :: "bool \<Rightarrow> nat \<Rightarrow> int" where
  "int_lo sig w = (if sig then - (2 ^ (w - 1)) else 0)"

definition int_hi :: "bool \<Rightarrow> nat \<Rightarrow> int" where
  "int_hi sig w = (if sig then 2 ^ (w - 1) - 1 else 2 ^ w - 1)"

definition int_fits :: "bool \<Rightarrow> nat \<Rightarrow> int \<Rightarrow> bool" where
  "int_fits sig w n \<longleftrightarrow> int_lo sig w \<le> n \<and> n \<le> int_hi sig w"

text \<open>\<open>str::parse\<close> for an integer type: an optional sign (a minus only where the type has one),
  then digits, and a value the type holds.\<close>

definition parse_int :: "bool \<Rightarrow> nat \<Rightarrow> str \<Rightarrow> int option" where
  "parse_int sig w s =
     (let (neg, ds) = (if s \<noteq> [] \<and> hd s = CHR ''+'' then (False, tl s)
                       else if s \<noteq> [] \<and> hd s = CHR ''-'' \<and> sig then (True, tl s) else (False, s));
          n = (if neg then - int (dec_val ds) else int (dec_val ds))
      in if ds \<noteq> [] \<and> list_all is_digit ds \<and> int_fits sig w n then Some n else None)"

definition integer_to_value :: "int \<Rightarrow> value_error + Value" where
  "integer_to_value n = and_then (number_new (show_int n)) (\<lambda>t. Inr (VNumber t))"

definition number_text :: "Value \<Rightarrow> map_error + str" where
  "number_text v = ok_or (refused GUATIAO_NUMBER v) (as_number v)"

definition integer_from_value :: "bool \<Rightarrow> nat \<Rightarrow> Value \<Rightarrow> map_error + int" where
  "integer_from_value sig w v =
     and_then (number_text v) (\<lambda>text.
       if list_ex (\<lambda>c. c \<in> set ''.eE'') text then Inl bad_value
       else ok_or bad_value (parse_int sig w text))"

text \<open>The non-zero integer types.\<close>

definition nonzero_from_value :: "bool \<Rightarrow> nat \<Rightarrow> Value \<Rightarrow> map_error + int" where
  "nonzero_from_value sig w v =
     and_then (integer_from_value sig w v) (\<lambda>n. if n = 0 then Inl bad_value else Inr n)"

lemma integer_to_value_eq [simp]: "integer_to_value n = Inr (VNumber (show_int n))"
  using number_from_integer_ok [of n] by (simp add: integer_to_value_def number_from_integer_def)

lemma digit_not_sign: "is_digit c \<Longrightarrow> c \<noteq> CHR ''+'' \<and> c \<noteq> CHR ''-'' \<and> c \<notin> set ''.eE''"
  by (auto simp: is_digit_def)

lemma json_int_digits: "json_int s \<Longrightarrow> s \<noteq> [] \<and> list_all is_digit s \<and> show_nat (dec_val s) = s"
  by (auto simp: json_int_def digits1_def intro: show_nat_dec_val)

lemma json_plain:
  assumes "json_number s" "\<not> list_ex (\<lambda>c. c \<in> set ''.eE'') s"
  obtains sg ip where "s = sg @ ip" "sg \<in> {[], ''-''}" "json_int ip"
proof -
  obtain sg ip fr ex where s: "s = sg @ ip @ fr @ ex" "sg \<in> {[], ''-''}" "json_int ip" "json_frac fr" "json_exp ex"
    using assms(1) unfolding json_number_def by blast
  then have "fr = []" "ex = []" using assms(2) by (auto simp: json_frac_def json_exp_def)
  with s show thesis using that by simp
qed

lemma parse_digits:
  assumes "ds \<noteq> []" "list_all is_digit ds"
  shows "parse_int sig w ds = (if int_fits sig w (int (dec_val ds)) then Some (int (dec_val ds)) else None)"
    and "parse_int True w (CHR ''-'' # ds) = (if int_fits True w (- int (dec_val ds)) then Some (- int (dec_val ds)) else None)"
    and "parse_int False w (CHR ''-'' # ds) = None"
proof -
  have "is_digit (hd ds)" using assms by (cases ds) auto
  then have "hd ds \<noteq> CHR ''+''" "hd ds \<noteq> CHR ''-''" using digit_not_sign by auto
  then show "parse_int sig w ds = (if int_fits sig w (int (dec_val ds)) then Some (int (dec_val ds)) else None)"
    using assms by (simp add: parse_int_def)
qed (use assms in \<open>simp_all add: parse_int_def is_digit_def\<close>)

lemma show_int_plain: "\<not> list_ex (\<lambda>c. c \<in> set ''.eE'') (show_int n)"
proof -
  have "\<not> list_ex (\<lambda>c. c \<in> set ''.eE'') (show_nat m)" for m
    using show_nat_digits [of m] digit_not_sign by (auto simp: list_ex_iff list_all_iff)
  then show ?thesis by (simp add: show_int_def)
qed

lemma parse_show_int: "int_fits sig w n \<Longrightarrow> parse_int sig w (show_int n) = Some n"
  by (cases sig) (auto simp: show_int_def parse_digits show_nat_digits int_fits_def int_lo_def)

text \<open>An integer is read from its own decimal text and from nothing else, but that a signed type
  takes minus zero too.\<close>

lemma integer_reads [reads]:
  "integer_from_value sig w v = Inr n \<longleftrightarrow>
   int_fits sig w n \<and> (v = VNumber (show_int n) \<or> sig \<and> n = 0 \<and> v = VNumber ''-0'')"
proof
  assume a: "integer_from_value sig w v = Inr n"
  then obtain s where s: "v = VNumber s" "is_number s" "\<not> list_ex (\<lambda>c. c \<in> set ''.eE'') s" "parse_int sig w s = Some n"
    by (auto simp: integer_from_value_def number_text_def result_simps door_Some split: if_splits)
  then obtain sg ip where i: "s = sg @ ip" "sg \<in> {[], ''-''}" "json_int ip"
    using json_plain by (auto simp: is_number_iff)
  note d = json_int_digits [OF i(3)]
  show "int_fits sig w n \<and> (v = VNumber (show_int n) \<or> sig \<and> n = 0 \<and> v = VNumber ''-0'')"
  proof (cases "sg = []")
    case True
    then have "int_fits sig w n" "n = int (dec_val ip)" using s(4) i(1) d by (auto simp: parse_digits split: if_splits)
    then show ?thesis using s(1) i(1) True d by (simp add: show_int_def)
  next
    case False
    then have g: "s = CHR ''-'' # ip" using i by auto
    then have n: "sig" "int_fits sig w n" "n = - int (dec_val ip)"
      using s(4) d by (cases sig; auto simp: parse_digits split: if_splits)+
    show ?thesis
    proof (cases "dec_val ip = 0")
      case True
      then have "ip = ''0''" using d by simp
      then show ?thesis using n True g s(1) by simp
    next
      case False
      then show ?thesis using n g s(1) d by (simp add: show_int_def)
    qed
  qed
next
  assume a: "int_fits sig w n \<and> (v = VNumber (show_int n) \<or> sig \<and> n = 0 \<and> v = VNumber ''-0'')"
  have "json_number ''-0''" unfolding json_number_def json_int_def json_frac_def json_exp_def
    by (rule exI [of _ "''-''"], rule exI [of _ "''0''"]) simp
  moreover have "parse_int True w ''-0'' = Some 0" if "int_fits True w 0"
    using that by (simp add: parse_int_def dec_val_def)
  ultimately show "integer_from_value sig w v = Inr n"
    using a show_int_json_number [of n] show_int_plain [of n] parse_show_int [of sig w n]
    by (auto simp: integer_from_value_def number_text_def is_number_iff)
qed

interpretation integers: conversion integer_to_value "integer_from_value sig w" "int_fits sig w" "kinds_of GUATIAO_NUMBER" for sig w
  by unfold_locales (auto simp: reads)

interpretation nonzeros: conversion integer_to_value "nonzero_from_value sig w" "\<lambda>n. int_fits sig w n \<and> n \<noteq> 0"
    "kinds_of GUATIAO_NUMBER" for sig w
  by unfold_locales (auto simp: reads result_simps nonzero_from_value_def split: if_splits)

section \<open>Optional values and sequences\<close>

definition option_to_value :: "('a \<Rightarrow> value_error + Value) \<Rightarrow> 'a option \<Rightarrow> value_error + Value" where
  "option_to_value tov x = (case x of Some v \<Rightarrow> tov v | None \<Rightarrow> Inr VNull)"

definition option_from_value :: "(Value \<Rightarrow> map_error + 'a) \<Rightarrow> Value \<Rightarrow> map_error + 'a option" where
  "option_from_value fromv v =
     (if tag_of v = Inr GUATIAO_NULL then Inr None else and_then (fromv v) (\<lambda>x. Inr (Some x)))"

text \<open>\<open>list_of\<close>, and the same loop for \<open>[T]\<close>: each item written and pushed.\<close>

definition list_to_value :: "('a \<Rightarrow> value_error + Value) \<Rightarrow> 'a list \<Rightarrow> value_error + Value" where
  "list_to_value tov items =
     and_then (fold_result (\<lambda>x l. and_then (tov x) (\<lambda>v. Inr (l @ [v]))) items []) (\<lambda>l. Inr (VList l))"

fun vec_loop :: "(Value \<Rightarrow> map_error + 'a) \<Rightarrow> nat \<Rightarrow> Value list \<Rightarrow> 'a list \<Rightarrow> map_error + 'a list" where
  "vec_loop fromv i [] out = Inr out"
| "vec_loop fromv i (x # xs) out =
     and_then (map_err (at_index i) (fromv x)) (\<lambda>r. vec_loop fromv (Suc i) xs (out @ [r]))"

definition vec_from_value :: "(Value \<Rightarrow> map_error + 'a) \<Rightarrow> Value \<Rightarrow> map_error + 'a list" where
  "vec_from_value fromv v = and_then (list_of_value v) (\<lambda>items. vec_loop fromv 0 items [])"

text \<open>\<open>read_each\<close>: \<open>keep\<close> answers \<open>False\<close> for an element equal to one already kept.\<close>

fun each_loop :: "(Value \<Rightarrow> map_error + 'a) \<Rightarrow> ('a \<Rightarrow> 's \<Rightarrow> bool \<times> 's) \<Rightarrow> nat \<Rightarrow> Value list \<Rightarrow> 's \<Rightarrow> map_error + 's" where
  "each_loop fromv keep i [] s = Inr s"
| "each_loop fromv keep i (x # xs) s =
     and_then (map_err (at_index i) (fromv x)) (\<lambda>r.
       if fst (keep r s) then each_loop fromv keep (Suc i) xs (snd (keep r s))
       else Inl (at_index i bad_value))"

definition read_each :: "(Value \<Rightarrow> map_error + 'a) \<Rightarrow> ('a \<Rightarrow> 's \<Rightarrow> bool \<times> 's) \<Rightarrow> Value \<Rightarrow> 's \<Rightarrow> map_error + 's" where
  "read_each fromv keep v s = and_then (list_of_value v) (\<lambda>items. each_loop fromv keep 0 items s)"

definition keep_back :: "'a \<Rightarrow> 'a list \<Rightarrow> bool \<times> 'a list" where
  "keep_back x s = (True, s @ [x])"

definition deque_from_value :: "(Value \<Rightarrow> map_error + 'a) \<Rightarrow> Value \<Rightarrow> map_error + 'a list" where
  "deque_from_value fromv v = read_each fromv keep_back v []"

text \<open>A \<open>BTreeSet\<close> is its elements in order; a \<open>HashSet\<close> is the set, and writes in whatever order
  it is iterated.\<close>

definition btree_set_insert :: "'a::linorder \<Rightarrow> 'a list \<Rightarrow> bool \<times> 'a list" where
  "btree_set_insert x s = (if x \<in> set s then (False, s) else (True, insort x s))"

definition btree_set_from_value :: "(Value \<Rightarrow> map_error + 'a::linorder) \<Rightarrow> Value \<Rightarrow> map_error + 'a list" where
  "btree_set_from_value fromv v = read_each fromv btree_set_insert v []"

definition hash_set_insert :: "'a \<Rightarrow> 'a set \<Rightarrow> bool \<times> 'a set" where
  "hash_set_insert x s = (x \<notin> s, insert x s)"

definition hash_set_from_value :: "(Value \<Rightarrow> map_error + 'a) \<Rightarrow> Value \<Rightarrow> map_error + 'a set" where
  "hash_set_from_value fromv v = read_each fromv hash_set_insert v {}"

definition array_from_value :: "nat \<Rightarrow> (Value \<Rightarrow> map_error + 'a) \<Rightarrow> Value \<Rightarrow> map_error + 'a list" where
  "array_from_value n fromv v =
     and_then (list_of_value v) (\<lambda>items.
       if length items \<noteq> n then Inl bad_value else read_each fromv keep_back v [])"

text \<open>A tuple of two; the others repeat it for their positions.\<close>

definition pair_to_value :: "('a \<Rightarrow> value_error + Value) \<Rightarrow> ('b \<Rightarrow> value_error + Value) \<Rightarrow> 'a \<times> 'b \<Rightarrow> value_error + Value" where
  "pair_to_value ta tb p =
     and_then (ta (fst p)) (\<lambda>a. and_then (tb (snd p)) (\<lambda>b. Inr (VList [a, b])))"

definition pair_from_value :: "(Value \<Rightarrow> map_error + 'a) \<Rightarrow> (Value \<Rightarrow> map_error + 'b) \<Rightarrow> Value \<Rightarrow> map_error + 'a \<times> 'b" where
  "pair_from_value fa fb v =
     and_then (list_of_value v) (\<lambda>items.
       if length items \<noteq> 2 then Inl bad_value
       else and_then (map_err (at_index 0) (fa (items ! 0))) (\<lambda>a.
            and_then (map_err (at_index 1) (fb (items ! 1))) (\<lambda>b. Inr (a, b))))"

subsection \<open>What they read\<close>

fun keeps :: "('a \<Rightarrow> 's \<Rightarrow> bool \<times> 's) \<Rightarrow> 'a list \<Rightarrow> 's \<Rightarrow> 's option" where
  "keeps keep [] s = Some s"
| "keeps keep (x # xs) s = (if fst (keep x s) then keeps keep xs (snd (keep x s)) else None)"

lemma each_loop_Inr:
  "each_loop fromv keep i items s = Inr t \<longleftrightarrow>
   (\<exists>xs. list_all2 (\<lambda>v x. fromv v = Inr x) items xs \<and> keeps keep xs s = Some t)"
proof (induction items arbitrary: i s)
  case (Cons v items)
  have "each_loop fromv keep i (v # items) s = Inr t \<longleftrightarrow>
      (\<exists>x. fromv v = Inr x \<and> fst (keep x s) \<and> each_loop fromv keep (Suc i) items (snd (keep x s)) = Inr t)"
    by (auto simp: result_simps)
  also have "\<dots> \<longleftrightarrow> (\<exists>x xs. list_all2 (\<lambda>v x. fromv v = Inr x) (v # items) (x # xs) \<and> keeps keep (x # xs) s = Some t)"
    unfolding Cons.IH by auto
  also have "\<dots> \<longleftrightarrow> (\<exists>xs. list_all2 (\<lambda>v x. fromv v = Inr x) (v # items) xs \<and> keeps keep xs s = Some t)"
    by (metis list_all2_Cons1)
  finally show ?case .
qed simp

lemma vec_loop_each: "vec_loop fromv i items out = each_loop fromv keep_back i items out"
  by (induction items arbitrary: i out) (simp_all add: keep_back_def)

lemma keeps_back: "keeps keep_back xs s = Some (s @ xs)"
  by (induction xs arbitrary: s) (simp_all add: keep_back_def)

lemma keeps_hash_set: "keeps hash_set_insert xs s = Some t \<longleftrightarrow> distinct xs \<and> set xs \<inter> s = {} \<and> t = s \<union> set xs"
  by (induction xs arbitrary: s) (auto simp: hash_set_insert_def)

lemma keeps_btree_set:
  "keeps btree_set_insert xs s = Some t \<longleftrightarrow> distinct xs \<and> set xs \<inter> set s = {} \<and> t = fold insort xs s"
  by (induction xs arbitrary: s) (auto simp: btree_set_insert_def set_insort_key)

lemma sequence_reads [reads]:
  "vec_from_value fromv v = Inr xs \<longleftrightarrow> (\<exists>items. v = VList items \<and> list_all2 (\<lambda>v x. fromv v = Inr x) items xs)"
  "deque_from_value fromv v = Inr xs \<longleftrightarrow> (\<exists>items. v = VList items \<and> list_all2 (\<lambda>v x. fromv v = Inr x) items xs)"
  "array_from_value n fromv v = Inr xs \<longleftrightarrow>
     length xs = n \<and> (\<exists>items. v = VList items \<and> list_all2 (\<lambda>v x. fromv v = Inr x) items xs)"
  "hash_set_from_value fromv v = Inr S \<longleftrightarrow>
     (\<exists>items xs. v = VList items \<and> list_all2 (\<lambda>v x. fromv v = Inr x) items xs \<and> distinct xs \<and> S = set xs)"
  by (auto simp: vec_from_value_def deque_from_value_def array_from_value_def hash_set_from_value_def read_each_def
      result_simps reads vec_loop_each each_loop_Inr keeps_back keeps_hash_set dest: list_all2_lengthD)

lemma btree_set_reads [reads]:
  fixes fromv :: "Value \<Rightarrow> map_error + 'a::linorder"
  shows "btree_set_from_value fromv v = Inr s \<longleftrightarrow>
     (\<exists>items xs. v = VList items \<and> list_all2 (\<lambda>v x. fromv v = Inr x) items xs \<and> distinct xs \<and> s = sort xs)"
proof -
  have "fold insort xs [] = sort xs" for xs :: "'a list"
    by (simp add: sort_conv_fold)
  then show ?thesis
    by (auto simp: btree_set_from_value_def read_each_def result_simps reads each_loop_Inr keeps_btree_set)
qed

lemma pair_reads [reads]:
  "pair_from_value fa fb v = Inr (a, b) \<longleftrightarrow> (\<exists>x y. v = VList [x, y] \<and> fa x = Inr a \<and> fb y = Inr b)"
proof
  assume "pair_from_value fa fb v = Inr (a, b)"
  then obtain items where "v = VList items" "length items = 2" "fa (items ! 0) = Inr a" "fb (items ! 1) = Inr b"
    by (auto simp: pair_from_value_def reads result_simps split: if_splits)
  then show "\<exists>x y. v = VList [x, y] \<and> fa x = Inr a \<and> fb y = Inr b"
    by (auto simp: length_Suc_conv numeral_2_eq_2)
qed (auto simp: pair_from_value_def list_of_value_def)

lemma option_reads [reads]:
  "option_from_value fromv v = Inr o' \<longleftrightarrow>
     (if v = VNull then o' = None else \<exists>x. o' = Some x \<and> fromv v = Inr x)"
  by (cases v) (auto simp: option_from_value_def result_simps)

lemma list_to_value_Inr:
  "list_to_value tov xs = Inr v \<longleftrightarrow> (\<exists>items. v = VList items \<and> list_all2 (\<lambda>x i. tov x = Inr i) xs items)"
proof -
  have "fold_result (\<lambda>x l. and_then (tov x) (\<lambda>v. Inr (l @ [v]))) xs s = Inr l \<longleftrightarrow>
      (\<exists>items. l = s @ items \<and> list_all2 (\<lambda>x i. tov x = Inr i) xs items)" for s l
  proof (induction xs arbitrary: s)
    case (Cons x xs)
    then show ?case by (auto simp: result_simps list_all2_Cons1)
  qed auto
  then show ?thesis by (auto simp: list_to_value_def result_simps)
qed

subsection \<open>They keep the promise\<close>

context conversion
begin

lemma all_writes: "list_all ok xs \<Longrightarrow> \<exists>items. list_all2 (\<lambda>x i. tov x = Inr i) xs items \<and>
    list_all2 (\<lambda>v x. fromv v = Inr x) items xs"
proof (induction xs)
  case (Cons x xs)
  then obtain items v where "list_all2 (\<lambda>x i. tov x = Inr i) xs items" "list_all2 (\<lambda>v x. fromv v = Inr x) items xs"
    "tov x = Inr v" "fromv v = Inr x" using writes [of x] by auto
  then show ?case by (intro exI [of _ "v # items"]) simp
qed simp

lemma list_written:
  assumes "list_all ok xs"
  obtains items where "list_to_value tov xs = Inr (VList items)" "list_all2 (\<lambda>v x. fromv v = Inr x) items xs"
  using all_writes [OF assms] by (auto simp: list_to_value_Inr)

lemma vec_conversion: "conversion (list_to_value tov) (vec_from_value fromv) (list_all ok) (kinds_of GUATIAO_LIST)"
  by unfold_locales (auto simp: reads elim!: list_written)

lemma deque_conversion: "conversion (list_to_value tov) (deque_from_value fromv) (list_all ok) (kinds_of GUATIAO_LIST)"
  by unfold_locales (auto simp: reads elim!: list_written)

lemma array_conversion:
  "conversion (list_to_value tov) (array_from_value n fromv) (\<lambda>xs. length xs = n \<and> list_all ok xs) (kinds_of GUATIAO_LIST)"
  by unfold_locales (auto simp: reads elim!: list_written)

lemma hash_set_round_trip:
  assumes "list_all ok xs" "distinct xs"
  shows "\<exists>v. list_to_value tov xs = Inr v \<and> hash_set_from_value fromv v = Inr (set xs)"
  using assms by (auto simp: reads elim!: list_written)

lemma option_conversion:
  assumes "\<not> kinds_contains ks GUATIAO_NULL"
  shows "conversion (option_to_value tov) (option_from_value fromv) (pred_option ok) (kinds_union ks (kinds_of GUATIAO_NULL))"
proof
  fix x assume "pred_option ok x"
  then show "\<exists>v. option_to_value tov x = Inr v \<and> v \<noteq> VAbsent \<and> option_from_value fromv v = Inr x"
  proof (cases x)
    case (Some a)
    then obtain v where v: "tov a = Inr v" "v \<noteq> VAbsent" "fromv v = Inr a"
      using writes [of a] \<open>pred_option ok x\<close> by auto
    then have "v \<noteq> VNull" using reads_kinds [of v a] assms by auto
    then show ?thesis using v Some by (auto simp: option_to_value_def reads)
  qed (simp add: option_to_value_def reads)
next
  fix v x assume "v \<noteq> VAbsent" "option_from_value fromv v = Inr x"
  then show "\<exists>t. tag_of v = Inr t \<and> kinds_contains (kinds_union ks (kinds_of GUATIAO_NULL)) t"
    using reads_kinds [of v] by (auto simp: reads split: if_splits)
qed

text \<open>An optional value whose own type reads null does not come back: it is read as none.\<close>

lemma option_of_null:
  assumes "tov x = Inr VNull"
  shows "option_to_value tov (Some x) = option_to_value tov None"
  using assms by (simp add: option_to_value_def)

lemma pair_conversion:
  assumes "conversion tb fb okb kb"
  shows "conversion (pair_to_value tov tb) (pair_from_value fromv fb) (\<lambda>(a, b). ok a \<and> okb b) (kinds_of GUATIAO_LIST)"
proof
  fix p assume p: "case p of (a, b) \<Rightarrow> ok a \<and> okb b"
  obtain a b where ab: "p = (a, b)" by (cases p)
  obtain v u where "tov a = Inr v" "fromv v = Inr a" "tb b = Inr u" "fb u = Inr b"
    using p ab writes [of a] conversion.writes [OF assms, of b] by auto
  then show "\<exists>v. pair_to_value tov tb p = Inr v \<and> v \<noteq> VAbsent \<and> pair_from_value fromv fb v = Inr p"
    by (auto simp: pair_to_value_def ab reads)
next
  fix v p assume "pair_from_value fromv fb v = Inr p"
  then show "\<exists>t. tag_of v = Inr t \<and> kinds_contains (kinds_of GUATIAO_LIST) t" by (cases p) (auto simp: reads)
qed

end

locale ordered_conversion = conversion tov fromv ok ks
  for tov :: "'a::linorder \<Rightarrow> value_error + Value" and fromv ok ks
begin

lemma btree_set_conversion:
  "conversion (list_to_value tov) (btree_set_from_value fromv) (\<lambda>s. sorted s \<and> distinct s \<and> list_all ok s) (kinds_of GUATIAO_LIST)"
proof
  fix s :: "'a list" assume s: "sorted s \<and> distinct s \<and> list_all ok s"
  then obtain items where i: "list_to_value tov s = Inr (VList items)" "list_all2 (\<lambda>v x. fromv v = Inr x) items s"
    by (auto elim: list_written)
  then have "btree_set_from_value fromv (VList items) = Inr s"
    using s by (auto simp: reads sorted_sort_id intro!: exI [of _ s])
  then show "\<exists>v. list_to_value tov s = Inr v \<and> v \<noteq> VAbsent \<and> btree_set_from_value fromv v = Inr s"
    using i by auto
qed (auto simp: reads)

end

interpretation ordered_integers: ordered_conversion integer_to_value "integer_from_value sig w" "int_fits sig w"
    "kinds_of GUATIAO_NUMBER" for sig w
  by unfold_locales

section \<open>Maps whose keys are data\<close>

text \<open>What a type that keys a map promises: its text reads back as the key.\<close>

locale map_key =
  fixes to_key :: "'k \<Rightarrow> value_error + str"
    and from_key :: "str \<Rightarrow> map_error + 'k"
    and key_ok :: "'k \<Rightarrow> bool"
  assumes key_writes: "key_ok k \<Longrightarrow> \<exists>s. to_key k = Inr s \<and> is_text s \<and> from_key s = Inr k"

definition text_to_key :: "str \<Rightarrow> value_error + str" where
  "text_to_key s = Inr s"

definition text_from_key :: "str \<Rightarrow> map_error + str" where
  "text_from_key s = Inr s"

definition is_integer_key :: "str \<Rightarrow> bool" where
  "is_integer_key key \<longleftrightarrow>
     (let ds = (if key \<noteq> [] \<and> hd key = CHR ''-'' then tl key else key)
      in ds \<noteq> [] \<and> list_all is_digit ds \<and> (ds = ''0'' \<or> hd ds \<noteq> CHR ''0''))"

definition integer_to_key :: "int \<Rightarrow> value_error + str" where
  "integer_to_key n = Inr (show_int n)"

definition integer_from_key :: "bool \<Rightarrow> nat \<Rightarrow> str \<Rightarrow> map_error + int" where
  "integer_from_key sig w key =
     ok_or bad_value (if is_integer_key key then parse_int sig w key else None)"

definition bool_to_key :: "bool \<Rightarrow> value_error + str" where
  "bool_to_key b = Inr (if b then ''true'' else ''false'')"

definition bool_from_key :: "str \<Rightarrow> map_error + bool" where
  "bool_from_key key =
     (if key = ''true'' then Inr True else if key = ''false'' then Inr False else Inl bad_value)"

definition entries_to_value ::
  "u64 \<times> u64 \<Rightarrow> ('k \<Rightarrow> value_error + str) \<Rightarrow> ('a \<Rightarrow> value_error + Value) \<Rightarrow> ('k \<times> 'a) list \<Rightarrow> value_error + Value" where
  "entries_to_value drawn to_key tov es =
     and_then (fold_result (\<lambda>e out. and_then (to_key (fst e)) (\<lambda>key. and_then (tov (snd e)) (\<lambda>v.
         Inr (filling_set drawn out key v)))) es (with_room [] (length es)))
       (\<lambda>out. Inr (VMap (fentries out)))"

fun entries_loop ::
  "(str \<Rightarrow> map_error + 'k) \<Rightarrow> (Value \<Rightarrow> map_error + 'a) \<Rightarrow> ('k \<Rightarrow> 'a \<Rightarrow> 's \<Rightarrow> bool \<times> 's) \<Rightarrow> map_entries \<Rightarrow> 's \<Rightarrow> map_error + 's" where
  "entries_loop from_key fromv ins [] s = Inr s"
| "entries_loop from_key fromv ins (e # es) s =
     and_then (map_err (at_key (fst e)) (from_key (fst e))) (\<lambda>key.
     and_then (map_err (at_key (fst e)) (fromv (snd e))) (\<lambda>r.
       if fst (ins key r s) then entries_loop from_key fromv ins es (snd (ins key r s))
       else Inl (at_key (fst e) bad_value)))"

definition entries_from_value ::
  "(str \<Rightarrow> map_error + 'k) \<Rightarrow> (Value \<Rightarrow> map_error + 'a) \<Rightarrow> ('k \<Rightarrow> 'a \<Rightarrow> 's \<Rightarrow> bool \<times> 's) \<Rightarrow> Value \<Rightarrow> 's \<Rightarrow> map_error + 's" where
  "entries_from_value from_key fromv ins v s =
     and_then (map_of_value v) (\<lambda>es. entries_loop from_key fromv ins es s)"

text \<open>A \<open>BTreeMap\<close> is its entries in the order of their keys; inserting a key it has replaces the
  entry and answers the old one.\<close>

definition btree_insert :: "'k::linorder \<Rightarrow> 'a \<Rightarrow> ('k \<times> 'a) list \<Rightarrow> bool \<times> ('k \<times> 'a) list" where
  "btree_insert k x m =
     (if k \<in> fst ` set m then (False, map (\<lambda>e. if fst e = k then (k, x) else e) m)
      else (True, insort_key fst (k, x) m))"

definition btree_map_from_value ::
  "(str \<Rightarrow> map_error + 'k::linorder) \<Rightarrow> (Value \<Rightarrow> map_error + 'a) \<Rightarrow> Value \<Rightarrow> map_error + ('k \<times> 'a) list" where
  "btree_map_from_value from_key fromv v = entries_from_value from_key fromv btree_insert v []"

definition hash_insert :: "'k \<Rightarrow> 'a \<Rightarrow> ('k \<rightharpoonup> 'a) \<Rightarrow> bool \<times> ('k \<rightharpoonup> 'a)" where
  "hash_insert k x m = (m k = None, m(k \<mapsto> x))"

definition hash_map_from_value ::
  "(str \<Rightarrow> map_error + 'k) \<Rightarrow> (Value \<Rightarrow> map_error + 'a) \<Rightarrow> Value \<Rightarrow> map_error + ('k \<rightharpoonup> 'a)" where
  "hash_map_from_value from_key fromv v = entries_from_value from_key fromv hash_insert v Map.empty"

subsection \<open>Keys\<close>

lemma integer_key_text: "is_integer_key (show_int n)"
proof -
  have d: "list_all is_digit (show_nat m)" "show_nat m = ''0'' \<or> hd (show_nat m) \<noteq> CHR ''0''" for m
    using show_nat_digits [of m] show_nat_leading [of m] by (cases "m = 0"; simp)+
  have "hd (show_nat m) \<noteq> CHR ''-''" for m
    using d(1) [of m] digit_not_sign by (cases "show_nat m") auto
  then show ?thesis using d by (auto simp: is_integer_key_def show_int_def Let_def)
qed

interpretation text_keys: map_key text_to_key text_from_key is_text
  by unfold_locales (simp add: text_to_key_def text_from_key_def)

interpretation integer_keys: map_key integer_to_key "integer_from_key sig w" "int_fits sig w" for sig w
proof
  fix k assume "int_fits sig w k"
  then show "\<exists>s. integer_to_key k = Inr s \<and> is_text s \<and> integer_from_key sig w s = Inr k"
    using show_int_json_number [of k]
    by (simp add: integer_to_key_def integer_from_key_def integer_key_text parse_show_int number_is_text is_number_iff)
qed

interpretation bool_keys: map_key bool_to_key bool_from_key "\<lambda>_. True"
  by unfold_locales (auto simp: bool_to_key_def bool_from_key_def intro!: ascii_is_text simp: ascii_def)

subsection \<open>What they read\<close>

fun inserts :: "('k \<Rightarrow> 'a \<Rightarrow> 's \<Rightarrow> bool \<times> 's) \<Rightarrow> ('k \<times> 'a) list \<Rightarrow> 's \<Rightarrow> 's option" where
  "inserts ins [] s = Some s"
| "inserts ins (e # es) s =
     (if fst (ins (fst e) (snd e) s) then inserts ins es (snd (ins (fst e) (snd e) s)) else None)"

definition entry_reads :: "(str \<Rightarrow> map_error + 'k) \<Rightarrow> (Value \<Rightarrow> map_error + 'a) \<Rightarrow> entry \<Rightarrow> 'k \<times> 'a \<Rightarrow> bool" where
  "entry_reads from_key fromv e r \<longleftrightarrow> from_key (fst e) = Inr (fst r) \<and> fromv (snd e) = Inr (snd r)"

lemma entries_loop_Inr:
  "entries_loop from_key fromv ins es s = Inr t \<longleftrightarrow>
   (\<exists>rs. list_all2 (entry_reads from_key fromv) es rs \<and> inserts ins rs s = Some t)"
proof (induction es arbitrary: s)
  case (Cons e es)
  have "entries_loop from_key fromv ins (e # es) s = Inr t \<longleftrightarrow>
      (\<exists>k x. entry_reads from_key fromv e (k, x) \<and> fst (ins k x s) \<and>
        entries_loop from_key fromv ins es (snd (ins k x s)) = Inr t)"
    by (auto simp: result_simps entry_reads_def)
  also have "\<dots> \<longleftrightarrow> (\<exists>r rs. list_all2 (entry_reads from_key fromv) (e # es) (r # rs) \<and> inserts ins (r # rs) s = Some t)"
    unfolding Cons.IH by auto
  also have "\<dots> \<longleftrightarrow> (\<exists>rs. list_all2 (entry_reads from_key fromv) (e # es) rs \<and> inserts ins rs s = Some t)"
    by (metis list_all2_Cons1)
  finally show ?case .
qed simp

lemma inserts_hash:
  "inserts hash_insert rs m = Some t \<longleftrightarrow> distinct (map fst rs) \<and> fst ` set rs \<inter> dom m = {} \<and> t = m ++ map_of rs"
proof (induction rs arbitrary: m)
  case (Cons r rs)
  have "inserts hash_insert (r # rs) m = Some t \<longleftrightarrow>
      m (fst r) = None \<and> inserts hash_insert rs (m(fst r \<mapsto> snd r)) = Some t"
    by (simp add: hash_insert_def [of "fst r" "snd r" m])
  also have "\<dots> \<longleftrightarrow> m (fst r) = None \<and> distinct (map fst rs) \<and> fst r \<notin> fst ` set rs \<and>
      fst ` set rs \<inter> dom m = {} \<and> t = m(fst r \<mapsto> snd r) ++ map_of rs"
    unfolding Cons.IH by auto
  also have "\<dots> \<longleftrightarrow> distinct (map fst (r # rs)) \<and> fst ` set (r # rs) \<inter> dom m = {} \<and> t = m ++ map_of (r # rs)"
    using map_add_upd_left [of "fst r" "map_of rs" m "snd r"]
    by (cases r) (auto simp: dom_map_of_conv_image_fst)
  finally show ?case .
qed auto

lemma inserts_btree:
  "inserts btree_insert rs m = Some t \<longleftrightarrow>
   distinct (map fst rs) \<and> fst ` set rs \<inter> fst ` set m = {} \<and> t = fold (insort_key fst) rs m"
  by (induction rs arbitrary: m) (auto simp: btree_insert_def set_insort_key)

lemma btree_map_reads [reads]:
  fixes from_key :: "str \<Rightarrow> map_error + 'k::linorder"
  shows "btree_map_from_value from_key fromv v = Inr m \<longleftrightarrow>
     (\<exists>es rs. v = VMap es \<and> keys_are_text es \<and> list_all2 (entry_reads from_key fromv) es rs \<and>
        distinct (map fst rs) \<and> m = fold (insort_key fst) rs [])"
  by (auto simp: btree_map_from_value_def entries_from_value_def result_simps reads entries_loop_Inr inserts_btree)

lemma hash_map_reads [reads]:
  "hash_map_from_value from_key fromv v = Inr m \<longleftrightarrow>
     (\<exists>es rs. v = VMap es \<and> keys_are_text es \<and> list_all2 (entry_reads from_key fromv) es rs \<and>
        distinct (map fst rs) \<and> m = map_of rs)"
  by (auto simp: hash_map_from_value_def entries_from_value_def result_simps reads entries_loop_Inr inserts_hash)

subsection \<open>They keep the promise\<close>

lemma fold_filling_set:
  "filling_ok f \<Longrightarrow> fentries (fold (\<lambda>(k, v) f. filling_set drawn f k v) es f) = fold (\<lambda>(k, v) m. map_set m k v) es (fentries f)"
  using filling_map.store_all_content [of f drawn es] by (simp add: filling_map.store_all_def)

lemma fold_map_set_distinct:
  "distinct (map fst es) \<Longrightarrow> fst ` set es \<inter> fst ` set m = {} \<Longrightarrow> fold (\<lambda>(k, v) m. map_set m k v) es m = m @ es"
proof (induction es arbitrary: m)
  case (Cons e es)
  obtain k v where e: "e = (k, v)" by (cases e)
  then have "position m k = None" using Cons.prems(2) by (auto simp: position_None)
  then have "map_set m k v = m @ [e]" by (simp add: map_set_def insert_node_def e)
  then show ?case using Cons.IH [of "m @ [e]"] Cons.prems e by auto
qed simp

locale keyed_conversion = map_key to_key from_key key_ok + conversion tov fromv ok ks
  for to_key :: "'k::linorder \<Rightarrow> value_error + str" and from_key key_ok
    and tov :: "'a \<Rightarrow> value_error + Value" and fromv ok ks
begin

definition entry_ok :: "'k \<times> 'a \<Rightarrow> bool" where
  "entry_ok e \<longleftrightarrow> key_ok (fst e) \<and> ok (snd e)"

lemma entries_written:
  assumes "list_all entry_ok es"
  shows "\<exists>ws. fold_result (\<lambda>e out. and_then (to_key (fst e)) (\<lambda>key. and_then (tov (snd e)) (\<lambda>v.
      Inr (filling_set drawn out key v)))) es f = Inr (fold (\<lambda>(k, v) f. filling_set drawn f k v) ws f) \<and>
    list_all2 (entry_reads from_key fromv) ws es \<and> keys_are_text ws"
  using assms
proof (induction es arbitrary: f)
  case Nil
  show ?case by (intro exI [of _ "[]"]) (simp add: keys_are_text_def)
next
  case (Cons e es)
  then obtain s v where sv: "to_key (fst e) = Inr s" "is_text s" "from_key s = Inr (fst e)" "tov (snd e) = Inr v" "fromv v = Inr (snd e)"
    using key_writes [of "fst e"] writes [of "snd e"] by (auto simp: entry_ok_def)
  obtain ws where ws: "fold_result (\<lambda>e out. and_then (to_key (fst e)) (\<lambda>key. and_then (tov (snd e)) (\<lambda>v.
      Inr (filling_set drawn out key v)))) es (filling_set drawn f s v) =
      Inr (fold (\<lambda>(k, v) f. filling_set drawn f k v) ws (filling_set drawn f s v))"
    "list_all2 (entry_reads from_key fromv) ws es" "keys_are_text ws"
    using Cons.IH [of "filling_set drawn f s v"] Cons.prems by auto
  show ?case
    by (intro exI [of _ "(s, v) # ws"]) (use sv ws in \<open>simp add: keys_are_text_def entry_reads_def [of from_key fromv "(s, v)"]\<close>)
qed

text \<open>Keys that read back apart were written apart, so no entry replaces another.\<close>

lemma keys_written_apart:
  "list_all2 (entry_reads from_key fromv) ws es \<Longrightarrow> distinct (map fst es) \<Longrightarrow> distinct (map fst ws)"
proof (induction rule: list_all2_induct)
  case (Cons w ws e es)
  have "fst w \<notin> fst ` set ws"
  proof
    assume "fst w \<in> fst ` set ws"
    then obtain i where "i < length ws" "fst (ws ! i) = fst w" by (auto simp: in_set_conv_nth)
    then have "i < length es" "from_key (fst w) = Inr (fst (es ! i))"
      using Cons.hyps(2) by (auto simp: list_all2_conv_all_nth entry_reads_def)
    then have "fst e = fst (es ! i)" using Cons.hyps(1) by (simp add: entry_reads_def)
    then show False using \<open>i < length es\<close> Cons.prems by auto
  qed
  then show ?case using Cons by simp
qed simp

lemma entries_conversion:
  assumes "list_all entry_ok es" "distinct (map fst es)"
  shows "\<exists>ws. entries_to_value drawn to_key tov es = Inr (VMap ws) \<and> keys_are_text ws \<and>
    list_all2 (entry_reads from_key fromv) ws es"
proof -
  obtain ws where ws: "fold_result (\<lambda>e out. and_then (to_key (fst e)) (\<lambda>key. and_then (tov (snd e)) (\<lambda>v.
      Inr (filling_set drawn out key v)))) es (with_room [] (length es)) =
      Inr (fold (\<lambda>(k, v) f. filling_set drawn f k v) ws (with_room [] (length es)))"
    "list_all2 (entry_reads from_key fromv) ws es" "keys_are_text ws"
    using entries_written [OF assms(1)] by blast
  have "filling_ok (with_room [] (length es))" by (simp add: filling_ok_def with_room_def)
  then have "entries_to_value drawn to_key tov es = Inr (VMap ws)"
    using ws(1) keys_written_apart [OF ws(2) assms(2)]
    by (simp add: entries_to_value_def fold_filling_set fold_map_set_distinct with_room_def)
  then show ?thesis using ws by blast
qed

lemma fold_insort_sorted:
  "sorted (map fst es) \<Longrightarrow> distinct (map fst es) \<Longrightarrow> fold (insort_key fst) es [] = (es :: ('k \<times> 'a) list)"
proof -
  assume a: "sorted (map fst es)" "distinct (map fst es)"
  have "fold (insort_key fst) rs m = m @ rs" if "sorted (map fst (m @ rs))" "distinct (map fst (m @ rs))" for m rs :: "('k \<times> 'a) list"
    using that
  proof (induction rs arbitrary: m)
    case (Cons r rs)
    have "fst r \<notin> fst ` set m" "\<forall>x\<in>set m. fst x \<le> fst r" using Cons.prems by (auto simp: sorted_append)
    then have "\<forall>x\<in>set m. fst x < fst r" by (metis image_eqI less_le)
    then have "insort_key fst r m = m @ [r]" by (induction m) auto
    then show ?case using Cons.IH [of "m @ [r]"] Cons.prems by simp
  qed simp
  from this [of "[]" es] a show ?thesis by simp
qed

lemma btree_map_conversion:
  "conversion (entries_to_value drawn to_key tov) (btree_map_from_value from_key fromv)
     (\<lambda>m. sorted (map fst m) \<and> distinct (map fst m) \<and> list_all entry_ok m) (kinds_of GUATIAO_MAP)"
proof
  fix m :: "('k \<times> 'a) list" assume m: "sorted (map fst m) \<and> distinct (map fst m) \<and> list_all entry_ok m"
  then obtain ws where ws: "entries_to_value drawn to_key tov m = Inr (VMap ws)" "keys_are_text ws"
      "list_all2 (entry_reads from_key fromv) ws m"
    using entries_conversion by blast
  have "btree_map_from_value from_key fromv (VMap ws) = Inr m"
    using ws m by (auto simp: reads fold_insort_sorted intro!: exI [of _ m])
  then show "\<exists>v. entries_to_value drawn to_key tov m = Inr v \<and> v \<noteq> VAbsent \<and> btree_map_from_value from_key fromv v = Inr m"
    using ws by auto
qed (auto simp: reads)

lemma hash_map_round_trip:
  assumes "list_all entry_ok es" "distinct (map fst es)"
  shows "\<exists>v. entries_to_value drawn to_key tov es = Inr v \<and> hash_map_from_value from_key fromv v = Inr (map_of es)"
  using entries_conversion [OF assms] assms(2) by (fastforce simp: reads)

end

interpretation integer_maps: keyed_conversion integer_to_key "integer_from_key sig w" "int_fits sig w"
    integer_to_value "integer_from_value sig' w'" "int_fits sig' w'" "kinds_of GUATIAO_NUMBER" for sig w sig' w'
  by unfold_locales

section \<open>Durations and dates\<close>

definition i64_checked :: "int \<Rightarrow> int option" where
  "i64_checked n = (if int_fits True 64 n then Some n else None)"

text \<open>The loop that multiplies by ten, in a \<open>u128\<close>.\<close>

fun times_ten :: "nat \<Rightarrow> nat \<Rightarrow> nat option" where
  "times_ten 0 n = Some n"
| "times_ten (Suc k) n = (if int_fits False 128 (int (n * 10)) then times_ten k (n * 10) else None)"

definition exponent_mark :: "char \<Rightarrow> bool" where
  "exponent_mark c \<longleftrightarrow> c = CHR ''e'' \<or> c = CHR ''E''"

definition split_exponent :: "str \<Rightarrow> (str \<times> int) option" where
  "split_exponent s =
     (let mantissa = takeWhile (\<lambda>c. \<not> exponent_mark c) s; after = dropWhile (\<lambda>c. \<not> exponent_mark c) s
      in if after = [] then Some (mantissa, 0)
         else map_option (\<lambda>e. (mantissa, e)) (parse_int True 64 (tl after)))"

definition split_point :: "str \<Rightarrow> str \<times> str" where
  "split_point s = (takeWhile (\<lambda>c. c \<noteq> CHR ''.'') s, tl (dropWhile (\<lambda>c. c \<noteq> CHR ''.'') s))"

definition seconds_of :: "str \<Rightarrow> (nat \<times> nat) option" where
  "seconds_of text =
     (let neg = (text \<noteq> [] \<and> hd text = CHR ''-''); rst = (if neg then tl text else text)
      in Option.bind (split_exponent rst) (\<lambda>(mantissa, ex).
         let (whole, fraction) = split_point mantissa;
             ds = dropWhile (\<lambda>c. c = CHR ''0'') (whole @ fraction);
             trimmed = pop_zeros ds
         in if trimmed = [] then Some (0, 0)
            else if neg then None
            else
              Option.bind (i64_checked (ex - int (length fraction))) (\<lambda>n.
              Option.bind (i64_checked (n + 9)) (\<lambda>n.
              Option.bind (i64_checked (n + int (length ds - length trimmed))) (\<lambda>shift.
              if shift < 0 then None
              else
                Option.bind (parse_int False 128 trimmed) (\<lambda>n.
                Option.bind (times_ten (nat shift) (nat n)) (\<lambda>nanos.
                if int_fits False 64 (int (nanos div BILLION)) then Some (nanos div BILLION, nanos mod BILLION)
                else None)))))))"

definition duration_to_value :: "duration \<Rightarrow> value_error + Value" where
  "duration_to_value d =
     and_then (integer_to_value (int (fst d))) (\<lambda>secs.
     and_then (integer_to_value (int (snd d))) (\<lambda>nanos. Inr (VList [secs, nanos])))"

definition duration_parts :: "Value \<Rightarrow> map_error + int \<times> int" where
  "duration_parts v =
     (case tag_of v of
        Inr GUATIAO_LIST \<Rightarrow>
          and_then (list_of_value v) (\<lambda>items.
            case items of
              [secs, nanos] \<Rightarrow>
                and_then (map_err (at_index 0) (integer_from_value False 64 secs)) (\<lambda>s.
                and_then (map_err (at_index 1) (integer_from_value False 32 nanos)) (\<lambda>n. Inr (s, n)))
            | _ \<Rightarrow> Inl bad_value)
      | Inr GUATIAO_MAP \<Rightarrow>
          and_then (map_of_value v) (\<lambda>es.
          and_then (map_required es ''secs'') (\<lambda>secs.
          and_then (map_err (under ''secs'') (integer_from_value False 64 secs)) (\<lambda>s.
          and_then (map_required es ''nanos'') (\<lambda>nanos.
          and_then (map_err (under ''nanos'') (integer_from_value False 32 nanos)) (\<lambda>n. Inr (s, n))))))
      | Inr GUATIAO_NUMBER \<Rightarrow>
          and_then (ok_or bad_value (as_number v)) (\<lambda>text.
          and_then (ok_or bad_value (seconds_of text)) (\<lambda>(s, n). Inr (int s, int n)))
      | _ \<Rightarrow> Inl bad_value)"

definition duration_from_value :: "Value \<Rightarrow> map_error + duration" where
  "duration_from_value v =
     and_then (duration_parts v) (\<lambda>(s, n).
       if n \<ge> int BILLION then Inl (at_index 1 bad_value) else Inr (nat s, nat n))"

definition duration_ok :: "duration \<Rightarrow> bool" where
  "duration_ok d \<longleftrightarrow> fst d \<le> U64_MAX \<and> snd d < BILLION"

text \<open>The types that cross as their text: how they show and how they are parsed.\<close>

definition shown_to_value :: "('a \<Rightarrow> str) \<Rightarrow> 'a \<Rightarrow> value_error + Value" where
  "shown_to_value sh x = Inr (VString (sh x))"

definition parsed_from_value :: "(str \<Rightarrow> value_error + 'a) \<Rightarrow> Value \<Rightarrow> map_error + 'a" where
  "parsed_from_value ps v =
     and_then (str_from_value v) (\<lambda>s. map_err (\<lambda>_. bad_value) (ps s))"

definition shown_to_key :: "('a \<Rightarrow> str) \<Rightarrow> 'a \<Rightarrow> value_error + str" where
  "shown_to_key sh x = Inr (sh x)"

definition parsed_from_key :: "(str \<Rightarrow> value_error + 'a) \<Rightarrow> str \<Rightarrow> map_error + 'a" where
  "parsed_from_key ps key = map_err (\<lambda>_. bad_value) (ps key)"

text \<open>What such a type promises, and what follows for it as a value and as a key.\<close>

locale shown =
  fixes sh :: "'a \<Rightarrow> str"
    and ps :: "str \<Rightarrow> value_error + 'a"
    and ok :: "'a \<Rightarrow> bool"
  assumes parses_back: "ok x \<Longrightarrow> is_text (sh x) \<and> ps (sh x) = Inr x"

sublocale shown \<subseteq> as_value: conversion "shown_to_value sh" "parsed_from_value ps" ok "kinds_of GUATIAO_STRING"
  by unfold_locales (auto simp: shown_to_value_def parsed_from_value_def reads result_simps parses_back)

sublocale shown \<subseteq> as_key: map_key "shown_to_key sh" "parsed_from_key ps" ok
  by unfold_locales (simp add: shown_to_key_def parsed_from_key_def parses_back)

subsection \<open>Their text is ASCII\<close>

lemma ascii_show_nat: "list_all ascii (show_nat n)"
  by (simp add: digits_ascii show_nat_digits)

lemma ascii_show_pad: "list_all ascii (show_pad w v)"
  by (simp add: digits_ascii show_pad_def pad_nat_digits)

lemma ascii_write_fraction: "list_all ascii (write_fraction n)"
proof -
  have "list_all ascii (pop_zeros s)" if "list_all ascii s" for s
    using that by (auto simp: pop_zeros_def list_all_iff dest: set_dropWhileD)
  then show ?thesis by (simp add: write_fraction_def ascii_show_pad) (simp add: ascii_def)
qed

lemma ascii_concat: "(\<And>x. x \<in> set xs \<Longrightarrow> list_all ascii (f x)) \<Longrightarrow> list_all ascii (concat (map f xs))"
  by (induction xs) auto

lemma ascii_times:
  "list_all ascii (show_date d)" "list_all ascii (show_time t)"
  "list_all ascii (show_date_time x)" "list_all ascii (show_timestamp u)"
  by (simp_all add: show_date_def show_time_def show_date_time_def show_timestamp_def ascii_show_pad ascii_write_fraction)
     (simp_all add: ascii_def)

lemma ascii_show_unit: "ascii (snd p) \<Longrightarrow> list_all ascii (show_unit u p)"
  by (simp add: show_unit_def ascii_show_nat)

lemma ascii_span: "list_all ascii (show_span s)"
proof -
  have [simp]: "ascii (CHR ''Y'')" "ascii (CHR ''M'')" "ascii (CHR ''W'')" "ascii (CHR ''D'')" "ascii (CHR ''H'')"
    "ascii (CHR ''S'')" "ascii (CHR ''T'')" "ascii (CHR ''P'')" "ascii (CHR ''-'')" "ascii (CHR ''0'')"
    by (simp_all add: ascii_def)
  show ?thesis
    by (simp add: show_span_def Let_def ascii_show_unit ascii_show_nat ascii_write_fraction)
qed

interpretation spans: shown show_span span_from_str span_ok
  by unfold_locales (simp add: span_round_trip ascii_span ascii_is_text)

interpretation dates: shown show_date date_from_str date_ok
  by unfold_locales (simp add: date_from_str_iff ascii_times ascii_is_text)

interpretation day_times: shown show_time time_from_str time_ok
  by unfold_locales (auto simp: time_from_str_iff ascii_times ascii_is_text intro: show_time_text)

interpretation date_times: shown show_date_time date_time_from_str date_time_ok
  by unfold_locales (auto simp: date_time_from_str_iff ascii_times ascii_is_text intro: show_date_time_text)

interpretation timestamps: shown show_timestamp timestamp_from_str timestamp_ok
  by unfold_locales (simp add: timestamp_from_str_iff ascii_times ascii_is_text names_show_timestamp)

interpretation date_maps: keyed_conversion "shown_to_key show_date" "parsed_from_key date_from_str" date_ok
    str_to_value str_from_value is_text "kinds_of GUATIAO_STRING"
  by unfold_locales

interpretation ordered_dates: ordered_conversion "shown_to_value show_date" "parsed_from_value date_from_str" date_ok
    "kinds_of GUATIAO_STRING"
  by unfold_locales

interpretation durations: conversion duration_to_value duration_from_value duration_ok
    "kinds_union (kinds_union (kinds_of GUATIAO_NUMBER) (kinds_of GUATIAO_LIST)) (kinds_of GUATIAO_MAP)"
proof
  fix d assume d: "duration_ok d"
  obtain s n where sn: "d = (s, n)" by (cases d)
  have "integer_from_value False 64 (VNumber (show_int (int s))) = Inr (int s)"
    "integer_from_value False 32 (VNumber (show_int (int n))) = Inr (int n)"
    using d by (simp_all add: reads sn duration_ok_def int_fits_def int_lo_def int_hi_def U64_MAX_def BILLION_def)
  then have "duration_from_value (VList [VNumber (show_int (int s)), VNumber (show_int (int n))]) = Inr d"
    using d by (simp add: duration_from_value_def duration_parts_def list_of_value_def sn duration_ok_def)
  then show "\<exists>v. duration_to_value d = Inr v \<and> v \<noteq> VAbsent \<and> duration_from_value v = Inr d"
    by (simp add: duration_to_value_def sn)
next
  fix v d assume v: "v \<noteq> VAbsent" "duration_from_value v = Inr d"
  then show "\<exists>t. tag_of v = Inr t \<and>
      kinds_contains (kinds_union (kinds_union (kinds_of GUATIAO_NUMBER) (kinds_of GUATIAO_LIST)) (kinds_of GUATIAO_MAP)) t"
    by (cases v) (auto simp: duration_from_value_def duration_parts_def)
qed

section \<open>A number of seconds is read exactly\<close>

text \<open>What a number in the grammar denotes: minus or not, \<open>m\<close> times ten to the \<open>e\<close>, with its
  exponent's own value \<open>x\<close>.\<close>

definition exponent_of :: "str \<Rightarrow> int" where
  "exponent_of ex =
     (if ex = [] then 0
      else if hd (tl ex) = CHR ''-'' then - int (dec_val (drop 2 ex))
      else if hd (tl ex) = CHR ''+'' then int (dec_val (drop 2 ex))
      else int (dec_val (tl ex)))"

definition denotes :: "str \<Rightarrow> bool \<Rightarrow> nat \<Rightarrow> int \<Rightarrow> int \<Rightarrow> bool" where
  "denotes s neg m e x \<longleftrightarrow>
     (\<exists>sg ip fr ex. s = sg @ ip @ fr @ ex \<and> json_int ip \<and> json_frac fr \<and> json_exp ex \<and>
        sg = (if neg then ''-'' else []) \<and> m = dec_val (ip @ tl fr) \<and> x = exponent_of ex \<and>
        e = x - int (length (tl fr)))"

text \<open>\<open>m\<close> times ten to the \<open>k\<close> is the whole number \<open>t\<close>.\<close>

definition scaled :: "nat \<Rightarrow> int \<Rightarrow> nat \<Rightarrow> bool" where
  "scaled m k t \<longleftrightarrow> (if 0 \<le> k then m * 10 ^ nat k = t else m = t * 10 ^ nat (- k))"

lemma fits_unsigned: "int_fits False w (int n) \<longleftrightarrow> n < 2 ^ w"
proof -
  have "int n \<le> 2 ^ w - 1 \<longleftrightarrow> int n < int (2 ^ w)" by simp
  then show ?thesis unfolding int_fits_def int_lo_def int_hi_def of_nat_less_iff by simp
qed

lemma times_ten_eq: "0 < n \<Longrightarrow> n < 2 ^ 128 \<Longrightarrow> times_ten k n = (if n * 10 ^ k < 2 ^ 128 then Some (n * 10 ^ k) else None)"
proof (induction k arbitrary: n)
  case (Suc k)
  have p: "n * 10 ^ Suc k = n * 10 * 10 ^ k" by simp
  have "n * 10 \<le> n * 10 ^ Suc k" by simp
  moreover have "int_fits False 128 (int (n * 10)) \<longleftrightarrow> n * 10 < 2 ^ 128" by (rule fits_unsigned)
  ultimately show ?case
  proof (cases "n * 10 < 2 ^ 128")
    case True
    then show ?thesis using Suc.IH [of "n * 10"] Suc.prems(1) \<open>int_fits False 128 (int (n * 10)) \<longleftrightarrow> _\<close> unfolding p by simp
  next
    case False
    then have "\<not> n * 10 ^ Suc k < 2 ^ 128" using \<open>n * 10 \<le> n * 10 ^ Suc k\<close> by linarith
    then show ?thesis using False \<open>int_fits False 128 (int (n * 10)) \<longleftrightarrow> _\<close> by (simp only: times_ten.simps if_False)
  qed
qed simp

lemma parse_signed:
  assumes "ds \<noteq> []" "list_all is_digit ds" "sg \<in> {[], ''+'', ''-''}"
  shows "parse_int True w (sg @ ds) =
    (let n = (if sg = ''-'' then - int (dec_val ds) else int (dec_val ds)) in if int_fits True w n then Some n else None)"
proof -
  consider "sg = []" | "sg = ''+''" | "sg = ''-''" using assms(3) by blast
  then show ?thesis
  proof cases
    case 2
    then show ?thesis using assms(1,2) by (simp add: parse_int_def Let_def)
  qed (simp_all add: parse_digits assms Let_def)
qed

lemma exponent_of_sign:
  assumes "ds \<noteq> []" "list_all is_digit ds" "sg \<in> {[], ''+'', ''-''}"
  shows "exponent_of (c # sg @ ds) = (if sg = ''-'' then - int (dec_val ds) else int (dec_val ds))"
proof -
  have h: "hd ds \<noteq> CHR ''+''" "hd ds \<noteq> CHR ''-''" using assms(1,2) digit_not_sign by (cases ds; simp)+
  consider "sg = []" | "sg = ''+''" | "sg = ''-''" using assms(3) by blast
  then show ?thesis by cases (use h in \<open>simp_all add: exponent_of_def\<close>)
qed

lemma split_exponent_number:
  assumes "list_all (\<lambda>c. is_digit c \<or> c = CHR ''.'') man" "json_exp ex"
  shows "split_exponent (man @ ex) =
    (if ex = [] \<or> int_fits True 64 (exponent_of ex) then Some (man, exponent_of ex) else None)"
proof -
  have m: "\<forall>c\<in>set man. \<not> exponent_mark c"
    using assms(1) digit_not_sign by (auto simp: list_all_iff exponent_mark_def)
  show ?thesis
  proof (cases "ex = []")
    case True
    then show ?thesis using m by (simp add: split_exponent_def takeWhile_eq_all_conv [THEN iffD2] dropWhile_eq_Nil_conv [THEN iffD2] exponent_of_def)
  next
    case False
    then obtain c sg ds where ex: "ex = c # sg @ ds" "c = CHR ''e'' \<or> c = CHR ''E''" "sg \<in> {[], ''+'', ''-''}" "digits1 ds"
      using assms(2) unfolding json_exp_def by blast
    then have c: "exponent_mark c" and ds: "ds \<noteq> []" "list_all is_digit ds" by (simp_all add: exponent_mark_def digits1_def)
    have "takeWhile (\<lambda>c. \<not> exponent_mark c) (man @ ex) = man" "dropWhile (\<lambda>c. \<not> exponent_mark c) (man @ ex) = ex"
      using m c by (simp_all add: ex(1) takeWhile_append2 dropWhile_append2)
    then show ?thesis using parse_signed [OF ds ex(3), of 64] exponent_of_sign [OF ds ex(3), of c] ex(1)
      by (simp add: split_exponent_def Let_def)
  qed
qed

lemma split_point_number:
  assumes "list_all is_digit ip" "json_frac fr"
  shows "split_point (ip @ fr) = (ip, tl fr)"
proof -
  have "\<forall>c\<in>set ip. c \<noteq> CHR ''.''" using assms(1) by (auto simp: list_all_iff is_digit_def)
  then have "takeWhile (\<lambda>c. c \<noteq> CHR ''.'') (ip @ fr) = ip @ takeWhile (\<lambda>c. c \<noteq> CHR ''.'') fr"
    "dropWhile (\<lambda>c. c \<noteq> CHR ''.'') (ip @ fr) = dropWhile (\<lambda>c. c \<noteq> CHR ''.'') fr"
    by (simp_all add: takeWhile_append2 dropWhile_append2)
  moreover have "takeWhile (\<lambda>c. c \<noteq> CHR ''.'') fr = []" "dropWhile (\<lambda>c. c \<noteq> CHR ''.'') fr = fr"
    using assms(2) by (cases fr; simp add: json_frac_def)+
  ultimately show ?thesis by (simp add: split_point_def)
qed

text \<open>Zeros cut at the front change nothing, zeros cut at the back are powers of ten.\<close>

lemma dec_val_cut_front: "dec_val (dropWhile (\<lambda>c. c = CHR ''0'') s) = dec_val s"
  by (induction s) (simp_all add: dec_val_Cons)

lemma dec_val_cut_back: "dec_val s = dec_val (pop_zeros s) * 10 ^ (length s - length (pop_zeros s))"
proof (induction s rule: rev_induct)
  case (snoc c s)
  have "length (pop_zeros s) \<le> length s"
    using length_dropWhile_le [of _ "rev s"] by (simp add: pop_zeros_def)
  then show ?case using snoc by (simp add: Suc_diff_le pop_zeros_def)
qed (simp add: pop_zeros_def)

lemma digits_cut:
  assumes "list_all is_digit s"
  shows "list_all is_digit (dropWhile P s)" "list_all is_digit (pop_zeros s)"
  using assms by (auto simp: list_all_iff pop_zeros_def dest: set_dropWhileD)

lemma trimmed_digit:
  assumes "list_all is_digit s" "pop_zeros s \<noteq> []"
  shows "\<not> 10 dvd dec_val (pop_zeros s)"
proof -
  let ?d = "dropWhile (\<lambda>c. c = CHR ''0'') (rev s)"
  obtain c r where d: "?d = c # r" using assms(2) by (cases ?d) (auto simp: pop_zeros_def)
  then have "c \<in> set ?d" by simp
  then have "c \<in> set s" using set_dropWhileD [of c _ "rev s"] by simp
  then have c: "is_digit c" using assms(1) by (simp add: list_all_iff)
  have "c \<noteq> CHR ''0''" using hd_dropWhile [of "\<lambda>c. c = CHR ''0''" "rev s"] d by simp
  moreover have "digit_char 0 = CHR ''0''" by simp
  ultimately have "digit_val c \<noteq> 0" using digit_char_val [OF c] by metis
  then have "\<not> 10 dvd digit_val c" using digit_val_less [OF c] by (auto dest: dvd_imp_le)
  then show ?thesis using d by (simp add: dvd_add_right_iff pop_zeros_def)
qed

lemma scaled_tens: "scaled (m * 10 ^ z) k t \<longleftrightarrow> scaled m (k + int z) t"
proof (cases "0 \<le> k")
  case True
  then have "nat (k + int z) = z + nat k" by simp
  then show ?thesis using True by (simp add: scaled_def power_add mult.assoc)
next
  case False
  show ?thesis
  proof (cases "0 \<le> k + int z")
    case True
    have "z = nat (k + int z) + nat (- k)" using False True by simp
    then have eq: "m * 10 ^ z = m * 10 ^ nat (k + int z) * 10 ^ nat (- k)" by (metis mult.assoc power_add)
    have "m * 10 ^ z = t * 10 ^ nat (- k) \<longleftrightarrow> m * 10 ^ nat (k + int z) = t" unfolding eq by simp
    then show ?thesis using True False by (simp add: scaled_def)
  next
    case k: False
    have "nat (- k) = nat (- (k + int z)) + z" using False k by simp
    then have eq: "t * 10 ^ nat (- k) = t * 10 ^ nat (- (k + int z)) * 10 ^ z" by (metis mult.assoc power_add)
    have "m * 10 ^ z = t * 10 ^ nat (- k) \<longleftrightarrow> m = t * 10 ^ nat (- (k + int z))" unfolding eq by simp
    then show ?thesis using k False by (simp add: scaled_def)
  qed
qed

lemma scaled_whole: "\<not> 10 dvd m \<Longrightarrow> k < 0 \<Longrightarrow> \<not> scaled m k t"
proof -
  assume "\<not> 10 dvd m" "k < 0"
  then obtain j where "nat (- k) = Suc j" by (cases "nat (- k)") auto
  then show ?thesis using \<open>\<not> 10 dvd m\<close> \<open>k < 0\<close> by (auto simp: scaled_def)
qed

lemma scaled_bound:
  assumes "scaled m k t" "0 < m" "0 \<le> k"
  shows "m \<le> t" "10 ^ nat k \<le> t"
  using assms by (auto simp: scaled_def)

lemma nanos_split: "n < BILLION \<Longrightarrow> (t div BILLION = s \<and> t mod BILLION = n) \<longleftrightarrow> t = s * BILLION + n"
  by (auto simp: BILLION_def)

text \<open>The last steps, for digits with no zero at either end, in plain arithmetic.\<close>

definition whole_seconds :: "nat \<Rightarrow> int \<Rightarrow> (nat \<times> nat) option" where
  "whole_seconds tm k =
     (if k < 0 then None
      else Option.bind (if tm < 2 ^ 128 then Some tm else None) (\<lambda>m. Option.bind (times_ten (nat k) m) (\<lambda>t.
        if t div BILLION < 2 ^ 64 then Some (t div BILLION, t mod BILLION) else None)))"

lemma whole_seconds_nanos: "whole_seconds tm k = Some (s, n) \<Longrightarrow> n < BILLION"
  by (auto simp: whole_seconds_def BILLION_def bind_eq_Some_conv split: if_splits)

lemma whole_seconds_iff:
  assumes "0 < tm" "\<not> 10 dvd tm" "n < BILLION"
  shows "whole_seconds tm k = Some (s, n) \<longleftrightarrow> s < 2 ^ 64 \<and> scaled tm k (s * BILLION + n)"
proof (cases "0 \<le> k")
  case False
  then show ?thesis using scaled_whole [OF assms(2)] by (simp add: whole_seconds_def)
next
  case True
  show ?thesis
  proof (cases "tm * 10 ^ nat k < 2 ^ 128")
    case b: True
    have "tm \<le> tm * 10 ^ nat k" by simp
    then have "tm < 2 ^ 128" using b by linarith
    moreover have "scaled tm k (s * BILLION + n) \<longleftrightarrow> tm * 10 ^ nat k = s * BILLION + n" using True by (simp add: scaled_def)
    ultimately show ?thesis
      using True b times_ten_eq [OF assms(1), of "nat k"] nanos_split [OF assms(3), of "tm * 10 ^ nat k" s]
      by (auto simp: whole_seconds_def split: if_splits)
  next
    case b: False
    have "\<not> (s < 2 ^ 64 \<and> scaled tm k (s * BILLION + n))"
    proof
      assume a: "s < 2 ^ 64 \<and> scaled tm k (s * BILLION + n)"
      then have "tm * 10 ^ nat k = s * BILLION + n" using True by (simp add: scaled_def)
      moreover have "s * BILLION + n < 2 ^ 128" using a assms(3) by (simp add: BILLION_def)
      ultimately show False using b by simp
    qed
    moreover have "tm < 2 ^ 128 \<Longrightarrow> times_ten (nat k) tm = None" using times_ten_eq [OF assms(1), of "nat k"] b by simp
    ultimately show ?thesis by (auto simp: whole_seconds_def split: if_splits)
  qed
qed

lemma checked_chain:
  fixes z f :: nat
  assumes "int z < 2 ^ 62" "int f < 2 ^ 62" "F (x - int f + 9 + int z) = Some r \<Longrightarrow> 0 \<le> x - int f + 9 + int z \<and> x - int f + 9 + int z < 128"
  shows "Option.bind (i64_checked (x - int f)) (\<lambda>n. Option.bind (i64_checked (n + 9)) (\<lambda>n.
      Option.bind (i64_checked (n + int z)) F)) = Some r \<longleftrightarrow> F (x - int f + 9 + int z) = Some r"
proof (cases "0 \<le> x - int f + 9 + int z \<and> x - int f + 9 + int z < 128")
  case True
  then have "int_fits True 64 (x - int f)" "int_fits True 64 (x - int f + 9)" "int_fits True 64 (x - int f + 9 + int z)"
    using assms(1,2) by (auto simp: int_fits_def int_lo_def int_hi_def)
  then show ?thesis by (simp add: i64_checked_def)
next
  case False
  then have "F (x - int f + 9 + int z) \<noteq> Some r" using assms(3) by blast
  then show ?thesis by (auto simp: i64_checked_def bind_eq_Some_conv split: if_splits)
qed

lemma scaled_small:
  assumes "scaled tm k (s * BILLION + n)" "0 < tm" "\<not> 10 dvd tm" "s < 2 ^ 64" "n < BILLION"
  shows "0 \<le> k \<and> k < 128"
proof -
  have k: "0 \<le> k" using scaled_whole [OF assms(3)] assms(1) by (meson not_le)
  have "10 ^ nat k \<le> s * BILLION + n" using scaled_bound [OF assms(1,2) k] by simp
  moreover have "s * BILLION + n < 2 ^ 128" using assms(4,5) by (simp add: BILLION_def)
  moreover have "(2::nat) ^ nat k \<le> 10 ^ nat k" by (rule power_mono) simp_all
  ultimately have "(2::nat) ^ nat k < 2 ^ 128" by linarith
  then have "nat k < 128" by (simp only: power_strict_increasing_iff one_less_numeral_iff semiring_norm)
  with k show ?thesis by simp
qed

lemma parse_whole_seconds:
  assumes "tr \<noteq> []" "list_all is_digit tr"
  shows "(if k < 0 then None
     else Option.bind (parse_int False 128 tr) (\<lambda>n. Option.bind (times_ten (nat k) (nat n)) (\<lambda>nanos.
       if int_fits False 64 (int (nanos div BILLION)) then Some (nanos div BILLION, nanos mod BILLION) else None))) =
     whole_seconds (dec_val tr) k"
  using parse_digits(1) [OF assms, of False 128] by (simp add: fits_unsigned whole_seconds_def)

text \<open>What \<open>seconds_of\<close> does with a number in the grammar, part by part.\<close>

lemma seconds_of_parts:
  assumes ip: "json_int ip" and fr: "json_frac fr" and ex: "json_exp ex"
    and ds: "ds = dropWhile (\<lambda>c. c = CHR ''0'') (ip @ tl fr)"
  shows "seconds_of ((if neg then ''-'' else []) @ ip @ fr @ ex) =
    (if \<not> int_fits True 64 (exponent_of ex) then None
     else if pop_zeros ds = [] then Some (0, 0)
     else if neg then None
     else Option.bind (i64_checked (exponent_of ex - int (length (tl fr)))) (\<lambda>n. Option.bind (i64_checked (n + 9)) (\<lambda>n.
       Option.bind (i64_checked (n + int (length ds - length (pop_zeros ds)))) (whole_seconds (dec_val (pop_zeros ds))))))"
proof -
  let ?s = "(if neg then ''-'' else []) @ ip @ fr @ ex"
  have d: "ip \<noteq> []" "list_all is_digit ip" using json_int_digits [OF ip] by auto
  have f: "list_all is_digit (tl fr)" "list_all (\<lambda>c. is_digit c \<or> c = CHR ''.'') (ip @ fr)"
    using fr d by (auto simp: json_frac_def digits1_def list_all_iff)
  have tr: "list_all is_digit (pop_zeros ds)" unfolding ds using d f(1) by (intro digits_cut) simp
  have "is_digit (hd ip)" using d by (cases ip) auto
  then have "hd (ip @ fr @ ex) \<noteq> CHR ''-''" using d digit_not_sign by simp
  then have "(?s \<noteq> [] \<and> hd ?s = CHR ''-'') = neg" "(if neg then tl ?s else ?s) = (ip @ fr) @ ex"
    using d by auto
  moreover have "split_exponent ((ip @ fr) @ ex) = (if int_fits True 64 (exponent_of ex) then Some (ip @ fr, exponent_of ex) else None)"
    using split_exponent_number [OF f(2) ex] by (auto simp: exponent_of_def int_fits_def int_lo_def int_hi_def)
  moreover have "whole_seconds (dec_val (pop_zeros ds)) = (\<lambda>k. if k < 0 then None
     else Option.bind (parse_int False 128 (pop_zeros ds)) (\<lambda>n. Option.bind (times_ten (nat k) (nat n)) (\<lambda>nanos.
       if int_fits False 64 (int (nanos div BILLION)) then Some (nanos div BILLION, nanos mod BILLION) else None)))" if "pop_zeros ds \<noteq> []"
    using parse_whole_seconds [OF that tr] by presburger
  ultimately show ?thesis
    by (simp add: seconds_of_def split_point_number [OF d(2) fr] Let_def ds cong: if_cong)
qed

lemma seconds_of_number:
  assumes d: "denotes s neg m e x" and l: "int (length s) < 2 ^ 62"
  shows "seconds_of s = Some (secs, n) \<longleftrightarrow>
    int_fits True 64 x \<and> (neg \<longrightarrow> m = 0) \<and> secs < 2 ^ 64 \<and> n < BILLION \<and> scaled m (e + 9) (secs * BILLION + n)"
proof -
  obtain sg ip fr ex where s: "s = (if neg then ''-'' else []) @ ip @ fr @ ex" "json_int ip" "json_frac fr" "json_exp ex"
      "m = dec_val (ip @ tl fr)" "x = exponent_of ex" "e = x - int (length (tl fr))"
    using d unfolding denotes_def by blast
  define ds where "ds = dropWhile (\<lambda>c. c = CHR ''0'') (ip @ tl fr)"
  define z where "z = length ds - length (pop_zeros ds)"
  have mv: "m = dec_val (pop_zeros ds) * 10 ^ z" using dec_val_cut_back [of ds] s(5) by (simp add: z_def ds_def dec_val_cut_front)
  note parts = seconds_of_parts [OF s(2,3,4) ds_def, of neg, folded s(1) s(6) z_def]
  show ?thesis
  proof (cases "pop_zeros ds = []")
    case True
    then have "m = 0" using mv by simp
    then have "scaled m (e + 9) (secs * BILLION + n) \<longleftrightarrow> secs = 0 \<and> n = 0" by (auto simp: scaled_def BILLION_def)
    then show ?thesis using \<open>m = 0\<close> True parts by (auto simp: BILLION_def)
  next
    case False
    have "list_all is_digit ds" using json_int_digits [OF s(2)] s(3)
      unfolding ds_def by (intro digits_cut) (auto simp: json_frac_def digits1_def)
    then have tm: "\<not> 10 dvd dec_val (pop_zeros ds)" using trimmed_digit False by simp
    then have pos: "0 < dec_val (pop_zeros ds)" by (cases "dec_val (pop_zeros ds)") auto
    note W = whole_seconds_iff [OF pos tm]
    have "length ds \<le> length (ip @ tl fr)" unfolding ds_def by (rule length_dropWhile_le)
    then have len: "int z < 2 ^ 62" "int (length (tl fr)) < 2 ^ 62" using l s(1) by (auto simp: z_def)
    have chain: "Option.bind (i64_checked (x - int (length (tl fr)))) (\<lambda>n. Option.bind (i64_checked (n + 9)) (\<lambda>n.
        Option.bind (i64_checked (n + int z)) (whole_seconds (dec_val (pop_zeros ds))))) = Some (secs, n) \<longleftrightarrow>
        whole_seconds (dec_val (pop_zeros ds)) (x - int (length (tl fr)) + 9 + int z) = Some (secs, n)"
      by (rule checked_chain [OF len]) (use W whole_seconds_nanos scaled_small [OF _ pos tm] in blast)
    have "m \<noteq> 0" using mv pos by simp
    moreover have "whole_seconds (dec_val (pop_zeros ds)) (x - int (length (tl fr)) + 9 + int z) = Some (secs, n) \<longleftrightarrow>
        n < BILLION \<and> secs < 2 ^ 64 \<and> scaled m (e + 9) (secs * BILLION + n)"
      using W whole_seconds_nanos unfolding mv scaled_tens s(7) by blast
    ultimately show ?thesis using parts False chain by auto
  qed
qed

section \<open>Refusals name their place\<close>

lemma vec_loop_Inl:
  "vec_loop fromv k items out = Inl e \<longleftrightarrow>
   (\<exists>i<length items. \<exists>d. e = at_index (k + i) d \<and> fromv (items ! i) = Inl d \<and> (\<forall>j<i. is_ok (fromv (items ! j))))"
proof (induction items arbitrary: k out)
  case (Cons v items)
  show ?case
  proof (cases "fromv v")
    case (Inl d)
    then show ?thesis by (force simp: less_Suc_eq_0_disj)
  next
    case (Inr x)
    then have "vec_loop fromv k (v # items) out = vec_loop fromv (Suc k) items (out @ [x])" by simp
    then show ?thesis using Inr Cons.IH [of "Suc k" "out @ [x]"] by (simp add: Ex_less_Suc2 All_less_Suc2)
  qed
qed simp

section \<open>Properties\<close>

text \<open>An integer of any width is read from its own decimal text and from no other value, but
  that a signed type also reads minus zero: nothing is rounded, truncated or wrapped.\<close>

theorem integers_are_read_exactly:
  "integer_from_value sig w v = Inr n \<longleftrightarrow>
   int_fits sig w n \<and> (v = VNumber (show_int n) \<or> sig \<and> n = 0 \<and> v = VNumber ''-0'')"
  by (rule integer_reads)

text \<open>C28: a map keyed by integers of any width, of lists of optional dates, writes as an object
  whatever the seeds of its index, and what it wrote reads back as the same map.\<close>

theorem typed_maps_round_trip:
  assumes "sorted (map fst m)" "distinct (map fst m)"
    "list_all (\<lambda>e. int_fits sig w (fst e) \<and> list_all (pred_option date_ok) (snd e)) m"
  shows "\<exists>v. entries_to_value drawn integer_to_key (list_to_value (option_to_value (shown_to_value show_date))) m = Inr v \<and>
    btree_map_from_value (integer_from_key sig w)
      (vec_from_value (option_from_value (parsed_from_value date_from_str))) v = Inr m"
proof -
  have "conversion (list_to_value (option_to_value (shown_to_value show_date)))
      (vec_from_value (option_from_value (parsed_from_value date_from_str))) (list_all (pred_option date_ok)) (kinds_of GUATIAO_LIST)"
    by (rule conversion.vec_conversion [OF dates.as_value.option_conversion]) simp
  then have k: "keyed_conversion integer_to_key (integer_from_key sig w) (int_fits sig w)
      (list_to_value (option_to_value (shown_to_value show_date)))
      (vec_from_value (option_from_value (parsed_from_value date_from_str))) (list_all (pred_option date_ok)) (kinds_of GUATIAO_LIST)"
    by (simp add: keyed_conversion_def integer_keys.map_key_axioms)
  show ?thesis
    using conversion.writes [OF keyed_conversion.btree_map_conversion [OF k], of m drawn] assms
    by (auto simp: keyed_conversion.entry_ok_def [OF k] list_all_iff)
qed

theorem typed_maps_round_trip_witness:
  "\<exists>v. entries_to_value (1, 2) integer_to_key (list_to_value (option_to_value (shown_to_value show_date)))
      [(-3, [Some (Date 2024 2 29), None]), (7, [])] = Inr v \<and>
    btree_map_from_value (integer_from_key True 8)
      (vec_from_value (option_from_value (parsed_from_value date_from_str))) v =
      Inr [(-3, [Some (Date 2024 2 29), None]), (7, [])]"
proof (rule typed_maps_round_trip)
  have "date_ok (Date 2024 2 29)" by code_simp
  then show "list_all (\<lambda>e. int_fits True 8 (fst e) \<and> list_all (pred_option date_ok) (snd e))
      [(- 3, [Some (Date 2024 2 29), None]), (7, [])]"
    by (simp add: int_fits_def int_lo_def int_hi_def del: date_ok.simps)
qed simp_all



text \<open>A list one of whose elements is refused is refused with that element's error, under the
  position of the first such element.\<close>

theorem a_refused_list_names_the_element:
  "vec_from_value fromv (VList items) = Inl e \<longleftrightarrow>
   (\<exists>i d. i < length items \<and> e = at_index i d \<and> fromv (items ! i) = Inl d \<and> list_all (\<lambda>v. is_ok (fromv v)) (take i items))"
proof -
  have "list_all (\<lambda>v. is_ok (fromv v)) (take i items) \<longleftrightarrow> (\<forall>j<i. is_ok (fromv (items ! j)))" if "i < length items" for i
    using that by (simp add: list_all_length)
  then show ?thesis by (auto simp: vec_from_value_def list_of_value_def vec_loop_Inl)
qed

text \<open>A duration written as a map of seconds and nanoseconds whose nanoseconds make a second
  or more is refused under the position one, though it has no positions: the key is \<open>nanos\<close>.\<close>

theorem map_durations_are_refused_at_a_position:
  "duration_from_value (VMap [(''secs'', VNumber ''0''), (''nanos'', VNumber ''1000000000'')]) = Inl (BadValue ''[1]'')"
proof -
  have "show_int 1000000000 = ''1000000000''" "show_int 0 = ''0''"
    by (simp_all add: show_int_def show_nat.simps digit_char_def char_of_eq_iff)
  then have "integer_from_value False 32 (VNumber ''1000000000'') = Inr 1000000000"
    "integer_from_value False 64 (VNumber ''0'') = Inr 0"
    by (simp_all add: reads int_fits_def int_lo_def int_hi_def)
  moreover have "keys_are_text [(''secs'', VNumber ''0''), (''nanos'', VNumber ''1000000000'')]" by code_simp
  ultimately show ?thesis
    by (simp add: duration_from_value_def duration_parts_def map_of_value_def map_required_def map_get_def BILLION_def
        at_index_def bad_value_def show_nat.simps digit_char_def char_of_eq_iff)
qed

text \<open>A zero of seconds whose exponent an \<open>i64\<close> cannot hold is refused, though it is zero.\<close>

theorem a_zero_with_a_long_exponent_is_refused:
  "json_number ''0e99999999999999999999'' \<and> denotes ''0e99999999999999999999'' False 0 99999999999999999999 99999999999999999999 \<and>
   seconds_of ''0e99999999999999999999'' = None"
proof -
  let ?ex = "''e99999999999999999999''"
  have ex: "json_exp ?ex" unfolding json_exp_def digits1_def
    by (intro disjI2 exI [of _ "CHR ''e''"] exI [of _ "[]"] exI [of _ "''99999999999999999999''"]) (simp add: is_digit_def)
  have ip: "json_int ''0''" "json_frac []" by (simp_all add: json_int_def json_frac_def)
  have v: "exponent_of ?ex = 99999999999999999999" by (simp add: exponent_of_def dec_val_def digit_val_def)
  then have "denotes ''0e99999999999999999999'' False 0 99999999999999999999 99999999999999999999"
    unfolding denotes_def using ex ip
    by (intro exI [of _ "[]"] exI [of _ "''0''"] exI [of _ ?ex]) (simp add: dec_val_def)
  moreover have "json_number ''0e99999999999999999999''" unfolding json_number_def using ex ip
    by (intro exI [of _ "[]"] exI [of _ "''0''"] exI [of _ ?ex]) simp
  moreover have "seconds_of ''0e99999999999999999999'' = None"
    using seconds_of_parts [OF ip ex refl, of False] v by (simp add: int_fits_def int_lo_def int_hi_def)
  ultimately show ?thesis by blast
qed

end
