(* ===== verification/Decimals.thy ===== *)
theory Decimals
  imports Convert Complex_Main
begin

text \<open>
  The exact arithmetic a schema's bounds are checked with (\<open>guatiao/src/schema/validate.rs\<close>,
  \<open>decimal\<close>, \<open>compare\<close>, \<open>is_whole\<close>, \<open>is_integer_text\<close> and \<open>Bounds\<close>). Numbers stay the text that
  declared them; two of them are compared digit by digit, with no width and no rounding. What a
  number in the JSON grammar denotes is a rational here.
\<close>

section \<open>The code\<close>

datatype ordering = Less | Equal | Greater

fun is_ge :: "ordering \<Rightarrow> bool" where "is_ge c \<longleftrightarrow> c \<noteq> Less"
fun is_le :: "ordering \<Rightarrow> bool" where "is_le c \<longleftrightarrow> c \<noteq> Greater"
fun is_gt :: "ordering \<Rightarrow> bool" where "is_gt c \<longleftrightarrow> c = Greater"
fun is_lt :: "ordering \<Rightarrow> bool" where "is_lt c \<longleftrightarrow> c = Less"

definition cmp :: "'a :: linorder \<Rightarrow> 'a \<Rightarrow> ordering" where
  "cmp a b = (if a < b then Less else if a = b then Equal else Greater)"

fun reverse_ordering :: "ordering \<Rightarrow> ordering" where
  "reverse_ordering Less = Greater"
| "reverse_ordering Equal = Equal"
| "reverse_ordering Greater = Less"

text \<open>The order of two byte vectors.\<close>

fun cmp_bytes :: "str \<Rightarrow> str \<Rightarrow> ordering" where
  "cmp_bytes [] [] = Equal"
| "cmp_bytes [] (d # ds) = Less"
| "cmp_bytes (c # cs) [] = Greater"
| "cmp_bytes (c # cs) (d # ds) =
     (case cmp (of_char c :: nat) (of_char d) of Equal \<Rightarrow> cmp_bytes cs ds | r \<Rightarrow> r)"

definition is_integer_text :: "str \<Rightarrow> bool" where
  "is_integer_text text \<longleftrightarrow> is_number text \<and> \<not> list_ex (\<lambda>c. c = CHR ''.'' \<or> exponent_mark c) text"

record decimal =
  dc_negative :: bool
  dc_digits :: str
  dc_exponent :: int

definition EXPONENT_CLAMP :: int where "EXPONENT_CLAMP = 2 ^ 40"

definition clamped_exponent :: "str \<Rightarrow> int" where
  "clamped_exponent ds = foldl (\<lambda>ex c. min (ex * 10 + int (digit_val c)) EXPONENT_CLAMP) 0 ds"

definition decimal_of :: "str \<Rightarrow> decimal option" where
  "decimal_of text =
     (if \<not> is_number text then None
      else
        let neg = (text \<noteq> [] \<and> hd text = CHR ''-''); rst = (if neg then tl text else text);
            mantissa = takeWhile (\<lambda>c. \<not> exponent_mark c) rst;
            written = tl (dropWhile (\<lambda>c. \<not> exponent_mark c) rst);
            (exneg, exdigits) =
              (case written of
                 c # ds \<Rightarrow> if c = CHR ''-'' then (True, ds) else if c = CHR ''+'' then (False, ds) else (False, written)
               | [] \<Rightarrow> (False, written));
            ex = clamped_exponent exdigits;
            ex = (if exneg then - ex else ex);
            (whole, fraction) = split_point mantissa;
            ds = dropWhile (\<lambda>c. c = CHR ''0'') (whole @ fraction);
            leading = length (whole @ fraction) - length ds;
            ds = pop_zeros ds
        in Some \<lparr>dc_negative = neg \<and> ds \<noteq> [], dc_digits = ds, dc_exponent = ex + int (length whole) - int leading\<rparr>)"

definition decimal_sign :: "decimal \<Rightarrow> int" where
  "decimal_sign d = (if dc_digits d = [] then 0 else if dc_negative d then -1 else 1)"

definition compare_decimals :: "decimal \<Rightarrow> decimal \<Rightarrow> ordering" where
  "compare_decimals a b =
     (let by_sign = cmp (decimal_sign a) (decimal_sign b)
      in if by_sign \<noteq> Equal \<or> decimal_sign a = 0 then by_sign
         else
           let magnitude = (case cmp (dc_exponent a) (dc_exponent b) of
                              Equal \<Rightarrow> cmp_bytes (dc_digits a) (dc_digits b) | r \<Rightarrow> r)
           in if dc_negative a then reverse_ordering magnitude else magnitude)"

definition compare :: "str \<Rightarrow> str \<Rightarrow> ordering option" where
  "compare a b =
     Option.bind (decimal_of a) (\<lambda>a. Option.bind (decimal_of b) (\<lambda>b. Some (compare_decimals a b)))"

definition is_whole :: "str \<Rightarrow> bool" where
  "is_whole text =
     (case decimal_of text of None \<Rightarrow> False | Some d \<Rightarrow> int (length (dc_digits d)) \<le> dc_exponent d)"

text \<open>The four bounds of a number, each as the text that declared it.\<close>

record bounds =
  bd_min :: "str option"
  bd_max :: "str option"
  bd_exclusive_min :: "str option"
  bd_exclusive_max :: "str option"

definition bound_is :: "str \<Rightarrow> str option \<Rightarrow> (ordering \<Rightarrow> bool) \<Rightarrow> bool" where
  "bound_is text bound ok =
     (case bound of None \<Rightarrow> True | Some b \<Rightarrow> (case compare text b of None \<Rightarrow> True | Some r \<Rightarrow> ok r))"

definition bounds_admit :: "bounds \<Rightarrow> str \<Rightarrow> bool" where
  "bounds_admit bd text \<longleftrightarrow> bound_is text (bd_min bd) is_ge \<and> bound_is text (bd_max bd) is_le \<and>
     bound_is text (bd_exclusive_min bd) is_gt \<and> bound_is text (bd_exclusive_max bd) is_lt"

section \<open>What numbers denote\<close>

definition number_value :: "bool \<Rightarrow> nat \<Rightarrow> int \<Rightarrow> rat" where
  "number_value neg m e = (if neg then - 1 else 1) * of_nat m * 10 powi e"

text \<open>A digit string read after the point.\<close>

fun fraction_value :: "str \<Rightarrow> rat" where
  "fraction_value [] = 0"
| "fraction_value (c # ds) = (of_nat (digit_val c) + fraction_value ds) / 10"

definition decimal_value :: "decimal \<Rightarrow> rat" where
  "decimal_value d = (if dc_negative d then - 1 else 1) * fraction_value (dc_digits d) * 10 powi dc_exponent d"

lemma fraction_value_dec: "fraction_value ds = of_nat (dec_val ds) / 10 ^ length ds"
  by (induction ds) (simp_all add: dec_val_Cons field_simps)

text \<open>Digits as \<open>decimal\<close> leaves them: no zero in front and none behind.\<close>

definition trimmed :: "str \<Rightarrow> bool" where
  "trimmed ds \<longleftrightarrow> list_all is_digit ds \<and> (ds \<noteq> [] \<longrightarrow> hd ds \<noteq> CHR ''0'' \<and> last ds \<noteq> CHR ''0'')"

lemma digit_order:
  assumes "is_digit c" "is_digit d"
  shows "cmp (of_char c :: nat) (of_char d) = cmp (digit_val c) (digit_val d)"
proof -
  have "of_char c = digit_val c + 48" "of_char d = digit_val d + 48" using assms by (simp_all add: is_digit_def digit_val_def)
  then show ?thesis by (simp add: cmp_def)
qed

lemma digit_val_rat: "is_digit c \<Longrightarrow> (of_nat (digit_val c) :: rat) \<le> 9"
proof -
  assume "is_digit c"
  then have "digit_val c < 10" by auto
  then have "digit_val c \<le> 9" by simp
  then show ?thesis using of_nat_mono [of "digit_val c" 9, where ?'a = rat] by simp
qed

lemma fraction_bounds: "list_all is_digit ds \<Longrightarrow> 0 \<le> fraction_value ds \<and> fraction_value ds < 1"
proof (induction ds)
  case (Cons c ds)
  then have "(of_nat (digit_val c) :: rat) \<le> 9" using digit_val_rat by simp
  moreover have "0 \<le> fraction_value ds" "fraction_value ds < 1" using Cons by simp_all
  ultimately show ?case by simp
qed simp

lemma digit_zero: "is_digit c \<Longrightarrow> digit_val c = 0 \<longleftrightarrow> c = CHR ''0''"
proof -
  assume c: "is_digit c"
  then have "digit_val c < 10" by auto
  from digit_char_eq_0 [OF this] show ?thesis using c by simp
qed

lemma fraction_pos: "list_all is_digit ds \<Longrightarrow> ds \<noteq> [] \<Longrightarrow> last ds \<noteq> CHR ''0'' \<Longrightarrow> 0 < fraction_value ds"
proof (induction ds)
  case (Cons c ds)
  show ?case
  proof (cases "ds = []")
    case True
    then have "digit_val c \<noteq> 0" using Cons.prems digit_zero by simp
    then show ?thesis using True by simp
  next
    case False
    then have "0 < fraction_value ds" using Cons by simp
    then show ?thesis by (simp add: add_nonneg_pos)
  qed
qed simp

text \<open>The order of trimmed digits is the order of what they denote after the point.\<close>

lemma cmp_bytes_value:
  assumes "list_all is_digit as" "list_all is_digit bs" "as \<noteq> [] \<longrightarrow> last as \<noteq> CHR ''0''" "bs \<noteq> [] \<longrightarrow> last bs \<noteq> CHR ''0''"
  shows "cmp_bytes as bs = cmp (fraction_value as) (fraction_value bs)"
  using assms
proof (induction as bs rule: cmp_bytes.induct)
  case (2 d ds)
  then show ?case using fraction_pos [of "d # ds"] by (simp add: cmp_def)
next
  case (3 c cs)
  then show ?case using fraction_pos [of "c # cs"] by (simp add: cmp_def)
next
  case (4 c cs d ds)
  have b: "0 \<le> fraction_value cs" "fraction_value cs < 1" "0 \<le> fraction_value ds" "fraction_value ds < 1"
    using fraction_bounds 4(2,3) by simp_all
  have o: "cmp (of_char c :: nat) (of_char d) = cmp (digit_val c) (digit_val d)" using digit_order 4(2,3) by simp
  consider "digit_val c < digit_val d" | "digit_val c = digit_val d" | "digit_val d < digit_val c" by linarith
  then show ?case
  proof cases
    case 1
    then have "(of_nat (digit_val c) :: rat) + 1 \<le> of_nat (digit_val d)" by (metis Suc_leI of_nat_Suc of_nat_le_iff add.commute)
    then have "fraction_value (c # cs) < fraction_value (d # ds)" using b by simp
    then show ?thesis using 1 o by (simp add: cmp_def)
  next
    case 2
    then have "cmp_bytes cs ds = cmp (fraction_value cs) (fraction_value ds)"
      using 4 o by (auto simp: cmp_def split: if_splits)
    then show ?thesis using 2 o by (simp add: cmp_def)
  next
    case 3
    then have "(of_nat (digit_val d) :: rat) + 1 \<le> of_nat (digit_val c)" by (metis Suc_leI of_nat_Suc of_nat_le_iff add.commute)
    then have "fraction_value (d # ds) < fraction_value (c # cs)" using b by simp
    then show ?thesis using 3 o by (simp add: cmp_def)
  qed
qed (simp add: cmp_def)

definition magnitude :: "decimal \<Rightarrow> rat" where
  "magnitude d = fraction_value (dc_digits d) * 10 powi dc_exponent d"

lemma fraction_tenth: "trimmed ds \<Longrightarrow> ds \<noteq> [] \<Longrightarrow> 1 / 10 \<le> fraction_value ds"
proof (cases ds)
  case (Cons c cs)
  assume t: "trimmed ds"
  then have "digit_val c \<noteq> 0" using Cons digit_zero by (simp add: trimmed_def)
  then have "1 \<le> (of_nat (digit_val c) :: rat)" by (simp add: Suc_leI flip: of_nat_Suc)
  moreover have "0 \<le> fraction_value cs" using fraction_bounds t Cons by (simp add: trimmed_def)
  ultimately show ?thesis using Cons by simp
qed simp

lemma magnitude_pos: "trimmed (dc_digits d) \<Longrightarrow> dc_digits d \<noteq> [] \<Longrightarrow> 0 < magnitude d"
  using fraction_tenth [of "dc_digits d"] by (simp add: magnitude_def mult_pos_pos)

lemma magnitude_exponent:
  assumes "trimmed (dc_digits a)" "trimmed (dc_digits b)" "dc_digits b \<noteq> []" "dc_exponent a < dc_exponent b"
  shows "magnitude a < magnitude b"
proof -
  have "fraction_value (dc_digits a) < 1" using fraction_bounds assms(1) by (simp add: trimmed_def)
  then have "magnitude a < 1 * 10 powi dc_exponent a" unfolding magnitude_def by (intro mult_strict_right_mono) simp_all
  also have "\<dots> \<le> 10 powi (dc_exponent b - 1)" using assms(4) by (simp add: power_int_increasing)
  also have "\<dots> = 1 / 10 * 10 powi dc_exponent b" by (simp add: power_int_diff)
  also have "\<dots> \<le> magnitude b" unfolding magnitude_def using fraction_tenth [OF assms(2,3)]
    by (intro mult_right_mono) simp_all
  finally show ?thesis .
qed

lemma magnitude_order:
  assumes "trimmed (dc_digits a)" "trimmed (dc_digits b)" "dc_digits a \<noteq> []" "dc_digits b \<noteq> []"
  shows "(case cmp (dc_exponent a) (dc_exponent b) of Equal \<Rightarrow> cmp_bytes (dc_digits a) (dc_digits b) | r \<Rightarrow> r) =
    cmp (magnitude a) (magnitude b)"
proof -
  consider "dc_exponent a < dc_exponent b" | "dc_exponent a = dc_exponent b" | "dc_exponent b < dc_exponent a" by linarith
  then show ?thesis
  proof cases
    case 1
    then show ?thesis using magnitude_exponent [OF assms(1,2,4) 1] by (simp add: cmp_def)
  next
    case 2
    have p: "0 < (10 :: rat) powi dc_exponent b" by simp
    have "cmp_bytes (dc_digits a) (dc_digits b) = cmp (fraction_value (dc_digits a)) (fraction_value (dc_digits b))"
      using assms by (intro cmp_bytes_value) (simp_all add: trimmed_def)
    then show ?thesis using 2 p by (auto simp: cmp_def magnitude_def)
  next
    case 3
    then show ?thesis using magnitude_exponent [OF assms(2,1,3) 3] by (simp add: cmp_def)
  qed
qed

definition decimal_ok :: "decimal \<Rightarrow> bool" where
  "decimal_ok d \<longleftrightarrow> trimmed (dc_digits d) \<and> (dc_digits d = [] \<longrightarrow> \<not> dc_negative d)"

lemma decimal_value_magnitude: "decimal_value d = (if dc_negative d then - magnitude d else magnitude d)"
  by (simp add: decimal_value_def magnitude_def)

lemma compare_decimals_value:
  assumes "decimal_ok a" "decimal_ok b"
  shows "compare_decimals a b = cmp (decimal_value a) (decimal_value b)"
proof -
  have z: "magnitude d = 0" if "dc_digits d = []" for d using that by (simp add: magnitude_def)
  have p: "0 < magnitude d" if "decimal_ok d" "dc_digits d \<noteq> []" for d using that magnitude_pos by (simp add: decimal_ok_def)
  show ?thesis
  proof (cases "dc_digits a = [] \<or> dc_digits b = [] \<or> dc_negative a \<noteq> dc_negative b")
    case True
    then show ?thesis using assms z [of a] z [of b] p [of a] p [of b]
      by (cases "dc_digits a = []"; cases "dc_digits b = []"; cases "dc_negative a"; cases "dc_negative b")
         (auto simp: compare_decimals_def decimal_sign_def decimal_value_magnitude cmp_def decimal_ok_def)
  next
    case False
    then have m: "(case cmp (dc_exponent a) (dc_exponent b) of Equal \<Rightarrow> cmp_bytes (dc_digits a) (dc_digits b) | r \<Rightarrow> r) =
      cmp (magnitude a) (magnitude b)" using assms by (intro magnitude_order) (simp_all add: decimal_ok_def)
    have s: "decimal_sign a = decimal_sign b" "decimal_sign a \<noteq> 0" using False by (simp_all add: decimal_sign_def)
    show ?thesis unfolding compare_decimals_def Let_def m using s False
      by (auto simp: cmp_def decimal_value_magnitude)
  qed
qed

lemma pop_zeros_trimmed:
  assumes "list_all is_digit ds" "ds \<noteq> [] \<longrightarrow> hd ds \<noteq> CHR ''0''"
  shows "trimmed (pop_zeros ds)"
proof -
  have "list_all is_digit (pop_zeros ds)" using assms(1) by (auto simp: list_all_iff pop_zeros_def dest: set_dropWhileD)
  moreover have "last (pop_zeros ds) \<noteq> CHR ''0''" if "pop_zeros ds \<noteq> []"
  proof -
    have n: "dropWhile (\<lambda>c. c = CHR ''0'') (rev ds) \<noteq> []" using that by (simp add: pop_zeros_def)
    then have "hd (dropWhile (\<lambda>c. c = CHR ''0'') (rev ds)) \<noteq> CHR ''0''" using hd_dropWhile [OF n] by simp
    then show ?thesis using n by (simp add: pop_zeros_def last_rev)
  qed
  moreover have "hd (pop_zeros ds) \<noteq> CHR ''0''" if "pop_zeros ds \<noteq> []"
  proof -
    obtain zs where "rev ds = zs @ dropWhile (\<lambda>c. c = CHR ''0'') (rev ds)" by (metis takeWhile_dropWhile_id)
    then have "ds = pop_zeros ds @ rev zs" by (metis pop_zeros_def rev_append rev_rev_ident)
    then have "hd ds = hd (pop_zeros ds)" "ds \<noteq> []" using that by (metis hd_append2, auto)
    then show ?thesis using assms(2) by simp
  qed
  ultimately show ?thesis by (simp add: trimmed_def)
qed

section \<open>Reading a number\<close>

lemma clamped_exponent_eq: "clamped_exponent ds = min (int (dec_val ds)) EXPONENT_CLAMP"
proof (induction ds rule: rev_induct)
  case (snoc c ds)
  then show ?case by (simp add: clamped_exponent_def EXPONENT_CLAMP_def min_def)
qed (simp add: clamped_exponent_def EXPONENT_CLAMP_def)

text \<open>The exponent as \<open>decimal\<close> reads it: its own value, or the clamp with its sign.\<close>

definition clamp :: "int \<Rightarrow> int" where
  "clamp x = max (- EXPONENT_CLAMP) (min x EXPONENT_CLAMP)"

lemma written_exponent:
  assumes "json_exp ex"
  shows "(case (case tl ex of c # ds \<Rightarrow> if c = CHR ''-'' then (True, ds) else if c = CHR ''+'' then (False, ds) else (False, tl ex)
     | [] \<Rightarrow> (False, tl ex)) of (neg, ds) \<Rightarrow> if neg then - clamped_exponent ds else clamped_exponent ds) = clamp (exponent_of ex)"
proof (cases "ex = []")
  case True
  then show ?thesis by (simp add: clamped_exponent_def exponent_of_def clamp_def EXPONENT_CLAMP_def)
next
  case False
  then obtain c sg ds where ex: "ex = c # sg @ ds" "sg \<in> {[], ''+'', ''-''}" "digits1 ds"
    using assms unfolding json_exp_def by blast
  then have ds: "ds \<noteq> []" "list_all is_digit ds" by (simp_all add: digits1_def)
  then have h: "hd ds \<noteq> CHR ''-''" "hd ds \<noteq> CHR ''+''" using digit_not_sign by (cases ds; simp)+
  obtain d r where d: "ds = d # r" using ds(1) by (cases ds) auto
  have p: "0 \<le> EXPONENT_CLAMP" by (simp add: EXPONENT_CLAMP_def)
  show ?thesis using ex(2) exponent_of_sign [OF ds ex(2), of c] h d p unfolding ex(1)
    by (auto simp: clamped_exponent_eq clamp_def)
qed

lemma decimal_of_parts:
  assumes "json_int ip" "json_frac fr" "json_exp ex" "ds = dropWhile (\<lambda>c. c = CHR ''0'') (ip @ tl fr)"
  shows "decimal_of ((if neg then ''-'' else []) @ ip @ fr @ ex) =
    Some \<lparr>dc_negative = neg \<and> pop_zeros ds \<noteq> [], dc_digits = pop_zeros ds,
      dc_exponent = clamp (exponent_of ex) + int (length ip) - int (length (ip @ tl fr) - length ds)\<rparr>"
proof -
  let ?s = "(if neg then ''-'' else []) @ ip @ fr @ ex"
  have "json_number ?s" unfolding json_number_def using assms(1-3)
    by (intro exI [of _ "if neg then ''-'' else []"] exI [of _ ip] exI [of _ fr] exI [of _ ex]) simp
  then have n: "is_number ?s" by (simp only: is_number_iff)
  have d: "ip \<noteq> []" "list_all is_digit ip" using json_int_digits [OF assms(1)] by auto
  have "is_digit (hd ip)" using d by (cases ip) auto
  then have "hd (ip @ fr @ ex) \<noteq> CHR ''-''" using d digit_not_sign by simp
  then have s: "(?s \<noteq> [] \<and> hd ?s = CHR ''-'') = neg" "(if neg then tl ?s else ?s) = (ip @ fr) @ ex" using d by auto
  have "list_all (\<lambda>c. is_digit c \<or> c = CHR ''.'') (ip @ fr)"
    using assms(2) d by (auto simp: json_frac_def digits1_def list_all_iff)
  then have m: "\<forall>c\<in>set (ip @ fr). \<not> exponent_mark c"
    using digit_not_sign by (auto simp: list_all_iff exponent_mark_def)
  have "takeWhile (\<lambda>c. \<not> exponent_mark c) ex = []" "dropWhile (\<lambda>c. \<not> exponent_mark c) ex = ex"
    using assms(3) by (auto simp: json_exp_def exponent_mark_def)
  then have w: "takeWhile (\<lambda>c. \<not> exponent_mark c) ((ip @ fr) @ ex) = ip @ fr"
    "dropWhile (\<lambda>c. \<not> exponent_mark c) ((ip @ fr) @ ex) = ex"
    using m takeWhile_append2 [of "ip @ fr" "\<lambda>c. \<not> exponent_mark c" ex] dropWhile_append2 [of "ip @ fr" "\<lambda>c. \<not> exponent_mark c" ex]
    by (metis append_Nil2)+
  obtain exneg exdigits where e: "(case tl ex of c # ds \<Rightarrow> if c = CHR ''-'' then (True, ds) else if c = CHR ''+'' then (False, ds) else (False, tl ex)
     | [] \<Rightarrow> (False, tl ex)) = (exneg, exdigits)" by fastforce
  have x: "(if exneg then - clamped_exponent exdigits else clamped_exponent exdigits) = clamp (exponent_of ex)"
    using written_exponent [OF assms(3)] unfolding e by simp
  show ?thesis unfolding decimal_of_def Let_def s w using n x
    by (simp add: e split_point_number [OF d(2) assms(2)] assms(4) del: append_assoc)
qed

lemma dropWhile_hd: "dropWhile (\<lambda>c. c = CHR ''0'') s \<noteq> [] \<longrightarrow> hd (dropWhile (\<lambda>c. c = CHR ''0'') s) \<noteq> CHR ''0''"
  by (intro impI) (drule hd_dropWhile, simp)

text \<open>A number in the grammar is what \<open>decimal\<close> makes of it: trimmed digits \<open>t\<close>, the value of \<open>m\<close> with
  \<open>z\<close> zeros cut, at the exponent that puts the point where it was.\<close>

lemma decimal_of_number:
  assumes "denotes s neg m e x" "\<bar>x\<bar> \<le> EXPONENT_CLAMP"
  obtains d t z where "decimal_of s = Some d" "decimal_ok d" "dc_digits d = t" "dc_negative d \<longleftrightarrow> neg \<and> t \<noteq> []"
    "m = dec_val t * 10 ^ z" "dc_exponent d = e + int z + int (length t)" "t = [] \<Longrightarrow> z = 0" "t \<noteq> [] \<Longrightarrow> \<not> 10 dvd dec_val t"
proof -
  obtain ip fr ex where s: "s = (if neg then ''-'' else []) @ ip @ fr @ ex" "json_int ip" "json_frac fr" "json_exp ex"
    "m = dec_val (ip @ tl fr)" "x = exponent_of ex" "e = x - int (length (tl fr))" using assms(1) unfolding denotes_def by blast
  define ds where "ds = dropWhile (\<lambda>c. c = CHR ''0'') (ip @ tl fr)"
  let ?t = "pop_zeros ds"
  have c: "clamp x = x" using assms(2) by (simp add: clamp_def)
  have dg: "list_all is_digit (ip @ tl fr)"
    using json_int_digits [OF s(2)] s(3) by (auto simp: json_frac_def digits1_def)
  then have dd: "list_all is_digit ds" unfolding ds_def by (rule digits_cut)
  have t: "trimmed ?t" using pop_zeros_trimmed [OF dd] dropWhile_hd unfolding ds_def by blast
  have l: "length ds \<le> length (ip @ tl fr)" unfolding ds_def by (rule length_dropWhile_le)
  have lt: "length ?t \<le> length ds" using length_dropWhile_le [of _ "rev ds"] by (simp add: pop_zeros_def)
  have "m = dec_val ?t * 10 ^ (length ds - length ?t)"
    using s(5) dec_val_cut_front [of "ip @ tl fr"] dec_val_cut_back [of ds] unfolding ds_def by simp
  moreover have "x + int (length ip) - int (length (ip @ tl fr) - length ds) = e + int (length ds - length ?t) + int (length ?t)"
    using l lt s(7) by simp
  moreover have "length ds - length ?t = 0" if "?t = []"
  proof -
    have "\<forall>a\<in>set ds. a = CHR ''0''" using that by (simp add: pop_zeros_def)
    then have "ds = []" using dropWhile_hd [of "ip @ tl fr"] unfolding ds_def by (metis hd_in_set)
    then show ?thesis by simp
  qed
  ultimately show thesis
    using that [of "\<lparr>dc_negative = neg \<and> ?t \<noteq> [], dc_digits = ?t, dc_exponent = x + int (length ip) - int (length (ip @ tl fr) - length ds)\<rparr>" ?t "length ds - length ?t"]
      decimal_of_parts [OF s(2-4) ds_def, of neg] s(1,6) c t trimmed_digit [OF dd]
    by (simp add: decimal_ok_def del: length_append length_tl)
qed

lemma powi_shift: "(10 :: rat) powi (e + int z + int l) / 10 ^ l = 10 ^ z * 10 powi e"
  by (simp add: power_int_add)

lemma decimal_of_value:
  assumes "denotes s neg m e x" "\<bar>x\<bar> \<le> EXPONENT_CLAMP"
  obtains d where "decimal_of s = Some d" "decimal_ok d" "decimal_value d = number_value neg m e"
proof -
  obtain d t z where d: "decimal_of s = Some d" "decimal_ok d" "dc_digits d = t" "dc_negative d \<longleftrightarrow> neg \<and> t \<noteq> []"
    "m = dec_val t * 10 ^ z" "dc_exponent d = e + int z + int (length t)" by (rule decimal_of_number [OF assms])
  have "magnitude d = of_nat (dec_val t) * (10 powi (e + int z + int (length t)) / 10 ^ length t)"
    by (simp add: magnitude_def d(3,6) fraction_value_dec)
  also have "\<dots> = of_nat m * 10 powi e" unfolding powi_shift by (simp add: d(5))
  finally have "magnitude d = of_nat m * 10 powi e" .
  moreover have "m = 0" if "t = []" using that d(5) by simp
  ultimately have "decimal_value d = number_value neg m e" using d(4)
    by (auto simp: decimal_value_magnitude number_value_def)
  with d(1,2) show thesis by (rule that)
qed

lemma compare_exact:
  assumes "denotes a na ma ea xa" "denotes b nb mb eb xb" "\<bar>xa\<bar> \<le> EXPONENT_CLAMP" "\<bar>xb\<bar> \<le> EXPONENT_CLAMP"
  shows "compare a b = Some (cmp (number_value na ma ea) (number_value nb mb eb))"
proof -
  obtain da where a: "decimal_of a = Some da" "decimal_ok da" "decimal_value da = number_value na ma ea"
    by (rule decimal_of_value [OF assms(1,3)])
  obtain db where b: "decimal_of b = Some db" "decimal_ok db" "decimal_value db = number_value nb mb eb"
    by (rule decimal_of_value [OF assms(2,4)])
  show ?thesis using compare_decimals_value [OF a(2) b(2)] a b by (simp add: compare_def)
qed

text \<open>C39: \<open>compare\<close> orders two numbers written as JSON writes them by what they denote, exactly, whatever
  their length, as long as no exponent is past the clamp.\<close>

theorem compare_is_exact:
  assumes "denotes a na ma ea xa" "denotes b nb mb eb xb" "\<bar>xa\<bar> \<le> EXPONENT_CLAMP" "\<bar>xb\<bar> \<le> EXPONENT_CLAMP"
  shows "compare a b = Some (cmp (number_value na ma ea) (number_value nb mb eb))"
  using assms by (rule compare_exact)

lemma decimal_of_None: "decimal_of s = None \<longleftrightarrow> \<not> is_number s"
  by (simp add: decimal_of_def Let_def case_prod_unfold)

lemma compare_not_numbers: "compare a b = None \<longleftrightarrow> \<not> is_number a \<or> \<not> is_number b"
  unfolding compare_def bind_eq_None_conv decimal_of_None [symmetric] by auto

text \<open>A number with no zero at its end is whole exactly when its point is behind it.\<close>

lemma whole_powi:
  assumes "\<not> 10 dvd n"
  shows "(\<exists>k. of_nat n * 10 powi e = (of_int k :: rat)) \<longleftrightarrow> 0 \<le> e"
proof
  assume "0 \<le> e"
  then have "of_nat n * 10 powi e = (of_int (int n * 10 ^ nat e) :: rat)" by (simp add: power_int_def)
  then show "\<exists>k. of_nat n * 10 powi e = (of_int k :: rat)" by blast
next
  assume "\<exists>k. of_nat n * 10 powi e = (of_int k :: rat)"
  then obtain k where k: "of_nat n * 10 powi e = (of_int k :: rat)" by blast
  show "0 \<le> e"
  proof (rule ccontr)
    assume "\<not> 0 \<le> e"
    then have "e = - int (Suc (nat (- e) - 1))" by simp
    then obtain j where j: "e = - int (Suc j)" by blast
    have p: "(10 :: rat) powi e * 10 ^ Suc j = 1" unfolding j power_int_minus power_int_of_nat by simp
    have "(of_nat n :: rat) = of_nat n * (10 powi e * 10 ^ Suc j)" using p by (metis mult.right_neutral)
    also have "\<dots> = of_int k * 10 ^ Suc j" using k by (metis mult.assoc)
    finally have "(of_int (int n) :: rat) = of_int (k * 10 ^ Suc j)" by simp
    then have "int n = k * 10 ^ Suc j" by (simp only: of_int_eq_iff)
    then have "int 10 dvd int n" by simp
    then show False using assms by (simp only: int_dvd_int_iff)
  qed
qed

text \<open>\<open>is_whole\<close> sees whether a number is whole exactly, except for zero, which it takes for whole only
  when it is written with no more digits after the point than its exponent moves back.\<close>

theorem whole_numbers_are_seen:
  assumes "denotes s neg m e x" "\<bar>x\<bar> \<le> EXPONENT_CLAMP"
  shows "is_whole s \<longleftrightarrow> (if m = 0 then 0 \<le> e else \<exists>k. number_value neg m e = of_int k)"
proof -
  obtain d t z where d: "decimal_of s = Some d" "dc_digits d = t" "m = dec_val t * 10 ^ z"
    "dc_exponent d = e + int z + int (length t)" "t = [] \<Longrightarrow> z = 0" "t \<noteq> [] \<Longrightarrow> \<not> 10 dvd dec_val t"
    using decimal_of_number [OF assms] by metis
  have w: "is_whole s \<longleftrightarrow> 0 \<le> e + int z" using d by (simp add: is_whole_def)
  have sg: "(\<exists>k. number_value neg m e = of_int k) \<longleftrightarrow> (\<exists>k. of_nat m * 10 powi e = (of_int k :: rat))"
    by (simp add: number_value_def) (metis minus_equation_iff of_int_minus)
  show ?thesis
  proof (cases "t = []")
    case True
    then show ?thesis using w d(3,5) by simp
  next
    case False
    then have "dec_val t \<noteq> 0" using d(6) by (intro notI) simp
    then have "m \<noteq> 0" using d(3) by simp
    moreover have "of_nat m * 10 powi e = (of_nat (dec_val t) * 10 powi (e + int z) :: rat)"
      by (simp add: d(3) power_int_add)
    ultimately show ?thesis using w sg whole_powi [OF d(6) [OF False], of "e + int z"] by simp
  qed
qed

lemma denotes_example:
  "denotes ''1.50'' False 150 (- 2) 0" "denotes ''15e-1'' False 15 (- 1) (- 1)" "denotes ''0.0'' False 0 (- 1) 0"
proof -
  have d: "json_int ''1''" "json_int ''15''" "json_int ''0''" "json_frac ''.50''" "json_frac ''.0''" "json_frac []" "json_exp []"
    by (auto simp: json_int_def json_frac_def json_exp_def digits1_def is_digit_def)
  have x: "json_exp ''e-1''" unfolding json_exp_def digits1_def
    by (intro disjI2 exI [of _ "CHR ''e''"] exI [of _ "''-''"] exI [of _ "''1''"]) (simp add: is_digit_def)
  have v: "dec_val ''150'' = 150" "dec_val ''15'' = 15" "dec_val ''00'' = 0" "dec_val ''1'' = 1" by (simp_all add: dec_val_def digit_val_def)
  show "denotes ''1.50'' False 150 (- 2) 0" unfolding denotes_def using d v
    by (intro exI [of _ "[]"] exI [of _ "''1''"] exI [of _ "''.50''"]) (simp add: exponent_of_def)
  show "denotes ''15e-1'' False 15 (- 1) (- 1)" unfolding denotes_def using d x v
    by (intro exI [of _ "[]"] exI [of _ "''15''"] exI [of _ "[]"] exI [of _ "''e-1''"]) (simp add: exponent_of_def)
  show "denotes ''0.0'' False 0 (- 1) 0" unfolding denotes_def using d v
    by (intro exI [of _ "[]"] exI [of _ "''0''"] exI [of _ "''.0''"]) (simp add: exponent_of_def)
qed

theorem compare_is_exact_witness: "compare ''1.50'' ''15e-1'' = Some Equal"
proof -
  have "number_value False 150 (- 2) = number_value False 15 (- 1)" by (simp add: number_value_def power_int_def power2_eq_square)
  then show ?thesis using compare_is_exact [OF denotes_example(1,2)] by (simp add: EXPONENT_CLAMP_def cmp_def)
qed

theorem whole_numbers_are_seen_witness: "\<not> is_whole ''0.0''"
  using whole_numbers_are_seen [OF denotes_example(3)] by (simp add: EXPONENT_CLAMP_def)

end
