(* ===== verification/Schema.thy ===== *)
theory Schema
  imports Decimals
begin

text \<open>
  Reading a schema out of a value (\<open>guatiao/src/schema/read.rs\<close>, with the words of \<open>vocab.rs\<close> and
  the defaulting readers of \<open>value/read.rs\<close>). A schema is a map with JSON Schema's keys; the readers
  are views over it that skip what they do not understand. Floating point is an argument (\<open>floats\<close>):
  what \<open>f64\<close> makes of a text, and the few questions asked of one.
\<close>

section \<open>The vocabulary\<close>

definition KEYWORDS :: "str list" where
  "KEYWORDS = [''$schema'', ''$ref'', ''$defs'', ''type'', ''title'', ''description'', ''default'', ''properties'', ''required'',
     ''items'', ''prefixItems'', ''uniqueItems'', ''propertyNames'', ''minimum'', ''maximum'', ''exclusiveMinimum'',
     ''exclusiveMaximum'', ''multipleOf'', ''minLength'', ''maxLength'', ''pattern'', ''format'', ''minItems'', ''maxItems'',
     ''readOnly'', ''writeOnly'', ''deprecated'', ''examples'', ''enum'', ''const'', ''anyOf'', ''oneOf'', ''allOf'', ''not'',
     ''additionalProperties'']"

definition EXTENSIONS :: "str list" where
  "EXTENSIONS = [''x-sensitive'', ''x-enum-labels'', ''x-variant-tag'']"

definition known :: "str \<Rightarrow> bool" where
  "known key \<longleftrightarrow> key \<in> set KEYWORDS \<or> key \<in> set EXTENSIONS"

section \<open>Readers with a default\<close>

definition bool_or :: "Value option \<Rightarrow> bool \<Rightarrow> bool" where
  "bool_or v fallback = (case Option.bind v as_bool of Some b \<Rightarrow> b | None \<Rightarrow> fallback)"

definition str_or :: "Value option \<Rightarrow> str \<Rightarrow> str" where
  "str_or v fallback = (case Option.bind v as_text of Some s \<Rightarrow> s | None \<Rightarrow> fallback)"

definition int_or :: "Value option \<Rightarrow> int \<Rightarrow> int" where
  "int_or v fallback =
     (case Option.bind v as_number of
        None \<Rightarrow> fallback
      | Some t \<Rightarrow> if list_ex (\<lambda>c. c = CHR ''.'' \<or> exponent_mark c) t then fallback
                else (case parse_int True 64 t of Some n \<Rightarrow> n | None \<Rightarrow> fallback))"

section \<open>Parts of a schema\<close>

text \<open>The value under a key of a map, where there is one: \<open>try_as_ref::<Map>\<close> then \<open>get\<close>.\<close>

definition part :: "Value \<Rightarrow> str \<Rightarrow> Value option" where
  "part v key = Option.bind (as_map v) (\<lambda>m. map_get m key)"

definition list_part :: "Value \<Rightarrow> str \<Rightarrow> Value list option" where
  "list_part v key = Option.bind (part v key) as_list"

definition text_part :: "Value \<Rightarrow> str \<Rightarrow> str" where
  "text_part v key = (case Option.bind (part v key) as_text of Some s \<Rightarrow> s | None \<Rightarrow> [])"

definition is_a_map :: "Value \<Rightarrow> bool" where
  "is_a_map v \<longleftrightarrow> as_map v \<noteq> None"

definition is_true_schema :: "Value \<Rightarrow> bool" where
  "is_true_schema v \<longleftrightarrow> tag_of v = Inr GUATIAO_BOOL \<and> bool_or (Some v) False"

definition is_schema :: "Value \<Rightarrow> bool" where
  "is_schema v \<longleftrightarrow> is_a_map v \<or> is_true_schema v"

definition opt_or_empty :: "'a list option \<Rightarrow> 'a list" where
  "opt_or_empty xs = (case xs of Some l \<Rightarrow> l | None \<Rightarrow> [])"

definition is_required_in :: "Value \<Rightarrow> str \<Rightarrow> bool" where
  "is_required_in owner key \<longleftrightarrow>
     list_ex (\<lambda>n. n = key) (List.map_filter as_text (opt_or_empty (list_part owner ''required'')))"

text \<open>\<open>FieldRef\<close>: a name, a schema and whether the owner requires it.\<close>

record field =
  fd_key :: str
  fd_schema :: Value
  fd_required :: bool

definition property_entries :: "Value \<Rightarrow> map_entries" where
  "property_entries owner = opt_or_empty (Option.bind (part owner ''properties'') as_map)"

definition field_of :: "Value \<Rightarrow> str \<times> Value \<Rightarrow> field option" where
  "field_of owner e =
     (if is_schema (snd e) then Some \<lparr>fd_key = fst e, fd_schema = snd e, fd_required = is_required_in owner (fst e)\<rparr>
      else None)"

definition fields_of :: "Value \<Rightarrow> field list" where
  "fields_of owner = List.map_filter (field_of owner) (property_entries owner)"

text \<open>\<open>SchemaRef::find\<close>: the first entry of that name, if its schema is one.\<close>

definition find_field :: "Value \<Rightarrow> str \<Rightarrow> field option" where
  "find_field doc key = Option.bind (List.find (\<lambda>e. fst e = key) (property_entries doc)) (field_of doc)"

definition extras_of :: "Value \<Rightarrow> map_entries" where
  "extras_of schema = filter (\<lambda>e. \<not> known (fst e)) (opt_or_empty (as_map schema))"

definition field_flag :: "field \<Rightarrow> str \<Rightarrow> bool" where
  "field_flag f key = bool_or (part (fd_schema f) key) False"

definition is_sensitive :: "field \<Rightarrow> bool" where
  "is_sensitive f = field_flag f ''x-sensitive''"

section \<open>Wrappers\<close>

definition is_null_schema :: "Value \<Rightarrow> bool" where
  "is_null_schema v \<longleftrightarrow> is_a_map v \<and>
     (Option.bind (part v ''type'') as_text = Some ''null'' \<or>
      (case part v ''const'' of Some c \<Rightarrow> tag_of c = Inr GUATIAO_NULL | None \<Rightarrow> False))"

definition nullable_pair :: "Value \<Rightarrow> Value option" where
  "nullable_pair any_of =
     (case as_list any_of of
        Some [a, b] \<Rightarrow>
          if is_null_schema a \<and> \<not> is_null_schema b \<and> is_a_map b then Some b
          else if \<not> is_null_schema a \<and> is_null_schema b \<and> is_a_map a then Some a
          else None
      | _ \<Rightarrow> None)"

definition lone_all_of :: "Value \<Rightarrow> Value option" where
  "lone_all_of v =
     (if list_ex (\<lambda>key. part v key \<noteq> None) [''type'', ''enum'', ''const'', ''anyOf'', ''oneOf''] then None
      else (case list_part v ''allOf'' of Some [only] \<Rightarrow> if is_schema only then Some only else None | _ \<Rightarrow> None))"

definition peel_once :: "Value \<Rightarrow> Value option" where
  "peel_once k =
     (if \<not> is_a_map k then None
      else
        case (if part k ''type'' = None then Option.bind (part k ''anyOf'') nullable_pair else None) of
          Some inner \<Rightarrow> Some inner
        | None \<Rightarrow> lone_all_of k)"

lemma part_size: "part v key = Some x \<Longrightarrow> size x < size v"
proof -
  assume "part v key = Some x"
  then obtain es where es: "v = VMap es" "map_get es key = Some x" by (auto simp: part_def bind_eq_Some_conv door_Some)
  then have "(key, x) \<in> set es" by (simp add: map_get_map_of map_of_SomeD)
  then show ?thesis using size_entry_member es(1) by fastforce
qed

lemma list_part_size: "list_part v key = Some xs \<Longrightarrow> x \<in> set xs \<Longrightarrow> size x < size v"
  using part_size size_list_member by (fastforce simp: list_part_def bind_eq_Some_conv door_Some)

lemma nullable_pair_member: "nullable_pair v = Some x \<Longrightarrow> \<exists>xs. as_list v = Some xs \<and> x \<in> set xs"
  by (auto simp: nullable_pair_def split: option.splits list.splits if_splits)

lemma lone_all_of_size: "lone_all_of v = Some x \<Longrightarrow> size x < size v"
  using list_part_size [of v "''allOf''"] by (auto simp: lone_all_of_def split: option.splits list.splits if_splits)

lemma peel_once_size: "peel_once k = Some inner \<Longrightarrow> size inner < size k"
proof -
  assume p: "peel_once k = Some inner"
  then consider v where "part k ''anyOf'' = Some v" "nullable_pair v = Some inner" | "lone_all_of k = Some inner"
    by (auto simp: peel_once_def bind_eq_Some_conv split: if_splits option.splits)
  then show ?thesis
  proof cases
    case (1 v)
    then obtain xs where "as_list v = Some xs" "inner \<in> set xs" using nullable_pair_member by blast
    then have "size inner < size v" using size_list_member [of inner xs] by (simp add: door_Some)
    then show ?thesis using part_size [OF 1(1)] by simp
  qed (rule lone_all_of_size)
qed

function peel :: "Value \<Rightarrow> Value" where
  "peel k = (case peel_once k of Some inner \<Rightarrow> peel inner | None \<Rightarrow> k)"
  by pat_completeness auto
termination by (relation "measure size") (simp_all add: peel_once_size)

declare peel.simps [simp del]

section \<open>Enumerations\<close>

definition is_enumeration :: "Value \<Rightarrow> bool" where
  "is_enumeration k \<longleftrightarrow> is_a_map k \<and>
     (list_part k ''enum'' \<noteq> None \<or> part k ''const'' \<noteq> None \<or>
      part k ''x-variant-tag'' = None \<and>
      (case list_part k ''oneOf'' of
         Some arms \<Rightarrow> arms \<noteq> [] \<and> list_all (\<lambda>arm. part arm ''const'' \<noteq> None) arms
       | None \<Rightarrow> False))"

text \<open>The members, each with the title its arm gave it.\<close>

definition members :: "Value \<Rightarrow> (Value \<times> str) list" where
  "members k =
     (case list_part k ''enum'' of
        Some listed \<Rightarrow> map (\<lambda>v. (v, [])) listed
      | None \<Rightarrow>
          (case part k ''const'' of
             Some v \<Rightarrow> [(v, [])]
           | None \<Rightarrow>
               List.map_filter (\<lambda>arm. map_option (\<lambda>c. (c, text_part arm ''title'')) (part arm ''const''))
                 (opt_or_empty (list_part k ''oneOf''))))"

function is_nullable :: "Value \<Rightarrow> bool" where
  "is_nullable k =
     (if \<not> is_a_map k then False
      else
        case part k ''type'' of
          Some ty \<Rightarrow>
            (case as_list ty of
               None \<Rightarrow> False
             | Some l \<Rightarrow>
                 list_ex (\<lambda>t. t = ''null'') (List.map_filter as_text l) \<and>
                 (\<not> is_enumeration k \<or> list_ex (\<lambda>m. tag_of (fst m) = Inr GUATIAO_NULL) (members k)))
        | None \<Rightarrow>
            (if Option.bind (part k ''anyOf'') nullable_pair \<noteq> None then True
             else case lone_all_of k of Some inner \<Rightarrow> is_nullable inner | None \<Rightarrow> False))"
  by pat_completeness auto
termination by (relation "measure size") (simp_all add: lone_all_of_size)

declare is_nullable.simps [simp del]

definition member_text :: "Value \<Rightarrow> str option" where
  "member_text v = (case as_text v of Some s \<Rightarrow> Some s | None \<Rightarrow> as_number v)"

section \<open>Kinds\<close>

text \<open>What the readers and the checks ask of \<open>f64\<close>: the number a text is parsed to, whether it is finite
  and above zero, the whole number in the range of an \<open>i64\<close> it rounds up or down to, the integer it
  is when it is one below \<open>9e18\<close>, whether a number or an integer's text is a multiple of it to within rounding,
  and equality.\<close>

record 'f floats =
  fl_parse :: "str \<Rightarrow> 'f option"
  fl_finite :: "'f \<Rightarrow> bool"
  fl_positive :: "'f \<Rightarrow> bool"
  fl_up :: "'f \<Rightarrow> int option"
  fl_down :: "'f \<Rightarrow> int option"
  fl_step :: "'f \<Rightarrow> int option"
  fl_multiple :: "'f \<Rightarrow> 'f \<Rightarrow> bool"
  fl_equal :: "'f \<Rightarrow> 'f \<Rightarrow> bool"

datatype 'f kind =
    KNull | KBool
  | KInt "int option" "int option" "'f option"
  | KFloat "'f option" "'f option" "'f option"
  | KStr "nat option" "nat option" "str option" "str option"
  | KBytes
  | KList Value "nat option" "nat option"
  | KTuple Value | KMap Value | KMapOf Value | KEnum Value | KUnion Value
  | KVariant str Value
  | KUnknown str
  | KMissing

definition number_part :: "Value \<Rightarrow> str \<Rightarrow> str option" where
  "number_part k key = Option.bind (part k key) as_number"

definition read_finite :: "'f floats \<Rightarrow> str \<Rightarrow> 'f option" where
  "read_finite F t = Option.bind (fl_parse F t) (\<lambda>x. if fl_finite F x then Some x else None)"

definition opt_bound :: "'f floats \<Rightarrow> Value \<Rightarrow> str \<Rightarrow> ('f \<Rightarrow> int option) \<Rightarrow> int option" where
  "opt_bound F k key rounds =
     Option.bind (number_part k key) (\<lambda>t.
       case parse_int True 64 t of Some n \<Rightarrow> Some n | None \<Rightarrow> Option.bind (read_finite F t) rounds)"

definition opt_count :: "Value \<Rightarrow> str \<Rightarrow> nat option" where
  "opt_count k key = Option.bind (number_part k key) (\<lambda>t. map_option nat (parse_int False 64 t))"

definition opt_float :: "'f floats \<Rightarrow> Value \<Rightarrow> str \<Rightarrow> 'f option" where
  "opt_float F k key = Option.bind (number_part k key) (read_finite F)"

definition opt_step :: "'f floats \<Rightarrow> Value \<Rightarrow> 'f option" where
  "opt_step F k = Option.bind (opt_float F k ''multipleOf'') (\<lambda>x. if fl_positive F x then Some x else None)"

definition opt_str :: "Value \<Rightarrow> str \<Rightarrow> str option" where
  "opt_str k key = Option.bind (part k key) as_text"

datatype declared = Named str | Several | Undeclared_type

text \<open>The loop over a list of types, with the one found so far.\<close>

fun only_type :: "Value list \<Rightarrow> str option \<Rightarrow> str option option" where
  "only_type [] found = Some found"
| "only_type (entry # es) found =
     (case as_text entry of
        None \<Rightarrow> None
      | Some t \<Rightarrow>
          if t = ''null'' then only_type es found
          else if found \<noteq> None then None
          else only_type es (Some t))"

definition declared_type :: "Value \<Rightarrow> declared" where
  "declared_type k =
     (case part k ''type'' of
        None \<Rightarrow> Undeclared_type
      | Some v \<Rightarrow>
          (case as_text v of
             Some n \<Rightarrow> Named n
           | None \<Rightarrow>
               (case as_list v of
                  None \<Rightarrow> Several
                | Some l \<Rightarrow>
                    (case only_type l None of
                       None \<Rightarrow> Several
                     | Some (Some n) \<Rightarrow> Named n
                     | Some None \<Rightarrow> if l = [] then Several else Named ''null''))))"

text \<open>What a map's \<open>type\<close> says beyond its name; \<open>k\<close> is peeled.\<close>

definition object_kind :: "Value \<Rightarrow> str \<Rightarrow> 'f kind" where
  "object_kind k ty =
     (case Option.bind (part k ''x-variant-tag'') as_text of
        Some tag \<Rightarrow> (case part k ''oneOf'' of Some arms \<Rightarrow> KVariant tag arms | None \<Rightarrow> KUnknown ty)
      | None \<Rightarrow>
          if part k ''properties'' = None \<and> (case part k ''additionalProperties'' of Some v \<Rightarrow> is_a_map v | None \<Rightarrow> False)
          then KMapOf k else KMap k)"

definition typed_kind :: "'f floats \<Rightarrow> Value \<Rightarrow> str \<Rightarrow> 'f kind" where
  "typed_kind F k ty =
     (if ty = ''null'' then KNull
      else if ty = ''boolean'' then KBool
      else if ty = ''string'' then
        KStr (opt_count k ''minLength'') (opt_count k ''maxLength'') (opt_str k ''pattern'') (opt_str k ''format'')
      else if ty = ''bytes'' then KBytes
      else if ty = ''array'' then
        (if list_part k ''prefixItems'' \<noteq> None then KTuple k
         else case part k ''items'' of
                Some items \<Rightarrow> KList items (opt_count k ''minItems'') (opt_count k ''maxItems'')
              | None \<Rightarrow> KUnknown ty)
      else if ty = ''object'' then object_kind k ty
      else if ty = ''integer'' then
        KInt (opt_bound F k ''minimum'' (fl_up F)) (opt_bound F k ''maximum'' (fl_down F)) (opt_step F k)
      else if ty = ''number'' then KFloat (opt_float F k ''minimum'') (opt_float F k ''maximum'') (opt_step F k)
      else KUnknown ty)"

definition untyped_kind :: "Value \<Rightarrow> 'f kind" where
  "untyped_kind k =
     (case part k ''anyOf'' of
        Some any_of \<Rightarrow> KUnion any_of
      | None \<Rightarrow>
          if part k ''oneOf'' \<noteq> None then KUnknown ''oneOf''
          else if part k ''allOf'' \<noteq> None then KUnknown ''allOf''
          else KUnknown ''type'')"

definition kind_read :: "'f floats \<Rightarrow> Value option \<Rightarrow> 'f kind" where
  "kind_read F schema =
     (case schema of
        None \<Rightarrow> KMissing
      | Some k0 \<Rightarrow>
          let k = peel k0
          in if is_true_schema k then KUnknown ''true''
             else if \<not> is_a_map k then KMissing
             else if part k ''$ref'' \<noteq> None then KUnknown ''$ref''
             else if is_enumeration k then KEnum k
             else (case declared_type k of
                     Named ty \<Rightarrow> typed_kind F k ty
                   | Several \<Rightarrow> KUnknown ''type''
                   | Undeclared_type \<Rightarrow> untyped_kind k))"

text \<open>\<open>ChoiceRef\<close>: what is stored, and the label shown.\<close>

definition choices :: "'f kind \<Rightarrow> (str \<times> str) list" where
  "choices knd =
     (case knd of
        KEnum k \<Rightarrow>
          let labels = Option.bind (part k ''x-enum-labels'') as_map
          in List.map_filter (\<lambda>(member, title).
               map_option (\<lambda>value'.
                 (value', case Option.bind (Option.bind labels (\<lambda>m. map_get m value')) as_text of Some l \<Rightarrow> l | None \<Rightarrow> title))
                 (member_text member)) (members k)
      | _ \<Rightarrow> [])"

text \<open>\<open>ArmRef\<close>: the tag's key and the arm's schema.\<close>

type_synonym arm = "str \<times> Value"

definition arms_of :: "'f kind \<Rightarrow> arm list" where
  "arms_of knd =
     (case knd of
        KVariant tag arms \<Rightarrow> map (\<lambda>schema. (tag, schema)) (filter is_a_map (opt_or_empty (as_list arms)))
      | _ \<Rightarrow> [])"

definition arm_value :: "arm \<Rightarrow> str" where
  "arm_value a =
     (case Option.bind (part (snd a) ''properties'') (\<lambda>p. Option.bind (part p (fst a)) (\<lambda>t. Option.bind (part t ''const'') as_text)) of
        Some s \<Rightarrow> s
      | None \<Rightarrow> [])"

definition arm_fields :: "arm \<Rightarrow> field list" where
  "arm_fields a = filter (\<lambda>f. fd_key f \<noteq> fst a) (fields_of (snd a))"

definition kind_fields :: "'f kind \<Rightarrow> field list" where
  "kind_fields knd = (case knd of KMap k \<Rightarrow> fields_of k | _ \<Rightarrow> [])"

definition prefix_items :: "Value \<Rightarrow> Value list" where
  "prefix_items k = opt_or_empty (list_part k ''prefixItems'')"

section \<open>What the readers promise\<close>

lemma peel_fixed: "peel_once (peel k) = None"
proof (induction k rule: peel.induct)
  case (1 k)
  then show ?case by (cases "peel_once k") (simp_all add: peel.simps [of k])
qed

lemma kind_of_peeled: "kind_read F (Some (peel k)) = kind_read F (Some k)"
  by (simp add: kind_read_def peel.simps [of "peel k"] peel_fixed)

lemma field_of_key: "field_of owner e = Some f \<Longrightarrow> fd_key f = fst e \<and> fd_schema f = snd e \<and> is_schema (snd e)"
  by (auto simp: field_of_def split: if_splits)

lemma fields_distinct: "distinct (map fst (property_entries owner)) \<Longrightarrow> distinct (map fd_key (fields_of owner))"
proof -
  have "map fd_key (List.map_filter (field_of owner) es) = map fst (filter (\<lambda>e. is_schema (snd e)) es)" for es
    by (induction es) (auto simp: map_filter_simps field_of_def)
  then show "distinct (map fst (property_entries owner)) \<Longrightarrow> distinct (map fd_key (fields_of owner))"
    by (simp add: fields_of_def distinct_map_filter)
qed

text \<open>Where the property names are apart, as a map's keys are, \<open>find\<close> and the walk over the fields agree.\<close>

lemma find_field_is_a_field:
  "distinct (map fst (property_entries doc)) \<Longrightarrow> find_field doc key = List.find (\<lambda>f. fd_key f = key) (fields_of doc)"
proof -
  have "Option.bind (List.find (\<lambda>e. fst e = key) es) (field_of doc) = List.find (\<lambda>f. fd_key f = key) (List.map_filter (field_of doc) es)"
    if "distinct (map fst es)" for es
    using that
  proof (induction es)
    case (Cons e es)
    have "List.find (\<lambda>f. fd_key f = key) (List.map_filter (field_of doc) es) = None" if "fst e = key"
    proof -
      have "fd_key f \<noteq> key" if f: "f \<in> set (List.map_filter (field_of doc) es)" for f
      proof -
        obtain e' where e': "e' \<in> set es" "field_of doc e' = Some f" using f by (auto simp: map_filter_def)
        then have "fd_key f \<in> fst ` set es" using field_of_key [OF e'(2)] by force
        moreover have "key \<notin> fst ` set es" using Cons.prems \<open>fst e = key\<close> by simp
        ultimately show ?thesis by blast
      qed
      then show ?thesis by (auto simp: find_None_iff)
    qed
    then show ?case using Cons by (auto simp: map_filter_simps split: option.splits dest: field_of_key)
  qed (simp add: map_filter_simps)
  then show "distinct (map fst (property_entries doc)) \<Longrightarrow> find_field doc key = List.find (\<lambda>f. fd_key f = key) (fields_of doc)"
    by (simp add: find_field_def fields_of_def)
qed

end
