(* ===== verification/Validate.thy ===== *)
theory Validate
  imports Schema
begin

text \<open>
  Whether a value is one a schema accepts (\<open>guatiao/src/schema/validate.rs\<close>, and the rewriting of
  \<open>pattern.rs\<close>, in a build with the feature \<open>regex\<close>): the check of a text and the check of a typed
  value, both bounded by \<open>MAX_DEPTH\<close>. The depth is counted down here: a check with \<open>n\<close> levels left is
  the code's at depth \<open>MAX_DEPTH - n\<close>. A refusal names the key and what would have been accepted; its
  words are a datatype. The engine of regular expressions is third-party code and an argument, as
  floating point is.
\<close>

section \<open>Refusals\<close>

datatype wanted =
    WDepth | WOther "str list"
  | WLengths "nat option" "nat option" | WPattern str
  | WBoolWord | WWhole | WBounds bounds | WNoMinus bounds | WMultiple | WNumber
  | WOneOf "str list" | WArms "str list" | WForms | WDeclaredKind
  | WNull | WBytes | WBoolean | WText
  | WList "nat option" "nat option" | WTuple "nat option" "nat option" | WAtMost nat | WNoRepeat
  | WObject | WTextKeys | WKeyType | WNothing str | WNothingInArm str str
  | WRequired | WRequiredByArm str | WDiscriminant str | WNaming str "str list" | WMap

datatype validation_error = UnknownOption str "str list" | BadValue str wanted

type_synonym verdict = "validation_error + unit"

definition bad :: "str \<Rightarrow> wanted \<Rightarrow> verdict" where
  "bad key w = Inl (BadValue key w)"

text \<open>\<open>?\<close> over the elements of an iterator: the first refusal.\<close>

fun each_ok :: "('a \<Rightarrow> 'e + unit) \<Rightarrow> 'a list \<Rightarrow> 'e + unit" where
  "each_ok f [] = Inr ()"
| "each_ok f (x # xs) = and_then (f x) (\<lambda>_. each_ok f xs)"

section \<open>Patterns\<close>

text \<open>The four classes as \<open>ECMA-262\<close> defines them; how many brackets deep the scan is, and whether the
  next character is the first of a class. The text is scanned by bytes: every one the rewriting looks
  for is \<open>ASCII\<close>.\<close>

function ecma_scan :: "str \<Rightarrow> nat \<Rightarrow> bool \<Rightarrow> str" where
  "ecma_scan [] classes first' = []"
| "ecma_scan (c # cs) classes first' =
     (if c = CHR 0x5C then
        (case cs of
           [] \<Rightarrow> [CHR 0x5C]
         | d # ds \<Rightarrow>
             (if d = CHR ''d'' then (if classes = 0 then ''[0-9]'' else ''0-9'')
              else if d = CHR ''D'' \<and> classes = 0 then ''[^0-9]''
              else if d = CHR ''w'' then (if classes = 0 then ''[A-Za-z0-9_]'' else ''A-Za-z0-9_'')
              else if d = CHR ''W'' \<and> classes = 0 then ''[^A-Za-z0-9_]''
              else [CHR 0x5C, d]) @ ecma_scan ds classes False)
      else if c = CHR ''['' then
        (case cs of
           d # ds \<Rightarrow> if d = CHR ''^'' then ''[^'' @ ecma_scan ds (classes + 1) True
                     else CHR ''['' # ecma_scan cs (classes + 1) True
         | [] \<Rightarrow> ''['')
      else if c = CHR '']'' \<and> 0 < classes \<and> \<not> first' then CHR '']'' # ecma_scan cs (classes - 1) False
      else c # ecma_scan cs classes False)"
  by pat_completeness auto
termination by (relation "measure (\<lambda>(s, _, _). length s)") auto

definition ecma_classes :: "str \<Rightarrow> str" where
  "ecma_classes pattern =
     (if \<not> list_ex (\<lambda>c. c \<in> {CHR ''d'', CHR ''D'', CHR ''w'', CHR ''W''}) pattern then pattern else ecma_scan pattern 0 False)"

text \<open>The engine: what a pattern compiles to, if it does.\<close>

type_synonym engine = "str \<Rightarrow> (str \<Rightarrow> bool) option"

definition pattern_matches :: "engine \<Rightarrow> str \<Rightarrow> str \<Rightarrow> bool" where
  "pattern_matches re pattern text = (case re (ecma_classes pattern) of None \<Rightarrow> True | Some is_match \<Rightarrow> is_match text)"

section \<open>The text of a value\<close>

definition BOOL_WORDS :: "str list" where
  "BOOL_WORDS = [''1'', ''0'', ''true'', ''false'', ''yes'', ''no'', []]"

definition bool_is_true :: "str \<Rightarrow> bool" where
  "bool_is_true value' \<longleftrightarrow> value' = [] \<or> value' \<in> {''1'', ''true'', ''yes''}"

text \<open>\<open>chars().count()\<close>: the bytes that start a character.\<close>

definition count_chars :: "str \<Rightarrow> nat" where
  "count_chars s = length (filter (\<lambda>b. b AND 0xC0 \<noteq> (0x80 :: u8)) (as_bytes s))"

definition read_bounds :: "Value \<Rightarrow> bounds" where
  "read_bounds schema =
     \<lparr>bd_min = number_part schema ''minimum'', bd_max = number_part schema ''maximum'',
      bd_exclusive_min = number_part schema ''exclusiveMinimum'', bd_exclusive_max = number_part schema ''exclusiveMaximum''\<rparr>"

definition number_of :: "'f floats \<Rightarrow> str \<Rightarrow> 'f option" where
  "number_of F text = (if is_number text then read_finite F text else None)"

definition int_is_multiple :: "'f floats \<Rightarrow> str \<Rightarrow> 'f \<Rightarrow> bool" where
  "int_is_multiple F text step =
     (case fl_step F step of
        Some k \<Rightarrow> (case parse_int True 128 text of None \<Rightarrow> True | Some n \<Rightarrow> n mod k = 0)
      | None \<Rightarrow> (case fl_parse F text of None \<Rightarrow> True | Some x \<Rightarrow> fl_multiple F x step))"

definition excluded :: "Value \<Rightarrow> Value option" where
  "excluded schema = part (peel schema) ''not''"

definition other_than :: "Value \<Rightarrow> wanted" where
  "other_than ex = WOther (List.map_filter (\<lambda>m. member_text (fst m)) (members ex))"

definition one_of_members :: "'f kind \<Rightarrow> wanted" where
  "one_of_members knd = WOneOf (map fst (choices knd))"

definition arm_names :: "'f kind \<Rightarrow> str list" where
  "arm_names knd = map arm_value (arms_of knd)"

text \<open>What a kind says of a text, but for the arms of a union, which are given.\<close>

definition text_by_kind ::
  "'f floats \<Rightarrow> engine \<Rightarrow> (Value \<Rightarrow> bool) \<Rightarrow> Value \<Rightarrow> str \<Rightarrow> str \<Rightarrow> verdict" where
  "text_by_kind F re arm_accepts schema key value' =
     (let knd = kind_read F (Some schema); own = peel schema
      in case knd of
           KStr lo hi pattern _ \<Rightarrow>
             (let n = count_chars value'
              in if (case lo of Some m \<Rightarrow> n < m | None \<Rightarrow> False) \<or> (case hi of Some m \<Rightarrow> m < n | None \<Rightarrow> False)
                 then bad key (WLengths lo hi)
                 else case pattern of
                        Some p \<Rightarrow> if pattern_matches re p value' then Inr () else bad key (WPattern p)
                      | None \<Rightarrow> Inr ())
         | KBool \<Rightarrow> if value' \<in> set BOOL_WORDS then Inr () else bad key WBoolWord
         | KInt _ _ multiple_of \<Rightarrow>
             (let bd = read_bounds own
              in if \<not> is_integer_text value' then bad key WWhole
                 else if \<not> bounds_admit bd value' then bad key (WBounds bd)
                 else if value' \<noteq> [] \<and> hd value' = CHR ''-'' \<and>
                   (case bd_min bd of Some m \<Rightarrow> (case compare m ''0'' of Some r \<Rightarrow> is_ge r | None \<Rightarrow> False) | None \<Rightarrow> False)
                 then bad key (WNoMinus bd)
                 else case multiple_of of
                        Some step \<Rightarrow> if int_is_multiple F value' step then Inr () else bad key WMultiple
                      | None \<Rightarrow> Inr ())
         | KFloat _ _ multiple_of \<Rightarrow>
             (case number_of F value' of
                None \<Rightarrow> bad key WNumber
              | Some x \<Rightarrow>
                  let bd = read_bounds own
                  in if \<not> bounds_admit bd value' then bad key (WBounds bd)
                     else case multiple_of of
                            Some step \<Rightarrow> if fl_multiple F x step then Inr () else bad key WMultiple
                          | None \<Rightarrow> Inr ())
         | KEnum _ \<Rightarrow> if list_ex (\<lambda>c. fst c = value') (choices knd) then Inr () else bad key (one_of_members knd)
         | KNull \<Rightarrow> bad key WNull
         | KVariant _ _ \<Rightarrow>
             if list_ex (\<lambda>a. arm_value a = value') (arms_of knd) then Inr () else bad key (WArms (arm_names knd))
         | KUnion any_of \<Rightarrow>
             if list_ex arm_accepts (opt_or_empty (as_list any_of)) then Inr () else bad key WForms
         | KMissing \<Rightarrow> bad key WDeclaredKind
         | _ \<Rightarrow> Inr ())"

text \<open>\<open>against\<close>, with the levels left.\<close>

fun text_against :: "'f floats \<Rightarrow> engine \<Rightarrow> nat \<Rightarrow> Value \<Rightarrow> str \<Rightarrow> str \<Rightarrow> verdict" where
  "text_against F re 0 schema key value' = bad key WDepth"
| "text_against F re (Suc n) schema key value' =
     (case excluded schema of
        Some ex \<Rightarrow>
          if is_ok (text_against F re n ex key value') then bad key (other_than ex)
          else text_by_kind F re (\<lambda>arm. is_ok (text_against F re n arm key value')) schema key value'
      | None \<Rightarrow> text_by_kind F re (\<lambda>arm. is_ok (text_against F re n arm key value')) schema key value')"

definition validate_text :: "'f floats \<Rightarrow> engine \<Rightarrow> field \<Rightarrow> str \<Rightarrow> verdict" where
  "validate_text F re f text = text_against F re MAX_DEPTH (fd_schema f) (fd_key f) text"

section \<open>Typed values\<close>

definition schema_flag :: "Value \<Rightarrow> str \<Rightarrow> bool" where
  "schema_flag schema key = bool_or (part (peel schema) key) False"

text \<open>Whether two values are the same JSON value: numbers by text, or, when both are short, by \<open>f64\<close>.\<close>

definition same_json :: "'f floats \<Rightarrow> Value \<Rightarrow> Value \<Rightarrow> bool" where
  "same_json F a b =
     (case (as_number a, as_number b) of
        (Some x, Some y) \<Rightarrow>
          x = y \<or> (length x \<le> 15 \<and> length y \<le> 15 \<and>
            (case (fl_parse F x, fl_parse F y) of (Some p, Some q) \<Rightarrow> fl_equal F p q | _ \<Rightarrow> False))
      | _ \<Rightarrow> equal (Values a b))"

definition first_repeat :: "'f floats \<Rightarrow> Value list \<Rightarrow> nat option" where
  "first_repeat F xs = List.find (\<lambda>i. list_ex (\<lambda>e. same_json F e (xs ! i)) (take i xs)) [1..<length xs]"

definition at_position :: "str \<Rightarrow> nat \<Rightarrow> str" where
  "at_position key i = key @ ''['' @ show_nat i @ '']''"

definition in_brackets :: "str \<Rightarrow> str \<Rightarrow> str" where
  "in_brackets key n = key @ ''['' @ n @ '']''"

definition nested :: "str \<Rightarrow> str \<Rightarrow> str" where
  "nested key n = (if key = [] then n else key @ ''.'' @ n)"

datatype undeclared = Refused_key | Accepted_key | Checked_key Value

definition undeclared_rule :: "Value \<Rightarrow> undeclared" where
  "undeclared_rule owner =
     (case part owner ''additionalProperties'' of
        Some v \<Rightarrow>
          if tag_of v = Inr GUATIAO_BOOL \<and> \<not> bool_or (Some v) True then Refused_key
          else if is_a_map v then Checked_key v
          else Accepted_key
      | None \<Rightarrow> Accepted_key)"

definition admits_type :: "str \<Rightarrow> Value \<Rightarrow> bool" where
  "admits_type n v =
     (let tag = tag_of v
      in if n = ''null'' then tag = Inr GUATIAO_NULL
         else if n = ''boolean'' then tag = Inr GUATIAO_BOOL
         else if n = ''string'' then tag = Inr GUATIAO_STRING
         else if n = ''bytes'' then tag = Inr GUATIAO_BYTES
         else if n = ''array'' then tag = Inr GUATIAO_LIST
         else if n = ''object'' then tag = Inr GUATIAO_MAP
         else if n = ''number'' then tag = Inr GUATIAO_NUMBER
         else if n = ''integer'' then (case as_number v of Some t \<Rightarrow> is_whole t | None \<Rightarrow> False)
         else True)"

definition type_admits :: "Value \<Rightarrow> Value \<Rightarrow> bool" where
  "type_admits schema v =
     (case part schema ''type'' of
        None \<Rightarrow> True
      | Some ty \<Rightarrow>
          (case as_text ty of
             Some n \<Rightarrow> admits_type n v
           | None \<Rightarrow>
               let names = List.map_filter as_text (opt_or_empty (as_list ty))
               in names = [] \<or> list_ex (\<lambda>n. admits_type n v) names))"

text \<open>Every key against the \<open>propertyNames\<close> of the owner, as text.\<close>

definition names_against :: "'f floats \<Rightarrow> engine \<Rightarrow> nat \<Rightarrow> Value \<Rightarrow> str \<Rightarrow> map_entries \<Rightarrow> verdict" where
  "names_against F re n owner key es =
     (case part owner ''propertyNames'' of
        None \<Rightarrow> Inr ()
      | Some names \<Rightarrow>
          each_ok (\<lambda>e. let here = in_brackets key (fst e)
                       in map_err (\<lambda>_. BadValue here WKeyType) (text_against F re n names here (fst e))) es)"

text \<open>The checks of the kinds that hold beyond; \<open>check\<close> is \<open>value_against\<close> one level down, \<open>n\<close> the levels
  left there.\<close>

type_synonym check = "Value \<Rightarrow> str \<Rightarrow> Value \<Rightarrow> verdict"

definition count_refused :: "nat option \<Rightarrow> nat option \<Rightarrow> nat \<Rightarrow> bool" where
  "count_refused lo hi n \<longleftrightarrow> (case lo of Some m \<Rightarrow> n < m | None \<Rightarrow> False) \<or> (case hi of Some m \<Rightarrow> m < n | None \<Rightarrow> False)"

definition unique_ok :: "'f floats \<Rightarrow> Value \<Rightarrow> str \<Rightarrow> Value list \<Rightarrow> verdict" where
  "unique_ok F schema key elements =
     (if schema_flag schema ''uniqueItems''
      then (case first_repeat F elements of Some i \<Rightarrow> bad (at_position key i) WNoRepeat | None \<Rightarrow> Inr ())
      else Inr ())"

definition list_against ::
  "'f floats \<Rightarrow> check \<Rightarrow> Value \<Rightarrow> Value \<Rightarrow> nat option \<Rightarrow> nat option \<Rightarrow> str \<Rightarrow> Value \<Rightarrow> verdict" where
  "list_against F check schema items lo hi key v =
     (case as_list v of
        None \<Rightarrow> bad key (WList None None)
      | Some elements \<Rightarrow>
          if count_refused lo hi (length elements) then bad key (WList lo hi)
          else and_then (each_ok (\<lambda>(i, element). check items (at_position key i) element) (enumerate 0 elements)) (\<lambda>_.
               unique_ok F schema key elements))"

definition position_against :: "check \<Rightarrow> Value list \<Rightarrow> Value option \<Rightarrow> str \<Rightarrow> nat \<times> Value \<Rightarrow> verdict" where
  "position_against check positions beyond key x =
     (let (i, element) = x; here = at_position key i
      in if i < length positions then check (positions ! i) here element
         else case beyond of
                Some v \<Rightarrow>
                  if tag_of v = Inr GUATIAO_BOOL \<and> \<not> bool_or (Some v) True then bad key (WAtMost (length positions))
                  else if is_a_map v then check v here element
                  else Inr ()
              | None \<Rightarrow> Inr ())"

definition tuple_against :: "'f floats \<Rightarrow> check \<Rightarrow> Value \<Rightarrow> Value \<Rightarrow> str \<Rightarrow> Value \<Rightarrow> verdict" where
  "tuple_against F check schema owner key v =
     (case as_list v of
        None \<Rightarrow> bad key (WList None None)
      | Some elements \<Rightarrow>
          let lo = opt_count owner ''minItems''; hi = opt_count owner ''maxItems''
          in if count_refused lo hi (length elements) then bad key (WTuple lo hi)
             else and_then (each_ok (position_against check (prefix_items owner) (part owner ''items'') key) (enumerate 0 elements)) (\<lambda>_.
                  unique_ok F schema key elements))"

text \<open>A map's entries, once its value is seen to be one with keys that are text.\<close>

definition map_then :: "str \<Rightarrow> wanted \<Rightarrow> Value \<Rightarrow> (map_entries \<Rightarrow> verdict) \<Rightarrow> verdict" where
  "map_then key w v f =
     (if tag_of v \<noteq> Inr GUATIAO_MAP then bad key w
      else case as_map v of None \<Rightarrow> bad key WTextKeys | Some es \<Rightarrow> f es)"

definition open_map_against :: "'f floats \<Rightarrow> engine \<Rightarrow> nat \<Rightarrow> check \<Rightarrow> Value \<Rightarrow> str \<Rightarrow> Value \<Rightarrow> verdict" where
  "open_map_against F re n check owner key v =
     map_then key WObject v (\<lambda>es.
       and_then (names_against F re n owner key es) (\<lambda>_.
       case part owner ''additionalProperties'' of
         None \<Rightarrow> Inr ()
       | Some element \<Rightarrow> each_ok (\<lambda>e. check element (in_brackets key (fst e)) (snd e)) es))"

definition undeclared_against :: "check \<Rightarrow> Value \<Rightarrow> str \<Rightarrow> Value \<Rightarrow> wanted \<Rightarrow> verdict" where
  "undeclared_against check owner path v says =
     (case undeclared_rule owner of
        Refused_key \<Rightarrow> bad path says
      | Accepted_key \<Rightarrow> Inr ()
      | Checked_key schema \<Rightarrow> check schema path v)"

text \<open>One entry of an object or an arm, and the fields that must be there.\<close>

definition entry_against :: "check \<Rightarrow> field list \<Rightarrow> Value \<Rightarrow> str \<Rightarrow> (str \<Rightarrow> wanted) \<Rightarrow> str \<times> Value \<Rightarrow> verdict" where
  "entry_against check declared_ones owner key says e =
     (let path = nested key (fst e)
      in case List.find (\<lambda>f. fd_key f = fst e) declared_ones of
           Some f \<Rightarrow> check (fd_schema f) path (snd e)
         | None \<Rightarrow> undeclared_against check owner path (snd e) (says (fst e)))"

definition required_there :: "field list \<Rightarrow> str \<Rightarrow> wanted \<Rightarrow> map_entries \<Rightarrow> verdict" where
  "required_there declared_ones key w es =
     each_ok (\<lambda>f. if fd_required f \<and> \<not> contains_key es (fd_key f) then bad (nested key (fd_key f)) w else Inr ()) declared_ones"

definition object_against :: "'f floats \<Rightarrow> engine \<Rightarrow> nat \<Rightarrow> check \<Rightarrow> Value \<Rightarrow> str \<Rightarrow> Value \<Rightarrow> verdict" where
  "object_against F re n check owner key v =
     map_then key WObject v (\<lambda>es.
       and_then (names_against F re n owner key es) (\<lambda>_.
       and_then (each_ok (entry_against check (fields_of owner) owner key WNothing) es) (\<lambda>_.
       required_there (fields_of owner) key WRequired es)))"

definition variant_against :: "check \<Rightarrow> 'f kind \<Rightarrow> str \<Rightarrow> str \<Rightarrow> Value \<Rightarrow> verdict" where
  "variant_against check knd discriminant key v =
     map_then key (WDiscriminant discriminant) v (\<lambda>es.
       let chosen = str_or (map_get es discriminant) []
       in case List.find (\<lambda>a. arm_value a = chosen) (arms_of knd) of
            None \<Rightarrow> bad key (WNaming discriminant (arm_names knd))
          | Some arm \<Rightarrow>
              and_then (each_ok (\<lambda>e. if fst e = discriminant then Inr ()
                  else entry_against check (arm_fields arm) (snd arm) key (\<lambda>n. WNothingInArm n chosen) e) es) (\<lambda>_.
              required_there (arm_fields arm) key (WRequiredByArm chosen) es))"

text \<open>What a kind says of a value; \<open>n\<close> levels are left below this one.\<close>

definition value_by_kind :: "'f floats \<Rightarrow> engine \<Rightarrow> nat \<Rightarrow> check \<Rightarrow> Value \<Rightarrow> str \<Rightarrow> Value \<Rightarrow> verdict" where
  "value_by_kind F re n check schema key v =
     (let knd = kind_read F (Some schema); tag = tag_of v
      in case knd of
           KNull \<Rightarrow> if tag = Inr GUATIAO_NULL then Inr () else bad key WNull
         | KBytes \<Rightarrow> if tag = Inr GUATIAO_BYTES then Inr () else bad key WBytes
         | KBool \<Rightarrow> if tag = Inr GUATIAO_BOOL then Inr () else bad key WBoolean
         | KInt _ _ _ \<Rightarrow> (case as_number v of None \<Rightarrow> bad key WWhole | Some t \<Rightarrow> text_against F re (Suc n) schema key t)
         | KFloat _ _ _ \<Rightarrow> (case as_number v of None \<Rightarrow> bad key WNumber | Some t \<Rightarrow> text_against F re (Suc n) schema key t)
         | KStr _ _ _ _ \<Rightarrow> (case as_text v of None \<Rightarrow> bad key WText | Some t \<Rightarrow> text_against F re (Suc n) schema key t)
         | KEnum owner \<Rightarrow>
             if type_admits owner v \<and> list_ex (\<lambda>m. same_json F (fst m) v) (members owner) then Inr ()
             else bad key (one_of_members knd)
         | KUnion any_of \<Rightarrow>
             if list_ex (\<lambda>arm. is_ok (check arm key v)) (opt_or_empty (as_list any_of)) then Inr () else bad key WForms
         | KList items lo hi \<Rightarrow> list_against F check schema items lo hi key v
         | KTuple owner \<Rightarrow> tuple_against F check schema owner key v
         | KMapOf owner \<Rightarrow> open_map_against F re n check owner key v
         | KMap owner \<Rightarrow> object_against F re n check owner key v
         | KVariant discriminant _ \<Rightarrow> variant_against check knd discriminant key v
         | KUnknown _ \<Rightarrow> Inr ()
         | KMissing \<Rightarrow> bad key WDeclaredKind)"

fun value_against :: "'f floats \<Rightarrow> engine \<Rightarrow> nat \<Rightarrow> Value \<Rightarrow> str \<Rightarrow> Value \<Rightarrow> verdict" where
  "value_against F re 0 schema key v = bad key WDepth"
| "value_against F re (Suc n) schema key v =
     (if tag_of v = Inr GUATIAO_NULL \<and> is_nullable schema then Inr ()
      else case excluded schema of
             Some ex \<Rightarrow>
               if is_ok (value_against F re n ex key v) then bad key (other_than ex)
               else value_by_kind F re n (value_against F re n) schema key v
           | None \<Rightarrow> value_by_kind F re n (value_against F re n) schema key v)"

definition validate_value :: "'f floats \<Rightarrow> engine \<Rightarrow> field \<Rightarrow> Value \<Rightarrow> verdict" where
  "validate_value F re f v = value_against F re MAX_DEPTH (fd_schema f) (fd_key f) v"

definition accepts :: "'f floats \<Rightarrow> engine \<Rightarrow> Value \<Rightarrow> Value \<Rightarrow> bool" where
  "accepts F re schema v = is_ok (value_against F re MAX_DEPTH schema [] v)"

definition validate_entry :: "'f floats \<Rightarrow> engine \<Rightarrow> Value \<Rightarrow> str \<times> Value \<Rightarrow> verdict" where
  "validate_entry F re doc e =
     (case find_field doc (fst e) of
        Some f \<Rightarrow> validate_value F re f (snd e)
      | None \<Rightarrow>
          (case undeclared_rule doc of
             Refused_key \<Rightarrow> Inl (UnknownOption (fst e) (map fd_key (fields_of doc)))
           | Accepted_key \<Rightarrow> Inr ()
           | Checked_key element \<Rightarrow> value_against F re (MAX_DEPTH - 1) element (fst e) (snd e)))"

definition validate_map :: "'f floats \<Rightarrow> engine \<Rightarrow> Value \<Rightarrow> Value \<Rightarrow> verdict" where
  "validate_map F re doc values =
     (if (case kind_read F (Some doc) of KMap _ \<Rightarrow> True | KUnknown _ \<Rightarrow> True | KMissing \<Rightarrow> True | _ \<Rightarrow> False)
      then
        map_then [] WMap values (\<lambda>es.
          and_then (each_ok (validate_entry F re doc) es) (\<lambda>_.
          each_ok (\<lambda>f. if fd_required f \<and> \<not> contains_key es (fd_key f) then bad (fd_key f) WRequired else Inr ()) (fields_of doc)))
      else value_against F re MAX_DEPTH doc [] values)"

end
