(* ===== verification/Validate_Laws.thy ===== *)
theory Validate_Laws
  imports Validate
begin

text \<open>
  What the checks of \<open>Validate\<close> promise. \<open>sat\<close> says which values a schema describes, with no keys, no
  refusals and no order of checking; the check accepts exactly those, whatever key it reports under.
  On it rest the properties: an accepted value is of the kind's type, an accepted integer lies count_within
  its bounds, a sealed document holds what it declares and no more.
\<close>

section \<open>Verdicts\<close>

lemma each_ok_Inr [result_simps]: "each_ok f xs = Inr () \<longleftrightarrow> (\<forall>x\<in>set xs. f x = Inr ())"
  by (induction xs) (auto simp: result_simps)

lemma bad_refuses [simp]: "bad key w \<noteq> Inr u" "\<not> is_ok (bad key w)"
  by (simp_all add: bad_def)

lemma is_ok_unit: "is_ok (x :: verdict) \<longleftrightarrow> x = Inr ()"
  by (cases x) auto

lemma is_ok_and_then [simp]: "is_ok (and_then (x :: 'e + unit) f) \<longleftrightarrow> is_ok x \<and> is_ok (f ())"
  by (cases x) auto

lemma is_ok_each [simp]: "is_ok (each_ok f xs) \<longleftrightarrow> (\<forall>x\<in>set xs. is_ok (f x))"
  by (induction xs) auto

lemma is_ok_map_err [simp]: "is_ok (map_err f x) \<longleftrightarrow> is_ok x"
  by (cases x) auto

lemma tag_of_map [simp]: "as_map v = Some es \<Longrightarrow> tag_of v = Inr GUATIAO_MAP"
  by (auto simp: door_Some)

lemma is_ok_map_then: "is_ok (map_then key w v f) \<longleftrightarrow> (\<exists>es. as_map v = Some es \<and> is_ok (f es))"
  by (auto simp: map_then_def split: option.splits)

section \<open>What a schema describes\<close>

definition count_within :: "nat option \<Rightarrow> nat option \<Rightarrow> nat \<Rightarrow> bool" where
  "count_within lo hi n \<longleftrightarrow> (\<forall>m. lo = Some m \<longrightarrow> m \<le> n) \<and> (\<forall>m. hi = Some m \<longrightarrow> n \<le> m)"

definition apart :: "'f floats \<Rightarrow> Value list \<Rightarrow> bool" where
  "apart F xs \<longleftrightarrow> (\<forall>j<length xs. \<forall>i<j. \<not> same_json F (xs ! i) (xs ! j))"

definition takes_no_minus :: "bounds \<Rightarrow> bool" where
  "takes_no_minus bd \<longleftrightarrow> (\<exists>m r. bd_min bd = Some m \<and> compare m ''0'' = Some r \<and> is_ge r)"

definition sat_text_kind :: "'f floats \<Rightarrow> engine \<Rightarrow> (Value \<Rightarrow> bool) \<Rightarrow> Value \<Rightarrow> str \<Rightarrow> bool" where
  "sat_text_kind F re arm schema t \<longleftrightarrow>
     (let knd = kind_read F (Some schema); bd = read_bounds (peel schema)
      in case knd of
           KStr lo hi pattern _ \<Rightarrow> count_within lo hi (count_chars t) \<and> (\<forall>p. pattern = Some p \<longrightarrow> pattern_matches re p t)
         | KBool \<Rightarrow> t \<in> set BOOL_WORDS
         | KInt _ _ st \<Rightarrow> is_integer_text t \<and> bounds_admit bd t \<and> \<not> (t \<noteq> [] \<and> hd t = CHR ''-'' \<and> takes_no_minus bd) \<and>
             (\<forall>s. st = Some s \<longrightarrow> int_is_multiple F t s)
         | KFloat _ _ st \<Rightarrow>
             (\<exists>x. number_of F t = Some x \<and> bounds_admit bd t \<and> (\<forall>s. st = Some s \<longrightarrow> fl_multiple F x s))
         | KEnum _ \<Rightarrow> t \<in> fst ` set (choices knd)
         | KVariant _ _ \<Rightarrow> t \<in> arm_value ` set (arms_of knd)
         | KUnion any_of \<Rightarrow> (\<exists>a\<in>set (opt_or_empty (as_list any_of)). arm a)
         | KNull \<Rightarrow> False
         | KMissing \<Rightarrow> False
         | _ \<Rightarrow> True)"

fun sat_text :: "'f floats \<Rightarrow> engine \<Rightarrow> nat \<Rightarrow> Value \<Rightarrow> str \<Rightarrow> bool" where
  "sat_text F re 0 schema t \<longleftrightarrow> False"
| "sat_text F re (Suc n) schema t \<longleftrightarrow>
     \<not> (\<exists>ex. excluded schema = Some ex \<and> sat_text F re n ex t) \<and>
     sat_text_kind F re (\<lambda>a. sat_text F re n a t) schema t"

definition sat_names :: "'f floats \<Rightarrow> engine \<Rightarrow> nat \<Rightarrow> Value \<Rightarrow> map_entries \<Rightarrow> bool" where
  "sat_names F re n owner es \<longleftrightarrow>
     (\<forall>names. part owner ''propertyNames'' = Some names \<longrightarrow> (\<forall>k\<in>fst ` set es. sat_text F re n names k))"

text \<open>A key no field declares.\<close>

definition sat_extra :: "(Value \<Rightarrow> Value \<Rightarrow> bool) \<Rightarrow> Value \<Rightarrow> Value \<Rightarrow> bool" where
  "sat_extra below owner v \<longleftrightarrow>
     (case undeclared_rule owner of Refused_key \<Rightarrow> False | Accepted_key \<Rightarrow> True | Checked_key s \<Rightarrow> below s v)"

definition sat_entry :: "(Value \<Rightarrow> Value \<Rightarrow> bool) \<Rightarrow> field list \<Rightarrow> Value \<Rightarrow> str \<Rightarrow> Value \<Rightarrow> bool" where
  "sat_entry below fs owner k v \<longleftrightarrow>
     (case List.find (\<lambda>f. fd_key f = k) fs of Some f \<Rightarrow> below (fd_schema f) v | None \<Rightarrow> sat_extra below owner v)"

definition all_there :: "field list \<Rightarrow> map_entries \<Rightarrow> bool" where
  "all_there fs es \<longleftrightarrow> (\<forall>f\<in>set fs. fd_required f \<longrightarrow> fd_key f \<in> fst ` set es)"

definition sat_position :: "(Value \<Rightarrow> Value \<Rightarrow> bool) \<Rightarrow> Value \<Rightarrow> nat \<Rightarrow> Value \<Rightarrow> bool" where
  "sat_position below owner i x \<longleftrightarrow>
     (if i < length (prefix_items owner) then below (prefix_items owner ! i) x
      else (\<forall>r. part owner ''items'' = Some r \<longrightarrow> r \<noteq> VBool False \<and> (is_a_map r \<longrightarrow> below r x)))"

definition sat_kind :: "'f floats \<Rightarrow> engine \<Rightarrow> nat \<Rightarrow> (Value \<Rightarrow> Value \<Rightarrow> bool) \<Rightarrow> Value \<Rightarrow> Value \<Rightarrow> bool" where
  "sat_kind F re n below schema v \<longleftrightarrow>
     (let knd = kind_read F (Some schema); unique = schema_flag schema ''uniqueItems''
      in case knd of
           KNull \<Rightarrow> v = VNull
         | KBytes \<Rightarrow> (\<exists>bs. v = VBytes bs)
         | KBool \<Rightarrow> (\<exists>b. v = VBool b)
         | KInt _ _ _ \<Rightarrow> (\<exists>t. as_number v = Some t \<and> sat_text F re (Suc n) schema t)
         | KFloat _ _ _ \<Rightarrow> (\<exists>t. as_number v = Some t \<and> sat_text F re (Suc n) schema t)
         | KStr _ _ _ _ \<Rightarrow> (\<exists>t. as_text v = Some t \<and> sat_text F re (Suc n) schema t)
         | KEnum owner \<Rightarrow> type_admits owner v \<and> (\<exists>m\<in>fst ` set (members owner). same_json F m v)
         | KUnion any_of \<Rightarrow> (\<exists>a\<in>set (opt_or_empty (as_list any_of)). below a v)
         | KList items lo hi \<Rightarrow>
             (\<exists>xs. v = VList xs \<and> count_within lo hi (length xs) \<and> (\<forall>x\<in>set xs. below items x) \<and> (unique \<longrightarrow> apart F xs))
         | KTuple owner \<Rightarrow>
             (\<exists>xs. v = VList xs \<and> count_within (opt_count owner ''minItems'') (opt_count owner ''maxItems'') (length xs) \<and>
                (\<forall>i<length xs. sat_position below owner i (xs ! i)) \<and> (unique \<longrightarrow> apart F xs))
         | KMapOf owner \<Rightarrow>
             (\<exists>es. as_map v = Some es \<and> sat_names F re n owner es \<and>
                (\<forall>s. part owner ''additionalProperties'' = Some s \<longrightarrow> (\<forall>x\<in>snd ` set es. below s x)))
         | KMap owner \<Rightarrow>
             (\<exists>es. as_map v = Some es \<and> sat_names F re n owner es \<and>
                (\<forall>(k, x)\<in>set es. sat_entry below (fields_of owner) owner k x) \<and> all_there (fields_of owner) es)
         | KVariant tag _ \<Rightarrow>
             (\<exists>es arm. as_map v = Some es \<and>
                List.find (\<lambda>a. arm_value a = str_or (map_get es tag) []) (arms_of knd) = Some arm \<and>
                (\<forall>(k, x)\<in>set es. k = tag \<or> sat_entry below (arm_fields arm) (snd arm) k x) \<and>
                all_there (arm_fields arm) es)
         | KUnknown _ \<Rightarrow> True
         | KMissing \<Rightarrow> False)"

fun sat :: "'f floats \<Rightarrow> engine \<Rightarrow> nat \<Rightarrow> Value \<Rightarrow> Value \<Rightarrow> bool" where
  "sat F re 0 schema v \<longleftrightarrow> False"
| "sat F re (Suc n) schema v \<longleftrightarrow>
     v = VNull \<and> is_nullable schema \<or>
     \<not> (\<exists>ex. excluded schema = Some ex \<and> sat F re n ex v) \<and> sat_kind F re n (sat F re n) schema v"

section \<open>The check accepts what the schema describes\<close>

lemma count_refused_within: "count_refused lo hi n \<longleftrightarrow> \<not> count_within lo hi n"
  by (auto simp: count_refused_def count_within_def not_less split: option.splits)

lemma is_ok_if: "is_ok (if b then x else y) \<longleftrightarrow> (if b then is_ok x else is_ok y)"
  by simp

lemma text_kind_sat:
  "is_ok (text_by_kind F re arm schema key t) \<longleftrightarrow> sat_text_kind F re arm schema t"
  unfolding text_by_kind_def sat_text_kind_def Let_def
  by (cases "kind_read F (Some schema)")
     (auto simp: count_within_def takes_no_minus_def not_less list_ex_iff split: option.splits)

lemma text_sat: "is_ok (text_against F re n schema key t) \<longleftrightarrow> sat_text F re n schema t"
  by (induction n arbitrary: schema) (auto simp: text_kind_sat split: option.splits)

lemma names_sat: "is_ok (names_against F re n owner key es) \<longleftrightarrow> sat_names F re n owner es"
  by (auto simp: names_against_def sat_names_def Let_def text_sat split: option.splits)

lemma first_repeat_apart: "first_repeat F xs = None \<longleftrightarrow> apart F xs"
proof -
  have "list_ex (\<lambda>e. same_json F e (xs ! j)) (take j xs) \<longleftrightarrow> (\<exists>i<j. same_json F (xs ! i) (xs ! j))" if "j < length xs" for j
    using that by (fastforce simp: list_ex_iff in_set_conv_nth)
  then have "first_repeat F xs = None \<longleftrightarrow> (\<forall>j\<in>{1..<length xs}. \<forall>i<j. \<not> same_json F (xs ! i) (xs ! j))"
    by (auto simp: first_repeat_def find_None_iff)
  then show ?thesis by (auto simp: apart_def)
qed

lemma unique_sat: "is_ok (unique_ok F schema key xs) \<longleftrightarrow> (schema_flag schema ''uniqueItems'' \<longrightarrow> apart F xs)"
  using first_repeat_apart [of F xs] by (auto simp: unique_ok_def split: option.splits)

lemma is_ok_enumerate:
  "(\<forall>x\<in>set (enumerate 0 xs). P x) \<longleftrightarrow> (\<forall>i<length xs. P (i, xs ! i))"
  by (auto simp: in_set_enumerate_eq)

lemma undeclared_sat:
  assumes "\<And>s x k. is_ok (check s k x) \<longleftrightarrow> below s x"
  shows "is_ok (undeclared_against check owner path v w) \<longleftrightarrow> sat_extra below owner v"
  by (auto simp: undeclared_against_def sat_extra_def assms split: undeclared.splits)

lemma entry_sat:
  assumes "\<And>s x k. is_ok (check s k x) \<longleftrightarrow> below s x"
  shows "is_ok (entry_against check fs owner key says e) \<longleftrightarrow> sat_entry below fs owner (fst e) (snd e)"
  using undeclared_sat [of check below, OF assms]
  by (auto simp: entry_against_def sat_entry_def Let_def assms split: option.splits)

lemma required_sat: "is_ok (required_there fs key w es) \<longleftrightarrow> all_there fs es"
  by (auto simp: required_there_def all_there_def contains_key_iff)

lemma false_bool: "tag_of v = Inr GUATIAO_BOOL \<and> \<not> bool_or (Some v) True \<longleftrightarrow> v = VBool False"
  by (cases v) (auto simp: bool_or_def door_Some)

lemma position_sat:
  assumes "\<And>s x k. is_ok (check s k x) \<longleftrightarrow> below s x"
  shows "is_ok (position_against check (prefix_items owner) (part owner ''items'') key (i, x)) \<longleftrightarrow> sat_position below owner i x"
  unfolding position_against_def sat_position_def by (auto simp: Let_def assms false_bool split: option.splits)

lemma list_sat:
  assumes "\<And>s x k. is_ok (check s k x) \<longleftrightarrow> below s x"
  shows "is_ok (list_against F check schema items lo hi key v) \<longleftrightarrow>
    (\<exists>xs. v = VList xs \<and> count_within lo hi (length xs) \<and> (\<forall>x\<in>set xs. below items x) \<and>
       (schema_flag schema ''uniqueItems'' \<longrightarrow> apart F xs))"
proof -
  have "(\<forall>x\<in>set xs. below items x) \<longleftrightarrow> (\<forall>i<length xs. below items (xs ! i))" for xs by (rule all_set_conv_all_nth)
  then show ?thesis unfolding list_against_def
    by (auto simp: door_Some is_ok_enumerate count_refused_within unique_sat assms split: option.splits)
qed

lemma tuple_sat:
  assumes "\<And>s x k. is_ok (check s k x) \<longleftrightarrow> below s x"
  shows "is_ok (tuple_against F check schema owner key v) \<longleftrightarrow>
    (\<exists>xs. v = VList xs \<and> count_within (opt_count owner ''minItems'') (opt_count owner ''maxItems'') (length xs) \<and>
       (\<forall>i<length xs. sat_position below owner i (xs ! i)) \<and> (schema_flag schema ''uniqueItems'' \<longrightarrow> apart F xs))"
  using position_sat [of check below, OF assms] unfolding tuple_against_def Let_def
  by (auto simp: door_Some is_ok_enumerate count_refused_within unique_sat split: option.splits)

lemma open_map_sat:
  assumes "\<And>s x k. is_ok (check s k x) \<longleftrightarrow> below s x"
  shows "is_ok (open_map_against F re n check owner key v) \<longleftrightarrow>
    (\<exists>es. as_map v = Some es \<and> sat_names F re n owner es \<and>
       (\<forall>s. part owner ''additionalProperties'' = Some s \<longrightarrow> (\<forall>x\<in>snd ` set es. below s x)))"
  by (auto simp: open_map_against_def is_ok_map_then names_sat assms split: option.splits)

lemma object_sat:
  assumes "\<And>s x k. is_ok (check s k x) \<longleftrightarrow> below s x"
  shows "is_ok (object_against F re n check owner key v) \<longleftrightarrow>
    (\<exists>es. as_map v = Some es \<and> sat_names F re n owner es \<and>
       (\<forall>(k, x)\<in>set es. sat_entry below (fields_of owner) owner k x) \<and> all_there (fields_of owner) es)"
  using entry_sat [of check below, OF assms]
  by (auto simp: object_against_def is_ok_map_then names_sat required_sat case_prod_beta)

lemma variant_sat:
  assumes "\<And>s x k. is_ok (check s k x) \<longleftrightarrow> below s x"
  shows "is_ok (variant_against check knd tag key v) \<longleftrightarrow>
    (\<exists>es arm. as_map v = Some es \<and>
       List.find (\<lambda>a. arm_value a = str_or (map_get es tag) []) (arms_of knd) = Some arm \<and>
       (\<forall>(k, x)\<in>set es. k = tag \<or> sat_entry below (arm_fields arm) (snd arm) k x) \<and> all_there (arm_fields arm) es)"
  unfolding variant_against_def is_ok_map_then
proof (rule ex_cong1)
  fix es
  show "as_map v = Some es \<and> is_ok (let chosen = str_or (map_get es tag) []
       in case List.find (\<lambda>a. arm_value a = chosen) (arms_of knd) of
            None \<Rightarrow> bad key (WNaming tag (arm_names knd))
          | Some arm \<Rightarrow>
              and_then (each_ok (\<lambda>e. if fst e = tag then Inr ()
                  else entry_against check (arm_fields arm) (snd arm) key (\<lambda>n. WNothingInArm n chosen) e) es) (\<lambda>_.
              required_there (arm_fields arm) key (WRequiredByArm chosen) es)) \<longleftrightarrow>
    (\<exists>arm. as_map v = Some es \<and>
       List.find (\<lambda>a. arm_value a = str_or (map_get es tag) []) (arms_of knd) = Some arm \<and>
       (\<forall>(k, x)\<in>set es. k = tag \<or> sat_entry below (arm_fields arm) (snd arm) k x) \<and> all_there (arm_fields arm) es)"
    using entry_sat [of check below, OF assms]
    by (cases "List.find (\<lambda>a. arm_value a = str_or (map_get es tag) []) (arms_of knd)")
       (auto simp: required_sat Let_def case_prod_beta)
qed

lemmas kinds_sat = list_sat tuple_sat open_map_sat object_sat variant_sat

lemma value_kind_sat:
  assumes "\<And>s x k. is_ok (check s k x) \<longleftrightarrow> below s x"
  shows "is_ok (value_by_kind F re n check schema key v) \<longleftrightarrow> sat_kind F re n below schema v"
proof -
  note sats = kinds_sat [of check below, OF assms]
  have tags: "tag_of v = Inr GUATIAO_NULL \<longleftrightarrow> v = VNull" "tag_of v = Inr GUATIAO_BYTES \<longleftrightarrow> (\<exists>bs. v = VBytes bs)"
    "tag_of v = Inr GUATIAO_BOOL \<longleftrightarrow> (\<exists>b. v = VBool b)" by (cases v; simp)+
  show ?thesis unfolding value_by_kind_def sat_kind_def Let_def
    by (cases "kind_read F (Some schema)")
       (simp_all add: sats tags assms text_sat list_ex_iff Bex_def image_iff split: option.split del: text_against.simps sat_text.simps)
qed

lemma value_sat: "is_ok (value_against F re n schema key v) \<longleftrightarrow> sat F re n schema v"
proof (induction n arbitrary: schema key v)
  case (Suc n)
  have "tag_of v = Inr GUATIAO_NULL \<longleftrightarrow> v = VNull" by (cases v) simp_all
  moreover have "is_ok (value_by_kind F re n (value_against F re n) schema key v) \<longleftrightarrow> sat_kind F re n (sat F re n) schema v"
    by (rule value_kind_sat) (rule Suc)
  ultimately show ?case using Suc by (auto split: option.splits)
qed simp

lemma value_accepted: "value_against F re n schema key v = Inr () \<longleftrightarrow> sat F re n schema v"
  using value_sat [of F re n schema key v] by (simp add: is_ok_unit)


section \<open>Integers and their bounds\<close>

lemma cmp_asks [simp]:
  "is_ge (cmp x y) \<longleftrightarrow> y \<le> x" "is_le (cmp x y) \<longleftrightarrow> x \<le> y"
  "is_gt (cmp x y) \<longleftrightarrow> y < x" "is_lt (cmp x y) \<longleftrightarrow> x < y"
  by (auto simp: cmp_def)

lemma integer_text_denotes:
  assumes "is_integer_text t"
  obtains neg m where "denotes t neg m 0 0"
proof -
  have "json_number t" "\<not> list_ex (\<lambda>c. c \<in> set ''.eE'') t"
    using assms by (auto simp: is_integer_text_def is_number_iff list_ex_iff exponent_mark_def)
  then obtain sg ip where i: "t = sg @ ip" "sg \<in> {[], ''-''}" "json_int ip" by (rule json_plain)
  then have "denotes t (sg \<noteq> []) (dec_val ip) 0 0"
    unfolding denotes_def
    by (intro exI [of _ sg] exI [of _ ip] exI [of _ "[]"]) (auto simp: json_frac_def json_exp_def exponent_of_def)
  then show thesis by (rule that)
qed

lemma bound_is_exact:
  assumes "bound_is t (number_part schema key) ok" "number_part schema key = Some b"
    "denotes t neg m 0 0" "denotes b nb mb eb xb" "\<bar>xb\<bar> \<le> EXPONENT_CLAMP"
  shows "ok (cmp (number_value neg m 0) (number_value nb mb eb))"
proof -
  have "\<bar>0\<bar> \<le> EXPONENT_CLAMP" by (simp add: EXPONENT_CLAMP_def)
  from compare_exact [OF assms(3,4) this assms(5)] show ?thesis using assms(1,2) by (simp add: bound_is_def)
qed

text \<open>C38: an integer a schema accepts is a whole number, plainly written, and lies within every bound the
  schema declares, as the numbers they denote and not as any machine's.\<close>

theorem accepted_integers_are_within_their_bounds:
  assumes "value_against F re n schema key v = Inr ()" "kind_read F (Some schema) = KInt lo hi step'" "v \<noteq> VNull"
  shows "\<exists>t neg m. v = VNumber t \<and> denotes t neg m 0 0 \<and>
    (\<forall>b nb mb eb xb. denotes b nb mb eb xb \<and> \<bar>xb\<bar> \<le> EXPONENT_CLAMP \<longrightarrow>
       (number_part (peel schema) ''minimum'' = Some b \<longrightarrow> number_value nb mb eb \<le> number_value neg m 0) \<and>
       (number_part (peel schema) ''maximum'' = Some b \<longrightarrow> number_value neg m 0 \<le> number_value nb mb eb) \<and>
       (number_part (peel schema) ''exclusiveMinimum'' = Some b \<longrightarrow> number_value nb mb eb < number_value neg m 0) \<and>
       (number_part (peel schema) ''exclusiveMaximum'' = Some b \<longrightarrow> number_value neg m 0 < number_value nb mb eb))"
proof -
  obtain k where "n = Suc k" using assms(1) by (cases n) auto
  then obtain t where t: "as_number v = Some t" "is_integer_text t" "bounds_admit (read_bounds (peel schema)) t"
    using assms(2,3) assms(1) [unfolded value_accepted] by (auto simp: sat_kind_def sat_text_kind_def Let_def)
  obtain neg m where d: "denotes t neg m 0 0" by (rule integer_text_denotes [OF t(2)])
  have b: "bound_is t (number_part (peel schema) ''minimum'') is_ge" "bound_is t (number_part (peel schema) ''maximum'') is_le"
    "bound_is t (number_part (peel schema) ''exclusiveMinimum'') is_gt" "bound_is t (number_part (peel schema) ''exclusiveMaximum'') is_lt"
    using t(3) by (simp_all add: bounds_admit_def read_bounds_def del: is_ge.simps is_le.simps is_gt.simps is_lt.simps)
  note exact = b [THEN bound_is_exact, OF _ d, unfolded cmp_asks]
  show ?thesis
  proof (intro exI conjI)
    show "v = VNumber t" using t(1) by (simp add: door_Some)
    show "denotes t neg m 0 0" by (rule d)
  qed (use exact in blast)
qed

text \<open>A build with no floating point and no patterns, and three schemas, to evaluate the checks on.\<close>

definition no_floats :: "unit floats" where
  "no_floats = \<lparr>fl_parse = (\<lambda>_. None), fl_finite = (\<lambda>_. False), fl_positive = (\<lambda>_. False), fl_up = (\<lambda>_. None),
     fl_down = (\<lambda>_. None), fl_step = (\<lambda>_. None), fl_multiple = (\<lambda>_ _. False), fl_equal = (\<lambda>_ _. False)\<rparr>"

definition no_engine :: engine where
  "no_engine = (\<lambda>_. None)"

definition small_integer :: Value where
  "small_integer = VMap [(''type'', VString ''integer''), (''minimum'', VNumber ''3'')]"

definition one_flag :: Value where
  "one_flag = VMap [(''type'', VString ''object''), (''properties'', VMap [(''a'', VMap [(''type'', VString ''boolean'')])]),
     (''required'', VList [VString ''a'']), (''additionalProperties'', VBool False)]"

definition no_text :: Value where
  "no_text = VMap [(''type'', VString ''integer''), (''not'', VMap [(''type'', VString ''string'')])]"

lemma small_integer_kind: "kind_read no_floats (Some small_integer) = KInt (Some 3) None None"
  by code_simp

lemma one_flag_kind: "kind_read no_floats (Some one_flag) = KMap one_flag"
  by code_simp

lemma one_flag_requires: "\<exists>f\<in>set (fields_of one_flag). fd_required f \<and> fd_key f = ''a''"
  by code_simp

lemma five_accepted: "value_against no_floats no_engine 1 small_integer [] (VNumber ''5'') = Inr ()"
  by code_simp

theorem accepted_integers_are_within_their_bounds_witness:
  "\<exists>t neg m. VNumber ''5'' = VNumber t \<and> denotes t neg m 0 0 \<and> number_value False 3 0 \<le> number_value neg m 0"
proof -
  have "denotes ''3'' False 3 0 0" unfolding denotes_def
    by (intro exI [of _ "[]"] exI [of _ "''3''"])
       (simp add: json_int_def json_frac_def json_exp_def digits1_def is_digit_def exponent_of_def dec_val_def digit_val_def)
  moreover have "number_part (peel small_integer) ''minimum'' = Some ''3''" by code_simp
  ultimately show ?thesis
    using accepted_integers_are_within_their_bounds [OF five_accepted small_integer_kind] by (fastforce simp: EXPONENT_CLAMP_def)
qed

section \<open>Documents\<close>

lemma find_field_member: "find_field doc k = Some f \<Longrightarrow> fd_key f = k"
  by (auto simp: find_field_def bind_eq_Some_conv find_Some_iff dest: field_of_key)

text \<open>An entry of a document, by what its schema describes.\<close>

definition sat_document_entry :: "'f floats \<Rightarrow> engine \<Rightarrow> Value \<Rightarrow> str \<times> Value \<Rightarrow> bool" where
  "sat_document_entry F re doc e \<longleftrightarrow>
     (case find_field doc (fst e) of
        Some f \<Rightarrow> sat F re MAX_DEPTH (fd_schema f) (snd e)
      | None \<Rightarrow> sat_extra (sat F re (MAX_DEPTH - 1)) doc (snd e))"

lemma entry_accepted: "validate_entry F re doc e = Inr () \<longleftrightarrow> sat_document_entry F re doc e"
  by (auto simp: validate_entry_def sat_document_entry_def sat_extra_def validate_value_def value_accepted split: option.splits undeclared.splits)

definition is_document_kind :: "'f kind \<Rightarrow> bool" where
  "is_document_kind knd \<longleftrightarrow> (case knd of KMap _ \<Rightarrow> True | KUnknown _ \<Rightarrow> True | KMissing \<Rightarrow> True | _ \<Rightarrow> False)"

lemma document_checked:
  assumes "is_document_kind (kind_read F (Some doc))"
  shows "validate_map F re doc v = map_then [] WMap v (\<lambda>es. and_then (each_ok (validate_entry F re doc) es) (\<lambda>_.
    each_ok (\<lambda>f. if fd_required f \<and> \<not> contains_key es (fd_key f) then bad (fd_key f) WRequired else Inr ()) (fields_of doc)))"
  using assms by (simp add: validate_map_def is_document_kind_def)

lemma map_then_Inr: "map_then key w v f = Inr () \<longleftrightarrow> (\<exists>es. as_map v = Some es \<and> f es = Inr ())"
  using is_ok_map_then [of key w v f] by (simp add: is_ok_unit)

lemma document_accepted:
  assumes "is_document_kind (kind_read F (Some doc))"
  shows "validate_map F re doc v = Inr () \<longleftrightarrow>
    (\<exists>es. as_map v = Some es \<and> (\<forall>e\<in>set es. sat_document_entry F re doc e) \<and> all_there (fields_of doc) es)"
  unfolding document_checked [OF assms] map_then_Inr
  by (auto simp: result_simps entry_accepted all_there_def contains_key_iff)



text \<open>A document whose object sits under a wrapper the kinds see through (a lone \<open>allOf\<close>, an optional)
  is not checked at all: \<open>validate_map\<close> reads the kind of what is wrapped and the fields of the wrapper,
  which has none, and accepts every map.\<close>

theorem wrapped_documents_are_not_checked:
  assumes "kind_read F (Some doc) = KMap owner" "part doc ''properties'' = None" "part doc ''additionalProperties'' = None"
  shows "validate_map F re doc v = Inr () \<longleftrightarrow> is_a_map v"
proof -
  have k: "is_document_kind (kind_read F (Some doc))" by (simp add: assms(1) is_document_kind_def)
  have e: "property_entries doc = []" by (simp add: property_entries_def opt_or_empty_def assms(2))
  then have "sat_document_entry F re doc x" for x
    by (simp add: sat_document_entry_def find_field_def sat_extra_def undeclared_rule_def assms(3))
  moreover have "fields_of doc = []" using e by (simp add: fields_of_def map_filter_simps)
  ultimately show ?thesis unfolding document_accepted [OF k] by (auto simp: all_there_def is_a_map_def)
qed

theorem wrapped_documents_are_not_checked_witness:
  "validate_map no_floats no_engine (VMap [(''allOf'', VList [one_flag])]) (VMap []) = Inr () \<and>
   value_against no_floats no_engine 2 (VMap [(''allOf'', VList [one_flag])]) [] (VMap []) \<noteq> Inr ()"
proof
  have k: "kind_read no_floats (Some (VMap [(''allOf'', VList [one_flag])])) = KMap one_flag" by code_simp
  moreover have "part (VMap [(''allOf'', VList [one_flag])]) ''properties'' = None"
    "part (VMap [(''allOf'', VList [one_flag])]) ''additionalProperties'' = None" "is_a_map (VMap [])" by code_simp+
  ultimately show "validate_map no_floats no_engine (VMap [(''allOf'', VList [one_flag])]) (VMap []) = Inr ()"
    by (simp add: wrapped_documents_are_not_checked)
  show "value_against no_floats no_engine 2 (VMap [(''allOf'', VList [one_flag])]) [] (VMap []) \<noteq> Inr ()"
    unfolding value_accepted numeral_2_eq_2 using one_flag_requires k by (auto simp: sat_kind_def Let_def all_there_def door_Some)
qed

section \<open>Exclusions\<close>

text \<open>A schema of integers other than those of an excluded schema of texts accepts no integer, though
  the excluded schema refuses every one: \<open>not\<close> is asked of the value and then of the text it is
  written as.\<close>

theorem exclusions_are_asked_of_the_spelling:
  assumes "kind_read F (Some schema) = KInt lo hi step'" "excluded schema = Some ex"
    "kind_read F (Some ex) = KStr None None None fmt" "excluded ex = None"
  shows "value_against F re (Suc (Suc n)) schema key (VNumber t) \<noteq> Inr () \<and> value_against F re n ex key (VNumber t) \<noteq> Inr ()"
proof -
  have "sat_text F re (Suc n) ex t" using assms(3,4) by (simp add: sat_text_kind_def Let_def count_within_def)
  moreover have "\<not> sat F re m ex (VNumber t)" for m
    using assms(3) door_Some(4) [of "VNumber t"] by (cases m) (simp_all add: sat_kind_def Let_def)
  ultimately show ?thesis unfolding value_accepted using assms(1,2) by (auto simp: sat_kind_def Let_def)
qed

theorem exclusions_are_asked_of_the_spelling_witness:
  "value_against no_floats no_engine 3 no_text [] (VNumber ''5'') \<noteq> Inr ()"
proof -
  have "kind_read no_floats (Some no_text) = KInt None None None"
    "excluded no_text = Some (VMap [(''type'', VString ''string'')])"
    "kind_read no_floats (Some (VMap [(''type'', VString ''string'')])) = KStr None None None None"
    "excluded (VMap [(''type'', VString ''string'')]) = None" by code_simp+
  from exclusions_are_asked_of_the_spelling [OF this, of no_engine 1 "[]" "''5''"] show ?thesis
    by (simp only: numeral_3_eq_3 One_nat_def) simp
qed

end
