(* ===== verification/Redact.thy ===== *)
theory Redact
  imports Validate_Laws
begin

text \<open>
  Hiding a value's secrets by what its schema says (\<open>guatiao/src/schema/redact.rs\<close>). As in
  \<open>Validate\<close>, depth is counted down: \<open>redact_node\<close> with \<open>n\<close> levels left is the code's at depth
  \<open>MAX_DEPTH - n\<close>. The allocator never refuses here; the copies a redactor makes are those of
  \<open>Walks\<close>.
\<close>

section \<open>The code\<close>

type_synonym redacted = "value_error failure + Value"

definition is_secret :: "Value \<Rightarrow> bool" where
  "is_secret schema \<longleftrightarrow> bool_or (part schema ''x-sensitive'') False \<or> bool_or (part schema ''writeOnly'') False"

text \<open>The loop through the wrappers is the second recursion, at the same depth.\<close>

function marks_secret :: "nat \<Rightarrow> Value \<Rightarrow> bool" where
  "marks_secret 0 k \<longleftrightarrow> True"
| "marks_secret (Suc n) k \<longleftrightarrow>
     is_secret k \<or> list_ex (marks_secret n) (opt_or_empty (list_part k ''allOf'')) \<or>
     (case peel_once k of Some inner \<Rightarrow> marks_secret (Suc n) inner | None \<Rightarrow> False)"
  by pat_completeness auto
termination by (relation "measures [fst, size \<circ> snd]") (simp_all add: peel_once_size)

declare marks_secret.simps(2) [simp del]

definition is_container :: "Value \<Rightarrow> bool" where
  "is_container v \<longleftrightarrow> tag_of v = Inr GUATIAO_MAP \<or> tag_of v = Inr GUATIAO_LIST"

text \<open>What an object gives the keys it does not declare, when that is a schema.\<close>

definition undeclared_schema :: "Value \<Rightarrow> Value option" where
  "undeclared_schema owner =
     Option.bind (part owner ''additionalProperties'') (\<lambda>v. if is_a_map v then Some v else None)"

datatype entry_part = Keep | Described Value | Hide

definition mask :: "str \<Rightarrow> redacted" where
  "mask placeholder = Inr (VString placeholder)"

definition keep :: "Value \<Rightarrow> redacted" where
  "keep v = copy_value v"

definition fallback_redacted :: "str \<Rightarrow> Value \<Rightarrow> redacted" where
  "fallback_redacted placeholder v = (if is_container v then mask placeholder else keep v)"

fun redact_entries :: "str \<Rightarrow> (Value \<Rightarrow> Value \<Rightarrow> redacted) \<Rightarrow> (str \<Rightarrow> Value \<Rightarrow> entry_part) \<Rightarrow> map_entries \<Rightarrow> map_entries \<Rightarrow> redacted" where
  "redact_entries placeholder below pt [] out = Inr (VMap out)"
| "redact_entries placeholder below pt (e # es) out =
     and_then (case pt (fst e) (snd e) of
                 Keep \<Rightarrow> keep (snd e)
               | Described schema \<Rightarrow> below schema (snd e)
               | Hide \<Rightarrow> mask placeholder)
       (\<lambda>child. redact_entries placeholder below pt es (map_set out (fst e) child))"

fun redact_all :: "('a \<Rightarrow> redacted) \<Rightarrow> 'a list \<Rightarrow> Value list \<Rightarrow> redacted" where
  "redact_all f [] out = Inr (VList out)"
| "redact_all f (x # xs) out = and_then (f x) (\<lambda>child. redact_all f xs (out @ [child]))"

definition redact_position :: "str \<Rightarrow> (Value \<Rightarrow> Value \<Rightarrow> redacted) \<Rightarrow> Value list \<Rightarrow> nat \<times> Value \<Rightarrow> redacted" where
  "redact_position placeholder below positions x =
     (let (i, element) = x
      in if i < length positions then below (positions ! i) element else fallback_redacted placeholder element)"

definition object_part :: "Value \<Rightarrow> str \<Rightarrow> Value \<Rightarrow> entry_part" where
  "object_part owner key v =
     (case List.find (\<lambda>f. fd_key f = key) (fields_of owner) of
        Some f \<Rightarrow> Described (fd_schema f)
      | None \<Rightarrow> (case undeclared_schema owner of Some s \<Rightarrow> Described s | None \<Rightarrow> Hide))"

definition open_part :: "Value \<Rightarrow> str \<Rightarrow> Value \<Rightarrow> entry_part" where
  "open_part owner key v = (case undeclared_schema owner of Some s \<Rightarrow> Described s | None \<Rightarrow> Hide)"

definition chosen_arm :: "'f kind \<Rightarrow> str \<Rightarrow> map_entries \<Rightarrow> arm option" where
  "chosen_arm knd tag es =
     Option.bind (Option.bind (map_get es tag) as_text) (\<lambda>c. List.find (\<lambda>a. arm_value a = c) (arms_of knd))"

definition variant_part :: "str \<Rightarrow> arm option \<Rightarrow> str \<Rightarrow> Value \<Rightarrow> entry_part" where
  "variant_part tag chosen key v =
     (if key = tag then (if as_text v \<noteq> None then Keep else Hide)
      else case Option.bind chosen (\<lambda>a. List.find (\<lambda>f. fd_key f = key) (arm_fields a)) of
             Some f \<Rightarrow> Described (fd_schema f)
           | None \<Rightarrow> Hide)"

text \<open>The arms after the first that accepts the value: each must make of it what the first did.\<close>

fun arms_agree :: "str \<Rightarrow> (Value \<Rightarrow> redacted) \<Rightarrow> Value \<Rightarrow> Value list \<Rightarrow> redacted" where
  "arms_agree placeholder f done' [] = Inr done'"
| "arms_agree placeholder f done' (a # arms) =
     and_then (f a) (\<lambda>other. if \<not> equal (Values other done') then mask placeholder else arms_agree placeholder f done' arms)"

definition redact_union ::
  "'f floats \<Rightarrow> engine \<Rightarrow> str \<Rightarrow> (Value \<Rightarrow> bool) \<Rightarrow> (Value \<Rightarrow> Value \<Rightarrow> redacted) \<Rightarrow> Value \<Rightarrow> Value \<Rightarrow> redacted" where
  "redact_union F re placeholder marked below any_of v =
     (case filter (\<lambda>arm. accepts F re arm v) (opt_or_empty (as_list any_of)) of
        [] \<Rightarrow> fallback_redacted placeholder v
      | first' # others \<Rightarrow>
          if list_ex marked (first' # others) then mask placeholder
          else and_then (below first' v) (\<lambda>redacted'. arms_agree placeholder (\<lambda>arm. below arm v) redacted' others))"

definition redact_by_kind ::
  "'f floats \<Rightarrow> engine \<Rightarrow> str \<Rightarrow> (Value \<Rightarrow> bool) \<Rightarrow> (Value \<Rightarrow> Value \<Rightarrow> redacted) \<Rightarrow> Value \<Rightarrow> Value \<Rightarrow> redacted" where
  "redact_by_kind F re placeholder marked below schema v =
     (let knd = kind_read F (Some schema)
      in case knd of
           KList items _ _ \<Rightarrow>
             (case as_list v of None \<Rightarrow> fallback_redacted placeholder v | Some xs \<Rightarrow> redact_all (below items) xs [])
         | KTuple owner \<Rightarrow>
             (case as_list v of
                None \<Rightarrow> fallback_redacted placeholder v
              | Some xs \<Rightarrow> redact_all (redact_position placeholder below (prefix_items owner)) (enumerate 0 xs) [])
         | KMapOf owner \<Rightarrow>
             (case as_map v of
                None \<Rightarrow> fallback_redacted placeholder v
              | Some es \<Rightarrow> redact_entries placeholder below (open_part owner) es [])
         | KMap owner \<Rightarrow>
             (case as_map v of
                None \<Rightarrow> fallback_redacted placeholder v
              | Some es \<Rightarrow> redact_entries placeholder below (object_part owner) es [])
         | KVariant tag _ \<Rightarrow>
             (case as_map v of
                None \<Rightarrow> fallback_redacted placeholder v
              | Some es \<Rightarrow> redact_entries placeholder below (variant_part tag (chosen_arm knd tag es)) es [])
         | KUnion any_of \<Rightarrow> redact_union F re placeholder marked below any_of v
         | KUnknown name \<Rightarrow> if name = ''$ref'' then mask placeholder else fallback_redacted placeholder v
         | _ \<Rightarrow> fallback_redacted placeholder v)"

fun redact_node :: "'f floats \<Rightarrow> engine \<Rightarrow> str \<Rightarrow> nat \<Rightarrow> Value \<Rightarrow> Value \<Rightarrow> redacted" where
  "redact_node F re placeholder 0 schema v = Inl (Refused TooDeep)"
| "redact_node F re placeholder (Suc n) schema v =
     (if marks_secret (Suc n) schema then mask placeholder
      else redact_by_kind F re placeholder (marks_secret n) (redact_node F re placeholder n) schema v)"

definition redact :: "'f floats \<Rightarrow> engine \<Rightarrow> Value \<Rightarrow> Value \<Rightarrow> str \<Rightarrow> redacted" where
  "redact F re schema v placeholder = redact_node F re placeholder MAX_DEPTH schema v"

section \<open>Marks\<close>

text \<open>The marks a schema carries, as it is written: by itself, on a member of its \<open>allOf\<close>, on what it wraps.\<close>

inductive is_marked :: "Value \<Rightarrow> bool" where
  marked_here: "part s key = Some (VBool True) \<Longrightarrow> key \<in> {''x-sensitive'', ''writeOnly''} \<Longrightarrow> is_marked s"
| marked_member: "list_part s ''allOf'' = Some ms \<Longrightarrow> m \<in> set ms \<Longrightarrow> is_marked m \<Longrightarrow> is_marked s"
| marked_inside: "peel_once s = Some inner \<Longrightarrow> is_marked inner \<Longrightarrow> is_marked s"

lemma marked_is_seen: "is_marked s \<Longrightarrow> marks_secret n s"
proof (induction arbitrary: n rule: is_marked.induct)
  case (marked_here s key)
  then have "is_secret s" by (auto simp: is_secret_def bool_or_def)
  then show ?case by (cases n) (simp_all add: marks_secret.simps(2) [of _ s])
next
  case (marked_member s ms m)
  then show ?case by (cases n) (auto simp: marks_secret.simps(2) [of _ s] opt_or_empty_def list_ex_iff)
next
  case (marked_inside s inner)
  then show ?case by (cases n) (simp_all add: marks_secret.simps(2) [of _ s])
qed

section \<open>What cannot be seen\<close>

text \<open>Two entries that differ at most in what is hidden of them.\<close>

definition entry_alike :: "(Value \<Rightarrow> Value \<Rightarrow> Value \<Rightarrow> bool) \<Rightarrow> (str \<Rightarrow> Value \<Rightarrow> entry_part) \<Rightarrow> str \<times> Value \<Rightarrow> str \<times> Value \<Rightarrow> bool" where
  "entry_alike below pt e e' \<longleftrightarrow> fst e = fst e' \<and> pt (fst e) (snd e) = pt (fst e) (snd e') \<and>
     (case pt (fst e) (snd e) of Keep \<Rightarrow> snd e = snd e' | Described s \<Rightarrow> below s (snd e) (snd e') | Hide \<Rightarrow> True)"

text \<open>Two entries of an object with these fields, and this schema for other keys: one key, and values alike
  under its schema, if it has one.\<close>

definition field_alike :: "(Value \<Rightarrow> Value \<Rightarrow> Value \<Rightarrow> bool) \<Rightarrow> field list \<Rightarrow> Value option \<Rightarrow> str \<times> Value \<Rightarrow> str \<times> Value \<Rightarrow> bool" where
  "field_alike below fs extra e e' \<longleftrightarrow> fst e = fst e' \<and>
     (case List.find (\<lambda>f. fd_key f = fst e) fs of
        Some f \<Rightarrow> below (fd_schema f) (snd e) (snd e')
      | None \<Rightarrow> (\<forall>s. extra = Some s \<longrightarrow> below s (snd e) (snd e')))"

lemma field_alike_mono [mono]: "R \<le> S \<Longrightarrow> field_alike R \<le> field_alike S"
  by (auto simp: field_alike_def le_fun_def split: option.splits)

definition payload_alike :: "(Value \<Rightarrow> Value \<Rightarrow> Value \<Rightarrow> bool) \<Rightarrow> str \<Rightarrow> arm option \<Rightarrow> str \<times> Value \<Rightarrow> str \<times> Value \<Rightarrow> bool" where
  "payload_alike below tag chosen e e' \<longleftrightarrow>
     (if fst e = tag then e = e'
      else field_alike below (case chosen of Some a \<Rightarrow> arm_fields a | None \<Rightarrow> []) None e e')"

lemma payload_alike_mono [mono]: "R \<le> S \<Longrightarrow> payload_alike R \<le> payload_alike S"
  using field_alike_mono [of R S] by (auto simp: payload_alike_def le_fun_def)

text \<open>Two values that differ at most in what the schema marks, in what it does not describe, and in the
  containers under a schema of scalars.\<close>

inductive alike :: "'f floats \<Rightarrow> Value \<Rightarrow> Value \<Rightarrow> Value \<Rightarrow> bool" for F where
  alike_same: "alike F s v v"
| alike_secret: "is_marked s \<Longrightarrow> alike F s v w"
| alike_reference: "kind_read F (Some s) = KUnknown ''$ref'' \<Longrightarrow> alike F s v w"
| alike_list: "kind_read F (Some s) = KList items lo hi \<Longrightarrow> list_all2 (alike F items) xs ys \<Longrightarrow> alike F s (VList xs) (VList ys)"
| alike_object: "kind_read F (Some s) = KMap owner \<Longrightarrow>
    list_all2 (field_alike (alike F) (fields_of owner) (undeclared_schema owner)) es es' \<Longrightarrow> alike F s (VMap es) (VMap es')"
| alike_open: "kind_read F (Some s) = KMapOf owner \<Longrightarrow>
    list_all2 (field_alike (alike F) [] (undeclared_schema owner)) es es' \<Longrightarrow> alike F s (VMap es) (VMap es')"
| alike_variant: "kind_read F (Some s) = KVariant tag arms \<Longrightarrow>
    list_all2 (payload_alike (alike F) tag (chosen_arm (kind_read F (Some s)) tag es)) es es' \<Longrightarrow> alike F s (VMap es) (VMap es')"
| alike_container: "kind_read F (Some s) \<in> {KNull, KBool, KBytes, KMissing} \<or> (\<exists>a b c. kind_read F (Some s) = KInt a b c) \<or>
    (\<exists>a b c. kind_read F (Some s) = KFloat a b c) \<or> (\<exists>a b c d. kind_read F (Some s) = KStr a b c d) \<or>
    (\<exists>k. kind_read F (Some s) = KEnum k) \<or> (\<exists>name. kind_read F (Some s) = KUnknown name) \<Longrightarrow>
    is_container v \<Longrightarrow> is_container w \<Longrightarrow> alike F s v w"

lemma fields_weaken:
  assumes "list_all2 (field_alike R fs extra) es es'" "\<And>s v w. R s v w \<Longrightarrow> S s v w"
  shows "list_all2 (field_alike S fs extra) es es'"
  using assms(1) by (rule list_all2_mono) (auto simp: field_alike_def assms(2) split: option.splits)

lemma payload_weaken:
  assumes "list_all2 (payload_alike R tag chosen) es es'" "\<And>s v w. R s v w \<Longrightarrow> S s v w"
  shows "list_all2 (payload_alike S tag chosen) es es'"
  using assms(1) by (rule list_all2_mono) (auto simp: payload_alike_def field_alike_def assms(2) split: option.splits if_splits)

lemma object_entries: "field_alike R (fields_of owner) (undeclared_schema owner) e e' \<Longrightarrow> entry_alike R (object_part owner) e e'"
  by (auto simp: field_alike_def entry_alike_def object_part_def split: option.splits)

lemma open_entries: "field_alike R [] (undeclared_schema owner) e e' \<Longrightarrow> entry_alike R (open_part owner) e e'"
  by (auto simp: field_alike_def entry_alike_def open_part_def split: option.splits)

lemma variant_entries: "payload_alike R tag chosen e e' \<Longrightarrow> entry_alike R (variant_part tag chosen) e e'"
  by (cases chosen) (auto simp: payload_alike_def field_alike_def entry_alike_def variant_part_def split: option.splits if_splits)

lemma chosen_alike:
  assumes "list_all2 (payload_alike R tag chosen) es es'"
  shows "chosen_arm knd tag es' = chosen_arm knd tag es"
proof -
  have "map_get es' tag = map_get es tag" using assms
  proof (induction es es' rule: list_all2_induct)
    case (Cons e es e' es')
    then show ?case by (cases e; cases e') (auto simp: map_get_map_of payload_alike_def field_alike_def split: if_splits)
  qed simp
  then show ?thesis by (simp add: chosen_arm_def)
qed

lemma redact_all_cong: "list_all2 (\<lambda>x y. f x = f y) xs ys \<Longrightarrow> redact_all f xs out = redact_all f ys out"
proof (induction xs ys arbitrary: out rule: list_all2_induct)
  case (Cons x xs y ys)
  then show ?case by (cases "f y") simp_all
qed simp

lemma redact_entries_cong:
  assumes "list_all2 (entry_alike (\<lambda>s v w. below s v = below s w) pt) es es'"
  shows "redact_entries p below pt es out = redact_entries p below pt es' out"
  using assms
proof (induction es es' arbitrary: out rule: list_all2_induct)
  case (Cons e es e' es')
  then have "(case pt (fst e) (snd e) of Keep \<Rightarrow> keep (snd e) | Described s \<Rightarrow> below s (snd e) | Hide \<Rightarrow> mask p) =
    (case pt (fst e') (snd e') of Keep \<Rightarrow> keep (snd e') | Described s \<Rightarrow> below s (snd e') | Hide \<Rightarrow> mask p)"
    by (auto simp: entry_alike_def split: entry_part.splits)
  moreover have "fst e = fst e'" using Cons by (simp add: entry_alike_def)
  ultimately show ?case using Cons.IH
    by (cases "case pt (fst e') (snd e') of Keep \<Rightarrow> keep (snd e') | Described s \<Rightarrow> below s (snd e') | Hide \<Rightarrow> mask p") simp_all
qed simp

lemma entries_alike_text: "list_all2 (entry_alike R pt) es es' \<Longrightarrow> keys_are_text es \<longleftrightarrow> keys_are_text es'"
proof (induction es es' rule: list_all2_induct)
  case (Cons e es e' es')
  then show ?case by (simp add: entry_alike_def keys_are_text_def)
qed simp

lemma redact_lists_alike:
  assumes "kind_read F (Some s) = KList items lo hi" "list_all2 (\<lambda>x y. below items x = below items y) xs ys"
  shows "redact_by_kind F re p marked below s (VList xs) = redact_by_kind F re p marked below s (VList ys)"
  using redact_all_cong [OF assms(2)] by (simp add: redact_by_kind_def assms(1))

lemma as_map_VMap: "as_map (VMap es) = (if keys_are_text es then Some es else None)"
  using door_Some(6) [of "VMap es"] by (cases "as_map (VMap es)") auto

lemma redact_maps_alike:
  assumes "list_all2 (entry_alike (\<lambda>s v w. below s v = below s w) pt) es es'"
    "kind_read F (Some s) = KMap owner \<and> pt = object_part owner \<or> kind_read F (Some s) = KMapOf owner \<and> pt = open_part owner \<or>
     kind_read F (Some s) = KVariant tag arms \<and> pt = variant_part tag (chosen_arm (kind_read F (Some s)) tag es) \<and>
       chosen_arm (kind_read F (Some s)) tag es' = chosen_arm (kind_read F (Some s)) tag es"
  shows "redact_by_kind F re p marked below s (VMap es) = redact_by_kind F re p marked below s (VMap es')"
  using assms(2) redact_entries_cong [OF assms(1)] entries_alike_text [OF assms(1)]
  by (auto simp: redact_by_kind_def as_map_VMap fallback_redacted_def is_container_def)

lemma redact_containers_alike:
  assumes "kind_read F (Some s) \<in> {KNull, KBool, KBytes, KMissing} \<or> (\<exists>a b c. kind_read F (Some s) = KInt a b c) \<or>
      (\<exists>a b c. kind_read F (Some s) = KFloat a b c) \<or> (\<exists>a b c d. kind_read F (Some s) = KStr a b c d) \<or>
      (\<exists>k. kind_read F (Some s) = KEnum k) \<or> (\<exists>name. kind_read F (Some s) = KUnknown name)"
    "is_container v" "is_container w"
  shows "redact_by_kind F re p marked below s v = redact_by_kind F re p marked below s w"
  using assms by (auto simp: redact_by_kind_def fallback_redacted_def)

lemma redact_alike:
  assumes "alike F s v w" "n \<le> MAX_DEPTH"
  shows "redact_node F re p n s v = redact_node F re p n s w"
  using assms
proof (induction arbitrary: n rule: alike.induct)
  case (alike_secret s v w)
  then show ?case using marked_is_seen by (cases n) simp_all
next
  case (alike_reference s v w)
  then show ?case by (cases n) (simp_all add: redact_by_kind_def)
next
  case (alike_list s items lo hi xs ys)
  show ?case
  proof (cases n)
    case (Suc m)
    have "list_all2 (\<lambda>x y. redact_node F re p m items x = redact_node F re p m items y) xs ys"
      using alike_list.IH alike_list.prems Suc by (auto elim: list_all2_mono)
    from redact_lists_alike [OF alike_list.hyps(1), of "redact_node F re p m", OF this] show ?thesis by (simp add: Suc)
  qed simp
next
  case (alike_object s owner es es')
  show ?case
  proof (cases n)
    case (Suc m)
    have "list_all2 (entry_alike (\<lambda>s v w. redact_node F re p m s v = redact_node F re p m s w) (object_part owner)) es es'"
      by (rule list_all2_mono [OF fields_weaken [OF alike_object.IH] object_entries]) (use alike_object.prems Suc in auto)
    from redact_maps_alike [OF this, where F = F and s = s and re = re and p = p] alike_object.hyps(1) show ?thesis by (simp add: Suc)
  qed simp
next
  case (alike_open s owner es es')
  show ?case
  proof (cases n)
    case (Suc m)
    have "list_all2 (entry_alike (\<lambda>s v w. redact_node F re p m s v = redact_node F re p m s w) (open_part owner)) es es'"
      by (rule list_all2_mono [OF fields_weaken [OF alike_open.IH] open_entries]) (use alike_open.prems Suc in auto)
    from redact_maps_alike [OF this, where F = F and s = s and re = re and p = p] alike_open.hyps(1) show ?thesis by (simp add: Suc)
  qed simp
next
  case (alike_variant s tag arms es es')
  show ?case
  proof (cases n)
    case (Suc m)
    have "list_all2 (entry_alike (\<lambda>s v w. redact_node F re p m s v = redact_node F re p m s w)
      (variant_part tag (chosen_arm (kind_read F (Some s)) tag es))) es es'"
      by (rule list_all2_mono [OF payload_weaken [OF alike_variant.IH] variant_entries]) (use alike_variant.prems Suc in auto)
    from redact_maps_alike [OF this, where F = F and s = s and re = re and p = p] alike_variant.hyps(1) chosen_alike [OF alike_variant.IH, of "kind_read F (Some s)"]
    show ?thesis by (simp add: Suc)
  qed simp
next
  case (alike_container s v w)
  then show ?case using redact_containers_alike [OF alike_container.hyps] by (cases n) simp_all
qed simp


definition guarded :: Value where
  "guarded = VMap [(''type'', VString ''object''), (''properties'', VMap [(''pin'', VMap [(''type'', VString ''string''), (''writeOnly'', VBool True)])])]"

text \<open>Under a schema of a kind this build does not read, a \<open>oneOf\<close> among them, a scalar is shown
  as it is, though every arm of it may carry the mark.\<close>

theorem unread_kinds_show_their_scalars:
  assumes "kind_read F (Some s) = KUnknown name" "name \<noteq> ''$ref''" "\<not> marks_secret MAX_DEPTH s" "\<not> is_container v" "refusal v = None"
  shows "redact F re s v p = Inr v"
proof -
  obtain m where m: "MAX_DEPTH = Suc m" by (simp add: MAX_DEPTH_def)
  have "redact F re s v p = fallback_redacted p v"
    using assms(2,3) unfolding redact_def m by (simp add: redact_by_kind_def assms(1))
  then show ?thesis using assms(4,5) by (simp add: fallback_redacted_def keep_def copy_value_eq)
qed

theorem unread_kinds_show_their_scalars_witness:
  "redact no_floats no_engine (VMap [(''oneOf'', VList [VMap [(''type'', VString ''string''), (''writeOnly'', VBool True)]])]) (VString ''s3'') ''*'' =
     Inr (VString ''s3'')"
proof (rule unread_kinds_show_their_scalars)
  let ?s = "VMap [(''oneOf'', VList [VMap [(''type'', VString ''string''), (''writeOnly'', VBool True)]])]"
  obtain m where m: "MAX_DEPTH = Suc m" by (simp add: MAX_DEPTH_def)
  have "is_secret ?s = False" "list_part ?s ''allOf'' = None" "peel_once ?s = None" by code_simp+
  then show "\<not> marks_secret MAX_DEPTH ?s" by (simp add: m marks_secret.simps(2) [of m ?s] opt_or_empty_def)
  show "kind_read no_floats (Some ?s) = KUnknown ''oneOf''" by code_simp
  show "refusal (VString ''s3'') = None" by code_simp
qed (simp_all add: is_container_def)

lemma guarded_kind: "kind_read no_floats (Some guarded) = KMap guarded"
  by code_simp


end
