(* ===== verification/Bytes.thy ===== *)
theory Bytes
  imports Prelude
begin

text \<open>
  Integers as bytes, least significant first, and slices of a byte array: what the remote
  crate's frames and set-up records use of the standard library.
\<close>

type_synonym u32 = "32 word"

text \<open>\<open>to_le_bytes\<close> and \<open>from_le_bytes\<close> of an integer of \<open>n\<close> bytes.\<close>

fun to_le :: "nat \<Rightarrow> 'w::len word \<Rightarrow> u8 list" where
  "to_le 0 w = []"
| "to_le (Suc n) w = ucast w # to_le n (drop_bit 8 w)"

fun from_le :: "u8 list \<Rightarrow> 'w::len word" where
  "from_le [] = 0"
| "from_le (b # bs) = ucast b OR push_bit 8 (from_le bs)"

text \<open>\<open>b[i..i + n].copy_from_slice(bs)\<close>, inside the array.\<close>

definition put_slice :: "nat \<Rightarrow> u8 list \<Rightarrow> u8 list \<Rightarrow> u8 list" where
  "put_slice i bs b = take i b @ bs @ drop (i + length bs) b"

definition slice :: "nat \<Rightarrow> nat \<Rightarrow> u8 list \<Rightarrow> u8 list" where
  "slice i n b = take n (drop i b)"

lemma length_to_le [simp]: "length (to_le n w) = n"
  by (induction n w rule: to_le.induct) simp_all

lemma from_le_to_le: "from_le (to_le n w) = (take_bit (8 * n) w :: 'w::len word)"
proof (induction n arbitrary: w)
  case (Suc n)
  show ?case
  proof (rule bit_word_eqI)
    fix i assume "i < LENGTH('w)"
    then show "bit (from_le (to_le (Suc n) w) :: 'w word) i = bit (take_bit (8 * Suc n) w) i"
      by (auto simp: Suc bit_simps bit_ucast_iff)
  qed
qed simp

lemma from_le_to_le_32: "from_le (to_le 4 w) = (w :: u32)"
  by (simp add: from_le_to_le take_bit_word_eq_self)

lemma from_le_to_le_64: "from_le (to_le 8 w) = (w :: u64)"
  by (simp add: from_le_to_le take_bit_word_eq_self)

end
