(* ===== verification/Frames.thy ===== *)
theory Frames
  imports Wire_Laws Bytes
begin

text \<open>
  The remote protocol as bytes (\<open>guatiao-source-remote/src/protocol/codec.rs\<close> and
  \<open>protocol/mod.rs\<close>): the fields a frame is made of, their reader, and the thirteen frames with
  their encoder and decoder. A value in a frame is in the wire encoding, behind its length, so
  the laws of \<open>Wire_Laws\<close> carry over. What an error says in words is not modelled; where it
  points and what it is are.
\<close>

section \<open>Fields\<close>

datatype protocol_error = PTruncated nat | POverlong nat | PNotUtf8 nat | UnknownFrame u8 | NotThisProtocol
  | PVersion u8 | PField nat | PWire nat "wire_error failure" | PValue value_error | PTrailing nat
  | PTooLarge nat nat

function put_uint :: "u8 list \<Rightarrow> u64 \<Rightarrow> u8 list" where
  "put_uint out n =
     (let byte = ucast (n AND 0x7f) :: u8; n' = drop_bit 7 n
      in if n' = 0 then out @ [byte] else put_uint (out @ [byte OR 0x80]) n')"
  by pat_completeness auto
termination
  by (relation "measure (\<lambda>(out, n). unat n)") (auto simp: drop_bit_7_less)

declare put_uint.simps [simp del]

text \<open>An \<open>i64\<close> is its 64 bits; \<open>n >> 63\<close> is the arithmetic shift.\<close>

definition put_int :: "u8 list \<Rightarrow> u64 \<Rightarrow> u8 list" where
  "put_int out n = put_uint out (push_bit 1 n XOR signed_drop_bit 63 n)"

definition put_bytes :: "u8 list \<Rightarrow> u8 list \<Rightarrow> u8 list" where
  "put_bytes out bs = put_uint out (word_of_nat (length bs)) @ bs"

definition put_str :: "u8 list \<Rightarrow> str \<Rightarrow> u8 list" where
  "put_str out s = put_bytes out (as_bytes s)"

definition behind_length :: "u8 list \<Rightarrow> nat \<Rightarrow> u8 list" where
  "behind_length out p = take p out @ put_uint [] (word_of_nat (length out - p)) @ drop p out"

definition put_value :: "u8 list \<Rightarrow> Value \<Rightarrow> protocol_error + u8 list" where
  "put_value out v =
     and_then (map_err PValue (encode v out)) (\<lambda>out'. Inr (behind_length out' (length out)))"

text \<open>The reader of a frame's body.\<close>

record body =
  bd_bytes :: "u8 list"
  bd_pos :: nat

definition body_new :: "u8 list \<Rightarrow> body" where
  "body_new bs = \<lparr>bd_bytes = bs, bd_pos = 0\<rparr>"

definition body_rest :: "body \<Rightarrow> u8 list" where
  "body_rest r = drop (bd_pos r) (bd_bytes r)"

definition body_end :: "body \<Rightarrow> protocol_error + unit" where
  "body_end r = (if bd_pos r = length (bd_bytes r) then Inr () else Inl (PTrailing (bd_pos r)))"

definition body_byte :: "body \<Rightarrow> protocol_error + (u8 \<times> body)" where
  "body_byte r =
     (if bd_pos r < length (bd_bytes r) then Inr (bd_bytes r ! bd_pos r, r\<lparr>bd_pos := bd_pos r + 1\<rparr>)
      else Inl (PTruncated (bd_pos r)))"

definition body_fixed :: "nat \<Rightarrow> body \<Rightarrow> protocol_error + (u8 list \<times> body)" where
  "body_fixed n r =
     (let end' = bd_pos r + n
      in if end' \<le> length (bd_bytes r) then Inr (slice (bd_pos r) n (bd_bytes r), r\<lparr>bd_pos := end'\<rparr>)
         else Inl (PTruncated (bd_pos r)))"

text \<open>The loop of \<open>uint\<close>: its shifts are 0, 7, ..., 63.\<close>

function uint_loop :: "nat \<Rightarrow> u64 \<Rightarrow> nat \<Rightarrow> body \<Rightarrow> protocol_error + (u64 \<times> body)" where
  "uint_loop start n shift r =
     (if 64 \<le> shift then Inl (POverlong start)
      else case body_byte r of
        Inl e \<Rightarrow> Inl e
      | Inr (byte, r') \<Rightarrow>
          (let bits = ucast (byte AND 0x7f) :: u64 in
           if shift = 63 \<and> bits > 1 then Inl (POverlong start)
           else
             let n' = n OR push_bit shift bits in
             if byte AND 0x80 = 0 then
               if byte = 0 \<and> shift > 0 then Inl (POverlong start) else Inr (n', r')
             else uint_loop start n' (shift + 7) r'))"
  by pat_completeness auto
termination
  by (relation "measure (\<lambda>(st, n, sh, r). 64 - sh)") auto

declare uint_loop.simps [simp del]

definition body_uint :: "body \<Rightarrow> protocol_error + (u64 \<times> body)" where
  "body_uint r = uint_loop (bd_pos r) 0 0 r"

definition body_int :: "body \<Rightarrow> protocol_error + (u64 \<times> body)" where
  "body_int r = and_then (body_uint r) (\<lambda>(z, r'). Inr (drop_bit 1 z XOR - (z AND 1), r'))"

definition body_len :: "body \<Rightarrow> protocol_error + (nat \<times> body)" where
  "body_len r =
     and_then (body_uint r) (\<lambda>(n, r').
       if unat n \<le> length (bd_bytes r') - bd_pos r' then Inr (unat n, r') else Inl (PTruncated (bd_pos r)))"

definition body_bytes :: "body \<Rightarrow> protocol_error + (u8 list \<times> body)" where
  "body_bytes r =
     and_then (body_len r) (\<lambda>(n, r'). Inr (slice (bd_pos r') n (bd_bytes r'), r'\<lparr>bd_pos := bd_pos r' + n\<rparr>))"

definition body_text :: "body \<Rightarrow> protocol_error + (str \<times> body)" where
  "body_text r =
     and_then (body_bytes r) (\<lambda>(bs, r').
       and_then (ok_or (PNotUtf8 (bd_pos r)) (from_utf8 bs)) (\<lambda>s. Inr (s, r')))"

definition body_value :: "u64 \<times> u64 \<Rightarrow> body \<Rightarrow> protocol_error + (Value \<times> body)" where
  "body_value drawn r =
     and_then (body_bytes r) (\<lambda>(bs, r').
       and_then (map_err (PWire (bd_pos r)) (decode drawn bs)) (\<lambda>v. Inr (v, r')))"

subsection \<open>What a field's reader accepts\<close>

text \<open>The reader of a body is the wire's reader with no base, up to the errors.\<close>

definition as_reader :: "body \<Rightarrow> reader" where
  "as_reader r = \<lparr>rbytes = bd_bytes r, rat = bd_pos r, rbase = 0\<rparr>"

definition eats :: "body \<Rightarrow> u8 list \<Rightarrow> body \<Rightarrow> bool" where
  "eats r x r' \<longleftrightarrow> consumes (as_reader r) x (as_reader r')"

lemma as_reader_inject: "as_reader r = as_reader r' \<longleftrightarrow> r = r'"
  by (cases r; cases r') (simp add: as_reader_def)

lemma advance_as_reader: "advance n (as_reader r) = as_reader (r\<lparr>bd_pos := bd_pos r + n\<rparr>)"
  by (simp add: as_reader_def advance_def)

lemma rest_as_reader [simp]: "rest (as_reader r) = body_rest r"
  by (simp add: rest_def body_rest_def as_reader_def)

lemma eats_alt:
  "eats r x r' \<longleftrightarrow> (\<exists>y. body_rest r = x @ y) \<and> r' = r\<lparr>bd_pos := bd_pos r + length x\<rparr>"
  by (simp add: eats_def consumes_def advance_as_reader as_reader_inject)

lemma eats_Nil [simp]: "eats r [] r' \<longleftrightarrow> r' = r"
  by (simp add: eats_def as_reader_inject)

lemma consumes_as_reader: "consumes (as_reader r) x s \<Longrightarrow> \<exists>r'. s = as_reader r' \<and> eats r x r'"
  by (auto simp: consumes_def eats_alt advance_as_reader)

lemma eats_append: "eats r (x @ y) r' \<longleftrightarrow> (\<exists>r1. eats r x r1 \<and> eats r1 y r')"
  unfolding eats_def consumes_append by (metis consumes_as_reader)

lemma eats_Cons: "eats r (b # y) r' \<longleftrightarrow> (\<exists>r1. eats r [b] r1 \<and> eats r1 y r')"
  using eats_append [of r "[b]" y r'] by simp

lemma body_byte_read: "body_byte r = Inr (b, r') \<longleftrightarrow> read_byte (as_reader r) = Inr (b, as_reader r')"
  by (auto simp: body_byte_def read_byte_def advance_as_reader as_reader_inject) (auto simp: as_reader_def)

lemma body_byte_iff: "body_byte r = Inr (b, r') \<longleftrightarrow> eats r [b] r'"
  by (simp add: body_byte_read read_byte_iff eats_def)

lemma body_fixed_iff: "0 < n \<Longrightarrow> body_fixed n r = Inr (bs, r') \<longleftrightarrow> length bs = n \<and> eats r bs r'"
proof -
  assume "0 < n"
  moreover have "length bs = n \<and> eats r bs r' \<longleftrightarrow>
      n \<le> length (body_rest r) \<and> bs = take n (body_rest r) \<and> r' = r\<lparr>bd_pos := bd_pos r + n\<rparr>"
    by (auto simp: eats_alt) (metis append_take_drop_id)
  ultimately show ?thesis
    by (cases r) (auto simp: body_fixed_def Let_def slice_def body_rest_def)
qed

lemma uint_loop_leb:
  "7 dvd sh \<Longrightarrow> uint_loop st n sh r = Inr (x, r') \<longleftrightarrow> leb_loop st n sh (as_reader r) = Inr (x, as_reader r')"
proof (induction st n sh r rule: uint_loop.induct)
  case (1 st n sh r)
  show ?case
  proof (cases "body_byte r")
    case (Inl e)
    then obtain e' where "read_byte (as_reader r) = Inl e'" by (auto simp: body_byte_def read_byte_def as_reader_def split: if_splits)
    with Inl show ?thesis by (simp add: uint_loop.simps [of st n sh r] leb_loop.simps [of st n sh])
  next
    case (Inr p)
    then obtain b r1 where b: "body_byte r = Inr (b, r1)" by (cases p) auto
    then have b': "read_byte (as_reader r) = Inr (b, as_reader r1)" by (simp add: body_byte_read)
    let ?bits = "ucast (b AND 0x7f) :: u64"
    consider "sh \<ge> 64" | "sh = 63" "?bits > 1" | "sh \<le> 63" "\<not> (sh = 63 \<and> ?bits > 1)" "b AND 0x80 = 0"
      | "sh \<le> 63" "\<not> (sh = 63 \<and> ?bits > 1)" "b AND 0x80 \<noteq> 0" by linarith
    then show ?thesis
    proof cases
      case 2
      then show ?thesis
        using b b' uint_loop.simps [of st n 63 r] leb_loop.simps [of st n 63 "as_reader r"] by (simp add: Let_def)
    next
      case 4
      have "uint_loop st n sh r = uint_loop st (n OR push_bit sh ?bits) (sh + 7) r1"
        by (subst uint_loop.simps) (use 4 b in \<open>auto simp: Let_def simp del: not_less\<close>)
      moreover have "leb_loop st n sh (as_reader r) = leb_loop st (n OR push_bit sh ?bits) (sh + 7) (as_reader r1)"
        by (subst leb_loop.simps) (use 4 b' in \<open>auto simp: Let_def simp del: not_less\<close>)
      moreover have "uint_loop st (n OR push_bit sh ?bits) (sh + 7) r1 = Inr (x, r') \<longleftrightarrow>
          leb_loop st (n OR push_bit sh ?bits) (sh + 7) (as_reader r1) = Inr (x, as_reader r')"
        using 4 "1.prems" by (intro "1.IH" [OF _ b refl refl _ refl]) auto
      ultimately show ?thesis by simp
    qed (auto simp: uint_loop.simps [of st n sh r] leb_loop.simps [of st n sh] b b' Let_def as_reader_inject
        simp del: not_less)
  qed
qed

lemma body_uint_iff: "body_uint r = Inr (n, r') \<longleftrightarrow> eats r (enc_len n) r'"
proof -
  have "offset (as_reader r) = bd_pos r" by (simp add: offset_def as_reader_def)
  then have "leb (as_reader r) = leb_loop (bd_pos r) 0 0 (as_reader r)" by (simp add: leb_def)
  then show ?thesis using uint_loop_leb [of 0 "bd_pos r" 0 r n r'] leb_iff [of "as_reader r" n "as_reader r'"]
    by (simp add: body_uint_def eats_def)
qed

lemma put_uint_put_len: "put_uint out n = put_len out n"
proof (induction out n rule: put_uint.induct)
  case (1 out n)
  then show ?case by (simp add: put_uint.simps [of out n] put_len.simps [of out n] Let_def)
qed

lemma put_uint_eq: "put_uint out n = out @ enc_len n"
  by (simp add: put_uint_put_len put_len_append [of out])

lemma put_bytes_eq: "put_bytes out bs = out @ enc_bytes bs"
  by (simp add: put_bytes_def put_uint_eq [of out] enc_bytes_def)

lemma put_str_eq: "put_str out s = out @ enc_bytes (as_bytes s)"
  by (simp add: put_str_def put_bytes_eq)

lemma put_value_eq:
  "put_value out v = (case wire_refusal v of Some e \<Rightarrow> Inl (PValue e) | None \<Rightarrow> Inr (out @ enc_bytes (enc v)))"
  by (cases "wire_refusal v") (simp_all add: put_value_def encode_eq behind_length_def put_uint_eq enc_bytes_def)

lemma body_len_iff:
  "body_len r = Inr (n, r') \<longleftrightarrow>
     n < 2 ^ 64 \<and> n \<le> length (body_rest r') \<and> eats r (enc_len (word_of_nat n)) r'"
proof
  assume "body_len r = Inr (n, r')"
  then obtain w where w: "body_uint r = Inr (w, r')" "n = unat w" "n \<le> length (body_rest r')"
    by (auto simp: body_len_def body_rest_def split: if_splits)
  then show "n < 2 ^ 64 \<and> n \<le> length (body_rest r') \<and> eats r (enc_len (word_of_nat n)) r'"
    using unsigned_less [of w] by (simp add: body_uint_iff)
next
  assume n: "n < 2 ^ 64 \<and> n \<le> length (body_rest r') \<and> eats r (enc_len (word_of_nat n)) r'"
  then have "body_uint r = Inr (word_of_nat n, r')" by (simp add: body_uint_iff)
  with n show "body_len r = Inr (n, r')" by (simp add: body_len_def body_rest_def unat_word_of_nat_64)
qed

lemma eats_take: "eats r x r' \<longleftrightarrow> length x \<le> length (body_rest r) \<and> x = take (length x) (body_rest r) \<and>
    r' = r\<lparr>bd_pos := bd_pos r + length x\<rparr>"
  by (auto simp: eats_alt) (metis append_take_drop_id)

lemma body_bytes_iff: "body_bytes r = Inr (bs, r') \<longleftrightarrow> length bs < 2 ^ 64 \<and> eats r (enc_bytes bs) r'"
proof
  assume "body_bytes r = Inr (bs, r')"
  then obtain n r1 where n: "body_len r = Inr (n, r1)" "bs = take n (body_rest r1)" "r' = r1\<lparr>bd_pos := bd_pos r1 + n\<rparr>"
    by (auto simp: body_bytes_def slice_def body_rest_def)
  then have "eats r1 bs r'" "length bs = n" by (auto simp: body_len_iff eats_take)
  with n show "length bs < 2 ^ 64 \<and> eats r (enc_bytes bs) r'"
    by (auto simp: body_len_iff enc_bytes_def eats_append)
next
  assume a: "length bs < 2 ^ 64 \<and> eats r (enc_bytes bs) r'"
  then obtain r1 where r1: "eats r (enc_len (word_of_nat (length bs))) r1" "eats r1 bs r'"
    by (auto simp: enc_bytes_def eats_append)
  then have b: "length bs \<le> length (body_rest r1)" "take (length bs) (body_rest r1) = bs"
    "r' = r1\<lparr>bd_pos := bd_pos r1 + length bs\<rparr>" by (auto simp: eats_take)
  then have "body_len r = Inr (length bs, r1)" using a r1 by (simp add: body_len_iff)
  then show "body_bytes r = Inr (bs, r')" using b by (simp add: body_bytes_def slice_def body_rest_def)
qed

lemma body_text_iff:
  "body_text r = Inr (s, r') \<longleftrightarrow> is_text s \<and> length s < 2 ^ 64 \<and> eats r (enc_bytes (as_bytes s)) r'"
proof
  assume "body_text r = Inr (s, r')"
  then obtain bs where "body_bytes r = Inr (bs, r')" "from_utf8 bs = Some s"
    by (auto simp: body_text_def result_simps split: option.splits)
  then show "is_text s \<and> length s < 2 ^ 64 \<and> eats r (enc_bytes (as_bytes s)) r'"
    by (simp add: body_bytes_iff from_utf8_Some)
next
  assume s: "is_text s \<and> length s < 2 ^ 64 \<and> eats r (enc_bytes (as_bytes s)) r'"
  then have "body_bytes r = Inr (as_bytes s, r')" by (simp add: body_bytes_iff)
  with s show "body_text r = Inr (s, r')" by (simp add: body_text_def from_utf8_def is_text_def)
qed

lemma body_value_iff:
  "body_value drawn r = Inr (v, r') \<longleftrightarrow> wire_ok v \<and> length (enc v) < 2 ^ 64 \<and> eats r (enc_bytes (enc v)) r'"
proof
  assume "body_value drawn r = Inr (v, r')"
  then obtain bs where "body_bytes r = Inr (bs, r')" "decode drawn bs = Inr v"
    by (auto simp: body_value_def result_simps)
  then show "wire_ok v \<and> length (enc v) < 2 ^ 64 \<and> eats r (enc_bytes (enc v)) r'"
    using decode_sound [of drawn bs 0 v] by (auto simp: decode_def body_bytes_iff)
next
  assume v: "wire_ok v \<and> length (enc v) < 2 ^ 64 \<and> eats r (enc_bytes (enc v)) r'"
  then have "body_bytes r = Inr (enc v, r')" "decode drawn (enc v) = Inr v"
    by (simp_all add: body_bytes_iff decode_def decode_enc)
  then show "body_value drawn r = Inr (v, r')" by (simp add: body_value_def)
qed

text \<open>A signed integer reads back as it was put, every one of the sixty-four bit ones.\<close>

theorem signed_integers_round_trip: "body_int (body_new (put_int [] n)) = Inr (n, \<lparr>bd_bytes = put_int [] n, bd_pos = length (put_int [] n)\<rparr>)"
proof -
  let ?z = "push_bit 1 n XOR signed_drop_bit 63 n"
  have s: "bit (signed_drop_bit 63 n) i \<longleftrightarrow> bit n 63" if "i < 64" for i
    using that by (cases "i = 0") (auto simp: bit_signed_drop_bit_iff)
  have one: "?z AND 1 = (if bit n 63 then 1 else 0)"
  proof (rule bit_word_eqI)
    fix i assume "i < LENGTH(64)"
    then show "bit (?z AND 1) i = bit (if bit n 63 then 1 else 0 :: u64) i"
      using s [of 0] by (auto simp: bit_and_iff bit_xor_iff bit_1_iff bit_push_bit_iff bit_0)
  qed
  have "drop_bit 1 ?z XOR - (?z AND 1) = n"
  proof (rule bit_word_eqI)
    fix i assume i: "i < LENGTH(64)"
    have m: "bit (- (?z AND 1)) i \<longleftrightarrow> bit n 63" unfolding one using i by simp
    have d: "bit (drop_bit 1 ?z) i \<longleftrightarrow> i < 63 \<and> (bit n i \<noteq> bit n 63)"
    proof (cases "i = 63")
      case True
      have "\<not> bit (drop_bit 1 ?z) 63" unfolding bit_drop_bit_eq comp_def by (auto dest: bit_imp_le_length)
      then show ?thesis using True by simp
    next
      case False
      then have "i < 63" "Suc i < 64" using i by simp_all
      moreover have "bit (push_bit 1 n) (1 + i) \<longleftrightarrow> bit n i" using \<open>Suc i < 64\<close> unfolding bit_push_bit_iff by simp
      ultimately show ?thesis using s [of "1 + i"] unfolding bit_drop_bit_eq comp_def bit_xor_iff by auto
    qed
    show "bit (drop_bit 1 ?z XOR - (?z AND 1)) i = bit n i"
    proof (cases "i = 63")
      case False
      then have "i < 63" using i by simp
      then show ?thesis unfolding bit_xor_iff m d by blast
    next
      case True
      then show ?thesis unfolding bit_xor_iff m d by simp
    qed
  qed
  moreover have "body_uint (body_new (enc_len ?z)) = Inr (?z, \<lparr>bd_bytes = enc_len ?z, bd_pos = length (enc_len ?z)\<rparr>)"
    by (simp add: body_uint_iff eats_alt body_new_def body_rest_def)
  ultimately show ?thesis by (simp add: body_int_def put_int_def put_uint_eq)
qed

section \<open>Frames\<close>

datatype trust = Local | Trusted | Secure | ServerTls

fun trust_byte :: "trust \<Rightarrow> u8" where
  "trust_byte Local = 0"
| "trust_byte Trusted = 1"
| "trust_byte Secure = 2"
| "trust_byte ServerTls = 3"

definition trust_from_byte :: "u8 \<Rightarrow> nat \<Rightarrow> protocol_error + trust" where
  "trust_from_byte b p =
     (if b = 0 then Inr Local else if b = 1 then Inr Trusted else if b = 2 then Inr Secure
      else if b = 3 then Inr ServerTls else Inl (PField p))"

datatype target = Table u64 | Object u64

fun target_code :: "target \<Rightarrow> u64" where
  "target_code (Table i) = push_bit 1 i"
| "target_code (Object i) = push_bit 1 i OR 1"

definition target_from_code :: "u64 \<Rightarrow> target" where
  "target_from_code c = (if c AND 1 = 0 then Table (drop_bit 1 c) else Object (drop_bit 1 c))"

text \<open>\<open>Frame\<close>: a call's arguments and a reply's answer stay bytes.\<close>

datatype message =
    Hello trust "u8 list" Value
  | Welcome "u8 list" "u8 list" Value
  | Proof "u8 list"
  | ListAsk u64
  | OpenLib u64 str str
  | CloseLib str str
  | Call u64 u64 target u64 "u8 list"
  | Reply u64 u32 "u8 list"
  | Cancel u64
  | Release u64
  | Ping u64
  | Pong u64
  | Goodbye u32 str

definition proto_MAGIC :: "u8 list" where
  "proto_MAGIC = [0x47, 0x54, 0x52, 0x4D]"

definition status_of :: "u64 \<Rightarrow> nat \<Rightarrow> protocol_error + u32" where
  "status_of n p = (if unat n < 2 ^ 32 then Inr (ucast n) else Inl (PField p))"

text \<open>The fields of each frame, after its type.\<close>

definition decode_handshake :: "u64 \<times> u64 \<Rightarrow> bool \<Rightarrow> body \<Rightarrow> protocol_error + (message \<times> body)" where
  "decode_handshake drawn hello r =
     and_then (body_fixed 4 r) (\<lambda>(magic, r).
     if magic \<noteq> proto_MAGIC then Inl NotThisProtocol
     else and_then (body_byte r) (\<lambda>(version, r).
     if version \<noteq> 1 then Inl (PVersion version)
     else if hello then
       and_then (body_byte r) (\<lambda>(b, r1).
       and_then (trust_from_byte b (bd_pos r)) (\<lambda>trust.
       and_then (body_fixed 16 r1) (\<lambda>(nonce, r).
       and_then (body_value drawn r) (\<lambda>(options, r). Inr (Hello trust nonce options, r)))))
     else
       and_then (body_fixed 16 r) (\<lambda>(nonce, r).
       and_then (body_bytes r) (\<lambda>(proof', r).
       and_then (body_value drawn r) (\<lambda>(options, r). Inr (Welcome nonce proof' options, r))))))"

definition decode_fields :: "u64 \<times> u64 \<Rightarrow> u8 \<Rightarrow> body \<Rightarrow> protocol_error + (message \<times> body)" where
  "decode_fields drawn kind' r =
     (if kind' = 0x01 then decode_handshake drawn True r
      else if kind' = 0x02 then decode_handshake drawn False r
      else if kind' = 0x03 then and_then (body_bytes r) (\<lambda>(p, r). Inr (Proof p, r))
      else if kind' = 0x04 then and_then (body_uint r) (\<lambda>(call, r). Inr (ListAsk call, r))
      else if kind' = 0x05 then
        and_then (body_uint r) (\<lambda>(call, r).
        and_then (body_text r) (\<lambda>(library, r).
        and_then (body_text r) (\<lambda>(stamp, r). Inr (OpenLib call library stamp, r))))
      else if kind' = 0x06 then
        and_then (body_text r) (\<lambda>(library, r).
        and_then (body_text r) (\<lambda>(stamp, r). Inr (CloseLib library stamp, r)))
      else if kind' = 0x12 then and_then (body_uint r) (\<lambda>(call, r). Inr (Cancel call, r))
      else if kind' = 0x13 then and_then (body_uint r) (\<lambda>(obj, r). Inr (Release obj, r))
      else if kind' = 0x14 then and_then (body_uint r) (\<lambda>(n, r). Inr (Ping n, r))
      else if kind' = 0x15 then and_then (body_uint r) (\<lambda>(n, r). Inr (Pong n, r))
      else if kind' = 0x16 then
        and_then (body_uint r) (\<lambda>(n, r1).
        and_then (status_of n (bd_pos r)) (\<lambda>status.
        and_then (body_text r1) (\<lambda>(words, r). Inr (Goodbye status words, r))))
      else Inl (UnknownFrame kind'))"

text \<open>A call and a reply take the rest of the body as it is; every other frame must end it.\<close>

definition message_decode :: "u64 \<times> u64 \<Rightarrow> u8 list \<Rightarrow> protocol_error + message" where
  "message_decode drawn bs =
     and_then (body_byte (body_new bs)) (\<lambda>(kind', r).
     if kind' = 0x10 then
       and_then (body_uint r) (\<lambda>(call, r).
       and_then (body_uint r) (\<lambda>(parent, r).
       and_then (body_uint r) (\<lambda>(code, r).
       and_then (body_uint r) (\<lambda>(slot, r).
         Inr (Call call parent (target_from_code code) slot (body_rest r))))))
     else if kind' = 0x11 then
       and_then (body_uint r) (\<lambda>(call, r).
       and_then (body_uint r) (\<lambda>(n, r1).
       and_then (status_of n (bd_pos r)) (\<lambda>status. Inr (Reply call status (body_rest r1)))))
     else
       and_then (decode_fields drawn kind' r) (\<lambda>(m, r).
       and_then (body_end r) (\<lambda>_. Inr m)))"

text \<open>Writing: room for the length, the fields, then the length.\<close>

definition frame_start :: "u8 list \<Rightarrow> u8 \<Rightarrow> u8 list" where
  "frame_start out kind' = out @ [0, 0, 0, 0, kind']"

definition finish_with :: "u8 list \<Rightarrow> nat \<Rightarrow> nat \<Rightarrow> nat \<Rightarrow> protocol_error + u8 list" where
  "finish_with out p more' max' =
     (let len = length out - p - 4 + more'
      in if len > max' \<or> len > 2 ^ 32 - 1 then Inl (PTooLarge len max')
         else Inr (put_slice p (to_le 4 (of_nat len :: u32)) out))"

definition finish :: "u8 list \<Rightarrow> nat \<Rightarrow> nat \<Rightarrow> protocol_error + u8 list" where
  "finish out p max' = finish_with out p 0 max'"

definition start_call :: "u8 list \<Rightarrow> u64 \<Rightarrow> u64 \<Rightarrow> target \<Rightarrow> u64 \<Rightarrow> u8 list" where
  "start_call out call parent t slot =
     put_uint (put_uint (put_uint (put_uint (frame_start out 0x10) call) parent) (target_code t)) slot"

definition start_reply :: "u8 list \<Rightarrow> u64 \<Rightarrow> u32 \<Rightarrow> u8 list" where
  "start_reply out call status = put_uint (put_uint (frame_start out 0x11) call) (ucast status)"

fun put_fields :: "u8 list \<Rightarrow> message \<Rightarrow> protocol_error + u8 list" where
  "put_fields out (Hello t nonce options) =
     put_value (frame_start out 0x01 @ proto_MAGIC @ [1] @ [trust_byte t] @ nonce) options"
| "put_fields out (Welcome nonce proof' options) =
     put_value (put_bytes (frame_start out 0x02 @ proto_MAGIC @ [1] @ nonce) proof') options"
| "put_fields out (Proof proof') = Inr (put_bytes (frame_start out 0x03) proof')"
| "put_fields out (ListAsk call) = Inr (put_uint (frame_start out 0x04) call)"
| "put_fields out (OpenLib call library stamp) =
     Inr (put_str (put_str (put_uint (frame_start out 0x05) call) library) stamp)"
| "put_fields out (CloseLib library stamp) = Inr (put_str (put_str (frame_start out 0x06) library) stamp)"
| "put_fields out (Call call parent t slot args) = Inr (start_call out call parent t slot @ args)"
| "put_fields out (Reply call status answer) = Inr (start_reply out call status @ answer)"
| "put_fields out (Cancel call) = Inr (put_uint (frame_start out 0x12) call)"
| "put_fields out (Release obj) = Inr (put_uint (frame_start out 0x13) obj)"
| "put_fields out (Ping n) = Inr (put_uint (frame_start out 0x14) n)"
| "put_fields out (Pong n) = Inr (put_uint (frame_start out 0x15) n)"
| "put_fields out (Goodbye status words) = Inr (put_str (put_uint (frame_start out 0x16) (ucast status)) words)"

definition message_encode :: "message \<Rightarrow> u8 list \<Rightarrow> nat \<Rightarrow> protocol_error + u8 list" where
  "message_encode m out max' = and_then (put_fields out m) (\<lambda>out'. finish out' (length out) max')"

definition refusal_frame :: "u8 list \<Rightarrow> u64 \<Rightarrow> u32 \<Rightarrow> str \<Rightarrow> protocol_error + u8 list" where
  "refusal_frame out call status words = finish (put_str (start_reply out call status) words) (length out) (2 ^ 64 - 1)"

definition refusal_words :: "u8 list \<Rightarrow> protocol_error + str" where
  "refusal_words bs = and_then (body_text (body_new bs)) (\<lambda>(words, r). and_then (body_end r) (\<lambda>_. Inr words))"

definition catalog_of :: "u64 \<times> u64 \<Rightarrow> u8 list \<Rightarrow> protocol_error + Value" where
  "catalog_of drawn bs = and_then (body_value drawn (body_new bs)) (\<lambda>(v, r). and_then (body_end r) (\<lambda>_. Inr v))"

section \<open>Laws\<close>

text \<open>The body of a frame, as the protocol's grammar spells it.\<close>

fun spelt :: "message \<Rightarrow> u8 list" where
  "spelt (Hello t nonce options) = 0x01 # proto_MAGIC @ [1, trust_byte t] @ nonce @ enc_bytes (enc options)"
| "spelt (Welcome nonce proof' options) = 0x02 # proto_MAGIC @ [1] @ nonce @ enc_bytes proof' @ enc_bytes (enc options)"
| "spelt (Proof proof') = 0x03 # enc_bytes proof'"
| "spelt (ListAsk call) = 0x04 # enc_len call"
| "spelt (OpenLib call library stamp) = 0x05 # enc_len call @ enc_bytes (as_bytes library) @ enc_bytes (as_bytes stamp)"
| "spelt (CloseLib library stamp) = 0x06 # enc_bytes (as_bytes library) @ enc_bytes (as_bytes stamp)"
| "spelt (Call call parent t slot args) =
     0x10 # enc_len call @ enc_len parent @ enc_len (target_code t) @ enc_len slot @ args"
| "spelt (Reply call status answer) = 0x11 # enc_len call @ enc_len (ucast status) @ answer"
| "spelt (Cancel call) = 0x12 # enc_len call"
| "spelt (Release obj) = 0x13 # enc_len obj"
| "spelt (Ping n) = 0x14 # enc_len n"
| "spelt (Pong n) = 0x15 # enc_len n"
| "spelt (Goodbye status words) = 0x16 # enc_len (ucast status) @ enc_bytes (as_bytes words)"

fun target_ok :: "target \<Rightarrow> bool" where
  "target_ok (Table i) \<longleftrightarrow> unat i < 2 ^ 63"
| "target_ok (Object i) \<longleftrightarrow> unat i < 2 ^ 63"

text \<open>A frame a decoder can answer: a nonce of sixteen bytes, text, trees the wire carries.\<close>

fun message_ok :: "message \<Rightarrow> bool" where
  "message_ok (Hello t nonce options) \<longleftrightarrow> length nonce = 16 \<and> wire_ok options \<and> length (enc options) < 2 ^ 64"
| "message_ok (Welcome nonce proof' options) \<longleftrightarrow>
     length nonce = 16 \<and> length proof' < 2 ^ 64 \<and> wire_ok options \<and> length (enc options) < 2 ^ 64"
| "message_ok (Proof proof') \<longleftrightarrow> length proof' < 2 ^ 64"
| "message_ok (OpenLib call library stamp) \<longleftrightarrow>
     is_text library \<and> is_text stamp \<and> length library < 2 ^ 64 \<and> length stamp < 2 ^ 64"
| "message_ok (CloseLib library stamp) \<longleftrightarrow>
     is_text library \<and> is_text stamp \<and> length library < 2 ^ 64 \<and> length stamp < 2 ^ 64"
| "message_ok (Call call parent t slot args) \<longleftrightarrow> target_ok t"
| "message_ok (Goodbye status words) \<longleftrightarrow> is_text words \<and> length words < 2 ^ 64"
| "message_ok _ \<longleftrightarrow> True"

lemma put_fields_eq:
  "put_fields out m =
     (case m of Hello t nonce options \<Rightarrow> (case wire_refusal options of Some e \<Rightarrow> Inl (PValue e) | None \<Rightarrow> Inr (out @ [0, 0, 0, 0] @ spelt m))
      | Welcome nonce proof' options \<Rightarrow> (case wire_refusal options of Some e \<Rightarrow> Inl (PValue e) | None \<Rightarrow> Inr (out @ [0, 0, 0, 0] @ spelt m))
      | _ \<Rightarrow> Inr (out @ [0, 0, 0, 0] @ spelt m))"
  by (cases m) (simp_all add: frame_start_def put_bytes_eq put_str_eq put_uint_eq put_value_eq start_call_def
      start_reply_def split: option.splits)

lemma trust_from_byte_iff: "trust_from_byte b p = Inr t \<longleftrightarrow> b = trust_byte t"
  by (cases t) (auto simp: trust_from_byte_def)

lemma status_of_iff: "status_of n p = Inr s \<longleftrightarrow> n = ucast s"
proof
  assume "status_of n p = Inr s"
  then have n: "unat n < 2 ^ 32" "s = ucast n" by (auto simp: status_of_def split: if_splits)
  have "unat (ucast (ucast n :: u32) :: u64) = unat n" using n(1) by (simp add: unsigned_ucast_eq unsigned_take_bit_eq take_bit_nat_eq_self)
  then have "ucast (ucast n :: u32) = n" by (simp only: word_unat_eq_iff)
  then show "n = ucast s" using n(2) by simp
next
  assume n: "n = ucast s"
  have "unat (ucast s :: u64) < 2 ^ 32" using unsigned_less [of s, where ?'a = nat] by (simp add: unsigned_ucast_eq take_bit_nat_eq_self)
  moreover have "ucast (ucast s :: u64) = s" by (rule bit_word_eqI) (simp add: bit_simps bit_ucast_iff)
  ultimately show "status_of n p = Inr s" using n by (simp add: status_of_def)
qed

lemma code_of_target: "target_code (target_from_code c) = c"
proof -
  have "push_bit 1 (drop_bit 1 c) OR (c AND 1) = c"
    by (rule bit_word_eqI, unfold bit_or_iff bit_and_iff bit_push_bit_iff bit_drop_bit_eq bit_1_iff comp_def) auto
  moreover have "c AND 1 = 0 \<or> c AND 1 = 1" by (cases "even c") (simp_all add: and_one_eq mod_2_eq_odd)
  ultimately show ?thesis by (auto simp: target_from_code_def)
qed

lemma target_of_code: "target_ok t \<Longrightarrow> target_from_code (target_code t) = t"
proof -
  have d: "drop_bit 1 (push_bit 1 i) = i" "drop_bit 1 (push_bit 1 i OR 1) = i" if "unat i < 2 ^ 63" for i :: u64
  proof -
    have "\<not> bit i 63"
    proof
      assume "bit i 63"
      then have "bit (unat i) 63" by (simp add: bit_unsigned_iff)
      then have "odd (unat i div 2 ^ 63)" unfolding bit_iff_odd .
      then show False using that by simp
    qed
    then have b: "bit i k \<Longrightarrow> Suc k < 64" for k using bit_imp_le_length [of i k] by (cases "k = 63") auto
    show "drop_bit 1 (push_bit 1 i) = i"
      by (rule bit_word_eqI, unfold bit_drop_bit_eq comp_def, unfold bit_push_bit_iff) (auto dest: b)
    show "drop_bit 1 (push_bit 1 i OR 1) = i"
      by (rule bit_word_eqI, unfold bit_drop_bit_eq comp_def, unfold bit_or_iff bit_push_bit_iff bit_1_iff) (auto dest: b)
  qed
  have e: "push_bit 1 i AND 1 = 0" "(push_bit 1 i OR 1) AND 1 \<noteq> 0" for i :: u64
    by (simp_all add: and_one_eq mod_2_eq_odd even_or_iff)
  assume "target_ok t"
  then show ?thesis by (cases t) (simp_all only: target_ok.simps target_code.simps target_from_code_def d e if_True if_False simp_thms)
qed

lemma target_from_code_ok: "target_ok (target_from_code c)"
proof -
  have "unat (drop_bit 1 c) = unat c div 2" by (simp add: drop_bit_eq_div unat_div)
  moreover have "unat c < 2 ^ 64" using unsigned_less [of c] by simp
  ultimately have "unat (drop_bit 1 c) < 2 ^ 63" by simp
  then show ?thesis by (simp add: target_from_code_def)
qed

lemmas body_iffs = body_byte_iff body_fixed_iff body_uint_iff body_bytes_iff body_text_iff body_value_iff
  trust_from_byte_iff status_of_iff

fun takes_rest :: "message \<Rightarrow> bool" where
  "takes_rest (Call call parent t slot args) = True"
| "takes_rest (Reply call status answer) = True"
| "takes_rest m = False"

lemma decode_handshake_iff:
  "decode_handshake drawn hello r = Inr (m, r') \<longleftrightarrow>
     message_ok m \<and> (\<exists>fs. spelt m = (if hello then 0x01 else 0x02) # fs \<and> eats r fs r') \<and>
     (case m of Hello _ _ _ \<Rightarrow> hello | Welcome _ _ _ \<Rightarrow> \<not> hello | _ \<Rightarrow> False)"
proof
  assume d: "decode_handshake drawn hello r = Inr (m, r')"
  then obtain r1 r2 where h: "body_fixed 4 r = Inr (proto_MAGIC, r1)" "body_byte r1 = Inr (1, r2)"
    by (auto simp: decode_handshake_def split: if_splits)
  then have h': "eats r (proto_MAGIC @ [1]) r2" by (auto simp: body_iffs eats_append)
  show "message_ok m \<and> (\<exists>fs. spelt m = (if hello then 0x01 else 0x02) # fs \<and> eats r fs r') \<and>
     (case m of Hello _ _ _ \<Rightarrow> hello | Welcome _ _ _ \<Rightarrow> \<not> hello | _ \<Rightarrow> False)"
  proof (cases hello)
    case True
    with d h obtain b r3 t nonce r4 options where "body_byte r2 = Inr (b, r3)" "trust_from_byte b (bd_pos r2) = Inr t"
      "body_fixed 16 r3 = Inr (nonce, r4)" "body_value drawn r4 = Inr (options, r')" "m = Hello t nonce options"
      by (auto simp: decode_handshake_def)
    moreover from this have "eats r2 ([trust_byte t] @ nonce @ enc_bytes (enc options)) r'"
      unfolding eats_append by (auto simp: body_iffs)
    then have "eats r ((proto_MAGIC @ [1]) @ ([trust_byte t] @ nonce @ enc_bytes (enc options))) r'"
      using h' eats_append by blast
    ultimately show ?thesis using True by (simp add: body_iffs)
  next
    case False
    with d h obtain nonce r3 p r4 options where "body_fixed 16 r2 = Inr (nonce, r3)" "body_bytes r3 = Inr (p, r4)"
      "body_value drawn r4 = Inr (options, r')" "m = Welcome nonce p options"
      by (auto simp: decode_handshake_def)
    moreover from this have "eats r2 (nonce @ enc_bytes p @ enc_bytes (enc options)) r'"
      unfolding eats_append by (auto simp: body_iffs)
    then have "eats r ((proto_MAGIC @ [1]) @ (nonce @ enc_bytes p @ enc_bytes (enc options))) r'"
      using h' eats_append by blast
    ultimately show ?thesis using False by (simp add: body_iffs)
  qed
next
  assume a: "message_ok m \<and> (\<exists>fs. spelt m = (if hello then 0x01 else 0x02) # fs \<and> eats r fs r') \<and>
     (case m of Hello _ _ _ \<Rightarrow> hello | Welcome _ _ _ \<Rightarrow> \<not> hello | _ \<Rightarrow> False)"
  then consider t nonce options where "m = Hello t nonce options" "hello"
    | nonce proof' options where "m = Welcome nonce proof' options" "\<not> hello"
    by (cases m) auto
  then show "decode_handshake drawn hello r = Inr (m, r')"
  proof cases
    case 1
    then have "eats r (proto_MAGIC @ [1] @ [trust_byte t] @ nonce @ enc_bytes (enc options)) r'" using a by simp
    then obtain r1 r2 r3 r4 where e: "length nonce = 16" "wire_ok options" "length (enc options) < 2 ^ 64"
      "eats r proto_MAGIC r1" "eats r1 [1] r2" "eats r2 [trust_byte t] r3" "eats r3 nonce r4" "eats r4 (enc_bytes (enc options)) r'"
      using a 1(1) unfolding eats_append by auto
    then have "body_fixed 4 r = Inr (proto_MAGIC, r1)" "body_byte r1 = Inr (1, r2)" "body_byte r2 = Inr (trust_byte t, r3)"
      "trust_from_byte (trust_byte t) (bd_pos r2) = Inr t" "body_fixed 16 r3 = Inr (nonce, r4)"
      "body_value drawn r4 = Inr (options, r')"
      by (simp_all add: body_iffs proto_MAGIC_def)
    with 1 show ?thesis by (simp add: decode_handshake_def)
  next
    case 2
    then have "eats r (proto_MAGIC @ [1] @ nonce @ enc_bytes proof' @ enc_bytes (enc options)) r'" using a by simp
    then obtain r1 r2 r3 r4 where e: "length nonce = 16" "wire_ok options" "length (enc options) < 2 ^ 64" "length proof' < 2 ^ 64"
      "eats r proto_MAGIC r1" "eats r1 [1] r2" "eats r2 nonce r3" "eats r3 (enc_bytes proof') r4" "eats r4 (enc_bytes (enc options)) r'"
      using a 2(1) unfolding eats_append by auto
    then have "body_fixed 4 r = Inr (proto_MAGIC, r1)" "body_byte r1 = Inr (1, r2)"
      "body_fixed 16 r2 = Inr (nonce, r3)" "body_bytes r3 = Inr (proof', r4)" "body_value drawn r4 = Inr (options, r')"
      by (simp_all add: body_iffs proto_MAGIC_def)
    with 2 show ?thesis by (simp add: decode_handshake_def)
  qed
qed

lemma decode_fields_sound:
  assumes "decode_fields drawn k r = Inr (m, r')"
  shows "message_ok m \<and> \<not> takes_rest m \<and> (\<exists>fs. spelt m = k # fs \<and> eats r fs r')"
proof -
  consider "k = 1" | "k = 2" | "k = 3" | "k = 4" | "k = 5" | "k = 6" | "k = 0x12" | "k = 0x13" | "k = 0x14" | "k = 0x15" | "k = 0x16"
    using assms by (auto simp: decode_fields_def split: if_splits)
  then show ?thesis
  proof cases
    case 1
    then have "decode_handshake drawn True r = Inr (m, r')" using assms by (simp add: decode_fields_def)
    then show ?thesis using 1 by (cases m) (auto simp: decode_handshake_iff)
  next
    case 2
    then have "decode_handshake drawn False r = Inr (m, r')" using assms by (simp add: decode_fields_def)
    then show ?thesis using 2 by (cases m) (auto simp: decode_handshake_iff)
  next
    case 5
    then obtain call r1 library r2 stamp where "m = OpenLib call library stamp" "body_uint r = Inr (call, r1)"
      "body_text r1 = Inr (library, r2)" "body_text r2 = Inr (stamp, r')"
      using assms by (auto simp: decode_fields_def)
    then show ?thesis using 5 by (auto simp: body_iffs eats_append)
  next
    case 6
    then obtain library r2 stamp where "m = CloseLib library stamp"
      "body_text r = Inr (library, r2)" "body_text r2 = Inr (stamp, r')"
      using assms by (auto simp: decode_fields_def)
    then show ?thesis using 6 by (auto simp: body_iffs eats_append)
  next
    case 11
    then obtain n r1 status words where "m = Goodbye status words" "body_uint r = Inr (n, r1)"
      "status_of n (bd_pos r) = Inr status" "body_text r1 = Inr (words, r')"
      using assms by (auto simp: decode_fields_def)
    then show ?thesis using 11 by (auto simp: body_iffs eats_append)
  qed (use assms in \<open>auto simp: decode_fields_def body_iffs\<close>)
qed

lemma decode_fields_complete:
  assumes "message_ok m" "\<not> takes_rest m" "spelt m = k # fs" "eats r fs r'"
  shows "decode_fields drawn k r = Inr (m, r')"
proof (cases m)
  case (Hello t nonce options)
  then have "decode_handshake drawn True r = Inr (m, r')" using assms by (auto simp: decode_handshake_iff)
  then show ?thesis using assms(3) Hello by (simp add: decode_fields_def)
next
  case (Welcome nonce p options)
  then have "decode_handshake drawn False r = Inr (m, r')" using assms by (auto simp: decode_handshake_iff)
  then show ?thesis using assms(3) Welcome by (simp add: decode_fields_def)
next
  case (OpenLib call library stamp)
  then obtain r1 r2 where "eats r (enc_len call) r1" "eats r1 (enc_bytes (as_bytes library)) r2" "eats r2 (enc_bytes (as_bytes stamp)) r'"
    using assms(3,4) by (auto simp: eats_append)
  then have "body_uint r = Inr (call, r1)" "body_text r1 = Inr (library, r2)" "body_text r2 = Inr (stamp, r')"
    using assms(1) OpenLib by (simp_all add: body_iffs)
  then show ?thesis using assms(3) OpenLib by (simp add: decode_fields_def)
next
  case (CloseLib library stamp)
  then obtain r2 where "eats r (enc_bytes (as_bytes library)) r2" "eats r2 (enc_bytes (as_bytes stamp)) r'"
    using assms(3,4) by (auto simp: eats_append)
  then have "body_text r = Inr (library, r2)" "body_text r2 = Inr (stamp, r')"
    using assms(1) CloseLib by (simp_all add: body_iffs)
  then show ?thesis using assms(3) CloseLib by (simp add: decode_fields_def)
next
  case (Goodbye status words)
  then obtain r1 where "eats r (enc_len (ucast status)) r1" "eats r1 (enc_bytes (as_bytes words)) r'"
    using assms(3,4) by (auto simp: eats_append)
  then have "body_uint r = Inr (ucast status, r1)" "status_of (ucast status) (bd_pos r) = Inr status" "body_text r1 = Inr (words, r')"
    using assms(1) Goodbye by (simp_all add: body_iffs)
  then show ?thesis using assms(3) Goodbye by (simp add: decode_fields_def)
next
  case (Proof p)
  then have "body_bytes r = Inr (p, r')" using assms by (simp add: body_iffs)
  then show ?thesis using assms(3) Proof by (simp add: decode_fields_def)
next
  case (ListAsk n)
  then have "body_uint r = Inr (n, r')" using assms by (simp add: body_iffs)
  then show ?thesis using assms(3) ListAsk by (simp add: decode_fields_def)
next
  case (Cancel n)
  then have "body_uint r = Inr (n, r')" using assms by (simp add: body_iffs)
  then show ?thesis using assms(3) Cancel by (simp add: decode_fields_def)
next
  case (Release n)
  then have "body_uint r = Inr (n, r')" using assms by (simp add: body_iffs)
  then show ?thesis using assms(3) Release by (simp add: decode_fields_def)
next
  case (Ping n)
  then have "body_uint r = Inr (n, r')" using assms by (simp add: body_iffs)
  then show ?thesis using assms(3) Ping by (simp add: decode_fields_def)
next
  case (Pong n)
  then have "body_uint r = Inr (n, r')" using assms by (simp add: body_iffs)
  then show ?thesis using assms(3) Pong by (simp add: decode_fields_def)
qed (use assms(2) in simp_all)

lemma eats_all:
  "eats (body_new bs) x r \<Longrightarrow> bs = x @ body_rest r \<and> (body_end r = Inr () \<longleftrightarrow> body_rest r = [])"
proof -
  assume "eats (body_new bs) x r"
  then obtain y where "bs = x @ y" "r = \<lparr>bd_bytes = bs, bd_pos = length x\<rparr>"
    by (auto simp: eats_alt body_new_def body_rest_def)
  then show ?thesis by (simp add: body_rest_def body_end_def)
qed

lemma eats_new: "eats (body_new (x @ y)) x \<lparr>bd_bytes = x @ y, bd_pos = length x\<rparr>"
  by (simp add: eats_alt body_new_def body_rest_def)

lemma eats_front:
  assumes "body_rest r = h @ a"
  shows "eats r h (r\<lparr>bd_pos := bd_pos r + length h\<rparr>)" "body_rest (r\<lparr>bd_pos := bd_pos r + length h\<rparr>) = a"
proof -
  have "drop (length h) (drop (bd_pos r) (bd_bytes r)) = a" using assms by (simp add: body_rest_def)
  then show "body_rest (r\<lparr>bd_pos := bd_pos r + length h\<rparr>) = a" by (simp add: body_rest_def add.commute)
qed (use assms in \<open>simp add: eats_alt\<close>)

lemma message_decode_sound:
  assumes "message_decode drawn bs = Inr m"
  shows "message_ok m \<and> bs = spelt m"
proof -
  obtain k r where k: "body_byte (body_new bs) = Inr (k, r)" using assms by (auto simp: message_decode_def)
  then have k': "eats (body_new bs) [k] r" by (simp add: body_iffs)
  have all: "eats (body_new bs) (k # x) r'" if "eats r x r'" for x r' using eats_Cons k' that by blast
  consider "k = 0x10" | "k = 0x11" | "k \<noteq> 0x10" "k \<noteq> 0x11" by blast
  then show ?thesis
  proof cases
    case 1
    then obtain call r1 parent r2 code r3 slot r4 where
      f: "body_uint r = Inr (call, r1)" "body_uint r1 = Inr (parent, r2)" "body_uint r2 = Inr (code, r3)"
      "body_uint r3 = Inr (slot, r4)" and m: "m = Call call parent (target_from_code code) slot (body_rest r4)"
      using assms k by (auto simp: message_decode_def)
    then have "eats r (enc_len call @ enc_len parent @ enc_len code @ enc_len slot) r4"
      unfolding eats_append body_iffs by blast
    from eats_all [OF all [OF this]] show ?thesis by (simp add: m 1 code_of_target target_from_code_ok)
  next
    case 2
    then obtain call r1 n r2 status where
      f: "body_uint r = Inr (call, r1)" "body_uint r1 = Inr (n, r2)" "status_of n (bd_pos r1) = Inr status"
      and m: "m = Reply call status (body_rest r2)"
      using assms k by (auto simp: message_decode_def)
    then have "eats r (enc_len call @ enc_len (ucast status)) r2" unfolding eats_append body_iffs by blast
    from eats_all [OF all [OF this]] show ?thesis by (simp add: m 2)
  next
    case 3
    then obtain r' where "decode_fields drawn k r = Inr (m, r')" "body_end r' = Inr ()"
      using assms k by (auto simp: message_decode_def)
    moreover from this(1) obtain fs where fs: "message_ok m" "spelt m = k # fs" "eats r fs r'"
      using decode_fields_sound by blast
    ultimately show ?thesis using eats_all [OF all [OF fs(3)]] by simp
  qed
qed

lemma message_decode_complete:
  assumes "message_ok m"
  shows "message_decode drawn (spelt m) = Inr m"
proof -
  obtain k fs where s: "spelt m = k # fs" by (cases m) auto
  obtain r where k: "eats (body_new (spelt m)) [k] r" "body_rest r = fs"
    using eats_new [of "[k]" fs] s by (auto simp: body_rest_def)
  then have b: "body_byte (body_new (spelt m)) = Inr (k, r)" by (simp add: body_iffs)
  show ?thesis
  proof (cases "takes_rest m")
    case False
    have kk: "k \<noteq> 0x10 \<and> k \<noteq> 0x11" using False s by (cases m) auto
    let ?r = "r\<lparr>bd_pos := bd_pos r + length fs\<rparr>"
    have e: "eats r fs ?r" using k(2) by (simp add: eats_alt)
    have "length fs = length (bd_bytes r) - bd_pos r" using k(2) by (auto simp: body_rest_def)
    then have "body_rest ?r = []" by (simp add: body_rest_def)
    moreover have "eats (body_new (spelt m)) (k # fs) ?r" using k(1) e eats_Cons by blast
    ultimately have "body_end ?r = Inr ()" using eats_all by blast
    moreover have "decode_fields drawn k r = Inr (m, ?r)" by (rule decode_fields_complete [OF assms False s e])
    ultimately show ?thesis using kk b by (simp add: message_decode_def)
  next
    case True
    then consider call parent t slot args where "m = Call call parent t slot args" | call status answer where "m = Reply call status answer"
      by (cases m) auto
    then show ?thesis
    proof cases
      case 1
      let ?h = "enc_len call @ enc_len parent @ enc_len (target_code t) @ enc_len slot"
      have fs: "k = 0x10" "fs = ?h @ args" using s 1 by simp_all
      define r4 where "r4 = r\<lparr>bd_pos := bd_pos r + length ?h\<rparr>"
      have "eats r ?h r4" "body_rest r4 = args"
        using eats_front [of r ?h args] k(2) fs(2) unfolding r4_def by simp_all
      moreover from this(1) obtain r1 r2 r3 where "body_uint r = Inr (call, r1)" "body_uint r1 = Inr (parent, r2)"
        "body_uint r2 = Inr (target_code t, r3)" "body_uint r3 = Inr (slot, r4)"
        unfolding eats_append body_iffs by blast
      ultimately show ?thesis using b fs(1) assms 1 by (simp add: message_decode_def target_of_code)
    next
      case 2
      let ?h = "enc_len call @ enc_len (ucast status :: u64)"
      have fs: "k = 0x11" "fs = ?h @ answer" using s 2 by simp_all
      define r4 where "r4 = r\<lparr>bd_pos := bd_pos r + length ?h\<rparr>"
      have "eats r ?h r4" "body_rest r4 = answer"
        using eats_front [of r ?h answer] k(2) fs(2) unfolding r4_def by simp_all
      moreover from this(1) obtain r1 where "body_uint r = Inr (call, r1)" "body_uint r1 = Inr (ucast status, r4)"
        unfolding eats_append body_iffs by blast
      moreover have "status_of (ucast status) p = Inr status" for p by (simp add: status_of_iff)
      ultimately show ?thesis using b fs(1) 2 by (simp add: message_decode_def)
    qed
  qed
qed

section \<open>Properties\<close>

text \<open>C11: a body decodes to a frame exactly when it is the spelling of that frame, and the frame is
  one the protocol carries: nothing else is accepted, and no spelling twice.\<close>

theorem frames_decode_exactly:
  "message_decode drawn bs = Inr m \<longleftrightarrow> message_ok m \<and> bs = spelt m"
  using message_decode_sound message_decode_complete by blast

lemma finish_eq:
  "finish (out @ 0 # 0 # 0 # 0 # b) (length out) max' =
     (if length b > max' \<or> length b > 2 ^ 32 - 1 then Inl (PTooLarge (length b) max')
      else Inr (out @ to_le 4 (of_nat (length b) :: u32) @ b))"
  by (simp add: finish_def finish_with_def Let_def put_slice_def)

lemma frame_encoded:
  assumes "message_ok m" "length (spelt m) \<le> max'" "length (spelt m) < 2 ^ 32"
  shows "message_encode m out max' = Inr (out @ to_le 4 (of_nat (length (spelt m)) :: u32) @ spelt m)"
proof -
  have r: "wire_ok v \<Longrightarrow> wire_refusal v = None" for v using wire_ok_readable [of v] by (simp add: refusal_None)
  have "put_fields out m = Inr (out @ [0, 0, 0, 0] @ spelt m)"
    unfolding put_fields_eq using assms(1) by (cases m) (simp_all add: r)
  then have "message_encode m out max' = finish (out @ [0, 0, 0, 0] @ spelt m) (length out) max'"
    by (simp add: message_encode_def)
  then show ?thesis using assms by (simp add: finish_eq)
qed

text \<open>The encoder appends a frame behind its length and refuses only a value the wire cannot
  carry and a body over the limit; what it wrote decodes to the frame.\<close>

theorem frames_round_trip:
  assumes "message_ok m" "length (spelt m) \<le> max'" "length (spelt m) < 2 ^ 32"
  shows "message_encode m out max' = Inr (out @ to_le 4 (of_nat (length (spelt m)) :: u32) @ spelt m) \<and>
    message_decode drawn (spelt m) = Inr m"
  using assms frame_encoded message_decode_complete by simp

lemma goodbye_ok: "message_ok (Goodbye 7 ''key'')"
proof -
  have "is_text ''key''" by code_simp
  then show ?thesis by simp
qed

theorem frames_round_trip_witness:
  "message_decode (3, 5) (spelt (Goodbye 7 ''key'')) = Inr (Goodbye 7 ''key'')"
  using frames_round_trip [OF goodbye_ok, of 100 "[]" "(3, 5)"]
  by (simp add: enc_bytes_def enc_len_def put_len.simps)

text \<open>An encoder that fails says why: the value a frame could not carry, or the length that
  is over the limit; and it writes nothing then that is sent.\<close>

theorem encode_refuses_exactly:
  assumes "message_encode m out max' = Inl e"
  shows "(\<exists>v ve. ((\<exists>t n. m = Hello t n v) \<or> (\<exists>n p. m = Welcome n p v)) \<and>
      encode v [] = Inl ve \<and> e = PValue ve) \<or>
    e = PTooLarge (length (spelt m)) max' \<and> (max' < length (spelt m) \<or> 2 ^ 32 \<le> length (spelt m))"
proof (cases "put_fields out m")
  case (Inl e')
  then have "e = e'" using assms by (simp add: message_encode_def)
  then show ?thesis using Inl unfolding put_fields_eq by (cases m) (auto simp: encode_eq split: option.splits)
next
  case (Inr out')
  then have o: "out' = out @ [0, 0, 0, 0] @ spelt m" unfolding put_fields_eq by (cases m) (auto split: option.splits)
  have "finish out' (length out) max' = Inl e" using assms Inr by (simp add: message_encode_def)
  then show ?thesis unfolding o by (auto simp: finish_eq split: if_splits)
qed

theorem encode_refuses_exactly_witness: "message_encode (Ping 1) [] 1 = Inl (PTooLarge 2 1)"
proof -
  have "message_encode (Ping 1) [] 1 \<noteq> Inr x" for x by code_simp
  then obtain e where "message_encode (Ping 1) [] 1 = Inl e" by (cases "message_encode (Ping 1) [] 1") auto
  with encode_refuses_exactly [OF this] show ?thesis by (simp add: enc_len_def put_len.simps)
qed

lemma length_enc_len: "length (enc_len n) \<le> 10"
proof -
  have "unat n < 128 ^ Suc k \<Longrightarrow> length (enc_len n) \<le> Suc k" for k n
  proof (induction k arbitrary: n)
    case 0
    then show ?case by (subst enc_len_unfold) (simp add: drop_bit_7_eq_0 word_less_nat_alt)
  next
    case (Suc k)
    have "length (enc_len (drop_bit 7 n)) \<le> Suc k" using Suc.prems by (intro Suc.IH) (simp add: unat_drop_bit_7 div_less_iff_less_mult)
    then show ?case by (subst enc_len_unfold) simp
  qed
  moreover have "unat n < 128 ^ Suc 9" using unsigned_less [of n, where ?'a = nat] by simp
  ultimately have "length (enc_len n) \<le> Suc 9" .
  then show ?thesis by simp
qed

text \<open>the words of a refusal and the catalog of a listing come back out of the reply that carries
  them.\<close>

theorem replies_carry_their_answers:
  assumes "is_text words" "length words < 2 ^ 31" "wire_ok v" "length (enc v) < 2 ^ 64"
  shows "refusal_frame out call status words =
      Inr (out @ to_le 4 (of_nat (length (spelt (Reply call status (enc_bytes (as_bytes words))))) :: u32) @
        spelt (Reply call status (enc_bytes (as_bytes words)))) \<and>
    refusal_words (enc_bytes (as_bytes words)) = Inr words \<and>
    put_value [] v = Inr (enc_bytes (enc v)) \<and> catalog_of drawn (enc_bytes (enc v)) = Inr v"
proof -
  note l = length_enc_len
  let ?b = "enc_bytes (as_bytes words)"
  have "length (spelt (Reply call status ?b)) < 2 ^ 32"
    using l [of call] l [of "ucast status"] l [of "word_of_nat (length (as_bytes words))"] assms(2)
    by (simp add: enc_bytes_def)
  moreover have "put_str (start_reply out call status) words = out @ 0 # 0 # 0 # 0 # spelt (Reply call status ?b)"
    by (simp add: put_str_eq start_reply_def put_uint_eq frame_start_def)
  ultimately have f: "refusal_frame out call status words =
      Inr (out @ to_le 4 (of_nat (length (spelt (Reply call status ?b))) :: u32) @ spelt (Reply call status ?b))"
    by (simp add: refusal_frame_def finish_eq)
  have whole: "body_end \<lparr>bd_bytes = x, bd_pos = length x\<rparr> = Inr ()" "eats (body_new x) x \<lparr>bd_bytes = x, bd_pos = length x\<rparr>" for x
    using eats_new [of x "[]"] by (simp_all add: body_end_def)
  have "body_text (body_new ?b) = Inr (words, \<lparr>bd_bytes = ?b, bd_pos = length ?b\<rparr>)"
    using assms(1,2) whole(2) by (simp add: body_text_iff)
  moreover have "body_value drawn (body_new (enc_bytes (enc v))) =
      Inr (v, \<lparr>bd_bytes = enc_bytes (enc v), bd_pos = length (enc_bytes (enc v))\<rparr>)"
    using assms(3,4) whole(2) by (simp add: body_value_iff)
  moreover have "wire_refusal v = None" using wire_ok_readable [OF assms(3)] by (simp add: refusal_None)
  ultimately show ?thesis using f by (simp add: refusal_words_def catalog_of_def whole(1) put_value_eq)
qed

end
