(* ===== verification/Machines.thy ===== *)
theory Machines
  imports Prelude "HOL-Library.Sublist"
begin

text \<open>
  Machines of several threads or processes as step relations: the states reachable from a
  start, and two interfaces. A \<open>machine\<close> is a start, a step and an invariant both keep; a
  \<open>byte_stream\<close> is one whose invariant says that what one end has taken is the first part of
  what the other end has put. The remote link's gate and its two rings provide them.
\<close>

inductive reach :: "('s \<Rightarrow> bool) \<Rightarrow> ('s \<Rightarrow> 's \<Rightarrow> bool) \<Rightarrow> 's \<Rightarrow> bool" for start step where
  reach_start: "start s \<Longrightarrow> reach start step s"
| reach_step: "reach start step s \<Longrightarrow> step s s' \<Longrightarrow> reach start step s'"

locale machine =
  fixes start :: "'s \<Rightarrow> bool"
    and step :: "'s \<Rightarrow> 's \<Rightarrow> bool"
    and inv :: "'s \<Rightarrow> bool"
  assumes inv_start: "start s \<Longrightarrow> inv s"
    and inv_step: "inv s \<Longrightarrow> step s s' \<Longrightarrow> inv s'"
begin

lemma reach_inv: "reach start step s \<Longrightarrow> inv s"
  by (induction rule: reach.induct) (auto intro: inv_start inv_step)

end

locale byte_stream = machine +
  fixes put :: "'s \<Rightarrow> 'b list"
    and got :: "'s \<Rightarrow> 'b list"
  assumes inv_order: "inv s \<Longrightarrow> prefix (got s) (put s)"
begin

lemma reach_order: "reach start step s \<Longrightarrow> prefix (got s) (put s)"
  by (simp add: inv_order reach_inv)

end

end
