(* ===== verification/Ring_Buffers.thy ===== *)
theory Ring_Buffers
  imports Machines
begin

text \<open>
  What the remote link's two rings share: bytes copied into and out of a span of memory, a
  ring's contents from a position on, and positions that are counters of a machine word's
  width. A position is the number of bytes that ever passed it; the ring divides the word's
  range, so its offset in the ring survives the counter's wrap-around.
\<close>

text \<open>The kinds of I/O error the two rings report; any other of the system's is \<open>IoOther\<close>.\<close>

datatype io_error = InvalidData | PermissionDenied | BrokenPipe | TimedOut | UnexpectedEof | IoOther

section \<open>Memory and spans\<close>

type_synonym memory = "nat \<Rightarrow> u8"

definition span :: "memory \<Rightarrow> nat \<Rightarrow> nat \<Rightarrow> u8 list" where
  "span m a n = map m [a..<a + n]"

definition blit :: "memory \<Rightarrow> nat \<Rightarrow> u8 list \<Rightarrow> memory" where
  "blit m a bs = (\<lambda>i. if a \<le> i \<and> i < a + length bs then bs ! (i - a) else m i)"

text \<open>The \<open>n\<close> bytes of a ring from the position \<open>p\<close> on.\<close>

definition ring_get :: "nat \<Rightarrow> memory \<Rightarrow> nat \<Rightarrow> nat \<Rightarrow> u8 list" where
  "ring_get ring m p n = map (\<lambda>k. m ((p + k) mod ring)) [0..<n]"

lemma length_span [simp]: "length (span m a n) = n"
  by (simp add: span_def)

lemma length_ring_get [simp]: "length (ring_get ring m p n) = n"
  by (simp add: ring_get_def)

lemma ring_get_add: "ring_get ring m p (a + b) = ring_get ring m p a @ ring_get ring m (p + a) b"
  by (rule nth_equalityI) (auto simp: ring_get_def nth_append ac_simps)

lemma ring_get_cong:
  "(\<And>k. k < n \<Longrightarrow> m ((p + k) mod ring) = m' ((p + k) mod ring)) \<Longrightarrow> ring_get ring m p n = ring_get ring m' p n"
  by (simp add: ring_get_def)

lemma take_ring_get: "n \<le> k \<Longrightarrow> take n (ring_get ring m p k) = ring_get ring m p n"
  by (simp add: ring_get_def take_map)

lemma drop_ring_get: "n \<le> k \<Longrightarrow> drop n (ring_get ring m p k) = ring_get ring m (p + n) (k - n)"
  using ring_get_add [of ring m p n "k - n"] by simp

text \<open>Where a run from \<open>p\<close> lies: up to the ring's end as it is, past it from the start again.\<close>

lemma ring_offset:
  assumes "0 < (ring :: nat)" "k < ring"
  shows "(p + k) mod ring = (if k < ring - p mod ring then p mod ring + k else k - (ring - p mod ring))"
proof -
  have lt: "p mod ring < ring" using assms by simp
  have e: "(p + k) mod ring = (p mod ring + k) mod ring" by (simp add: mod_add_left_eq)
  show ?thesis
  proof (cases "p mod ring + k < ring")
    case True
    then have "k < ring - p mod ring" by simp
    then show ?thesis using True by (simp add: e)
  next
    case False
    moreover have "p mod ring + k - ring < ring" using assms(2) lt by linarith
    ultimately have "(p mod ring + k) mod ring = p mod ring + k - ring" by (simp add: le_mod_geq del: mod_add_left_eq)
    moreover have "\<not> k < ring - p mod ring" "p mod ring + k - ring = k - (ring - p mod ring)" using False lt by linarith+
    ultimately show ?thesis by (simp add: e)
  qed
qed

lemma ring_offset_inj:
  assumes "0 < (ring :: nat)" "i < ring" "j < ring" "(p + i) mod ring = (p + j) mod ring"
  shows "i = j"
  using assms mod_less_divisor [OF assms(1), of p] by (auto simp: ring_offset split: if_splits)

text \<open>A run that does not pass the end is one span; any run is at most two.\<close>

lemma span_is_ring_get:
  assumes "0 < ring" "n \<le> ring - p mod ring"
  shows "span m (p mod ring) n = ring_get ring m p n"
proof (rule nth_equalityI)
  fix k assume "k < length (span m (p mod ring) n)"
  moreover have "p mod ring < ring" using assms by simp
  ultimately show "span m (p mod ring) n ! k = ring_get ring m p n ! k"
    using assms by (simp add: span_def ring_get_def ring_offset)
qed simp

lemma spans_are_ring_get:
  assumes "0 < ring" "n \<le> ring" "f = min n (ring - p mod ring)"
  shows "span m (p mod ring) f @ span m 0 (n - f) = ring_get ring m p n"
proof (rule nth_equalityI)
  have lt: "p mod ring < ring" using assms by simp
  show "length (span m (p mod ring) f @ span m 0 (n - f)) = length (ring_get ring m p n)"
    using assms by simp
  fix k assume "k < length (span m (p mod ring) f @ span m 0 (n - f))"
  then show "(span m (p mod ring) f @ span m 0 (n - f)) ! k = ring_get ring m p n ! k"
    using assms lt by (auto simp: span_def ring_get_def ring_offset nth_append)
qed

text \<open>The memory after a run is copied in: its bytes where they lie, the rest as it was.\<close>

definition ring_set :: "nat \<Rightarrow> memory \<Rightarrow> nat \<Rightarrow> u8 list \<Rightarrow> memory \<Rightarrow> bool" where
  "ring_set ring m p bs m' \<longleftrightarrow>
     (\<forall>k<length bs. m' ((p + k) mod ring) = bs ! k) \<and>
     (\<forall>i. (\<forall>k<length bs. i \<noteq> (p + k) mod ring) \<longrightarrow> m' i = m i)"

lemma blit_is_ring_set:
  assumes "0 < ring" "length bs \<le> ring - p mod ring"
  shows "ring_set ring m p bs (blit m (p mod ring) bs)"
  unfolding ring_set_def
proof (intro conjI allI impI)
  have lt: "p mod ring < ring" using assms by simp
  fix k assume "k < length bs"
  then show "blit m (p mod ring) bs ((p + k) mod ring) = bs ! k"
    using assms lt by (simp add: blit_def ring_offset)
next
  have lt: "p mod ring < ring" using assms by simp
  fix i assume a: "\<forall>k<length bs. i \<noteq> (p + k) mod ring"
  show "blit m (p mod ring) bs i = m i"
  proof (rule ccontr)
    assume "blit m (p mod ring) bs i \<noteq> m i"
    then have r: "p mod ring \<le> i" "i < p mod ring + length bs" by (auto simp: blit_def split: if_splits)
    then obtain k where k: "i = p mod ring + k" "k < length bs" by (metis le_Suc_ex nat_add_left_cancel_less)
    with assms lt have "i = (p + k) mod ring" by (simp add: ring_offset)
    with a k show False by auto
  qed
qed

lemma blits_are_ring_set:
  assumes "0 < ring" "length bs \<le> ring" "f = min (length bs) (ring - p mod ring)"
  shows "ring_set ring m p bs (blit (blit m (p mod ring) (take f bs)) 0 (drop f bs))"
  unfolding ring_set_def
proof (intro conjI allI impI)
  have lt: "p mod ring < ring" using assms by simp
  fix k assume "k < length bs"
  then show "blit (blit m (p mod ring) (take f bs)) 0 (drop f bs) ((p + k) mod ring) = bs ! k"
    using assms lt by (auto simp: blit_def ring_offset min_def)
next
  have lt: "p mod ring < ring" using assms by simp
  fix i assume a: "\<forall>k<length bs. i \<noteq> (p + k) mod ring"
  let ?s = "ring - p mod ring"
  show "blit (blit m (p mod ring) (take f bs)) 0 (drop f bs) i = m i"
  proof (rule ccontr)
    assume "blit (blit m (p mod ring) (take f bs)) 0 (drop f bs) i \<noteq> m i"
    then consider "i < length bs - f" | "p mod ring \<le> i" "i < p mod ring + f"
      using assms(3) by (auto simp: blit_def split: if_splits)
    then have "\<exists>k<length bs. i = (p + k) mod ring"
    proof cases
      case 1
      then have f: "f = ring - p mod ring" "f + i < length bs" using assms by (auto simp: min_def split: if_splits)
      then have "i = (p + (f + i)) mod ring"
        using assms(2) by (subst ring_offset [OF assms(1)]) simp_all
      with f show ?thesis by blast
    next
      case 2
      then obtain k where k: "i = p mod ring + k" "k < f" by (metis le_Suc_ex nat_add_left_cancel_less)
      with assms lt have "i = (p + k) mod ring" by (simp add: ring_offset)
      with k assms(3) show ?thesis by auto
    qed
    with a show False by blast
  qed
qed

text \<open>So the run reads back, and a run before it that the ring still holds is untouched.\<close>

lemma ring_set_get: "ring_set ring m p bs m' \<Longrightarrow> ring_get ring m' p (length bs) = bs"
  by (rule nth_equalityI) (auto simp: ring_set_def ring_get_def)

lemma ring_set_other:
  assumes "0 < ring" "ring_set ring m p bs m'" "q + n \<le> p" "p + length bs \<le> q + ring"
  shows "ring_get ring m' q n = ring_get ring m q n"
proof (rule ring_get_cong)
  fix k assume k: "k < n"
  have "(q + k) mod ring \<noteq> (p + j) mod ring" if "j < length bs" for j
  proof
    assume "(q + k) mod ring = (p + j) mod ring"
    then have "(q + k) mod ring = (q + (p - q + j)) mod ring" using assms(3) by simp
    moreover have "k < ring" "p - q + j < ring" using assms(3,4) k that by auto
    ultimately have "k = p - q + j" using ring_offset_inj [OF assms(1)] by blast
    with assms(3) k show False by simp
  qed
  then show "m' ((q + k) mod ring) = m ((q + k) mod ring)" using assms(2) unfolding ring_set_def by metis
qed

section \<open>Positions\<close>

text \<open>Counters of a word's width over a ring that divides its range.\<close>

locale ring_positions =
  fixes ring :: nat
    and width :: "'w::len itself"
  assumes ring_pos: "0 < ring"
    and ring_dvd: "ring dvd 2 ^ LENGTH('w)"
    and ring_less: "ring < 2 ^ LENGTH('w)"
begin

lemma offset: "unat (of_nat p :: 'w word) mod ring = p mod ring"
  using ring_dvd by (simp add: unat_of_nat mod_mod_cancel)

lemma distance:
  assumes "t \<le> h" "h - t \<le> ring"
  shows "unat (of_nat h - of_nat t :: 'w word) = h - t"
proof -
  have "(of_nat h - of_nat t :: 'w word) = of_nat (h - t)" using assms(1) by (simp add: of_nat_diff)
  then show ?thesis using assms(2) ring_less by (simp add: unat_of_nat)
qed

lemma same_iff:
  assumes "t \<le> h" "h - t \<le> ring"
  shows "(of_nat h :: 'w word) = of_nat t \<longleftrightarrow> h = t"
  using distance [OF assms] assms by auto

lemma offset_less: "unat (p :: 'w word) mod ring < ring"
  using ring_pos by simp

end

end
