(* ===== verification/Framing.thy ===== *)
theory Framing
  imports Frames Ring_Buffers
begin

text \<open>
  Frames over any byte stream (\<open>guatiao-source-remote/src/transport/stream.rs\<close>), and the
  protocol's frames through it. The stream below is what the standard library's \<open>Read\<close> and
  \<open>Write\<close> leave to an implementation: a read answers some of the bytes that come, none at the
  end, is interrupted or fails; a write takes some of the bytes offered, is interrupted or
  fails. The theorems hold for every such behaviour. Flushing is not modelled: it moves no byte of
  the stream.
\<close>

section \<open>Reading\<close>

text \<open>What the calls of \<open>read\<close> will find, in turn: bytes, an interruption or a failure; the end
  of the stream once there is no more.\<close>

datatype read_event = Bytes "u8 list" | ReadInterrupted | ReadFails io_error

datatype read_answer = Got "u8 list" | Again | ReadErr io_error

fun stream_read :: "nat \<Rightarrow> read_event list \<Rightarrow> read_answer \<times> read_event list" where
  "stream_read k [] = (Got [], [])"
| "stream_read k (Bytes c # es) = (Got (take k c), if length c \<le> k then es else Bytes (drop k c) # es)"
| "stream_read k (ReadInterrupted # es) = (Again, es)"
| "stream_read k (ReadFails e # es) = (ReadErr e, es)"

fun event_weight :: "read_event \<Rightarrow> nat" where
  "event_weight (Bytes c) = 1 + length c"
| "event_weight e = 1"

definition stream_weight :: "read_event list \<Rightarrow> nat" where
  "stream_weight es = sum_list (map event_weight es)"

lemma stream_read_weight:
  "stream_read k es = (Got (b # bs), es') \<Longrightarrow> stream_weight es' < stream_weight es"
  "stream_read k es = (Again, es') \<Longrightarrow> stream_weight es' < stream_weight es"
proof -
  assume a: "stream_read k es = (Got (b # bs), es')"
  then obtain c es0 where c: "es = Bytes c # es0" "take k c = b # bs" by (cases "(k, es)" rule: stream_read.cases) auto
  then have "0 < k" "c \<noteq> []" by (cases k; auto)+
  then show "stream_weight es' < stream_weight es" using a c(1) by (auto simp: stream_weight_def)
next
  assume "stream_read k es = (Again, es')"
  then show "stream_weight es' < stream_weight es"
    by (cases "(k, es)" rule: stream_read.cases) (auto simp: stream_weight_def)
qed

text \<open>The loop that reads a frame's length: an end before its first byte is a clean one.\<close>

function read_header :: "u8 list \<Rightarrow> read_event list \<Rightarrow> (io_error + u8 list option) \<times> read_event list" where
  "read_header got es =
     (if 4 \<le> length got then (Inr (Some got), es)
      else case stream_read (4 - length got) es of
        (Got [], es') \<Rightarrow> (if got = [] then Inr None else Inl UnexpectedEof, es')
      | (Got (b # bs), es') \<Rightarrow> read_header (got @ b # bs) es'
      | (Again, es') \<Rightarrow> read_header got es'
      | (ReadErr e, es') \<Rightarrow> (Inl e, es'))"
  by pat_completeness auto
termination
  by (relation "measure (\<lambda>(got, es). stream_weight es)") (auto dest: stream_read_weight [OF sym])

declare read_header.simps [simp del]

text \<open>\<open>read_exact\<close> for a buffer of \<open>n\<close> bytes.\<close>

function read_exact :: "nat \<Rightarrow> u8 list \<Rightarrow> read_event list \<Rightarrow> (io_error + u8 list) \<times> read_event list" where
  "read_exact n got es =
     (if n \<le> length got then (Inr got, es)
      else case stream_read (n - length got) es of
        (Got [], es') \<Rightarrow> (Inl UnexpectedEof, es')
      | (Got (b # bs), es') \<Rightarrow> read_exact n (got @ b # bs) es'
      | (Again, es') \<Rightarrow> read_exact n got es'
      | (ReadErr e, es') \<Rightarrow> (Inl e, es'))"
  by pat_completeness auto
termination
  by (relation "measure (\<lambda>(n, got, es). stream_weight es)") (auto dest: stream_read_weight [OF sym])

declare read_exact.simps [simp del]

definition read_frame :: "nat \<Rightarrow> read_event list \<Rightarrow> (io_error + u8 list option) \<times> read_event list" where
  "read_frame max' es =
     (case read_header [] es of
        (Inl e, es') \<Rightarrow> (Inl e, es')
      | (Inr None, es') \<Rightarrow> (Inr None, es')
      | (Inr (Some len), es') \<Rightarrow>
          let n = unat (from_le len :: u32) in
          if max' < n then (Inl InvalidData, es')
          else case read_exact n [] es' of
              (Inl e, es'') \<Rightarrow> (Inl e, es'')
            | (Inr b, es'') \<Rightarrow> (Inr (Some b), es''))"

text \<open>One frame after another.\<close>

fun read_frames :: "nat \<Rightarrow> nat \<Rightarrow> read_event list \<Rightarrow> (io_error + u8 list option) list" where
  "read_frames 0 max' es = []"
| "read_frames (Suc n) max' es = (let (r, es') = read_frame max' es in r # read_frames n max' es')"

section \<open>Writing\<close>

text \<open>What the calls of \<open>write\<close> will do, in turn; once there is no more, a call takes all it is
  offered.\<close>

datatype write_event = Took nat | WriteInterrupted | WriteFails io_error

datatype write_error = WriteZero | WriteErr io_error

fun advance_slices :: "nat \<Rightarrow> u8 list list \<Rightarrow> u8 list list" where
  "advance_slices n [] = []"
| "advance_slices n (b # bs) = (if length b \<le> n then advance_slices (n - length b) bs else drop n b # bs)"

text \<open>The loops of \<open>write_all\<close> and of \<open>write_frames\<close>, with what the stream has taken.\<close>

fun write_all :: "u8 list \<Rightarrow> write_event list \<Rightarrow> u8 list \<Rightarrow> (write_error + unit) \<times> write_event list \<times> u8 list" where
  "write_all buf [] out = (Inr (), [], out @ buf)"
| "write_all buf (e # es) out =
     (if buf = [] then (Inr (), e # es, out)
      else case e of
        Took n \<Rightarrow> let n = min n (length buf) in
          if n = 0 then (Inl WriteZero, es, out) else write_all (drop n buf) es (out @ take n buf)
      | WriteInterrupted \<Rightarrow> write_all buf es out
      | WriteFails k \<Rightarrow> (Inl (WriteErr k), es, out))"

fun write_loop :: "u8 list list \<Rightarrow> write_event list \<Rightarrow> u8 list \<Rightarrow> (write_error + unit) \<times> write_event list \<times> u8 list" where
  "write_loop lft [] out = (Inr (), [], out @ concat lft)"
| "write_loop lft (e # es) out =
     (if lft = [] then (Inr (), e # es, out)
      else case e of
        Took n \<Rightarrow> let n = min n (length (concat lft)) in
          if n = 0 then (Inl WriteZero, es, out)
          else write_loop (advance_slices n lft) es (out @ take n (concat lft))
      | WriteInterrupted \<Rightarrow> write_loop lft es out
      | WriteFails k \<Rightarrow> (Inl (WriteErr k), es, out))"

definition write_frames :: "u8 list list \<Rightarrow> write_event list \<Rightarrow> u8 list \<Rightarrow> (write_error + unit) \<times> write_event list \<times> u8 list" where
  "write_frames frames es out =
     (case frames of
        [frame] \<Rightarrow> write_all frame es out
      | _ \<Rightarrow> write_loop (advance_slices 0 frames) es out)"

definition write_frame_parts :: "u8 list \<Rightarrow> u8 list \<Rightarrow> write_event list \<Rightarrow> u8 list \<Rightarrow> (write_error + unit) \<times> write_event list \<times> u8 list" where
  "write_frame_parts h t es out = write_frames [h, t] es out"

section \<open>What crosses\<close>

text \<open>A stream with bytes to come, in pieces, and no failure.\<close>

fun clean_event :: "read_event \<Rightarrow> bool" where
  "clean_event (Bytes c) \<longleftrightarrow> c \<noteq> []"
| "clean_event ReadInterrupted \<longleftrightarrow> True"
| "clean_event (ReadFails e) \<longleftrightarrow> False"

fun event_bytes :: "read_event \<Rightarrow> u8 list" where
  "event_bytes (Bytes c) = c"
| "event_bytes e = []"

definition clean :: "read_event list \<Rightarrow> bool" where
  "clean es \<longleftrightarrow> list_all clean_event es"

definition to_come :: "read_event list \<Rightarrow> u8 list" where
  "to_come es = concat (map event_bytes es)"

lemma stream_read_clean:
  assumes "clean es" "0 < k"
  obtains (again) es' where "clean es'" "stream_read k es = (Again, es')" "to_come es' = to_come es"
  | (ended) es' where "clean es'" "stream_read k es = (Got [], es')" "to_come es = []" "to_come es' = []"
  | (some) es' b bs where "clean es'" "stream_read k es = (Got (b # bs), es')" "length (b # bs) \<le> k"
      "to_come es = b # bs @ to_come es'"
proof (cases es)
  case Nil
  then show ?thesis using ended by (simp add: clean_def to_come_def)
next
  case (Cons e es0)
  then show ?thesis
  proof (cases e)
    case (Bytes c)
    with assms Cons obtain b bs where "take k c = b # bs" by (cases "take k c") (auto simp: clean_def)
    moreover have "length (take k c) \<le> k" by simp
    moreover have "to_come es = take k c @ to_come (if length c \<le> k then es0 else Bytes (drop k c) # es0)"
      using Cons Bytes by (auto simp: to_come_def)
    moreover have "clean (if length c \<le> k then es0 else Bytes (drop k c) # es0)"
      using assms(1) Cons Bytes by (auto simp: clean_def)
    ultimately show ?thesis using some Cons Bytes by auto
  next
    case ReadInterrupted
    then show ?thesis using again Cons assms(1) by (simp add: clean_def to_come_def)
  qed (use assms(1) Cons in \<open>simp add: clean_def\<close>)
qed

definition header_of :: "u8 list \<Rightarrow> io_error + u8 list option" where
  "header_of xs = (if 4 \<le> length xs then Inr (Some (take 4 xs)) else if xs = [] then Inr None else Inl UnexpectedEof)"

definition exact_of :: "nat \<Rightarrow> u8 list \<Rightarrow> io_error + u8 list" where
  "exact_of n xs = (if n \<le> length xs then Inr (take n xs) else Inl UnexpectedEof)"

lemma read_header_clean:
  "clean es \<Longrightarrow> length got \<le> 4 \<Longrightarrow>
   \<exists>es'. clean es' \<and> read_header got es = (header_of (got @ to_come es), es') \<and> to_come es' = drop 4 (got @ to_come es)"
proof (induction got es rule: read_header.induct)
  case (1 got es)
  show ?case
  proof (cases "length got = 4")
    case True
    then show ?thesis using "1.prems"(1) by (intro exI [of _ es]) (simp add: read_header.simps [of got es] header_of_def)
  next
    case False
    then have k: "0 < 4 - length got" "\<not> 4 \<le> length got" using "1.prems"(2) by auto
    from "1.prems"(1) k(1) show ?thesis
    proof (cases rule: stream_read_clean)
      case (again es')
      have "read_header got es = read_header got es'" using k again(2) by (simp add: read_header.simps [of got es])
      then show ?thesis using "1.IH"(2) [OF k(2) again(2) [symmetric] refl again(1) "1.prems"(2)] unfolding again(3) by simp
    next
      case (ended es')
      then show ?thesis using k by (intro exI [of _ es']) (simp add: read_header.simps [of got es] header_of_def)
    next
      case (some es' b bs)
      have e: "read_header got es = read_header (got @ b # bs) es'" using k some(2) by (simp add: read_header.simps [of got es])
      have "length (got @ b # bs) \<le> 4" using some(3) k(2) by simp
      from "1.IH"(1) [OF k(2) some(2) [symmetric] refl refl some(1) this] show ?thesis unfolding e some(4) by simp
    qed
  qed
qed

lemma read_exact_clean:
  "clean es \<Longrightarrow> length got \<le> n \<Longrightarrow>
   \<exists>es'. clean es' \<and> read_exact n got es = (exact_of n (got @ to_come es), es') \<and> to_come es' = drop n (got @ to_come es)"
proof (induction n got es rule: read_exact.induct)
  case (1 n got es)
  show ?case
  proof (cases "length got = n")
    case True
    then show ?thesis using "1.prems"(1) by (intro exI [of _ es]) (simp add: read_exact.simps [of n got es] exact_of_def)
  next
    case False
    then have k: "0 < n - length got" "\<not> n \<le> length got" using "1.prems"(2) by auto
    from "1.prems"(1) k(1) show ?thesis
    proof (cases rule: stream_read_clean)
      case (again es')
      have "read_exact n got es = read_exact n got es'" using k again(2) by (simp add: read_exact.simps [of n got es])
      then show ?thesis using "1.IH"(2) [OF k(2) again(2) [symmetric] refl again(1) "1.prems"(2)] unfolding again(3) by simp
    next
      case (ended es')
      then show ?thesis using k by (intro exI [of _ es']) (simp add: read_exact.simps [of n got es] exact_of_def)
    next
      case (some es' b bs)
      have e: "read_exact n got es = read_exact n (got @ b # bs) es'" using k some(2) by (simp add: read_exact.simps [of n got es])
      have "length (got @ b # bs) \<le> n" using some(3) k(2) by simp
      from "1.IH"(1) [OF k(2) some(2) [symmetric] refl refl some(1) this] show ?thesis unfolding e some(4) by simp
    qed
  qed
qed

text \<open>A frame on the stream: its length, then its body.\<close>

definition framed :: "u8 list \<Rightarrow> u8 list" where
  "framed b = to_le 4 (of_nat (length b) :: u32) @ b"

lemma read_frame_clean:
  assumes "clean es"
  shows "\<exists>es'. clean es' \<and> read_frame max' es =
    (case header_of (to_come es) of
       Inl e \<Rightarrow> Inl e
     | Inr None \<Rightarrow> Inr None
     | Inr (Some len) \<Rightarrow>
         let n = unat (from_le len :: u32) in
         if max' < n then Inl InvalidData
         else (case exact_of n (drop 4 (to_come es)) of Inl e \<Rightarrow> Inl e | Inr b \<Rightarrow> Inr (Some b)), es') \<and>
    (\<forall>len n. header_of (to_come es) = Inr (Some len) \<longrightarrow> n = unat (from_le len :: u32) \<longrightarrow> n \<le> max' \<longrightarrow>
       to_come es' = drop n (drop 4 (to_come es)))"
proof -
  obtain es1 where h: "clean es1" "read_header [] es = (header_of (to_come es), es1)" "to_come es1 = drop 4 (to_come es)"
    using read_header_clean [OF assms, of "[]"] by auto
  show ?thesis
  proof (cases "header_of (to_come es)")
    case (Inl e)
    then show ?thesis using h by (intro exI [of _ es1]) (simp add: read_frame_def)
  next
    case (Inr o')
    show ?thesis
    proof (cases o')
      case None
      then show ?thesis using h Inr by (intro exI [of _ es1]) (simp add: read_frame_def)
    next
      case (Some len)
      define n where "n = unat (from_le len :: u32)"
      obtain es2 where x: "clean es2" "read_exact n [] es1 = (exact_of n (to_come es1), es2)" "to_come es2 = drop n (to_come es1)"
        using read_exact_clean [OF h(1), of "[]" n] by auto
      then show ?thesis
        using h Inr Some n_def
        by (cases "max' < n"; cases "exact_of n (to_come es1)")
           (auto simp: read_frame_def Let_def intro!: exI [of _ es1] exI [of _ es2])
    qed
  qed
qed

lemma unat_from_le_length: "length b < 2 ^ 32 \<Longrightarrow> unat (from_le (to_le 4 (of_nat (length b) :: u32)) :: u32) = length b"
  by (simp add: from_le_to_le_32 unat_of_nat)

lemma read_one:
  assumes "clean es" "to_come es = framed b @ ys" "length b \<le> max'" "length b < 2 ^ 32"
  shows "\<exists>es'. read_frame max' es = (Inr (Some b), es') \<and> clean es' \<and> to_come es' = ys"
proof -
  have h: "header_of (to_come es) = Inr (Some (to_le 4 (of_nat (length b) :: u32)))" "drop 4 (to_come es) = b @ ys"
    by (simp_all add: header_of_def assms(2) framed_def)
  then show ?thesis using read_frame_clean [OF assms(1), of max'] assms(3,4)
    by (auto simp: unat_from_le_length exact_of_def Let_def)
qed

lemma read_frames_framed:
  "clean es \<Longrightarrow> to_come es = concat (map framed bs) \<Longrightarrow> \<forall>b\<in>set bs. length b \<le> max' \<and> length b < 2 ^ 32 \<Longrightarrow>
   read_frames (Suc (length bs)) max' es = map (\<lambda>b. Inr (Some b)) bs @ [Inr None]"
proof (induction bs arbitrary: es)
  case Nil
  then have "read_frame max' es = (Inr None, snd (read_frame max' es))"
    using read_frame_clean [of es max'] by (auto simp: header_of_def)
  then show ?case by (simp add: case_prod_unfold) (metis fst_conv)
next
  case (Cons b bs)
  obtain es' where "read_frame max' es = (Inr (Some b), es')" "clean es'" "to_come es' = concat (map framed bs)"
    using read_one [OF Cons.prems(1), of b "concat (map framed bs)" max'] Cons.prems(2,3) by auto
  then show ?case using Cons.IH [of es'] Cons.prems(3) by simp
qed

text \<open>However the bytes of whole frames come in (in what pieces, interrupted or not), the frames
  are read back one by one, and then a clean end.\<close>

theorem frames_survive_any_pieces:
  assumes "clean es" "to_come es = concat (map framed bs)" "\<forall>b\<in>set bs. length b \<le> max' \<and> length b < 2 ^ 32"
  shows "read_frames (Suc (length bs)) max' es = map (\<lambda>b. Inr (Some b)) bs @ [Inr None]"
  using assms by (rule read_frames_framed)

theorem frames_survive_any_pieces_witness:
  "read_frames 3 10 [Bytes [2, 0], ReadInterrupted, Bytes [0, 0, 7], Bytes [9, 0, 0, 0, 0]] =
     [Inr (Some [7, 9]), Inr (Some []), Inr None]"
proof -
  let ?es = "[Bytes [2, 0], ReadInterrupted, Bytes [0, 0, 7], Bytes [9, 0, 0, 0, 0]]"
  have f: "framed [7, 9] = [2, 0, 0, 0, 7, 9]" "framed [] = [0, 0, 0, 0]" by code_simp+
  have "read_frames (Suc (length [[7, 9 :: u8], []])) 10 ?es = map (\<lambda>b. Inr (Some b)) [[7, 9], []] @ [Inr None]"
    by (rule frames_survive_any_pieces) (simp_all add: clean_def to_come_def f)
  moreover have "Suc (length [[7, 9 :: u8], []]) = 3" by simp
  ultimately show ?thesis by (simp only: list.map append.simps)
qed



text \<open>The writer.\<close>

lemma advance_slices_concat: "n \<le> length (concat bs) \<Longrightarrow> concat (advance_slices n bs) = drop n (concat bs)"
  by (induction n bs rule: advance_slices.induct) auto

lemma advance_slices_front: "advance_slices n bs = b # bs' \<Longrightarrow> b \<noteq> []"
  by (induction n bs rule: advance_slices.induct) (auto split: if_splits)

fun write_clean :: "write_event \<Rightarrow> bool" where
  "write_clean (Took n) \<longleftrightarrow> 0 < n"
| "write_clean WriteInterrupted \<longleftrightarrow> True"
| "write_clean (WriteFails e) \<longleftrightarrow> False"

lemma write_all_out:
  "write_all buf es out = (r, es', out') \<Longrightarrow>
   (\<exists>w. out' = out @ w \<and> prefix w buf \<and> (r = Inr () \<longrightarrow> w = buf)) \<and> (list_all write_clean es \<longrightarrow> r = Inr ())"
proof (induction buf es out rule: write_all.induct)
  case (2 buf e es out)
  show ?case
  proof (cases "buf = []")
    case False
    show ?thesis
    proof (cases e)
      case (Took n)
      show ?thesis
      proof (cases "min n (length buf) = 0")
        case True
        then have "n = 0" using False by (auto simp: min_def split: if_splits)
        then show ?thesis using 2 False Took True by auto
      next
        case nz: False
        let ?n = "min n (length buf)"
        have "write_all (drop ?n buf) es (out @ take ?n buf) = (r, es', out')"
          using 2(3) False Took nz by (simp add: Let_def)
        from "2.IH"(1) [OF False Took refl nz this] obtain w where
          w: "out' = (out @ take ?n buf) @ w" "prefix w (drop ?n buf)" "r = Inr () \<longrightarrow> w = drop ?n buf"
          "list_all write_clean es \<longrightarrow> r = Inr ()" by blast
        have "prefix (take ?n buf @ w) buf" using w(2) by (metis append_take_drop_id same_prefix_prefix)
        moreover have "r = Inr () \<longrightarrow> take ?n buf @ w = buf" using w(3) by (metis append_take_drop_id)
        ultimately show ?thesis using w(1,4) by (intro conjI exI [of _ "take ?n buf @ w"]) auto
      qed
    qed (use 2 False in auto)
  qed (use 2 in auto)
qed auto

lemma write_loop_out:
  "write_loop lft es out = (r, es', out') \<Longrightarrow> (\<forall>b bs. lft = b # bs \<longrightarrow> b \<noteq> []) \<Longrightarrow>
   (\<exists>w. out' = out @ w \<and> prefix w (concat lft) \<and> (r = Inr () \<longrightarrow> w = concat lft)) \<and> (list_all write_clean es \<longrightarrow> r = Inr ())"
proof (induction lft es out rule: write_loop.induct)
  case (2 lft e es out)
  show ?case
  proof (cases "lft = []")
    case False
    show ?thesis
    proof (cases e)
      case (Took n)
      let ?n = "min n (length (concat lft))"
      show ?thesis
      proof (cases "?n = 0")
        case True
        then have "n = 0" using "2.prems"(2) False by (cases lft) (auto simp: min_def split: if_splits)
        then show ?thesis using 2 False Took True by auto
      next
        case nz: False
        have s: "write_loop (advance_slices ?n lft) es (out @ take ?n (concat lft)) = (r, es', out')"
          using 2(3) False Took nz by (simp add: Let_def)
        have c: "concat (advance_slices ?n lft) = drop ?n (concat lft)" by (intro advance_slices_concat) simp
        have "\<forall>b bs. advance_slices ?n lft = b # bs \<longrightarrow> b \<noteq> []" using advance_slices_front by blast
        from "2.IH"(1) [OF False Took refl nz s this] obtain w where
          w: "out' = (out @ take ?n (concat lft)) @ w" "prefix w (drop ?n (concat lft))"
          "r = Inr () \<longrightarrow> w = drop ?n (concat lft)" "list_all write_clean es \<longrightarrow> r = Inr ()" unfolding c by blast
        have "prefix (take ?n (concat lft) @ w) (concat lft)" using w(2) by (metis append_take_drop_id same_prefix_prefix)
        moreover have "r = Inr () \<longrightarrow> take ?n (concat lft) @ w = concat lft" using w(3) by (metis append_take_drop_id)
        ultimately show ?thesis using w(1,4) by (intro conjI exI [of _ "take ?n (concat lft) @ w"]) auto
      qed
    qed (use 2 False in auto)
  qed (use 2 in auto)
qed auto

lemma write_frames_out:
  assumes "write_frames frames es out = (r, es', out')"
  shows "(\<exists>w. out' = out @ w \<and> prefix w (concat frames) \<and> (r = Inr () \<longrightarrow> w = concat frames)) \<and>
    (list_all write_clean es \<longrightarrow> r = Inr ())"
proof -
  consider b where "frames = [b]" | "write_frames frames es out = write_loop (advance_slices 0 frames) es out"
    by (cases frames rule: remdups_adj.cases) (auto simp: write_frames_def)
  then show ?thesis
  proof cases
    case 1
    then show ?thesis using assms write_all_out [of b es out r es' out'] by (simp add: write_frames_def)
  next
    case 2
    have "concat (advance_slices 0 frames) = concat frames" using advance_slices_concat [of 0 frames] by simp
    moreover have "\<forall>b bs. advance_slices 0 frames = b # bs \<longrightarrow> b \<noteq> []" using advance_slices_front by blast
    ultimately show ?thesis using assms 2 write_loop_out [of "advance_slices 0 frames" es out r es' out'] by simp
  qed
qed

lemma writes_all: "write_frames frames es out = (r, es', out') \<Longrightarrow> list_all write_clean es \<Longrightarrow> out' = out @ concat frames"
  using write_frames_out by blast

text \<open>What the writer has put on the stream is a first part of the frames it was given, all of
  them when it answers success, which it does whenever the stream takes some of what it is offered
  and does not fail.\<close>

theorem writers_put_the_frames_in_order:
  assumes "write_frames frames es out = (r, es', out')"
  shows "(\<exists>w. out' = out @ w \<and> prefix w (concat frames) \<and> (r = Inr () \<longrightarrow> w = concat frames)) \<and>
    (list_all write_clean es \<longrightarrow> r = Inr ())"
  using assms by (rule write_frames_out)

theorem writers_put_the_frames_in_order_witness:
  "\<exists>w. [1, 2, 3] = [] @ w \<and> prefix w (concat [[1, 2], [], [3 :: u8]])"
proof -
  have "write_frames [[1, 2], [], [3]] [Took 1, WriteInterrupted, Took 5] [] = (Inr (), [], [1, 2, 3])" by code_simp
  from writers_put_the_frames_in_order [OF this] show ?thesis by blast
qed

section \<open>The protocol over a stream\<close>

lemma encoded_is_framed:
  "message_ok m \<Longrightarrow> length (spelt m) \<le> max' \<Longrightarrow> length (spelt m) < 2 ^ 32 \<Longrightarrow>
   message_encode m [] max' = Inr (framed (spelt m))"
  using frame_encoded [of m max' "[]"] by (simp add: framed_def)

text \<open>C10: the protocol crosses a stream whole: frames encoded one by one, written together through
  a writer that takes what it likes, and read from a reader that gives what it likes, decode to the
  messages that were sent, in order, and then a clean end.\<close>

theorem messages_cross_a_stream:
  assumes "\<forall>m\<in>set ms. message_ok m \<and> length (spelt m) \<le> max' \<and> length (spelt m) < 2 ^ 32"
    and "map (\<lambda>m. message_encode m [] max') ms = map Inr fs"
    and "list_all write_clean ws" "write_frames fs ws [] = (r, ws', out)"
    and "clean es" "to_come es = out"
  shows "\<exists>bodies. read_frames (Suc (length ms)) max' es = map (\<lambda>b. Inr (Some b)) bodies @ [Inr None] \<and>
    map (message_decode drawn) bodies = map Inr ms"
proof -
  have "map (\<lambda>m. message_encode m [] max') ms = map (\<lambda>m. Inr (framed (spelt m))) ms"
    using assms(1) by (intro map_cong refl encoded_is_framed) auto
  then have "map (Inr :: u8 list \<Rightarrow> protocol_error + u8 list) fs = map Inr (map (\<lambda>m. framed (spelt m)) ms)" unfolding assms(2) by (simp add: comp_def)
  then have fs: "fs = map (\<lambda>m. framed (spelt m)) ms" by (rule map_injective) (simp add: inj_def)
  have "out = concat fs" using writes_all [OF assms(4,3)] by simp
  then have "to_come es = concat (map framed (map spelt ms))" using assms(6) fs by (simp add: comp_def)
  then have "read_frames (Suc (length (map spelt ms))) max' es = map (\<lambda>b. Inr (Some b)) (map spelt ms) @ [Inr None]"
    using assms(1,5) by (intro read_frames_framed) auto
  moreover have "map (message_decode drawn) (map spelt ms) = map Inr ms"
    using assms(1) by (simp add: message_decode_complete)
  ultimately show ?thesis by (intro exI [of _ "map spelt ms"]) simp
qed

theorem messages_cross_a_stream_witness:
  "\<exists>bodies. read_frames 2 10 [Bytes [2, 0, 0], Bytes [0, 0x14, 5]] = map (\<lambda>b. Inr (Some b)) bodies @ [Inr None] \<and>
     map (message_decode (3, 5)) bodies = map Inr [Ping 5]"
proof -
  have l: "enc_len 5 = [5]" by code_simp
  then have s: "spelt (Ping 5) = [0x14, 5]" by simp
  have f: "framed [0x14, 5] = [2, 0, 0, 0, 0x14, 5]" by code_simp
  have e: "message_encode (Ping 5) [] 10 = Inr [2, 0, 0, 0, 0x14, 5]"
    using encoded_is_framed [of "Ping 5" 10] unfolding s f by simp
  have w: "write_frames [[2, 0, 0, 0, 0x14, 5]] [Took 4] [] = (Inr (), [], [2, 0, 0, 0, 0x14, 5])" by code_simp
  have "\<exists>bodies. read_frames (Suc (length [Ping 5])) 10 [Bytes [2, 0, 0], Bytes [0, 0x14, 5]] =
      map (\<lambda>b. Inr (Some b)) bodies @ [Inr None] \<and> map (message_decode (3, 5)) bodies = map Inr [Ping 5]"
    by (rule messages_cross_a_stream [OF _ _ _ w]) (simp_all add: l e clean_def to_come_def)
  then show ?thesis by (simp add: numeral_2_eq_2)
qed

end
