(* ===== verification/Handshake.thy ===== *)
theory Handshake
  imports Convert Framing
begin

text \<open>
  The first messages of a remote link (\<open>guatiao-source-remote/src/link/handshake.rs\<close> and, of
  \<open>link/mod.rs\<close>, \<open>LinkOptions\<close>, \<open>Link::client\<close>, \<open>Link::server\<close> and what \<open>Link::start\<close>
  settles), in a build with the feature \<open>tcp\<close>. The two ends run over the byte streams of
  \<open>Framing\<close>; what the operating system answers a call that sets a timeout, and whether the
  transport proved the peer, are the connection's. HMAC-SHA256 and SHA-256 are third-party code
  and an argument here. The words a refusal carries are an argument too.
\<close>

section \<open>Proofs and tokens\<close>

text \<open>What the code uses of the crates \<open>hmac\<close> and \<open>sha2\<close>: the code of a message under a key,
  whether given bytes are that code, and the digest.\<close>

record crypto =
  hmac :: "u8 list \<Rightarrow> u8 list \<Rightarrow> u8 list"
  hmac_verify :: "u8 list \<Rightarrow> u8 list \<Rightarrow> u8 list \<Rightarrow> bool"
  sha256 :: "u8 list \<Rightarrow> u8 list"

text \<open>What those crates document: a code and a digest are 32 bytes, and \<open>verify_slice\<close> accepts the
  code and nothing else.\<close>

definition crypto_ok :: "crypto \<Rightarrow> bool" where
  "crypto_ok C \<longleftrightarrow> (\<forall>key msg given. hmac_verify C key msg given \<longleftrightarrow> given = hmac C key msg) \<and>
     (\<forall>key msg. length (hmac C key msg) = 32) \<and> (\<forall>msg. length (sha256 C msg) = 32)"

definition SERVER :: "u8 list" where "SERVER = as_bytes ''guatiao-remote server''"
definition CLIENT :: "u8 list" where "CLIENT = as_bytes ''guatiao-remote client''"

definition key_proof :: "crypto \<Rightarrow> u8 list \<Rightarrow> u8 list \<Rightarrow> u8 list \<Rightarrow> u8 list \<Rightarrow> u8 list" where
  "key_proof C key label client server = hmac C key (label @ client @ server)"

definition proves :: "crypto \<Rightarrow> u8 list \<Rightarrow> u8 list \<Rightarrow> u8 list \<Rightarrow> u8 list \<Rightarrow> u8 list \<Rightarrow> bool" where
  "proves C key label client server given = hmac_verify C key (label @ client @ server) given"

definition same :: "u8 list \<Rightarrow> u8 list \<Rightarrow> bool" where
  "same a b \<longleftrightarrow> length a = length b \<and> fold (\<lambda>(x, y) acc. acc OR (x XOR y)) (zip a b) 0 = 0"

text \<open>\<open>Required\<close> is the digest of the token.\<close>

definition required_new :: "crypto \<Rightarrow> str \<Rightarrow> u8 list" where
  "required_new C token = sha256 C (as_bytes token)"

definition required_is :: "crypto \<Rightarrow> u8 list \<Rightarrow> u8 list \<Rightarrow> bool" where
  "required_is C required given = same (sha256 C given) required"

definition admits :: "crypto \<Rightarrow> u8 list \<Rightarrow> str option \<Rightarrow> bool" where
  "admits C required given = (case given of None \<Rightarrow> False | Some t \<Rightarrow> required_is C required (as_bytes t))"

text \<open>Text that is white space alone: \<open>trim\<close> leaves nothing of it. The characters are those Unicode
  gives the property White\_Space, in UTF-8.\<close>

fun white :: "u8 list \<Rightarrow> bool" where
  "white [] \<longleftrightarrow> True"
| "white (a # r) \<longleftrightarrow>
     (if 0x09 \<le> a \<and> a \<le> 0x0D \<or> a = 0x20 then white r
      else if a = 0xC2 then (case r of b # r1 \<Rightarrow> (b = 0x85 \<or> b = 0xA0) \<and> white r1 | _ \<Rightarrow> False)
      else if a = 0xE1 then (case r of b # c # r2 \<Rightarrow> b = 0x9A \<and> c = 0x80 \<and> white r2 | _ \<Rightarrow> False)
      else if a = 0xE2 then
        (case r of b # c # r2 \<Rightarrow>
           (b = 0x80 \<and> (0x80 \<le> c \<and> c \<le> 0x8A \<or> c = 0xA8 \<or> c = 0xA9 \<or> c = 0xAF) \<or> b = 0x81 \<and> c = 0x9F) \<and> white r2
         | _ \<Rightarrow> False)
      else if a = 0xE3 then (case r of b # c # r2 \<Rightarrow> b = 0x80 \<and> c = 0x80 \<and> white r2 | _ \<Rightarrow> False)
      else False)"

definition blank :: "str \<Rightarrow> bool" where
  "blank token \<longleftrightarrow> white (as_bytes token)"

section \<open>Offers\<close>

record offer =
  of_frame :: nat
  of_calls :: nat
  of_token :: "str option"

definition offer_to_value :: "offer \<Rightarrow> Value" where
  "offer_to_value f =
     (let m = map_set [] ''max_frame'' (VNumber (show_int (int (of_frame f))));
          m = map_set m ''max_calls'' (VNumber (show_int (int (of_calls f))))
      in VMap (case of_token f of Some t \<Rightarrow> map_set m ''token'' (VString t) | None \<Rightarrow> m))"

text \<open>A number that is missing, or not a \<open>u64\<close>, is the fallback's.\<close>

definition offer_number :: "map_entries option \<Rightarrow> str \<Rightarrow> nat \<Rightarrow> nat" where
  "offer_number es key other =
     (case Option.bind es (\<lambda>m. map_get m key) of
        Some v \<Rightarrow> (case integer_from_value False 64 v of Inr n \<Rightarrow> nat n | Inl _ \<Rightarrow> other)
      | None \<Rightarrow> other)"

definition offer_from_value :: "Value \<Rightarrow> offer \<Rightarrow> offer" where
  "offer_from_value v fallback =
     (let es = as_map v
      in \<lparr>of_frame = offer_number es ''max_frame'' (of_frame fallback),
          of_calls = offer_number es ''max_calls'' (of_calls fallback),
          of_token = Option.bind (Option.bind es (\<lambda>m. map_get m ''token'')) as_text\<rparr>)"

section \<open>Options\<close>

definition HANDSHAKE_MAX_FRAME :: nat where "HANDSHAKE_MAX_FRAME = 65536"
definition DEFAULT_MAX_FRAME :: nat where "DEFAULT_MAX_FRAME = 67108864"
definition DEFAULT_MAX_CALLS :: nat where "DEFAULT_MAX_CALLS = 64"
definition READ_AHEAD :: nat where "READ_AHEAD = 64"

record link_options =
  lo_trust :: trust
  lo_key :: "u8 list option"
  lo_token :: "str option"
  lo_required :: "u8 list option"
  lo_max_frame :: nat
  lo_max_calls :: nat
  lo_timeout :: "duration option"
  lo_handshake_timeout :: duration
  lo_spin :: duration

definition options_new :: "trust \<Rightarrow> link_options" where
  "options_new t = \<lparr>lo_trust = t, lo_key = None, lo_token = None, lo_required = None,
     lo_max_frame = DEFAULT_MAX_FRAME, lo_max_calls = DEFAULT_MAX_CALLS, lo_timeout = Some (30, 0),
     lo_handshake_timeout = (10, 0), lo_spin = (0, 200000)\<rparr>"

definition options_key :: "u8 list \<Rightarrow> link_options \<Rightarrow> link_options" where
  "options_key key opts = opts\<lparr>lo_key := Some key\<rparr>"

definition options_token :: "crypto \<Rightarrow> str \<Rightarrow> link_options \<Rightarrow> link_options" where
  "options_token C token opts = opts\<lparr>lo_token := Some token, lo_required := Some (required_new C token)\<rparr>"

definition options_max_frame :: "nat \<Rightarrow> link_options \<Rightarrow> link_options" where
  "options_max_frame n opts = opts\<lparr>lo_max_frame := min (max n HANDSHAKE_MAX_FRAME) (2 ^ 32 - 1)\<rparr>"

definition options_max_calls :: "nat \<Rightarrow> link_options \<Rightarrow> link_options" where
  "options_max_calls n opts = opts\<lparr>lo_max_calls := max n 1\<rparr>"

definition options_timeout :: "duration option \<Rightarrow> link_options \<Rightarrow> link_options" where
  "options_timeout t opts = opts\<lparr>lo_timeout := t\<rparr>"

definition options_handshake_timeout :: "duration \<Rightarrow> link_options \<Rightarrow> link_options" where
  "options_handshake_timeout t opts = opts\<lparr>lo_handshake_timeout := t\<rparr>"

definition options_spin :: "duration \<Rightarrow> link_options \<Rightarrow> link_options" where
  "options_spin d opts = opts\<lparr>lo_spin := d\<rparr>"

definition proves_key :: "link_options \<Rightarrow> bool" where
  "proves_key opts =
     (case lo_trust opts of Trusted \<Rightarrow> True | ServerTls \<Rightarrow> lo_key opts \<noteq> None | _ \<Rightarrow> False)"

section \<open>The connection\<close>

text \<open>What a side does to its connection besides reading, in order.\<close>

datatype deed =
    ReadTimeout "duration option" | WriteTimeout "duration option"
  | MaxFrame nat | MaxFrameAfter nat nat | ReadAhead nat | PeerMaxFrame nat
  | Sent message | Shutdown

text \<open>The reader's and the writer's streams, what the stream has taken, what the calls that set a
  timeout will answer (success once the list is out), and what the transport proved of the peer.\<close>

record conn =
  cn_reads :: "read_event list"
  cn_writes :: "write_event list"
  cn_sent :: "u8 list"
  cn_sets :: "io_error option list"
  cn_peer_id :: "str option"
  cn_encrypted :: bool
  cn_did :: "deed list"

datatype reason =
    OtherLevel trust trust | NoPeerProof | NotEncrypted | NeitherKeyNorToken | BlankToken
  | NoHello | Malformed protocol_error | OtherToken | OtherKey

datatype link_error = LinkIo write_error | LinkProtocol protocol_error | LinkRefused u32 str | LinkTrust

text \<open>\<open>From<io::Error>\<close>: a denied permission is a failure of trust.\<close>

definition link_io :: "write_error \<Rightarrow> link_error" where
  "link_io e = (if e = WriteErr PermissionDenied then LinkTrust else LinkIo e)"

fun do_then :: "(link_error + 'a) \<times> conn \<Rightarrow> ('a \<Rightarrow> conn \<Rightarrow> (link_error + 'b) \<times> conn) \<Rightarrow> (link_error + 'b) \<times> conn" where
  "do_then (Inl e, c) f = (Inl e, c)"
| "do_then (Inr a, c) f = f a c"

definition deed_done :: "deed \<Rightarrow> conn \<Rightarrow> conn" where
  "deed_done d c = c\<lparr>cn_did := cn_did c @ [d]\<rparr>"

definition set_timeout :: "deed \<Rightarrow> conn \<Rightarrow> (link_error + unit) \<times> conn" where
  "set_timeout d c =
     (case cn_sets c of
        Some e # rs \<Rightarrow> (Inl (link_io (WriteErr e)), c\<lparr>cn_sets := rs\<rparr>)
      | None # rs \<Rightarrow> (Inr (), deed_done d (c\<lparr>cn_sets := rs\<rparr>))
      | [] \<Rightarrow> (Inr (), deed_done d c))"

definition read_handshake :: "conn \<Rightarrow> (link_error + u8 list) \<times> conn" where
  "read_handshake c =
     (case read_frame HANDSHAKE_MAX_FRAME (cn_reads c) of
        (Inl e, es) \<Rightarrow> (Inl (link_io (WriteErr e)), c\<lparr>cn_reads := es\<rparr>)
      | (Inr None, es) \<Rightarrow> (Inl (LinkIo (WriteErr UnexpectedEof)), c\<lparr>cn_reads := es\<rparr>)
      | (Inr (Some b), es) \<Rightarrow> (Inr b, c\<lparr>cn_reads := es\<rparr>))"

definition write_frame :: "message \<Rightarrow> conn \<Rightarrow> (link_error + unit) \<times> conn" where
  "write_frame m c =
     (case message_encode m [] (2 ^ 64 - 1) of
        Inl e \<Rightarrow> (Inl (LinkProtocol e), c)
      | Inr out \<Rightarrow>
          (case write_frames [out] (cn_writes c) (cn_sent c) of
             (Inl e, ws, sent) \<Rightarrow> (Inl (link_io e), c\<lparr>cn_writes := ws, cn_sent := sent\<rparr>)
           | (Inr _, ws, sent) \<Rightarrow> (Inr (), deed_done (Sent m) (c\<lparr>cn_writes := ws, cn_sent := sent\<rparr>))))"

definition refuse_link :: "(reason \<Rightarrow> str) \<Rightarrow> u32 \<Rightarrow> reason \<Rightarrow> conn \<Rightarrow> (link_error + 'a) \<times> conn" where
  "refuse_link say status why c =
     (Inl (LinkRefused status (say why)), deed_done Shutdown (snd (write_frame (Goodbye status (say why)) c)))"

definition trust_error :: "conn \<Rightarrow> (link_error + 'a) \<times> conn" where
  "trust_error c = (Inl LinkTrust, deed_done Shutdown c)"

definition ERR_BAD_VALUE :: u32 where "ERR_BAD_VALUE = 7"
definition ERR_UNSUPPORTED :: u32 where "ERR_UNSUPPORTED = 13"

text \<open>What a link that runs has settled with its peer.\<close>

record started =
  sd_read_max :: nat
  sd_send_max :: nat
  sd_permits :: nat
  sd_pool :: nat
  sd_timeout :: "duration option"
  sd_spin :: duration
  sd_trust :: trust
  sd_peer_id :: "str option"

definition link_start :: "link_options \<Rightarrow> offer \<Rightarrow> conn \<Rightarrow> (link_error + started) \<times> conn" where
  "link_start opts theirs c =
     (Inr \<lparr>sd_read_max = lo_max_frame opts, sd_send_max = of_frame theirs, sd_permits = max (of_calls theirs) 1,
           sd_pool = max (lo_max_calls opts) 1, sd_timeout = lo_timeout opts,
      sd_spin = lo_spin opts, sd_trust = lo_trust opts, sd_peer_id = cn_peer_id c\<rparr>,
      deed_done (MaxFrame (lo_max_frame opts)) (deed_done (PeerMaxFrame (of_frame theirs)) c))"

definition finish_setup :: "link_options \<Rightarrow> offer \<Rightarrow> conn \<Rightarrow> (link_error + started) \<times> conn" where
  "finish_setup opts theirs c =
     do_then (set_timeout (ReadTimeout None) c) (\<lambda>_ c.
     do_then (set_timeout (WriteTimeout (lo_timeout opts)) c) (\<lambda>_ c.
     link_start opts theirs c))"

section \<open>The client\<close>

text \<open>What it will not start with: the checks before the first byte.\<close>

definition client_refuses :: "link_options \<Rightarrow> conn \<Rightarrow> bool" where
  "client_refuses opts c \<longleftrightarrow>
     lo_trust opts = Secure \<and> cn_peer_id c = None \<or>
     lo_trust opts = ServerTls \<and> (cn_peer_id c = None \<or> lo_key opts = None \<and> lo_token opts = None) \<or>
     (case lo_token opts of Some t \<Rightarrow> blank t | None \<Rightarrow> False)"

definition client_offer :: "link_options \<Rightarrow> offer" where
  "client_offer opts = \<lparr>of_frame = lo_max_frame opts, of_calls = lo_max_calls opts, of_token = lo_token opts\<rparr>"

text \<open>After the WELCOME: at the trusted level always, and at server TLS when the server sent a
  proof, the server's proof is checked and this side's sent.\<close>

definition client_answers ::
  "crypto \<Rightarrow> link_options \<Rightarrow> u8 list \<Rightarrow> u8 list \<Rightarrow> u8 list \<Rightarrow> conn \<Rightarrow> (link_error + unit) \<times> conn" where
  "client_answers C opts nonce server_nonce given c =
     (let asked = (case lo_trust opts of Trusted \<Rightarrow> True | ServerTls \<Rightarrow> given \<noteq> [] | _ \<Rightarrow> False)
      in if asked then
           (case lo_key opts of
              None \<Rightarrow> trust_error c
            | Some key \<Rightarrow>
                if \<not> proves C key SERVER nonce server_nonce given then trust_error c
                else write_frame (Proof (key_proof C key CLIENT nonce server_nonce)) c)
         else (Inr (), c))"

definition client :: "crypto \<Rightarrow> u64 \<times> u64 \<Rightarrow> u8 list \<Rightarrow> link_options \<Rightarrow> conn \<Rightarrow> (link_error + started) \<times> conn" where
  "client C drawn nonce opts c =
     (if client_refuses opts c then trust_error c
      else
        do_then (set_timeout (ReadTimeout (Some (lo_handshake_timeout opts))) c) (\<lambda>_ c.
        do_then (write_frame (Hello (lo_trust opts) nonce (offer_to_value (client_offer opts))) c) (\<lambda>_ c.
        do_then (read_handshake c) (\<lambda>buf c.
        case message_decode drawn buf of
          Inl e \<Rightarrow> (Inl (LinkProtocol e), c)
        | Inr (Welcome server_nonce given offered) \<Rightarrow>
            do_then (client_answers C opts nonce server_nonce given c) (\<lambda>_ c.
              finish_setup opts (offer_from_value offered (client_offer opts)) (deed_done (ReadAhead READ_AHEAD) c))
        | Inr (Goodbye status words) \<Rightarrow> (Inl (LinkRefused status words), c)
        | Inr _ \<Rightarrow> (Inl (LinkProtocol (PField 0)), c)))))"

section \<open>The server\<close>

definition server_offer :: "link_options \<Rightarrow> offer" where
  "server_offer opts = \<lparr>of_frame = lo_max_frame opts, of_calls = lo_max_calls opts, of_token = None\<rparr>"

text \<open>The checks on a HELLO, in order; none is the client's level refused.\<close>

definition hello_refused :: "link_options \<Rightarrow> conn \<Rightarrow> trust \<Rightarrow> reason option" where
  "hello_refused opts c t =
     (if t \<noteq> lo_trust opts then Some (OtherLevel (lo_trust opts) t)
      else if t = Secure \<and> cn_peer_id c = None then Some NoPeerProof
      else if t = ServerTls \<and> \<not> cn_encrypted c then Some NotEncrypted
      else if t = ServerTls \<and> lo_key opts = None \<and> lo_token opts = None then Some NeitherKeyNorToken
      else if (case lo_token opts of Some s \<Rightarrow> blank s | None \<Rightarrow> False) then Some BlankToken
      else None)"

definition need_key :: "link_options \<Rightarrow> link_error + u8 list" where
  "need_key opts = ok_or LinkTrust (lo_key opts)"

text \<open>The bound on frames: where a key is still to be proved it is raised for the frames after
  the proof, and the channel reads one ahead until then.\<close>

definition server_bounds :: "link_options \<Rightarrow> conn \<Rightarrow> conn" where
  "server_bounds opts c =
     (if proves_key opts then deed_done (MaxFrameAfter 1 (lo_max_frame opts)) c
      else deed_done (ReadAhead READ_AHEAD) (deed_done (MaxFrame (lo_max_frame opts)) c))"

definition server_proof :: "crypto \<Rightarrow> link_options \<Rightarrow> u8 list \<Rightarrow> u8 list \<Rightarrow> link_error + u8 list" where
  "server_proof C opts client_nonce nonce =
     (if proves_key opts then and_then (need_key opts) (\<lambda>key. Inr (key_proof C key SERVER client_nonce nonce))
      else Inr [])"

text \<open>Reading the client's proof.\<close>

definition server_checks ::
  "crypto \<Rightarrow> (reason \<Rightarrow> str) \<Rightarrow> u64 \<times> u64 \<Rightarrow> link_options \<Rightarrow> u8 list \<Rightarrow> u8 list \<Rightarrow> conn \<Rightarrow> (link_error + unit) \<times> conn" where
  "server_checks C say drawn opts client_nonce nonce c =
     (if proves_key opts then
        do_then (read_handshake c) (\<lambda>buf c.
        case message_decode drawn buf of
          Inr (Proof given) \<Rightarrow>
            (case need_key opts of
               Inl e \<Rightarrow> (Inl e, c)
             | Inr key \<Rightarrow>
                 if proves C key CLIENT client_nonce nonce given then (Inr (), deed_done (ReadAhead READ_AHEAD) c)
                 else refuse_link say ERR_BAD_VALUE OtherKey c)
        | _ \<Rightarrow> refuse_link say ERR_BAD_VALUE OtherKey c)
      else (Inr (), c))"

text \<open>From an accepted HELLO on.\<close>

definition server_welcomes ::
  "crypto \<Rightarrow> (reason \<Rightarrow> str) \<Rightarrow> u64 \<times> u64 \<Rightarrow> u8 list \<Rightarrow> link_options \<Rightarrow> u8 list \<Rightarrow> offer \<Rightarrow> conn \<Rightarrow> (link_error + started) \<times> conn" where
  "server_welcomes C say drawn nonce opts client_nonce theirs c =
     (if (case lo_required opts of Some required \<Rightarrow> \<not> admits C required (of_token theirs) | None \<Rightarrow> False)
      then refuse_link say ERR_BAD_VALUE OtherToken c
      else
        let c = server_bounds opts c in
        case server_proof C opts client_nonce nonce of
          Inl e \<Rightarrow> (Inl e, c)
        | Inr given \<Rightarrow>
            do_then (write_frame (Welcome nonce given (offer_to_value (server_offer opts))) c) (\<lambda>_ c.
            do_then (server_checks C say drawn opts client_nonce nonce c) (\<lambda>_ c.
            finish_setup opts theirs (deed_done (MaxFrame (lo_max_frame opts)) c))))"

definition server ::
  "crypto \<Rightarrow> (reason \<Rightarrow> str) \<Rightarrow> u64 \<times> u64 \<Rightarrow> u8 list \<Rightarrow> link_options \<Rightarrow> conn \<Rightarrow> (link_error + started) \<times> conn" where
  "server C say drawn nonce opts c =
     do_then (set_timeout (ReadTimeout (Some (lo_handshake_timeout opts))) c) (\<lambda>_ c.
     do_then (read_handshake c) (\<lambda>buf c.
     case message_decode drawn buf of
       Inr (Hello t client_nonce offered) \<Rightarrow>
         (case hello_refused opts c t of
            Some why \<Rightarrow> refuse_link say ERR_UNSUPPORTED why c
          | None \<Rightarrow>
              server_welcomes C say drawn nonce opts client_nonce (offer_from_value offered (server_offer opts)) c)
     | Inr _ \<Rightarrow> refuse_link say ERR_BAD_VALUE NoHello c
     | Inl e \<Rightarrow> refuse_link say ERR_BAD_VALUE (Malformed e) c))"

section \<open>Proofs and tokens, and what they show\<close>

lemma xor_zero_iff: "(x :: u8) XOR y = 0 \<longleftrightarrow> x = y"
proof
  assume x: "x XOR y = 0"
  have "x = (x XOR y) XOR y" by (simp add: xor.assoc)
  then show "x = y" unfolding x by simp
qed simp

text \<open>The comparison that looks at every byte is equality.\<close>

lemma same_is_equality: "same a b \<longleftrightarrow> a = b"
proof -
  have "length a = length b \<Longrightarrow> fold (\<lambda>(x, y) acc. acc OR (x XOR y)) (zip a b) acc = 0 \<longleftrightarrow> acc = 0 \<and> a = b" for acc
    by (induction a b arbitrary: acc rule: list_induct2) (auto simp: or_eq_0_iff xor_zero_iff)
  then show ?thesis by (auto simp: same_def)
qed

lemma admits_iff:
  "admits C (required_new C t) given \<longleftrightarrow> (\<exists>s. given = Some s \<and> sha256 C (as_bytes s) = sha256 C (as_bytes t))"
  by (auto simp: admits_def required_is_def required_new_def same_is_equality split: option.splits)

lemma labels: "length SERVER = 21" "length CLIENT = 21" "SERVER \<noteq> CLIENT"
  by (simp_all add: SERVER_def CLIENT_def del: as_bytes_simps)

lemma proof_message_inject:
  assumes "length c = 16" "length c' = 16" "l \<in> {SERVER, CLIENT}" "l' \<in> {SERVER, CLIENT}"
  shows "l @ c @ s = l' @ c' @ s' \<longleftrightarrow> l = l' \<and> c = c' \<and> s = s'"
proof -
  have "length l = length l'" using assms(3,4) labels(1,2) by auto
  then show ?thesis using assms(1,2) by auto
qed

section \<open>Offers\<close>

lemma offer_entries:
  "offer_to_value f = VMap ([(''max_frame'', VNumber (show_int (int (of_frame f)))),
     (''max_calls'', VNumber (show_int (int (of_calls f))))] @ (case of_token f of Some t \<Rightarrow> [(''token'', VString t)] | None \<Rightarrow> []))"
  by (simp add: offer_to_value_def map_set_Cons split: option.splits)

definition offer_ok :: "offer \<Rightarrow> bool" where
  "offer_ok f \<longleftrightarrow> of_frame f < 2 ^ 64 \<and> of_calls f < 2 ^ 64 \<and> (case of_token f of Some t \<Rightarrow> is_text t \<and> length t < 2 ^ 64 | None \<Rightarrow> True)"

lemma offer_keys_text: "is_text ''max_frame''" "is_text ''max_calls''" "is_text ''token''"
  by (simp_all add: ascii_is_text ascii_def)

lemma offer_round_trip: "offer_ok f \<Longrightarrow> offer_from_value (offer_to_value f) g = f"
proof -
  assume f: "offer_ok f"
  have n: "integer_from_value False 64 (VNumber (show_int (int k))) = Inr (int k)" if "k < 2 ^ 64" for k
    using that by (simp add: reads fits_unsigned)
  show ?thesis using f n [of "of_frame f"] n [of "of_calls f"] offer_keys_text
    by (cases "of_token f")
       (simp_all add: offer_from_value_def offer_entries offer_number_def keys_are_text_def map_get_def offer_ok_def)
qed

lemma show_int_short: "n < 2 ^ 64 \<Longrightarrow> length (show_int (int n)) < 2 ^ 64"
proof -
  assume "n < 2 ^ 64"
  then have "n < 10 ^ 20" by simp
  from length_show_nat_le [OF this] show ?thesis by (simp add: show_int_def)
qed

lemma offer_wire_ok: "offer_ok f \<Longrightarrow> wire_ok (offer_to_value f)"
  using show_int_short show_int_json_number offer_keys_text
  by (cases "of_token f") (simp_all add: offer_entries offer_ok_def is_number_iff)

section \<open>Steps on a connection\<close>

lemma deed_done_simps [simp]:
  "cn_reads (deed_done d c) = cn_reads c" "cn_writes (deed_done d c) = cn_writes c"
  "cn_sent (deed_done d c) = cn_sent c" "cn_sets (deed_done d c) = cn_sets c"
  "cn_peer_id (deed_done d c) = cn_peer_id c" "cn_encrypted (deed_done d c) = cn_encrypted c"
  "cn_did (deed_done d c) = cn_did c @ [d]"
  by (simp_all add: deed_done_def)

text \<open>A connection whose stream takes what it is offered and whose timeouts can be set.\<close>

definition easy :: "conn \<Rightarrow> bool" where
  "easy c \<longleftrightarrow> list_all write_clean (cn_writes c) \<and> list_all (\<lambda>r. r = None) (cn_sets c)"

lemma easy_deed [simp]: "easy (deed_done d c) \<longleftrightarrow> easy c"
  by (simp add: easy_def)

definition same_peer :: "conn \<Rightarrow> conn \<Rightarrow> bool" where
  "same_peer c c' \<longleftrightarrow> cn_peer_id c' = cn_peer_id c \<and> cn_encrypted c' = cn_encrypted c"

lemma same_peer_simps [simp]: "same_peer c c" "same_peer c (deed_done d c') \<longleftrightarrow> same_peer c c'"
  by (simp_all add: same_peer_def)

lemma set_timeout_easy:
  assumes "easy c"
  obtains c' where "set_timeout d c = (Inr (), c')" "easy c'" "same_peer c c'" "cn_reads c' = cn_reads c" "cn_sent c' = cn_sent c"
proof (cases "cn_sets c")
  case Nil
  then show thesis using assms that [of "deed_done d c"] by (simp add: set_timeout_def)
next
  case (Cons r rs)
  then have "r = None" "list_all (\<lambda>r. r = None) rs" using assms by (simp_all add: easy_def)
  then show thesis using assms Cons that [of "deed_done d (c\<lparr>cn_sets := rs\<rparr>)"]
    by (simp add: set_timeout_def easy_def same_peer_def)
qed

lemma write_all_rest: "write_all buf es out = (r, es', out') \<Longrightarrow> list_all write_clean es \<Longrightarrow> list_all write_clean es'"
  by (induction buf es out rule: write_all.induct) (auto simp: Let_def split: if_splits write_event.splits)

lemma write_frame_easy:
  assumes "easy c" "message_ok m" "length (spelt m) < 2 ^ 32"
  obtains c' where "write_frame m c = (Inr (), c')" "easy c'" "same_peer c c'" "cn_reads c' = cn_reads c"
    "cn_sent c' = cn_sent c @ framed (spelt m)"
proof -
  have e: "message_encode m [] (2 ^ 64 - 1) = Inr (framed (spelt m))"
    using assms(2,3) by (intro encoded_is_framed) simp_all
  obtain r ws sent where w: "write_frames [framed (spelt m)] (cn_writes c) (cn_sent c) = (r, ws, sent)" by (metis prod_cases3)
  have "r = Inr ()" "sent = cn_sent c @ framed (spelt m)"
    using write_frames_out [OF w] assms(1) by (auto simp: easy_def)
  moreover have "list_all write_clean ws"
    using w assms(1) write_all_rest [of "framed (spelt m)"] by (simp add: write_frames_def easy_def)
  ultimately show thesis
    using that [of "deed_done (Sent m) (c\<lparr>cn_writes := ws, cn_sent := sent\<rparr>)"] e w assms(1)
    by (simp add: write_frame_def easy_def same_peer_def)
qed

lemma read_handshake_Inr:
  "fst (read_handshake c) = Inr b \<longleftrightarrow> (\<exists>es. read_frame HANDSHAKE_MAX_FRAME (cn_reads c) = (Inr (Some b), es))"
  by (auto simp: read_handshake_def split: prod.splits sum.splits option.splits)

lemma read_handshake_easy:
  "read_frame HANDSHAKE_MAX_FRAME (cn_reads c) = (Inr (Some b), es) \<Longrightarrow> read_handshake c = (Inr b, c\<lparr>cn_reads := es\<rparr>)"
  by (simp add: read_handshake_def)

lemma easy_reads [simp]: "easy (c\<lparr>cn_reads := es\<rparr>) \<longleftrightarrow> easy c"
  by (simp add: easy_def)

lemma same_peer_reads [simp]: "same_peer c (c'\<lparr>cn_reads := es\<rparr>) \<longleftrightarrow> same_peer c c'"
  by (simp add: same_peer_def)

definition settled :: "link_options \<Rightarrow> offer \<Rightarrow> conn \<Rightarrow> started" where
  "settled opts theirs c =
     \<lparr>sd_read_max = lo_max_frame opts, sd_send_max = of_frame theirs, sd_permits = max (of_calls theirs) 1,
      sd_pool = max (lo_max_calls opts) 1, sd_timeout = lo_timeout opts,
      sd_spin = lo_spin opts, sd_trust = lo_trust opts, sd_peer_id = cn_peer_id c\<rparr>"

lemma finish_setup_easy:
  assumes "easy c"
  obtains c' where "finish_setup opts theirs c = (Inr (settled opts theirs c), c')" "cn_sent c' = cn_sent c"
proof -
  obtain c1 where 1: "set_timeout (ReadTimeout None) c = (Inr (), c1)" "easy c1" "same_peer c c1" "cn_sent c1 = cn_sent c"
    using set_timeout_easy [OF assms] by metis
  obtain c2 where 2: "set_timeout (WriteTimeout (lo_timeout opts)) c1 = (Inr (), c2)" "same_peer c1 c2" "cn_sent c2 = cn_sent c1"
    using set_timeout_easy [OF 1(2)] by metis
  show thesis using that 1 2 by (simp add: finish_setup_def link_start_def settled_def same_peer_def)
qed

text \<open>What was sent stays sent.\<close>

definition grows :: "conn \<Rightarrow> conn \<Rightarrow> bool" where
  "grows c c' \<longleftrightarrow> prefix (cn_sent c) (cn_sent c')"

lemma grows_refl [simp]: "grows c c" by (simp add: grows_def)

lemma grows_trans: "grows a b \<Longrightarrow> grows b c \<Longrightarrow> grows a c" by (auto simp: grows_def)

lemma grows_deed [simp]: "grows c (deed_done d c') \<longleftrightarrow> grows c c'" by (simp add: grows_def)

lemma grows_do_then:
  "grows c (snd p) \<Longrightarrow> (\<And>a c'. grows c' (snd (f a c'))) \<Longrightarrow> grows c (snd (do_then p f))"
  by (cases "(p, f)" rule: do_then.cases) (auto intro: grows_trans)

lemma grows_steps:
  "grows c (snd (set_timeout d c))" "grows c (snd (read_handshake c))" "grows c (snd (write_frame m c))"
proof -
  show "grows c (snd (write_frame m c))"
  proof (cases "message_encode m [] (2 ^ 64 - 1)")
    case (Inr out)
    obtain r ws sent where w: "write_frames [out] (cn_writes c) (cn_sent c) = (r, ws, sent)" by (metis prod_cases3)
    then have "prefix (cn_sent c) sent" using write_frames_out [OF w] by auto
    then show ?thesis using Inr w by (cases r) (simp_all add: write_frame_def grows_def)
  qed (simp add: write_frame_def)
qed (auto simp: set_timeout_def read_handshake_def grows_def split: list.splits option.splits prod.splits sum.splits)

lemma grows_refuse: "grows c (snd (refuse_link say status why c))"
  by (simp add: refuse_link_def grows_steps)

lemma grows_finish: "grows c (snd (finish_setup opts theirs c))"
  unfolding finish_setup_def by (intro grows_do_then grows_steps) (simp add: link_start_def)

section \<open>The lengths of the first messages\<close>

lemma enc_len_short: "unat n < 128 ^ k \<Longrightarrow> 0 < k \<Longrightarrow> length (enc_len n) \<le> k"
proof (induction k arbitrary: n)
  case (Suc k)
  show ?case
  proof (cases "drop_bit 7 n = 0")
    case False
    then have "unat n div 128 \<noteq> 0" by (metis unat_drop_bit_7 unat_eq_zero)
    then have "0 < k" using Suc.prems(1) by (cases k) auto
    moreover have "unat (drop_bit 7 n) < 128 ^ k" using Suc.prems(1) by (simp add: unat_drop_bit_7)
    ultimately show ?thesis using Suc.IH [of "drop_bit 7 n"] False by (subst enc_len_unfold) simp
  qed (subst enc_len_unfold, simp)
qed simp

lemma enc_bytes_short: "length (enc_bytes bs) \<le> 10 + length bs"
proof -
  have "unat (m :: u64) < 128 ^ 10" for m
  proof -
    have "unat m < 2 ^ 64" using unsigned_less [of m, where ?'a = nat] by simp
    then show ?thesis by simp
  qed
  from enc_len_short [OF this] show ?thesis by (simp add: enc_bytes_def)
qed

lemma enc_len_3: "length (enc_len (word_of_nat n)) \<le> 10"
  using enc_bytes_short [of "[]"] enc_len_short [of _ 10] unsigned_less [of "word_of_nat n :: u64", where ?'a = nat] by simp

definition token_length :: "str option \<Rightarrow> nat" where
  "token_length t = (case t of Some s \<Rightarrow> length s | None \<Rightarrow> 0)"

lemma offer_short: "offer_ok f \<Longrightarrow> length (enc (offer_to_value f)) \<le> 160 + token_length (of_token f)"
proof -
  assume f: "offer_ok f"
  have n: "length (show_int (int n)) \<le> 20" if "n < 2 ^ 64" for n
  proof -
    have "n < 10 ^ 20" using that by simp
    from length_show_nat_le [OF this] show ?thesis by (simp add: show_int_def)
  qed
  have t: "length (enc_bytes (as_bytes s)) \<le> 10 + length s" for s
    using enc_bytes_short [of "as_bytes s"] by (simp del: as_bytes_simps)
  have "length (show_int (int (of_frame f))) \<le> 20" "length (show_int (int (of_calls f))) \<le> 20"
    using f n by (simp_all add: offer_ok_def)
  with t [of "show_int (int (of_frame f))"] t [of "show_int (int (of_calls f))"] t [of "''max_frame''"]
    t [of "''max_calls''"] t [of "''token''"] t [of "the (of_token f)"] enc_len_3 [of 2] enc_len_3 [of 3]
  show ?thesis
    by (cases "of_token f") (simp_all add: offer_entries token_length_def del: as_bytes_simps)
qed

text \<open>Options as the setters leave them: the numbers are \<open>usize\<close>s, the token is text, and the
  token required is the digest of the token.\<close>

definition options_ok :: "crypto \<Rightarrow> link_options \<Rightarrow> bool" where
  "options_ok C opts \<longleftrightarrow> offer_ok (client_offer opts) \<and> lo_required opts = map_option (required_new C) (lo_token opts) \<and>
     HANDSHAKE_MAX_FRAME \<le> lo_max_frame opts \<and> lo_max_frame opts < 2 ^ 32 \<and> 0 < lo_max_calls opts"

lemma options_new_ok: "options_ok C (options_new t)"
  by (simp add: options_ok_def options_new_def offer_ok_def client_offer_def DEFAULT_MAX_FRAME_def DEFAULT_MAX_CALLS_def HANDSHAKE_MAX_FRAME_def)

lemma options_set_ok:
  assumes "options_ok C opts"
  shows "options_ok C (options_key key opts)"
    "is_text token \<Longrightarrow> length token < 2 ^ 64 \<Longrightarrow> options_ok C (options_token C token opts)"
    "n < 2 ^ 64 \<Longrightarrow> options_ok C (options_max_frame n opts)"
    "n < 2 ^ 64 \<Longrightarrow> options_ok C (options_max_calls n opts)"
    "options_ok C (options_timeout t opts)" "options_ok C (options_handshake_timeout d opts)"
    "options_ok C (options_spin d opts)"
  using assms
  by (auto simp: options_ok_def offer_ok_def client_offer_def options_key_def options_token_def options_max_frame_def
      options_max_calls_def options_timeout_def options_handshake_timeout_def options_spin_def HANDSHAKE_MAX_FRAME_def)

lemma server_offer_ok: "options_ok C opts \<Longrightarrow> offer_ok (server_offer opts)"
  by (simp add: options_ok_def offer_ok_def client_offer_def server_offer_def)

lemma HMAC_length: "crypto_ok C \<Longrightarrow> length (key_proof C key l c s) = 32"
  by (simp add: crypto_ok_def key_proof_def)

lemma proves_iff: "crypto_ok C \<Longrightarrow> proves C key l c s given \<longleftrightarrow> given = key_proof C key l c s"
  by (simp add: crypto_ok_def key_proof_def proves_def)

lemma welcome_ok:
  assumes "options_ok C opts" "length nonce = 16" "length given \<le> 32"
  shows "message_ok (Welcome nonce given (offer_to_value (server_offer opts)))"
    "length (spelt (Welcome nonce given (offer_to_value (server_offer opts)))) \<le> 300"
proof -
  note f = server_offer_ok [OF assms(1)]
  have l: "length (enc (offer_to_value (server_offer opts))) \<le> 160"
    using offer_short [OF f] by (simp add: token_length_def server_offer_def)
  show "message_ok (Welcome nonce given (offer_to_value (server_offer opts)))"
    using assms(2,3) l offer_wire_ok [OF f] by simp
  show "length (spelt (Welcome nonce given (offer_to_value (server_offer opts)))) \<le> 300"
    using assms(2,3) l enc_bytes_short [of given] enc_bytes_short [of "enc (offer_to_value (server_offer opts))"]
    by (simp add: proto_MAGIC_def)
qed

lemma hello_ok:
  assumes "options_ok C opts" "length nonce = 16" "token_length (lo_token opts) < 2 ^ 31"
  shows "message_ok (Hello t nonce (offer_to_value (client_offer opts)))"
    "length (spelt (Hello t nonce (offer_to_value (client_offer opts)))) \<le> 300 + token_length (lo_token opts)"
proof -
  have f: "offer_ok (client_offer opts)" using assms(1) by (simp add: options_ok_def)
  have l: "length (enc (offer_to_value (client_offer opts))) \<le> 160 + token_length (lo_token opts)"
    using offer_short [OF f] by (simp add: client_offer_def)
  show "message_ok (Hello t nonce (offer_to_value (client_offer opts)))"
    using assms(2,3) l offer_wire_ok [OF f] by simp
  show "length (spelt (Hello t nonce (offer_to_value (client_offer opts)))) \<le> 300 + token_length (lo_token opts)"
    using assms(2) l enc_bytes_short [of "enc (offer_to_value (client_offer opts))"]
    by (simp add: proto_MAGIC_def)
qed

lemma proof_ok: "length p = 32 \<Longrightarrow> message_ok (Proof p) \<and> length (spelt (Proof p)) \<le> 300"
  using enc_bytes_short [of p] by simp

section \<open>What a server admits\<close>

text \<open>The next frame of the stream carries the client's proof of the key over both nonces, where
  the level asks for one.\<close>

definition brings_proof :: "crypto \<Rightarrow> link_options \<Rightarrow> u8 list \<Rightarrow> u8 list \<Rightarrow> read_event list \<Rightarrow> bool" where
  "brings_proof C opts client_nonce nonce es \<longleftrightarrow> (proves_key opts \<longrightarrow>
     (\<exists>key es'. lo_key opts = Some key \<and>
        read_frame HANDSHAKE_MAX_FRAME es = (Inr (Some (spelt (Proof (hmac C key (CLIENT @ client_nonce @ nonce))))), es')))"

text \<open>The token the client offers is the one the server was given, as far as the digest tells.\<close>

definition brings_token :: "crypto \<Rightarrow> link_options \<Rightarrow> str option \<Rightarrow> bool" where
  "brings_token C opts given \<longleftrightarrow>
     (case lo_token opts of None \<Rightarrow> True
      | Some t \<Rightarrow> (case given of None \<Rightarrow> False | Some s \<Rightarrow> sha256 C (as_bytes s) = sha256 C (as_bytes t)))"

lemma brings_token_iff:
  "options_ok C opts \<Longrightarrow>
   (case lo_required opts of Some required \<Rightarrow> \<not> admits C required given | None \<Rightarrow> False) \<longleftrightarrow> \<not> brings_token C opts given"
  by (auto simp: options_ok_def brings_token_def admits_iff split: option.splits)

lemma is_ok_refuse [simp]: "\<not> is_ok (fst (refuse_link say status why c))" "\<not> is_ok (fst (trust_error c))"
  by (simp_all add: refuse_link_def trust_error_def)

lemma server_checks_brought:
  assumes "crypto_ok C" "easy c" "brings_proof C opts cn nonce (cn_reads c)"
  obtains c' where "server_checks C say drawn opts cn nonce c = (Inr (), c')" "easy c'" "same_peer c c'" "cn_sent c' = cn_sent c"
proof (cases "proves_key opts")
  case True
  then obtain key es' where k: "lo_key opts = Some key"
    "read_frame HANDSHAKE_MAX_FRAME (cn_reads c) = (Inr (Some (spelt (Proof (key_proof C key CLIENT cn nonce)))), es')"
    using assms(3) by (auto simp: brings_proof_def key_proof_def)
  have "message_decode drawn (spelt (Proof (key_proof C key CLIENT cn nonce))) = Inr (Proof (key_proof C key CLIENT cn nonce))"
    using proof_ok HMAC_length [OF assms(1)] by (intro message_decode_complete) blast
  then show thesis
    using that [of "deed_done (ReadAhead READ_AHEAD) (c\<lparr>cn_reads := es'\<rparr>)"] True k assms(1,2)
    by (simp add: server_checks_def read_handshake_easy need_key_def proves_iff del: spelt.simps)
next
  case False
  then show thesis using that [of c] assms(2) by (simp add: server_checks_def)
qed

lemma server_checks_not_brought:
  assumes "crypto_ok C" "\<not> brings_proof C opts cn nonce (cn_reads c)"
  shows "\<not> is_ok (fst (server_checks C say drawn opts cn nonce c))"
proof
  assume ok: "is_ok (fst (server_checks C say drawn opts cn nonce c))"
  have pk: "proves_key opts" using assms(2) by (simp add: brings_proof_def)
  obtain r c1 where h: "read_handshake c = (r, c1)" by fastforce
  obtain b where b: "r = Inr b" using ok pk h by (cases r) (simp_all add: server_checks_def)
  then obtain es' where es': "read_frame HANDSHAKE_MAX_FRAME (cn_reads c) = (Inr (Some b), es')"
    using read_handshake_Inr [of c b] h by auto
  obtain given where g: "message_decode drawn b = Inr (Proof given)"
    using ok pk h b by (auto simp: server_checks_def split: sum.splits message.splits)
  obtain key where key: "lo_key opts = Some key"
    using ok pk h b g by (cases "lo_key opts") (auto simp: server_checks_def need_key_def)
  have "given = key_proof C key CLIENT cn nonce"
    using ok pk h b g key assms(1) by (auto simp: server_checks_def need_key_def proves_iff split: if_splits)
  moreover have "b = spelt (Proof given)" using message_decode_sound [OF g] by simp
  ultimately show False using assms(2) es' key by (simp add: brings_proof_def key_proof_def del: spelt.simps)
qed

lemma server_welcomes_ok:
  assumes "crypto_ok C" "options_ok C opts" "easy c" "length nonce = 16"
    and "brings_token C opts (of_token theirs)" "brings_proof C opts cn nonce (cn_reads c)"
  obtains c' given where "server_welcomes C say drawn nonce opts cn theirs c = (Inr (settled opts theirs c), c')"
    "server_proof C opts cn nonce = Inr given"
    "cn_sent c' = cn_sent c @ framed (spelt (Welcome nonce given (offer_to_value (server_offer opts))))"
proof -
  obtain given where g: "server_proof C opts cn nonce = Inr given" "length given \<le> 32"
    using assms(1,6) HMAC_length [OF assms(1)]
    by (cases "proves_key opts") (fastforce simp: server_proof_def need_key_def brings_proof_def)+
  let ?m = "Welcome nonce given (offer_to_value (server_offer opts))"
  have "easy (server_bounds opts c)" using assms(3) by (simp add: server_bounds_def)
  moreover have "length (spelt ?m) < 2 ^ 32" using welcome_ok(2) [OF assms(2,4) g(2)] by simp
  ultimately obtain c1 where 1: "write_frame ?m (server_bounds opts c) = (Inr (), c1)" "easy c1" "same_peer (server_bounds opts c) c1"
    "cn_reads c1 = cn_reads (server_bounds opts c)" "cn_sent c1 = cn_sent (server_bounds opts c) @ framed (spelt ?m)"
    using write_frame_easy welcome_ok(1) [OF assms(2,4) g(2)] by metis
  have b: "brings_proof C opts cn nonce (cn_reads c1)" using assms(6) 1(4) by (simp add: server_bounds_def)
  obtain c2 where 2: "server_checks C say drawn opts cn nonce c1 = (Inr (), c2)" "easy c2" "same_peer c1 c2" "cn_sent c2 = cn_sent c1"
    using server_checks_brought [OF assms(1) 1(2) b] by metis
  obtain c3 where 3: "finish_setup opts theirs (deed_done (MaxFrame (lo_max_frame opts)) c2) =
      (Inr (settled opts theirs (deed_done (MaxFrame (lo_max_frame opts)) c2)), c3)" "cn_sent c3 = cn_sent c2"
    using finish_setup_easy [of "deed_done (MaxFrame (lo_max_frame opts)) c2" opts theirs] 2(2) by auto
  have "settled opts theirs (deed_done (MaxFrame (lo_max_frame opts)) c2) = settled opts theirs c"
    using 1(3) 2(3) by (simp add: settled_def same_peer_def server_bounds_def split: if_splits)
  then show thesis using that [of c3 given] 1(1,5) 2 3 g(1) assms(5) brings_token_iff [OF assms(2)]
    by (simp add: server_welcomes_def server_bounds_def split: if_splits)
qed

lemma do_then_ok: "is_ok (fst (do_then p f)) \<Longrightarrow> \<exists>a c. p = (Inr a, c) \<and> is_ok (fst (f a c))"
  by (cases "(p, f)" rule: do_then.cases) auto

lemma write_frame_reads: "cn_reads (snd (write_frame m c)) = cn_reads c"
  by (simp add: write_frame_def split: sum.splits prod.splits)

lemma server_welcomes_refused:
  assumes "crypto_ok C" "options_ok C opts" "is_ok (fst (server_welcomes C say drawn nonce opts cn theirs c))"
  shows "brings_token C opts (of_token theirs) \<and> brings_proof C opts cn nonce (cn_reads c)"
proof -
  have t: "brings_token C opts (of_token theirs)"
    using assms(3) brings_token_iff [OF assms(2)] by (auto simp: server_welcomes_def split: if_splits)
  then have n: "\<not> (case lo_required opts of Some required \<Rightarrow> \<not> admits C required (of_token theirs) | None \<Rightarrow> False)"
    using brings_token_iff [OF assms(2)] by simp
  obtain given where g: "server_proof C opts cn nonce = Inr given"
    using assms(3) n by (cases "server_proof C opts cn nonce") (simp_all add: server_welcomes_def)
  let ?w = "write_frame (Welcome nonce given (offer_to_value (server_offer opts))) (server_bounds opts c)"
  obtain c1 where w: "?w = (Inr (), c1)" "is_ok (fst (server_checks C say drawn opts cn nonce c1))"
    using assms(3) n g by (fastforce simp: server_welcomes_def dest!: do_then_ok)
  have "cn_reads c1 = cn_reads c" using write_frame_reads [of "Welcome nonce given (offer_to_value (server_offer opts))" "server_bounds opts c"] w(1)
    by (simp add: server_bounds_def)
  then show ?thesis using t server_checks_not_brought [OF assms(1)] w(2) by metis
qed

text \<open>What each level asks of the transport and of the options before anything is exchanged.\<close>

definition level_held :: "link_options \<Rightarrow> conn \<Rightarrow> bool" where
  "level_held opts c \<longleftrightarrow>
     (case lo_trust opts of
        Secure \<Rightarrow> cn_peer_id c \<noteq> None
      | ServerTls \<Rightarrow> cn_encrypted c \<and> (lo_key opts \<noteq> None \<or> lo_token opts \<noteq> None)
      | _ \<Rightarrow> True) \<and>
     (case lo_token opts of Some t \<Rightarrow> \<not> blank t | None \<Rightarrow> True)"

lemma hello_refused_iff: "hello_refused opts c t = None \<longleftrightarrow> t = lo_trust opts \<and> level_held opts c"
  by (cases t) (auto simp: hello_refused_def level_held_def split: option.splits trust.splits)

lemma level_held_same: "same_peer c c' \<Longrightarrow> level_held opts c' \<longleftrightarrow> level_held opts c"
  by (simp add: level_held_def same_peer_def cong: trust.case_cong)

lemma settled_same: "same_peer c c' \<Longrightarrow> settled opts theirs c' = settled opts theirs c"
  by (simp add: settled_def same_peer_def)

text \<open>A HELLO a server takes, and the client's answer.\<close>

definition introduces :: "crypto \<Rightarrow> link_options \<Rightarrow> conn \<Rightarrow> u8 list \<Rightarrow> u8 list \<Rightarrow> Value \<Rightarrow> read_event list \<Rightarrow> bool" where
  "introduces C opts c nonce cn offered es \<longleftrightarrow>
     read_frame HANDSHAKE_MAX_FRAME (cn_reads c) = (Inr (Some (spelt (Hello (lo_trust opts) cn offered))), es) \<and>
     message_ok (Hello (lo_trust opts) cn offered) \<and> level_held opts c \<and>
     brings_token C opts (of_token (offer_from_value offered (server_offer opts))) \<and> brings_proof C opts cn nonce es"

lemma server_admits:
  assumes "crypto_ok C" "options_ok C opts" "easy c" "length nonce = 16" "introduces C opts c nonce cn offered es"
  obtains c' given where
    "server C say drawn nonce opts c = (Inr (settled opts (offer_from_value offered (server_offer opts)) c), c')"
    "server_proof C opts cn nonce = Inr given"
    "cn_sent c' = cn_sent c @ framed (spelt (Welcome nonce given (offer_to_value (server_offer opts))))"
proof -
  let ?theirs = "offer_from_value offered (server_offer opts)" and ?hello = "Hello (lo_trust opts) cn offered"
  have h: "read_frame HANDSHAKE_MAX_FRAME (cn_reads c) = (Inr (Some (spelt ?hello)), es)" "message_ok ?hello"
    "level_held opts c" "brings_token C opts (of_token ?theirs)" "brings_proof C opts cn nonce es"
    using assms(5) unfolding introduces_def by blast+
  obtain c1 where 1: "set_timeout (ReadTimeout (Some (lo_handshake_timeout opts))) c = (Inr (), c1)" "easy c1" "same_peer c c1"
    "cn_reads c1 = cn_reads c" "cn_sent c1 = cn_sent c" using set_timeout_easy [OF assms(3)] by metis
  let ?c = "c1\<lparr>cn_reads := es\<rparr>"
  have rh: "read_handshake c1 = (Inr (spelt ?hello), ?c)" using read_handshake_easy h(1) 1(4) by metis
  have c: "easy ?c" "brings_proof C opts cn nonce (cn_reads ?c)" using 1(2) h(5) by simp_all
  obtain c' given where w: "server_welcomes C say drawn nonce opts cn ?theirs ?c = (Inr (settled opts ?theirs ?c), c')"
    "server_proof C opts cn nonce = Inr given"
    "cn_sent c' = cn_sent ?c @ framed (spelt (Welcome nonce given (offer_to_value (server_offer opts))))"
    by (rule server_welcomes_ok [OF assms(1,2) c(1) assms(4) h(4) c(2)])
  have "hello_refused opts ?c (lo_trust opts) = None"
    using h(3) level_held_same [of c ?c] 1(3) by (simp add: hello_refused_iff)
  with w(1) 1(1,3) rh have "server C say drawn nonce opts c = (Inr (settled opts ?theirs c), c')"
    using message_decode_complete [OF h(2)] settled_same [of c ?c] by (simp add: server_def del: spelt.simps)
  then show thesis using that w(2,3) 1(5) by simp
qed

lemma server_admitted:
  assumes "crypto_ok C" "options_ok C opts" "easy c" "is_ok (fst (server C say drawn nonce opts c))"
  obtains cn offered es where "introduces C opts c nonce cn offered es"
proof -
  obtain c1 where 1: "set_timeout (ReadTimeout (Some (lo_handshake_timeout opts))) c = (Inr (), c1)" "same_peer c c1"
    "cn_reads c1 = cn_reads c" using set_timeout_easy [OF assms(3)] by metis
  obtain b es where b: "read_frame HANDSHAKE_MAX_FRAME (cn_reads c) = (Inr (Some b), es)"
    "read_handshake c1 = (Inr b, c1\<lparr>cn_reads := es\<rparr>)"
    using assms(4) 1 read_handshake_Inr [of c1] read_handshake_easy [of c1] by (fastforce simp: server_def dest!: do_then_ok)
  let ?c = "c1\<lparr>cn_reads := es\<rparr>"
  obtain t cn offered where d: "message_decode drawn b = Inr (Hello t cn offered)" "hello_refused opts ?c t = None"
    "is_ok (fst (server_welcomes C say drawn nonce opts cn (offer_from_value offered (server_offer opts)) ?c))"
    using assms(4) 1(1) b(2) by (auto simp: server_def split: sum.splits message.splits option.splits)
  have "t = lo_trust opts" "level_held opts c"
    using d(2) level_held_same [of c ?c] 1(2) by (simp_all add: hello_refused_iff)
  then have "introduces C opts c nonce cn offered es"
    using server_welcomes_refused [OF assms(1,2) d(3)] message_decode_sound [OF d(1)] b(1)
    by (simp add: introduces_def del: spelt.simps)
  then show thesis by (rule that)
qed

text \<open>C24: a server starts a link exactly for a client whose HELLO is of the server's own level, on
  a connection that holds what the level asks of it, with a token of the same digest where one is
  required and, where the level has a key, with the code of the client's label and both nonces under
  the key as its next frame; and what it settles is the client's offer against its own options.\<close>

theorem a_server_admits_exactly:
  assumes "crypto_ok C" "options_ok C opts" "easy c" "length nonce = 16"
  shows "fst (server C say drawn nonce opts c) = Inr s \<longleftrightarrow>
    (\<exists>cn offered es. introduces C opts c nonce cn offered es \<and>
       s = settled opts (offer_from_value offered (server_offer opts)) c)"
proof
  assume l: "fst (server C say drawn nonce opts c) = Inr s"
  then have "is_ok (fst (server C say drawn nonce opts c))" by simp
  then obtain cn offered es where i: "introduces C opts c nonce cn offered es" by (rule server_admitted [OF assms(1-3)])
  with l show "\<exists>cn offered es. introduces C opts c nonce cn offered es \<and>
       s = settled opts (offer_from_value offered (server_offer opts)) c"
    using server_admits [OF assms i, of say drawn] by (metis fst_conv sum.inject(2))
next
  assume "\<exists>cn offered es. introduces C opts c nonce cn offered es \<and> s = settled opts (offer_from_value offered (server_offer opts)) c"
  then show "fst (server C say drawn nonce opts c) = Inr s" using server_admits [OF assms] by (metis fst_conv)
qed

section \<open>What a client trusts\<close>

text \<open>A WELCOME a client takes: at the trusted level, and at server TLS where it carries a proof, the
  proof is the code of the server's label and both nonces under the client's key.\<close>

definition answers :: "crypto \<Rightarrow> link_options \<Rightarrow> conn \<Rightarrow> u8 list \<Rightarrow> u8 list \<Rightarrow> u8 list \<Rightarrow> Value \<Rightarrow> bool" where
  "answers C opts c nonce sn given offered \<longleftrightarrow>
     (\<exists>es. read_frame HANDSHAKE_MAX_FRAME (cn_reads c) = (Inr (Some (spelt (Welcome sn given offered))), es)) \<and>
     message_ok (Welcome sn given offered) \<and>
     (lo_trust opts = Trusted \<or> lo_trust opts = ServerTls \<and> given \<noteq> [] \<longrightarrow>
        (\<exists>key. lo_key opts = Some key \<and> given = hmac C key (SERVER @ nonce @ sn)))"

text \<open>What the client sends after the WELCOME.\<close>

definition client_proof :: "crypto \<Rightarrow> link_options \<Rightarrow> u8 list \<Rightarrow> u8 list \<Rightarrow> u8 list \<Rightarrow> u8 list" where
  "client_proof C opts nonce sn given =
     (if lo_trust opts = Trusted \<or> lo_trust opts = ServerTls \<and> given \<noteq> []
      then framed (spelt (Proof (hmac C (the (lo_key opts)) (CLIENT @ nonce @ sn)))) else [])"

lemma asked_iff:
  "(case lo_trust opts of Trusted \<Rightarrow> True | ServerTls \<Rightarrow> given \<noteq> [] | _ \<Rightarrow> False) \<longleftrightarrow>
   lo_trust opts = Trusted \<or> lo_trust opts = ServerTls \<and> given \<noteq> []"
  by (simp split: trust.splits)

lemma client_answers_ok:
  assumes "crypto_ok C" "easy c"
    and "lo_trust opts = Trusted \<or> lo_trust opts = ServerTls \<and> given \<noteq> [] \<longrightarrow>
      (\<exists>key. lo_key opts = Some key \<and> given = hmac C key (SERVER @ nonce @ sn))"
  obtains c' where "client_answers C opts nonce sn given c = (Inr (), c')" "easy c'" "same_peer c c'"
    "cn_sent c' = cn_sent c @ client_proof C opts nonce sn given"
proof (cases "lo_trust opts = Trusted \<or> lo_trust opts = ServerTls \<and> given \<noteq> []")
  case True
  then obtain key where k: "lo_key opts = Some key" "given = key_proof C key SERVER nonce sn"
    using assms(3) by (auto simp: key_proof_def)
  let ?m = "Proof (key_proof C key CLIENT nonce sn)"
  have "message_ok ?m" "length (spelt ?m) < 2 ^ 32" using proof_ok [OF HMAC_length [OF assms(1)], of key CLIENT nonce sn] by simp_all
  then obtain c1 where "write_frame ?m c = (Inr (), c1)" "easy c1" "same_peer c c1" "cn_sent c1 = cn_sent c @ framed (spelt ?m)"
    using write_frame_easy [OF assms(2)] by metis
  then show thesis using that [of c1] True k assms(1)
    by (simp add: client_answers_def asked_iff Let_def proves_iff client_proof_def key_proof_def del: spelt.simps)
next
  case False
  then show thesis using that [of c] assms(2) by (auto simp: client_answers_def asked_iff Let_def client_proof_def)
qed

lemma client_answers_refused:
  assumes "crypto_ok C" "is_ok (fst (client_answers C opts nonce sn given c))"
  shows "lo_trust opts = Trusted \<or> lo_trust opts = ServerTls \<and> given \<noteq> [] \<longrightarrow>
      (\<exists>key. lo_key opts = Some key \<and> given = hmac C key (SERVER @ nonce @ sn))"
  using assms by (auto simp: client_answers_def asked_iff Let_def proves_iff key_proof_def split: option.splits if_splits)

lemma client_opens:
  assumes "options_ok C opts" "easy c" "length nonce = 16" "token_length (lo_token opts) < 2 ^ 31"
  obtains c1 c2 where "set_timeout (ReadTimeout (Some (lo_handshake_timeout opts))) c = (Inr (), c1)"
    "write_frame (Hello (lo_trust opts) nonce (offer_to_value (client_offer opts))) c1 = (Inr (), c2)"
    "easy c2" "same_peer c c2" "cn_reads c2 = cn_reads c"
    "cn_sent c2 = cn_sent c @ framed (spelt (Hello (lo_trust opts) nonce (offer_to_value (client_offer opts))))"
proof -
  obtain c1 where 1: "set_timeout (ReadTimeout (Some (lo_handshake_timeout opts))) c = (Inr (), c1)" "easy c1" "same_peer c c1"
    "cn_reads c1 = cn_reads c" "cn_sent c1 = cn_sent c" using set_timeout_easy [OF assms(2)] by metis
  let ?m = "Hello (lo_trust opts) nonce (offer_to_value (client_offer opts))"
  have "length (spelt ?m) < 2 ^ 32" using hello_ok(2) [OF assms(1,3,4), of "lo_trust opts"] assms(4) by simp
  then obtain c2 where "write_frame ?m c1 = (Inr (), c2)" "easy c2" "same_peer c1 c2"
    "cn_reads c2 = cn_reads c1" "cn_sent c2 = cn_sent c1 @ framed (spelt ?m)"
    using write_frame_easy [OF 1(2) hello_ok(1) [OF assms(1,3,4)]] by metis
  then show thesis using that 1 by (simp add: same_peer_def)
qed

lemma client_trusts:
  assumes "crypto_ok C" "options_ok C opts" "easy c" "length nonce = 16" "token_length (lo_token opts) < 2 ^ 31"
    and "\<not> client_refuses opts c" "answers C opts c nonce sn given offered"
  obtains c' where "client C drawn nonce opts c = (Inr (settled opts (offer_from_value offered (client_offer opts)) c), c')"
    "cn_sent c' = cn_sent c @ framed (spelt (Hello (lo_trust opts) nonce (offer_to_value (client_offer opts)))) @
       client_proof C opts nonce sn given"
proof -
  let ?m = "Welcome sn given offered" and ?theirs = "offer_from_value offered (client_offer opts)"
  obtain es where r: "read_frame HANDSHAKE_MAX_FRAME (cn_reads c) = (Inr (Some (spelt ?m)), es)" and m: "message_ok ?m"
    using assms(7) unfolding answers_def by blast
  obtain c1 c2 where 2: "set_timeout (ReadTimeout (Some (lo_handshake_timeout opts))) c = (Inr (), c1)"
    "write_frame (Hello (lo_trust opts) nonce (offer_to_value (client_offer opts))) c1 = (Inr (), c2)"
    "easy c2" "same_peer c c2" "cn_reads c2 = cn_reads c"
    "cn_sent c2 = cn_sent c @ framed (spelt (Hello (lo_trust opts) nonce (offer_to_value (client_offer opts))))"
    by (rule client_opens [OF assms(2-5)])
  let ?c = "c2\<lparr>cn_reads := es\<rparr>"
  have rh: "read_handshake c2 = (Inr (spelt ?m), ?c)" using read_handshake_easy r 2(5) by metis
  have e: "easy ?c" using 2(3) by simp
  have a: "lo_trust opts = Trusted \<or> lo_trust opts = ServerTls \<and> given \<noteq> [] \<longrightarrow>
      (\<exists>key. lo_key opts = Some key \<and> given = hmac C key (SERVER @ nonce @ sn))" using assms(7) unfolding answers_def by blast
  obtain c3 where 3: "client_answers C opts nonce sn given ?c = (Inr (), c3)" "easy c3" "same_peer ?c c3"
    "cn_sent c3 = cn_sent ?c @ client_proof C opts nonce sn given" by (rule client_answers_ok [OF assms(1) e a])
  let ?d = "deed_done (ReadAhead READ_AHEAD) c3"
  have d: "easy ?d" using 3(2) by simp
  obtain c4 where 4: "finish_setup opts ?theirs ?d = (Inr (settled opts ?theirs ?d), c4)" "cn_sent c4 = cn_sent ?d"
    by (rule finish_setup_easy [OF d])
  have "same_peer c ?d" using 2(4) 3(3) by (simp add: same_peer_def)
  then show thesis using that [of c4] 2(1,2,6) rh 3(1,4) 4 assms(6) message_decode_complete [OF m, of drawn] settled_same [of c ?d]
    by (simp add: client_def del: spelt.simps)
qed

lemma client_trusted:
  assumes "crypto_ok C" "options_ok C opts" "easy c" "length nonce = 16" "token_length (lo_token opts) < 2 ^ 31"
    and "is_ok (fst (client C drawn nonce opts c))"
  obtains sn given offered where "\<not> client_refuses opts c" "answers C opts c nonce sn given offered"
proof -
  have n: "\<not> client_refuses opts c" using assms(6) by (auto simp: client_def)
  obtain c1 c2 where 2: "set_timeout (ReadTimeout (Some (lo_handshake_timeout opts))) c = (Inr (), c1)"
    "write_frame (Hello (lo_trust opts) nonce (offer_to_value (client_offer opts))) c1 = (Inr (), c2)"
    "cn_reads c2 = cn_reads c" using client_opens [OF assms(2-5)] by metis
  obtain b es where b: "read_frame HANDSHAKE_MAX_FRAME (cn_reads c) = (Inr (Some b), es)"
    "read_handshake c2 = (Inr b, c2\<lparr>cn_reads := es\<rparr>)"
    using assms(6) n 2 read_handshake_Inr [of c2] read_handshake_easy [of c2] by (fastforce simp: client_def dest!: do_then_ok)
  obtain sn given offered where d: "message_decode drawn b = Inr (Welcome sn given offered)"
    "is_ok (fst (client_answers C opts nonce sn given (c2\<lparr>cn_reads := es\<rparr>)))"
    using assms(6) n 2(1,2) b(2) by (auto simp: client_def split: sum.splits message.splits dest!: do_then_ok)
  have "answers C opts c nonce sn given offered"
    using client_answers_refused [OF assms(1) d(2)] message_decode_sound [OF d(1)] b(1)
    unfolding answers_def by blast
  with n show thesis by (rule that)
qed

text \<open>C25: a client starts a link exactly where its options and the transport allow one at all and the
  server answers with a WELCOME which, at the trusted level, and at server TLS where the server
  proves a key, carries the code of the server's label and both nonces under the client's key.\<close>

theorem a_client_trusts_exactly:
  assumes "crypto_ok C" "options_ok C opts" "easy c" "length nonce = 16" "token_length (lo_token opts) < 2 ^ 31"
  shows "fst (client C drawn nonce opts c) = Inr s \<longleftrightarrow>
    \<not> client_refuses opts c \<and>
    (\<exists>sn given offered. answers C opts c nonce sn given offered \<and>
       s = settled opts (offer_from_value offered (client_offer opts)) c)"
proof
  assume l: "fst (client C drawn nonce opts c) = Inr s"
  then have "is_ok (fst (client C drawn nonce opts c))" by simp
  then obtain sn given offered where i: "\<not> client_refuses opts c" "answers C opts c nonce sn given offered"
    by (rule client_trusted [OF assms])
  with l show "\<not> client_refuses opts c \<and> (\<exists>sn given offered. answers C opts c nonce sn given offered \<and>
       s = settled opts (offer_from_value offered (client_offer opts)) c)"
    using client_trusts [OF assms i, of drawn] by (metis fst_conv sum.inject(2))
next
  assume "\<not> client_refuses opts c \<and> (\<exists>sn given offered. answers C opts c nonce sn given offered \<and>
       s = settled opts (offer_from_value offered (client_offer opts)) c)"
  then show "fst (client C drawn nonce opts c) = Inr s" using client_trusts [OF assms] by (metis fst_conv)
qed

section \<open>Two ends that face each other\<close>

text \<open>A client and a server on one link: each reads what the other has sent, in pieces of any size,
  they are of one level, each accepts what its transport says, and the client's token is the one the
  server was given.\<close>

definition facing ::
  "crypto \<Rightarrow> (reason \<Rightarrow> str) \<Rightarrow> u64 \<times> u64 \<Rightarrow> u8 list \<Rightarrow> link_options \<Rightarrow> conn \<Rightarrow> u64 \<times> u64 \<Rightarrow> u8 list \<Rightarrow> link_options \<Rightarrow> conn \<Rightarrow> bool" where
  "facing C say d1 cn co cc d2 sn so cs \<longleftrightarrow>
     options_ok C co \<and> options_ok C so \<and> easy cc \<and> easy cs \<and> clean (cn_reads cc) \<and> clean (cn_reads cs) \<and>
     cn_sent cc = [] \<and> cn_sent cs = [] \<and> length cn = 16 \<and> length sn = 16 \<and> lo_trust so = lo_trust co \<and>
     \<not> client_refuses co cc \<and> level_held so cs \<and> brings_token C so (lo_token co) \<and> token_length (lo_token co) \<le> 65000 \<and>
     to_come (cn_reads cs) = cn_sent (snd (client C d1 cn co cc)) \<and>
     to_come (cn_reads cc) = cn_sent (snd (server C say d2 sn so cs))"

lemma grows_finish_deed: "grows c (snd (finish_setup opts theirs (deed_done d c)))"
  using grows_finish [of "deed_done d c" opts theirs] by (simp add: grows_def)

lemma grows_client_answers: "grows c (snd (client_answers C opts nonce sn given c))"
  by (simp add: client_answers_def Let_def grows_steps trust_error_def split: option.splits)

lemma client_sends_hello:
  assumes "options_ok C opts" "easy c" "length nonce = 16" "token_length (lo_token opts) < 2 ^ 31" "\<not> client_refuses opts c"
  shows "prefix (cn_sent c @ framed (spelt (Hello (lo_trust opts) nonce (offer_to_value (client_offer opts)))))
    (cn_sent (snd (client C drawn nonce opts c)))"
proof -
  obtain c1 c2 where 2: "set_timeout (ReadTimeout (Some (lo_handshake_timeout opts))) c = (Inr (), c1)"
    "write_frame (Hello (lo_trust opts) nonce (offer_to_value (client_offer opts))) c1 = (Inr (), c2)"
    "cn_sent c2 = cn_sent c @ framed (spelt (Hello (lo_trust opts) nonce (offer_to_value (client_offer opts))))"
    using client_opens [OF assms(1-4)] by metis
  have "grows c2 (snd (client C drawn nonce opts c))"
    using 2(1,2) assms(5) unfolding client_def
    by (auto intro!: grows_do_then grows_steps grows_client_answers grows_finish_deed split: sum.splits message.splits)
  then show ?thesis by (simp add: grows_def 2(3) del: spelt.simps)
qed

lemma grows_server_checks: "grows c (snd (server_checks C say drawn opts cn nonce c))"
  unfolding server_checks_def
  by (auto intro!: grows_do_then grows_steps simp: grows_refuse split: sum.splits message.splits)

lemma server_sends_welcome:
  assumes "options_ok C opts" "easy c" "length nonce = 16"
    and "read_frame HANDSHAKE_MAX_FRAME (cn_reads c) = (Inr (Some (spelt (Hello (lo_trust opts) cn offered))), es)"
    and "message_ok (Hello (lo_trust opts) cn offered)" "level_held opts c"
    and "brings_token C opts (of_token (offer_from_value offered (server_offer opts)))"
    and "server_proof C opts cn nonce = Inr given" "length given \<le> 32"
  shows "prefix (cn_sent c @ framed (spelt (Welcome nonce given (offer_to_value (server_offer opts)))))
    (cn_sent (snd (server C say drawn nonce opts c)))"
proof -
  let ?theirs = "offer_from_value offered (server_offer opts)" and ?m = "Welcome nonce given (offer_to_value (server_offer opts))"
  obtain c1 where 1: "set_timeout (ReadTimeout (Some (lo_handshake_timeout opts))) c = (Inr (), c1)" "easy c1" "same_peer c c1"
    "cn_reads c1 = cn_reads c" "cn_sent c1 = cn_sent c" using set_timeout_easy [OF assms(2)] by metis
  let ?c = "c1\<lparr>cn_reads := es\<rparr>"
  have rh: "read_handshake c1 = (Inr (spelt (Hello (lo_trust opts) cn offered)), ?c)"
    using read_handshake_easy assms(4) 1(4) by metis
  have "hello_refused opts ?c (lo_trust opts) = None"
    using assms(6) level_held_same [of c ?c] 1(3) by (simp add: hello_refused_iff)
  then have s: "server C say drawn nonce opts c = server_welcomes C say drawn nonce opts cn ?theirs ?c"
    using 1(1) rh message_decode_complete [OF assms(5)] by (simp add: server_def del: spelt.simps)
  have e: "easy (server_bounds opts ?c)" and sb: "cn_sent (server_bounds opts ?c) = cn_sent c"
    using 1(2,5) by (simp_all add: server_bounds_def)
  have "length (spelt ?m) < 2 ^ 32" using welcome_ok(2) [OF assms(1,3,9)] by simp
  then obtain c2 where 2: "write_frame ?m (server_bounds opts ?c) = (Inr (), c2)" "cn_sent c2 = cn_sent c @ framed (spelt ?m)"
    using write_frame_easy [OF e welcome_ok(1) [OF assms(1,3,9)]] sb by metis
  have "grows c2 (snd (server C say drawn nonce opts c))"
    using 2(1) assms(7,8) brings_token_iff [OF assms(1)] unfolding s server_welcomes_def
    by (auto intro!: grows_do_then grows_server_checks grows_finish_deed)
  then show ?thesis by (simp add: grows_def 2(2) del: spelt.simps)
qed

text \<open>Each side's first frame reaches the other, whatever the keys.\<close>

lemma facing_meet:
  assumes "facing C say d1 cn co cc d2 sn so cs" "server_proof C so cn sn = Inr given" "length given \<le> 32"
  obtains es where
    "read_frame HANDSHAKE_MAX_FRAME (cn_reads cs) = (Inr (Some (spelt (Hello (lo_trust co) cn (offer_to_value (client_offer co))))), es)"
    "clean es" "cn_sent (snd (client C d1 cn co cc)) = framed (spelt (Hello (lo_trust co) cn (offer_to_value (client_offer co)))) @ to_come es"
    "\<exists>es'. read_frame HANDSHAKE_MAX_FRAME (cn_reads cc) = (Inr (Some (spelt (Welcome sn given (offer_to_value (server_offer so))))), es')"
proof -
  let ?h = "Hello (lo_trust co) cn (offer_to_value (client_offer co))" and ?w = "Welcome sn given (offer_to_value (server_offer so))"
  note f = assms(1) [unfolded facing_def]
  have tl: "token_length (lo_token co) < 2 ^ 31" using f by simp
  have h: "message_ok ?h" "length (spelt ?h) \<le> 300 + token_length (lo_token co)" using hello_ok [OF _ _ tl] f by blast+
  have "prefix (cn_sent cc @ framed (spelt ?h)) (cn_sent (snd (client C d1 cn co cc)))"
    using client_sends_hello [OF _ _ _ tl] f by blast
  then obtain ys where ys: "cn_sent (snd (client C d1 cn co cc)) = framed (spelt ?h) @ ys" using f unfolding prefix_def by auto
  obtain es where es: "read_frame HANDSHAKE_MAX_FRAME (cn_reads cs) = (Inr (Some (spelt ?h)), es)" "clean es" "to_come es = ys"
    using read_one [of "cn_reads cs" "spelt ?h" ys HANDSHAKE_MAX_FRAME] f ys h(2) by (auto simp: HANDSHAKE_MAX_FRAME_def simp del: spelt.simps)
  have rt: "offer_from_value (offer_to_value (client_offer co)) (server_offer so) = client_offer co"
    using f by (intro offer_round_trip) (simp add: options_ok_def)
  have "prefix (cn_sent cs @ framed (spelt ?w)) (cn_sent (snd (server C say d2 sn so cs)))"
    using f es(1) h(1) assms(2,3) rt by (intro server_sends_welcome) (auto simp: client_offer_def simp del: spelt.simps)
  then obtain zs where zs: "to_come (cn_reads cc) = framed (spelt ?w) @ zs" using f unfolding prefix_def by auto
  have "length (spelt ?w) \<le> 300" using welcome_ok(2) [OF _ _ assms(3)] f by blast
  then have "\<exists>es'. read_frame HANDSHAKE_MAX_FRAME (cn_reads cc) = (Inr (Some (spelt ?w)), es')"
    using read_one [OF _ zs, of HANDSHAKE_MAX_FRAME] f by (auto simp: HANDSHAKE_MAX_FRAME_def simp del: spelt.simps)
  then show thesis using that es ys by simp
qed

abbreviation client_asked :: "link_options \<Rightarrow> u8 list \<Rightarrow> bool" where
  "client_asked opts given \<equiv> lo_trust opts = Trusted \<or> lo_trust opts = ServerTls \<and> given \<noteq> []"

lemma server_proof_known:
  assumes "crypto_ok C" "proves_key so" "lo_key so = Some key" "lo_trust so = lo_trust co"
  shows "server_proof C so cn sn = Inr (key_proof C key SERVER cn sn) \<and> length (key_proof C key SERVER cn sn) \<le> 32 \<and>
    client_asked co (key_proof C key SERVER cn sn)"
proof -
  note l = HMAC_length [OF assms(1), of key SERVER cn sn]
  then have "key_proof C key SERVER cn sn \<noteq> []" by auto
  then show ?thesis using l assms(2-4) by (auto simp: server_proof_def need_key_def proves_key_def split: trust.splits)
qed

lemma one_key_proof:
  assumes "crypto_ok C" "lo_trust so = lo_trust co" "lo_key so = lo_key co" "lo_trust co = Trusted \<longrightarrow> lo_key co \<noteq> None"
  obtains given where "server_proof C so cn sn = Inr given" "length given \<le> 32"
    "client_asked co given \<longrightarrow> (\<exists>key. lo_key co = Some key \<and> given = hmac C key (SERVER @ cn @ sn))"
    "client_asked co given \<longleftrightarrow> proves_key so"
proof (cases "proves_key so")
  case True
  then obtain key where k: "lo_key so = Some key" using assms(2-4) by (auto simp: proves_key_def split: trust.splits)
  show thesis using that [of "key_proof C key SERVER cn sn"] server_proof_known [OF assms(1) True k assms(2), of cn sn] True k assms(3)
    by (auto simp: key_proof_def)
next
  case False
  then show thesis using that [of "[]"] assms(2) by (auto simp: server_proof_def proves_key_def split: trust.splits)
qed

lemma client_proof_read:
  assumes "crypto_ok C" "clean es" "to_come es = client_proof C co cn sn given" "client_asked co given \<longleftrightarrow> proves_key so"
    and "lo_key so = lo_key co" "proves_key so \<longrightarrow> lo_key so \<noteq> None"
  shows "brings_proof C so cn sn es"
proof (cases "proves_key so")
  case True
  then obtain key where k: "lo_key so = Some key" using assms(6) by blast
  let ?p = "Proof (hmac C key (CLIENT @ cn @ sn))"
  have "lo_key co = Some key" using k assms(5) by simp
  then have "to_come es = framed (spelt ?p) @ []" using assms(3,4) True by (simp add: client_proof_def del: spelt.simps)
  moreover have "length (spelt ?p) \<le> 300" using proof_ok assms(1) unfolding crypto_ok_def by blast
  ultimately have "\<exists>es'. read_frame HANDSHAKE_MAX_FRAME es = (Inr (Some (spelt ?p)), es')"
    using read_one [OF assms(2), of "spelt ?p" "[]" HANDSHAKE_MAX_FRAME] by (auto simp: HANDSHAKE_MAX_FRAME_def simp del: spelt.simps)
  then show ?thesis using k unfolding brings_proof_def by blast
qed (simp add: brings_proof_def)


text \<open>A client whose key gives another code than the server's stops there, having sent its HELLO alone.\<close>

lemma client_distrusts:
  assumes "crypto_ok C" "options_ok C opts" "easy c" "length nonce = 16" "token_length (lo_token opts) < 2 ^ 31"
    and "\<not> client_refuses opts c"
    and "read_frame HANDSHAKE_MAX_FRAME (cn_reads c) = (Inr (Some (spelt (Welcome sn given offered))), es)"
    and "message_ok (Welcome sn given offered)" "client_asked opts given"
    and "\<forall>key. lo_key opts = Some key \<longrightarrow> given \<noteq> hmac C key (SERVER @ nonce @ sn)"
  shows "fst (client C drawn nonce opts c) = Inl LinkTrust \<and>
    cn_sent (snd (client C drawn nonce opts c)) = cn_sent c @ framed (spelt (Hello (lo_trust opts) nonce (offer_to_value (client_offer opts))))"
proof -
  obtain c1 c2 where 2: "set_timeout (ReadTimeout (Some (lo_handshake_timeout opts))) c = (Inr (), c1)"
    "write_frame (Hello (lo_trust opts) nonce (offer_to_value (client_offer opts))) c1 = (Inr (), c2)"
    "cn_reads c2 = cn_reads c"
    "cn_sent c2 = cn_sent c @ framed (spelt (Hello (lo_trust opts) nonce (offer_to_value (client_offer opts))))"
    using client_opens [OF assms(2-5)] by metis
  let ?c = "c2\<lparr>cn_reads := es\<rparr>"
  have rh: "read_handshake c2 = (Inr (spelt (Welcome sn given offered)), ?c)" using read_handshake_easy assms(7) 2(3) by metis
  have "client_answers C opts nonce sn given ?c = trust_error ?c"
    using assms(9,10) proves_iff [OF assms(1)]
    by (auto simp: client_answers_def asked_iff Let_def key_proof_def split: option.splits)
  then show ?thesis using 2 rh assms(6) message_decode_complete [OF assms(8), of drawn]
    by (simp add: client_def trust_error_def del: spelt.simps)
qed

lemma read_frame_nothing: "clean es \<Longrightarrow> to_come es = [] \<Longrightarrow> fst (read_frame max' es) = Inr None"
  using read_frame_clean [of es max'] by (auto simp: header_of_def)

text \<open>Where the two ends hold different keys, as far as the code over this link's nonces tells,
  neither starts: the client says it does not trust the server, and the server, left without a proof,
  ends in an error.\<close>

theorem other_keys_make_no_link:
  assumes "crypto_ok C" "facing C say d1 cn co cc d2 sn so cs" "proves_key so" "lo_key so = Some theirs"
    and "\<forall>key. lo_key co = Some key \<longrightarrow> hmac C theirs (SERVER @ cn @ sn) \<noteq> hmac C key (SERVER @ cn @ sn)"
  shows "fst (client C d1 cn co cc) = Inl LinkTrust \<and> \<not> is_ok (fst (server C say d2 sn so cs))"
proof -
  note f = assms(2) [unfolded facing_def]
  let ?given = "key_proof C theirs SERVER cn sn"
  have g: "server_proof C so cn sn = Inr ?given" "length ?given \<le> 32" "client_asked co ?given"
    using server_proof_known [OF assms(1,3,4), of co cn sn] f by simp_all
  obtain es es' where m:
    "read_frame HANDSHAKE_MAX_FRAME (cn_reads cs) = (Inr (Some (spelt (Hello (lo_trust co) cn (offer_to_value (client_offer co))))), es)"
    "clean es" "cn_sent (snd (client C d1 cn co cc)) = framed (spelt (Hello (lo_trust co) cn (offer_to_value (client_offer co)))) @ to_come es"
    "read_frame HANDSHAKE_MAX_FRAME (cn_reads cc) = (Inr (Some (spelt (Welcome sn ?given (offer_to_value (server_offer so))))), es')"
    using facing_meet [OF assms(2) g(1,2)] by metis
  have k: "\<forall>key. lo_key co = Some key \<longrightarrow> ?given \<noteq> hmac C key (SERVER @ cn @ sn)" using assms(5) by (simp add: key_proof_def)
  have c: "fst (client C d1 cn co cc) = Inl LinkTrust" "to_come es = []"
    using client_distrusts [OF assms(1) _ _ _ _ _ m(4) _ g(3) k, of d1] welcome_ok(1) [OF _ _ g(2), of C so sn] f m(3) by simp_all
  have "\<not> is_ok (fst (server C say d2 sn so cs))"
  proof
    assume "is_ok (fst (server C say d2 sn so cs))"
    then obtain cn' offered es2 where "introduces C so cs sn cn' offered es2" using server_admitted [OF assms(1)] f by metis
    then have "brings_proof C so cn' sn es" using m(1) unfolding introduces_def by simp
    then show False using assms(3) read_frame_nothing [OF m(2) c(2), of HANDSHAKE_MAX_FRAME] by (auto simp: brings_proof_def)
  qed
  with c(1) show ?thesis by simp
qed

section \<open>Strangers and reflections\<close>

text \<open>The deeds that let a peer send more: a higher bound on frames, or frames read ahead.\<close>

fun raising :: "deed \<Rightarrow> bool" where
  "raising (MaxFrame n) = True"
| "raising (ReadAhead n) = True"
| "raising (PeerMaxFrame n) = True"
| "raising _ = False"

definition raised :: "conn \<Rightarrow> deed list" where
  "raised c = filter raising (cn_did c)"

lemma raised_deed: "raised (deed_done d c) = (if raising d then raised c @ [d] else raised c)"
  by (simp add: raised_def)

lemma raised_steps:
  "raised (snd (set_timeout (ReadTimeout t) c)) = raised c" "raised (snd (read_handshake c)) = raised c"
  "raised (snd (write_frame m c)) = raised c" "raised (snd (refuse_link say status why c)) = raised c"
  by (auto simp: set_timeout_def read_handshake_def write_frame_def refuse_link_def raised_def
      split: list.splits option.splits prod.splits sum.splits)

lemma raised_server_checks:
  "\<not> is_ok (fst (server_checks C say drawn opts cn nonce c)) \<Longrightarrow> raised (snd (server_checks C say drawn opts cn nonce c)) = raised c"
proof (cases "read_handshake c")
  case (Pair r c1)
  assume "\<not> is_ok (fst (server_checks C say drawn opts cn nonce c))"
  moreover have "raised c1 = raised c" using raised_steps(2) [of c] Pair by simp
  ultimately show ?thesis using Pair
    by (cases r) (auto simp: server_checks_def raised_steps split: sum.splits message.splits if_splits)
qed

lemma set_timeout_keeps: "same_peer c (snd (set_timeout d c))" "cn_reads (snd (set_timeout d c)) = cn_reads c"
  by (auto simp: set_timeout_def same_peer_def split: list.splits option.splits)

lemma server_welcomes_raised:
  assumes "crypto_ok C" "options_ok C opts" "proves_key opts"
    and "raised (snd (server_welcomes C say drawn nonce opts cn theirs c)) \<noteq> raised c"
  shows "brings_token C opts (of_token theirs) \<and> brings_proof C opts cn nonce (cn_reads c)"
proof -
  let ?c = "server_bounds opts c"
  have rb: "raised ?c = raised c" "cn_reads ?c = cn_reads c" using assms(3) by (simp_all add: server_bounds_def raised_deed)
  have t: "brings_token C opts (of_token theirs)"
    using assms(4) brings_token_iff [OF assms(2)] by (auto simp: server_welcomes_def raised_steps split: if_splits)
  then have n: "\<not> (case lo_required opts of Some required \<Rightarrow> \<not> admits C required (of_token theirs) | None \<Rightarrow> False)"
    using brings_token_iff [OF assms(2)] by simp
  obtain given where g: "server_proof C opts cn nonce = Inr given"
    using assms(4) n rb by (cases "server_proof C opts cn nonce") (simp_all add: server_welcomes_def Let_def)
  obtain r c1 where w: "write_frame (Welcome nonce given (offer_to_value (server_offer opts))) ?c = (r, c1)" by fastforce
  have c1: "raised c1 = raised c" "cn_reads c1 = cn_reads c"
    using raised_steps(3) write_frame_reads w rb by (metis snd_conv)+
  have "is_ok (fst (server_checks C say drawn opts cn nonce c1))"
  proof (rule ccontr)
    assume bad: "\<not> is_ok (fst (server_checks C say drawn opts cn nonce c1))"
    obtain q c2 where q: "server_checks C say drawn opts cn nonce c1 = (q, c2)" by fastforce
    show False using assms(4) n g w c1 bad raised_server_checks [OF bad] q
      by (cases r; cases q) (simp_all add: server_welcomes_def Let_def)
  qed
  then show ?thesis using t server_checks_not_brought [OF assms(1)] c1(2) by metis
qed


text \<open>A proof stands for one side and one pair of nonces: among messages no two of which have one
  code under the key, what was made for a label and two nonces proves that label over those nonces and
  nothing else. So a proof sent back to the side that made it, or sent again under other nonces, proves
  nothing.\<close>

theorem proofs_are_not_reused:
  assumes "crypto_ok C" "length c = 16" "length c' = 16" "l \<in> {SERVER, CLIENT}" "l' \<in> {SERVER, CLIENT}"
    and "inj_on (hmac C key) M" "l @ c @ s \<in> M" "l' @ c' @ s' \<in> M"
  shows "proves C key l c s (key_proof C key l' c' s') \<longleftrightarrow> l = l' \<and> c = c' \<and> s = s'"
proof -
  have "proves C key l c s (key_proof C key l' c' s') \<longleftrightarrow> l' @ c' @ s' = l @ c @ s"
    using proves_iff [OF assms(1)] inj_on_eq_iff [OF assms(6,8,7)] by (simp add: key_proof_def)
  then show ?thesis using proof_message_inject [OF assms(2-5)] by metis
qed

section \<open>A link of two ends\<close>

text \<open>Codes and digests for the witnesses: the first 32 bytes.\<close>

definition first_bytes :: crypto where
  "first_bytes = \<lparr>hmac = (\<lambda>key msg. take 32 (key @ msg @ replicate 32 0)),
     hmac_verify = (\<lambda>key msg given. given = take 32 (key @ msg @ replicate 32 0)),
     sha256 = (\<lambda>msg. take 32 (msg @ replicate 32 0))\<rparr>"

lemma first_bytes_ok: "crypto_ok first_bytes"
  by (auto simp: crypto_ok_def first_bytes_def min_def)

definition quiet_conn :: "read_event list \<Rightarrow> conn" where
  "quiet_conn es = \<lparr>cn_reads = es, cn_writes = [], cn_sent = [], cn_sets = [], cn_peer_id = None, cn_encrypted = False, cn_did = []\<rparr>"

definition keyed :: "u8 \<Rightarrow> link_options" where
  "keyed k = options_key [k] (options_new Trusted)"

abbreviation "nonce1 \<equiv> replicate 16 (1 :: u8)"
abbreviation "nonce2 \<equiv> replicate 16 (2 :: u8)"
abbreviation "hello_of k \<equiv> Hello Trusted nonce1 (offer_to_value (client_offer (keyed k)))"
abbreviation "proof_of k \<equiv> Proof (hmac first_bytes [k] (CLIENT @ nonce1 @ nonce2))"

text \<open>A client that has sent what it has to, the server that reads it, and the client that reads the
  server.\<close>

definition met_server :: "u8 \<Rightarrow> bool \<Rightarrow> conn" where
  "met_server k proven = quiet_conn (Bytes (framed (spelt (hello_of k))) # (if proven then [Bytes (framed (spelt (proof_of k)))] else []))"

abbreviation "serves k c \<equiv> server first_bytes (\<lambda>_. []) (0, 0) nonce2 (keyed k) c"
abbreviation "calls k c \<equiv> client first_bytes (0, 0) nonce1 (keyed k) c"

definition met_client :: "u8 \<Rightarrow> u8 \<Rightarrow> bool \<Rightarrow> conn" where
  "met_client k k' proven = quiet_conn [Bytes (cn_sent (snd (serves k' (met_server k proven))))]"

lemma quiet_conn_easy [simp]: "easy (quiet_conn es)" "cn_reads (quiet_conn es) = es" "cn_sent (quiet_conn es) = []"
  "cn_peer_id (quiet_conn es) = None" "cn_encrypted (quiet_conn es) = False" "raised (quiet_conn es) = []"
  by (simp_all add: easy_def quiet_conn_def raised_def)

lemma keyed_simps [simp]: "lo_trust (keyed k) = Trusted" "lo_key (keyed k) = Some [k]" "lo_token (keyed k) = None"
  "proves_key (keyed k)" "options_ok C (keyed k)" "\<not> client_refuses (keyed k) c" "level_held (keyed k) c"
  "brings_token C (keyed k) t" "client_offer (keyed k') = client_offer (keyed k)"
  using options_set_ok(1) [OF options_new_ok, of C "[k]" Trusted]
  by (simp_all add: keyed_def options_key_def options_new_def proves_key_def client_refuses_def level_held_def brings_token_def client_offer_def)

lemma framed_some: "framed b \<noteq> []"
proof -
  have "length (framed b) \<noteq> 0" by (simp add: framed_def)
  then show ?thesis by simp
qed

lemma hello_of_read:
  assumes "es = Bytes (framed (spelt (hello_of k))) # es'" "clean es'"
  obtains es2 where "read_frame HANDSHAKE_MAX_FRAME es = (Inr (Some (spelt (hello_of k))), es2)" "clean es2" "to_come es2 = to_come es'"
proof -
  have l: "length (spelt (hello_of k)) \<le> 300" using hello_ok(2) [of first_bytes "keyed k" nonce1 Trusted] by (simp add: token_length_def del: spelt.simps)
  have "clean es" "to_come es = framed (spelt (hello_of k)) @ to_come es'"
    using assms framed_some by (simp_all add: clean_def to_come_def del: spelt.simps)
  then show thesis using that read_one [of es "spelt (hello_of k)" "to_come es'" HANDSHAKE_MAX_FRAME] l
    by (auto simp: HANDSHAKE_MAX_FRAME_def simp del: spelt.simps)
qed

lemma hello_of_ok: "message_ok (hello_of k)"
  by (rule hello_ok(1) [of first_bytes]) (simp_all add: token_length_def)

lemma met_server_welcomes:
  "prefix (framed (spelt (Welcome nonce2 (key_proof first_bytes [k'] SERVER nonce1 nonce2) (offer_to_value (server_offer (keyed k'))))))
     (cn_sent (snd (serves k' (met_server k proven))))"
proof -
  have c: "clean (if proven then [Bytes (framed (spelt (proof_of k)))] else [])" using framed_some by (simp add: clean_def)
  obtain es where es: "read_frame HANDSHAKE_MAX_FRAME (cn_reads (met_server k proven)) = (Inr (Some (spelt (hello_of k))), es)"
    using hello_of_read [OF refl c] by (metis met_server_def quiet_conn_easy(2))
  have h: "lo_trust (keyed k') = Trusted" "client_offer (keyed k) = client_offer (keyed k')" by simp_all
  have "length (key_proof first_bytes [k'] SERVER nonce1 nonce2) \<le> 32" using HMAC_length [OF first_bytes_ok] by simp
  from server_sends_welcome [OF _ _ _ es [folded h(1)] _ _ _ _ this, of first_bytes nonce2]
  show ?thesis using hello_of_ok [of k] by (simp add: server_proof_def need_key_def met_server_def del: spelt.simps message_ok.simps)
qed

abbreviation "welcome_of k \<equiv> Welcome nonce2 (key_proof first_bytes [k] SERVER nonce1 nonce2) (offer_to_value (server_offer (keyed k)))"

lemma welcome_of_ok: "message_ok (welcome_of k)" "length (spelt (welcome_of k)) \<le> 300"
  using HMAC_length [OF first_bytes_ok, of "[k]" SERVER nonce1 nonce2]
  by (intro welcome_ok [of first_bytes]; simp)+

lemma met_client_reads:
  obtains es where "read_frame HANDSHAKE_MAX_FRAME (cn_reads (met_client k k' proven)) = (Inr (Some (spelt (welcome_of k'))), es)"
    "clean (cn_reads (met_client k k' proven))"
proof -
  obtain zs where "cn_sent (snd (serves k' (met_server k proven))) = framed (spelt (welcome_of k')) @ zs"
    using met_server_welcomes unfolding prefix_def by metis
  then have r: "cn_reads (met_client k k' proven) = [Bytes (framed (spelt (welcome_of k')) @ zs)]" by (simp add: met_client_def)
  then have "clean (cn_reads (met_client k k' proven))" "to_come (cn_reads (met_client k k' proven)) = framed (spelt (welcome_of k')) @ zs"
    using framed_some by (simp_all add: clean_def to_come_def del: spelt.simps)
  then show thesis
    using that read_one [of "cn_reads (met_client k k' proven)" "spelt (welcome_of k')" zs HANDSHAKE_MAX_FRAME] welcome_of_ok(2) [of k']
    by (auto simp: HANDSHAKE_MAX_FRAME_def simp del: spelt.simps)
qed

lemma met_answers:
  assumes "hmac first_bytes [k'] (SERVER @ nonce1 @ nonce2) = hmac first_bytes [k] (SERVER @ nonce1 @ nonce2)"
  shows "answers first_bytes (keyed k) (met_client k k' proven) nonce1 nonce2
    (hmac first_bytes [k'] (SERVER @ nonce1 @ nonce2)) (offer_to_value (server_offer (keyed k')))"
proof -
  obtain es where r: "read_frame HANDSHAKE_MAX_FRAME (cn_reads (met_client k k' proven)) = (Inr (Some (spelt (welcome_of k'))), es)"
    by (rule met_client_reads)
  show ?thesis using r welcome_of_ok(1) [of k'] assms
    by (auto simp: answers_def key_proof_def simp del: spelt.simps message_ok.simps)
qed

lemma met_client_sends:
  assumes "proven \<longleftrightarrow> hmac first_bytes [k'] (SERVER @ nonce1 @ nonce2) = hmac first_bytes [k] (SERVER @ nonce1 @ nonce2)"
  shows "cn_sent (snd (calls k (met_client k k' proven))) = to_come (cn_reads (met_server k proven))"
proof -
  obtain es where r: "read_frame HANDSHAKE_MAX_FRAME (cn_reads (met_client k k' proven)) = (Inr (Some (spelt (welcome_of k'))), es)"
    by (rule met_client_reads)
  have tl: "token_length (lo_token (keyed k)) < 2 ^ 31" by (simp add: token_length_def)
  have e: "easy (met_client k k' proven)" "cn_sent (met_client k k' proven) = []" by (simp_all add: met_client_def)
  show ?thesis
  proof (cases proven)
    case True
    from met_answers [OF True [unfolded assms]] have "answers first_bytes (keyed k) (met_client k k' proven) nonce1 nonce2
      (hmac first_bytes [k'] (SERVER @ nonce1 @ nonce2)) (offer_to_value (server_offer (keyed k')))" by blast
    from client_trusts [OF first_bytes_ok _ e(1) _ tl _ this]
    have "cn_sent (snd (calls k (met_client k k' proven))) = framed (spelt (hello_of k)) @ framed (spelt (proof_of k))"
      using e(2) by (simp add: client_proof_def del: spelt.simps) (metis snd_conv)
    with True show ?thesis by (simp add: met_server_def to_come_def del: spelt.simps)
  next
    case False
    then have "cn_sent (snd (calls k (met_client k k' proven))) = framed (spelt (hello_of k))"
      using client_distrusts [where drawn = "(0, 0)", OF first_bytes_ok _ e(1) _ tl _ r welcome_of_ok(1)] assms e(2)
      by (simp add: key_proof_def del: spelt.simps)
    with False show ?thesis by (simp add: met_server_def to_come_def del: spelt.simps)
  qed
qed

lemma met_facing:
  assumes "proven \<longleftrightarrow> hmac first_bytes [k'] (SERVER @ nonce1 @ nonce2) = hmac first_bytes [k] (SERVER @ nonce1 @ nonce2)"
  shows "facing first_bytes (\<lambda>_. []) (0, 0) nonce1 (keyed k) (met_client k k' proven) (0, 0) nonce2 (keyed k') (met_server k proven)"
proof -
  have "clean (cn_reads (met_client k k' proven))" by (rule met_client_reads)
  moreover have "clean (cn_reads (met_server k proven))" using framed_some by (simp add: met_server_def clean_def del: spelt.simps)
  ultimately show ?thesis using met_client_sends [OF assms]
    by (simp add: facing_def token_length_def met_client_def met_server_def to_come_def del: spelt.simps)
qed

lemma met_server_reads:
  obtains es where "read_frame HANDSHAKE_MAX_FRAME (cn_reads (met_server k proven)) = (Inr (Some (spelt (hello_of k))), es)"
    "clean es" "to_come es = (if proven then framed (spelt (proof_of k)) else [])"
proof -
  let ?r = "if proven then [Bytes (framed (spelt (proof_of k)))] else []"
  have c: "clean ?r" using framed_some by (simp add: clean_def)
  have "to_come ?r = (if proven then framed (spelt (proof_of k)) else [])" by (simp add: to_come_def)
  then show thesis using that hello_of_read [OF refl c] by (metis met_server_def quiet_conn_easy(2))
qed

lemma met_introduces:
  obtains es where "introduces first_bytes (keyed k) (met_server k True) nonce2 nonce1 (offer_to_value (client_offer (keyed k))) es"
proof -
  obtain es where r: "read_frame HANDSHAKE_MAX_FRAME (cn_reads (met_server k True)) = (Inr (Some (spelt (hello_of k))), es)"
    "clean es" "to_come es = framed (spelt (proof_of k))" using met_server_reads [of k True] by auto
  have "brings_proof first_bytes (keyed k) nonce1 nonce2 es"
    using client_proof_read [OF first_bytes_ok r(2), of "keyed k" nonce1 nonce2 "[]" "keyed k"] r(3)
    by (simp add: client_proof_def del: spelt.simps)
  then show thesis using that r(1) hello_of_ok [of k] by (simp add: introduces_def del: spelt.simps message_ok.simps)
qed

lemma unproven_not_introduced: "\<not> introduces first_bytes (keyed k') (met_server k False) nonce2 cn offered es"
proof
  assume i: "introduces first_bytes (keyed k') (met_server k False) nonce2 cn offered es"
  obtain es' where r: "read_frame HANDSHAKE_MAX_FRAME (cn_reads (met_server k False)) = (Inr (Some (spelt (hello_of k))), es')"
    "clean es'" "to_come es' = []" using met_server_reads [of k False] by auto
  have "brings_proof first_bytes (keyed k') cn nonce2 es'" using i r(1) unfolding introduces_def by simp
  then show False using read_frame_nothing [OF r(2,3), of HANDSHAKE_MAX_FRAME] by (auto simp: brings_proof_def)
qed

lemma other_first_bytes: "hmac first_bytes [7] m \<noteq> hmac first_bytes [8] m"
  by (simp add: first_bytes_def)

theorem a_server_admits_exactly_witness:
  "fst (serves 7 (met_server 7 True)) = Inr (settled (keyed 7) (client_offer (keyed 7)) (met_server 7 True))"
proof -
  have "offer_from_value (offer_to_value (client_offer (keyed 7))) (server_offer (keyed 7)) = client_offer (keyed 7)"
    using keyed_simps(5) by (intro offer_round_trip) (simp add: options_ok_def)
  moreover have "easy (met_server 7 True)" by (simp add: met_server_def)
  ultimately show ?thesis
    using met_introduces [of 7] a_server_admits_exactly [OF first_bytes_ok keyed_simps(5), of "met_server 7 True" nonce2]
    by (metis length_replicate)
qed

theorem a_client_trusts_exactly_witness:
  "fst (calls 7 (met_client 7 7 True)) = Inr (settled (keyed 7) (server_offer (keyed 7)) (met_client 7 7 True))"
proof -
  have "offer_from_value (offer_to_value (server_offer (keyed 7))) (client_offer (keyed 7)) = server_offer (keyed 7)"
    using server_offer_ok [OF keyed_simps(5)] by (intro offer_round_trip)
  moreover have "easy (met_client 7 7 True)" by (simp add: met_client_def)
  moreover have "token_length (lo_token (keyed 7)) < 2 ^ 31" by (simp add: token_length_def)
  ultimately show ?thesis
    using met_answers [OF refl, of 7 True] a_client_trusts_exactly [OF first_bytes_ok keyed_simps(5), of "met_client 7 7 True" nonce1]
      keyed_simps(6) by (metis length_replicate)
qed


theorem other_keys_make_no_link_witness:
  "fst (calls 8 (met_client 8 7 False)) = Inl LinkTrust \<and> \<not> is_ok (fst (serves 7 (met_server 8 False)))"
  using other_keys_make_no_link [OF first_bytes_ok met_facing, of False 7 8 "[7]"] other_first_bytes by simp


theorem proofs_are_not_reused_witness:
  "\<not> proves first_bytes [7] CLIENT nonce1 nonce2 (key_proof first_bytes [7] SERVER nonce1 nonce2)"
proof -
  let ?M = "{SERVER @ nonce1 @ nonce2, CLIENT @ nonce1 @ nonce2}"
  have "hmac first_bytes [7] (SERVER @ nonce1 @ nonce2) \<noteq> hmac first_bytes [7] (CLIENT @ nonce1 @ nonce2)"
    using labels by (simp add: first_bytes_def)
  then have i: "inj_on (hmac first_bytes [7]) ?M" by (simp add: inj_on_def)
  have "proves first_bytes [7] CLIENT nonce1 nonce2 (key_proof first_bytes [7] SERVER nonce1 nonce2) \<longleftrightarrow>
    CLIENT = SERVER \<and> nonce1 = nonce1 \<and> nonce2 = nonce2"
    by (rule proofs_are_not_reused [OF first_bytes_ok _ _ _ _ i]) simp_all
  then show ?thesis using labels(3) by simp
qed

end
