(* ===== verification/Pool.thy ===== *)
theory Pool
  imports Machines "HOL-Library.Multiset"
begin

text \<open>
  The threads a link's calls run on and the bound on calls in flight
  (\<open>guatiao-source-remote/src/link/pool.rs\<close>). \<open>Pool::place\<close> and \<open>Pool::work\<close> are cut where they let
  another thread in: at the lock, at the atomic count of places, at the start of a thread and at the
  channels. Each critical section is one function; callers and workers are multisets of program
  counters, one picked out by each step, so the steps of the machine are every interleaving. A job
  is a number here: what it does is not modelled but for the place it gives back, at some time before
  it returns. A wait of a worker may end by a timeout at any time. How long a worker polls is of
  \<open>Waits\<close>. \<open>Permits\<close> is a machine of its own.
\<close>

section \<open>The critical sections\<close>

text \<open>\<open>Pool\<close> and \<open>PoolState\<close>: the idle threads by number (their senders are the channels of those
  threads), the queued jobs, the count of threads and the last number given, the places taken, and
  how many there are.\<close>

record pool =
  po_idle :: "nat list"
  po_queued :: "nat list"
  po_threads :: nat
  po_next :: nat
  po_places :: nat
  po_max :: nat

definition pool_new :: "nat \<Rightarrow> pool" where
  "pool_new m = \<lparr>po_idle = [], po_queued = [], po_threads = 0, po_next = 0, po_places = 0, po_max = max m 1\<rparr>"

text \<open>The place a job is given first of all (\<open>fetch_update\<close>), and the drop of a \<open>Place\<close>.\<close>

definition take_place :: "pool \<Rightarrow> pool option" where
  "take_place p = (if po_places p < po_max p then Some (p\<lparr>po_places := po_places p + 1\<rparr>) else None)"

definition drop_place :: "pool \<Rightarrow> pool" where
  "drop_place p = p\<lparr>po_places := po_places p - 1\<rparr>"

text \<open>The locked part of \<open>place\<close>: the job goes to the thread that went idle last, or into the queue
  when there are as many threads as there may be, or to a thread to be started.\<close>

datatype placing = Hand nat | Enqueued | Start nat

definition place_task :: "nat \<Rightarrow> pool \<Rightarrow> placing \<times> pool" where
  "place_task task p =
     (if po_idle p \<noteq> [] then (Hand (last (po_idle p)), p\<lparr>po_idle := butlast (po_idle p)\<rparr>)
      else if po_max p \<le> po_threads p then (Enqueued, p\<lparr>po_queued := po_queued p @ [task]\<rparr>)
      else (Start (po_next p + 1), p\<lparr>po_threads := po_threads p + 1, po_next := po_next p + 1\<rparr>))"

definition not_started :: "pool \<Rightarrow> pool" where
  "not_started p = p\<lparr>po_threads := po_threads p - 1\<rparr>"

text \<open>The locked parts of \<open>work\<close>: after a job, a queued one is taken or the thread goes idle; after a
  wait timed out, the thread is idle no more, and ends unless a job was sent to it meanwhile.\<close>

definition next_task :: "nat \<Rightarrow> pool \<Rightarrow> nat option \<times> pool" where
  "next_task me p =
     (case po_queued p of
        task # q \<Rightarrow> (Some task, p\<lparr>po_queued := q\<rparr>)
      | [] \<Rightarrow> (None, p\<lparr>po_idle := po_idle p @ [me]\<rparr>))"

definition give_up :: "nat \<Rightarrow> nat list \<Rightarrow> pool \<Rightarrow> nat option \<times> pool" where
  "give_up me rx p =
     (let p = p\<lparr>po_idle := filter (\<lambda>i. i \<noteq> me) (po_idle p)\<rparr>
      in case rx of
           task # _ \<Rightarrow> (Some task, p)
         | [] \<Rightarrow> (None, p\<lparr>po_threads := po_threads p - 1\<rparr>))"

text \<open>\<open>Busy::words\<close>.\<close>

definition busy_words :: "str option \<Rightarrow> str \<Rightarrow> str" where
  "busy_words why full =
     (case why of None \<Rightarrow> full | Some e \<Rightarrow> ''the peer could not start a thread for it: '' @ e)"

section \<open>Callers and workers\<close>

text \<open>Where a call of \<open>place\<close> stands: with a place and no thread yet; with a thread to start; with one
  that would not start, before and after the count is set back; with the job to send to the thread it
  started.\<close>

datatype caller = Placing nat | Starting nat nat | Unstarted nat | Refusing nat | Sending nat nat

text \<open>Where a worker stands: before its first job; in a job, with its place or after giving it back;
  before the lock; waiting; with its wait timed out; and ending, as the last thread or not.\<close>

datatype act = Begins | Runs nat bool | Looks | Idles | TimedOut | Leaves bool

text \<open>A worker: its number, where it stands, and its channel.\<close>

type_synonym worker = "nat \<times> act \<times> nat list"

record pool_world =
  pw_pool :: pool
  pw_callers :: "caller multiset"
  pw_workers :: "worker multiset"
  pw_asked :: "nat multiset"
  pw_refused :: "nat multiset"
  pw_begun :: "nat multiset"
  pw_released :: nat

datatype kind_of_step = Asks | Moves

inductive pool_step :: "kind_of_step \<Rightarrow> pool_world \<Rightarrow> pool_world \<Rightarrow> bool" where
  asked: "take_place (pw_pool w) = Some p \<Longrightarrow>
    pool_step Asks w (w\<lparr>pw_pool := p, pw_callers := add_mset (Placing t) (pw_callers w), pw_asked := add_mset t (pw_asked w)\<rparr>)"
| full: "take_place (pw_pool w) = None \<Longrightarrow>
    pool_step Asks w (w\<lparr>pw_asked := add_mset t (pw_asked w), pw_refused := add_mset t (pw_refused w)\<rparr>)"
| handed: "pw_callers w = add_mset (Placing t) cs \<Longrightarrow> place_task t (pw_pool w) = (Hand i, p) \<Longrightarrow>
    pw_workers w = add_mset (i, a, rx) ws \<Longrightarrow>
    pool_step Moves w (w\<lparr>pw_pool := p, pw_callers := cs, pw_workers := add_mset (i, a, rx @ [t]) ws\<rparr>)"
| nobody: "pw_callers w = add_mset (Placing t) cs \<Longrightarrow> place_task t (pw_pool w) = (Hand i, p) \<Longrightarrow>
    i \<notin># image_mset fst (pw_workers w) \<Longrightarrow> pool_step Moves w (w\<lparr>pw_pool := p\<rparr>)"
| enqueued: "pw_callers w = add_mset (Placing t) cs \<Longrightarrow> place_task t (pw_pool w) = (Enqueued, p) \<Longrightarrow>
    pool_step Moves w (w\<lparr>pw_pool := p, pw_callers := cs\<rparr>)"
| starting: "pw_callers w = add_mset (Placing t) cs \<Longrightarrow> place_task t (pw_pool w) = (Start i, p) \<Longrightarrow>
    pool_step Moves w (w\<lparr>pw_pool := p, pw_callers := add_mset (Starting i t) cs\<rparr>)"
| started: "pw_callers w = add_mset (Starting i t) cs \<Longrightarrow>
    pool_step Moves w (w\<lparr>pw_callers := add_mset (Sending i t) cs, pw_workers := add_mset (i, Begins, []) (pw_workers w)\<rparr>)"
| spawn_fails: "pw_callers w = add_mset (Starting i t) cs \<Longrightarrow>
    pool_step Moves w (w\<lparr>pw_callers := add_mset (Unstarted t) cs\<rparr>)"
| counted_back: "pw_callers w = add_mset (Unstarted t) cs \<Longrightarrow>
    pool_step Moves w (w\<lparr>pw_pool := not_started (pw_pool w), pw_callers := add_mset (Refusing t) cs\<rparr>)"
| refused: "pw_callers w = add_mset (Refusing t) cs \<Longrightarrow>
    pool_step Moves w (w\<lparr>pw_pool := drop_place (pw_pool w), pw_callers := cs, pw_refused := add_mset t (pw_refused w)\<rparr>)"
| sent: "pw_callers w = add_mset (Sending i t) cs \<Longrightarrow> pw_workers w = add_mset (i, a, rx) ws \<Longrightarrow>
    pool_step Moves w (w\<lparr>pw_callers := cs, pw_workers := add_mset (i, a, rx @ [t]) ws\<rparr>)"
| begins: "pw_workers w = add_mset (i, Begins, t # rx) ws \<Longrightarrow>
    pool_step Moves w (w\<lparr>pw_workers := add_mset (i, Runs t True, rx) ws, pw_begun := add_mset t (pw_begun w)\<rparr>)"
| answers: "pw_workers w = add_mset (i, Runs t True, rx) ws \<Longrightarrow>
    pool_step Moves w (w\<lparr>pw_pool := drop_place (pw_pool w), pw_workers := add_mset (i, Runs t False, rx) ws\<rparr>)"
| returns: "pw_workers w = add_mset (i, Runs t False, rx) ws \<Longrightarrow>
    pool_step Moves w (w\<lparr>pw_workers := add_mset (i, Looks, rx) ws\<rparr>)"
| takes_next: "pw_workers w = add_mset (i, Looks, rx) ws \<Longrightarrow> next_task i (pw_pool w) = (Some t, p) \<Longrightarrow>
    pool_step Moves w (w\<lparr>pw_pool := p, pw_workers := add_mset (i, Runs t True, rx) ws, pw_begun := add_mset t (pw_begun w)\<rparr>)"
| goes_idle: "pw_workers w = add_mset (i, Looks, rx) ws \<Longrightarrow> next_task i (pw_pool w) = (None, p) \<Longrightarrow>
    pool_step Moves w (w\<lparr>pw_pool := p, pw_workers := add_mset (i, Idles, rx) ws\<rparr>)"
| wakes: "pw_workers w = add_mset (i, Idles, t # rx) ws \<Longrightarrow>
    pool_step Moves w (w\<lparr>pw_workers := add_mset (i, Runs t True, rx) ws, pw_begun := add_mset t (pw_begun w)\<rparr>)"
| times_out: "pw_workers w = add_mset (i, Idles, rx) ws \<Longrightarrow>
    pool_step Moves w (w\<lparr>pw_workers := add_mset (i, TimedOut, rx) ws\<rparr>)"
| late_job: "pw_workers w = add_mset (i, TimedOut, rx) ws \<Longrightarrow> give_up i rx (pw_pool w) = (Some t, p) \<Longrightarrow>
    pool_step Moves w (w\<lparr>pw_pool := p, pw_workers := add_mset (i, Runs t True, tl rx) ws, pw_begun := add_mset t (pw_begun w)\<rparr>)"
| gives_up: "pw_workers w = add_mset (i, TimedOut, rx) ws \<Longrightarrow> give_up i rx (pw_pool w) = (None, p) \<Longrightarrow>
    pool_step Moves w (w\<lparr>pw_pool := p, pw_workers := add_mset (i, Leaves (po_threads p = 0), rx) ws\<rparr>)"
| leaves: "pw_workers w = add_mset (i, Leaves l, rx) ws \<Longrightarrow>
    pool_step Moves w (w\<lparr>pw_workers := ws, pw_released := pw_released w + (if l then 1 else 0)\<rparr>)"

definition pool_moves :: "pool_world \<Rightarrow> pool_world \<Rightarrow> bool" where
  "pool_moves w w' \<longleftrightarrow> (\<exists>k. pool_step k w w')"

definition pool_inner :: "pool_world \<Rightarrow> pool_world \<Rightarrow> bool" where
  "pool_inner w w' \<longleftrightarrow> pool_step Moves w w'"

definition pool_start :: "pool_world \<Rightarrow> bool" where
  "pool_start w \<longleftrightarrow> (\<exists>m. w = \<lparr>pw_pool = pool_new m, pw_callers = {#}, pw_workers = {#}, pw_asked = {#},
     pw_refused = {#}, pw_begun = {#}, pw_released = 0\<rparr>)"

section \<open>Counting callers and workers\<close>

abbreviation tally :: "('a \<Rightarrow> nat) \<Rightarrow> 'a multiset \<Rightarrow> nat" where
  "tally f M \<equiv> sum_mset (image_mset f M)"

abbreviation gather :: "('a \<Rightarrow> 'b multiset) \<Rightarrow> 'a multiset \<Rightarrow> 'b multiset" where
  "gather f M \<equiv> sum_mset (image_mset f M)"

fun caller_task :: "caller \<Rightarrow> nat" where
  "caller_task (Placing t) = t"
| "caller_task (Starting i t) = t"
| "caller_task (Unstarted t) = t"
| "caller_task (Refusing t) = t"
| "caller_task (Sending i t) = t"

fun counts_thread :: "caller \<Rightarrow> nat" where
  "counts_thread (Starting i t) = 1"
| "counts_thread (Unstarted t) = 1"
| "counts_thread _ = 0"

fun starts :: "caller \<Rightarrow> nat multiset" where
  "starts (Starting i t) = {#i#}"
| "starts _ = {#}"

fun sends_to :: "caller \<Rightarrow> nat multiset" where
  "sends_to (Sending i t) = {#i#}"
| "sends_to _ = {#}"

fun alive :: "worker \<Rightarrow> nat" where
  "alive (i, Leaves l, rx) = 0"
| "alive _ = 1"

fun holds :: "worker \<Rightarrow> nat" where
  "holds (i, Runs t True, rx) = 1"
| "holds _ = 0"

text \<open>A worker that has given its place back and not come to the lock yet.\<close>

fun finishing :: "worker \<Rightarrow> nat" where
  "finishing (i, Runs t False, rx) = 1"
| "finishing (i, Looks, rx) = 1"
| "finishing _ = 0"

fun channel :: "worker \<Rightarrow> nat list" where
  "channel (i, a, rx) = rx"

text \<open>The workers with nothing in their channel that wait for a first job, and for another.\<close>

fun unfed :: "worker \<Rightarrow> nat multiset" where
  "unfed (i, Begins, []) = {#i#}"
| "unfed _ = {#}"

fun resting :: "worker \<Rightarrow> nat multiset" where
  "resting (i, Idles, []) = {#i#}"
| "resting (i, TimedOut, []) = {#i#}"
| "resting _ = {#}"

text \<open>At most one job is ever in a channel, and only where the worker is to look for it.\<close>

fun channel_ok :: "worker \<Rightarrow> bool" where
  "channel_ok (i, Begins, rx) \<longleftrightarrow> length rx \<le> 1"
| "channel_ok (i, Idles, rx) \<longleftrightarrow> length rx \<le> 1"
| "channel_ok (i, TimedOut, rx) \<longleftrightarrow> length rx \<le> 1"
| "channel_ok (i, _, rx) \<longleftrightarrow> rx = []"

abbreviation in_channels :: "worker multiset \<Rightarrow> nat" where
  "in_channels W \<equiv> tally (\<lambda>x. length (channel x)) W"

text \<open>The jobs accepted and not begun.\<close>

definition pending :: "pool_world \<Rightarrow> nat multiset" where
  "pending w = image_mset caller_task (pw_callers w) + mset (po_queued (pw_pool w)) +
     gather (\<lambda>x. mset (channel x)) (pw_workers w)"

section \<open>The invariant\<close>

definition places_counted :: "pool_world \<Rightarrow> bool" where
  "places_counted w \<longleftrightarrow>
     po_places (pw_pool w) = size (pw_callers w) + length (po_queued (pw_pool w)) + in_channels (pw_workers w) + tally holds (pw_workers w) \<and>
     po_places (pw_pool w) \<le> po_max (pw_pool w)"

definition threads_counted :: "pool_world \<Rightarrow> bool" where
  "threads_counted w \<longleftrightarrow>
     po_threads (pw_pool w) = tally counts_thread (pw_callers w) + tally alive (pw_workers w) \<and>
     po_threads (pw_pool w) \<le> po_max (pw_pool w)"

definition ids :: "pool_world \<Rightarrow> nat multiset" where
  "ids w = image_mset fst (pw_workers w) + gather starts (pw_callers w)"

definition ids_apart :: "pool_world \<Rightarrow> bool" where
  "ids_apart w \<longleftrightarrow> (\<forall>i. count (ids w) i \<le> 1) \<and> (\<forall>i\<in>#ids w. i \<le> po_next (pw_pool w))"

definition channels_fed :: "pool_world \<Rightarrow> bool" where
  "channels_fed w \<longleftrightarrow> (\<forall>x\<in>#pw_workers w. channel_ok x) \<and>
     gather unfed (pw_workers w) = gather sends_to (pw_callers w) \<and>
     gather resting (pw_workers w) = mset (po_idle (pw_pool w))"

definition queue_served :: "pool_world \<Rightarrow> bool" where
  "queue_served w \<longleftrightarrow> (po_queued (pw_pool w) \<noteq> [] \<longrightarrow> po_idle (pw_pool w) = []) \<and>
     length (po_queued (pw_pool w)) \<le> tally finishing (pw_workers w)"

definition jobs_accounted :: "pool_world \<Rightarrow> bool" where
  "jobs_accounted w \<longleftrightarrow> pw_asked w = pw_refused w + pw_begun w + pending w"

definition pool_inv :: "pool_world \<Rightarrow> bool" where
  "pool_inv w \<longleftrightarrow> places_counted w \<and> threads_counted w \<and> ids_apart w \<and> channels_fed w \<and> queue_served w \<and> jobs_accounted w"

lemma runs_or_finishes: "holds (i, Runs t b, rx) + finishing (i, Runs t b, rx) = 1"
  by (cases b) simp_all

lemma worker_parts: "channel_ok x \<Longrightarrow>
  alive x = size (unfed x) + size (resting x) + length (channel x) + holds x + finishing x"
  by (cases x rule: channel_ok.cases) (auto simp: le_Suc_eq length_Suc_conv runs_or_finishes)

lemma workers_parts:
  "\<forall>x\<in>#W. channel_ok x \<Longrightarrow>
   tally alive W = size (gather unfed W) + size (gather resting W) + in_channels W + tally holds W + tally finishing W"
  by (induction W) (simp_all add: worker_parts)

lemma callers_parts: "tally counts_thread C + size (gather sends_to C) \<le> size C"
proof (induction C)
  case (add c C)
  then show ?case by (cases c) simp_all
qed simp

lemma placing_parts: "tally counts_thread C + size (gather sends_to C) + 1 \<le> size (add_mset (Placing t) C)"
  using callers_parts [of C] by simp

text \<open>Where the queue is used, every thread is counted and as many have given their place back as
  jobs will wait.\<close>

lemma queue_has_room:
  assumes "pool_inv w" "pw_callers w = add_mset (Placing t) cs" "po_idle (pw_pool w) = []"
    and "po_max (pw_pool w) \<le> po_threads (pw_pool w)"
  shows "length (po_queued (pw_pool w)) < tally finishing (pw_workers w)"
proof -
  let ?W = "pw_workers w" and ?C = "pw_callers w"
  have i: "places_counted w" "threads_counted w" "channels_fed w" using assms(1) by (simp_all add: pool_inv_def)
  have "tally alive ?W = size (gather unfed ?W) + size (gather resting ?W) + in_channels ?W + tally holds ?W + tally finishing ?W"
    using workers_parts i(3) unfolding channels_fed_def by blast
  moreover have "gather unfed ?W = gather sends_to ?C" "gather resting ?W = {#}"
    using i(3) assms(3) by (simp_all add: channels_fed_def)
  moreover have "tally counts_thread ?C + size (gather sends_to ?C) + 1 \<le> size ?C"
    using placing_parts [of cs t] assms(2) by simp
  ultimately show ?thesis using i(1,2) assms(4) unfolding places_counted_def threads_counted_def by simp
qed

text \<open>The thread that went idle last is there, with nothing in its channel, and looks into it before it
  ends.\<close>

lemma resting_member: "i \<in># gather resting W \<Longrightarrow> \<exists>a. (i, a, []) \<in># W \<and> a \<in> {Idles, TimedOut}"
proof (induction W)
  case (add x W)
  then show ?case by (cases x rule: resting.cases) auto
qed simp

lemma unfed_member: "i \<in># gather unfed W \<Longrightarrow> (i, Begins, []) \<in># W"
proof (induction W)
  case (add x W)
  then show ?case by (cases x rule: unfed.cases) auto
qed simp

lemma one_worker:
  assumes "pool_inv w" "pw_workers w = add_mset (i, a, rx) ws" "(i, b, r) \<in># pw_workers w"
  shows "b = a \<and> r = rx"
proof -
  have "count (image_mset fst (pw_workers w)) i \<le> 1"
    using assms(1) le_trans [of _ "count (ids w) i" 1] by (simp add: pool_inv_def ids_apart_def ids_def)
  then have "count (image_mset fst ws) i = 0" using assms(2) by simp
  then have "i \<notin># image_mset fst ws" by (simp only: not_in_iff)
  then have "(i, b, r) = (i, a, rx)" using assms(2,3) by force
  then show ?thesis by simp
qed

lemma handed_worker:
  assumes "pool_inv w" "place_task t (pw_pool w) = (Hand i, p)" "pw_workers w = add_mset (i, a, rx) ws"
  shows "rx = [] \<and> a \<in> {Idles, TimedOut}"
proof -
  have "i \<in># gather resting (pw_workers w)"
    using assms(1,2) by (auto simp: pool_inv_def channels_fed_def place_task_def split: if_splits)
  then show ?thesis using resting_member one_worker [OF assms(1,3)] by blast
qed

lemma sent_worker:
  assumes "pool_inv w" "pw_callers w = add_mset (Sending i t) cs" "pw_workers w = add_mset (i, a, rx) ws"
  shows "rx = [] \<and> a = Begins"
proof -
  have "i \<in># gather unfed (pw_workers w)" using assms(1,2) by (simp add: pool_inv_def channels_fed_def)
  then show ?thesis using unfed_member one_worker [OF assms(1,3)] by blast
qed

lemmas pool_sections = take_place_def drop_place_def place_task_def not_started_def next_task_def give_up_def

lemma weights_of_sent [simp]:
  "holds (i, a, rx @ [t]) = holds (i, a, rx)" "alive (i, a, rx @ [t]) = alive (i, a, rx)"
  "finishing (i, a, rx @ [t]) = finishing (i, a, rx)"
  by (cases "(i, a, rx)" rule: holds.cases; simp; cases "(i, a, rx)" rule: alive.cases; simp;
      cases "(i, a, rx)" rule: finishing.cases; simp)+

lemma places_step: "pool_step k w w' \<Longrightarrow> pool_inv w \<Longrightarrow> places_counted w'"
  by (induction rule: pool_step.induct)
     (auto simp: pool_inv_def places_counted_def channels_fed_def pool_sections Let_def split: if_splits list.splits)

lemma threads_step: "pool_step k w w' \<Longrightarrow> pool_inv w \<Longrightarrow> threads_counted w'"
  by (induction rule: pool_step.induct)
     (auto simp: pool_inv_def threads_counted_def pool_sections Let_def split: if_splits list.splits)

lemma jobs_step: "pool_step k w w' \<Longrightarrow> pool_inv w \<Longrightarrow> jobs_accounted w'"
  by (induction rule: pool_step.induct)
     (auto simp: pool_inv_def jobs_accounted_def pending_def channels_fed_def pool_sections Let_def split: if_splits list.splits)

lemma queue_step: "pool_step k w w' \<Longrightarrow> pool_inv w \<Longrightarrow> queue_served w'"
proof (induction rule: pool_step.induct)
  case (enqueued w t cs p)
  then show ?case using queue_has_room [OF enqueued.prems enqueued.hyps(1)]
    by (auto simp: queue_served_def pool_sections split: if_splits)
qed (auto simp: pool_inv_def queue_served_def pool_sections Let_def split: if_splits list.splits)

lemma ids_fewer: "ids_apart w \<Longrightarrow> ids w' \<subseteq># ids w \<Longrightarrow> po_next (pw_pool w') = po_next (pw_pool w) \<Longrightarrow> ids_apart w'"
  unfolding ids_apart_def by (metis (no_types) le_trans mset_subset_eq_count mset_subset_eqD)

lemma ids_change: "pool_step k w w' \<Longrightarrow>
  ids w' \<subseteq># ids w \<and> po_next (pw_pool w') = po_next (pw_pool w) \<or>
  ids w' = add_mset (po_next (pw_pool w')) (ids w) \<and> po_next (pw_pool w') = po_next (pw_pool w) + 1"
  by (induction rule: pool_step.induct)
     (simp_all add: ids_def pool_sections Let_def split: if_splits list.splits, auto)

lemma ids_step:
  assumes "pool_step k w w'" "ids_apart w"
  shows "ids_apart w'"
  using ids_change [OF assms(1)]
proof
  assume c: "ids w' = add_mset (po_next (pw_pool w')) (ids w) \<and> po_next (pw_pool w') = po_next (pw_pool w) + 1"
  have "po_next (pw_pool w') \<notin># ids w" using assms(2) c unfolding ids_apart_def by force
  then have "count (ids w) (po_next (pw_pool w')) = 0" by (simp only: not_in_iff)
  then show ?thesis using assms(2) c unfolding ids_apart_def by (auto simp: le_Suc_eq)
qed (use ids_fewer assms(2) in blast)

lemma resting_id: "count (gather resting W) i \<le> count (image_mset fst W) i"
proof (induction W)
  case (add x W)
  then show ?case by (cases x rule: resting.cases) auto
qed simp

lemma idle_once: "pool_inv w \<Longrightarrow> count (mset (po_idle (pw_pool w))) i \<le> 1"
proof -
  assume a: "pool_inv w"
  have "count (mset (po_idle (pw_pool w))) i \<le> count (image_mset fst (pw_workers w)) i"
    using a resting_id [of "pw_workers w" i] by (simp add: pool_inv_def channels_fed_def)
  also have "\<dots> \<le> count (ids w) i" by (simp add: ids_def)
  also have "\<dots> \<le> 1" using a by (simp add: pool_inv_def ids_apart_def)
  finally show ?thesis .
qed

lemma filter_once: "count (mset xs) i \<le> 1 \<Longrightarrow> mset (filter (\<lambda>j. j \<noteq> i) xs) = mset xs - {#i#}"
  by (induction xs) (auto simp: multiset_eq_iff)

lemma butlast_mset: "xs \<noteq> [] \<Longrightarrow> mset xs = add_mset (last xs) (mset (butlast xs))"
  by (metis append_butlast_last_id mset.simps add_mset_add_single mset_append mset_single_iff mset_single_iff_right union_commute)

lemma channels_step: "pool_step k w w' \<Longrightarrow> pool_inv w \<Longrightarrow> channels_fed w'"
proof (induction rule: pool_step.induct)
  case (handed w t cs i p a rx ws)
  have i: "po_idle (pw_pool w) \<noteq> []" "i = last (po_idle (pw_pool w))" "po_idle p = butlast (po_idle (pw_pool w))"
    using handed.hyps(2) by (auto simp: place_task_def split: if_splits)
  have x: "rx = []" "a \<in> {Idles, TimedOut}" using handed_worker [OF handed.prems handed.hyps(2,3)] by simp_all
  have c: "channels_fed w" using handed.prems by (simp add: pool_inv_def)
  show ?case using c x handed.hyps(1,3) butlast_mset [OF i(1)] i(2,3) by (auto simp: channels_fed_def)
next
  case (nobody w t cs i p)
  have "i \<in># gather resting (pw_workers w)"
    using nobody.prems nobody.hyps(2) by (auto simp: pool_inv_def channels_fed_def place_task_def split: if_splits)
  then have False using resting_member nobody.hyps(3) by force
  then show ?case ..
next
  case (sent w i t cs a rx ws)
  then show ?case using sent_worker [OF sent.prems sent.hyps] by (auto simp: pool_inv_def channels_fed_def)
next
  case (late_job w i rx ws t p)
  have "rx \<noteq> []" using late_job.hyps(2) by (auto simp: give_up_def)
  then have "i \<notin># gather resting (pw_workers w)"
    using resting_member one_worker [OF late_job.prems late_job.hyps(1)] by blast
  moreover have "gather resting (pw_workers w) = mset (po_idle (pw_pool w))"
    using late_job.prems by (simp add: pool_inv_def channels_fed_def)
  ultimately have "i \<notin> set (po_idle (pw_pool w))" by (metis set_mset_mset)
  then have "filter (\<lambda>j. j \<noteq> i) (po_idle (pw_pool w)) = po_idle (pw_pool w)" by (simp add: filter_id_conv) blast
  then show ?case using late_job by (auto simp: pool_inv_def channels_fed_def give_up_def Let_def split: list.splits)
next
  case (gives_up w i rx ws p)
  then show ?case using filter_once [OF idle_once [OF gives_up.prems]]
    by (auto simp: pool_inv_def channels_fed_def give_up_def Let_def split: list.splits) (metis add_mset_remove_trivial)
qed (auto simp: pool_inv_def channels_fed_def pool_sections Let_def le_Suc_eq length_Suc_conv split: if_splits list.splits)

interpretation pool: machine pool_start pool_moves pool_inv
proof unfold_locales
  show "pool_inv w" if "pool_start w" for w
    using that by (auto simp: pool_start_def pool_inv_def places_counted_def threads_counted_def ids_apart_def ids_def
        channels_fed_def queue_served_def jobs_accounted_def pending_def pool_new_def)
  show "pool_inv w'" if "pool_inv w" "pool_moves w w'" for w w'
    using that places_step threads_step ids_step channels_step queue_step jobs_step
    unfolding pool_moves_def pool_inv_def by metis
qed

section \<open>The pool settles\<close>

fun caller_load :: "caller \<Rightarrow> nat" where
  "caller_load (Placing t) = 20"
| "caller_load (Starting i t) = 19"
| "caller_load (Unstarted t) = 18"
| "caller_load (Refusing t) = 17"
| "caller_load (Sending i t) = 17"

fun act_load :: "act \<Rightarrow> nat" where
  "act_load Begins = 1"
| "act_load (Runs t True) = 7"
| "act_load (Runs t False) = 6"
| "act_load Looks = 5"
| "act_load Idles = 3"
| "act_load TimedOut = 2"
| "act_load (Leaves l) = 1"

definition pool_load :: "pool_world \<Rightarrow> nat" where
  "pool_load w = tally caller_load (pw_callers w) + tally (\<lambda>x. act_load (fst (snd x))) (pw_workers w) +
     10 * in_channels (pw_workers w) + 10 * length (po_queued (pw_pool w)) + length (po_idle (pw_pool w))"

lemma inner_uses_load: "pool_step k w w' \<Longrightarrow> k = Moves \<Longrightarrow> pool_load w' < pool_load w"
proof (induction rule: pool_step.induct)
  case (late_job w i rx ws t p)
  then show ?case
    by (auto simp: pool_load_def give_up_def Let_def split: list.splits) (rule le_less_trans [OF length_filter_le], simp)
next
  case (gives_up w i rx ws p)
  then show ?case
    by (auto simp: pool_load_def give_up_def Let_def split: list.splits) (rule le_less_trans [OF length_filter_le], simp)
qed (auto simp: pool_load_def pool_sections split: if_splits list.splits)

lemma inner_runs_end: "(pool_inner ^^ n) w w' \<Longrightarrow> n + pool_load w' \<le> pool_load w"
proof (induction n arbitrary: w')
  case (Suc n)
  then obtain v where v: "(pool_inner ^^ n) w v" "pool_inner v w'" by auto
  have "pool_load w' < pool_load v" using inner_uses_load v(2) by (simp add: pool_inner_def)
  with Suc.IH [OF v(1)] show ?case by simp
qed simp

lemma act_load_le: "act_load a \<le> 7"
  by (cases a rule: act_load.cases) simp_all

lemma tally_le: "(\<And>x. x \<in># M \<Longrightarrow> f x \<le> k) \<Longrightarrow> tally f M \<le> k * size M"
  by (induction M) (simp_all add: add_mono)

lemma resting_le: "size (gather resting W) + tally (\<lambda>x. act_load (fst (snd x))) W \<le> 7 * size W"
proof (induction W)
  case (add x W)
  have "size (resting x) + act_load (fst (snd x)) \<le> 7"
    using act_load_le [of "fst (snd x)"] by (cases x rule: resting.cases) simp_all
  then show ?case using add by simp
qed simp

lemma load_bounded: "pool_inv w \<Longrightarrow> pool_load w \<le> 20 * po_places (pw_pool w) + 7 * size (pw_workers w)"
proof -
  assume a: "pool_inv w"
  have c: "caller_load x \<le> 20" for x by (cases x) simp_all
  have "gather resting (pw_workers w) = mset (po_idle (pw_pool w))" using a by (simp add: pool_inv_def channels_fed_def)
  then have "length (po_idle (pw_pool w)) = size (gather resting (pw_workers w))" by (metis size_mset)
  then have "length (po_idle (pw_pool w)) + tally (\<lambda>x. act_load (fst (snd x))) (pw_workers w) \<le> 7 * size (pw_workers w)"
    using resting_le [of "pw_workers w"] by (simp only:)
  moreover have "tally caller_load (pw_callers w) \<le> 20 * size (pw_callers w)" using tally_le [of "pw_callers w" caller_load 20] c by simp
  moreover have "po_places (pw_pool w) = size (pw_callers w) + length (po_queued (pw_pool w)) + in_channels (pw_workers w) + tally holds (pw_workers w)"
    using a by (simp add: pool_inv_def places_counted_def)
  ultimately show ?thesis unfolding pool_load_def by simp
qed

lemma caller_moves:
  assumes "pool_inv w" "pw_callers w = add_mset c cs"
  shows "\<exists>w'. pool_inner w w'"
proof (cases c)
  case (Placing t)
  then have c: "pw_callers w = add_mset (Placing t) cs" using assms(2) by simp
  obtain r p where r: "place_task t (pw_pool w) = (r, p)" by fastforce
  show ?thesis
  proof (cases r)
    case (Hand i)
    show ?thesis
    proof (cases "i \<in># image_mset fst (pw_workers w)")
      case True
      then obtain a rx ws where "pw_workers w = add_mset (i, a, rx) ws" by (auto dest!: multi_member_split)
      then show ?thesis using handed [OF c r [unfolded Hand]] unfolding pool_inner_def by blast
    next
      case False
      then show ?thesis using nobody [OF c r [unfolded Hand]] unfolding pool_inner_def by blast
    qed
  next
    case Enqueued
    then show ?thesis using enqueued [OF c r [unfolded Enqueued]] unfolding pool_inner_def by blast
  next
    case (Start i)
    then show ?thesis using starting [OF c r [unfolded Start]] unfolding pool_inner_def by blast
  qed
next
  case (Sending i t)
  then have "i \<in># gather unfed (pw_workers w)" using assms by (simp add: pool_inv_def channels_fed_def)
  then obtain ws where "pw_workers w = add_mset (i, Begins, []) ws" using unfed_member multi_member_split by metis
  then show ?thesis using assms(2) Sending sent unfolding pool_inner_def by blast
next
  case (Starting i t)
  then show ?thesis using started [OF assms(2) [unfolded Starting]] unfolding pool_inner_def by blast
next
  case (Unstarted t)
  then show ?thesis using counted_back [OF assms(2) [unfolded Unstarted]] unfolding pool_inner_def by blast
next
  case (Refusing t)
  then show ?thesis using refused [OF assms(2) [unfolded Refusing]] unfolding pool_inner_def by blast
qed

lemma worker_moves:
  assumes "pool_inv w" "pw_callers w = {#}" "pw_workers w = add_mset (i, a, rx) ws"
  shows "\<exists>w'. pool_inner w w'"
proof (cases a)
  case Begins
  have "gather unfed (pw_workers w) = {#}" using assms(1,2) by (simp add: pool_inv_def channels_fed_def)
  then obtain t r where "rx = t # r" using assms(3) Begins by (cases rx) auto
  then show ?thesis using assms(3) Begins begins unfolding pool_inner_def by blast
next
  case (Runs t b)
  then show ?thesis using assms(3) answers [of w i t rx ws] returns [of w i t rx ws] unfolding pool_inner_def
    by (cases b) auto
next
  case Looks
  obtain r p where "next_task i (pw_pool w) = (r, p)" by fastforce
  then show ?thesis using assms(3) Looks takes_next goes_idle unfolding pool_inner_def by (cases r) blast+
next
  case TimedOut
  obtain r p where "give_up i rx (pw_pool w) = (r, p)" by fastforce
  then show ?thesis using assms(3) TimedOut late_job gives_up unfolding pool_inner_def by (cases r) blast+
next
  case Idles
  then show ?thesis using times_out [OF assms(3) [unfolded Idles]] unfolding pool_inner_def by blast
next
  case (Leaves l)
  then show ?thesis using leaves [OF assms(3) [unfolded Leaves]] unfolding pool_inner_def by blast
qed

lemma pool_at_rest:
  assumes "pool_inv w" "\<nexists>w'. pool_inner w w'"
  shows "pw_callers w = {#} \<and> pw_workers w = {#} \<and> pending w = {#} \<and>
    po_places (pw_pool w) = 0 \<and> po_threads (pw_pool w) = 0 \<and> po_idle (pw_pool w) = []"
proof -
  have c: "pw_callers w = {#}" using caller_moves [OF assms(1)] assms(2) by (meson multiset_cases)
  have w: "pw_workers w = {#}" using worker_moves [OF assms(1) c] assms(2) by (metis multiset_cases prod_cases3)
  show ?thesis using assms(1) c w
    by (simp add: pool_inv_def queue_served_def pending_def places_counted_def threads_counted_def channels_fed_def)
qed

lemma pool_inner_inv: "pool_inner\<^sup>*\<^sup>* w w' \<Longrightarrow> pool_inv w \<Longrightarrow> pool_inv w'"
  by (induction rule: rtranclp_induct) (simp, metis pool.inv_step pool_moves_def pool_inner_def)

text \<open>C18: in every interleaving of callers and workers, the places taken are exactly the jobs that hold
  one (with a caller, queued, in a channel, or running and not answered) and the threads counted those
  that run or are being started, and neither is ever more than the pool's bound; every job asked for has
  been refused, or begun once, or still waits.\<close>

theorem the_pool_keeps_its_bounds:
  assumes "reach pool_start pool_moves w"
  shows "po_places (pw_pool w) = size (pw_callers w) + length (po_queued (pw_pool w)) + in_channels (pw_workers w) + tally holds (pw_workers w) \<and>
    po_threads (pw_pool w) = tally counts_thread (pw_callers w) + tally alive (pw_workers w) \<and>
    po_places (pw_pool w) \<le> po_max (pw_pool w) \<and> po_threads (pw_pool w) \<le> po_max (pw_pool w) \<and>
    pw_asked w = pw_refused w + pw_begun w + pending w"
  using pool.reach_inv [OF assms] by (simp add: pool_inv_def places_counted_def threads_counted_def jobs_accounted_def)

text \<open>C16: no job waits for a thread that has gone. While jobs are queued no thread is idle and at least as
  many threads as jobs have given their place back and are on their way to the queue; a job in a channel
  is one thread's that has yet to look into it; and a thread taken from the idle ones is there, its
  channel empty, and will look into it before it ends.\<close>

theorem no_job_is_left_behind:
  assumes "reach pool_start pool_moves w"
  shows "(po_queued (pw_pool w) \<noteq> [] \<longrightarrow> po_idle (pw_pool w) = []) \<and>
    length (po_queued (pw_pool w)) \<le> tally finishing (pw_workers w) \<and>
    (\<forall>x\<in>#pw_workers w. channel_ok x) \<and>
    (\<forall>t i p. place_task t (pw_pool w) = (Hand i, p) \<longrightarrow>
       (\<exists>a ws. pw_workers w = add_mset (i, a, []) ws \<and> a \<in> {Idles, TimedOut}))"
proof (intro conjI allI impI)
  note inv = pool.reach_inv [OF assms]
  then show "po_queued (pw_pool w) \<noteq> [] \<Longrightarrow> po_idle (pw_pool w) = []"
    "length (po_queued (pw_pool w)) \<le> tally finishing (pw_workers w)" "\<forall>x\<in>#pw_workers w. channel_ok x"
    by (simp_all add: pool_inv_def queue_served_def channels_fed_def)
  fix t i p assume "place_task t (pw_pool w) = (Hand i, p)"
  then have "i \<in># gather resting (pw_workers w)"
    using inv by (auto simp: pool_inv_def channels_fed_def place_task_def split: if_splits)
  then show "\<exists>a ws. pw_workers w = add_mset (i, a, []) ws \<and> a \<in> {Idles, TimedOut}"
    using resting_member multi_member_split by metis
qed

text \<open>C17: once no more jobs are asked for, the pool settles in a bounded number of steps, whatever the
  schedule and whichever threads will not start: every job has been begun or refused, every place is back
  and every thread has ended.\<close>

theorem the_pool_settles:
  assumes "reach pool_start pool_moves w"
  shows "(\<forall>n w'. (pool_inner ^^ n) w w' \<longrightarrow> n \<le> 20 * po_places (pw_pool w) + 7 * size (pw_workers w)) \<and>
    (\<forall>w'. pool_inner\<^sup>*\<^sup>* w w' \<longrightarrow> (\<nexists>w''. pool_inner w' w'') \<longrightarrow>
       pw_callers w' = {#} \<and> pw_workers w' = {#} \<and> pw_asked w' = pw_refused w' + pw_begun w' \<and>
       po_places (pw_pool w') = 0 \<and> po_threads (pw_pool w') = 0 \<and> po_idle (pw_pool w') = [])"
proof (intro conjI allI impI)
  note inv = pool.reach_inv [OF assms]
  fix n w' assume "(pool_inner ^^ n) w w'"
  from inner_runs_end [OF this] load_bounded [OF inv]
  show "n \<le> 20 * po_places (pw_pool w) + 7 * size (pw_workers w)" by simp
next
  fix w' assume "pool_inner\<^sup>*\<^sup>* w w'" and rest: "\<nexists>w''. pool_inner w' w''"
  then have inv': "pool_inv w'" using pool_inner_inv pool.reach_inv [OF assms] by blast
  then have "pw_asked w' = pw_refused w' + pw_begun w' + pending w'" by (simp add: pool_inv_def jobs_accounted_def)
  with pool_at_rest [OF inv' rest]
  show "pw_callers w' = {#}" "pw_workers w' = {#}" "pw_asked w' = pw_refused w' + pw_begun w'"
    "po_places (pw_pool w') = 0" "po_threads (pw_pool w') = 0" "po_idle (pw_pool w') = []" by simp_all
qed

section \<open>A pool of one place\<close>

text \<open>A job has run on the one thread, which has given its place back and not come to the lock; a second
  job is queued for it.\<close>

definition one_place :: "nat multiset \<Rightarrow> pool \<Rightarrow> caller multiset \<Rightarrow> worker multiset \<Rightarrow> nat multiset \<Rightarrow> pool_world" where
  "one_place asked p cs ws begun = \<lparr>pw_pool = p, pw_callers = cs, pw_workers = ws, pw_asked = asked, pw_refused = {#},
     pw_begun = begun, pw_released = 0\<rparr>"

abbreviation pool1 :: "nat list \<Rightarrow> nat list \<Rightarrow> nat \<Rightarrow> nat \<Rightarrow> pool" where
  "pool1 idle queued threads places \<equiv> \<lparr>po_idle = idle, po_queued = queued, po_threads = threads, po_next = threads, po_places = places, po_max = 1\<rparr>"

definition one_queued :: pool_world where
  "one_queued = one_place {#5, 6#} (pool1 [] [6] 1 1) {#} {#(1, Runs 5 False, [])#} {#5#}"

lemma one_queued_reached: "reach pool_start pool_moves one_queued"
proof -
  have go: "reach pool_start pool_moves w'" if "reach pool_start pool_moves w" "pool_step k w w'" for k w w'
    using that reach.reach_step by (fastforce simp: pool_moves_def)
  have "reach pool_start pool_moves (one_place {#} (pool1 [] [] 0 0) {#} {#} {#})"
    by (rule reach_start) (auto simp: pool_start_def one_place_def pool_new_def intro!: exI [of _ 0])
  from go [OF this pool_step.asked [of _ "pool1 [] [] 0 1" 5]]
  have "reach pool_start pool_moves (one_place {#5#} (pool1 [] [] 0 1) {#Placing 5#} {#} {#})"
    by (simp add: one_place_def take_place_def)
  from go [OF this pool_step.starting [of _ 5 "{#}" 1 "pool1 [] [] 1 1"]]
  have "reach pool_start pool_moves (one_place {#5#} (pool1 [] [] 1 1) {#Starting 1 5#} {#} {#})"
    by (simp add: one_place_def place_task_def)
  from go [OF this pool_step.started [of _ 1 5 "{#}"]]
  have "reach pool_start pool_moves (one_place {#5#} (pool1 [] [] 1 1) {#Sending 1 5#} {#(1, Begins, [])#} {#})"
    by (simp add: one_place_def)
  from go [OF this pool_step.sent [of _ 1 5 "{#}" Begins "[]" "{#}"]]
  have "reach pool_start pool_moves (one_place {#5#} (pool1 [] [] 1 1) {#} {#(1, Begins, [5])#} {#})"
    by (simp add: one_place_def)
  from go [OF this pool_step.begins [of _ 1 5 "[]" "{#}"]]
  have "reach pool_start pool_moves (one_place {#5#} (pool1 [] [] 1 1) {#} {#(1, Runs 5 True, [])#} {#5#})"
    by (simp add: one_place_def)
  from go [OF this pool_step.answers [of _ 1 5 "[]" "{#}"]]
  have "reach pool_start pool_moves (one_place {#5#} (pool1 [] [] 1 0) {#} {#(1, Runs 5 False, [])#} {#5#})"
    by (simp add: one_place_def drop_place_def)
  from go [OF this pool_step.asked [of _ "pool1 [] [] 1 1" 6]]
  have "reach pool_start pool_moves (one_place {#5, 6#} (pool1 [] [] 1 1) {#Placing 6#} {#(1, Runs 5 False, [])#} {#5#})"
    by (simp add: one_place_def take_place_def add_mset_commute)
  from go [OF this pool_step.enqueued [of _ 6 "{#}" "pool1 [] [6] 1 1"]]
  show ?thesis by (simp add: one_place_def place_task_def one_queued_def)
qed

theorem the_pool_keeps_its_bounds_witness: "{#5, 6#} = {#5#} + pending one_queued"
  using the_pool_keeps_its_bounds [OF one_queued_reached] by (simp add: one_queued_def one_place_def)

theorem no_job_is_left_behind_witness: "length (po_queued (pw_pool one_queued)) \<le> tally finishing (pw_workers one_queued)"
  using no_job_is_left_behind [OF one_queued_reached] by blast

theorem the_pool_settles_witness: "\<not> (\<exists>w'. (pool_inner ^^ 28) one_queued w')"
proof
  assume "\<exists>w'. (pool_inner ^^ 28) one_queued w'"
  then have "28 \<le> 20 * po_places (pw_pool one_queued) + 7 * size (pw_workers one_queued)"
    using the_pool_settles [OF one_queued_reached] by blast
  then show False by (simp add: one_queued_def one_place_def)
qed

section \<open>Permits\<close>

record permits =
  pm_held :: nat
  pm_max :: nat

definition permits_new :: "nat \<Rightarrow> permits" where
  "permits_new m = \<lparr>pm_held = 0, pm_max = max m 1\<rparr>"

text \<open>One turn of the loop of \<open>acquire\<close> under its lock, with whether the deadline, if there is one, has
  passed; and the first half of the drop of a \<open>Permit\<close>, whose second half wakes one waiter.\<close>

datatype turn = Takes | GivesUp | Sleeps

definition acquire_turn :: "bool \<Rightarrow> permits \<Rightarrow> turn \<times> permits" where
  "acquire_turn late p =
     (if pm_held p \<ge> pm_max p then (if late then GivesUp else Sleeps, p)
      else (Takes, p\<lparr>pm_held := pm_held p + 1\<rparr>))"

definition permit_drop :: "permits \<Rightarrow> permits" where
  "permit_drop p = p\<lparr>pm_held := pm_held p - 1\<rparr>"

text \<open>A thread on its way to the lock, with a deadline or without; asleep; holding a permit; and between
  the two halves of giving it back.\<close>

datatype permit_pc = Awake bool | Asleep bool | Holding | Freeing

fun woken :: "permit_pc \<Rightarrow> permit_pc" where
  "woken (Asleep d) = Awake d"
| "woken c = c"

text \<open>A sleeper wakes when it is told, at its deadline, or of itself, as a condition variable allows.\<close>

inductive permit_step :: "permits \<times> permit_pc multiset \<Rightarrow> permits \<times> permit_pc multiset \<Rightarrow> bool" where
  arrives: "permit_step (p, cs) (p, add_mset (Awake d) cs)"
| takes: "acquire_turn (d \<and> late) p = (Takes, p') \<Longrightarrow> permit_step (p, add_mset (Awake d) cs) (p', add_mset Holding cs)"
| gives_up: "acquire_turn (d \<and> late) p = (GivesUp, p') \<Longrightarrow> permit_step (p, add_mset (Awake d) cs) (p', cs)"
| sleeps: "acquire_turn (d \<and> late) p = (Sleeps, p') \<Longrightarrow> permit_step (p, add_mset (Awake d) cs) (p', add_mset (Asleep d) cs)"
| stirs: "permit_step (p, add_mset (Asleep d) cs) (p, add_mset (Awake d) cs)"
| drops: "permit_step (p, add_mset Holding cs) (permit_drop p, add_mset Freeing cs)"
| notifies: "permit_step (p, add_mset Freeing (add_mset (Asleep d) cs)) (p, add_mset (Awake d) cs)"
| notifies_none: "\<forall>d. Asleep d \<notin># cs \<Longrightarrow> permit_step (p, add_mset Freeing cs) (p, cs)"
| wake_all: "permit_step (p, cs) (p, image_mset woken cs)"

definition permit_start :: "permits \<times> permit_pc multiset \<Rightarrow> bool" where
  "permit_start s \<longleftrightarrow> (\<exists>m. s = (permits_new m, {#}))"

fun coming :: "permit_pc \<Rightarrow> nat" where
  "coming (Awake d) = 1"
| "coming Freeing = 1"
| "coming _ = 0"

fun keeps :: "permit_pc \<Rightarrow> nat" where
  "keeps Holding = 1"
| "keeps _ = 0"

definition permit_inv :: "permits \<times> permit_pc multiset \<Rightarrow> bool" where
  "permit_inv s \<longleftrightarrow> (case s of (p, cs) \<Rightarrow>
     pm_held p = tally keeps cs \<and> pm_held p \<le> pm_max p \<and>
     ((\<exists>d. Asleep d \<in># cs) \<longrightarrow> pm_max p \<le> pm_held p + tally coming cs))"

lemma woken_all: "tally keeps (image_mset woken cs) = tally keeps cs" "\<forall>d. Asleep d \<notin># image_mset woken cs"
proof -
  have w: "keeps (woken c) = keeps c" "woken c \<noteq> Asleep d" for c d by (cases c; simp)+
  show "tally keeps (image_mset woken cs) = tally keeps cs" by (induction cs) (simp_all add: w)
  show "\<forall>d. Asleep d \<notin># image_mset woken cs" using w(2) by (metis imageE set_image_mset)
qed

interpretation permits: machine permit_start permit_step permit_inv
proof unfold_locales
  show "permit_inv s" if "permit_start s" for s
    using that by (auto simp: permit_start_def permit_inv_def permits_new_def)
  show "permit_inv s'" if "permit_inv s" "permit_step s s'" for s s'
    using that(2,1)
  proof (induction rule: permit_step.induct)
    case (wake_all p cs)
    then show ?case using woken_all [of cs] by (simp add: permit_inv_def comp_def)
  qed (auto simp: permit_inv_def acquire_turn_def permit_drop_def split: if_splits)
qed

text \<open>C19: at most as many permits as there are are held, each by one thread, and no wake-up is lost: a
  thread asleep for a permit while one is free has a thread on its way to the lock, or one about to wake
  a sleeper, for every free permit.\<close>

theorem no_permit_is_left_over:
  assumes "reach permit_start permit_step (p, cs)"
  shows "pm_held p = tally keeps cs \<and> pm_held p \<le> pm_max p \<and>
    ((\<exists>d. Asleep d \<in># cs) \<longrightarrow> pm_max p - pm_held p \<le> tally coming cs)"
  using permits.reach_inv [OF assms] by (auto simp: permit_inv_def)

lemma one_permit_reached:
  "reach permit_start permit_step (\<lparr>pm_held = 0, pm_max = 1\<rparr>, {#Freeing, Asleep False#})"
proof -
  have go: "reach permit_start permit_step s'" if "reach permit_start permit_step s" "permit_step s s'" for s s'
    using that by (rule reach.reach_step)
  have "reach permit_start permit_step (\<lparr>pm_held = 0, pm_max = 1\<rparr>, {#})"
    by (rule reach_start) (auto simp: permit_start_def permits_new_def intro!: exI [of _ 1])
  from go [OF this permit_step.arrives [of _ _ False]]
  have "reach permit_start permit_step (\<lparr>pm_held = 0, pm_max = 1\<rparr>, {#Awake False#})" .
  from go [OF this permit_step.takes [of False False _ "\<lparr>pm_held = 1, pm_max = 1\<rparr>"]]
  have "reach permit_start permit_step (\<lparr>pm_held = 1, pm_max = 1\<rparr>, {#Holding#})" by (simp add: acquire_turn_def)
  from go [OF this permit_step.arrives [of _ _ False]]
  have "reach permit_start permit_step (\<lparr>pm_held = 1, pm_max = 1\<rparr>, {#Awake False, Holding#})" .
  from go [OF this permit_step.sleeps [of False False _ "\<lparr>pm_held = 1, pm_max = 1\<rparr>"]]
  have "reach permit_start permit_step (\<lparr>pm_held = 1, pm_max = 1\<rparr>, {#Holding, Asleep False#})"
    by (simp add: acquire_turn_def add_mset_commute)
  from go [OF this permit_step.drops] show ?thesis by (simp add: permit_drop_def)
qed

theorem no_permit_is_left_over_witness:
  "pm_max \<lparr>pm_held = 0, pm_max = 1\<rparr> - pm_held \<lparr>pm_held = 0, pm_max = 1\<rparr> \<le> tally coming {#Freeing, Asleep False#}"
  using no_permit_is_left_over [OF one_permit_reached] by simp

end
