(* ===== verification/Calls.thy ===== *)
theory Calls
  imports Machines
begin

text \<open>
  The calls one end of a link makes (\<open>guatiao-source-remote/src/link/mod.rs\<close>: \<open>request\<close>,
  \<open>exchange\<close>, \<open>wait\<close>, \<open>cancel\<close>, \<open>settle_cancelled\<close>, \<open>end\<close> and, of \<open>route\<close>, the replies and the calls
  made during a call). Each section under the lock of the state is one function; a call is a thread, known by its number, and every access to
  the lock, to an atomic count or to a mailbox is one step of a machine, so that its runs are every
  interleaving of any number of calls with the reader and with the end of the link. The peer is
  any peer: it may answer any call, often or never. Whether a call's frame is still queued when it
  is retracted is the business of \<open>Gate\<close>; here the gate may write a queued frame at any time.
  What a call asks, and what runs when the peer calls, is not modelled.
\<close>

section \<open>The sections under the lock\<close>

text \<open>\<open>State\<close>, but for the peer's own calls: the calls in flight, and those this side stopped waiting
  for, each with whether its slot answers an object.\<close>

record calls =
  cl_alive :: bool
  cl_table :: "nat set"
  cl_cancelled :: "(nat \<times> bool) list"

definition calls_new :: calls where
  "calls_new = \<lparr>cl_alive = True, cl_table = {}, cl_cancelled = []\<rparr>"

definition CANCELLED :: nat where "CANCELLED = 4096"
definition MAX_QUEUED :: nat where "MAX_QUEUED = 64"

definition enter_table :: "nat \<Rightarrow> calls \<Rightarrow> calls option" where
  "enter_table i c = (if cl_alive c then Some (c\<lparr>cl_table := insert i (cl_table c)\<rparr>) else None)"

definition leave_table :: "nat \<Rightarrow> calls \<Rightarrow> calls" where
  "leave_table i c = c\<lparr>cl_table := cl_table c - {i}\<rparr>"

text \<open>A map kept in the order of its keys: \<open>pop_first\<close> and \<open>insert\<close>.\<close>

definition pop_first :: "(nat \<times> bool) list \<Rightarrow> (nat \<times> bool) list" where
  "pop_first m = (case m of [] \<Rightarrow> [] | e # es \<Rightarrow> es)"

fun tree_insert :: "nat \<Rightarrow> bool \<Rightarrow> (nat \<times> bool) list \<Rightarrow> (nat \<times> bool) list" where
  "tree_insert k s [] = [(k, s)]"
| "tree_insert k s (e # es) =
     (if k < fst e then (k, s) # e # es else if k = fst e then (k, s) # es else e # tree_insert k s es)"

definition remember :: "nat \<Rightarrow> bool \<Rightarrow> (nat \<times> bool) list \<Rightarrow> (nat \<times> bool) list" where
  "remember i s m = tree_insert i s (if CANCELLED \<le> length m then pop_first m else m)"

definition cancel_call :: "nat \<Rightarrow> bool option \<Rightarrow> calls \<Rightarrow> calls" where
  "cancel_call i slot c =
     (let c = leave_table i c
      in case slot of None \<Rightarrow> c | Some s \<Rightarrow> c\<lparr>cl_cancelled := remember i s (cl_cancelled c)\<rparr>)"

datatype reply_to = ToMailbox | Settle bool | Nobody

definition route_reply :: "nat \<Rightarrow> calls \<Rightarrow> reply_to \<times> calls" where
  "route_reply i c =
     (if i \<in> cl_table c then (ToMailbox, c)
      else case map_of (cl_cancelled c) i of
             Some s \<Rightarrow> (Settle s, c\<lparr>cl_cancelled := filter (\<lambda>e. fst e \<noteq> i) (cl_cancelled c)\<rparr>)
           | None \<Rightarrow> (Nobody, c))"

text \<open>\<open>end\<close>, under the lock: nothing where the link has ended, and else the mailboxes it takes.\<close>

definition end_link :: "calls \<Rightarrow> (nat set \<times> calls) option" where
  "end_link c = (if cl_alive c then Some (cl_table c, \<lparr>cl_alive = False, cl_table = {}, cl_cancelled = []\<rparr>) else None)"

section \<open>The machine\<close>

text \<open>What reaches a mailbox; a reply's body is a number.\<close>

datatype inbound = Reply nat | Called nat | Gone

datatype outcome = Answered nat | LinkGone | NoAnswer | NotBuilt

text \<open>Where a call stands: numbered, and not yet in the table; in it, with its frame to build and to
  send; with a frame the transport failed to take, before it ends the link; waiting; running a call
  of the peer's made during it; out of time, before and after \<open>cancel\<close>'s section; with its outcome,
  before it leaves the table; and returned.\<close>

datatype standing =
    Unborn | Numbered | Building | Failing | Waiting | Running nat | Late | Retracting | Leaving outcome | Returned outcome

text \<open>The reader: before a frame; with one to route; with a mailbox in hand and the lock given back,
  before and after it counts a call; with a late answer to settle; out of its loop, before it ends the
  link; and gone.\<close>

datatype frame_in = ReplyTo nat nat | CallDuring nat nat

datatype reader = Reads | Routes frame_in | Hands nat inbound | Counted nat nat | Settles bool nat nat | Breaks | Stopped

record links =
  lk_calls :: calls
  lk_next :: nat
  lk_slot :: "nat \<Rightarrow> bool option"
  lk_at :: "nat \<Rightarrow> standing"
  lk_box :: "nat \<Rightarrow> inbound list"
  lk_waiting :: "nat \<Rightarrow> nat"
  lk_queue :: "nat set"
  lk_out :: "nat set"
  lk_cancels :: "nat list"
  lk_reader :: reader
  lk_telling :: "nat set"
  lk_heard :: "(nat \<times> nat) list"
  lk_settled :: "(nat \<times> nat) list"
  lk_dropped :: "(nat \<times> inbound) list"
  lk_refused :: "nat list"
  lk_ran :: "nat list"

definition links_start :: "links \<Rightarrow> bool" where
  "links_start w \<longleftrightarrow> (\<exists>slot. w = \<lparr>lk_calls = calls_new, lk_next = 1, lk_slot = slot, lk_at = (\<lambda>_. Unborn), lk_box = (\<lambda>_. []),
     lk_waiting = (\<lambda>_. 0), lk_queue = {}, lk_out = {}, lk_cancels = [], lk_reader = Reads, lk_telling = {}, lk_heard = [], lk_settled = [],
     lk_dropped = [], lk_refused = [], lk_ran = []\<rparr>)"

definition stands :: "nat \<Rightarrow> standing \<Rightarrow> links \<Rightarrow> links" where
  "stands i s w = w\<lparr>lk_at := (lk_at w)(i := s)\<rparr>"

text \<open>A send into a mailbox: the receiver is there until its call has returned.\<close>

definition listening :: "links \<Rightarrow> nat \<Rightarrow> bool" where
  "listening w i \<longleftrightarrow> \<not> (\<exists>out. lk_at w i = Returned out)"

definition post_in :: "nat \<Rightarrow> inbound \<Rightarrow> links \<Rightarrow> links" where
  "post_in i m w =
     (if listening w i then w\<lparr>lk_box := (lk_box w)(i := lk_box w i @ [m])\<rparr>
      else w\<lparr>lk_dropped := lk_dropped w @ [(i, m)]\<rparr>)"

text \<open>A call returns: its receiver goes, with what is in it.\<close>

definition returns :: "nat \<Rightarrow> outcome \<Rightarrow> links \<Rightarrow> links" where
  "returns i out w = (stands i (Returned out) w)
     \<lparr>lk_box := (lk_box w)(i := []), lk_dropped := lk_dropped w @ map (Pair i) (lk_box w i)\<rparr>"

definition ending :: "links \<Rightarrow> links" where
  "ending w = (case end_link (lk_calls w) of Some (told, c) \<Rightarrow> w\<lparr>lk_calls := c, lk_telling := lk_telling w \<union> told\<rparr> | None \<Rightarrow> w)"

datatype mover = Outside | Inside

inductive link_step :: "mover \<Rightarrow> links \<Rightarrow> links \<Rightarrow> bool" where
  numbered: "link_step Outside w ((stands (lk_next w) Numbered w)\<lparr>lk_next := lk_next w + 1\<rparr>)"
| entered: "lk_at w i = Numbered \<Longrightarrow> enter_table i (lk_calls w) = Some c \<Longrightarrow>
    link_step Inside w ((stands i Building w)\<lparr>lk_calls := c\<rparr>)"
| too_late: "lk_at w i = Numbered \<Longrightarrow> enter_table i (lk_calls w) = None \<Longrightarrow> link_step Inside w (returns i LinkGone w)"
| unbuilt: "lk_at w i = Building \<Longrightarrow> link_step Inside w ((returns i NotBuilt w)\<lparr>lk_calls := leave_table i (lk_calls w)\<rparr>)"
| sent: "lk_at w i = Building \<Longrightarrow> link_step Inside w ((stands i Waiting w)\<lparr>lk_queue := insert i (lk_queue w)\<rparr>)"
| closed: "lk_at w i = Building \<Longrightarrow> \<not> cl_alive (lk_calls w) \<Longrightarrow> link_step Inside w (returns i LinkGone w)"
| failed: "lk_at w i = Building \<Longrightarrow> link_step Inside w (stands i Failing w)"
| failed_ends: "lk_at w i = Failing \<Longrightarrow> link_step Inside w (ending (returns i LinkGone w))"
| written: "i \<in> lk_queue w \<Longrightarrow> link_step Outside w (w\<lparr>lk_queue := lk_queue w - {i}, lk_out := insert i (lk_out w)\<rparr>)"
| hears_reply: "lk_at w i = Waiting \<Longrightarrow> lk_box w i = Reply b # rest \<Longrightarrow>
    link_step Inside w ((stands i (Leaving (Answered b)) w)\<lparr>lk_box := (lk_box w)(i := rest)\<rparr>)"
| hears_gone: "lk_at w i = Waiting \<Longrightarrow> lk_box w i = Gone # rest \<Longrightarrow>
    link_step Inside w ((stands i (Leaving LinkGone) w)\<lparr>lk_box := (lk_box w)(i := rest)\<rparr>)"
| hears_call: "lk_at w i = Waiting \<Longrightarrow> lk_box w i = Called k # rest \<Longrightarrow>
    link_step Inside w ((stands i (Running k) w)\<lparr>lk_box := (lk_box w)(i := rest), lk_waiting := (lk_waiting w)(i := lk_waiting w i - 1)\<rparr>)"
| disconnected: "lk_at w i = Waiting \<Longrightarrow> lk_box w i = [] \<Longrightarrow> i \<notin> cl_table (lk_calls w) \<Longrightarrow> i \<notin> lk_telling w \<Longrightarrow>
    (\<forall>m. lk_reader w \<noteq> Hands i m) \<Longrightarrow> (\<forall>k. lk_reader w \<noteq> Counted i k) \<Longrightarrow> link_step Inside w (stands i (Leaving LinkGone) w)"
| ran: "lk_at w i = Running k \<Longrightarrow> link_step Inside w ((stands i Waiting w)\<lparr>lk_ran := lk_ran w @ [k]\<rparr>)"
| out_of_time: "lk_at w i = Waiting \<Longrightarrow> lk_box w i = [] \<Longrightarrow> link_step Outside w (stands i Late w)"
| cancels: "lk_at w i = Late \<Longrightarrow> link_step Inside w ((stands i Retracting w)\<lparr>lk_calls := cancel_call i (lk_slot w i) (lk_calls w)\<rparr>)"
| retracted: "lk_at w i = Retracting \<Longrightarrow> i \<in> lk_queue w \<Longrightarrow>
    link_step Inside w ((stands i (Leaving NoAnswer) w)\<lparr>lk_queue := lk_queue w - {i}\<rparr>)"
| cancel_posted: "lk_at w i = Retracting \<Longrightarrow> i \<notin> lk_queue w \<Longrightarrow>
    link_step Inside w ((stands i (Leaving NoAnswer) w)\<lparr>lk_cancels := lk_cancels w @ [i]\<rparr>)"
| left_table: "lk_at w i = Leaving out \<Longrightarrow> link_step Inside w ((returns i out w)\<lparr>lk_calls := leave_table i (lk_calls w)\<rparr>)"
| arrives: "lk_reader w = Reads \<Longrightarrow>
    link_step Outside w (w\<lparr>lk_reader := Routes f, lk_heard := lk_heard w @ (case f of ReplyTo i b \<Rightarrow> [(i, b)] | CallDuring i k \<Rightarrow> [])\<rparr>)"
| routes_reply: "lk_reader w = Routes (ReplyTo i b) \<Longrightarrow> route_reply i (lk_calls w) = (d, c) \<Longrightarrow>
    link_step Inside w (w\<lparr>lk_calls := c, lk_reader := (case d of ToMailbox \<Rightarrow> Hands i (Reply b) | Settle s \<Rightarrow> Settles s i b | Nobody \<Rightarrow> Reads)\<rparr>)"
| routes_call: "lk_reader w = Routes (CallDuring i k) \<Longrightarrow> i \<in> cl_table (lk_calls w) \<Longrightarrow> link_step Inside w (w\<lparr>lk_reader := Hands i (Called k)\<rparr>)"
| no_parent: "lk_reader w = Routes (CallDuring i k) \<Longrightarrow> i \<notin> cl_table (lk_calls w) \<Longrightarrow>
    link_step Inside w (w\<lparr>lk_reader := Reads, lk_refused := lk_refused w @ [k]\<rparr>)"
| hands_reply: "lk_reader w = Hands i (Reply b) \<Longrightarrow> link_step Inside w (post_in i (Reply b) (w\<lparr>lk_reader := Reads\<rparr>))"
| busy: "lk_reader w = Hands i (Called k) \<Longrightarrow> MAX_QUEUED \<le> lk_waiting w i \<Longrightarrow>
    link_step Inside w (w\<lparr>lk_reader := Reads, lk_refused := lk_refused w @ [k]\<rparr>)"
| counts: "lk_reader w = Hands i (Called k) \<Longrightarrow> lk_waiting w i < MAX_QUEUED \<Longrightarrow>
    link_step Inside w (w\<lparr>lk_reader := Counted i k, lk_waiting := (lk_waiting w)(i := lk_waiting w i + 1)\<rparr>)"
| hands_call: "lk_reader w = Counted i k \<Longrightarrow> listening w i \<Longrightarrow> link_step Inside w (post_in i (Called k) (w\<lparr>lk_reader := Reads\<rparr>))"
| returned: "lk_reader w = Counted i k \<Longrightarrow> \<not> listening w i \<Longrightarrow>
    link_step Inside w (w\<lparr>lk_reader := Reads, lk_refused := lk_refused w @ [k]\<rparr>)"
| settles: "lk_reader w = Settles s i b \<Longrightarrow>
    link_step Inside w (w\<lparr>lk_reader := Reads, lk_settled := lk_settled w @ (if s then [(i, b)] else [])\<rparr>)"
| stops: "lk_reader w = Reads \<Longrightarrow> \<not> cl_alive (lk_calls w) \<Longrightarrow> link_step Inside w (w\<lparr>lk_reader := Stopped\<rparr>)"
| breaks: "lk_reader w = Reads \<Longrightarrow> link_step Outside w (w\<lparr>lk_reader := Breaks\<rparr>)"
| reader_ends: "lk_reader w = Breaks \<Longrightarrow> link_step Inside w (ending (w\<lparr>lk_reader := Stopped\<rparr>))"
| ends: "link_step Outside w (ending w)"
| told: "i \<in> lk_telling w \<Longrightarrow> link_step Inside w (post_in i Gone (w\<lparr>lk_telling := lk_telling w - {i}\<rparr>))"


section \<open>What a link keeps\<close>

text \<open>What the rest of the link can tell of where a call stands.\<close>

datatype phase = Ahead | Flying | Cut | Departing | Back

fun phase_of :: "standing \<Rightarrow> phase" where
  "phase_of Unborn = Ahead"
| "phase_of Numbered = Ahead"
| "phase_of Retracting = Cut"
| "phase_of (Leaving out) = Departing"
| "phase_of (Returned out) = Back"
| "phase_of s = Flying"

lemma listening_phase: "listening w i \<longleftrightarrow> phase_of (lk_at w i) \<noteq> Back"
  by (cases "lk_at w i") (simp_all add: listening_def)

fun in_hand :: "reader \<Rightarrow> nat option" where
  "in_hand (Hands i m) = Some i"
| "in_hand (Counted i k) = Some i"
| "in_hand _ = None"

text \<open>The table: its entries are calls in flight, and while the link lives every call in flight has one;
  only a call that has begun is sent anything.\<close>

fun place_ok :: "phase \<Rightarrow> bool \<Rightarrow> bool \<Rightarrow> bool \<Rightarrow> bool \<Rightarrow> bool" where
  "place_ok Ahead alive entry sent_to boxed \<longleftrightarrow> \<not> entry \<and> \<not> sent_to \<and> \<not> boxed"
| "place_ok Flying alive entry sent_to boxed \<longleftrightarrow> entry = alive"
| "place_ok Cut alive entry sent_to boxed \<longleftrightarrow> \<not> entry"
| "place_ok Departing alive entry sent_to boxed \<longleftrightarrow> (entry \<longrightarrow> alive)"
| "place_ok Back alive entry sent_to boxed \<longleftrightarrow> \<not> entry \<and> \<not> boxed"

definition table_ok :: "links \<Rightarrow> nat \<Rightarrow> bool" where
  "table_ok w i \<longleftrightarrow> (lk_next w \<le> i \<longrightarrow> lk_at w i = Unborn) \<and>
     place_ok (phase_of (lk_at w i)) (cl_alive (lk_calls w)) (i \<in> cl_table (lk_calls w))
       (i \<in> lk_telling w \<or> in_hand (lk_reader w) = Some i) (lk_box w i \<noteq> [])"

text \<open>Where the link has ended, a call in flight has been told, or is about to be.\<close>

definition told_ok :: "links \<Rightarrow> nat \<Rightarrow> bool" where
  "told_ok w i \<longleftrightarrow> (phase_of (lk_at w i) = Flying \<longrightarrow> \<not> cl_alive (lk_calls w) \<longrightarrow> i \<in> lk_telling w \<or> Gone \<in> set (lk_box w i))"

text \<open>Every reply that came is in one place: with the reader, in a mailbox, heard by its call, settled as
  a late one, or dropped.\<close>

fun reply_in_hand :: "reader \<Rightarrow> (nat \<times> nat) option" where
  "reply_in_hand (Routes (ReplyTo i b)) = Some (i, b)"
| "reply_in_hand (Hands i (Reply b)) = Some (i, b)"
| "reply_in_hand (Settles s i b) = Some (i, b)"
| "reply_in_hand _ = None"

definition heard_it :: "standing \<Rightarrow> nat \<Rightarrow> nat" where
  "heard_it s b = (if s = Leaving (Answered b) \<or> s = Returned (Answered b) then 1 else 0)"

definition held :: "links \<Rightarrow> nat \<Rightarrow> nat \<Rightarrow> nat" where
  "held w i b = count_list (lk_box w i) (Reply b) + (if reply_in_hand (lk_reader w) = Some (i, b) then 1 else 0) +
     heard_it (lk_at w i) b + count_list (lk_dropped w) (i, Reply b) + count_list (lk_settled w) (i, b)"

definition replies_ok :: "links \<Rightarrow> nat \<Rightarrow> bool" where
  "replies_ok w i \<longleftrightarrow> (\<forall>b. held w i b \<le> count_list (lk_heard w) (i, b))"

text \<open>The calls waiting in a mailbox, as its count says.\<close>

definition calls_in :: "inbound list \<Rightarrow> nat" where
  "calls_in ms = length (filter (\<lambda>m. \<exists>k. m = Called k) ms)"

definition waiting_ok :: "links \<Rightarrow> nat \<Rightarrow> bool" where
  "waiting_ok w i \<longleftrightarrow> lk_waiting w i \<le> MAX_QUEUED \<and>
     (listening w i \<longrightarrow> lk_waiting w i = calls_in (lk_box w i) + (if \<exists>k. lk_reader w = Counted i k then 1 else 0))"

lemmas link_simps = stands_def post_in_def returns_def ending_def end_link_def enter_table_def leave_table_def
  cancel_call_def route_reply_def listening_phase Let_def

lemma table_ok_step:
  assumes "link_step m w w'" "table_ok w i"
  shows "table_ok w' i"
  using assms(1)
  by (cases; insert assms(2); cases "phase_of (lk_at w i)"; simp add: table_ok_def link_simps split: option.splits if_splits reply_to.splits)
    auto

lemma told_ok_step:
  assumes "link_step m w w'" "table_ok w i" "told_ok w i"
  shows "told_ok w' i"
  using assms(1)
  by (cases; insert assms(2,3); cases "phase_of (lk_at w i)"; simp add: table_ok_def told_ok_def link_simps split: option.splits if_splits reply_to.splits)
    auto

lemma calls_in_simps [simp]:
  "calls_in [] = 0" "calls_in (ms @ ns) = calls_in ms + calls_in ns" "calls_in (Called k # ms) = Suc (calls_in ms)"
  "calls_in (Reply b # ms) = calls_in ms" "calls_in (Gone # ms) = calls_in ms"
  by (simp_all add: calls_in_def)

lemma waiting_ok_step:
  assumes "link_step m w w'" "table_ok w i" "waiting_ok w i"
  shows "waiting_ok w' i"
  using assms(1)
  by (cases; insert assms(2,3); cases "phase_of (lk_at w i)"; simp add: table_ok_def waiting_ok_def link_simps split: option.splits if_splits reply_to.splits)
    auto
lemma count_pair [simp]: "count_list (map (Pair j) ms) (i, x) = (if j = i then count_list ms x else 0)"
  by (induction ms) auto

lemma replies_ok_step:
  assumes "link_step m w w'" "held w i b \<le> count_list (lk_heard w) (i, b)"
  shows "held w' i b \<le> count_list (lk_heard w') (i, b)"
  using assms(1)
  by (cases; insert assms(2); simp add: held_def heard_it_def link_simps split: option.splits if_splits reply_to.splits frame_in.splits)
    auto
definition link_ok :: "links \<Rightarrow> bool" where
  "link_ok w \<longleftrightarrow> 0 < lk_next w \<and> (\<forall>i. table_ok w i \<and> told_ok w i \<and> waiting_ok w i \<and> (\<forall>b. held w i b \<le> count_list (lk_heard w) (i, b)))"

definition link_moves :: "links \<Rightarrow> links \<Rightarrow> bool" where
  "link_moves w w' \<longleftrightarrow> (\<exists>m. link_step m w w')"

lemma next_grows: "link_step m w w' \<Longrightarrow> lk_next w \<le> lk_next w'"
  by (induction rule: link_step.induct) (simp_all add: link_simps split: option.splits)

interpretation link: machine links_start link_moves link_ok
proof
  fix w
  assume "links_start w"
  then show "link_ok w"
    by (auto simp: links_start_def link_ok_def table_ok_def told_ok_def waiting_ok_def held_def heard_it_def calls_new_def)
next
  fix w w'
  assume "link_ok w" "link_moves w w'"
  then obtain m where m: "link_step m w w'" and ok: "0 < lk_next w" "table_ok w i" "told_ok w i" "waiting_ok w i"
    "held w i b \<le> count_list (lk_heard w) (i, b)" for i b
    unfolding link_ok_def link_moves_def by blast
  have "0 < lk_next w'" using next_grows [OF m] ok(1) by simp
  then show "link_ok w'" unfolding link_ok_def
    using table_ok_step [OF m ok(2)] told_ok_step [OF m ok(2,3)] waiting_ok_step [OF m ok(2,4)] replies_ok_step [OF m ok(5)] by simp
qed

section \<open>The table and the mailboxes\<close>


section \<open>Replies\<close>

lemma count_list_pos: "0 < count_list xs x \<longleftrightarrow> x \<in> set xs"
  by (induction xs) auto

lemma count_list_le_filter: "P x \<Longrightarrow> count_list xs x \<le> length (filter P xs)"
  by (induction xs) auto

lemma two_of_a_kind: "x \<in> set xs \<Longrightarrow> y \<in> set xs \<Longrightarrow> x \<noteq> y \<Longrightarrow> P x \<Longrightarrow> P y \<Longrightarrow> 2 \<le> length (filter P xs)"
proof (induction xs)
  case (Cons z zs)
  have "1 \<le> length (filter P zs)" if "u \<in> set zs" "P u" for u
    using that by (induction zs) auto
  then show ?case using Cons by auto
qed simp

section \<open>The calls of an ended link\<close>

text \<open>What the steps of the link itself can still use up: each call where it stands, the messages in its
  mailbox, its entry, the word of the end it is to be told, and where the reader stands.\<close>

fun standing_load :: "standing \<Rightarrow> nat" where
  "standing_load Unborn = 0"
| "standing_load Numbered = 8"
| "standing_load Building = 4"
| "standing_load Failing = 1"
| "standing_load Waiting = 2"
| "standing_load (Running k) = 3"
| "standing_load Late = 3"
| "standing_load Retracting = 2"
| "standing_load (Leaving out) = 1"
| "standing_load (Returned out) = 0"

fun reader_load :: "reader \<Rightarrow> nat" where
  "reader_load Reads = 1"
| "reader_load (Routes f) = 6"
| "reader_load (Hands i m) = 5"
| "reader_load (Counted i k) = 4"
| "reader_load (Settles s i b) = 2"
| "reader_load Breaks = 1"
| "reader_load Stopped = 0"

definition call_load :: "links \<Rightarrow> nat \<Rightarrow> nat" where
  "call_load w i = standing_load (lk_at w i) + 2 * length (lk_box w i) + (if i \<in> cl_table (lk_calls w) then 3 else 0) +
     (if i \<in> lk_telling w then 3 else 0)"

definition link_load :: "links \<Rightarrow> nat" where
  "link_load w = (\<Sum>i<lk_next w. call_load w i) + reader_load (lk_reader w)"

text \<open>A step of the link touches one call, or none.\<close>

definition uses :: "links \<Rightarrow> links \<Rightarrow> nat \<Rightarrow> bool" where
  "uses w w' i \<longleftrightarrow> (\<forall>j. j \<noteq> i \<longrightarrow> call_load w' j \<le> call_load w j) \<and>
     call_load w' i + reader_load (lk_reader w') < call_load w i + reader_load (lk_reader w)"

lemma sum_uses:
  assumes "uses w w' i" "i < lk_next w" "lk_next w' = lk_next w"
  shows "link_load w' < link_load w"
proof -
  let ?N = "{..<lk_next w} - {i}"
  have s: "(\<Sum>j<lk_next w. f j) = f i + sum f ?N" for f :: "nat \<Rightarrow> nat"
    using assms(2) by (intro sum.remove) auto
  have "sum (call_load w') ?N \<le> sum (call_load w) ?N"
    using assms(1) by (intro sum_mono) (auto simp: uses_def)
  then show ?thesis using assms(1,3) s [of "call_load w"] s [of "call_load w'"] by (simp add: link_load_def uses_def)
qed

lemma ahead_of_all: "table_ok w i \<Longrightarrow> phase_of (lk_at w i) \<noteq> Ahead \<or> lk_at w i = Numbered \<Longrightarrow> i < lk_next w"
  by (auto simp: table_ok_def not_le [symmetric])

lemma inside_uses:
  assumes "link_step m w w'" "m = Inside" "\<And>i. table_ok w i"
  shows "\<exists>i. uses w w' i \<and> (phase_of (lk_at w i) \<noteq> Ahead \<or> lk_at w i = Numbered \<or> i = 0)"
  using assms
proof (induction rule: link_step.induct)
  case (hands_reply w i b)
  have "phase_of (lk_at w i) \<noteq> Ahead" using hands_reply.hyps hands_reply.prems(2) [of i] by (auto simp: table_ok_def)
  with hands_reply.hyps show ?case by (intro exI [of _ i]) (auto simp: uses_def call_load_def link_simps)
next
  case (hands_call w i k)
  have "phase_of (lk_at w i) \<noteq> Ahead" using hands_call.hyps hands_call.prems(2) [of i] by (auto simp: table_ok_def)
  with hands_call.hyps show ?case by (intro exI [of _ i]) (auto simp: uses_def call_load_def link_simps)
next
  case (told i w)
  have "phase_of (lk_at w i) \<noteq> Ahead" using told.hyps told.prems(2) [of i] by (auto simp: table_ok_def)
  with told.hyps show ?case by (intro exI [of _ i]) (auto simp: uses_def call_load_def link_simps)
next
  case (entered w i c)
  then show ?case by (intro exI [of _ i]) (auto simp: uses_def call_load_def link_simps split: if_splits)
next
  case (cancels w i)
  then show ?case by (intro exI [of _ i]) (auto simp: uses_def call_load_def link_simps split: option.splits)
next
  case (failed_ends w i)
  then show ?case by (intro exI [of _ i]) (auto simp: uses_def call_load_def link_simps split: option.splits if_splits)
next
  case (reader_ends w)
  then show ?case by (intro exI [of _ 0]) (auto simp: uses_def call_load_def link_simps split: option.splits if_splits)
next
  case (routes_reply w i b d c)
  then show ?case by (intro exI [of _ 0]) (auto simp: uses_def call_load_def link_simps split: option.splits if_splits reply_to.splits)
qed (auto simp: uses_def call_load_def link_simps)
definition link_inner :: "links \<Rightarrow> links \<Rightarrow> bool" where
  "link_inner w w' \<longleftrightarrow> link_step Inside w w'"

lemma inside_next: "link_step m w w' \<Longrightarrow> m = Inside \<Longrightarrow> lk_next w' = lk_next w"
  by (induction rule: link_step.induct) (simp_all add: link_simps split: option.splits)

lemma link_uses_load:
  assumes "link_ok w" "link_inner w w'"
  shows "link_load w' < link_load w"
proof -
  have t: "\<And>i. table_ok w i" "0 < lk_next w" using assms(1) by (simp_all add: link_ok_def)
  obtain i where "uses w w' i" "phase_of (lk_at w i) \<noteq> Ahead \<or> lk_at w i = Numbered \<or> i = 0"
    using inside_uses [OF _ refl t(1)] assms(2) by (auto simp: link_inner_def)
  with t show ?thesis using sum_uses inside_next [OF _ refl] ahead_of_all assms(2) unfolding link_inner_def by metis
qed

lemma link_inner_ok: "link_ok w \<Longrightarrow> link_inner w w' \<Longrightarrow> link_ok w'"
  using link.inv_step by (auto simp: link_inner_def link_moves_def)

lemma link_runs_ok: "link_inner\<^sup>*\<^sup>* w w' \<Longrightarrow> link_ok w \<Longrightarrow> link_ok w'"
  by (induction rule: rtranclp_induct) (auto intro: link_inner_ok)

lemma link_runs_end: "(link_inner ^^ n) w w' \<Longrightarrow> link_ok w \<Longrightarrow> n + link_load w' \<le> link_load w"
proof (induction n arbitrary: w')
  case (Suc n)
  then obtain v where v: "(link_inner ^^ n) w v" "link_inner v w'" by auto
  have "link_ok v" using link_runs_ok [OF relpowp_imp_rtranclp [OF v(1)]] Suc.prems(2) by blast
  then show ?case using Suc.IH [OF v(1) Suc.prems(2)] link_uses_load [OF _ v(2)] by simp
qed simp

text \<open>Where no step of the link is left, a call has returned or the peer owes it an answer.\<close>

lemma link_at_rest:
  assumes "link_ok w" "\<nexists>w'. link_inner w w'" "lk_at w i \<noteq> Unborn"
  shows "(\<exists>out. lk_at w i = Returned out) \<or>
    cl_alive (lk_calls w) \<and> lk_at w i = Waiting \<and> lk_box w i = [] \<and> i \<in> cl_table (lk_calls w)"
proof -
  have n: "\<not> link_step Inside w w'" for w' using assms(2) by (simp add: link_inner_def)
  have ok: "table_ok w i" "told_ok w i" using assms(1) by (simp_all add: link_ok_def)
  show ?thesis
  proof (cases "lk_at w i")
    case Numbered
    then show ?thesis using n entered too_late by (cases "enter_table i (lk_calls w)") blast+
  next
    case Waiting
    have e: "lk_box w i = []"
    proof (rule ccontr)
      assume "lk_box w i \<noteq> []"
      then obtain m rest where "lk_box w i = m # rest" by (auto simp: neq_Nil_conv)
      then show False using n Waiting hears_reply hears_gone hears_call by (cases m) blast+
    qed
    have "i \<notin> lk_telling w" using n told by blast
    then have "cl_alive (lk_calls w)" using ok(2) e Waiting by (auto simp: told_ok_def)
    then show ?thesis using ok(1) e Waiting by (simp add: table_ok_def)
  qed (use n failed failed_ends ran cancels retracted cancel_posted left_table assms(3) in blast)+
qed


section \<open>A reply that is lost\<close>

text \<open>A link whose one call answers an object, and the run: the reader has taken the mailbox of the call for
  its reply when the call runs out of time, cancels and returns; the reply goes into a mailbox nobody
  reads.\<close>

definition one_call :: "standing \<Rightarrow> calls \<Rightarrow> reader \<Rightarrow> nat set \<Rightarrow> nat list \<Rightarrow> (nat \<times> nat) list \<Rightarrow> (nat \<times> inbound) list \<Rightarrow> links" where
  "one_call s c r out cancels heard dropped =
     \<lparr>lk_calls = c, lk_next = 2, lk_slot = (\<lambda>_. Some True), lk_at = (\<lambda>_. Unborn)(1 := s), lk_box = (\<lambda>_. []),
      lk_waiting = (\<lambda>_. 0), lk_queue = {}, lk_out = out, lk_cancels = cancels, lk_reader = r, lk_telling = {},
      lk_heard = heard, lk_settled = [], lk_dropped = dropped, lk_refused = [], lk_ran = []\<rparr>"
definition one_entry :: calls where "one_entry = \<lparr>cl_alive = True, cl_table = {1}, cl_cancelled = []\<rparr>"
definition one_cancelled :: calls where "one_cancelled = \<lparr>cl_alive = True, cl_table = {}, cl_cancelled = [(1, True)]\<rparr>"

lemma link_hop: "reach links_start link_moves w \<Longrightarrow> link_step m w v \<Longrightarrow> v = w' \<Longrightarrow> reach links_start link_moves w'"
  using reach_step [of links_start link_moves] by (auto simp: link_moves_def)

lemmas one_call_simps = one_call_def one_entry_def one_cancelled_def calls_new_def link_simps remember_def CANCELLED_def

text \<open>The call is sent and its reply is with the reader, the mailbox in hand.\<close>

lemma reply_in_hand_reached: "reach links_start link_moves (one_call Waiting one_entry (Hands 1 (Reply 7)) {1} [] [(1, 7)] [])"
proof -
  have "reach links_start link_moves ((one_call Unborn calls_new Reads {} [] [] [])\<lparr>lk_next := 1\<rparr>)"
    by (rule reach_start) (auto simp: links_start_def one_call_def)
  then have "reach links_start link_moves (one_call Numbered calls_new Reads {} [] [] [])"
    by (rule link_hop [OF _ numbered]) (simp add: one_call_simps)
  then have "reach links_start link_moves (one_call Building one_entry Reads {} [] [] [])"
    by (rule link_hop [OF _ entered [of _ 1]]) (simp_all add: one_call_simps)
  then have "reach links_start link_moves ((one_call Waiting one_entry Reads {} [] [] [])\<lparr>lk_queue := {1}\<rparr>)"
    by (rule link_hop [OF _ sent [of _ 1]]) (simp_all add: one_call_simps)
  then have "reach links_start link_moves (one_call Waiting one_entry Reads {1} [] [] [])"
    by (rule link_hop [OF _ written [of 1]]) (simp_all add: one_call_simps)
  then have "reach links_start link_moves (one_call Waiting one_entry (Routes (ReplyTo 1 7)) {1} [] [(1, 7)] [])"
    by (rule link_hop [OF _ arrives [of _ "ReplyTo 1 7"]]) (simp_all add: one_call_simps)
  then show ?thesis
    by (rule link_hop [OF _ routes_reply [of _ 1 7 ToMailbox one_entry]]) (simp_all add: one_call_simps)
qed

lemma lost_reached: "reach links_start link_moves (one_call (Returned NoAnswer) one_cancelled Reads {1} [1] [(1, 7)] [(1, Reply 7)])"
proof -
  let ?r = "Hands 1 (Reply 7)"
  have "reach links_start link_moves (one_call Late one_entry ?r {1} [] [(1, 7)] [])"
    by (rule link_hop [OF reply_in_hand_reached out_of_time [of _ 1]]) (simp_all add: one_call_simps)
  then have "reach links_start link_moves (one_call Retracting one_cancelled ?r {1} [] [(1, 7)] [])"
    by (rule link_hop [OF _ cancels [of _ 1]]) (simp_all add: one_call_simps)
  then have "reach links_start link_moves (one_call (Leaving NoAnswer) one_cancelled ?r {1} [1] [(1, 7)] [])"
    by (rule link_hop [OF _ cancel_posted [of _ 1]]) (simp_all add: one_call_simps)
  then have "reach links_start link_moves (one_call (Returned NoAnswer) one_cancelled ?r {1} [1] [(1, 7)] [])"
    by (rule link_hop [OF _ left_table [of _ 1 NoAnswer]]) (simp_all add: one_call_simps fun_upd_idem)
  then show ?thesis
    by (rule link_hop [OF _ hands_reply [of _ 1 7]]) (simp_all add: one_call_simps)
qed

text \<open>A reply can be lost on a link that lives and a peer that answers once: the reader has taken the
  mailbox of a call, the call runs out of time, is noted as cancelled and returns, and the reply is sent
  where nobody reads. An object in it is let go by nobody, and the note waits for an answer that will
  not come again.\<close>

theorem a_late_reply_can_be_lost:
  "\<exists>w. reach links_start link_moves w \<and> cl_alive (lk_calls w) \<and> lk_heard w = [(1, 7)] \<and> lk_slot w 1 = Some True \<and>
     lk_dropped w = [(1, Reply 7)] \<and> lk_settled w = [] \<and> map_of (cl_cancelled (lk_calls w)) 1 = Some True \<and> lk_reader w = Reads"
  by (rule exI [of _ "one_call (Returned NoAnswer) one_cancelled Reads {1} [1] [(1, 7)] [(1, Reply 7)]"])
     (use lost_reached in \<open>simp add: one_call_def one_cancelled_def\<close>)




end
