(* ===== verification/Gate.thy ===== *)
theory Gate
  imports Machines "HOL-Library.Multiset"
begin

text \<open>
  The writer of a remote link and the frames that wait for it
  (\<open>guatiao-source-remote/src/link/gate.rs\<close>). Threads share the gate under a lock: each
  critical section is one function below, and a thread's run between sections is a step of
  its program counter, so the steps of the machine are every interleaving the lock allows.
  The transport behind the writer is not modelled: a write succeeds, with what it wrote
  recorded, or fails part way (an I/O error or a panic, which \<open>guarded\<close> makes one).
\<close>

section \<open>The critical sections\<close>

text \<open>A frame waiting for the writer: the call it starts, its bytes, and the last of them kept
  apart as a vector and where in it they start.\<close>

record queued =
  q_call :: u64
  q_head :: "u8 list"
  q_tail :: "(u8 list \<times> nat) option"

text \<open>\<open>State\<close>: whether the writer is there (a thread writing has it otherwise), the queue, and
  whether the link has closed.\<close>

record gate =
  g_writer :: bool
  g_queued :: "queued list"
  g_closed :: bool

datatype unsent = UClosed | UFailed

definition gate_new :: gate where
  "gate_new = \<lparr>g_writer = True, g_queued = [], g_closed = False\<rparr>"

text \<open>\<open>queue\<close>: the frame is queued, and the writer taken if it is free.\<close>

definition gate_queue :: "queued \<Rightarrow> gate \<Rightarrow> unsent + (bool \<times> gate)" where
  "gate_queue frame g =
     (if g_closed g then Inl UClosed
      else Inr (g_writer g, g\<lparr>g_queued := g_queued g @ [frame], g_writer := False\<rparr>))"

text \<open>\<open>send_parts\<close>: the writer is taken if it is free.\<close>

definition gate_take :: "gate \<Rightarrow> unsent + (bool \<times> gate)" where
  "gate_take g = (if g_closed g then Inl UClosed else Inr (g_writer g, g\<lparr>g_writer := False\<rparr>))"

text \<open>\<open>retract\<close>: the first queued frame of the call, taken back.\<close>

fun remove_call :: "u64 \<Rightarrow> queued list \<Rightarrow> (queued \<times> queued list) option" where
  "remove_call call [] = None"
| "remove_call call (q # qs) =
     (if q_call q = call then Some (q, qs)
      else map_option (\<lambda>(x, rest). (x, q # rest)) (remove_call call qs))"

definition gate_retract :: "u64 \<Rightarrow> gate \<Rightarrow> bool \<times> gate" where
  "gate_retract call g =
     (case remove_call call (g_queued g) of
        Some (_, rest) \<Rightarrow> (True, g\<lparr>g_queued := rest\<rparr>)
      | None \<Rightarrow> (False, g))"

text \<open>\<open>try_with\<close>: the writer, if it is free.\<close>

definition gate_try :: "gate \<Rightarrow> bool \<times> gate" where
  "gate_try g = (g_writer g, g\<lparr>g_writer := False\<rparr>)"

definition gate_close :: "gate \<Rightarrow> gate" where
  "gate_close g = (let g' = g\<lparr>g_closed := True\<rparr> in if g_writer g then g'\<lparr>g_queued := []\<rparr> else g')"

definition gate_failed :: "gate \<Rightarrow> gate" where
  "gate_failed g = g\<lparr>g_closed := True, g_queued := [], g_writer := True\<rparr>"

text \<open>\<open>drain\<close>: the next batch, or the writer given back when nothing is queued.\<close>

definition gate_drain :: "gate \<Rightarrow> queued list \<times> gate" where
  "gate_drain g =
     (if g_queued g = [] then ([], g\<lparr>g_writer := True\<rparr>) else (g_queued g, g\<lparr>g_queued := []\<rparr>))"

text \<open>What is asked of the writer, and \<open>write_batch\<close>: runs of whole frames together, a frame
  with a tail as its two parts.\<close>

datatype write_op = Frames "u8 list list" | Parts "u8 list" "u8 list"

definition flush_whole :: "u8 list list \<Rightarrow> write_op list" where
  "flush_whole whole = (if whole = [] then [] else [Frames whole])"

fun write_batch_from :: "u8 list list \<Rightarrow> queued list \<Rightarrow> write_op list" where
  "write_batch_from whole [] = flush_whole whole"
| "write_batch_from whole (q # qs) =
     (case q_tail q of
        None \<Rightarrow> write_batch_from (whole @ [q_head q]) qs
      | Some (tl', from') \<Rightarrow>
          flush_whole whole @ Parts (q_head q) (drop from' tl') # write_batch_from [] qs)"

definition write_batch :: "queued list \<Rightarrow> write_op list" where
  "write_batch batch = write_batch_from [] batch"

text \<open>The slice \<open>tail[from..]\<close> panics past the tail's end, and the write then fails.\<close>

definition tails_ok :: "queued list \<Rightarrow> bool" where
  "tails_ok batch \<longleftrightarrow> list_all (\<lambda>q. case q_tail q of None \<Rightarrow> True | Some (t, f) \<Rightarrow> f \<le> length t) batch"

section \<open>Threads at the gate\<close>

text \<open>Where a thread is: outside; in \<open>send_parts\<close> with the writer taken, or having found it
  busy; running \<open>try_with\<close>'s function; in \<open>drain\<close> before its next look at the queue, or
  writing a batch.\<close>

datatype pc = Outside | TakenParts "u8 list" "u8 list" | Behind u64 "u8 list" "u8 list" | Running
  | Draining | Writing "queued list"

text \<open>The gate, the threads, what the writer was asked to write and did, and three accounts the
  code does not keep: the frames the gate took, in order, the ones taken back, and the ones
  dropped when the link failed or closed.\<close>

record world =
  w_gate :: gate
  w_pcs :: "pc list"
  w_wire :: "write_op list"
  w_accepted :: "u8 list list"
  w_back :: "u8 list list"
  w_lost :: "u8 list list"

definition frame_bytes :: "queued \<Rightarrow> u8 list" where
  "frame_bytes q = q_head q @ (case q_tail q of None \<Rightarrow> [] | Some (t, f) \<Rightarrow> drop f t)"

fun op_frames :: "write_op \<Rightarrow> u8 list list" where
  "op_frames (Frames fs) = fs"
| "op_frames (Parts h t) = [h @ t]"

definition ops_frames :: "write_op list \<Rightarrow> u8 list list" where
  "ops_frames ops = concat (map op_frames ops)"

definition queued_bytes :: "gate \<Rightarrow> u8 list list" where
  "queued_bytes g = map frame_bytes (g_queued g)"

text \<open>A step is a thread calling the gate, a thread going on inside it, or one doing so whose
  write fails.\<close>

datatype label = Calls | Goes | Fails

inductive gate_step :: "label \<Rightarrow> world \<Rightarrow> world \<Rightarrow> bool" where
  send: "i < length (w_pcs w) \<Longrightarrow> w_pcs w ! i = Outside \<Longrightarrow> gate_queue q (w_gate w) = Inr (took, g) \<Longrightarrow>
    gate_step Calls w (w\<lparr>w_gate := g, w_pcs := (w_pcs w)[i := (if took then Draining else Outside)],
      w_accepted := w_accepted w @ [frame_bytes q]\<rparr>)"
| parts: "i < length (w_pcs w) \<Longrightarrow> w_pcs w ! i = Outside \<Longrightarrow> gate_take (w_gate w) = Inr (True, g) \<Longrightarrow>
    gate_step Calls w (w\<lparr>w_gate := g, w_pcs := (w_pcs w)[i := TakenParts h t],
      w_accepted := w_accepted w @ [h @ t]\<rparr>)"
| parts_busy: "i < length (w_pcs w) \<Longrightarrow> w_pcs w ! i = Outside \<Longrightarrow> gate_take (w_gate w) = Inr (False, g) \<Longrightarrow>
    gate_step Calls w (w\<lparr>w_gate := g, w_pcs := (w_pcs w)[i := Behind call h t]\<rparr>)"
| retract: "i < length (w_pcs w) \<Longrightarrow> w_pcs w ! i = Outside \<Longrightarrow>
    remove_call call (g_queued (w_gate w)) = Some (q, rest) \<Longrightarrow> gate_retract call (w_gate w) = (True, g) \<Longrightarrow>
    gate_step Calls w (w\<lparr>w_gate := g, w_back := w_back w @ [frame_bytes q]\<rparr>)"
| try_with: "i < length (w_pcs w) \<Longrightarrow> w_pcs w ! i = Outside \<Longrightarrow> gate_try (w_gate w) = (True, g) \<Longrightarrow>
    gate_step Calls w (w\<lparr>w_gate := g, w_pcs := (w_pcs w)[i := Running]\<rparr>)"
| close: "i < length (w_pcs w) \<Longrightarrow> w_pcs w ! i = Outside \<Longrightarrow>
    gate_step Calls w (w\<lparr>w_gate := gate_close (w_gate w),
      w_lost := w_lost w @ (if g_writer (w_gate w) then queued_bytes (w_gate w) else [])\<rparr>)"
| behind: "i < length (w_pcs w) \<Longrightarrow> w_pcs w ! i = Behind call h t \<Longrightarrow>
    gate_queue \<lparr>q_call = call, q_head = h @ t, q_tail = None\<rparr> (w_gate w) = Inr (took, g) \<Longrightarrow>
    gate_step Goes w (w\<lparr>w_gate := g, w_pcs := (w_pcs w)[i := (if took then Draining else Outside)],
      w_accepted := w_accepted w @ [h @ t]\<rparr>)"
| behind_closed: "i < length (w_pcs w) \<Longrightarrow> w_pcs w ! i = Behind call h t \<Longrightarrow>
    gate_queue \<lparr>q_call = call, q_head = h @ t, q_tail = None\<rparr> (w_gate w) = Inl e \<Longrightarrow>
    gate_step Goes w (w\<lparr>w_pcs := (w_pcs w)[i := Outside]\<rparr>)"
| write_parts: "i < length (w_pcs w) \<Longrightarrow> w_pcs w ! i = TakenParts h t \<Longrightarrow>
    gate_step Goes w (w\<lparr>w_wire := w_wire w @ [Parts h t], w_pcs := (w_pcs w)[i := Draining]\<rparr>)"
| ran: "i < length (w_pcs w) \<Longrightarrow> w_pcs w ! i = Running \<Longrightarrow>
    gate_step Goes w (w\<lparr>w_pcs := (w_pcs w)[i := Draining]\<rparr>)"
| drained: "i < length (w_pcs w) \<Longrightarrow> w_pcs w ! i = Draining \<Longrightarrow> gate_drain (w_gate w) = ([], g) \<Longrightarrow>
    gate_step Goes w (w\<lparr>w_gate := g, w_pcs := (w_pcs w)[i := Outside]\<rparr>)"
| batch: "i < length (w_pcs w) \<Longrightarrow> w_pcs w ! i = Draining \<Longrightarrow> gate_drain (w_gate w) = (q # qs, g) \<Longrightarrow>
    gate_step Goes w (w\<lparr>w_gate := g, w_pcs := (w_pcs w)[i := Writing (q # qs)]\<rparr>)"
| writes: "i < length (w_pcs w) \<Longrightarrow> w_pcs w ! i = Writing qs \<Longrightarrow> tails_ok qs \<Longrightarrow>
    gate_step Goes w (w\<lparr>w_wire := w_wire w @ write_batch qs, w_pcs := (w_pcs w)[i := Draining]\<rparr>)"
| write_parts_fails: "i < length (w_pcs w) \<Longrightarrow> w_pcs w ! i = TakenParts h t \<Longrightarrow>
    gate_step Fails w (w\<lparr>w_gate := gate_failed (w_gate w), w_pcs := (w_pcs w)[i := Outside],
      w_lost := w_lost w @ [h @ t] @ queued_bytes (w_gate w)\<rparr>)"
| write_fails: "i < length (w_pcs w) \<Longrightarrow> w_pcs w ! i = Writing qs \<Longrightarrow>
    gate_step Fails w (w\<lparr>w_gate := gate_failed (w_gate w), w_pcs := (w_pcs w)[i := Outside],
      w_wire := w_wire w @ take n (write_batch qs),
      w_lost := w_lost w @ ops_frames (drop n (write_batch qs)) @ queued_bytes (w_gate w)\<rparr>)"

definition gate_start :: "world \<Rightarrow> bool" where
  "gate_start w \<longleftrightarrow> w_gate w = gate_new \<and> list_all (\<lambda>p. p = Outside) (w_pcs w) \<and>
     w_wire w = [] \<and> w_accepted w = [] \<and> w_back w = [] \<and> w_lost w = []"

definition gate_moves :: "world \<Rightarrow> world \<Rightarrow> bool" where
  "gate_moves w w' \<longleftrightarrow> (\<exists>l. gate_step l w w')"

section \<open>What every interleaving keeps\<close>

text \<open>A thread that has the writer, and the frames in its hands.\<close>

fun has_writer :: "pc \<Rightarrow> bool" where
  "has_writer Outside = False"
| "has_writer (Behind call h t) = False"
| "has_writer p = True"

fun in_hand :: "pc \<Rightarrow> u8 list list" where
  "in_hand (TakenParts h t) = [h @ t]"
| "in_hand (Writing qs) = map frame_bytes qs"
| "in_hand p = []"

text \<open>The one thread with the writer, if there is one; when there is none the writer is at the
  gate and nothing is queued.\<close>

definition owner :: "world \<Rightarrow> nat option \<Rightarrow> bool" where
  "owner w h \<longleftrightarrow>
     (case h of
        None \<Rightarrow> g_writer (w_gate w) \<and> g_queued (w_gate w) = [] \<and>
          (\<forall>j<length (w_pcs w). \<not> has_writer (w_pcs w ! j))
      | Some i \<Rightarrow> \<not> g_writer (w_gate w) \<and> i < length (w_pcs w) \<and> has_writer (w_pcs w ! i) \<and>
          (\<forall>j<length (w_pcs w). j \<noteq> i \<longrightarrow> \<not> has_writer (w_pcs w ! j)))"

definition hand_of :: "world \<Rightarrow> nat option \<Rightarrow> u8 list list" where
  "hand_of w h = (case h of None \<Rightarrow> [] | Some i \<Rightarrow> in_hand (w_pcs w ! i))"

definition live :: "world \<Rightarrow> nat option \<Rightarrow> u8 list list" where
  "live w h = ops_frames (w_wire w) @ hand_of w h @ queued_bytes (w_gate w)"

definition accounted :: "world \<Rightarrow> u8 list list \<Rightarrow> bool" where
  "accounted w fs \<longleftrightarrow> subseq fs (w_accepted w) \<and>
     mset (w_accepted w) = mset fs + mset (w_back w) + mset (w_lost w) \<and>
     (w_lost w \<noteq> [] \<longrightarrow> g_closed (w_gate w))"

definition gate_inv :: "world \<Rightarrow> bool" where
  "gate_inv w \<longleftrightarrow> (\<exists>h. owner w h \<and> accounted w (live w h))"

lemma hand_of_all:
  assumes "owner w h"
  shows "hand_of w h = concat (map in_hand (w_pcs w))"
proof -
  have e: "\<not> has_writer p \<Longrightarrow> in_hand p = []" for p by (cases p) auto
  show ?thesis
  proof (cases h)
    case None
    then show ?thesis using assms e by (force simp: owner_def hand_of_def in_set_conv_nth)
  next
    case (Some i)
    with assms have i: "i < length (w_pcs w)" "\<And>j. j < length (w_pcs w) \<Longrightarrow> j \<noteq> i \<Longrightarrow> in_hand (w_pcs w ! j) = []"
      using e by (auto simp: owner_def)
    have "concat (map in_hand (take i (w_pcs w))) = []" "concat (map in_hand (drop (Suc i) (w_pcs w))) = []"
      using i by (auto simp: in_set_conv_nth)
    then have "concat (map in_hand (take i (w_pcs w) @ w_pcs w ! i # drop (Suc i) (w_pcs w))) = in_hand (w_pcs w ! i)"
      by (simp del: concat_eq_Nil_conv)
    then show ?thesis using Some i(1) by (simp add: hand_of_def id_take_nth_drop [symmetric])
  qed
qed

lemma ops_frames_simps [simp]:
  "ops_frames [] = []" "ops_frames (a @ b) = ops_frames a @ ops_frames b" "ops_frames (x # b) = op_frames x @ ops_frames b"
  by (simp_all add: ops_frames_def)

lemma write_batch_from_frames: "ops_frames (write_batch_from whole qs) = whole @ map frame_bytes qs"
  by (induction whole qs rule: write_batch_from.induct)
     (auto simp: flush_whole_def frame_bytes_def split: option.splits)

lemma write_batch_frames: "ops_frames (write_batch qs) = map frame_bytes qs"
  by (simp add: write_batch_def write_batch_from_frames)

lemma write_batch_cut:
  "ops_frames (take n (write_batch qs)) @ ops_frames (drop n (write_batch qs)) = map frame_bytes qs"
  by (metis append_take_drop_id ops_frames_simps(2) write_batch_frames)

lemma remove_call_Some:
  "remove_call call qs = Some (q, rest) \<Longrightarrow> \<exists>a b. qs = a @ q # b \<and> rest = a @ b \<and> q_call q = call"
proof (induction qs arbitrary: rest)
  case (Cons x qs)
  show ?case
  proof (cases "q_call x = call")
    case True
    with Cons.prems have "x # qs = [] @ q # rest \<and> rest = [] @ rest \<and> q_call q = call" by auto
    then show ?thesis by blast
  next
    case False
    with Cons.prems obtain r where r: "remove_call call qs = Some (q, r)" "rest = x # r" by auto
    from Cons.IH [OF r(1)] obtain a b where "qs = a @ q # b" "r = a @ b" "q_call q = call" by blast
    then have "x # qs = (x # a) @ q # b \<and> rest = (x # a) @ b \<and> q_call q = call" using r(2) by simp
    then show ?thesis by blast
  qed
qed simp

lemma accounted_accept:
  "accounted w fs \<Longrightarrow> accounted (w\<lparr>w_gate := g, w_pcs := ps, w_accepted := w_accepted w @ [f]\<rparr>) (fs @ [f])"
  if "g_closed g = g_closed (w_gate w)"
  using that by (auto simp: accounted_def subseq_append')

lemma owner_move:
  "owner w (Some i) \<Longrightarrow> has_writer p \<Longrightarrow> \<not> g_writer g \<Longrightarrow>
   w_gate w' = g \<Longrightarrow> w_pcs w' = (w_pcs w)[i := p] \<Longrightarrow> owner w' (Some i)"
  by (auto simp: owner_def nth_list_update)

lemma owner_give:
  "owner w (Some i) \<Longrightarrow> \<not> has_writer p \<Longrightarrow> g_writer g \<Longrightarrow> g_queued g = [] \<Longrightarrow>
   w_gate w' = g \<Longrightarrow> w_pcs w' = (w_pcs w)[i := p] \<Longrightarrow> owner w' None"
  by (auto simp: owner_def nth_list_update)

lemma owner_take:
  "owner w None \<Longrightarrow> i < length (w_pcs w) \<Longrightarrow> has_writer p \<Longrightarrow> \<not> g_writer g \<Longrightarrow>
   w_gate w' = g \<Longrightarrow> w_pcs w' = (w_pcs w)[i := p] \<Longrightarrow> owner w' (Some i)"
  by (auto simp: owner_def nth_list_update)

lemma owner_other:
  "owner w h \<Longrightarrow> i < length (w_pcs w) \<Longrightarrow> \<not> has_writer (w_pcs w ! i) \<Longrightarrow> \<not> has_writer p \<Longrightarrow>
   g_writer g = g_writer (w_gate w) \<Longrightarrow> (h = None \<Longrightarrow> g_queued g = []) \<Longrightarrow>
   w_gate w' = g \<Longrightarrow> w_pcs w' = (w_pcs w)[i := p] \<Longrightarrow> owner w' h"
  by (cases h) (auto simp: owner_def nth_list_update)

lemma owner_of: "owner w h \<Longrightarrow> i < length (w_pcs w) \<Longrightarrow> has_writer (w_pcs w ! i) \<Longrightarrow> h = Some i"
  by (cases h) (auto simp: owner_def)

lemma owner_free: "owner w h \<Longrightarrow> g_writer (w_gate w) \<longleftrightarrow> h = None"
  by (cases h) (auto simp: owner_def)

lemma owner_empty: "owner w h \<Longrightarrow> h = None \<Longrightarrow> g_queued (w_gate w) = []"
  by (auto simp: owner_def)

lemma hand_other:
  "owner w h \<Longrightarrow> i < length (w_pcs w) \<Longrightarrow> \<not> has_writer (w_pcs w ! i) \<Longrightarrow>
   w_pcs w' = (w_pcs w)[i := p] \<Longrightarrow> hand_of w' h = hand_of w h"
  by (cases h) (auto simp: hand_of_def owner_def nth_list_update)

text \<open>Taking a frame in, from outside or from behind.\<close>

lemma inv_queue:
  assumes inv: "gate_inv w" and i: "i < length (w_pcs w)" "\<not> has_writer (w_pcs w ! i)"
    and q: "gate_queue q (w_gate w) = Inr (took, g)"
  shows "gate_inv (w\<lparr>w_gate := g, w_pcs := (w_pcs w)[i := (if took then Draining else Outside)],
      w_accepted := w_accepted w @ [frame_bytes q]\<rparr>)" (is "gate_inv ?w")
proof -
  obtain h where h: "owner w h" "accounted w (live w h)" using inv by (auto simp: gate_inv_def)
  from q have g: "took = g_writer (w_gate w)" "g = (w_gate w)\<lparr>g_queued := g_queued (w_gate w) @ [q], g_writer := False\<rparr>"
    by (auto simp: gate_queue_def split: if_splits)
  have acc: "accounted ?w (live w h @ [frame_bytes q])" using accounted_accept [OF _ h(2)] g(2) by simp
  show ?thesis
  proof (cases h)
    case None
    with h have took: took using g(1) by (simp add: owner_def)
    have "owner ?w (Some i)" using owner_take [of w i Draining g ?w] h(1) None i(1) g(2) took by simp
    moreover have "live ?w (Some i) = live w h @ [frame_bytes q]"
      using h(1) None i(1) took g(2) by (simp add: live_def hand_of_def queued_bytes_def owner_def)
    ultimately show ?thesis using acc by (auto simp: gate_inv_def)
  next
    case (Some j)
    with h have took: "\<not> took" "\<not> g_writer (w_gate w)" using g(1) by (simp_all add: owner_def)
    have "owner ?w h" using owner_other [OF h(1) i, of Outside g ?w] took g(2) Some by simp
    moreover have "live ?w h = live w h @ [frame_bytes q]"
      using hand_other [OF h(1) i, of ?w Outside] took g(2) by (simp add: live_def queued_bytes_def)
    ultimately show ?thesis using acc by (auto simp: gate_inv_def)
  qed
qed

lemma accounted_back:
  assumes "accounted w (a @ f # b)" "g_closed g = g_closed (w_gate w)"
  shows "accounted (w\<lparr>w_gate := g, w_back := w_back w @ [f]\<rparr>) (a @ b)"
proof -
  have "subseq (a @ b) (a @ f # b)" by (intro list_emb_append_mono) (auto intro: list_emb_Cons)
  then have "subseq (a @ b) (w_accepted w)" using assms(1) subseq_order.trans by (auto simp: accounted_def)
  with assms show ?thesis by (auto simp: accounted_def)
qed

lemma accounted_lose:
  assumes "accounted w (a @ b)" "g_closed g"
  shows "accounted (w\<lparr>w_gate := g, w_pcs := ps, w_wire := ops, w_lost := w_lost w @ b\<rparr>) a"
proof -
  have "subseq a (a @ b)" using list_emb_append_mono [of "(=)" a a "[]" b] by simp
  then have "subseq a (w_accepted w)" using assms(1) subseq_order.trans by (auto simp: accounted_def)
  with assms show ?thesis by (auto simp: accounted_def)
qed

lemma inv_take:
  assumes inv: "gate_inv w" and i: "i < length (w_pcs w)" and "g_writer (w_gate w)"
    and g: "g = (w_gate w)\<lparr>g_writer := False\<rparr>" and p: "has_writer p"
    and w': "w_gate w' = g" "w_pcs w' = (w_pcs w)[i := p]" "w_wire w' = w_wire w"
      "w_back w' = w_back w" "w_lost w' = w_lost w" "w_accepted w' = w_accepted w @ in_hand p"
      "length (in_hand p) \<le> 1"
  shows "gate_inv w'"
proof -
  obtain h where h: "owner w h" "accounted w (live w h)" using inv by (auto simp: gate_inv_def)
  with assms(3) have n: "h = None" by (simp add: owner_free)
  then have e: "g_queued (w_gate w) = []" using h(1) by (simp add: owner_def)
  have "owner w' (Some i)" using owner_take [of w i p g w'] h(1) n i p g w'(1,2) by simp
  moreover have "live w' (Some i) = live w h @ in_hand p"
    using n e i w' g by (simp add: live_def hand_of_def queued_bytes_def)
  moreover have "accounted w' (live w h @ in_hand p)"
    using h(2) w' g by (auto simp: accounted_def subseq_append')
  ultimately show ?thesis by (auto simp: gate_inv_def)
qed

text \<open>The thread with the writer goes on.\<close>

lemma inv_goes:
  assumes inv: "gate_inv w" and i: "i < length (w_pcs w)" "has_writer (w_pcs w ! i)"
    and w': "w_gate w' = g" "w_pcs w' = (w_pcs w)[i := p]" "w_accepted w' = w_accepted w"
      "w_back w' = w_back w" "w_lost w' = w_lost w" "g_closed g = g_closed (w_gate w)"
    and same: "ops_frames (w_wire w') @ in_hand p @ queued_bytes g =
      ops_frames (w_wire w) @ in_hand (w_pcs w ! i) @ queued_bytes (w_gate w)"
    and p: "if has_writer p then \<not> g_writer g else g_writer g \<and> g_queued g = [] \<and> in_hand p = []"
  shows "gate_inv w'"
proof -
  obtain h where h: "owner w h" "accounted w (live w h)" using inv by (auto simp: gate_inv_def)
  have hi: "h = Some i" using owner_of [OF h(1) i] .
  have acc: "accounted w' (live w h)" using h(2) w' by (auto simp: accounted_def)
  show ?thesis
  proof (cases "has_writer p")
    case True
    have "owner w' (Some i)" using owner_move [of w i p g w'] h(1) hi True p w'(1,2) by simp
    moreover have "live w' (Some i) = live w h" using same i(1) w'(1,2) hi by (simp add: live_def hand_of_def)
    ultimately show ?thesis using acc by (auto simp: gate_inv_def)
  next
    case False
    have "owner w' None" using owner_give [of w i p g w'] h(1) hi False p w'(1,2) by simp
    moreover have "live w' None = live w h" using same i(1) w'(1,2) hi p False by (simp add: live_def hand_of_def)
    ultimately show ?thesis using acc by (auto simp: gate_inv_def)
  qed
qed

lemma inv_fails:
  assumes inv: "gate_inv w" and i: "i < length (w_pcs w)" "has_writer (w_pcs w ! i)"
    and cut: "ops_frames ops @ dropped = ops_frames (w_wire w) @ in_hand (w_pcs w ! i)"
  shows "gate_inv (w\<lparr>w_gate := gate_failed (w_gate w), w_pcs := (w_pcs w)[i := Outside], w_wire := ops,
      w_lost := w_lost w @ dropped @ queued_bytes (w_gate w)\<rparr>)" (is "gate_inv ?w")
proof -
  obtain h where h: "owner w h" "accounted w (live w h)" using inv by (auto simp: gate_inv_def)
  have hi: "h = Some i" using owner_of [OF h(1) i] .
  have "live w h = ops_frames ops @ dropped @ queued_bytes (w_gate w)"
    using cut hi by (simp add: live_def hand_of_def)
  then have "accounted ?w (ops_frames ops)" using accounted_lose h(2) by (simp add: gate_failed_def)
  moreover have "owner ?w None"
    using owner_give [of w i Outside "gate_failed (w_gate w)" ?w] h(1) hi by (simp add: gate_failed_def)
  moreover have "live ?w None = ops_frames ops" by (simp add: live_def hand_of_def queued_bytes_def gate_failed_def)
  ultimately show ?thesis by (auto simp: gate_inv_def)
qed

lemma inv_outside:
  assumes inv: "gate_inv w" and i: "i < length (w_pcs w)" "\<not> has_writer (w_pcs w ! i)" and p: "\<not> has_writer p"
  shows "gate_inv (w\<lparr>w_pcs := (w_pcs w)[i := p]\<rparr>)" (is "gate_inv ?w")
proof -
  obtain h where h: "owner w h" "accounted w (live w h)" using inv by (auto simp: gate_inv_def)
  have "owner ?w h" using owner_other [OF h(1) i, of p "w_gate w" ?w] p owner_empty [OF h(1)] by simp
  moreover have "live ?w h = live w h" using hand_other [OF h(1) i, of ?w p] by (simp add: live_def)
  ultimately show ?thesis using h(2) by (auto simp: gate_inv_def accounted_def)
qed

lemma inv_retract:
  assumes inv: "gate_inv w" and r: "remove_call call (g_queued (w_gate w)) = Some (q, rest)"
  shows "gate_inv (w\<lparr>w_gate := (w_gate w)\<lparr>g_queued := rest\<rparr>, w_back := w_back w @ [frame_bytes q]\<rparr>)" (is "gate_inv ?w")
proof -
  obtain h where h: "owner w h" "accounted w (live w h)" using inv by (auto simp: gate_inv_def)
  obtain a b where ab: "g_queued (w_gate w) = a @ q # b" "rest = a @ b" using remove_call_Some [OF r] by blast
  let ?pre = "ops_frames (w_wire w) @ hand_of w h @ map frame_bytes a"
  have "live w h = ?pre @ frame_bytes q # map frame_bytes b" using ab by (simp add: live_def queued_bytes_def)
  then have "accounted w (?pre @ frame_bytes q # map frame_bytes b)" using h(2) by simp
  then have "accounted ?w (?pre @ map frame_bytes b)" by (rule accounted_back) simp
  moreover have "live ?w h = ?pre @ map frame_bytes b"
    using ab by (cases h) (simp_all add: live_def queued_bytes_def hand_of_def)
  moreover have "owner ?w h" using h(1) ab by (cases h) (auto simp: owner_def)
  ultimately show ?thesis by (auto simp: gate_inv_def)
qed

lemma inv_close:
  assumes inv: "gate_inv w"
  shows "gate_inv (w\<lparr>w_gate := gate_close (w_gate w),
      w_lost := w_lost w @ (if g_writer (w_gate w) then queued_bytes (w_gate w) else [])\<rparr>)" (is "gate_inv ?w")
proof -
  obtain h where h: "owner w h" "accounted w (live w h)" using inv by (auto simp: gate_inv_def)
  have "owner ?w h" using h(1) by (cases h) (auto simp: owner_def gate_close_def Let_def)
  moreover have "live ?w h = live w h"
    using h(1) by (cases h) (auto simp: live_def hand_of_def queued_bytes_def gate_close_def owner_def Let_def)
  moreover have "accounted ?w (live w h)"
    using h by (cases h) (auto simp: accounted_def gate_close_def owner_def queued_bytes_def Let_def)
  ultimately show ?thesis by (auto simp: gate_inv_def)
qed

lemma inv_busy: "gate_inv w \<Longrightarrow> i < length (w_pcs w) \<Longrightarrow> has_writer (w_pcs w ! i) \<Longrightarrow> \<not> g_writer (w_gate w)"
  by (auto simp: gate_inv_def owner_free dest: owner_of)

lemma gate_take_False: "gate_take g = Inr (False, g') \<Longrightarrow> g' = g"
  by (cases g) (auto simp: gate_take_def split: if_splits)

lemma gate_inv_calls: "gate_step Calls w w' \<Longrightarrow> gate_inv w \<Longrightarrow> gate_inv w'"
proof (induction "Calls" w w' rule: gate_step.induct)
  case (send i w q took g)
  then show ?case by (intro inv_queue) auto
next
  case (parts i w g h t)
  then have g: "g_writer (w_gate w)" "g = (w_gate w)\<lparr>g_writer := False\<rparr>" by (auto simp: gate_take_def split: if_splits)
  show ?case by (rule inv_take [OF parts.prems parts(1) g, of "TakenParts h t"]) simp_all
next
  case (parts_busy i w g call h t)
  then have "g = w_gate w" by (simp add: gate_take_False)
  then have "w\<lparr>w_gate := g, w_pcs := (w_pcs w)[i := Behind call h t]\<rparr> = w\<lparr>w_pcs := (w_pcs w)[i := Behind call h t]\<rparr>"
    by (cases w) simp
  then show ?case using inv_outside [of w i "Behind call h t"] parts_busy by simp
next
  case (retract i w call q rest g)
  then show ?case using inv_retract [of w call q rest] by (simp add: gate_retract_def)
next
  case (try_with i w g)
  then have g: "g_writer (w_gate w)" "g = (w_gate w)\<lparr>g_writer := False\<rparr>" by (auto simp: gate_try_def)
  show ?case by (rule inv_take [OF try_with.prems try_with(1) g, of Running]) simp_all
next
  case (close i w)
  then show ?case by (intro inv_close)
qed

lemma gate_inv_goes: "gate_step Goes w w' \<Longrightarrow> gate_inv w \<Longrightarrow> gate_inv w'"
proof (induction "Goes" w w' rule: gate_step.induct)
  case (behind i w call h t took g)
  then show ?case
    using inv_queue [of w i "\<lparr>q_call = call, q_head = h @ t, q_tail = None\<rparr>" took g] by (simp add: frame_bytes_def)
next
  case (behind_closed i w call h t e)
  then show ?case by (intro inv_outside) simp_all
next
  case (write_parts i w h t)
  have hw: "has_writer (w_pcs w ! i)" "in_hand (w_pcs w ! i) = [h @ t]" using write_parts(2) by simp_all
  have "\<not> g_writer (w_gate w)" using inv_busy [OF write_parts.prems write_parts(1) hw(1)] .
  then show ?case by (intro inv_goes [OF write_parts.prems write_parts(1) hw(1), where p = Draining]) (simp_all add: hw(2))
next
  case (ran i w)
  have hw: "has_writer (w_pcs w ! i)" "in_hand (w_pcs w ! i) = []" using ran(2) by simp_all
  have "\<not> g_writer (w_gate w)" using inv_busy [OF ran.prems ran(1) hw(1)] .
  then show ?case by (intro inv_goes [OF ran.prems ran(1) hw(1), where p = Draining]) (simp_all add: hw(2))
next
  case (drained i w g)
  have hw: "has_writer (w_pcs w ! i)" "in_hand (w_pcs w ! i) = []" using drained(2) by simp_all
  have g: "g_queued (w_gate w) = []" "g = (w_gate w)\<lparr>g_writer := True\<rparr>"
    using drained(3) by (auto simp: gate_drain_def split: if_splits)
  show ?case
    by (intro inv_goes [OF drained.prems drained(1) hw(1), where p = Outside and g = g]) (simp_all add: hw(2) g queued_bytes_def)
next
  case (batch i w q qs g)
  have hw: "has_writer (w_pcs w ! i)" "in_hand (w_pcs w ! i) = []" using batch(2) by simp_all
  have g: "g_queued (w_gate w) = q # qs" "g = (w_gate w)\<lparr>g_queued := []\<rparr>"
    using batch(3) by (auto simp: gate_drain_def split: if_splits)
  have "\<not> g_writer (w_gate w)" using inv_busy [OF batch.prems batch(1) hw(1)] .
  then show ?case
    by (intro inv_goes [OF batch.prems batch(1) hw(1), where p = "Writing (q # qs)" and g = g])
       (simp_all add: hw(2) g queued_bytes_def)
next
  case (writes i w qs)
  have hw: "has_writer (w_pcs w ! i)" "in_hand (w_pcs w ! i) = map frame_bytes qs" using writes(2) by simp_all
  have "\<not> g_writer (w_gate w)" using inv_busy [OF writes.prems writes(1) hw(1)] .
  then show ?case
    by (intro inv_goes [OF writes.prems writes(1) hw(1), where p = Draining]) (simp_all add: hw(2) write_batch_frames)
qed

lemma gate_inv_fails: "gate_step Fails w w' \<Longrightarrow> gate_inv w \<Longrightarrow> gate_inv w'"
proof (induction "Fails" w w' rule: gate_step.induct)
  case (write_parts_fails i w h t)
  then have "gate_inv (w\<lparr>w_gate := gate_failed (w_gate w), w_pcs := (w_pcs w)[i := Outside], w_wire := w_wire w,
      w_lost := w_lost w @ [h @ t] @ queued_bytes (w_gate w)\<rparr>)"
    by (intro inv_fails) simp_all
  then show ?case by (cases w) simp
next
  case (write_fails i w qs n)
  then have "gate_inv (w\<lparr>w_gate := gate_failed (w_gate w), w_pcs := (w_pcs w)[i := Outside],
      w_wire := w_wire w @ take n (write_batch qs),
      w_lost := w_lost w @ ops_frames (drop n (write_batch qs)) @ queued_bytes (w_gate w)\<rparr>)"
    by (intro inv_fails) (simp_all add: write_batch_cut)
  then show ?case by simp
qed

lemma gate_inv_step: "gate_step l w w' \<Longrightarrow> gate_inv w \<Longrightarrow> gate_inv w'"
  by (cases l) (auto intro: gate_inv_calls gate_inv_goes gate_inv_fails)

lemma gate_inv_start: "gate_start w \<Longrightarrow> gate_inv w"
  by (auto simp: gate_start_def gate_inv_def gate_new_def owner_def accounted_def live_def hand_of_def
      queued_bytes_def list_all_length intro!: exI [of _ None])

interpretation gate: machine gate_start gate_moves gate_inv
  by unfold_locales (auto simp: gate_moves_def intro: gate_inv_start gate_inv_step)

section \<open>When the callers stop\<close>

definition gate_inner :: "world \<Rightarrow> world \<Rightarrow> bool" where
  "gate_inner w w' \<longleftrightarrow> gate_step Goes w w' \<or> gate_step Fails w w'"

text \<open>What is left to do: at most four steps for each thread inside, two for the queue.\<close>

fun stage :: "pc \<Rightarrow> nat" where
  "stage Outside = 0"
| "stage (Behind call h t) = 4"
| "stage Draining = 1"
| "stage p = 2"

definition load :: "world \<Rightarrow> nat" where
  "load w = sum_list (map stage (w_pcs w)) + (if g_queued (w_gate w) = [] then 0 else 2)"

lemma sum_stage_update:
  "i < length ps \<Longrightarrow> sum_list (map stage (ps[i := p])) + stage (ps ! i) = sum_list (map stage ps) + stage p"
proof (induction ps arbitrary: i)
  case (Cons x ps)
  then show ?case by (cases i) auto
qed simp

lemma sum_stage_le: "sum_list (map stage ps) \<le> 4 * length ps"
proof (induction ps)
  case (Cons p ps)
  moreover have "stage p \<le> 4" by (cases p) auto
  ultimately show ?case by simp
qed simp

lemma load_le: "load w \<le> 4 * length (w_pcs w) + 2"
  using sum_stage_le [of "w_pcs w"] by (simp add: load_def)

lemma load_step:
  assumes "gate_inner w w'"
  shows "load w' < load w \<and> length (w_pcs w') = length (w_pcs w)"
proof -
  have "gate_step l w w' \<Longrightarrow> l \<noteq> Calls \<Longrightarrow> load w' < load w \<and> length (w_pcs w') = length (w_pcs w)" for l
  proof (induction rule: gate_step.induct)
    case (behind i w call h t took g)
    then show ?case using sum_stage_update [of i "w_pcs w" "if took then Draining else Outside"]
      by (auto simp: load_def gate_queue_def split: if_splits)
  next
    case (behind_closed i w call h t e)
    then show ?case using sum_stage_update [of i "w_pcs w" Outside] by (auto simp: load_def)
  next
    case (write_parts i w h t)
    then show ?case using sum_stage_update [of i "w_pcs w" Draining] by (auto simp: load_def)
  next
    case (ran i w)
    then show ?case using sum_stage_update [of i "w_pcs w" Draining] by (auto simp: load_def)
  next
    case (drained i w g)
    then show ?case using sum_stage_update [of i "w_pcs w" Outside]
      by (auto simp: load_def gate_drain_def split: if_splits)
  next
    case (batch i w q qs g)
    then show ?case using sum_stage_update [of i "w_pcs w" "Writing (q # qs)"]
      by (auto simp: load_def gate_drain_def split: if_splits)
  next
    case (writes i w qs)
    then show ?case using sum_stage_update [of i "w_pcs w" Draining] by (auto simp: load_def)
  next
    case (write_parts_fails i w h t)
    then show ?case using sum_stage_update [of i "w_pcs w" Outside] by (auto simp: load_def gate_failed_def)
  next
    case (write_fails i w qs n)
    then show ?case using sum_stage_update [of i "w_pcs w" Outside] by (auto simp: load_def gate_failed_def)
  qed simp_all
  then show ?thesis using assms by (auto simp: gate_inner_def)
qed

lemma inner_runs_bounded: "(gate_inner ^^ n) w w' \<Longrightarrow> n + load w' \<le> load w"
proof (induction n arbitrary: w')
  case (Suc n)
  then obtain v where "(gate_inner ^^ n) w v" "gate_inner v w'" by auto
  with Suc.IH [of v] load_step [of v w'] show ?case by simp
qed simp

text \<open>A thread inside can always go on.\<close>

lemma inside_goes:
  assumes "i < length (w_pcs w)" "w_pcs w ! i \<noteq> Outside"
  shows "\<exists>w'. gate_inner w w'"
proof (cases "w_pcs w ! i")
  case (Behind call h t)
  show ?thesis
  proof (cases "gate_queue \<lparr>q_call = call, q_head = h @ t, q_tail = None\<rparr> (w_gate w)")
    case (Inl e)
    then show ?thesis using gate_step.behind_closed [OF assms(1) Behind] by (auto simp: gate_inner_def)
  next
    case (Inr p)
    then show ?thesis using gate_step.behind [OF assms(1) Behind, of "fst p" "snd p"] by (auto simp: gate_inner_def)
  qed
next
  case Draining
  show ?thesis
  proof (cases "gate_drain (w_gate w)")
    case (Pair qs g)
    then show ?thesis using gate_step.drained [OF assms(1) Draining] gate_step.batch [OF assms(1) Draining]
      by (cases qs) (auto simp: gate_inner_def)
  qed
next
  case (TakenParts h t)
  show ?thesis using gate_step.write_parts [OF assms(1) TakenParts] by (auto simp: gate_inner_def)
next
  case Running
  show ?thesis using gate_step.ran [OF assms(1) Running] by (auto simp: gate_inner_def)
next
  case (Writing qs)
  show ?thesis using gate_step.write_fails [OF assms(1) Writing, of 0] by (auto simp: gate_inner_def)
qed (use assms(2) in simp)

lemma inner_reach: "gate_inner\<^sup>*\<^sup>* w w' \<Longrightarrow> gate_inv w \<Longrightarrow> gate_inv w'"
  by (induction rule: rtranclp_induct) (auto simp: gate_inner_def intro: gate_inv_step)

lemma settled:
  assumes "gate_inv w" "\<nexists>w'. gate_inner w w'"
  shows "list_all (\<lambda>p. p = Outside) (w_pcs w) \<and> g_writer (w_gate w) \<and> g_queued (w_gate w) = [] \<and>
    (\<not> g_closed (w_gate w) \<longrightarrow> mset (w_accepted w) = mset (ops_frames (w_wire w)) + mset (w_back w))"
proof -
  have out: "w_pcs w ! i = Outside" if "i < length (w_pcs w)" for i using inside_goes [OF that] assms(2) by blast
  obtain h where h: "owner w h" "accounted w (live w h)" using assms(1) by (auto simp: gate_inv_def)
  have n: "h = None" using h(1) out by (cases h) (auto simp: owner_def)
  then have "live w h = ops_frames (w_wire w)"
    using owner_empty [OF h(1)] by (simp add: live_def hand_of_def queued_bytes_def)
  with h n out show ?thesis by (auto simp: owner_def accounted_def list_all_length)
qed

section \<open>Properties\<close>

text \<open>C15: in every interleaving at most one thread has the writer, and frames wait only while some
  thread has it: nothing is left queued behind a free writer.\<close>

theorem no_frame_waits_for_a_free_writer:
  assumes "reach gate_start gate_moves w"
  shows "(\<forall>i<length (w_pcs w). \<forall>j<length (w_pcs w).
      has_writer (w_pcs w ! i) \<longrightarrow> has_writer (w_pcs w ! j) \<longrightarrow> i = j) \<and>
    (if g_writer (w_gate w) then g_queued (w_gate w) = []
     else \<exists>i<length (w_pcs w). has_writer (w_pcs w ! i))"
proof -
  obtain h where "owner w h" using gate.reach_inv [OF assms] by (auto simp: gate_inv_def)
  then show ?thesis
  proof (cases h)
    case (Some a)
    with \<open>owner w h\<close> have o': "\<not> g_writer (w_gate w)" "a < length (w_pcs w)" "has_writer (w_pcs w ! a)"
      "\<forall>j<length (w_pcs w). j \<noteq> a \<longrightarrow> \<not> has_writer (w_pcs w ! j)" by (auto simp: owner_def)
    then have "i = j" if "i < length (w_pcs w)" "j < length (w_pcs w)" "has_writer (w_pcs w ! i)"
      "has_writer (w_pcs w ! j)" for i j using that by metis
    then show ?thesis using o'(1-3) by auto
  qed (auto simp: owner_def)
qed

definition two_threads :: world where
  "two_threads = \<lparr>w_gate = gate_new, w_pcs = [Outside, Outside], w_wire = [], w_accepted = [], w_back = [], w_lost = []\<rparr>"

definition one_sending :: world where
  "one_sending = two_threads\<lparr>w_gate := \<lparr>g_writer = False, g_queued = [\<lparr>q_call = 1, q_head = [7], q_tail = None\<rparr>],
     g_closed = False\<rparr>, w_pcs := [Draining, Outside], w_accepted := [[7]]\<rparr>"

lemma one_sending_reached: "reach gate_start gate_moves one_sending"
proof -
  have start: "reach gate_start gate_moves two_threads"
    by (rule reach_start) (simp add: gate_start_def two_threads_def)
  let ?q = "\<lparr>q_call = 1, q_head = [7], q_tail = None\<rparr> :: queued"
  have "gate_step Calls two_threads (two_threads\<lparr>w_gate := snd (projr (gate_queue ?q gate_new)),
      w_pcs := (w_pcs two_threads)[0 := (if True then Draining else Outside)],
      w_accepted := w_accepted two_threads @ [frame_bytes ?q]\<rparr>)"
    by (rule gate_step.send) (simp_all add: two_threads_def gate_queue_def gate_new_def)
  then have "gate_step Calls two_threads one_sending"
    by (simp add: one_sending_def two_threads_def gate_queue_def gate_new_def frame_bytes_def)
  then have "gate_moves two_threads one_sending" unfolding gate_moves_def by blast
  with start show ?thesis by (rule reach_step)
qed

theorem no_frame_waits_for_a_free_writer_witness:
  "\<not> g_writer (w_gate one_sending) \<and> (\<exists>i<length (w_pcs one_sending). has_writer (w_pcs one_sending ! i))"
  using no_frame_waits_for_a_free_writer [OF one_sending_reached] by (simp add: one_sending_def)

text \<open>C14: the writer is given the frames in the order the gate took them, none twice: what went out is
  a subsequence of what was taken, and a frame taken is on its way, waiting, taken back, or
  was dropped by a link that has closed.\<close>

theorem frames_go_out_in_order:
  assumes "reach gate_start gate_moves w"
  shows "subseq (ops_frames (w_wire w)) (w_accepted w) \<and>
    mset (w_accepted w) = mset (ops_frames (w_wire w)) + mset (concat (map in_hand (w_pcs w))) +
      mset (queued_bytes (w_gate w)) + mset (w_back w) + mset (w_lost w) \<and>
    (w_lost w \<noteq> [] \<longrightarrow> g_closed (w_gate w))"
proof -
  obtain h where own: "owner w h" and a: "accounted w (live w h)"
    using gate.reach_inv [OF assms] by (auto simp: gate_inv_def)
  have "subseq (ops_frames (w_wire w)) (live w h)"
    unfolding live_def using list_emb_append_mono [of "(=)" "ops_frames (w_wire w)" _ "[]"] by simp
  then have "subseq (ops_frames (w_wire w)) (w_accepted w)" using a subseq_order.trans by (auto simp: accounted_def)
  with a show ?thesis by (simp add: accounted_def live_def hand_of_all [OF own])
qed

theorem frames_go_out_in_order_witness: "subseq (ops_frames (w_wire one_sending)) [[7]]"
  using frames_go_out_in_order [OF one_sending_reached] by (simp add: one_sending_def)

text \<open>C13: once the callers stop calling, the gate settles in a bounded number of steps, whatever the
  schedule: every thread is out, the writer is back, nothing is queued, and on a link still
  open every frame taken was written or taken back.\<close>

theorem the_gate_settles:
  assumes "reach gate_start gate_moves w"
  shows "(\<forall>n w'. (gate_inner ^^ n) w w' \<longrightarrow> n \<le> 4 * length (w_pcs w) + 2) \<and>
    (\<forall>w'. gate_inner\<^sup>*\<^sup>* w w' \<longrightarrow> (\<nexists>w''. gate_inner w' w'') \<longrightarrow>
       list_all (\<lambda>p. p = Outside) (w_pcs w') \<and> g_writer (w_gate w') \<and> g_queued (w_gate w') = [] \<and>
       (\<not> g_closed (w_gate w') \<longrightarrow> mset (w_accepted w') = mset (ops_frames (w_wire w')) + mset (w_back w')))"
proof (intro conjI allI impI)
  fix n w' assume "(gate_inner ^^ n) w w'"
  from inner_runs_bounded [OF this] load_le [of w] show "n \<le> 4 * length (w_pcs w) + 2" by simp
qed (use settled inner_reach gate.reach_inv [OF assms] in blast)+

theorem the_gate_settles_witness: "\<not> (\<exists>w'. (gate_inner ^^ 11) one_sending w')"
proof
  assume "\<exists>w'. (gate_inner ^^ 11) one_sending w'"
  then have "11 \<le> 4 * length (w_pcs one_sending) + 2" using the_gate_settles [OF one_sending_reached] by blast
  then show False by (simp add: one_sending_def)
qed

end
