(* ===== verification/Shm.thy ===== *)
theory Shm
  imports Ring_Buffers
begin

text \<open>
  One direction of a link through shared memory
  (\<open>guatiao-source-remote/src/transport/shm.rs\<close>): a single writer and a single reader in two
  processes, a ring of bytes between them with its two counters and the reader's sleeping
  flag, and the local connection that carries wake-ups. Each access to what they share is a
  step; \<open>write_vectored\<close> and \<open>read\<close> are the sequences of steps their program counters name.
  The steps interleave as under sequential consistency: the code orders its accesses to
  \<open>SLEEPING\<close> and its last look at \<open>HEAD\<close> by \<open>SeqCst\<close> fences, and the others by
  release and acquire. How long a loop spins before it yields, sleeps or gives up is a clock's
  choice: a spinning loop may go round, go to sleep or time out at any turn.
\<close>

section \<open>The ring\<close>

definition RING :: u64 where
  "RING = push_bit 20 4"

text \<open>\<open>Ring::held\<close>: what lies between the counters, refused when it is more than a ring.\<close>

definition held :: "u64 \<Rightarrow> u64 \<Rightarrow> io_error + u64" where
  "held head' tail' = (let n = head' - tail' in if RING < n then Inl InvalidData else Inr n)"

definition copy_out :: "memory \<Rightarrow> u64 \<Rightarrow> nat \<Rightarrow> u8 list" where
  "copy_out m tail' len =
     (let p = unat (tail' mod RING); f = min len (unat RING - p)
      in span m p f @ span m 0 (len - f))"

definition copy_in :: "memory \<Rightarrow> u64 \<Rightarrow> u8 list \<Rightarrow> memory" where
  "copy_in m head' bs =
     (let p = unat (head' mod RING); f = min (length bs) (unat RING - p)
      in blit (blit m p (take f bs)) 0 (drop f bs))"

section \<open>The two ends\<close>

text \<open>Where the writer is: out, with what its last call returned; looking for room from its
  head; finding none; copying the parts in, with the parts left, the count to publish and the
  count copied; about to move \<open>HEAD\<close>; about to load, then to swap the sleeping flag; about to
  ring.\<close>

datatype writer = WOut "io_error + nat" | WRoom u64 "u8 list list" | WFull u64 "u8 list list"
  | WCopy u64 "u8 list list" "u8 list list" nat nat | WPublish u64 "u8 list list" nat
  | WLook nat | WSwap nat | WRing nat

text \<open>Where the reader is: out, with what its last call read; polling, with its tail and its
  buffer's length; about to mark itself asleep; about to look once more; about to take the mark
  back, having seen bytes; waiting for the byte of a writer that took it first; waiting for a
  wake-up; looking after the bell ended; about to copy out; about to move \<open>TAIL\<close>.\<close>

datatype reader = ROut "io_error + u8 list" | RPoll u64 nat | RAsleep u64 nat | RLook u64 nat
  | RSwap u64 u64 nat | RStale u64 u64 nat | RWait u64 nat | RLast io_error u64 nat
  | RTake u64 u64 nat | RStore u64 "u8 list"

text \<open>The shared memory and the bell (the wake-ups in the connection, and whether a write to it
  has failed), the \<open>gone\<close> flag of each end, the two program counters, and two accounts the code
  does not keep: the bytes published and the bytes read, since the start.\<close>

record shm =
  s_mem :: memory
  s_head :: u64
  s_tail :: u64
  s_sleeping :: u64
  s_bell :: nat
  s_broken :: bool
  s_wgone :: bool
  s_rgone :: bool
  s_writer :: writer
  s_reader :: reader
  s_put :: "u8 list"
  s_got :: "u8 list"

subsection \<open>\<open>RingWriter::write_vectored\<close>\<close>

definition write_call :: "u8 list list \<Rightarrow> shm \<Rightarrow> shm" where
  "write_call parts s =
     s\<lparr>s_writer := (if sum_list (map length parts) = 0 then WOut (Inr 0) else WRoom (s_head s) parts)\<rparr>"

definition write_room :: "u64 \<Rightarrow> u8 list list \<Rightarrow> shm \<Rightarrow> shm" where
  "write_room h parts s =
     (case held h (s_tail s) of
        Inl e \<Rightarrow> s\<lparr>s_writer := WOut (Inl e)\<rparr>
      | Inr n \<Rightarrow> let room = RING - n in
          if 0 < room then s\<lparr>s_writer := WCopy h parts parts (min (unat room) (sum_list (map length parts))) 0\<rparr>
          else s\<lparr>s_writer := WFull h parts\<rparr>)"

definition write_full :: "u64 \<Rightarrow> u8 list list \<Rightarrow> shm \<Rightarrow> shm" where
  "write_full h parts s =
     s\<lparr>s_writer := (if s_wgone s then WOut (Inl BrokenPipe) else WRoom h parts)\<rparr>"

definition write_copy :: "u64 \<Rightarrow> u8 list list \<Rightarrow> u8 list list \<Rightarrow> nat \<Rightarrow> nat \<Rightarrow> shm \<Rightarrow> shm" where
  "write_copy h parts ps n d s =
     (case ps of
        [] \<Rightarrow> s\<lparr>s_writer := WPublish h parts n\<rparr>
      | part # ps' \<Rightarrow>
          if d = n then s\<lparr>s_writer := WPublish h parts n\<rparr>
          else let k = min (length part) (n - d) in
            s\<lparr>s_mem := copy_in (s_mem s) (h + of_nat d) (take k part), s_writer := WCopy h parts ps' n (d + k)\<rparr>)"

definition write_publish :: "u64 \<Rightarrow> u8 list list \<Rightarrow> nat \<Rightarrow> shm \<Rightarrow> shm" where
  "write_publish h parts n s =
     s\<lparr>s_head := h + of_nat n, s_put := s_put s @ take n (concat parts), s_writer := WLook n\<rparr>"

definition write_look :: "nat \<Rightarrow> shm \<Rightarrow> shm" where
  "write_look n s = s\<lparr>s_writer := (if s_sleeping s = 1 then WSwap n else WOut (Inr n))\<rparr>"

definition write_swap :: "nat \<Rightarrow> shm \<Rightarrow> shm" where
  "write_swap n s = s\<lparr>s_sleeping := 0, s_writer := (if s_sleeping s = 1 then WRing n else WOut (Inr n))\<rparr>"

definition write_ring :: "nat \<Rightarrow> shm \<Rightarrow> shm" where
  "write_ring n s = s\<lparr>s_bell := s_bell s + 1, s_writer := WOut (Inr n)\<rparr>"

subsection \<open>\<open>RingReader::read\<close>\<close>

definition read_call :: "nat \<Rightarrow> shm \<Rightarrow> shm" where
  "read_call len s = s\<lparr>s_reader := (if len = 0 then ROut (Inr []) else RPoll (s_tail s) len)\<rparr>"

definition read_poll :: "u64 \<Rightarrow> nat \<Rightarrow> shm \<Rightarrow> shm" where
  "read_poll t len s = s\<lparr>s_reader := (if s_head s \<noteq> t then RTake (s_head s) t len else RPoll t len)\<rparr>"

definition read_asleep :: "u64 \<Rightarrow> nat \<Rightarrow> shm \<Rightarrow> shm" where
  "read_asleep t len s = s\<lparr>s_sleeping := 1, s_reader := RLook t len\<rparr>"

definition read_look :: "u64 \<Rightarrow> nat \<Rightarrow> shm \<Rightarrow> shm" where
  "read_look t len s = s\<lparr>s_reader := (if s_head s \<noteq> t then RSwap (s_head s) t len else RWait t len)\<rparr>"

definition read_swap :: "u64 \<Rightarrow> u64 \<Rightarrow> nat \<Rightarrow> shm \<Rightarrow> shm" where
  "read_swap h t len s =
     s\<lparr>s_sleeping := 0, s_reader := (if s_sleeping s = 0 then RStale h t len else RTake h t len)\<rparr>"

text \<open>\<open>wait_bell\<close>: a byte taken from the bell, or its end or failure noted in \<open>gone\<close>.\<close>

definition bell_rings :: "shm \<Rightarrow> shm" where
  "bell_rings s = s\<lparr>s_bell := s_bell s - 1\<rparr>"

definition bell_fails :: "shm \<Rightarrow> shm" where
  "bell_fails s = s\<lparr>s_rgone := True\<rparr>"

definition read_last :: "io_error \<Rightarrow> u64 \<Rightarrow> nat \<Rightarrow> shm \<Rightarrow> shm" where
  "read_last e t len s = s\<lparr>s_reader := (if s_head s = t then ROut (Inl e) else RTake (s_head s) t len)\<rparr>"

definition read_take :: "u64 \<Rightarrow> u64 \<Rightarrow> nat \<Rightarrow> shm \<Rightarrow> shm" where
  "read_take h t len s =
     (case held h t of
        Inl e \<Rightarrow> s\<lparr>s_reader := ROut (Inl e)\<rparr>
      | Inr n \<Rightarrow> s\<lparr>s_reader := RStore t (copy_out (s_mem s) t (min (unat n) len))\<rparr>)"

definition read_store :: "u64 \<Rightarrow> u8 list \<Rightarrow> shm \<Rightarrow> shm" where
  "read_store t bs s =
     s\<lparr>s_tail := t + of_nat (length bs), s_got := s_got s @ bs, s_reader := ROut (Inr bs)\<rparr>"

subsection \<open>The interleavings\<close>

inductive shm_step :: "shm \<Rightarrow> shm \<Rightarrow> bool" where
  w_call: "s_writer s = WOut r \<Longrightarrow> shm_step s (write_call parts s)"
| w_room: "s_writer s = WRoom h parts \<Longrightarrow> shm_step s (write_room h parts s)"
| w_full: "s_writer s = WFull h parts \<Longrightarrow> shm_step s (write_full h parts s)"
| w_stalled: "s_writer s = WFull h parts \<Longrightarrow> \<not> s_wgone s \<Longrightarrow> shm_step s (s\<lparr>s_writer := WOut (Inl TimedOut)\<rparr>)"
| w_copy: "s_writer s = WCopy h parts ps n d \<Longrightarrow> shm_step s (write_copy h parts ps n d s)"
| w_publish: "s_writer s = WPublish h parts n \<Longrightarrow> shm_step s (write_publish h parts n s)"
| w_look: "s_writer s = WLook n \<Longrightarrow> shm_step s (write_look n s)"
| w_swap: "s_writer s = WSwap n \<Longrightarrow> shm_step s (write_swap n s)"
| w_ring: "s_writer s = WRing n \<Longrightarrow> shm_step s (write_ring n s)"
| w_ring_fails: "s_writer s = WRing n \<Longrightarrow> shm_step s (s\<lparr>s_broken := True, s_writer := WOut (Inl IoOther)\<rparr>)"
| ended: "shm_step s (s\<lparr>s_wgone := (s_wgone s \<or> a), s_rgone := (s_rgone s \<or> b)\<rparr>)"
| r_call: "s_reader s = ROut r \<Longrightarrow> shm_step s (read_call len s)"
| r_bound_fails: "s_reader s = ROut r \<Longrightarrow> shm_step s (s\<lparr>s_reader := ROut (Inl IoOther)\<rparr>)"
| r_poll: "s_reader s = RPoll t len \<Longrightarrow> shm_step s (read_poll t len s)"
| r_spun: "s_reader s = RPoll t len \<Longrightarrow> s_head s = t \<Longrightarrow> shm_step s (s\<lparr>s_reader := RAsleep t len\<rparr>)"
| r_asleep: "s_reader s = RAsleep t len \<Longrightarrow> shm_step s (read_asleep t len s)"
| r_look: "s_reader s = RLook t len \<Longrightarrow> shm_step s (read_look t len s)"
| r_swap: "s_reader s = RSwap h t len \<Longrightarrow> shm_step s (read_swap h t len s)"
| r_stale: "s_reader s = RStale h t len \<Longrightarrow> 0 < s_bell s \<Longrightarrow>
    shm_step s ((bell_rings s)\<lparr>s_reader := RTake h t len\<rparr>)"
| r_stale_fails: "s_reader s = RStale h t len \<Longrightarrow> shm_step s ((bell_fails s)\<lparr>s_reader := RTake h t len\<rparr>)"
| r_wait: "s_reader s = RWait t len \<Longrightarrow> 0 < s_bell s \<Longrightarrow> shm_step s ((bell_rings s)\<lparr>s_reader := RPoll t len\<rparr>)"
| r_wait_fails: "s_reader s = RWait t len \<Longrightarrow> shm_step s ((bell_fails s)\<lparr>s_reader := RLast e t len\<rparr>)"
| r_last: "s_reader s = RLast e t len \<Longrightarrow> shm_step s (read_last e t len s)"
| r_take: "s_reader s = RTake h t len \<Longrightarrow> shm_step s (read_take h t len s)"
| r_store: "s_reader s = RStore t bs \<Longrightarrow> shm_step s (read_store t bs s)"

definition shm_start :: "shm \<Rightarrow> bool" where
  "shm_start s \<longleftrightarrow> s_head s = 0 \<and> s_tail s = 0 \<and> s_sleeping s = 0 \<and> s_bell s = 0 \<and> \<not> s_broken s \<and>
     \<not> s_wgone s \<and> \<not> s_rgone s \<and> s_writer s = WOut (Inr 0) \<and> s_reader s = ROut (Inr []) \<and>
     s_put s = [] \<and> s_got s = []"

section \<open>What every interleaving keeps\<close>

lemma RING_unat [simp]: "unat RING = 4194304"
  by (simp add: RING_def push_bit_eq_mult)

lemma RING_not_0 [simp]: "RING \<noteq> 0"
  by (simp add: RING_def push_bit_eq_mult)

interpretation shm: ring_positions 4194304 "TYPE(64)"
  by unfold_locales simp_all

lemma RING_mod: "unat (of_nat p mod RING) = p mod 4194304"
  using shm.offset [of p] by (simp add: unat_mod_distrib)

lemma held_ok: "t \<le> h \<Longrightarrow> h - t \<le> 4194304 \<Longrightarrow> held (of_nat h) (of_nat t) = Inr (of_nat (h - t))"
  using shm.distance [of t h] by (auto simp: held_def Let_def word_less_nat_alt of_nat_diff)

lemma copy_out_ring: "n \<le> 4194304 \<Longrightarrow> copy_out m (of_nat t) n = ring_get 4194304 m t n"
  by (simp add: copy_out_def Let_def RING_mod spans_are_ring_get)

lemma copy_in_ring: "length bs \<le> 4194304 \<Longrightarrow> ring_set 4194304 m h bs (copy_in m (of_nat h) bs)"
  by (simp add: copy_in_def Let_def RING_mod blits_are_ring_set)

text \<open>The bytes between the counters are the ones published and not yet read, and fit.\<close>

definition data_inv :: "shm \<Rightarrow> bool" where
  "data_inv s \<longleftrightarrow>
     (let g = length (s_got s); p = length (s_put s) in
      prefix (s_got s) (s_put s) \<and> p - g \<le> 4194304 \<and>
      ring_get 4194304 (s_mem s) g (p - g) = drop g (s_put s) \<and>
      s_head s = of_nat p \<and> s_tail s = of_nat g)"

definition writer_inv :: "shm \<Rightarrow> bool" where
  "writer_inv s \<longleftrightarrow>
     (let g = length (s_got s); p = length (s_put s) in
      case s_writer s of
        WRoom h parts \<Rightarrow> h = of_nat p \<and> concat parts \<noteq> []
      | WFull h parts \<Rightarrow> h = of_nat p \<and> concat parts \<noteq> []
      | WCopy h parts ps n d \<Rightarrow> h = of_nat p \<and> d \<le> n \<and> 0 < n \<and> n \<le> length (concat parts) \<and>
          p + n \<le> g + 4194304 \<and> ring_get 4194304 (s_mem s) p d = take d (concat parts) \<and>
          (d = n \<or> drop d (concat parts) = concat ps)
      | WPublish h parts n \<Rightarrow> h = of_nat p \<and> 0 < n \<and> n \<le> length (concat parts) \<and>
          p + n \<le> g + 4194304 \<and> ring_get 4194304 (s_mem s) p n = take n (concat parts)
      | _ \<Rightarrow> True)"

definition seen :: "shm \<Rightarrow> u64 \<Rightarrow> u64 \<Rightarrow> nat \<Rightarrow> bool" where
  "seen s h t len \<longleftrightarrow> t = of_nat (length (s_got s)) \<and> 0 < len \<and>
     (\<exists>p. h = of_nat p \<and> length (s_got s) < p \<and> p \<le> length (s_put s))"

definition reader_inv :: "shm \<Rightarrow> bool" where
  "reader_inv s \<longleftrightarrow>
     (case s_reader s of
        ROut r \<Rightarrow> True
      | RPoll t len \<Rightarrow> t = of_nat (length (s_got s)) \<and> 0 < len
      | RAsleep t len \<Rightarrow> t = of_nat (length (s_got s)) \<and> 0 < len
      | RLook t len \<Rightarrow> t = of_nat (length (s_got s)) \<and> 0 < len
      | RWait t len \<Rightarrow> t = of_nat (length (s_got s)) \<and> 0 < len
      | RLast e t len \<Rightarrow> t = of_nat (length (s_got s)) \<and> 0 < len
      | RSwap h t len \<Rightarrow> seen s h t len
      | RStale h t len \<Rightarrow> seen s h t len
      | RTake h t len \<Rightarrow> seen s h t len
      | RStore t bs \<Rightarrow> t = of_nat (length (s_got s)) \<and> bs \<noteq> [] \<and> prefix bs (drop (length (s_got s)) (s_put s)))"

text \<open>A reader that is asleep or nearly has its mark up, or a wake-up on the way.\<close>

definition owed :: "shm \<Rightarrow> bool" where
  "owed s \<longleftrightarrow> 0 < s_bell s \<or> s_broken s \<or> (\<exists>n. s_writer s = WRing n)"

definition wake_inv :: "shm \<Rightarrow> bool" where
  "wake_inv s \<longleftrightarrow>
     (s_sleeping s = 0 \<or> s_sleeping s = 1) \<and>
     (case s_reader s of
        RLook t len \<Rightarrow> s_sleeping s = 1 \<or> owed s
      | RSwap h t len \<Rightarrow> s_sleeping s = 1 \<or> owed s
      | RStale h t len \<Rightarrow> owed s
      | RWait t len \<Rightarrow> (s_sleeping s = 1 \<or> owed s) \<and>
          (s_sleeping s = 1 \<longrightarrow> s_head s = s_tail s \<or> (\<exists>n. s_writer s = WLook n \<or> s_writer s = WSwap n))
      | _ \<Rightarrow> True)"

definition shm_inv :: "shm \<Rightarrow> bool" where
  "shm_inv s \<longleftrightarrow> data_inv s \<and> writer_inv s \<and> reader_inv s \<and> wake_inv s"

named_theorems shm_defs

lemmas [shm_defs] = write_call_def write_room_def write_full_def write_copy_def write_publish_def write_look_def
  write_swap_def write_ring_def read_call_def read_poll_def read_asleep_def read_look_def read_swap_def
  bell_rings_def bell_fails_def read_last_def read_take_def read_store_def

lemma wake_step:
  assumes "shm_step s s'" "data_inv s" "reader_inv s" "wake_inv s"
  shows "wake_inv s'"
  using assms
proof (induction rule: shm_step.induct)
  case (r_look s t len)
  then show ?case by (auto simp: shm_defs wake_inv_def owed_def reader_inv_def data_inv_def Let_def split: if_splits)
qed (auto simp: shm_defs wake_inv_def owed_def Let_def split: reader.splits sum.splits list.splits if_splits)

lemma data_facts:
  assumes "data_inv s"
  shows "length (s_got s) \<le> length (s_put s)" "length (s_put s) - length (s_got s) \<le> 4194304"
    "s_put s = s_got s @ drop (length (s_got s)) (s_put s)"
    "s_head s = of_nat (length (s_put s))" "s_tail s = of_nat (length (s_got s))"
    "ring_get 4194304 (s_mem s) (length (s_got s)) (length (s_put s) - length (s_got s)) = drop (length (s_got s)) (s_put s)"
  using assms by (auto simp: data_inv_def Let_def prefix_def)

lemma head_is_tail:
  "data_inv s \<Longrightarrow> s_head s = of_nat (length (s_got s)) \<longleftrightarrow> length (s_put s) = length (s_got s)"
  using shm.same_iff [of "length (s_got s)" "length (s_put s)"] data_facts [of s] by simp

lemma reads_head:
  "data_inv s \<Longrightarrow> t = of_nat (length (s_got s)) \<Longrightarrow> 0 < len \<Longrightarrow> s_head s \<noteq> t \<Longrightarrow> seen s (s_head s) t len"
  using head_is_tail [of s] data_facts(1,4) [of s] unfolding seen_def by (auto intro!: exI [of _ "length (s_put s)"])

text \<open>The writer's steps.\<close>

lemma copy_step:
  assumes d: "data_inv s" and w: "writer_inv s" and pc: "s_writer s = WCopy h parts ps n d"
  shows "data_inv (write_copy h parts ps n d s) \<and> writer_inv (write_copy h parts ps n d s)"
proof (cases "ps = [] \<or> d = n")
  case True
  moreover have "d = n" if "ps = []" using that w pc by (auto simp: writer_inv_def Let_def)
  ultimately show ?thesis using d w pc
    by (cases ps) (auto simp: write_copy_def data_inv_def writer_inv_def Let_def)
next
  case False
  then obtain part ps' where ps: "ps = part # ps'" "d \<noteq> n" by (cases ps) auto
  let ?g = "length (s_got s)" and ?p = "length (s_put s)"
  define k where "k = min (length part) (n - d)"
  define m where "m = copy_in (s_mem s) (h + of_nat d) (take k part)"
  have i: "h = of_nat ?p" "d < n" "n \<le> length (concat parts)" "?p + n \<le> ?g + 4194304"
    "ring_get 4194304 (s_mem s) ?p d = take d (concat parts)" "drop d (concat parts) = part @ concat ps'"
    using w pc ps by (auto simp: writer_inv_def Let_def)
  note f = data_facts [OF d]
  have lk: "length (take k part) = k" "d + k \<le> n" using i(2) by (simp_all add: k_def)
  have set: "ring_set 4194304 (s_mem s) (?p + d) (take k part) m"
    using copy_in_ring [of "take k part" "s_mem s" "?p + d"] lk i(4) f(1,2) by (simp add: m_def i(1) k_def)
  have "ring_get 4194304 m ?g (?p - ?g) = drop ?g (s_put s)"
    using ring_set_other [OF _ set, of ?g "?p - ?g"] f lk i(4) by simp
  moreover have "ring_get 4194304 m ?p (d + k) = take (d + k) (concat parts)"
  proof -
    have "ring_get 4194304 m ?p d = take d (concat parts)"
      using ring_set_other [OF _ set, of ?p d] f i(4,5) lk by simp
    moreover have "ring_get 4194304 m (?p + d) k = take k (drop d (concat parts))"
      using ring_set_get [OF set] lk i(6) by (simp add: k_def)
    ultimately show ?thesis by (simp add: ring_get_add take_add)
  qed
  moreover have "d + k = n \<or> drop (d + k) (concat parts) = concat ps'"
  proof (cases "length part \<le> n - d")
    case True
    then have "drop k (drop d (concat parts)) = concat ps'" by (simp add: i(6) k_def)
    then show ?thesis by (simp add: add.commute)
  next
    case False
    then show ?thesis using i(2) by (simp add: k_def)
  qed
  moreover have "write_copy h parts ps n d s = s\<lparr>s_mem := m, s_writer := WCopy h parts ps' n (d + k)\<rparr>"
    using ps by (simp add: write_copy_def Let_def k_def m_def)
  ultimately show ?thesis using d i lk by (simp add: data_inv_def writer_inv_def Let_def)
qed

lemma publish_step:
  assumes d: "data_inv s" and w: "writer_inv s" and pc: "s_writer s = WPublish h parts n"
  shows "data_inv (write_publish h parts n s)"
proof -
  let ?g = "length (s_got s)" and ?p = "length (s_put s)"
  have i: "h = of_nat ?p" "n \<le> length (concat parts)" "?p + n \<le> ?g + 4194304"
    "ring_get 4194304 (s_mem s) ?p n = take n (concat parts)"
    using w pc by (auto simp: writer_inv_def Let_def)
  note f = data_facts [OF d]
  have "ring_get 4194304 (s_mem s) ?g (?p - ?g + n) = drop ?g (s_put s) @ take n (concat parts)"
    using f(1,6) i(4) ring_get_add [of 4194304 "s_mem s" ?g "?p - ?g" n] by (simp del: add_diff_assoc2)
  then show ?thesis using d i f(1) by (simp add: write_publish_def data_inv_def Let_def min_absorb2)
qed

lemma room_step:
  assumes d: "data_inv s" and w: "writer_inv s" and pc: "s_writer s = WRoom h parts"
  shows "writer_inv (write_room h parts s) \<and> s_writer (write_room h parts s) \<noteq> WOut (Inl InvalidData)"
proof -
  let ?g = "length (s_got s)" and ?p = "length (s_put s)"
  note f = data_facts [OF d]
  have i: "h = of_nat ?p" "concat parts \<noteq> []" using w pc by (auto simp: writer_inv_def Let_def)
  have h: "held h (s_tail s) = Inr (of_nat (?p - ?g))" using held_ok [OF f(1,2)] by (simp add: i(1) f(5))
  have "RING - of_nat (?p - ?g) = of_nat (4194304 - (?p - ?g))"
    using f(2) by (simp add: RING_def push_bit_eq_mult of_nat_diff)
  then have r: "unat (RING - of_nat (?p - ?g)) = 4194304 - (?p - ?g)" by (simp add: unat_of_nat)
  have "0 < sum_list (map length parts)" using i(2) by (metis length_concat length_greater_0_conv)
  moreover have "write_room h parts s =
      (if 0 < 4194304 - (?p - ?g)
       then s\<lparr>s_writer := WCopy h parts parts (min (4194304 - (?p - ?g)) (sum_list (map length parts))) 0\<rparr>
       else s\<lparr>s_writer := WFull h parts\<rparr>)"
    unfolding write_room_def h sum.case Let_def word_less_nat_alt r by simp
  ultimately show ?thesis using f(1,2) i
    by (auto simp add: writer_inv_def Let_def length_concat ring_get_def min_def)
qed

text \<open>The reader's steps.\<close>

lemma take_step:
  assumes d: "data_inv s" and r: "reader_inv s" and pc: "s_reader s = RTake h t len"
  shows "\<exists>bs. read_take h t len s = s\<lparr>s_reader := RStore t bs\<rparr> \<and> bs \<noteq> [] \<and> length bs \<le> len \<and>
    t = of_nat (length (s_got s)) \<and> prefix bs (drop (length (s_got s)) (s_put s))"
proof -
  let ?g = "length (s_got s)"
  note f = data_facts [OF d]
  obtain p where p: "h = of_nat p" "t = of_nat ?g" "0 < len" "?g < p" "p \<le> length (s_put s)"
    using r pc by (auto simp: reader_inv_def seen_def)
  have le: "p - ?g \<le> length (s_put s) - ?g" "p - ?g \<le> 4194304" using p(4,5) f(2) by auto
  define n where "n = min (p - ?g) len"
  have "unat (of_nat (p - ?g) :: u64) = p - ?g" using shm.distance [of ?g p] p(4) le(2) by (simp add: of_nat_diff)
  then have "read_take h t len s = s\<lparr>s_reader := RStore t (ring_get 4194304 (s_mem s) ?g n)\<rparr>"
    using held_ok [of ?g p] p(4) le(2) by (simp add: read_take_def p(1,2) n_def copy_out_ring)
  moreover have "ring_get 4194304 (s_mem s) ?g n = take n (drop ?g (s_put s))"
    using take_ring_get [of n "length (s_put s) - ?g" 4194304 "s_mem s" ?g] f(6) le(1) by (simp add: n_def)
  moreover have "take n (drop ?g (s_put s)) \<noteq> []" using p f(1) by (simp add: n_def)
  ultimately show ?thesis using p(2) by (intro exI [of _ "take n (drop ?g (s_put s))"]) (simp add: n_def take_is_prefix)
qed

lemma store_step:
  assumes d: "data_inv s" and r: "reader_inv s" and pc: "s_reader s = RStore t bs"
  shows "data_inv (read_store t bs s)"
proof -
  let ?g = "length (s_got s)" and ?n = "length bs"
  note f = data_facts [OF d]
  obtain zs where z: "t = of_nat ?g" "drop ?g (s_put s) = bs @ zs" using r pc by (auto simp: reader_inv_def prefix_def)
  then have p: "s_put s = s_got s @ bs @ zs" using f(3) by simp
  have "drop ?n (ring_get 4194304 (s_mem s) ?g (length (bs @ zs))) = zs" using f(6) p by simp
  then have "ring_get 4194304 (s_mem s) (?g + ?n) (length zs) = zs" by (simp add: drop_ring_get)
  then show ?thesis using d p z(1) by (simp add: read_store_def data_inv_def Let_def)
qed

lemma data_step:
  assumes "shm_step s s'" "data_inv s" "writer_inv s" "reader_inv s"
  shows "data_inv s'"
  using assms
proof (induction rule: shm_step.induct)
  case (w_room s h parts)
  then show ?case by (auto simp: write_room_def data_inv_def Let_def split: sum.splits)
next
  case (w_copy s h parts ps n d)
  then show ?case using copy_step by blast
next
  case (w_publish s h parts n)
  then show ?case using publish_step by blast
next
  case (r_take s h t len)
  then show ?case using take_step [of s h t len] by (auto simp: data_inv_def Let_def)
next
  case (r_store s t bs)
  then show ?case using store_step by blast
qed (simp_all add: shm_defs data_inv_def Let_def)

lemma writer_reads:
  assumes "writer_inv s" "s_mem s' = s_mem s" "s_put s' = s_put s" "s_writer s' = s_writer s"
    "length (s_got s) \<le> length (s_got s')"
  shows "writer_inv s'"
  using assms by (auto simp: writer_inv_def Let_def split: writer.splits)

lemma writer_step:
  assumes "shm_step s s'" "data_inv s" "writer_inv s" "reader_inv s"
  shows "writer_inv s'"
  using assms
proof (induction rule: shm_step.induct)
  case (w_call s r parts)
  then show ?case using data_facts(4) [of s]
    by (auto simp: write_call_def writer_inv_def Let_def length_concat [symmetric])
next
  case (w_room s h parts)
  then show ?case using room_step by blast
next
  case (w_copy s h parts ps n d)
  then show ?case using copy_step by blast
next
  case (r_take s h t len)
  then show ?case using take_step [of s h t len] by (auto elim!: writer_reads)
qed (auto simp: shm_defs writer_inv_def Let_def split: writer.splits)

lemma reader_step:
  assumes "shm_step s s'" "data_inv s" "writer_inv s" "reader_inv s"
  shows "reader_inv s'"
  using assms
proof (induction rule: shm_step.induct)
  case (w_room s h parts)
  then show ?case by (auto simp: write_room_def reader_inv_def seen_def Let_def split: sum.splits reader.splits)
next
  case (w_copy s h parts ps n d)
  then show ?case by (auto simp: write_copy_def reader_inv_def seen_def Let_def split: list.splits reader.splits)
next
  case (w_publish s h parts n)
  then show ?case using data_facts(1) [of s]
    by (auto simp: write_publish_def reader_inv_def seen_def split: reader.splits intro: prefix_prefix)
next
  case (r_call s r len)
  then show ?case using data_facts(5) [of s] by (simp add: read_call_def reader_inv_def)
next
  case (r_poll s t len)
  then show ?case using reads_head [of s t len] by (auto simp: read_poll_def reader_inv_def seen_def)
next
  case (r_look s t len)
  then show ?case using reads_head [of s t len] by (auto simp: read_look_def reader_inv_def seen_def)
next
  case (r_last s e t len)
  then show ?case using reads_head [of s t len] by (auto simp: read_last_def reader_inv_def seen_def)
next
  case (r_take s h t len)
  then show ?case using take_step [of s h t len] by (auto simp: reader_inv_def)
qed (auto simp: shm_defs reader_inv_def seen_def split: reader.splits)

lemma shm_inv_step: "shm_step s s' \<Longrightarrow> shm_inv s \<Longrightarrow> shm_inv s'"
  by (auto simp: shm_inv_def intro: data_step writer_step reader_step wake_step)

lemma shm_inv_start: "shm_start s \<Longrightarrow> shm_inv s"
  by (simp add: shm_start_def shm_inv_def data_inv_def writer_inv_def reader_inv_def wake_inv_def ring_get_def)

interpretation ring: byte_stream shm_start shm_step shm_inv s_put s_got
  by unfold_locales (auto simp: shm_inv_start shm_inv_step, simp add: shm_inv_def data_inv_def Let_def)

section \<open>Properties\<close>

text \<open>C8: in every interleaving the reader gets the writer's bytes, in order and each once: what it has
  read, and then what the ring holds from the tail on, is exactly what was published; and
  neither end's check of the counters ever refuses a peer that follows the protocol.\<close>

theorem the_ring_is_a_stream:
  assumes "reach shm_start shm_step s"
  shows "held (s_head s) (s_tail s) = Inr (s_head s - s_tail s) \<and>
    s_put s = s_got s @ copy_out (s_mem s) (s_tail s) (unat (s_head s - s_tail s)) \<and>
    (\<forall>h parts. s_writer s = WRoom h parts \<longrightarrow> s_writer (write_room h parts s) \<noteq> WOut (Inl InvalidData)) \<and>
    (\<forall>h t len. s_reader s = RTake h t len \<longrightarrow>
       (\<exists>bs. bs \<noteq> [] \<and> length bs \<le> len \<and> s_reader (read_take h t len s) = RStore t bs))"
proof -
  have i: "data_inv s" "writer_inv s" "reader_inv s" using ring.reach_inv [OF assms] by (simp_all add: shm_inv_def)
  note f = data_facts [OF i(1)]
  have d: "unat (s_head s - s_tail s) = length (s_put s) - length (s_got s)"
    using shm.distance [OF f(1,2)] by (simp add: f(4,5))
  have "held (s_head s) (s_tail s) = Inr (s_head s - s_tail s)"
    using held_ok [OF f(1,2)] f(1) by (simp add: f(4,5) of_nat_diff)
  moreover have "copy_out (s_mem s) (s_tail s) (unat (s_head s - s_tail s)) = drop (length (s_got s)) (s_put s)"
    unfolding d using f(2,6) by (simp add: f(5) copy_out_ring)
  moreover have "\<exists>bs. bs \<noteq> [] \<and> length bs \<le> len \<and> s_reader (read_take h t len s) = RStore t bs"
    if "s_reader s = RTake h t len" for h t len using take_step [OF i(1,3) that] by auto
  ultimately show ?thesis using room_step [OF i(1,2)] f(3) by simp
qed

text \<open>C9: no wake-up is lost: when a reader sleeps on its bell with bytes in the ring and the writer
  is out of its call, a byte is in the bell or writing to it has failed; and a reader that waits
  for the byte of a writer that saw it asleep is not left waiting either.\<close>

theorem no_wake_up_is_lost:
  assumes "reach shm_start shm_step s" "s_writer s = WOut r" "\<not> s_broken s"
    and "s_reader s = RWait t len \<and> s_head s \<noteq> s_tail s \<or> s_reader s = RStale h t len"
  shows "0 < s_bell s"
proof -
  have "wake_inv s" using ring.reach_inv [OF assms(1)] by (simp add: shm_inv_def)
  then show ?thesis using assms(2-) by (auto simp: wake_inv_def owed_def)
qed

text \<open>A writer that publishes while the reader is going to sleep.\<close>

definition shm_empty :: shm where
  "shm_empty = \<lparr>s_mem = (\<lambda>_. 0), s_head = 0, s_tail = 0, s_sleeping = 0, s_bell = 0, s_broken = False,
     s_wgone = False, s_rgone = False, s_writer = WOut (Inr 0), s_reader = ROut (Inr []), s_put = [], s_got = []\<rparr>"

definition shm_asleep :: shm where
  "shm_asleep = read_look 0 8 (read_asleep 0 8 ((read_call 8 shm_empty)\<lparr>s_reader := RAsleep 0 8\<rparr>))"

definition shm_rung :: shm where
  "shm_rung = write_ring 2 (write_swap 2 (write_look 2 (write_publish 0 [[7, 9]] 2
     (write_copy 0 [[7, 9]] [] 2 2 (write_copy 0 [[7, 9]] [[7, 9]] 2 0
       (write_room 0 [[7, 9]] (write_call [[7, 9]] shm_asleep)))))))"

lemmas shm_run_defs = shm_rung_def shm_asleep_def shm_empty_def shm_defs held_def RING_def push_bit_eq_mult Let_def

lemma shm_asleep_reached: "reach shm_start shm_step shm_asleep"
proof -
  have "reach shm_start shm_step shm_empty" by (rule reach_start) (simp add: shm_start_def shm_empty_def)
  then have "reach shm_start shm_step (read_call 8 shm_empty)"
    by (rule reach_step) (rule r_call, simp add: shm_empty_def)
  then have "reach shm_start shm_step ((read_call 8 shm_empty)\<lparr>s_reader := RAsleep 0 8\<rparr>)"
    by (rule reach_step) (rule r_spun, simp_all add: shm_run_defs)
  then have "reach shm_start shm_step (read_asleep 0 8 ((read_call 8 shm_empty)\<lparr>s_reader := RAsleep 0 8\<rparr>))"
    by (rule reach_step) (rule r_asleep, simp)
  then show ?thesis unfolding shm_asleep_def
    by (rule reach_step) (rule r_look, simp add: shm_run_defs)
qed

lemma shm_rung_reached: "reach shm_start shm_step shm_rung"
proof -
  let ?a = "write_room 0 [[7, 9]] (write_call [[7, 9]] shm_asleep)"
  have "reach shm_start shm_step (write_call [[7, 9]] shm_asleep)"
    by (rule reach_step [OF shm_asleep_reached]) (rule w_call, simp add: shm_run_defs)
  then have "reach shm_start shm_step ?a" by (rule reach_step) (rule w_room, simp add: shm_run_defs)
  then have "reach shm_start shm_step (write_copy 0 [[7, 9]] [[7, 9]] 2 0 ?a)"
    by (rule reach_step) (rule w_copy, simp add: shm_run_defs)
  then have "reach shm_start shm_step (write_copy 0 [[7, 9]] [] 2 2 (write_copy 0 [[7, 9]] [[7, 9]] 2 0 ?a))" (is "reach _ _ ?b")
    by (rule reach_step) (rule w_copy, simp add: shm_run_defs)
  then have "reach shm_start shm_step (write_publish 0 [[7, 9]] 2 ?b)" (is "reach _ _ ?c")
    by (rule reach_step) (rule w_publish, simp add: shm_run_defs)
  then have "reach shm_start shm_step (write_look 2 ?c)" by (rule reach_step) (rule w_look, simp add: shm_run_defs)
  then have "reach shm_start shm_step (write_swap 2 (write_look 2 ?c))"
    by (rule reach_step) (rule w_swap, simp add: shm_run_defs)
  then show ?thesis unfolding shm_rung_def by (rule reach_step) (rule w_ring, simp add: shm_run_defs)
qed

theorem the_ring_is_a_stream_witness: "held (s_head shm_rung) (s_tail shm_rung) = Inr 2"
  using the_ring_is_a_stream [OF shm_rung_reached] by (simp add: shm_run_defs)

theorem no_wake_up_is_lost_witness: "0 < s_bell shm_rung"
  by (rule no_wake_up_is_lost [OF shm_rung_reached, of "Inr 2" 0 8 0]) (simp_all add: shm_run_defs)

end
