(* ===== verification/Rdma.thy ===== *)
theory Rdma
  imports Ring_Buffers Bytes
begin

text \<open>
  One direction of a link over RDMA (\<open>guatiao-source-remote/src/transport/rdma/ring.rs\<close>): the
  record each side sends to set it up, then a writer that places bytes in its staging area and
  posts writes of them into the reader's inbox, a reader that learns of each by its receive's
  completion and tells the writer how far it has read, and the fabric between them. What the
  fabric does is what a reliable connected queue pair promises: requests are carried out in the
  order they were posted, once each, a request's completion follows it, and once one has failed
  the rest fail. Positions are 32-bit byte counts that wrap.
\<close>

section \<open>The set-up record\<close>

definition rdma_RING :: nat where
  "rdma_RING = 4 * 2 ^ 20"

record record_of =
  r_qpn :: u32
  r_psn :: u32
  r_gid :: "u8 list"
  r_mtu :: u8
  r_addr :: u64
  r_rkey :: u32

definition rdma_MAGIC :: "u8 list" where
  "rdma_MAGIC = [0x47, 0x54, 0x52, 0x44]"

definition record_encode :: "record_of \<Rightarrow> u8 list" where
  "record_encode r =
     (let b = replicate 64 0;
          b = put_slice 0 rdma_MAGIC b;
          b = b[4 := 1];
          b = b[5 := r_mtu r];
          b = put_slice 8 (to_le 4 (r_qpn r)) b;
          b = put_slice 12 (to_le 4 (r_psn r)) b;
          b = put_slice 16 (r_gid r) b;
          b = put_slice 32 (to_le 8 (r_addr r)) b;
          b = put_slice 40 (to_le 4 (r_rkey r)) b
      in put_slice 44 (to_le 4 (of_nat rdma_RING :: u32)) b)"

datatype record_refusal = NotAnEndpoint | OtherVersion | OtherRing | NoMtu

definition record_decode :: "u8 list \<Rightarrow> record_refusal + record_of" where
  "record_decode b =
     (if slice 0 4 b \<noteq> rdma_MAGIC then Inl NotAnEndpoint
      else if b ! 4 \<noteq> 1 then Inl OtherVersion
      else if unat (from_le (slice 44 4 b) :: u32) \<noteq> rdma_RING then Inl OtherRing
      else if \<not> (1 \<le> b ! 5 \<and> b ! 5 \<le> 5) then Inl NoMtu
      else Inr \<lparr>r_qpn = from_le (slice 8 4 b), r_psn = from_le (slice 12 4 b) AND 0x00ffffff,
        r_gid = slice 16 16 b, r_mtu = b ! 5, r_addr = from_le (slice 32 8 b), r_rkey = from_le (slice 40 4 b)\<rparr>)"

lemma record_encode_parts:
  assumes "length (r_gid r) = 16"
  shows "record_encode r = rdma_MAGIC @ [1, r_mtu r, 0, 0] @ to_le 4 (r_qpn r) @ to_le 4 (r_psn r) @ r_gid r @
    to_le 8 (r_addr r) @ to_le 4 (r_rkey r) @ to_le 4 (of_nat rdma_RING :: u32) @ replicate 16 0"
  unfolding record_encode_def Let_def put_slice_def rdma_MAGIC_def
  using assms by (simp add: numeral_eq_Suc)

text \<open>A set-up record reads back as it was written, when its fields are in their ranges.\<close>

theorem records_round_trip:
  assumes "length (r_gid r) = 16" "1 \<le> r_mtu r" "r_mtu r \<le> 5" "r_psn r < 2 ^ 24"
  shows "length (record_encode r) = 64 \<and> record_decode (record_encode r) = Inr r"
proof -
  have m: "r_psn r AND 0x00ffffff = r_psn r"
  proof -
    have "unat (r_psn r) < 2 ^ 24" using assms(4) by (simp add: word_less_nat_alt)
    then have "unat (take_bit 24 (r_psn r)) = unat (r_psn r)" by (simp add: unsigned_take_bit_eq take_bit_nat_eq_self)
    then have "r_psn r AND mask 24 = r_psn r" by (simp add: take_bit_eq_mask [symmetric] word_unat_eq_iff)
    then show ?thesis by (simp add: mask_eq_exp_minus_1)
  qed
  note e = record_encode_parts [OF assms(1)]
  show ?thesis
    using assms(1-3) by (simp add: record_decode_def e slice_def rdma_MAGIC_def from_le_to_le_32 from_le_to_le_64 m rdma_RING_def)
qed

section \<open>The writer's end\<close>

text \<open>A completion: its request, its status (zero a success, \<open>IBV_WC_WR_FLUSH_ERR\<close> a request
  dropped at the link's end), what completed and the immediate it carried.\<close>

record completion =
  c_wr_id :: u64
  c_status :: u32
  c_opcode :: u32
  c_imm :: "u32 option"

definition CREDIT :: u64 where
  "CREDIT = push_bit 63 1"

record sends =
  s_outstanding :: u32
  s_completed :: u32
  s_failed :: bool

text \<open>\<open>Shared::reap\<close>, on the completions its loop takes.\<close>

definition saturating_pred :: "u32 \<Rightarrow> u32" where
  "saturating_pred n = (if n = 0 then 0 else n - 1)"

fun reap :: "completion list \<Rightarrow> sends \<Rightarrow> sends" where
  "reap [] s = s"
| "reap (c # cs) s =
     (let s = s\<lparr>s_outstanding := saturating_pred (s_outstanding s)\<rparr>
      in reap cs
           (if c_status c \<noteq> 0 then s\<lparr>s_failed := True\<rparr>
            else if c_wr_id c AND CREDIT = 0 then s\<lparr>s_completed := ucast (c_wr_id c)\<rparr>
            else s))"

definition rdma_CHUNK :: nat where
  "rdma_CHUNK = 256 * 2 ^ 10"

definition SENDS :: u32 where
  "SENDS = 256"

definition CREDIT_EVERY :: u32 where
  "CREDIT_EVERY = of_nat (rdma_RING div 4)"

section \<open>The reader's end\<close>

record inbox_reader =
  i_head :: u32
  i_tail :: u32
  i_told :: u32
  i_ended :: bool

definition reader_held :: "inbox_reader \<Rightarrow> io_error + nat" where
  "reader_held r = (let n = unat (i_head r - i_tail r) in if rdma_RING < n then Inl InvalidData else Inr n)"

text \<open>\<open>Reader::drain\<close> on one batch of completions: whether bytes landed, or what it refuses; the
  reader keeps what it had counted before a refusal.\<close>

fun drain_batch :: "bool \<Rightarrow> completion list \<Rightarrow> inbox_reader \<Rightarrow> inbox_reader \<times> (io_error + bool)" where
  "drain_batch landed [] r =
     (r, case reader_held r of Inl e \<Rightarrow> Inl e | Inr _ \<Rightarrow> Inr landed)"
| "drain_batch landed (c # cs) r =
     (if c_status c = 5 then drain_batch landed cs (r\<lparr>i_ended := True\<rparr>)
      else if c_status c \<noteq> 0 then (r, Inl IoOther)
      else case c_imm c of
          None \<Rightarrow> (r, Inl InvalidData)
        | Some n \<Rightarrow> if c_opcode c \<noteq> 129 then (r, Inl InvalidData)
            else drain_batch True cs (r\<lparr>i_head := i_head r + n\<rparr>))"

text \<open>\<open>Reader::take\<close>: bytes for a buffer of \<open>len\<close>, the reader after, and the position to tell the
  peer when it is due.\<close>

definition reader_take :: "memory \<Rightarrow> nat \<Rightarrow> inbox_reader \<Rightarrow> io_error + (u8 list \<times> inbox_reader \<times> u32 option)" where
  "reader_take m len r =
     (let p = unat (i_tail r) mod rdma_RING in
      case reader_held r of
        Inl e \<Rightarrow> Inl e
      | Inr k \<Rightarrow>
          let n = min (min k len) (rdma_RING - p);
              r' = r\<lparr>i_tail := i_tail r + of_nat n\<rparr>
          in if CREDIT_EVERY \<le> i_tail r' - i_told r'
             then Inr (span m p n, r'\<lparr>i_told := i_tail r'\<rparr>, Some (i_tail r'))
             else Inr (span m p n, r', None))"

section \<open>The two ends and the fabric\<close>

text \<open>A request in flight: a write of \<open>n\<close> staged bytes from an offset, or a position update of
  this side's own reader (which concerns the other direction).\<close>

datatype request = Data u64 nat nat | Position

text \<open>Where the writer is in \<open>write_all\<close>: out; starting on what is left; in \<open>room\<close>, before the
  completions are reaped, before the counter is read, and having found none; having room; about
  to post \<open>n\<close> bytes.\<close>

datatype poster = POut "io_error + unit" | PStart "u8 list" | PRoom "u8 list" | PLook "u8 list" u32
  | PFull "u8 list" | PHave "u8 list" nat | PPost "u8 list" nat

text \<open>The writer's staging area, head, send queue, completions not yet reaped and counter; the
  requests in flight, those carried out and not yet completed, and whether the queue pair is
  down; the position updates in flight to the
  counter; the reader's inbox and completions; and two accounts the code does not keep: the
  bytes posted and the bytes read.\<close>

record rdma =
  d_staging :: memory
  d_head :: u32
  d_sends :: sends
  d_done :: "completion list"
  d_counter :: u32
  d_gone :: bool
  d_poster :: poster
  d_flying :: "request list"
  d_landed :: "u64 list"
  d_down :: bool
  d_credits :: "u32 list"
  d_inbox :: memory
  d_arrived :: "completion list"
  d_reader :: inbox_reader
  d_put :: "u8 list"
  d_got :: "u8 list"

text \<open>\<open>write_some\<close> and \<open>write_all\<close>, in their steps.\<close>

definition poster_start :: "u8 list \<Rightarrow> rdma \<Rightarrow> rdma" where
  "poster_start bs d =
     d\<lparr>d_poster := (if bs = [] then POut (Inr ()) else if d_gone d then POut (Inl BrokenPipe) else PRoom bs)\<rparr>"

definition room_reap :: "u8 list \<Rightarrow> rdma \<Rightarrow> rdma" where
  "room_reap bs d =
     (let s = reap (d_done d) (d_sends d)
      in d\<lparr>d_sends := s, d_done := [],
           d_poster := (if s_failed s then POut (Inl BrokenPipe) else PLook bs (s_completed s))\<rparr>)"

definition room_look :: "u8 list \<Rightarrow> u32 \<Rightarrow> rdma \<Rightarrow> rdma" where
  "room_look bs completed d =
     (let read = unat (d_head d - d_counter d);
          used = max read (unat (d_head d - completed))
      in d\<lparr>d_poster := (if rdma_RING < read then POut (Inl InvalidData)
                         else if used < rdma_RING then PHave bs (rdma_RING - used) else PFull bs)\<rparr>)"

definition room_full :: "u8 list \<Rightarrow> rdma \<Rightarrow> rdma" where
  "room_full bs d = d\<lparr>d_poster := (if d_gone d then POut (Inl BrokenPipe) else PRoom bs)\<rparr>"

definition stage_bytes :: "u8 list \<Rightarrow> nat \<Rightarrow> rdma \<Rightarrow> rdma" where
  "stage_bytes bs room d =
     (let p = unat (d_head d) mod rdma_RING;
          n = min (min (min room (length bs)) (rdma_RING - p)) rdma_CHUNK
      in d\<lparr>d_staging := blit (d_staging d) p (take n bs), d_poster := PPost bs n\<rparr>)"

text \<open>\<open>Shared::post\<close>, its lock held: a turn of its loop that finds the queue failed or full, or
  that posts.\<close>

definition post_data :: "u8 list \<Rightarrow> nat \<Rightarrow> rdma \<Rightarrow> rdma" where
  "post_data bs n d =
     (let s = reap (d_done d) (d_sends d); d = d\<lparr>d_sends := s, d_done := []\<rparr>;
          p = unat (d_head d) mod rdma_RING; end' = d_head d + of_nat n
      in if s_failed s then d\<lparr>d_poster := POut (Inl BrokenPipe)\<rparr>
         else if s_outstanding s < SENDS then
           d\<lparr>d_sends := s\<lparr>s_outstanding := s_outstanding s + 1\<rparr>, d_flying := d_flying d @ [Data (ucast end') p n],
             d_head := end', d_put := d_put d @ take n bs, d_poster := PStart (drop n bs)\<rparr>
         else if d_gone d then d\<lparr>d_poster := POut (Inl BrokenPipe)\<rparr>
         else d)"

definition post_position :: "rdma \<Rightarrow> rdma" where
  "post_position d =
     (let s = reap (d_done d) (d_sends d); d = d\<lparr>d_sends := s, d_done := []\<rparr>
      in if \<not> s_failed s \<and> s_outstanding s < SENDS
         then d\<lparr>d_sends := s\<lparr>s_outstanding := s_outstanding s + 1\<rparr>, d_flying := d_flying d @ [Position]\<rparr>
         else d)"

definition completes :: "u64 \<Rightarrow> u32 \<Rightarrow> completion" where
  "completes i st = \<lparr>c_wr_id = i, c_status = st, c_opcode = 0, c_imm = None\<rparr>"

definition arrival :: "nat \<Rightarrow> completion" where
  "arrival n = \<lparr>c_wr_id = 0, c_status = 0, c_opcode = 129, c_imm = Some (of_nat n)\<rparr>"

definition flushed :: completion where
  "flushed = \<lparr>c_wr_id = 0, c_status = 5, c_opcode = 0, c_imm = None\<rparr>"

inductive rdma_step :: "rdma \<Rightarrow> rdma \<Rightarrow> bool" where
  p_call: "d_poster d = POut r \<Longrightarrow> rdma_step d (d\<lparr>d_poster := PStart bs\<rparr>)"
| p_start: "d_poster d = PStart bs \<Longrightarrow> rdma_step d (poster_start bs d)"
| p_reap: "d_poster d = PRoom bs \<Longrightarrow> rdma_step d (room_reap bs d)"
| p_reap_fails: "d_poster d = PRoom bs \<Longrightarrow>
    rdma_step d (d\<lparr>d_sends := (d_sends d)\<lparr>s_failed := True\<rparr>, d_poster := POut (Inl BrokenPipe)\<rparr>)"
| p_look: "d_poster d = PLook bs completed \<Longrightarrow> rdma_step d (room_look bs completed d)"
| p_full: "d_poster d = PFull bs \<Longrightarrow> rdma_step d (room_full bs d)"
| p_stalled: "d_poster d = PFull bs \<Longrightarrow> \<not> d_gone d \<Longrightarrow> rdma_step d (d\<lparr>d_poster := POut (Inl TimedOut)\<rparr>)"
| p_stage: "d_poster d = PHave bs room \<Longrightarrow> rdma_step d (stage_bytes bs room d)"
| p_post: "d_poster d = PPost bs n \<Longrightarrow> rdma_step d (post_data bs n d)"
| p_post_fails: "d_poster d = PPost bs n \<Longrightarrow> rdma_step d (d\<lparr>d_poster := POut (Inl IoOther)\<rparr>)"
| p_position: "rdma_step d (post_position d)"
| ended: "rdma_step d (d\<lparr>d_gone := True\<rparr>)"
| lands: "\<not> d_down d \<Longrightarrow> d_flying d = Data i a n # fs \<Longrightarrow>
    rdma_step d (d\<lparr>d_inbox := blit (d_inbox d) a (span (d_staging d) a n), d_flying := fs,
      d_landed := d_landed d @ [i], d_arrived := d_arrived d @ [arrival n]\<rparr>)"
| lands_position: "\<not> d_down d \<Longrightarrow> d_flying d = Position # fs \<Longrightarrow>
    rdma_step d (d\<lparr>d_flying := fs, d_landed := d_landed d @ [CREDIT]\<rparr>)"
| acked: "\<not> d_down d \<Longrightarrow> d_landed d = i # is \<Longrightarrow>
    rdma_step d (d\<lparr>d_landed := is, d_done := d_done d @ [completes i 0]\<rparr>)"
| landed_fails: "d_landed d = i # is \<Longrightarrow> st \<noteq> 0 \<Longrightarrow>
    rdma_step d (d\<lparr>d_down := True, d_landed := is, d_done := d_done d @ [completes i st]\<rparr>)"
| flying_fails: "d_landed d = [] \<Longrightarrow> d_flying d = f # fs \<Longrightarrow> st \<noteq> 0 \<Longrightarrow>
    rdma_step d (d\<lparr>d_down := True, d_flying := fs, d_done := d_done d @ [completes i st]\<rparr>)"
| credited: "d_credits d = c # cs \<Longrightarrow> rdma_step d (d\<lparr>d_counter := c, d_credits := cs\<rparr>)"
| flushes: "rdma_step d (d\<lparr>d_arrived := d_arrived d @ [flushed]\<rparr>)"
| r_side_ends: "rdma_step d (d\<lparr>d_reader := (d_reader d)\<lparr>i_ended := True\<rparr>\<rparr>)"
| r_drain: "d_arrived d = cs @ more' \<Longrightarrow> cs \<noteq> [] \<Longrightarrow> drain_batch False cs (d_reader d) = (r, res) \<Longrightarrow>
    rdma_step d (d\<lparr>d_reader := r, d_arrived := more'\<rparr>)"
| r_take: "reader_take (d_inbox d) len (d_reader d) = Inr (bs, r, c) \<Longrightarrow>
    cs = (case c of None \<Rightarrow> [] | Some p \<Rightarrow> [p]) \<or> cs = [] \<Longrightarrow>
    rdma_step d (d\<lparr>d_reader := r, d_got := d_got d @ bs, d_credits := d_credits d @ cs\<rparr>)"

definition rdma_start :: "rdma \<Rightarrow> bool" where
  "rdma_start d \<longleftrightarrow> d_head d = 0 \<and> d_sends d = \<lparr>s_outstanding = 0, s_completed = 0, s_failed = False\<rparr> \<and>
     d_done d = [] \<and> d_counter d = 0 \<and> \<not> d_gone d \<and> d_poster d = POut (Inr ()) \<and> d_flying d = [] \<and>
     d_landed d = [] \<and> \<not> d_down d \<and> d_credits d = [] \<and> d_arrived d = [] \<and>
     d_reader d = \<lparr>i_head = 0, i_tail = 0, i_told = 0, i_ended = False\<rparr> \<and> d_put d = [] \<and> d_got d = []"

section \<open>What every interleaving keeps\<close>

lemma rdma_RING_val [simp]: "rdma_RING = 4194304"
  by (simp add: rdma_RING_def)

interpretation rdma: ring_positions 4194304 "TYPE(32)"
  by unfold_locales simp_all

text \<open>The counts behind the positions: bytes landed, counted by the reader, completed and reaped,
  told to the peer and known to the writer.\<close>

record counts =
  n_landed :: nat
  n_seen :: nat
  n_completed :: nat
  n_told :: nat
  n_known :: nat

definition nums_ok :: "rdma \<Rightarrow> counts \<Rightarrow> bool" where
  "nums_ok d n \<longleftrightarrow>
     (let p = length (d_put d); g = length (d_got d) in
      prefix (d_got d) (d_put d) \<and>
      n_completed n \<le> n_landed n \<and> n_landed n \<le> p \<and> g \<le> n_seen n \<and> n_seen n \<le> n_landed n \<and>
      n_known n \<le> n_told n \<and> n_told n \<le> g \<and> g < n_told n + 1048576 \<and>
      p \<le> n_known n + 4194304 \<and> p \<le> n_completed n + 4194304 \<and>
      d_head d = of_nat p \<and> s_completed (d_sends d) = of_nat (n_completed n) \<and> d_counter d = of_nat (n_known n) \<and>
      i_told (d_reader d) = of_nat (n_told n) \<and> i_tail (d_reader d) = of_nat g \<and> i_head (d_reader d) = of_nat (n_seen n))"

definition mems_ok :: "rdma \<Rightarrow> counts \<Rightarrow> bool" where
  "mems_ok d n \<longleftrightarrow>
     ring_get 4194304 (d_staging d) (n_completed n) (length (d_put d) - n_completed n) = drop (n_completed n) (d_put d) \<and>
     ring_get 4194304 (d_inbox d) (length (d_got d)) (n_landed n - length (d_got d)) =
       take (n_landed n - length (d_got d)) (drop (length (d_got d)) (d_put d))"

fun flying_ok :: "nat \<Rightarrow> nat \<Rightarrow> request list \<Rightarrow> bool" where
  "flying_ok l p [] \<longleftrightarrow> l = p"
| "flying_ok l p (Position # fs) \<longleftrightarrow> flying_ok l p fs"
| "flying_ok l p (Data i a n # fs) \<longleftrightarrow> i = ucast (of_nat (l + n) :: u32) \<and> a = l mod 4194304 \<and>
     n \<le> 4194304 - a \<and> l + n \<le> p \<and> flying_ok (l + n) p fs"

fun acks_ok :: "nat \<Rightarrow> nat \<Rightarrow> completion list \<Rightarrow> bool" where
  "acks_ok c l [] \<longleftrightarrow> c \<le> l"
| "acks_ok c l (x # xs) \<longleftrightarrow>
     (if c_status x \<noteq> 0 \<or> c_wr_id x AND CREDIT \<noteq> 0 then acks_ok c l xs
      else \<exists>c'. c \<le> c' \<and> c' \<le> l \<and> c_wr_id x = ucast (of_nat c' :: u32) \<and> acks_ok c' l xs)"

fun arrived_ok :: "nat \<Rightarrow> nat \<Rightarrow> completion list \<Rightarrow> bool" where
  "arrived_ok h l [] \<longleftrightarrow> h = l"
| "arrived_ok h l (x # xs) \<longleftrightarrow>
     (if x = flushed then arrived_ok h l xs else \<exists>n. x = arrival n \<and> h + n \<le> l \<and> arrived_ok (h + n) l xs)"

fun credits_ok :: "nat \<Rightarrow> nat \<Rightarrow> u32 list \<Rightarrow> bool" where
  "credits_ok k t [] \<longleftrightarrow> k \<le> t"
| "credits_ok k t (c # cs) \<longleftrightarrow> (\<exists>c'. c = of_nat c' \<and> k \<le> c' \<and> c' \<le> t \<and> credits_ok c' t cs)"

definition queues_ok :: "rdma \<Rightarrow> counts \<Rightarrow> bool" where
  "queues_ok d n \<longleftrightarrow>
     (\<not> d_down d \<longrightarrow> flying_ok (n_landed n) (length (d_put d)) (d_flying d)) \<and>
     acks_ok (n_completed n) (n_landed n) (d_done d @ map (\<lambda>i. completes i 0) (d_landed d)) \<and>
     arrived_ok (n_seen n) (n_landed n) (d_arrived d) \<and>
     credits_ok (n_known n) (n_told n) (d_credits d) \<and>
     unat (s_outstanding (d_sends d)) = length (d_flying d) + length (d_landed d) + length (d_done d) \<and>
     s_outstanding (d_sends d) \<le> SENDS"

definition poster_ok :: "rdma \<Rightarrow> counts \<Rightarrow> bool" where
  "poster_ok d n \<longleftrightarrow>
     (let p = length (d_put d) in
      case d_poster d of
        PRoom bs \<Rightarrow> bs \<noteq> []
      | PLook bs completed \<Rightarrow> bs \<noteq> [] \<and>
          (\<exists>c. completed = of_nat c \<and> c \<le> n_completed n \<and> p \<le> c + 4194304)
      | PFull bs \<Rightarrow> bs \<noteq> []
      | PHave bs room \<Rightarrow> bs \<noteq> [] \<and> 0 < room \<and> p + room \<le> n_known n + 4194304 \<and> p + room \<le> n_completed n + 4194304
      | PPost bs k \<Rightarrow> 0 < k \<and> k \<le> length bs \<and> k \<le> 4194304 - p mod 4194304 \<and>
          p + k \<le> n_known n + 4194304 \<and> p + k \<le> n_completed n + 4194304 \<and>
          ring_get 4194304 (d_staging d) p k = take k bs
      | _ \<Rightarrow> True)"

definition rdma_ok :: "rdma \<Rightarrow> counts \<Rightarrow> bool" where
  "rdma_ok d n \<longleftrightarrow> nums_ok d n \<and> mems_ok d n \<and> queues_ok d n \<and> poster_ok d n"

definition rdma_inv :: "rdma \<Rightarrow> bool" where
  "rdma_inv d \<longleftrightarrow> (\<exists>n. rdma_ok d n)"

subsection \<open>The queues\<close>

lemma acks_ok_mono: "acks_ok c' l xs \<Longrightarrow> c \<le> c' \<Longrightarrow> acks_ok c l xs"
proof (induction xs arbitrary: c')
  case (Cons x xs)
  then show ?case by (auto split: if_splits intro: order_trans)
qed simp

lemma acks_ok_bound: "acks_ok c l xs \<Longrightarrow> c \<le> l"
proof (induction xs arbitrary: c)
  case (Cons x xs)
  then show ?case by (auto split: if_splits intro: order_trans)
qed simp

lemma acks_ok_snoc:
  "acks_ok c l xs \<Longrightarrow> l \<le> l' \<Longrightarrow> c_status x \<noteq> 0 \<or> c_wr_id x AND CREDIT \<noteq> 0 \<or> c_wr_id x = ucast (of_nat l' :: u32) \<Longrightarrow>
   acks_ok c l' (xs @ [x])"
proof (induction xs arbitrary: c)
  case (Cons y ys)
  then show ?case by (auto split: if_splits intro: order_trans)
qed (auto intro!: exI [of _ l'])

lemma acks_ok_fail:
  "acks_ok c l (xs @ completes i 0 # ys) \<Longrightarrow> st \<noteq> 0 \<Longrightarrow> acks_ok c l (xs @ completes i st # ys)"
proof (induction xs arbitrary: c)
  case Nil
  then show ?case by (auto simp: completes_def split: if_splits intro: acks_ok_mono)
next
  case (Cons x xs)
  then show ?case by (auto split: if_splits)
qed

lemma ucast_down_up [simp]: "ucast (ucast (w :: u32) :: u64) = w"
  by (rule bit_word_eqI) (simp add: bit_simps bit_ucast_iff)

lemma saturating_pred_unat: "unat (saturating_pred n) = unat n - 1"
  by (simp add: saturating_pred_def unat_minus_one)

lemma reap_ok:
  "acks_ok c l (xs @ ys) \<Longrightarrow> s_completed s = of_nat c \<Longrightarrow>
   \<exists>c'. c \<le> c' \<and> c' \<le> l \<and> s_completed (reap xs s) = of_nat c' \<and> acks_ok c' l ys \<and>
     unat (s_outstanding (reap xs s)) = unat (s_outstanding s) - length xs"
proof (induction xs arbitrary: c s)
  case Nil
  then show ?case using acks_ok_bound by auto
next
  case (Cons x xs)
  let ?s = "s\<lparr>s_outstanding := saturating_pred (s_outstanding s)\<rparr>"
  consider "c_status x \<noteq> 0" | "c_status x = 0" "c_wr_id x AND CREDIT \<noteq> 0" | "c_status x = 0" "c_wr_id x AND CREDIT = 0"
    by blast
  then show ?case
  proof cases
    case 1
    then show ?thesis using Cons.prems Cons.IH [of c "?s\<lparr>s_failed := True\<rparr>"] by (simp add: Let_def saturating_pred_unat)
  next
    case 2
    then show ?thesis using Cons.prems Cons.IH [of c ?s] by (simp add: Let_def saturating_pred_unat)
  next
    case 3
    then obtain c' where c': "c \<le> c'" "c_wr_id x = ucast (of_nat c' :: u32)" "acks_ok c' l (xs @ ys)"
      using Cons.prems by auto
    then show ?thesis using 3 Cons.IH [of c' "?s\<lparr>s_completed := ucast (c_wr_id x)\<rparr>"]
      by (auto simp: Let_def saturating_pred_unat intro: order_trans [OF c'(1)])
  qed
qed

lemma arrived_ok_snoc: "arrived_ok h l xs \<Longrightarrow> arrived_ok h (l + n) (xs @ [arrival n])"
proof (induction xs arbitrary: h)
  case Nil
  have "arrival n \<noteq> flushed" by (simp add: arrival_def flushed_def)
  then show ?case using Nil by auto
next
  case (Cons x xs)
  then show ?case by (auto split: if_splits intro: le_trans)
qed

lemma arrived_ok_flush: "arrived_ok h l xs \<Longrightarrow> arrived_ok h l (xs @ [flushed])"
proof (induction xs arbitrary: h)
  case (Cons x xs)
  then show ?case by (auto split: if_splits)
qed simp

lemma arrived_ok_bound: "arrived_ok h l xs \<Longrightarrow> h \<le> l"
proof (induction xs arbitrary: h)
  case (Cons x xs)
  then show ?case by (auto split: if_splits dest: add_leD1)
qed simp

lemma credits_ok_mono: "credits_ok k t cs \<Longrightarrow> t \<le> t' \<Longrightarrow> credits_ok k t' cs"
proof (induction cs arbitrary: k)
  case (Cons c cs)
  then show ?case by (auto intro: order_trans)
qed simp

lemma credits_ok_snoc: "credits_ok k t cs \<Longrightarrow> t \<le> t' \<Longrightarrow> credits_ok k t' (cs @ [of_nat t'])"
proof (induction cs arbitrary: k)
  case Nil
  then show ?case by (auto intro: order_trans)
next
  case (Cons c cs)
  then show ?case by (auto intro: order_trans)
qed

lemma flying_ok_position: "flying_ok l p fs \<Longrightarrow> flying_ok l p (fs @ [Position])"
  by (induction l p fs rule: flying_ok.induct) auto

lemma flying_ok_bound: "flying_ok l p fs \<Longrightarrow> l \<le> p"
  by (induction l p fs rule: flying_ok.induct) auto

lemma flying_ok_data:
  "flying_ok l p fs \<Longrightarrow> n \<le> 4194304 - p mod 4194304 \<Longrightarrow>
   flying_ok l (p + n) (fs @ [Data (ucast (of_nat (p + n) :: u32)) (p mod 4194304) n])"
proof (induction l p fs rule: flying_ok.induct)
  case (3 l p i a n' fs)
  then show ?case by (auto intro: le_trans)
qed auto

lemma held_value:
  "i_head r = of_nat h \<Longrightarrow> i_tail r = of_nat g \<Longrightarrow> g \<le> h \<Longrightarrow> h \<le> g + 4194304 \<Longrightarrow> reader_held r = Inr (h - g)"
  using rdma.distance [of g h] by (simp add: reader_held_def Let_def)

lemma drain_ok:
  "arrived_ok h l (xs @ ys) \<Longrightarrow> i_head r = of_nat h \<Longrightarrow> i_tail r = of_nat g \<Longrightarrow> g \<le> h \<Longrightarrow> l \<le> g + 4194304 \<Longrightarrow>
   \<exists>h' r' res. drain_batch b xs r = (r', Inr res) \<and> h \<le> h' \<and> h' \<le> l \<and> i_head r' = of_nat h' \<and>
     i_tail r' = i_tail r \<and> i_told r' = i_told r \<and> arrived_ok h' l ys"
proof (induction xs arbitrary: h r b)
  case Nil
  then have "reader_held r = Inr (h - g)" using arrived_ok_bound [of h l ys] by (intro held_value) auto
  then show ?case using Nil arrived_ok_bound [of h l ys] by auto
next
  case (Cons x xs)
  show ?case
  proof (cases "x = flushed")
    case True
    then show ?thesis using Cons.prems Cons.IH [of h "r\<lparr>i_ended := True\<rparr>" b] by (simp add: flushed_def)
  next
    case False
    with Cons.prems(1) obtain n where n: "x = arrival n" "h + n \<le> l" "arrived_ok (h + n) l (xs @ ys)" by auto
    then have "drain_batch b (x # xs) r = drain_batch True xs (r\<lparr>i_head := i_head r + of_nat n\<rparr>)"
      by (simp add: arrival_def)
    moreover obtain h' r' res where "drain_batch True xs (r\<lparr>i_head := i_head r + of_nat n\<rparr>) = (r', Inr res)"
      "h + n \<le> h'" "h' \<le> l" "i_head r' = of_nat h'" "i_tail r' = i_tail r" "i_told r' = i_told r" "arrived_ok h' l ys"
      using Cons.IH [of "h + n" "r\<lparr>i_head := i_head r + of_nat n\<rparr>" True] n(3) Cons.prems(2-5) by auto
    ultimately show ?thesis by (metis add_leD1)
  qed
qed

subsection \<open>The steps\<close>

lemmas rdma_parts = rdma_ok_def nums_ok_def mems_ok_def queues_ok_def poster_ok_def

lemma nums_facts:
  assumes "nums_ok d n"
  shows "length (d_got d) \<le> length (d_put d)" "d_put d = d_got d @ drop (length (d_got d)) (d_put d)"
    "n_landed n \<le> length (d_got d) + 4194304" "unat (d_head d) mod 4194304 = length (d_put d) mod 4194304"
    "unat (i_tail (d_reader d)) mod 4194304 = length (d_got d) mod 4194304"
  using assms rdma.offset by (auto simp: nums_ok_def Let_def prefix_def)

text \<open>Reaping, wherever it happens, only moves what is known to be complete.\<close>

lemma reaped:
  assumes "rdma_ok d n"
  shows "\<exists>n'. rdma_ok (d\<lparr>d_sends := reap (d_done d) (d_sends d), d_done := []\<rparr>) n' \<and>
    n_completed n \<le> n_completed n' \<and> n_known n' = n_known n"
proof -
  let ?s = "reap (d_done d) (d_sends d)"
  have a: "acks_ok (n_completed n) (n_landed n) (d_done d @ map (\<lambda>i. completes i 0) (d_landed d))"
    "s_completed (d_sends d) = of_nat (n_completed n)"
    using assms by (simp_all add: rdma_parts Let_def)
  obtain c where c: "n_completed n \<le> c" "c \<le> n_landed n" "s_completed ?s = of_nat c"
    "acks_ok c (n_landed n) (map (\<lambda>i. completes i 0) (d_landed d))"
    "unat (s_outstanding ?s) = unat (s_outstanding (d_sends d)) - length (d_done d)"
    using reap_ok [OF a] by blast
  have "drop (c - n_completed n) (ring_get 4194304 (d_staging d) (n_completed n) (length (d_put d) - n_completed n)) =
      drop (c - n_completed n) (drop (n_completed n) (d_put d))"
    using assms by (simp add: rdma_parts)
  moreover have "c \<le> length (d_put d)" using c(2) assms by (simp add: rdma_parts Let_def)
  ultimately have st: "ring_get 4194304 (d_staging d) c (length (d_put d) - c) = drop c (d_put d)"
    using c(1) by (simp add: drop_ring_get)
  have o: "s_outstanding ?s \<le> SENDS" "unat (s_outstanding ?s) = length (d_flying d) + length (d_landed d)"
    using assms c(5) by (auto simp: rdma_parts word_le_nat_alt)
  have p: "poster_ok (d\<lparr>d_sends := ?s, d_done := []\<rparr>) (n\<lparr>n_completed := c\<rparr>)"
    using assms c(1) by (auto simp: rdma_ok_def poster_ok_def Let_def split: poster.splits intro: order_trans)
  have "rdma_ok (d\<lparr>d_sends := ?s, d_done := []\<rparr>) (n\<lparr>n_completed := c\<rparr>)"
    using assms c st o p unfolding rdma_ok_def by (simp add: nums_ok_def mems_ok_def queues_ok_def Let_def)
  then show ?thesis using c(1) by (intro exI [of _ "n\<lparr>n_completed := c\<rparr>"]) simp
qed

lemma post_data_ok:
  assumes "rdma_ok d n" "d_poster d = PPost bs k"
  shows "\<exists>n'. rdma_ok (post_data bs k d) n'"
proof -
  let ?s = "reap (d_done d) (d_sends d)"
  obtain n' where n': "rdma_ok (d\<lparr>d_sends := ?s, d_done := []\<rparr>) n'" (is "rdma_ok ?d n'") using reaped [OF assms(1)] by blast
  consider "s_failed ?s" | "\<not> s_failed ?s" "s_outstanding ?s < SENDS" | "\<not> s_failed ?s" "\<not> s_outstanding ?s < SENDS" by blast
  then show ?thesis
  proof cases
    case 2
    let ?p = "length (d_put d)"
    note f = nums_facts [of ?d n'] n'[unfolded rdma_ok_def]
    have i: "0 < k" "k \<le> length bs" "k \<le> 4194304 - ?p mod 4194304" "?p + k \<le> n_known n' + 4194304"
      "?p + k \<le> n_completed n' + 4194304" "ring_get 4194304 (d_staging d) ?p k = take k bs" "n_completed n' \<le> ?p"
      "n_landed n' - length (d_got d) \<le> length (drop (length (d_got d)) (d_put d))"
      using n' assms(2) by (auto simp: rdma_parts Let_def)
    have e: "post_data bs k d = d\<lparr>d_sends := ?s\<lparr>s_outstanding := s_outstanding ?s + 1\<rparr>, d_done := [],
        d_flying := d_flying d @ [Data (ucast (of_nat (?p + k) :: u32)) (?p mod 4194304) k],
        d_head := of_nat (?p + k), d_put := d_put d @ take k bs, d_poster := PStart (drop k bs)\<rparr>"
      using 2 f by (simp add: post_data_def Let_def nums_ok_def)
    have o: "unat (s_outstanding ?s + 1) = Suc (unat (s_outstanding ?s))" "s_outstanding ?s + 1 \<le> SENDS"
    proof -
      have "unat (s_outstanding ?s) < 256" using 2(2) by (simp add: word_less_nat_alt SENDS_def)
      then show "unat (s_outstanding ?s + 1) = Suc (unat (s_outstanding ?s))" by (simp add: unat_word_ariths)
      then show "s_outstanding ?s + 1 \<le> SENDS" using 2(2) by (simp add: word_less_nat_alt word_le_nat_alt SENDS_def)
    qed
    have g: "ring_get 4194304 (d_staging d) (n_completed n') (?p + k - n_completed n') =
        drop (n_completed n') (d_put d) @ take k bs"
      using n' i(6,7) ring_get_add [of 4194304 "d_staging d" "n_completed n'" "?p - n_completed n'" k]
      by (simp add: rdma_parts)
    have fl: "\<not> d_down d \<longrightarrow> flying_ok (n_landed n') (?p + k) (d_flying d @ [Data (ucast (of_nat (?p + k) :: u32)) (?p mod 4194304) k])"
      using n' i(3) flying_ok_data [of "n_landed n'" ?p "d_flying d" k] by (simp add: rdma_parts)
    have "rdma_ok (post_data bs k d) n'" unfolding e
      using n' i o g fl by (auto simp: rdma_parts Let_def min_absorb2)
    then show ?thesis by blast
  qed (use n' assms(2) in \<open>auto simp: post_data_def Let_def rdma_parts\<close>)
qed

lemma post_position_ok:
  assumes "rdma_ok d n"
  shows "\<exists>n'. rdma_ok (post_position d) n'"
proof -
  let ?s = "reap (d_done d) (d_sends d)"
  obtain n' where n': "rdma_ok (d\<lparr>d_sends := ?s, d_done := []\<rparr>) n'" (is "rdma_ok ?d n'") using reaped [OF assms] by blast
  show ?thesis
  proof (cases "\<not> s_failed ?s \<and> s_outstanding ?s < SENDS")
    case True
    have "unat (s_outstanding ?s) < 256" using True by (simp add: word_less_nat_alt SENDS_def)
    then have o: "unat (s_outstanding ?s + 1) = Suc (unat (s_outstanding ?s))" by (simp add: unat_word_ariths)
    then have "s_outstanding ?s + 1 \<le> SENDS" using True by (simp add: word_less_nat_alt word_le_nat_alt SENDS_def)
    then have "rdma_ok (post_position d) n'"
      using n' o True by (auto simp: post_position_def Let_def rdma_parts flying_ok_position split: poster.splits)
    then show ?thesis by blast
  qed (use n' in \<open>auto simp: post_position_def Let_def\<close>)
qed

lemma room_reap_ok:
  assumes "rdma_ok d n" "d_poster d = PRoom bs"
  shows "\<exists>n'. rdma_ok (room_reap bs d) n'"
proof -
  let ?s = "reap (d_done d) (d_sends d)"
  obtain n' where n': "rdma_ok (d\<lparr>d_sends := ?s, d_done := []\<rparr>) n'" using reaped [OF assms(1)] by blast
  then have "rdma_ok (room_reap bs d) n'"
    using assms(2) by (auto simp: room_reap_def Let_def rdma_parts)
  then show ?thesis by blast
qed

lemma room_look_ok:
  assumes "rdma_ok d n" "d_poster d = PLook bs completed"
  shows "rdma_ok (room_look bs completed d) n \<and> d_poster (room_look bs completed d) \<noteq> POut (Inl InvalidData)"
proof -
  let ?p = "length (d_put d)"
  obtain c where c: "bs \<noteq> []" "completed = of_nat c" "c \<le> n_completed n" "?p \<le> c + 4194304"
    using assms by (auto simp: rdma_ok_def poster_ok_def)
  have k: "d_counter d = of_nat (n_known n)" "n_known n \<le> ?p" "?p \<le> n_known n + 4194304" "d_head d = of_nat ?p"
    "n_completed n \<le> ?p"
    using assms(1) by (auto simp: rdma_ok_def nums_ok_def Let_def)
  have r: "unat (d_head d - d_counter d) = ?p - n_known n" "unat (d_head d - completed) = ?p - c"
    using rdma.distance [of "n_known n" ?p] rdma.distance [of c ?p] c k by auto
  have "room_look bs completed d = d\<lparr>d_poster :=
      (if max (?p - n_known n) (?p - c) < 4194304 then PHave bs (4194304 - max (?p - n_known n) (?p - c)) else PFull bs)\<rparr>"
    using k(3) by (simp add: room_look_def Let_def r)
  then show ?thesis using assms(1) c k by (auto simp: rdma_parts Let_def)
qed

lemma stage_bytes_ok:
  assumes "rdma_ok d n" "d_poster d = PHave bs room"
  shows "rdma_ok (stage_bytes bs room d) n"
proof -
  let ?p = "length (d_put d)" and ?c = "n_completed n"
  have h: "bs \<noteq> []" "0 < room" "?p + room \<le> n_known n + 4194304" "?p + room \<le> ?c + 4194304" "?c \<le> ?p"
    using assms by (auto simp: rdma_parts Let_def)
  define k where "k = min (min (min room (length bs)) (4194304 - ?p mod 4194304)) rdma_CHUNK"
  have k: "0 < k" "k \<le> room" "k \<le> length bs" "k \<le> 4194304 - ?p mod 4194304"
    using h(1,2) by (auto simp: k_def rdma_CHUNK_def)
  have e: "stage_bytes bs room d = d\<lparr>d_staging := blit (d_staging d) (?p mod 4194304) (take k bs), d_poster := PPost bs k\<rparr>"
    using nums_facts(4) [of d n] assms(1) by (simp add: stage_bytes_def Let_def k_def rdma_ok_def)
  have set: "ring_set 4194304 (d_staging d) ?p (take k bs) (blit (d_staging d) (?p mod 4194304) (take k bs))"
    using k by (intro blit_is_ring_set) auto
  have "ring_get 4194304 (blit (d_staging d) (?p mod 4194304) (take k bs)) ?c (?p - ?c) = drop ?c (d_put d)"
    using ring_set_other [OF _ set, of ?c "?p - ?c"] assms(1) h k by (simp add: rdma_parts)
  moreover have "ring_get 4194304 (blit (d_staging d) (?p mod 4194304) (take k bs)) ?p k = take k bs"
    using ring_set_get [OF set] k(3) by (simp add: min_absorb2)
  ultimately show ?thesis unfolding e using assms(1) h k by (auto simp: rdma_parts Let_def)
qed

lemma lands_ok:
  assumes "rdma_ok d n" "\<not> d_down d" "d_flying d = Data i a k # fs"
  shows "rdma_ok (d\<lparr>d_inbox := blit (d_inbox d) a (span (d_staging d) a k), d_flying := fs,
    d_landed := d_landed d @ [i], d_arrived := d_arrived d @ [arrival k]\<rparr>) (n\<lparr>n_landed := n_landed n + k\<rparr>)"
proof -
  let ?l = "n_landed n" and ?p = "length (d_put d)" and ?g = "length (d_got d)" and ?c = "n_completed n"
  have q: "i = ucast (of_nat (?l + k) :: u32)" "a = ?l mod 4194304" "k \<le> 4194304 - a" "?l + k \<le> ?p" "flying_ok (?l + k) ?p fs"
    using assms by (auto simp: rdma_parts)
  have o: "?c \<le> ?l" "?g \<le> ?l" "?p \<le> ?g + 4194304" "n_seen n \<le> ?l" using assms(1) by (auto simp: rdma_parts Let_def)
  have "take k (drop (?l - ?c) (ring_get 4194304 (d_staging d) ?c (?p - ?c))) = take k (drop (?l - ?c) (drop ?c (d_put d)))"
    using assms(1) by (simp add: rdma_parts)
  then have src: "ring_get 4194304 (d_staging d) ?l k = take k (drop ?l (d_put d))"
    using o(1) q(4) by (simp add: drop_ring_get take_ring_get)
  have sp: "span (d_staging d) a k = take k (drop ?l (d_put d))"
    using src q(2,3) by (simp add: span_is_ring_get)
  have set: "ring_set 4194304 (d_inbox d) ?l (span (d_staging d) a k) (blit (d_inbox d) a (span (d_staging d) a k))"
    using q(2,3) blit_is_ring_set [of 4194304 "span (d_staging d) a k" ?l "d_inbox d"] by simp
  let ?i = "blit (d_inbox d) a (span (d_staging d) a k)"
  have "ring_get 4194304 ?i ?g (?l - ?g) = take (?l - ?g) (drop ?g (d_put d))"
    using ring_set_other [OF _ set, of ?g "?l - ?g"] assms(1) o q(4) by (simp add: rdma_parts)
  moreover have "ring_get 4194304 ?i ?l k = take k (drop ?l (d_put d))"
    using ring_set_get [OF set] unfolding length_span sp [symmetric] .
  ultimately have ib: "ring_get 4194304 ?i ?g (?l + k - ?g) = take (?l + k - ?g) (drop ?g (d_put d))"
    using o(2) ring_get_add [of 4194304 ?i ?g "?l - ?g" k] take_add [of "?l - ?g" k "drop ?g (d_put d)"] by simp
  have ak: "acks_ok ?c (?l + k) (d_done d @ map (\<lambda>i. completes i 0) (d_landed d @ [i]))"
    using assms(1) acks_ok_snoc [of ?c ?l "d_done d @ map (\<lambda>i. completes i 0) (d_landed d)" "?l + k" "completes i 0"]
    by (simp add: rdma_parts completes_def q(1))
  have ar: "arrived_ok (n_seen n) (?l + k) (d_arrived d @ [arrival k])"
    using assms(1) by (simp add: rdma_parts arrived_ok_snoc)
  show ?thesis using assms(1,3) q(4,5) o ib ak ar
    by (auto simp: rdma_parts Let_def split: poster.splits)
qed

lemma drain_step_ok:
  assumes "rdma_ok d n" "d_arrived d = cs @ more'" "drain_batch False cs (d_reader d) = (r, res)"
  shows "(\<exists>n'. rdma_ok (d\<lparr>d_reader := r, d_arrived := more'\<rparr>) n') \<and> (\<exists>b. res = Inr b)"
proof -
  have a: "arrived_ok (n_seen n) (n_landed n) (cs @ more')" "i_head (d_reader d) = of_nat (n_seen n)"
    "i_tail (d_reader d) = of_nat (length (d_got d))" "length (d_got d) \<le> n_seen n"
    "n_landed n \<le> length (d_got d) + 4194304"
    using assms(1,2) by (auto simp: rdma_parts Let_def)
  obtain h r' b where h: "drain_batch False cs (d_reader d) = (r', Inr b)" "n_seen n \<le> h" "h \<le> n_landed n"
    "i_head r' = of_nat h" "i_tail r' = i_tail (d_reader d)" "i_told r' = i_told (d_reader d)" "arrived_ok h (n_landed n) more'"
    using drain_ok [OF a] by blast
  have "rdma_ok (d\<lparr>d_reader := r, d_arrived := more'\<rparr>) (n\<lparr>n_seen := h\<rparr>)"
    using assms(1,3) h a(4) by (auto simp: rdma_parts Let_def split: poster.splits)
  then show ?thesis using h(1) assms(3) by auto
qed

lemma take_step_ok:
  assumes "rdma_ok d n" "reader_take (d_inbox d) len (d_reader d) = Inr (bs, r, c)"
    and "cs = (case c of None \<Rightarrow> [] | Some p \<Rightarrow> [p]) \<or> cs = []"
  shows "\<exists>n'. rdma_ok (d\<lparr>d_reader := r, d_got := d_got d @ bs, d_credits := d_credits d @ cs\<rparr>) n'"
proof -
  let ?g = "length (d_got d)" and ?l = "n_landed n" and ?h = "n_seen n" and ?t = "n_told n"
  have a: "i_head (d_reader d) = of_nat ?h" "i_tail (d_reader d) = of_nat ?g" "?g \<le> ?h" "?h \<le> ?l" "?l \<le> ?g + 4194304"
    "?t \<le> ?g" "?g < ?t + 1048576" "i_told (d_reader d) = of_nat ?t" "?l \<le> length (d_put d)" "?l \<le> ?t + 4194304"
    using assms(1) by (auto simp: rdma_parts Let_def)
  define k where "k = min (min (?h - ?g) len) (4194304 - ?g mod 4194304)"
  have k: "?g + k \<le> ?h" "k \<le> 4194304 - ?g mod 4194304" using a(3) by (auto simp: k_def)
  have held: "reader_held (d_reader d) = Inr (?h - ?g)" using a by (intro held_value) auto
  have bs: "span (d_inbox d) (?g mod 4194304) k = take k (drop ?g (d_put d))"
  proof -
    have "take k (ring_get 4194304 (d_inbox d) ?g (?l - ?g)) = take k (take (?l - ?g) (drop ?g (d_put d)))"
      using assms(1) by (simp add: rdma_parts)
    then show ?thesis using k a(4) by (simp add: span_is_ring_get take_ring_get)
  qed
  let ?r = "(d_reader d)\<lparr>i_tail := of_nat (?g + k)\<rparr>"
  have dist: "unat (of_nat (?g + k) - of_nat ?t :: u32) = ?g + k - ?t"
    using rdma.distance [of ?t "?g + k"] k(1) a by simp
  define due where "due \<longleftrightarrow> 1048576 \<le> ?g + k - ?t"
  have ce: "CREDIT_EVERY \<le> of_nat (?g + k) - of_nat ?t \<longleftrightarrow> due"
    unfolding word_le_nat_alt dist by (simp add: CREDIT_EVERY_def due_def)
  have "reader_take (d_inbox d) len (d_reader d) =
      (if due then Inr (take k (drop ?g (d_put d)), ?r\<lparr>i_told := of_nat (?g + k)\<rparr>, Some (of_nat (?g + k)))
       else Inr (take k (drop ?g (d_put d)), ?r, None))"
    using held rdma.offset [of ?g] ce bs a(2,8) by (simp add: reader_take_def Let_def k_def)
  then have res: "bs = take k (drop ?g (d_put d))" "r = (if due then ?r\<lparr>i_told := of_nat (?g + k)\<rparr> else ?r)"
    "c = (if due then Some (of_nat (?g + k)) else None)" using assms(2) by (auto split: if_splits)
  have len: "length bs = k" using k(1) a(4,9) by (simp add: res(1))
  have put: "d_put d = (d_got d @ bs) @ drop (?g + k) (d_put d)"
    using nums_facts(2) [of d n] assms(1) append_take_drop_id [of k "drop ?g (d_put d)"]
    by (simp add: rdma_ok_def res(1) add.commute)
  then have pre: "prefix (d_got d @ bs) (d_put d)" by (metis prefixI)
  have "drop k (ring_get 4194304 (d_inbox d) ?g (?l - ?g)) = drop k (take (?l - ?g) (drop ?g (d_put d)))"
    using assms(1) by (simp add: rdma_parts)
  then have ib: "ring_get 4194304 (d_inbox d) (?g + k) (?l - (?g + k)) = take (?l - (?g + k)) (drop (?g + k) (d_put d))"
    using k(1) a(4) by (simp add: drop_ring_get drop_take add.commute)
  have cr: "credits_ok (n_known n) (if due then ?g + k else ?t) (d_credits d @ cs)"
  proof -
    have c0: "credits_ok (n_known n) ?t (d_credits d)" using assms(1) by (simp add: rdma_parts)
    then show ?thesis using assms(3) a(6) credits_ok_snoc [OF c0, of "?g + k"] credits_ok_mono [OF c0, of "?g + k"]
      by (auto simp: res(3))
  qed
  have dd: "\<not> due \<Longrightarrow> ?g + k < ?t + 1048576" by (auto simp: due_def)
  have "rdma_ok (d\<lparr>d_reader := r, d_got := d_got d @ bs, d_credits := d_credits d @ cs\<rparr>)
      (n\<lparr>n_told := (if due then ?g + k else ?t)\<rparr>)"
    using assms(1) a k(1) len pre ib cr dd
    by (auto simp: rdma_parts Let_def res(2) split: poster.splits)
  then show ?thesis by blast
qed

lemma rdma_ok_step:
  assumes "rdma_step d d'" "rdma_ok d n"
  shows "\<exists>n'. rdma_ok d' n'"
  using assms
proof (induction rule: rdma_step.induct)
  case (p_start d bs)
  then have "rdma_ok (poster_start bs d) n" by (auto simp: poster_start_def rdma_parts Let_def)
  then show ?case by blast
next
  case (p_look d bs completed)
  then show ?case using room_look_ok by blast
next
  case (p_stage d bs room)
  then show ?case using stage_bytes_ok by blast
next
  case (lands d i a k fs)
  then show ?case using lands_ok by blast
next
  case (lands_position d fs)
  have "acks_ok (n_completed n) (n_landed n) ((d_done d @ map (\<lambda>i. completes i 0) (d_landed d)) @ [completes CREDIT 0])"
    using lands_position by (intro acks_ok_snoc [of _ "n_landed n"]) (simp_all add: rdma_parts completes_def CREDIT_def)
  with lands_position have "rdma_ok (d\<lparr>d_flying := fs, d_landed := d_landed d @ [CREDIT]\<rparr>) n"
    by (simp add: rdma_parts Let_def cong: poster.case_cong)
  then show ?case by blast
next
  case (acked d i "is")
  then have "rdma_ok (d\<lparr>d_landed := is, d_done := d_done d @ [completes i 0]\<rparr>) n"
    by (simp add: rdma_parts Let_def cong: poster.case_cong)
  then show ?case by blast
next
  case (landed_fails d i "is" st)
  then have "acks_ok (n_completed n) (n_landed n) (d_done d @ completes i 0 # map (\<lambda>i. completes i 0) is)"
    by (simp add: rdma_parts)
  from acks_ok_fail [OF this landed_fails(2)]
  have "acks_ok (n_completed n) (n_landed n) (d_done d @ completes i st # map (\<lambda>i. completes i 0) is)" .
  with landed_fails have "rdma_ok (d\<lparr>d_down := True, d_landed := is, d_done := d_done d @ [completes i st]\<rparr>) n"
    by (simp add: rdma_parts Let_def cong: poster.case_cong)
  then show ?case by blast
next
  case (flying_fails d f fs st i)
  then have "acks_ok (n_completed n) (n_landed n) (d_done d @ [completes i st])"
    by (intro acks_ok_snoc [of _ "n_landed n"]) (simp_all add: rdma_parts completes_def)
  with flying_fails have "rdma_ok (d\<lparr>d_down := True, d_flying := fs, d_done := d_done d @ [completes i st]\<rparr>) n"
    by (simp add: rdma_parts Let_def cong: poster.case_cong)
  then show ?case by blast
next
  case (credited d c cs)
  then obtain k where "c = of_nat k" "n_known n \<le> k" "k \<le> n_told n" "credits_ok k (n_told n) cs"
    by (auto simp: rdma_parts)
  with credited have "rdma_ok (d\<lparr>d_counter := c, d_credits := cs\<rparr>) (n\<lparr>n_known := k\<rparr>)"
    by (auto simp: rdma_parts Let_def split: poster.splits)
  then show ?case by blast
next
  case (flushes d)
  then have "rdma_ok (d\<lparr>d_arrived := d_arrived d @ [flushed]\<rparr>) n"
    by (simp add: rdma_parts Let_def arrived_ok_flush cong: poster.case_cong)
  then show ?case by blast
next
  case (r_side_ends d)
  then have "rdma_ok (d\<lparr>d_reader := (d_reader d)\<lparr>i_ended := True\<rparr>\<rparr>) n"
    by (simp add: rdma_parts Let_def cong: poster.case_cong)
  then show ?case by blast
next
  case (r_drain d cs more' r res)
  then show ?case using drain_step_ok by blast
next
  case (ended d)
  then have "rdma_ok (d\<lparr>d_gone := True\<rparr>) n" by (simp add: rdma_parts Let_def cong: poster.case_cong)
  then show ?case by blast
next
  case (p_call d r bs)
  then have "rdma_ok (d\<lparr>d_poster := PStart bs\<rparr>) n" by (simp add: rdma_parts)
  then show ?case by blast
next
  case (p_reap d bs)
  then show ?case using room_reap_ok by blast
next
  case (p_reap_fails d bs)
  then have "rdma_ok (d\<lparr>d_sends := (d_sends d)\<lparr>s_failed := True\<rparr>, d_poster := POut (Inl BrokenPipe)\<rparr>) n"
    by (simp add: rdma_parts)
  then show ?case by blast
next
  case (p_full d bs)
  then have "rdma_ok (room_full bs d) n" by (simp add: rdma_parts room_full_def)
  then show ?case by blast
next
  case (p_stalled d bs)
  then have "rdma_ok (d\<lparr>d_poster := POut (Inl TimedOut)\<rparr>) n" by (simp add: rdma_parts)
  then show ?case by blast
next
  case (p_post d bs k)
  then show ?case using post_data_ok by blast
next
  case (p_post_fails d bs k)
  then have "rdma_ok (d\<lparr>d_poster := POut (Inl IoOther)\<rparr>) n" by (simp add: rdma_parts)
  then show ?case by blast
next
  case (p_position d)
  then show ?case using post_position_ok by blast
next
  case (r_take d len bs r c cs)
  then show ?case using take_step_ok by blast
qed

lemma rdma_inv_step: "rdma_step d d' \<Longrightarrow> rdma_inv d \<Longrightarrow> rdma_inv d'"
  unfolding rdma_inv_def using rdma_ok_step by blast

lemma rdma_inv_start: "rdma_start d \<Longrightarrow> rdma_inv d"
  unfolding rdma_inv_def
  by (rule exI [of _ "\<lparr>n_landed = 0, n_seen = 0, n_completed = 0, n_told = 0, n_known = 0\<rparr>"])
     (simp add: rdma_start_def rdma_parts ring_get_def SENDS_def)

interpretation posts: byte_stream rdma_start rdma_step rdma_inv d_put d_got
  by unfold_locales (auto simp: rdma_inv_start rdma_inv_step, auto simp: rdma_inv_def rdma_parts Let_def)

section \<open>Properties\<close>

text \<open>C23: in every interleaving of the two ends and the fabric, the reader gets the posted bytes in
  order and each once, nothing between its two positions has been overwritten, neither end ever
  refuses the other's positions, and the send queue never has more than it holds.\<close>

theorem posted_bytes_arrive_in_order:
  assumes "reach rdma_start rdma_step d"
  shows "prefix (d_got d) (d_put d) \<and>
    (\<exists>k. reader_held (d_reader d) = Inr k \<and>
       prefix (d_got d @ ring_get rdma_RING (d_inbox d) (unat (i_tail (d_reader d)) mod rdma_RING) k) (d_put d)) \<and>
    (\<forall>bs c. d_poster d = PLook bs c \<longrightarrow> d_poster (room_look bs c d) \<noteq> POut (Inl InvalidData)) \<and>
    (\<forall>cs more'. d_arrived d = cs @ more' \<longrightarrow> (\<exists>r b. drain_batch False cs (d_reader d) = (r, Inr b))) \<and>
    s_outstanding (d_sends d) \<le> SENDS"
proof -
  obtain n where n: "rdma_ok d n" using posts.reach_inv [OF assms] by (auto simp: rdma_inv_def)
  let ?g = "length (d_got d)" and ?h = "n_seen n"
  have a: "i_head (d_reader d) = of_nat ?h" "i_tail (d_reader d) = of_nat ?g" "?g \<le> ?h" "?h \<le> n_landed n"
    "n_landed n \<le> ?g + 4194304" using n by (auto simp: rdma_parts Let_def)
  have held: "reader_held (d_reader d) = Inr (?h - ?g)" using a by (intro held_value) auto
  have "ring_get 4194304 (d_inbox d) (unat (i_tail (d_reader d)) mod 4194304) (?h - ?g) =
      take (?h - ?g) (drop ?g (d_put d))"
  proof -
    have "take (?h - ?g) (ring_get 4194304 (d_inbox d) ?g (n_landed n - ?g)) =
        take (?h - ?g) (take (n_landed n - ?g) (drop ?g (d_put d)))" using n by (simp add: rdma_parts)
    then have "ring_get 4194304 (d_inbox d) ?g (?h - ?g) = take (?h - ?g) (drop ?g (d_put d))"
      using a(4) by (simp add: take_ring_get)
    then show ?thesis using rdma.offset [of ?g] by (simp add: a(2) ring_get_def mod_add_left_eq)
  qed
  moreover have "d_put d = d_got d @ drop ?g (d_put d)" using nums_facts(2) n by (auto simp: rdma_ok_def)
  ultimately have "prefix (d_got d @ ring_get 4194304 (d_inbox d) (unat (i_tail (d_reader d)) mod 4194304) (?h - ?g)) (d_put d)"
    by (metis same_prefix_prefix take_is_prefix)
  moreover have "s_outstanding (d_sends d) \<le> SENDS" using n by (simp add: rdma_parts)
  moreover have "\<exists>r b. drain_batch False cs (d_reader d) = (r, Inr b)" if "d_arrived d = cs @ more'" for cs more'
    using drain_step_ok [OF n that] by (cases "drain_batch False cs (d_reader d)") auto
  ultimately show ?thesis using posts.reach_order [OF assms] held room_look_ok [OF n] by auto
qed

text \<open>A writer is not starved: once everything posted has landed, been read and been reaped, and
  the positions told have arrived, a writer that looks for room finds at least three quarters of
  the ring.\<close>

theorem a_read_ring_has_room:
  assumes "reach rdma_start rdma_step d" "d_poster d = PLook bs (s_completed (d_sends d))"
    and "d_got d = d_put d" "d_counter d = i_told (d_reader d)" "s_completed (d_sends d) = d_head d"
  shows "\<exists>room. d_poster (room_look bs (s_completed (d_sends d)) d) = PHave bs room \<and> 3 * (rdma_RING div 4) < room"
proof -
  obtain n where n: "rdma_ok d n" using posts.reach_inv [OF assms(1)] by (auto simp: rdma_inv_def)
  let ?p = "length (d_put d)"
  have a: "d_head d = of_nat ?p" "i_told (d_reader d) = of_nat (n_told n)" "n_told n \<le> ?p" "?p < n_told n + 1048576"
    using n assms(3) by (auto simp: rdma_parts Let_def)
  have "unat (d_head d - d_counter d) = ?p - n_told n"
    using rdma.distance [of "n_told n" ?p] a assms(4) by simp
  then show ?thesis using a(3,4) assms(5) by (auto simp: room_look_def Let_def)
qed

definition rdma_new :: rdma where
  "rdma_new = \<lparr>d_staging = (\<lambda>_. 0), d_head = 0, d_sends = \<lparr>s_outstanding = 0, s_completed = 0, s_failed = False\<rparr>,
     d_done = [], d_counter = 0, d_gone = False, d_poster = POut (Inr ()), d_flying = [], d_landed = [], d_down = False,
     d_credits = [], d_inbox = (\<lambda>_. 0), d_arrived = [],
     d_reader = \<lparr>i_head = 0, i_tail = 0, i_told = 0, i_ended = False\<rparr>, d_put = [], d_got = []\<rparr>"

definition rdma_looking :: rdma where
  "rdma_looking = room_reap [7, 9] (poster_start [7, 9] (rdma_new\<lparr>d_poster := PStart [7, 9]\<rparr>))"

definition rdma_posted :: rdma where
  "rdma_posted = post_data [7, 9] 2 (stage_bytes [7, 9] rdma_RING (room_look [7, 9] 0 rdma_looking))"

definition rdma_sent :: rdma where
  "rdma_sent = rdma_posted\<lparr>d_inbox := blit (d_inbox rdma_posted) 0 (span (d_staging rdma_posted) 0 2), d_flying := [],
     d_landed := d_landed rdma_posted @ [2], d_arrived := d_arrived rdma_posted @ [arrival 2]\<rparr>"

lemmas rdma_run_defs = rdma_sent_def rdma_posted_def rdma_looking_def rdma_new_def post_data_def stage_bytes_def
  room_look_def room_reap_def poster_start_def Let_def rdma_CHUNK_def SENDS_def arrival_def

lemma rdma_looking_reached: "reach rdma_start rdma_step rdma_looking"
proof -
  have "reach rdma_start rdma_step rdma_new" by (rule reach_start) (simp add: rdma_start_def rdma_new_def)
  then have "reach rdma_start rdma_step (rdma_new\<lparr>d_poster := PStart [7, 9]\<rparr>)"
    by (rule reach_step) (rule p_call, simp add: rdma_new_def)
  then have "reach rdma_start rdma_step (poster_start [7, 9] (rdma_new\<lparr>d_poster := PStart [7, 9]\<rparr>))"
    by (rule reach_step) (rule p_start, simp)
  then show ?thesis unfolding rdma_looking_def
    by (rule reach_step) (rule p_reap, simp add: rdma_run_defs)
qed

lemma rdma_sent_reached: "reach rdma_start rdma_step rdma_sent"
proof -
  have "reach rdma_start rdma_step (room_look [7, 9] 0 rdma_looking)"
    by (rule reach_step [OF rdma_looking_reached]) (rule p_look, simp add: rdma_run_defs)
  then have "reach rdma_start rdma_step (stage_bytes [7, 9] rdma_RING (room_look [7, 9] 0 rdma_looking))"
    by (rule reach_step) (rule p_stage, simp add: rdma_run_defs)
  then have "reach rdma_start rdma_step rdma_posted" unfolding rdma_posted_def
    by (rule reach_step) (rule p_post, simp add: rdma_run_defs)
  then show ?thesis unfolding rdma_sent_def
    by (rule reach_step) (rule lands, simp_all add: rdma_run_defs)
qed

theorem posted_bytes_arrive_in_order_witness:
  "\<exists>r b. drain_batch False [arrival 2] (d_reader rdma_sent) = (r, Inr b)"
proof -
  have "d_arrived rdma_sent = [arrival 2] @ []" by (simp add: rdma_run_defs)
  then show ?thesis using posted_bytes_arrive_in_order [OF rdma_sent_reached] by blast
qed

theorem a_read_ring_has_room_witness:
  "\<exists>room. d_poster (room_look [7, 9] (s_completed (d_sends rdma_looking)) rdma_looking) = PHave [7, 9] room \<and>
     3 * (rdma_RING div 4) < room"
  by (rule a_read_ring_has_room [OF rdma_looking_reached]) (simp_all add: rdma_run_defs)

theorem records_round_trip_witness:
  "record_decode (record_encode \<lparr>r_qpn = 0x00012345, r_psn = 0x00abcdef, r_gid = replicate 16 7, r_mtu = 5,
     r_addr = 0x7f0012345000, r_rkey = 0xdeadbeef\<rparr>) =
   Inr \<lparr>r_qpn = 0x00012345, r_psn = 0x00abcdef, r_gid = replicate 16 7, r_mtu = 5,
     r_addr = 0x7f0012345000, r_rkey = 0xdeadbeef\<rparr>"
  using records_round_trip [of "\<lparr>r_qpn = 0x00012345, r_psn = 0x00abcdef, r_gid = replicate 16 7, r_mtu = 5,
     r_addr = 0x7f0012345000, r_rkey = 0xdeadbeef\<rparr>"] by simp

end
