(* ===== verification/Waits.thy ===== *)
theory Waits
  imports Prelude
begin

text \<open>
  How long a thread of the remote link polls before it sleeps
  (\<open>guatiao-source-remote/src/link/waiting.rs\<close>): the typical wait, a 64-bit count of
  nanoseconds kept by \<open>saw\<close>, and the polling time \<open>poll\<close> gives under a cap and a number of
  cores. Durations are counts of nanoseconds; a \<open>Duration\<close> holds every sum taken here.
\<close>

definition wait_FLOOR :: nat where
  "wait_FLOOR = 50 * 1000"

definition wait_FIRST :: u64 where
  "wait_FIRST = 50 * 1000"

record waiting =
  w_cap :: nat
  w_typical :: u64
  w_polling :: nat
  w_cores :: nat

definition waiting_new :: "nat \<Rightarrow> nat \<Rightarrow> waiting" where
  "waiting_new cap cores = \<lparr>w_cap = cap, w_typical = wait_FIRST, w_polling = 0, w_cores = cores\<rparr>"

text \<open>\<open>poll\<close>: how long to poll, whether the thread now counts as polling, and the state after.\<close>

definition wait_poll :: "waiting \<Rightarrow> nat \<times> bool \<times> waiting" where
  "wait_poll w =
     (let typical = unat (w_typical w); past = typical + typical div 2 in
      if w_cap w < past \<or> w_cap w = 0 then (0, False, w)
      else if w_cores w \<le> w_polling w then (0, False, w)
      else (max past (min wait_FLOOR (w_cap w)), True, w\<lparr>w_polling := w_polling w + 1\<rparr>))"

text \<open>A \<open>Polling\<close> guard dropped.\<close>

definition poll_drop :: "waiting \<Rightarrow> waiting" where
  "poll_drop w = w\<lparr>w_polling := w_polling w - 1\<rparr>"

definition sat_mul4 :: "u64 \<Rightarrow> u64" where
  "sat_mul4 e = (if unat e * 4 < 2 ^ 64 then e * 4 else - 1)"

definition as_u64_nanos :: "nat \<Rightarrow> u64" where
  "as_u64_nanos took = (if took < 2 ^ 64 then of_nat took else - 1)"

definition wait_next :: "u64 \<Rightarrow> u64 \<Rightarrow> u64" where
  "wait_next e s =
     max 1 (if s < e then e - (e - s) div 4 else e + (min s (sat_mul4 e) - e) div 16)"

definition wait_saw :: "nat \<Rightarrow> waiting \<Rightarrow> waiting" where
  "wait_saw took w = w\<lparr>w_typical := wait_next (w_typical w) (as_u64_nanos took)\<rparr>"

section \<open>Arithmetic without wrap-around\<close>

lemma unat_sat_mul4: "unat (sat_mul4 e) = min (unat e * 4) (2 ^ 64 - 1)"
proof (cases "unat e * 4 < 2 ^ 64")
  case True
  then have "unat (e * 4) = unat e * 4" by (simp add: unat_word_ariths)
  then show ?thesis using True by (simp add: sat_mul4_def)
next
  case False
  have "unat (- 1 :: u64) = 2 ^ 64 - 1" by (simp add: unsigned_minus_1_eq_mask mask_eq_exp_minus_1)
  then show ?thesis using False by (simp add: sat_mul4_def)
qed

lemma unat_as_u64: "unat (as_u64_nanos t) = min t (2 ^ 64 - 1)"
proof (cases "t < 2 ^ 64")
  case True
  then show ?thesis by (simp add: as_u64_nanos_def unat_of_nat)
next
  case False
  have "unat (- 1 :: u64) = 2 ^ 64 - 1" by (simp add: unsigned_minus_1_eq_mask mask_eq_exp_minus_1)
  then show ?thesis using False by (simp add: as_u64_nanos_def)
qed

lemma unat_max_word: "unat (max a b) = max (unat a) (unat (b :: 'w::len word))"
  by (simp add: max_def word_le_nat_alt)

lemma unat_min_word: "unat (min a b) = min (unat a) (unat (b :: 'w::len word))"
  by (simp add: min_def word_le_nat_alt)

lemma unat_wait_next:
  "unat (wait_next e s) =
     max 1 (if unat s < unat e then unat e - (unat e - unat s) div 4
            else unat e + (min (unat s) (unat e * 4) - unat e) div 16)"
proof (cases "s < e")
  case True
  then have "unat (e - s) = unat e - unat s" by (simp add: unat_sub word_less_nat_alt word_le_nat_alt)
  then have d: "unat ((e - s) div 4) = (unat e - unat s) div 4" by (simp add: unat_div)
  then have "(e - s) div 4 \<le> e" by (simp add: word_le_nat_alt)
  then have "unat (e - (e - s) div 4) = unat e - (unat e - unat s) div 4" by (simp add: unat_sub d)
  then show ?thesis using True by (simp add: wait_next_def unat_max_word word_less_nat_alt)
next
  case False
  let ?m = "min s (sat_mul4 e)"
  have se: "unat e \<le> unat s" "unat s < 2 ^ 64" using False unsigned_less [of s] by (auto simp: word_less_nat_alt)
  have m: "unat ?m = min (unat s) (unat e * 4)" using se(2) by (simp add: unat_min_word unat_sat_mul4)
  have "e \<le> ?m" using se(1) by (simp add: word_le_nat_alt m)
  then have d: "unat ((?m - e) div 16) = (min (unat s) (unat e * 4) - unat e) div 16"
    by (simp add: unat_div unat_sub m)
  have "(min (unat s) (unat e * 4) - unat e) div 16 \<le> unat s - unat e" by (simp add: div_le_dividend le_trans)
  then have "unat e + (min (unat s) (unat e * 4) - unat e) div 16 < 2 ^ 64" using se by linarith
  then have "unat (e + (?m - e) div 16) = unat e + (min (unat s) (unat e * 4) - unat e) div 16"
    using unat_add_lem [of e "(?m - e) div 16"] d by simp
  then show ?thesis using False by (simp add: wait_next_def unat_max_word word_less_nat_alt)
qed

lemma next_bounds:
  fixes e s :: nat
  assumes "0 < e" "e' = max 1 (if s < e then e - (e - s) div 4 else e + (min s (e * 4) - e) div 16)"
  shows "0 < e' \<and> max 1 (min e s) \<le> e' \<and> e' \<le> max e s \<and> e' \<le> e + 3 * e div 16 \<and>
    (s < e \<longrightarrow> e' = max 1 (e - (e - s) div 4))"
proof (cases "s < e")
  case True
  have "(e - s) div 4 \<le> e - s" by (rule div_le_dividend)
  then show ?thesis using assms True by auto
next
  case False
  have "(min s (e * 4) - e) div 16 \<le> 3 * e div 16" by (rule div_le_mono) auto
  moreover have "(min s (e * 4) - e) div 16 \<le> s - e" by (rule le_trans [OF div_le_dividend]) auto
  then have "e + (min s (e * 4) - e) div 16 \<le> s" using False by linarith
  ultimately show ?thesis using False assms by auto
qed

section \<open>Properties\<close>

text \<open>A wait moves the typical one towards itself and not past it, a quarter of the way down, and up
  by no more than three sixteenths of what it was, however slow the call; nothing wraps.\<close>

theorem a_wait_moves_the_typical_one:
  assumes "0 < w_typical w"
  shows "(let e = unat (w_typical w); s = min took (2 ^ 64 - 1); e' = unat (w_typical (wait_saw took w)) in
    0 < e' \<and> max 1 (min e s) \<le> e' \<and> e' \<le> max e s \<and> e' \<le> e + 3 * e div 16 \<and>
    (s < e \<longrightarrow> e' = max 1 (e - (e - s) div 4)))"
proof -
  have e: "0 < unat (w_typical w)" using assms by (simp add: word_gt_0_no unat_gt_0)
  have "unat (w_typical (wait_saw took w)) = max 1 (if min took (2 ^ 64 - 1) < unat (w_typical w)
      then unat (w_typical w) - (unat (w_typical w) - min took (2 ^ 64 - 1)) div 4
      else unat (w_typical w) + (min (min took (2 ^ 64 - 1)) (unat (w_typical w) * 4) - unat (w_typical w)) div 16)"
    by (cases w) (simp only: wait_saw_def unat_wait_next unat_as_u64 waiting.select_convs waiting.update_convs)
  from next_bounds [OF e this] show ?thesis unfolding Let_def .
qed

theorem a_wait_moves_the_typical_one_witness:
  "unat (w_typical (wait_saw 10000 (waiting_new 200000 4))) = 40000"
  using a_wait_moves_the_typical_one [of "waiting_new 200000 4" 10000]
  by (simp add: waiting_new_def wait_FIRST_def Let_def)

text \<open>A thread polls for no longer than the cap, for at least the floor or the whole cap when it
  polls at all, and never with as many threads polling as there are cores.\<close>

theorem polling_is_bounded:
  assumes "w_polling w \<le> w_cores w" "wait_poll w = (long, polls, w')"
  shows "long \<le> w_cap w \<and> w_polling w' \<le> w_cores w \<and> w_typical w' = w_typical w \<and>
    (if polls then min wait_FLOOR (w_cap w) \<le> long \<and> unat (w_typical w) \<le> long \<and> poll_drop w' = w
     else long = 0 \<and> w' = w)"
  using assms by (auto simp: wait_poll_def poll_drop_def Let_def split: if_splits)

theorem polling_is_bounded_witness:
  "w_polling (snd (snd (wait_poll (waiting_new 200000 4)))) \<le> 4"
  using polling_is_bounded [of "waiting_new 200000 4" 75000 True "(waiting_new 200000 4)\<lparr>w_polling := 1\<rparr>"]
  by (simp add: wait_poll_def waiting_new_def wait_FIRST_def wait_FLOOR_def Let_def)

text \<open>A typical wait of five nanoseconds or less never grows again, however long the waits that
  follow: the most a wait counts for is four times the typical one, and a sixteenth of three times
  five rounds to nothing.\<close>

theorem a_tiny_typical_wait_never_grows:
  assumes "0 < w_typical w" "w_typical w \<le> 5" "unat (w_typical w) \<le> took"
  shows "wait_saw took w = w"
proof -
  have e: "0 < unat (w_typical w)" "unat (w_typical w) \<le> 5"
    using assms(1,2) by (simp_all add: word_gt_0_no unat_gt_0 word_le_nat_alt)
  have "unat (wait_next (w_typical w) (as_u64_nanos took)) = unat (w_typical w)"
    using e assms(3) by (simp add: unat_wait_next unat_as_u64)
  then show ?thesis by (simp add: wait_saw_def word_unat_eq_iff)
qed

theorem a_tiny_typical_wait_never_grows_witness:
  "wait_saw 1000000000 ((waiting_new 200000 4)\<lparr>w_typical := 3\<rparr>) = (waiting_new 200000 4)\<lparr>w_typical := 3\<rparr>"
  by (rule a_tiny_typical_wait_never_grows) simp_all

end
