(* ===== verification/Spec2Isabelle.thy ===== *)
theory Spec2Isabelle
  imports Walkers Intake_Path Provenance Redact Handshake Pool Calls Gate Shm Rdma Waits
begin

text \<open>
  A verification library for guatiao, a Rust library that carries configuration trees between
  programs, plugins and machines. Everything in guatiao is built over one value model (the
  crate \<open>guatiao\<close>, \<open>src/crates/guatiao/src/value/\<close>); this library models that core from its
  source, and the byte-carrying layers of the remote link above it (the crate
  \<open>guatiao-source-remote\<close>, \<open>src/crates/guatiao-source-remote/src/\<close>), and proves what makes
  them correct.

  \<^bold>\<open>How the parts interact.\<close> A \<open>Value\<close> is a tree of scalars, lists and maps with text
  keys. Trees come in through the wire decoder, through text (dates, spans, numbers) or are
  built key by key; they are copied and compared by walks that keep their own stack; layers of
  them are merged, with a record of which layer each leaf came from; paths in text name a
  place in one; and a schema, itself a tree, says which trees are accepted and what in them is
  secret. A tree can also be walked as events into a sink, which is how it is written to
  the wire without being built, and read from it. Two machines share trees over a remote link:
  the protocol's frames carry wire-encoded values, a gate orders the frames of many threads
  behind one writer, and a transport (a byte stream, a ring in shared memory, a ring over RDMA)
  carries them. Each theory models one of these parts and imports the parts it calls.

  \<^bold>\<open>The theories.\<close>
  \<^item> \<open>Prelude\<close>: results as sums (\<open>Inl\<close> the error), a panic as a value (\<open>failure\<close>), folds
    that stop at a refusal, bytes and UTF-8, decimal numerals. No code of the repository.
  \<^item> \<open>Values\<close>: \<open>value/value.rs\<close>, \<open>error.rs\<close>, \<open>types/number.rs\<close>: the tag space, the tree
    (with raw nodes standing for foreign tags and foreign bytes the doors must refuse), the
    errors, and the JSON number scanner, proved to accept exactly the grammar and to stop at the
    first byte that leaves it.
  \<^item> \<open>Walks\<close>: \<open>value/value.rs\<close>, \<open>walk.rs\<close>: the doors a value is read through, the stack
    machines for equality, hashing and copying, proved equal to structural equality and to the
    identity (or the first refusal).
  \<^item> \<open>Maps\<close>: \<open>types/map.rs\<close>, \<open>wire/keys.rs\<close>: a map as its entries in order, the
    keyed operations, the seeded hash of keys, the key index, bulk filling and lookup. The
    locale \<open>keyed_store\<close> states what storing promises; both the plain map and the filling are
    interpretations of it, which is how the two agree.
  \<^item> \<open>Wire\<close> and \<open>Wire_Laws\<close>: \<open>wire/mod.rs\<close>: encoder, exact length, reader and decoder, and
    their laws: the encoding is canonical, decoding inverts it and accepts nothing else, its
    answer does not depend on the seeds drawn, its errors point into the input.
  \<^item> \<open>Merge_Path\<close> and \<open>Intake_Path\<close>: \<open>merge/path.rs\<close> and the intake crate's
    \<open>path/mod.rs\<close>, \<open>path/walk.rs\<close>: the two path languages, their round trips, that the one
    reads what the other prints, and get and set through a path.
  \<^item> \<open>Merge\<close>, \<open>Merge_Laws\<close>, \<open>Provenance\<close>: \<open>merge/mod.rs\<close>: the three merge modes with
    overrides and list merging as one set of mutually recursive functions, the rule each mode
    follows, and the record of layers: the claims, what replacing forgets, and the range scan
    of \<open>source_of\<close>.
  \<^item> \<open>Calendar\<close>, \<open>Times\<close>: \<open>time/mod.rs\<close>, \<open>date.rs\<close>, \<open>clock.rs\<close>, \<open>datetime.rs\<close>,
    \<open>timestamp.rs\<close>: the civil calendar (day numbers proved to count the days of the calendar
    as one reads it), the four types, their text and its reader, the UTC reading and the orders.
  \<^item> \<open>Spans\<close>: \<open>span.rs\<close>, \<open>span/parse.rs\<close>: spans, their two text forms, durations, and
    what a date makes of a span.
  \<^item> \<open>Convert\<close>: \<open>convert.rs\<close>, \<open>convert/\<close>: a Rust type as the pair of functions that write and
    read it. The locale \<open>conversion\<close> says what such a pair promises (what it writes it reads back,
    and it reads only the kinds it names), \<open>map_key\<close> and \<open>shown\<close> the same for keys and for types
    that cross as text; scalars interpret it, and lists, sets, optional values, pairs and maps of
    types that keep it keep it. Integers and numbers of seconds are read exactly.
  \<^item> \<open>Decimals\<close>, \<open>Schema\<close>, \<open>Validate\<close>, \<open>Validate_Laws\<close>, \<open>Redact\<close>: \<open>schema/validate.rs\<close>,
    \<open>read.rs\<close>, \<open>vocab.rs\<close>, \<open>pattern.rs\<close>, \<open>redact.rs\<close>: a JSON Schema held in a tree. Numbers are
    compared as text and proved to be ordered as the rationals they denote; the readers find a
    schema's kind, fields and arms through the wrappers that add nothing; the checks of a text, a
    value and a document accept exactly what the specification \<open>sat\<close> describes, which has no keys,
    refusals or order of checking; and a redacted copy does not depend on what is marked. Floating
    point and the engine of regular expressions are arguments. The depth bound is counted down.
  \<^item> \<open>Events\<close>, \<open>Streams\<close>, \<open>Walkers\<close>: \<open>visit/mod.rs\<close>, \<open>visit/tree.rs\<close>,
    \<open>wire/stream.rs\<close>: the events of a sink with the grammar of the sequences that spell a value,
    the walk of a tree, the sink that builds one and the encoder that writes one as it goes, and
    the walk of wire bytes. The locales \<open>sink\<close> and \<open>strict_sink\<close> state what a sink promises; the
    tree's sink and the encoder interpret them, and the theorems that walking bytes is walking
    their tree hold for any sink.
  \<^item> \<open>Bytes\<close>, \<open>Frames\<close>, \<open>Framing\<close>: \<open>protocol/codec.rs\<close>, \<open>protocol/mod.rs\<close>,
    \<open>transport/stream.rs\<close>: the fields and the thirteen frames of the remote protocol, proved to
    decode from exactly their spelling; the length before each frame on a byte stream; and the two
    composed: messages sent through any partial writes and any pieces of reads arrive.
  \<^item> \<open>Handshake\<close>: \<open>link/handshake.rs\<close> and, of \<open>link/mod.rs\<close>, the options of a link, \<open>client\<close>,
    \<open>server\<close> and what \<open>start\<close> settles: the first messages, at every level of trust, over the streams
    of \<open>Framing\<close>. HMAC-SHA256 and SHA-256 are an argument whose documented contract
    (\<open>crypto_ok\<close>) the theorems assume. Each end admits exactly a peer that brings what the level asks;
    two honest ends agree; ends with different keys make no link; a stranger raises no bound; a proof
    cannot be sent back or sent again.
  \<^item> \<open>Machines\<close>: reachable states of a step relation, and the locales \<open>machine\<close> (an invariant
    every step keeps) and \<open>byte_stream\<close> (what was taken is the first part of what was put). The
    gate, the pool, its permits and the calls interpret the first, the two rings the second.
  \<^item> \<open>Gate\<close>: \<open>link/gate.rs\<close>: the writer many threads share, as a machine whose steps are
    the critical sections under its lock, for any number of threads. Frames go out in the order
    they were taken, one thread has the writer, and once callers stop it settles within a bound.
  \<^item> \<open>Pool\<close>: \<open>link/pool.rs\<close>: the threads the peer's calls run on, as a machine over multisets of
    callers and workers, and the permits of this side's own calls. Places and threads keep their bounds,
    no job waits for a thread that has gone, the pool settles, and no wake-up of a permit is lost.
  \<^item> \<open>Calls\<close>: \<open>link/mod.rs\<close>: the calls one end makes, as a machine of any number of calls, the
    reader and the end of the link. The table holds the calls in flight, a call hears only its own
    answer, and a call is never left waiting on a link that has ended. A reply can be lost where a
    call runs out of time under the reader's hand.
  \<^item> \<open>Ring_Buffers\<close>, \<open>Shm\<close>, \<open>Rdma\<close>: \<open>transport/shm.rs\<close>, \<open>transport/rdma/ring.rs\<close>: bytes
    in a ring and positions that wrap (the locale \<open>ring_positions\<close>, interpreted at 64 and at 32
    bits), then each ring as a machine of its writer, its reader and what lies between them. The
    shared-memory ring is a stream and loses no wake-up; the RDMA ring is a stream, reuses no
    staged byte too early and does not starve its writer.
  \<^item> \<open>Waits\<close>: \<open>link/waiting.rs\<close>: the typical wait and how long to poll, in 64-bit
    nanoseconds without wrap-around.

  \<^bold>\<open>How code becomes definitions.\<close> A function of the source is a function of the same name
  where that is free (a clash is suffixed or prefixed: \<open>map_get\<close>, \<open>read_text\<close>,
  \<open>span_with\<close>). A \<open>&mut\<close> argument is returned. A \<open>Result\<close> is a sum; an \<open>expect\<close> or an
  index out of range is the value \<open>Panicked\<close>, and the theorems show where it cannot occur. A
  loop over an explicit stack stays one; its termination measure is the weight of what is on
  the stack. What the code draws at random (hash seeds) is an argument, and theorems show that
  nothing depends on it. The machine integers of the wire and of the hash are words; the
  calendar and the spans count in \<open>int\<close> and \<open>nat\<close> with the code's own limits written out,
  and bounds are proved. Strings are lists of bytes.

  Threads and processes are steps of a relation on a state with a program counter for each; a
  lock's critical section, or one access to shared memory, is one step. Accounts the code does not
  keep (the bytes ever put and got, the frames taken) are fields of that state which no step
  reads. What lies outside the code (a stream, the bell's connection, the RDMA fabric, the clock)
  is every behaviour its documentation allows, as events or as steps of the environment.

  \<^bold>\<open>Bounds.\<close> \<open>MAX_DEPTH\<close> is the code's 128 and the rings are of the code's four mebibytes; no
  fuel is used: every loop of a function is shown to terminate, and the loops that wait for another
  thread are steps of a machine.

  \<^bold>\<open>What is not modelled.\<close> Allocators and the homing of trees in them (an allocation that
  fails aborts or is an error the model leaves out), the union layout of a value's payload,
  floating point text, the wiping of secrets, the words of an error, the builders of schemas and
  the inlining of their references, the C ABI, the loaders and engines, the calls the peer makes
  and the objects held for it, the arguments of remote calls, the transports over sockets and TLS,
  the derive macros and the language bindings. Each is listed with its reason in the project's
  manifest.
\<close>

end
